(* ===== verification/Prelude.thy ===== *)
theory Prelude
  imports Main
begin

text \<open>
  Shared vocabulary of the development: the error codes that the program passes around as
  values (\<^verbatim>\<open>std::error_code\<close>), the result type of its fallible operations
  (\<^verbatim>\<open>std::expected\<close>), identifiers of heap objects, and generic lemmas on
  lists, maps and finite counting that several components use.  The locale
  \<open>transition_system\<close> is the contract between a component that is a state machine and the
  lemmas on its reachable states: the component provides an initial predicate, a step relation
  and an invariant, and gets the reachability lemma from an interpretation.
\<close>

section \<open>Errors as values\<close>

text \<open>
  \<^verbatim>\<open>std::error_code\<close>: \<open>No_error\<close> is the value-initialised code (success); the
  named constructors are the \<^verbatim>\<open>std::errc\<close> values the program makes itself;
  \<open>Exit_status\<close>, \<open>Out_not_written\<close> and \<open>Copy_source_unreadable\<close> are the codes of its own two
  categories, the status of a command and the faults of a rule;
  \<open>System_error\<close> is any code the operating system or a library reports.
\<close>

datatype error_code =
    No_error
  | Operation_canceled
  | Resource_deadlock_would_occur
  | No_such_file_or_directory
  | Not_a_directory
  | Is_a_directory
  | File_exists
  | Io_error
  | Permission_denied
  | Invalid_argument
  | Device_or_resource_busy
  | No_such_process
  | Bad_message
  | Protocol_error
  | Not_enough_memory
  | Exit_status int
  | Out_not_written
  | Copy_source_unreadable
  | System_error int

text \<open>\<^verbatim>\<open>std::expected<T, std::error_code>\<close>: \<open>Inl\<close> is the error, \<open>Inr\<close> the value.\<close>

type_synonym 'a expected = "error_code + 'a"

definition has_value :: "'a expected \<Rightarrow> bool" where
  "has_value r = (case r of Inl _ \<Rightarrow> False | Inr _ \<Rightarrow> True)"

lemma has_value_simps [simp]:
  "has_value (Inl e) = False" "has_value (Inr v) = True"
  by (simp_all add: has_value_def)

lemma has_value_E: "has_value r \<Longrightarrow> (\<And>v. r = Inr v \<Longrightarrow> P) \<Longrightarrow> P"
  by (cases r) auto

text \<open>One fallible step after another: the first error is the result.\<close>

definition and_then :: "'e + 'a \<Rightarrow> ('a \<Rightarrow> 'e + 'b) \<Rightarrow> 'e + 'b" where
  "and_then r f = (case r of Inl e \<Rightarrow> Inl e | Inr v \<Rightarrow> f v)"

lemma and_then_simps [simp]:
  "and_then (Inl e) f = Inl e" "and_then (Inr v) f = f v"
  by (simp_all add: and_then_def)

lemma and_then_Inr:
  "and_then r f = Inr y \<longleftrightarrow> (\<exists>x. r = Inr x \<and> f x = Inr y)"
  by (cases r) simp_all

section \<open>Hint collections\<close>

named_theorems model_defs \<open>unfolding equations of the small, non-recursive operations\<close>
named_theorems frame_simps \<open>what an operation leaves unchanged\<close>

section \<open>Lists\<close>

lemma distinct_remove1_set [simp]: "distinct xs \<Longrightarrow> set (remove1 x xs) = set xs - {x}"
  by (rule set_remove1_eq)

lemma remove1_absent: "x \<notin> set xs \<Longrightarrow> remove1 x xs = xs"
  by (rule remove1_idem)

lemma filter_remove1: "filter P (remove1 x xs) = (if P x then remove1 x (filter P xs) else filter P xs)"
  by (induction xs) auto

lemma length_filter_remove1:
  "x \<in> set xs \<Longrightarrow>
   length (filter P (remove1 x xs)) = (if P x then length (filter P xs) - 1 else length (filter P xs))"
  by (simp add: filter_remove1 length_remove1)

lemma filter_false_conv: "(filter P xs = []) = (\<forall>x \<in> set xs. \<not> P x)"
  by (simp add: filter_empty_conv)

lemma distinct_count_list: "distinct xs \<Longrightarrow> x \<in> set xs \<Longrightarrow> count_list xs x = 1"
  by (induction xs) (auto simp: count_list_0_iff)

section \<open>Counting over finite sets of identifiers\<close>

text \<open>How a count of the identifiers with a property moves when one identifier changes.\<close>

lemma card_Collect_add:
  assumes "finite {i. P i}" and "\<not> P x"
  shows "card {i. i = x \<or> P i} = Suc (card {i. P i})"
proof -
  have "{i. i = x \<or> P i} = insert x {i. P i}" by auto
  with assms show ?thesis by simp
qed

lemma card_Collect_del:
  assumes "finite {i. P i}" and "P x"
  shows "card {i. i \<noteq> x \<and> P i} = card {i. P i} - 1"
proof -
  have "{i. i \<noteq> x \<and> P i} = {i. P i} - {x}" by auto
  with assms show ?thesis by simp
qed

lemma card_Collect_pos: "finite {i. P i} \<Longrightarrow> P x \<Longrightarrow> 0 < card {i. P i}"
  by (auto simp: card_gt_0_iff)

section \<open>State machines and their reachable states\<close>

locale transition_system =
  fixes init :: "'s \<Rightarrow> bool"
    and step :: "'s \<Rightarrow> 's \<Rightarrow> bool"
    and inv :: "'s \<Rightarrow> bool"
  assumes init_inv: "init s \<Longrightarrow> inv s"
    and step_inv: "inv s \<Longrightarrow> step s t \<Longrightarrow> inv t"
begin

lemma steps_inv: "step\<^sup>*\<^sup>* s t \<Longrightarrow> inv s \<Longrightarrow> inv t"
  by (induction rule: rtranclp_induct) (auto intro: step_inv)

lemma reachable_inv: "init s \<Longrightarrow> step\<^sup>*\<^sup>* s t \<Longrightarrow> inv t"
  by (blast intro: init_inv steps_inv)

text \<open>
  A relation between two states that is reflexive, transitive and kept by every step from an
  invariant state holds between any state of a run and every later one.
\<close>

lemma steps_monotone:
  assumes "step\<^sup>*\<^sup>* s t" and "inv s"
    and refl: "\<And>s. r s s"
    and trans: "\<And>a b c. r a b \<Longrightarrow> r b c \<Longrightarrow> r a c"
    and keep: "\<And>a b. inv a \<Longrightarrow> step a b \<Longrightarrow> r a b"
  shows "r s t"
  using assms(1)
proof (induction rule: rtranclp_induct)
  case base
  show ?case by (rule refl)
next
  case (step u v)
  from step.hyps(1) assms(2) have "inv u" by (rule steps_inv)
  from this step.hyps(2) have "r u v" by (rule keep)
  with step.IH show ?case by (rule trans)
qed

end

end
