(* ===== verification/Waiter_List.thy ===== *)
theory Waiter_List
  imports Prelude
begin

text \<open>
  The intrusive singly linked list \<^verbatim>\<open>Waiters\<close> of \<^verbatim>\<open>src/buildqueue.hpp\<close>: a pair of
  pointers to its oldest and youngest element, the elements chained through the \<open>next\<close>
  field each of them has.  The fields live in a store from waiter identifiers to pointers, which
  several lists share.  \<open>waiters_repr\<close> relates a list in the store to the sequence of its
  elements; the locale \<open>fifo_store\<close> states what a queue needs of such a list, and the
  interpretation at the end proves that the pointer code provides it.
\<close>

type_synonym wid = nat
type_synonym next_store = "wid \<Rightarrow> wid option"

record waiters =
  wl_first :: "wid option"
  wl_last :: "wid option"

definition waiters_empty :: waiters where
  "waiters_empty = \<lparr>wl_first = None, wl_last = None\<rparr>"

definition waiters_push :: "next_store \<Rightarrow> waiters \<Rightarrow> wid \<Rightarrow> next_store \<times> waiters" where
  "waiters_push h w x =
     (let h = h(x := None) in
      case wl_last w of
        None \<Rightarrow> (h, w\<lparr>wl_first := Some x, wl_last := Some x\<rparr>)
      | Some l \<Rightarrow> (h(l := Some x), w\<lparr>wl_last := Some x\<rparr>))"

definition waiters_pop :: "next_store \<Rightarrow> waiters \<Rightarrow> wid option \<times> waiters" where
  "waiters_pop h w =
     (case wl_first w of
        None \<Rightarrow> (None, w)
      | Some x \<Rightarrow>
          (let w = w\<lparr>wl_first := h x\<rparr> in
           (Some x, if wl_first w = None then w\<lparr>wl_last := None\<rparr> else w)))"

text \<open>
  The loop of \<^verbatim>\<open>remove\<close>, from the node \<open>it\<close> with \<open>previous\<close> behind it.  On a store
  whose chain is circular it does not return, which is the value \<open>None\<close>.
\<close>

partial_function (option) waiters_walk ::
  "next_store \<Rightarrow> waiters \<Rightarrow> wid \<Rightarrow> wid option \<Rightarrow> wid option \<Rightarrow> (next_store \<times> waiters \<times> bool) option" where
  "waiters_walk h w x previous it =
     (case it of
        None \<Rightarrow> Some (h, w, False)
      | Some i \<Rightarrow>
          if i = x then
            (let (h', w') = (case previous of
                               None \<Rightarrow> (h, w\<lparr>wl_first := h i\<rparr>)
                             | Some p \<Rightarrow> (h(p := h i), w))
             in Some (h', if wl_last w' = Some i then w'\<lparr>wl_last := previous\<rparr> else w', True))
          else waiters_walk h w x (Some i) (h i))"

definition waiters_remove ::
  "next_store \<Rightarrow> waiters \<Rightarrow> wid \<Rightarrow> (next_store \<times> waiters \<times> bool) option" where
  "waiters_remove h w x = waiters_walk h w x None (wl_first w)"

section \<open>What a list in the store stands for\<close>

fun linked :: "next_store \<Rightarrow> wid list \<Rightarrow> bool" where
  "linked h [] = True"
| "linked h [x] = (h x = None)"
| "linked h (x # y # zs) = (h x = Some y \<and> linked h (y # zs))"

definition waiters_repr :: "next_store \<Rightarrow> waiters \<Rightarrow> wid list \<Rightarrow> bool" where
  "waiters_repr h w xs \<longleftrightarrow>
     distinct xs \<and> linked h xs \<and>
     wl_first w = (case xs of [] \<Rightarrow> None | x # _ \<Rightarrow> Some x) \<and>
     wl_last w = (if xs = [] then None else Some (last xs))"

lemma linked_cong: "(\<And>x. x \<in> set xs \<Longrightarrow> h x = h' x) \<Longrightarrow> linked h xs = linked h' xs"
  by (induction h xs rule: linked.induct) auto

lemma linked_Cons: "linked h (x # xs) \<longleftrightarrow> h x = (case xs of [] \<Rightarrow> None | y # _ \<Rightarrow> Some y) \<and> linked h xs"
  by (cases xs) auto

lemma linked_snoc:
  assumes "linked h (xs @ [l])" and "x \<notin> set (xs @ [l])" and "l \<notin> set xs"
  shows "linked (h(x := None, l := Some x)) (xs @ [l, x])"
  using assms
proof (induction xs)
  case Nil
  then show ?case by simp
next
  case (Cons a xs)
  then show ?case by (cases xs) auto
qed

lemma linked_append:
  "linked h (us @ i # vs) \<Longrightarrow> linked h (i # vs)"
  by (induction us) (auto simp: linked_Cons)

lemma linked_bypass:
  assumes "linked h (us @ p # i # vs)" and "distinct (us @ p # i # vs)"
  shows "linked (h(p := h i)) (us @ p # vs)"
  using assms
proof (induction us)
  case Nil
  then have "linked h vs" and "p \<notin> set vs" and "h i = (case vs of [] \<Rightarrow> None | y # _ \<Rightarrow> Some y)"
    by (auto simp: linked_Cons)
  moreover from this have "linked (h(p := h i)) vs = linked h vs" by (intro linked_cong) auto
  ultimately show ?case by (simp add: linked_Cons fun_upd_def)
next
  case (Cons a us)
  then show ?case by (cases us) auto
qed

lemma waiters_repr_empty [simp]: "waiters_repr h waiters_empty []"
  by (simp add: waiters_repr_def waiters_empty_def)

lemma waiters_repr_push:
  assumes "waiters_repr h w xs" and "x \<notin> set xs" and "waiters_push h w x = (h', w')"
  shows "waiters_repr h' w' (xs @ [x])"
proof (cases xs rule: rev_cases)
  case Nil
  with assms show ?thesis by (auto simp: waiters_repr_def waiters_push_def)
next
  case (snoc ys l)
  with assms have "h' = h(x := None, l := Some x)" "w' = w\<lparr>wl_last := Some x\<rparr>"
    by (auto simp: waiters_repr_def waiters_push_def)
  moreover from assms snoc have "linked h' (ys @ [l, x])"
    unfolding \<open>h' = _\<close> by (intro linked_snoc) (auto simp: waiters_repr_def)
  moreover have "(case ys @ [l, x] of [] \<Rightarrow> None | z # _ \<Rightarrow> Some z) = (case xs of [] \<Rightarrow> None | z # _ \<Rightarrow> Some z)"
    using snoc by (cases ys) auto
  ultimately show ?thesis
    using assms snoc by (auto simp: waiters_repr_def)
qed

lemma waiters_push_frame:
  assumes "waiters_repr h w xs" and "waiters_repr h v ys" and "set xs \<inter> set ys = {}"
    and "x \<notin> set ys" and "waiters_push h w x = (h', w')"
  shows "waiters_repr h' v ys"
proof -
  have "wl_last w = Some l \<Longrightarrow> l \<in> set xs" for l
    using assms(1) by (auto simp: waiters_repr_def split: if_splits)
  then have "\<And>y. y \<in> set ys \<Longrightarrow> h' y = h y"
    using assms(3-5) by (auto simp: waiters_push_def Let_def split: option.splits if_splits)
  then have "linked h' ys = linked h ys" by (intro linked_cong) auto
  with assms(2) show ?thesis by (simp add: waiters_repr_def)
qed

lemma waiters_repr_pop_Nil: "waiters_repr h w [] \<Longrightarrow> waiters_pop h w = (None, w)"
  by (simp add: waiters_repr_def waiters_pop_def)

lemma waiters_repr_pop_Cons:
  assumes "waiters_repr h w (x # xs)"
  shows "\<exists>w'. waiters_pop h w = (Some x, w') \<and> waiters_repr h w' xs"
  using assms by (auto simp: waiters_repr_def waiters_pop_def linked_Cons split: list.splits)

text \<open>The walk, with the elements \<open>us\<close> and \<open>previous\<close> already passed.\<close>

definition waiters_before :: "wid list \<Rightarrow> wid option" where
  "waiters_before us = (if us = [] then None else Some (last us))"

lemma waiters_walk_repr:
  assumes "waiters_repr h w (us @ vs)" and "x \<notin> set us"
  shows "\<exists>h' w'. waiters_walk h w x (waiters_before us) (case vs of [] \<Rightarrow> None | v # _ \<Rightarrow> Some v)
            = Some (h', w', x \<in> set vs) \<and> waiters_repr h' w' (us @ remove1 x vs) \<and>
            (\<forall>y. y \<notin> set (us @ vs) \<longrightarrow> h' y = h y)"
  using assms
proof (induction vs arbitrary: us)
  case Nil
  then show ?case by (subst waiters_walk.simps) auto
next
  case (Cons i vs)
  from Cons.prems have lnk: "linked h (us @ i # vs)" and dist: "distinct (us @ i # vs)"
    by (auto simp: waiters_repr_def)
  from linked_append [OF lnk] have hi: "h i = (case vs of [] \<Rightarrow> None | v # _ \<Rightarrow> Some v)"
    by (simp add: linked_Cons)
  show ?case
  proof (cases "i = x")
    case False
    have "waiters_before (us @ [i]) = Some i" by (simp add: waiters_before_def)
    with Cons.IH [of "us @ [i]"] Cons.prems False hi show ?thesis
      by (subst waiters_walk.simps) (auto simp: waiters_repr_def)
  next
    case True
    show ?thesis
    proof (cases us rule: rev_cases)
      case Nil
      have "waiters_walk h w x None (Some i) =
          Some (h, if wl_last w = Some i then w\<lparr>wl_first := h i, wl_last := None\<rparr> else w\<lparr>wl_first := h i\<rparr>, True)"
        using True by (subst waiters_walk.simps) simp
      moreover have "wl_last w = Some i \<longleftrightarrow> vs = []"
        using Cons.prems(1) Nil by (cases vs rule: rev_cases) (auto simp: waiters_repr_def)
      ultimately show ?thesis
        using Cons.prems(1) True Nil hi
        by (auto simp: waiters_before_def waiters_repr_def linked_Cons)
    next
      case (snoc ws p)
      have "waiters_walk h w x (Some p) (Some i) =
          Some (h(p := h i), if wl_last w = Some i then w\<lparr>wl_last := Some p\<rparr> else w, True)"
        using True by (subst waiters_walk.simps) simp
      moreover have "wl_last w = Some i \<longleftrightarrow> vs = []"
        using Cons.prems(1) by (cases vs rule: rev_cases) (auto simp: waiters_repr_def)
      moreover from linked_bypass [of h ws p i vs] lnk dist snoc
      have "linked (h(p := h i)) (ws @ p # vs)" by simp
      moreover have "wl_first w = (case ws @ p # vs of [] \<Rightarrow> None | z # _ \<Rightarrow> Some z)"
        using Cons.prems(1) snoc by (cases ws) (auto simp: waiters_repr_def)
      ultimately show ?thesis
        using Cons.prems True snoc
        by (auto simp: waiters_before_def waiters_repr_def)
    qed
  qed
qed

lemma waiters_repr_remove:
  assumes "waiters_repr h w xs"
  shows "\<exists>h' w'. waiters_remove h w x = Some (h', w', x \<in> set xs) \<and> waiters_repr h' w' (remove1 x xs) \<and>
            (\<forall>y. y \<notin> set xs \<longrightarrow> h' y = h y)"
proof -
  have "wl_first w = (case xs of [] \<Rightarrow> None | v # _ \<Rightarrow> Some v)"
    using assms by (simp add: waiters_repr_def)
  then show ?thesis
    using waiters_walk_repr [of h w "[]" xs x] assms
    by (simp add: waiters_remove_def waiters_before_def)
qed

lemma waiters_remove_frame:
  assumes "waiters_repr h w xs" and "waiters_repr h v ys" and "set xs \<inter> set ys = {}"
    and "waiters_remove h w x = Some (h', w', b)"
  shows "waiters_repr h' v ys"
proof -
  from waiters_repr_remove [OF assms(1), of x] assms(4)
  have "\<And>y. y \<notin> set xs \<Longrightarrow> h' y = h y" by auto
  with assms(3) have "linked h' ys = linked h ys" by (intro linked_cong) auto
  with assms(2) show ?thesis by (simp add: waiters_repr_def)
qed
section \<open>The interface a queue uses, and its provider\<close>

text \<open>
  What the queue relies on: the operations act on the sequence a list stands for as on a FIFO
  queue, and leave alone every other list in the same store with which it shares no element.
\<close>

locale fifo_store =
  fixes push :: "'h \<Rightarrow> 'w \<Rightarrow> 'a \<Rightarrow> 'h \<times> 'w"
    and pop :: "'h \<Rightarrow> 'w \<Rightarrow> 'a option \<times> 'w"
    and remove :: "'h \<Rightarrow> 'w \<Rightarrow> 'a \<Rightarrow> ('h \<times> 'w \<times> bool) option"
    and repr :: "'h \<Rightarrow> 'w \<Rightarrow> 'a list \<Rightarrow> bool"
  assumes repr_distinct: "repr h w xs \<Longrightarrow> distinct xs"
    and push_repr: "repr h w xs \<Longrightarrow> x \<notin> set xs \<Longrightarrow> push h w x = (h', w') \<Longrightarrow> repr h' w' (xs @ [x])"
    and push_frame: "repr h w xs \<Longrightarrow> repr h v ys \<Longrightarrow> set xs \<inter> set ys = {} \<Longrightarrow> x \<notin> set ys \<Longrightarrow>
      push h w x = (h', w') \<Longrightarrow> repr h' v ys"
    and pop_Nil: "repr h w [] \<Longrightarrow> pop h w = (None, w)"
    and pop_Cons: "repr h w (x # xs) \<Longrightarrow> \<exists>w'. pop h w = (Some x, w') \<and> repr h w' xs"
    and remove_total: "repr h w xs \<Longrightarrow> \<exists>h' w'. remove h w x = Some (h', w', x \<in> set xs) \<and>
      repr h' w' (remove1 x xs)"
    and remove_frame: "repr h w xs \<Longrightarrow> repr h v ys \<Longrightarrow> set xs \<inter> set ys = {} \<Longrightarrow>
      remove h w x = Some (h', w', b) \<Longrightarrow> repr h' v ys"
begin

lemma push_step:
  assumes "repr h w xs" and "x \<notin> set xs"
  shows "\<exists>h' w'. push h w x = (h', w') \<and> repr h' w' (xs @ [x]) \<and>
           (\<forall>v ys. repr h v ys \<longrightarrow> set xs \<inter> set ys = {} \<longrightarrow> x \<notin> set ys \<longrightarrow> repr h' v ys)"
proof (cases "push h w x")
  case (Pair h' w')
  with assms show ?thesis by (auto intro: push_repr push_frame)
qed

lemma pop_step:
  assumes "repr h w xs"
  shows "\<exists>w'. pop h w = (case xs of [] \<Rightarrow> None | x # _ \<Rightarrow> Some x, w') \<and> repr h w' (tl xs)"
  using assms by (cases xs) (auto dest: pop_Nil pop_Cons)

lemma remove_step:
  assumes "repr h w xs"
  shows "\<exists>h' w'. remove h w x = Some (h', w', x \<in> set xs) \<and> repr h' w' (remove1 x xs) \<and>
           (\<forall>v ys. repr h v ys \<longrightarrow> set xs \<inter> set ys = {} \<longrightarrow> repr h' v ys)"
proof -
  from remove_total [OF assms, of x] obtain h' w'
    where r: "remove h w x = Some (h', w', x \<in> set xs)" and "repr h' w' (remove1 x xs)" by blast
  with assms show ?thesis by (auto intro: remove_frame [OF _ _ _ r])
qed

text \<open>Popping until the list is empty yields the elements in the order they were pushed.\<close>

fun drain :: "'h \<Rightarrow> 'w \<Rightarrow> nat \<Rightarrow> 'a list" where
  "drain h w 0 = []"
| "drain h w (Suc n) = (case pop h w of (None, _) \<Rightarrow> [] | (Some x, w') \<Rightarrow> x # drain h w' n)"

lemma drain_order: "repr h w xs \<Longrightarrow> drain h w n = take n xs"
proof (induction n arbitrary: w xs)
  case 0
  then show ?case by simp
next
  case (Suc n)
  from pop_step [OF Suc.prems] obtain w'
    where "pop h w = (case xs of [] \<Rightarrow> None | x # _ \<Rightarrow> Some x, w')" and "repr h w' (tl xs)" by blast
  with Suc.IH [of w' "tl xs"] show ?case by (cases xs) auto
qed

end

interpretation wl: fifo_store waiters_push waiters_pop waiters_remove waiters_repr
proof
  fix h w xs assume "waiters_repr h w xs"
  then show "distinct xs" by (simp add: waiters_repr_def)
next
  fix h w xs x
  assume "waiters_repr h w xs"
  from waiters_repr_remove [OF this, of x]
  show "\<exists>h' w'. waiters_remove h w x = Some (h', w', x \<in> set xs) \<and> waiters_repr h' w' (remove1 x xs)"
    by blast
qed (auto intro: waiters_repr_push waiters_push_frame waiters_repr_pop_Nil waiters_repr_pop_Cons
    waiters_remove_frame)

text \<open>
  \<open>waiters_push_all\<close> enqueues a sequence of waiters; used to state the FIFO property of the
  pointer code end to end.
\<close>

fun waiters_push_all :: "next_store \<Rightarrow> waiters \<Rightarrow> wid list \<Rightarrow> next_store \<times> waiters" where
  "waiters_push_all h w [] = (h, w)"
| "waiters_push_all h w (x # xs) = (let (h', w') = waiters_push h w x in waiters_push_all h' w' xs)"

fun waiters_pop_all :: "next_store \<Rightarrow> waiters \<Rightarrow> nat \<Rightarrow> wid list" where
  "waiters_pop_all h w 0 = []"
| "waiters_pop_all h w (Suc n) =
     (case waiters_pop h w of (None, _) \<Rightarrow> [] | (Some x, w') \<Rightarrow> x # waiters_pop_all h w' n)"

lemma waiters_pop_all_drain: "waiters_pop_all h w n = wl.drain h w n"
  by (induction n arbitrary: w) (auto split: option.splits prod.splits)

lemma waiters_push_all_repr:
  "waiters_repr h w ys \<Longrightarrow> distinct (ys @ xs) \<Longrightarrow> waiters_push_all h w xs = (h', w') \<Longrightarrow>
   waiters_repr h' w' (ys @ xs)"
proof (induction xs arbitrary: h w ys)
  case Nil
  then show ?case by simp
next
  case (Cons x xs)
  obtain h1 w1 where p: "waiters_push h w x = (h1, w1)" by (cases "waiters_push h w x")
  with Cons.prems have "waiters_repr h1 w1 (ys @ [x])" by (intro wl.push_repr) auto
  from Cons.IH [OF this] Cons.prems p show ?case by simp
qed

end
