(* ===== verification/Build_Queue.thy ===== *)
theory Build_Queue
  imports Waiter_List
begin

text \<open>
  The state of \<^verbatim>\<open>BuildQueue\<close> (\<^verbatim>\<open>src/buildqueue.hpp\<close>) and its operations under the
  queue's lock, twice: over the pointer lists of \<open>Waiter_List\<close> as the code has them
  (\<open>build_queue\<close>), and over plain sequences (\<open>line\<close>), the specification.  The simulation
  lemmas show that every operation of the first implements that of the second, and
  \<open>line_inv\<close> is the invariant of the line: nobody is queued twice, each ticket knows its
  waiter exactly while that waiter is in line, and the promoted waiters are exactly those whose
  ticket was promoted.
\<close>

type_synonym tid = nat

section \<open>The queue as the code has it\<close>

record build_queue =
  bq_next :: next_store
  bq_free :: nat
  bq_reacquiring :: waiters
  bq_promoted :: waiters
  bq_waiting :: waiters
  bq_ticket_promoted :: "tid \<Rightarrow> bool"
  bq_ticket_waiter :: "tid \<Rightarrow> wid option"
  bq_waiter_ticket :: "wid \<Rightarrow> tid option"

definition build_queue_new :: "nat \<Rightarrow> (wid \<Rightarrow> tid option) \<Rightarrow> build_queue" where
  "build_queue_new concurrency tickets =
     \<lparr>bq_next = (\<lambda>_. None), bq_free = concurrency, bq_reacquiring = waiters_empty,
      bq_promoted = waiters_empty, bq_waiting = waiters_empty,
      bq_ticket_promoted = (\<lambda>_. False), bq_ticket_waiter = (\<lambda>_. None),
      bq_waiter_ticket = tickets\<rparr>"

definition try_take :: "build_queue \<Rightarrow> bool \<times> build_queue" where
  "try_take q = (if bq_free q = 0 then (False, q) else (True, q\<lparr>bq_free := bq_free q - 1\<rparr>))"

definition left_line :: "build_queue \<Rightarrow> wid \<Rightarrow> build_queue" where
  "left_line q x =
     (case bq_waiter_ticket q x of
        None \<Rightarrow> q
      | Some t \<Rightarrow> q\<lparr>bq_ticket_waiter := (bq_ticket_waiter q)(t := None)\<rparr>)"

definition push_reacquiring :: "build_queue \<Rightarrow> wid \<Rightarrow> build_queue" where
  "push_reacquiring q x =
     (let (h, w) = waiters_push (bq_next q) (bq_reacquiring q) x in q\<lparr>bq_next := h, bq_reacquiring := w\<rparr>)"

definition push_promoted :: "build_queue \<Rightarrow> wid \<Rightarrow> build_queue" where
  "push_promoted q x =
     (let (h, w) = waiters_push (bq_next q) (bq_promoted q) x in q\<lparr>bq_next := h, bq_promoted := w\<rparr>)"

definition push_waiting :: "build_queue \<Rightarrow> wid \<Rightarrow> build_queue" where
  "push_waiting q x =
     (let (h, w) = waiters_push (bq_next q) (bq_waiting q) x in q\<lparr>bq_next := h, bq_waiting := w\<rparr>)"

definition enqueue :: "build_queue \<Rightarrow> wid \<Rightarrow> bool \<Rightarrow> build_queue" where
  "enqueue q x reacquire =
     (if reacquire then push_reacquiring q x
      else (case bq_waiter_ticket q x of
              None \<Rightarrow> push_waiting q x
            | Some t \<Rightarrow>
                (let q = q\<lparr>bq_ticket_waiter := (bq_ticket_waiter q)(t := Some x)\<rparr> in
                 if bq_ticket_promoted q t then push_promoted q x else push_waiting q x)))"

text \<open>
  \<open>dequeue\<close>: \<^verbatim>\<open>m_waiting.remove\<close> runs only if \<^verbatim>\<open>m_promoted.remove\<close> found nothing.
  \<open>None\<close> is a removal that does not return.
\<close>

definition dequeue :: "build_queue \<Rightarrow> wid \<Rightarrow> bool \<Rightarrow> (bool \<times> build_queue) option" where
  "dequeue q x reacquire =
     (if reacquire then
        (case waiters_remove (bq_next q) (bq_reacquiring q) x of
           None \<Rightarrow> None
         | Some (h, w, b) \<Rightarrow> Some (b, q\<lparr>bq_next := h, bq_reacquiring := w\<rparr>))
      else
        (case waiters_remove (bq_next q) (bq_promoted q) x of
           None \<Rightarrow> None
         | Some (h, w, b) \<Rightarrow>
             (let q = q\<lparr>bq_next := h, bq_promoted := w\<rparr> in
              if b then Some (True, left_line q x)
              else (case waiters_remove (bq_next q) (bq_waiting q) x of
                      None \<Rightarrow> None
                    | Some (h, w, b) \<Rightarrow>
                        (let q = q\<lparr>bq_next := h, bq_waiting := w\<rparr> in
                         if b then Some (True, left_line q x) else Some (False, q))))))"

text \<open>
  \<open>release_slot\<close> is \<^verbatim>\<open>BuildQueue::release\<close>: the waiter it returns is the one whose task it
  calls once the lock is released.
\<close>

definition release_slot :: "build_queue \<Rightarrow> wid option \<times> build_queue" where
  "release_slot q =
     (case waiters_pop (bq_next q) (bq_reacquiring q) of
        (Some x, w) \<Rightarrow> (Some x, q\<lparr>bq_reacquiring := w\<rparr>)
      | (None, w) \<Rightarrow>
          (let q = q\<lparr>bq_reacquiring := w\<rparr> in
           case waiters_pop (bq_next q) (bq_promoted q) of
             (Some x, w) \<Rightarrow> (Some x, left_line (q\<lparr>bq_promoted := w\<rparr>) x)
           | (None, w) \<Rightarrow>
               (let q = q\<lparr>bq_promoted := w\<rparr> in
                case waiters_pop (bq_next q) (bq_waiting q) of
                  (Some x, w) \<Rightarrow> (Some x, left_line (q\<lparr>bq_waiting := w\<rparr>) x)
                | (None, w) \<Rightarrow>
                    (None, q\<lparr>bq_waiting := w, bq_free := bq_free q + 1\<rparr>))))"

definition promote :: "build_queue \<Rightarrow> tid \<Rightarrow> build_queue option" where
  "promote q t =
     (if bq_ticket_promoted q t then Some q
      else
        (let q = q\<lparr>bq_ticket_promoted := (bq_ticket_promoted q)(t := True)\<rparr> in
         case bq_ticket_waiter q t of
           None \<Rightarrow> Some q
         | Some x \<Rightarrow>
             (case waiters_remove (bq_next q) (bq_waiting q) x of
                None \<Rightarrow> None
              | Some (h, w, b) \<Rightarrow>
                  (let q = q\<lparr>bq_next := h, bq_waiting := w\<rparr> in
                   if b then Some (push_promoted q x) else Some q))))"

section \<open>The line: the specification over sequences\<close>

record line =
  l_free :: nat
  l_reacquiring :: "wid list"
  l_promoted :: "wid list"
  l_waiting :: "wid list"
  l_ticket_promoted :: "tid \<Rightarrow> bool"
  l_ticket_waiter :: "tid \<Rightarrow> wid option"
  l_waiter_ticket :: "wid \<Rightarrow> tid option"

definition line_new :: "nat \<Rightarrow> (wid \<Rightarrow> tid option) \<Rightarrow> line" where
  "line_new concurrency tickets =
     \<lparr>l_free = concurrency, l_reacquiring = [], l_promoted = [], l_waiting = [],
      l_ticket_promoted = (\<lambda>_. False), l_ticket_waiter = (\<lambda>_. None), l_waiter_ticket = tickets\<rparr>"

definition line_try_take :: "line \<Rightarrow> bool \<times> line" where
  "line_try_take l = (if l_free l = 0 then (False, l) else (True, l\<lparr>l_free := l_free l - 1\<rparr>))"

definition line_left :: "line \<Rightarrow> wid \<Rightarrow> line" where
  "line_left l x =
     (case l_waiter_ticket l x of
        None \<Rightarrow> l
      | Some t \<Rightarrow> l\<lparr>l_ticket_waiter := (l_ticket_waiter l)(t := None)\<rparr>)"

definition line_enqueue :: "line \<Rightarrow> wid \<Rightarrow> bool \<Rightarrow> line" where
  "line_enqueue l x reacquire =
     (if reacquire then l\<lparr>l_reacquiring := l_reacquiring l @ [x]\<rparr>
      else (case l_waiter_ticket l x of
              None \<Rightarrow> l\<lparr>l_waiting := l_waiting l @ [x]\<rparr>
            | Some t \<Rightarrow>
                (let l = l\<lparr>l_ticket_waiter := (l_ticket_waiter l)(t := Some x)\<rparr> in
                 if l_ticket_promoted l t then l\<lparr>l_promoted := l_promoted l @ [x]\<rparr>
                 else l\<lparr>l_waiting := l_waiting l @ [x]\<rparr>)))"

definition line_dequeue :: "line \<Rightarrow> wid \<Rightarrow> bool \<Rightarrow> bool \<times> line" where
  "line_dequeue l x reacquire =
     (if reacquire then (x \<in> set (l_reacquiring l), l\<lparr>l_reacquiring := remove1 x (l_reacquiring l)\<rparr>)
      else if x \<in> set (l_promoted l) then (True, line_left (l\<lparr>l_promoted := remove1 x (l_promoted l)\<rparr>) x)
      else if x \<in> set (l_waiting l) then (True, line_left (l\<lparr>l_waiting := remove1 x (l_waiting l)\<rparr>) x)
      else (False, l))"

definition line_release :: "line \<Rightarrow> wid option \<times> line" where
  "line_release l =
     (case l_reacquiring l of
        x # xs \<Rightarrow> (Some x, l\<lparr>l_reacquiring := xs\<rparr>)
      | [] \<Rightarrow> (case l_promoted l of
                x # xs \<Rightarrow> (Some x, line_left (l\<lparr>l_promoted := xs\<rparr>) x)
              | [] \<Rightarrow> (case l_waiting l of
                        x # xs \<Rightarrow> (Some x, line_left (l\<lparr>l_waiting := xs\<rparr>) x)
                      | [] \<Rightarrow> (None, l\<lparr>l_free := l_free l + 1\<rparr>))))"

definition line_promote :: "line \<Rightarrow> tid \<Rightarrow> line" where
  "line_promote l t =
     (if l_ticket_promoted l t then l
      else
        (let l = l\<lparr>l_ticket_promoted := (l_ticket_promoted l)(t := True)\<rparr> in
         case l_ticket_waiter l t of
           None \<Rightarrow> l
         | Some x \<Rightarrow>
             if x \<in> set (l_waiting l)
             then l\<lparr>l_waiting := remove1 x (l_waiting l), l_promoted := l_promoted l @ [x]\<rparr>
             else l))"

section \<open>The pointer code implements the line\<close>

definition in_line :: "line \<Rightarrow> wid set" where
  "in_line l = set (l_reacquiring l) \<union> set (l_promoted l) \<union> set (l_waiting l)"

definition queue_repr :: "build_queue \<Rightarrow> line \<Rightarrow> bool" where
  "queue_repr q l \<longleftrightarrow>
     waiters_repr (bq_next q) (bq_reacquiring q) (l_reacquiring l) \<and>
     waiters_repr (bq_next q) (bq_promoted q) (l_promoted l) \<and>
     waiters_repr (bq_next q) (bq_waiting q) (l_waiting l) \<and>
     set (l_reacquiring l) \<inter> set (l_promoted l) = {} \<and>
     set (l_reacquiring l) \<inter> set (l_waiting l) = {} \<and>
     set (l_promoted l) \<inter> set (l_waiting l) = {} \<and>
     bq_free q = l_free l \<and>
     bq_ticket_promoted q = l_ticket_promoted l \<and>
     bq_ticket_waiter q = l_ticket_waiter l \<and>
     bq_waiter_ticket q = l_waiter_ticket l"

lemma queue_repr_new: "queue_repr (build_queue_new n ts) (line_new n ts)"
  by (simp add: queue_repr_def build_queue_new_def line_new_def)

lemma sim_try_take:
  "queue_repr q l \<Longrightarrow>
   fst (try_take q) = fst (line_try_take l) \<and> queue_repr (snd (try_take q)) (snd (line_try_take l))"
  by (simp add: try_take_def line_try_take_def queue_repr_def)

lemma sim_left_line: "queue_repr q l \<Longrightarrow> queue_repr (left_line q x) (line_left l x)"
  by (simp add: left_line_def line_left_def queue_repr_def split: option.splits)

lemma sim_push_reacquiring:
  assumes "queue_repr q l" and "x \<notin> in_line l"
  shows "queue_repr (push_reacquiring q x) (l\<lparr>l_reacquiring := l_reacquiring l @ [x]\<rparr>)"
  using assms wl.push_step [of "bq_next q" "bq_reacquiring q" "l_reacquiring l" x]
  by (auto simp: push_reacquiring_def queue_repr_def in_line_def)

lemma sim_push_promoted:
  assumes "queue_repr q l" and "x \<notin> in_line l"
  shows "queue_repr (push_promoted q x) (l\<lparr>l_promoted := l_promoted l @ [x]\<rparr>)"
  using assms wl.push_step [of "bq_next q" "bq_promoted q" "l_promoted l" x]
  by (auto simp: push_promoted_def queue_repr_def in_line_def Int_commute)

lemma sim_push_waiting:
  assumes "queue_repr q l" and "x \<notin> in_line l"
  shows "queue_repr (push_waiting q x) (l\<lparr>l_waiting := l_waiting l @ [x]\<rparr>)"
  using assms wl.push_step [of "bq_next q" "bq_waiting q" "l_waiting l" x]
  by (auto simp: push_waiting_def queue_repr_def in_line_def Int_commute)

lemma queue_repr_ticket_waiter:
  "queue_repr q l \<Longrightarrow> queue_repr (q\<lparr>bq_ticket_waiter := f\<rparr>) (l\<lparr>l_ticket_waiter := f\<rparr>)"
  by (simp add: queue_repr_def)

lemma queue_repr_fields:
  assumes "queue_repr q l"
  shows "bq_free q = l_free l" "bq_ticket_promoted q = l_ticket_promoted l"
    "bq_ticket_waiter q = l_ticket_waiter l" "bq_waiter_ticket q = l_waiter_ticket l"
  using assms by (simp_all add: queue_repr_def)

lemma sim_enqueue:
  assumes "queue_repr q l" and "x \<notin> in_line l"
  shows "queue_repr (enqueue q x r) (line_enqueue l x r)"
proof (cases "r \<or> l_waiter_ticket l x = None")
  case True
  with assms show ?thesis
    by (auto simp: enqueue_def line_enqueue_def queue_repr_fields
        intro: sim_push_reacquiring sim_push_waiting)
next
  case False
  then obtain t where t: "l_waiter_ticket l x = Some t" and "\<not> r" by auto
  define q1 where "q1 = q\<lparr>bq_ticket_waiter := (bq_ticket_waiter q)(t := Some x)\<rparr>"
  define l1 where "l1 = l\<lparr>l_ticket_waiter := (l_ticket_waiter l)(t := Some x)\<rparr>"
  have q1: "queue_repr q1 l1" and "x \<notin> in_line l1"
    using assms by (simp_all add: q1_def l1_def queue_repr_ticket_waiter queue_repr_fields in_line_def)
  then have "queue_repr (push_promoted q1 x) (l1\<lparr>l_promoted := l_promoted l1 @ [x]\<rparr>)"
    and "queue_repr (push_waiting q1 x) (l1\<lparr>l_waiting := l_waiting l1 @ [x]\<rparr>)"
    by (auto intro: sim_push_promoted sim_push_waiting)
  with t \<open>\<not> r\<close> assms(1) show ?thesis
    by (simp add: enqueue_def line_enqueue_def queue_repr_fields q1_def l1_def Let_def)
qed

lemma sim_remove_reacquiring:
  assumes "queue_repr q l"
  shows "\<exists>h w. waiters_remove (bq_next q) (bq_reacquiring q) x = Some (h, w, x \<in> set (l_reacquiring l)) \<and>
           queue_repr (q\<lparr>bq_next := h, bq_reacquiring := w\<rparr>)
             (l\<lparr>l_reacquiring := remove1 x (l_reacquiring l)\<rparr>)"
  using assms wl.remove_step [of "bq_next q" "bq_reacquiring q" "l_reacquiring l" x]
  by (fastforce simp: queue_repr_def dest: in_set_takeD set_remove1_subset [THEN subsetD])

lemma sim_remove_promoted:
  assumes "queue_repr q l"
  shows "\<exists>h w. waiters_remove (bq_next q) (bq_promoted q) x = Some (h, w, x \<in> set (l_promoted l)) \<and>
           queue_repr (q\<lparr>bq_next := h, bq_promoted := w\<rparr>)
             (l\<lparr>l_promoted := remove1 x (l_promoted l)\<rparr>)"
  using assms wl.remove_step [of "bq_next q" "bq_promoted q" "l_promoted l" x]
  by (fastforce simp: queue_repr_def Int_commute dest: set_remove1_subset [THEN subsetD])

lemma sim_remove_waiting:
  assumes "queue_repr q l"
  shows "\<exists>h w. waiters_remove (bq_next q) (bq_waiting q) x = Some (h, w, x \<in> set (l_waiting l)) \<and>
           queue_repr (q\<lparr>bq_next := h, bq_waiting := w\<rparr>)
             (l\<lparr>l_waiting := remove1 x (l_waiting l)\<rparr>)"
  using assms wl.remove_step [of "bq_next q" "bq_waiting q" "l_waiting l" x]
  by (fastforce simp: queue_repr_def Int_commute dest: set_remove1_subset [THEN subsetD])

lemma sim_dequeue:
  assumes "queue_repr q l"
  shows "\<exists>q'. dequeue q x r = Some (fst (line_dequeue l x r), q') \<and> queue_repr q' (snd (line_dequeue l x r))"
proof (cases r)
  case True
  with sim_remove_reacquiring [OF assms, of x] show ?thesis
    by (auto simp: dequeue_def line_dequeue_def)
next
  case False
  from sim_remove_promoted [OF assms, of x] obtain h w
    where p: "waiters_remove (bq_next q) (bq_promoted q) x = Some (h, w, x \<in> set (l_promoted l))"
      and q1: "queue_repr (q\<lparr>bq_next := h, bq_promoted := w\<rparr>) (l\<lparr>l_promoted := remove1 x (l_promoted l)\<rparr>)"
    by blast
  show ?thesis
  proof (cases "x \<in> set (l_promoted l)")
    case True
    with False p sim_left_line [OF q1, of x] show ?thesis
      by (simp add: dequeue_def line_dequeue_def)
  next
    case nin: False
    from sim_remove_waiting [OF q1, of x] nin obtain h' w'
      where w: "waiters_remove h (bq_waiting q) x = Some (h', w', x \<in> set (l_waiting l))"
        and q2: "queue_repr (q\<lparr>bq_promoted := w, bq_next := h', bq_waiting := w'\<rparr>)
                   (l\<lparr>l_waiting := remove1 x (l_waiting l)\<rparr>)"
      by (auto simp: remove1_idem)
    with False nin p sim_left_line [OF q2, of x] show ?thesis
      by (auto simp: dequeue_def line_dequeue_def remove1_idem)
  qed
qed

lemma sim_pop_reacquiring:
  assumes "queue_repr q l"
  shows "\<exists>w. waiters_pop (bq_next q) (bq_reacquiring q) =
             (case l_reacquiring l of [] \<Rightarrow> None | x # _ \<Rightarrow> Some x, w) \<and>
           queue_repr (q\<lparr>bq_reacquiring := w\<rparr>) (l\<lparr>l_reacquiring := tl (l_reacquiring l)\<rparr>)"
  using assms wl.pop_step [of "bq_next q" "bq_reacquiring q" "l_reacquiring l"]
  by (cases "l_reacquiring l") (auto simp: queue_repr_def)

lemma sim_pop_promoted:
  assumes "queue_repr q l"
  shows "\<exists>w. waiters_pop (bq_next q) (bq_promoted q) =
             (case l_promoted l of [] \<Rightarrow> None | x # _ \<Rightarrow> Some x, w) \<and>
           queue_repr (q\<lparr>bq_promoted := w\<rparr>) (l\<lparr>l_promoted := tl (l_promoted l)\<rparr>)"
  using assms wl.pop_step [of "bq_next q" "bq_promoted q" "l_promoted l"]
  by (cases "l_promoted l") (auto simp: queue_repr_def)

lemma sim_pop_waiting:
  assumes "queue_repr q l"
  shows "\<exists>w. waiters_pop (bq_next q) (bq_waiting q) =
             (case l_waiting l of [] \<Rightarrow> None | x # _ \<Rightarrow> Some x, w) \<and>
           queue_repr (q\<lparr>bq_waiting := w\<rparr>) (l\<lparr>l_waiting := tl (l_waiting l)\<rparr>)"
  using assms wl.pop_step [of "bq_next q" "bq_waiting q" "l_waiting l"]
  by (cases "l_waiting l") (auto simp: queue_repr_def)


lemma sim_release:
  assumes "queue_repr q l"
  shows "fst (release_slot q) = fst (line_release l) \<and> queue_repr (snd (release_slot q)) (snd (line_release l))"
proof -
  from sim_pop_reacquiring [OF assms] obtain w1
    where r1: "waiters_pop (bq_next q) (bq_reacquiring q) =
             (case l_reacquiring l of [] \<Rightarrow> None | x # _ \<Rightarrow> Some x, w1)"
      and q1: "queue_repr (q\<lparr>bq_reacquiring := w1\<rparr>) (l\<lparr>l_reacquiring := tl (l_reacquiring l)\<rparr>)" by blast
  show ?thesis
  proof (cases "l_reacquiring l")
    case Cons
    with r1 q1 show ?thesis by (simp add: release_slot_def line_release_def)
  next
    case Nil1: Nil
    with q1 have q1: "queue_repr (q\<lparr>bq_reacquiring := w1\<rparr>) l" by (simp add: queue_repr_def)
    from sim_pop_promoted [OF q1] obtain w2
      where r2: "waiters_pop (bq_next q) (bq_promoted q) =
               (case l_promoted l of [] \<Rightarrow> None | x # _ \<Rightarrow> Some x, w2)"
        and q2: "queue_repr (q\<lparr>bq_reacquiring := w1, bq_promoted := w2\<rparr>)
                   (l\<lparr>l_promoted := tl (l_promoted l)\<rparr>)"
      using Nil1 by auto
    show ?thesis
    proof (cases "l_promoted l")
      case (Cons x xs)
      with r1 r2 q2 Nil1 sim_left_line [OF q2, of x] show ?thesis
        by (simp add: release_slot_def line_release_def)
    next
      case Nil2: Nil
      with q2 have q2: "queue_repr (q\<lparr>bq_reacquiring := w1, bq_promoted := w2\<rparr>) l"
        by (simp add: queue_repr_def)
      from sim_pop_waiting [OF q2] obtain w3
        where r3: "waiters_pop (bq_next q) (bq_waiting q) =
                 (case l_waiting l of [] \<Rightarrow> None | x # _ \<Rightarrow> Some x, w3)"
          and q3: "queue_repr (q\<lparr>bq_reacquiring := w1, bq_promoted := w2, bq_waiting := w3\<rparr>)
                     (l\<lparr>l_waiting := tl (l_waiting l)\<rparr>)"
        using Nil2 by auto
      show ?thesis
      proof (cases "l_waiting l")
        case (Cons x xs)
        with r1 r2 r3 Nil1 Nil2 sim_left_line [OF q3, of x] show ?thesis
          by (simp add: release_slot_def line_release_def)
      next
        case Nil
        with r1 r2 r3 q3 Nil1 Nil2 show ?thesis
          by (simp add: release_slot_def line_release_def queue_repr_def)
      qed
    qed
  qed
qed

lemma sim_promote:
  assumes "queue_repr q l"
  shows "\<exists>q'. promote q t = Some q' \<and> queue_repr q' (line_promote l t)"
proof (cases "l_ticket_promoted l t \<or> l_ticket_waiter l t = None")
  case True
  with assms show ?thesis
    by (auto simp: promote_def line_promote_def queue_repr_def)
next
  case False
  then obtain x where x: "l_ticket_waiter l t = Some x" and np: "\<not> l_ticket_promoted l t" by auto
  define q1 where "q1 = q\<lparr>bq_ticket_promoted := (bq_ticket_promoted q)(t := True)\<rparr>"
  define l1 where "l1 = l\<lparr>l_ticket_promoted := (l_ticket_promoted l)(t := True)\<rparr>"
  have r1: "queue_repr q1 l1"
    using assms by (simp add: q1_def l1_def queue_repr_def)
  from sim_remove_waiting [OF this, of x] obtain h w
    where rm: "waiters_remove (bq_next q1) (bq_waiting q1) x = Some (h, w, x \<in> set (l_waiting l1))"
      and r2: "queue_repr (q1\<lparr>bq_next := h, bq_waiting := w\<rparr>) (l1\<lparr>l_waiting := remove1 x (l_waiting l1)\<rparr>)"
    by blast
  have prom: "promote q t =
      Some (if x \<in> set (l_waiting l1) then push_promoted (q1\<lparr>bq_next := h, bq_waiting := w\<rparr>) x
            else q1\<lparr>bq_next := h, bq_waiting := w\<rparr>)"
    using assms rm x np by (simp add: promote_def queue_repr_fields q1_def Let_def)
  show ?thesis
  proof (cases "x \<in> set (l_waiting l1)")
    case True
    with r1 have "x \<notin> in_line (l1\<lparr>l_waiting := remove1 x (l_waiting l1)\<rparr>)"
      by (auto simp: queue_repr_def in_line_def waiters_repr_def)
    from sim_push_promoted [OF r2 this] True prom x np show ?thesis
      by (simp add: line_promote_def l1_def)
  next
    case False
    with r2 prom x np show ?thesis by (simp add: line_promote_def l1_def remove1_idem)
  qed
qed

section \<open>Tickets and waiters agree\<close>

definition line_distinct :: "line \<Rightarrow> bool" where
  "line_distinct l \<longleftrightarrow> distinct (l_reacquiring l @ l_promoted l @ l_waiting l)"

definition tickets_agree :: "line \<Rightarrow> bool" where
  "tickets_agree l \<longleftrightarrow>
     (\<forall>t x. (l_ticket_waiter l t = Some x) =
            (x \<in> set (l_promoted l) \<union> set (l_waiting l) \<and> l_waiter_ticket l x = Some t))"

definition promoted_ok :: "line \<Rightarrow> bool" where
  "promoted_ok l \<longleftrightarrow>
     (\<forall>x \<in> set (l_promoted l). \<exists>t. l_waiter_ticket l x = Some t \<and> l_ticket_promoted l t)"

definition waiting_ok :: "line \<Rightarrow> bool" where
  "waiting_ok l \<longleftrightarrow>
     (\<forall>x \<in> set (l_waiting l). \<forall>t. l_waiter_ticket l x = Some t \<longrightarrow> \<not> l_ticket_promoted l t)"

definition line_inv :: "line \<Rightarrow> bool" where
  "line_inv l \<longleftrightarrow> line_distinct l \<and> tickets_agree l \<and> promoted_ok l \<and> waiting_ok l"

lemma line_invI:
  "line_distinct l \<Longrightarrow> tickets_agree l \<Longrightarrow> promoted_ok l \<Longrightarrow> waiting_ok l \<Longrightarrow> line_inv l"
  by (simp add: line_inv_def)

lemma line_invD:
  assumes "line_inv l"
  shows "line_distinct l" "tickets_agree l" "promoted_ok l" "waiting_ok l"
  using assms by (simp_all add: line_inv_def)

lemma tickets_agreeD:
  "tickets_agree l \<Longrightarrow> (l_ticket_waiter l t = Some x) =
     (x \<in> set (l_promoted l) \<union> set (l_waiting l) \<and> l_waiter_ticket l x = Some t)"
  by (simp add: tickets_agree_def)

lemmas line_inv_parts = line_distinct_def tickets_agree_def promoted_ok_def waiting_ok_def

lemma line_inv_new: "line_inv (line_new n ts)"
  by (simp add: line_inv_def line_inv_parts line_new_def)

lemma line_inv_try_take: "line_inv l \<Longrightarrow> line_inv (snd (line_try_take l))"
  by (simp add: line_inv_def line_inv_parts line_try_take_def)

lemma line_inv_enqueue:
  assumes inv: "line_inv l" and new: "x \<notin> in_line l"
    and own: "\<And>t y. l_waiter_ticket l x = Some t \<Longrightarrow> l_waiter_ticket l y = Some t \<Longrightarrow> y = x"
  shows "line_inv (line_enqueue l x r)"
proof (cases "r \<or> l_waiter_ticket l x = None")
  case True
  with inv new show ?thesis
    by (auto simp: line_inv_def line_inv_parts line_enqueue_def in_line_def)
next
  case False
  then obtain t where t: "l_waiter_ticket l x = Some t" and "\<not> r" by auto
  define ps where "ps = (if l_ticket_promoted l t then l_promoted l @ [x] else l_promoted l)"
  define ws where "ws = (if l_ticket_promoted l t then l_waiting l else l_waiting l @ [x])"
  have eq: "line_enqueue l x r = l\<lparr>l_ticket_waiter := (l_ticket_waiter l)(t := Some x),
      l_promoted := ps, l_waiting := ws\<rparr>" (is "_ = ?l")
    using t \<open>\<not> r\<close> by (simp add: line_enqueue_def Let_def ps_def ws_def)
  have sets: "set ps \<union> set ws = insert x (set (l_promoted l) \<union> set (l_waiting l))"
    by (auto simp: ps_def ws_def)
  show ?thesis
  proof (unfold eq, rule line_invI)
    show "line_distinct ?l"
      using inv new by (auto simp: line_inv_def line_distinct_def ps_def ws_def in_line_def)
    have "(((l_ticket_waiter l)(t := Some x)) t' = Some y) =
        (y \<in> set ps \<union> set ws \<and> l_waiter_ticket l y = Some t')" for t' y
      using tickets_agreeD [OF line_invD(2) [OF inv], of t' y] t own [OF t, of y]
      unfolding sets by auto
    then show "tickets_agree ?l" by (simp add: tickets_agree_def)
    show "promoted_ok ?l"
      using inv t by (auto simp: line_inv_def promoted_ok_def ps_def)
    show "waiting_ok ?l"
      using inv t by (auto simp: line_inv_def waiting_ok_def ws_def)
  qed
qed

text \<open>
  A waiter leaving the promoted or the waiting sequence, its ticket forgetting it.
\<close>

lemma line_inv_left:
  assumes inv: "line_inv l" and x: "x \<in> set (l_promoted l) \<union> set (l_waiting l)"
    and ps: "set ps = set (l_promoted l) - {x}" and ws: "set ws = set (l_waiting l) - {x}"
    and d: "distinct ps" "distinct ws"
  shows "line_inv (line_left (l\<lparr>l_promoted := ps, l_waiting := ws\<rparr>) x)"
proof -
  define l' where "l' = line_left (l\<lparr>l_promoted := ps, l_waiting := ws\<rparr>) x"
  have f: "l_reacquiring l' = l_reacquiring l" "l_promoted l' = ps" "l_waiting l' = ws"
    "l_ticket_promoted l' = l_ticket_promoted l" "l_waiter_ticket l' = l_waiter_ticket l"
    by (simp_all add: l'_def line_left_def split: option.splits)
  have tw: "l_ticket_waiter l' t = (if l_waiter_ticket l x = Some t then None else l_ticket_waiter l t)" for t
    by (auto simp: l'_def line_left_def split: option.splits)
  note agree = tickets_agreeD [OF line_invD(2) [OF inv]]
  have "l_ticket_waiter l' t = Some y \<longleftrightarrow> y \<in> set ps \<union> set ws \<and> l_waiter_ticket l y = Some t" for t y
  proof (cases "l_waiter_ticket l x = Some t")
    case True
    with agree [of t x] x have "l_ticket_waiter l t = Some x" by blast
    with agree [of t y] True ps ws show ?thesis by (auto simp: tw)
  next
    case False
    with agree [of t y] ps ws show ?thesis by (auto simp: tw)
  qed
  then have "tickets_agree l'" by (simp add: tickets_agree_def f)
  moreover have "line_distinct l'"
    using line_invD(1) [OF inv] ps ws d by (auto simp: line_distinct_def f)
  moreover have "promoted_ok l'" "waiting_ok l'"
    using line_invD(3,4) [OF inv] ps ws by (auto simp: promoted_ok_def waiting_ok_def f)
  ultimately show ?thesis unfolding l'_def [symmetric] by (simp add: line_inv_def)
qed

lemma line_inv_dequeue: "line_inv l \<Longrightarrow> line_inv (snd (line_dequeue l x r))"
proof -
  assume inv: "line_inv l"
  then have d: "distinct (l_promoted l)" "distinct (l_waiting l)"
    "set (l_promoted l) \<inter> set (l_waiting l) = {}"
    by (auto simp: line_inv_def line_distinct_def)
  consider "r" | "\<not> r" "x \<in> set (l_promoted l)" | "\<not> r" "x \<notin> set (l_promoted l)" "x \<in> set (l_waiting l)"
    | "\<not> r" "x \<notin> set (l_promoted l)" "x \<notin> set (l_waiting l)" by blast
  then show ?thesis
  proof cases
    case 1
    with inv show ?thesis
      by (auto simp: line_inv_def line_inv_parts line_dequeue_def dest: set_remove1_subset [THEN subsetD])
  next
    case 2
    with d have "line_inv (line_left (l\<lparr>l_promoted := remove1 x (l_promoted l), l_waiting := l_waiting l\<rparr>) x)"
      by (intro line_inv_left inv) auto
    with 2 show ?thesis by (simp add: line_dequeue_def)
  next
    case 3
    with d have "line_inv (line_left (l\<lparr>l_promoted := l_promoted l, l_waiting := remove1 x (l_waiting l)\<rparr>) x)"
      by (intro line_inv_left inv) auto
    with 3 show ?thesis by (simp add: line_dequeue_def)
  next
    case 4
    with inv show ?thesis by (simp add: line_dequeue_def)
  qed
qed

lemma line_inv_release: "line_inv l \<Longrightarrow> line_inv (snd (line_release l))"
proof -
  assume inv: "line_inv l"
  then have d: "distinct (l_promoted l)" "distinct (l_waiting l)"
    "set (l_promoted l) \<inter> set (l_waiting l) = {}"
    by (auto simp: line_inv_def line_distinct_def)
  show ?thesis
  proof (cases "l_reacquiring l")
    case Cons
    with inv show ?thesis by (auto simp: line_inv_def line_inv_parts line_release_def)
  next
    case Nil1: Nil
    show ?thesis
    proof (cases "l_promoted l")
      case (Cons x xs)
      with d have "line_inv (line_left (l\<lparr>l_promoted := xs, l_waiting := l_waiting l\<rparr>) x)"
        by (intro line_inv_left inv) auto
      with Cons Nil1 show ?thesis by (simp add: line_release_def)
    next
      case Nil2: Nil
      show ?thesis
      proof (cases "l_waiting l")
        case (Cons x xs)
        with d have "line_inv (line_left (l\<lparr>l_promoted := l_promoted l, l_waiting := xs\<rparr>) x)"
          by (intro line_inv_left inv) auto
        moreover have "l\<lparr>l_promoted := l_promoted l, l_waiting := xs\<rparr> = l\<lparr>l_waiting := xs\<rparr>" by simp
        ultimately have "line_inv (line_left (l\<lparr>l_waiting := xs\<rparr>) x)" by (simp only:)
        with Cons Nil1 Nil2 show ?thesis by (simp add: line_release_def)
      next
        case Nil
        with Nil1 Nil2 inv show ?thesis by (simp add: line_inv_def line_inv_parts line_release_def)
      qed
    qed
  qed
qed

lemma line_inv_promote:
  assumes inv: "line_inv l"
  shows "line_inv (line_promote l t)"
proof (cases "l_ticket_promoted l t")
  case True
  with inv show ?thesis by (simp add: line_promote_def)
next
  case np: False
  note agree = tickets_agreeD [OF line_invD(2) [OF inv]]
  show ?thesis
  proof (cases "l_ticket_waiter l t")
    case None
    with agree [of t] have "\<forall>x \<in> set (l_waiting l). l_waiter_ticket l x \<noteq> Some t" by auto
    with inv np None show ?thesis
      by (auto simp: line_promote_def line_inv_def line_inv_parts)
  next
    case (Some x)
    with agree [of t x] have tx: "l_waiter_ticket l x = Some t"
      and "x \<in> set (l_promoted l) \<union> set (l_waiting l)" by auto
    with np line_invD(3) [OF inv] have xw: "x \<in> set (l_waiting l)" by (auto simp: promoted_ok_def)
    have only: "y = x" if "y \<in> set (l_waiting l)" "l_waiter_ticket l y = Some t" for y
      using agree [of t y] that Some by auto
    have eq: "line_promote l t = l\<lparr>l_ticket_promoted := (l_ticket_promoted l)(t := True),
        l_waiting := remove1 x (l_waiting l), l_promoted := l_promoted l @ [x]\<rparr>" (is "_ = ?l")
      using Some np xw by (simp add: line_promote_def)
    have sx: "set (remove1 x (l_waiting l)) = set (l_waiting l) - {x}"
      using line_invD(1) [OF inv] by (simp add: line_distinct_def)
    show ?thesis
    proof (unfold eq, rule line_invI)
      show "line_distinct ?l"
        using line_invD(1) [OF inv] xw by (auto simp: line_distinct_def)
      have "set (l_promoted l @ [x]) \<union> set (remove1 x (l_waiting l)) = set (l_promoted l) \<union> set (l_waiting l)"
        using xw sx by auto
      with agree show "tickets_agree ?l" by (simp add: tickets_agree_def)
      show "promoted_ok ?l"
        using line_invD(3) [OF inv] tx by (auto simp: promoted_ok_def)
      show "waiting_ok ?l"
        using line_invD(4) [OF inv] only sx by (auto simp: waiting_ok_def)
    qed
  qed
qed

lemmas line_inv_ops =
  line_inv_new line_inv_try_take line_inv_dequeue line_inv_release line_inv_promote

end
