(* ===== verification/Queue_Run.thy ===== *)
theory Queue_Run
  imports Build_Queue
begin

text \<open>
  The operations that wait for a slot and the leases that hold one
  (\<^verbatim>\<open>BuildQueue::SlotOperation\<close>, \<^verbatim>\<open>Slot\<close>, \<^verbatim>\<open>Lease\<close> in
  \<^verbatim>\<open>src/buildqueue.hpp\<close>), as a step relation whose steps are the sections the code runs
  under the queue's lock and the deferred resumptions on the hand-off scheduler, in any
  interleaving.  The invariant \<open>run_inv\<close> accounts for every slot: free, on its way to a
  waiter, or held by a lease.
\<close>

section \<open>State\<close>

text \<open>
  Where an operation is: constructed; started, its stop callback registered; in line; given a
  slot by \<^verbatim>\<open>start()\<close> itself; scheduled on the hand-off scheduler (\<open>Resuming given\<close>);
  completed with a slot or stopped.
\<close>

datatype stage =
    Constructed
  | Registered
  | In_line
  | Granted
  | Resuming bool
  | Completed_given
  | Completed_stopped

record slot_op =
  so_lease :: "wid option"       \<comment> \<open>the lease taking a slot back, if a reacquire\<close>
  so_stage :: stage
  so_stopped_early :: bool       \<comment> \<open>\<^verbatim>\<open>m_stopped_early\<close>\<close>
  so_stop_called :: bool         \<comment> \<open>the stop callback has run; it runs at most once\<close>

text \<open>
  A lease is named by the operation that first took its slot; \<open>True\<close> is \<^verbatim>\<open>m_held\<close>.
\<close>

record queue_run =
  r_line :: line
  r_ops :: "wid \<rightharpoonup> slot_op"
  r_leases :: "wid \<rightharpoonup> bool"

definition run_new :: "nat \<Rightarrow> queue_run" where
  "run_new concurrency =
     \<lparr>r_line = line_new concurrency (\<lambda>_. None), r_ops = Map.empty, r_leases = Map.empty\<rparr>"

definition stage_of :: "queue_run \<Rightarrow> wid \<Rightarrow> stage option" where
  "stage_of r x = map_option so_stage (r_ops r x)"

definition set_stage :: "queue_run \<Rightarrow> wid \<Rightarrow> stage \<Rightarrow> queue_run" where
  "set_stage r x st =
     (case r_ops r x of None \<Rightarrow> r | Some p \<Rightarrow> r\<lparr>r_ops := (r_ops r)(x \<mapsto> p\<lparr>so_stage := st\<rparr>)\<rparr>)"

section \<open>Operations\<close>

text \<open>
  Giving a slot back: \<^verbatim>\<open>release()\<close> and, if that took a waiter off the line, that waiter's
  task \<^verbatim>\<open>SlotOperation::operator()\<close>, which schedules it on the hand-off scheduler.
\<close>

definition give_slot_back :: "queue_run \<Rightarrow> queue_run" where
  "give_slot_back r =
     (case line_release (r_line r) of
        (None, l) \<Rightarrow> r\<lparr>r_line := l\<rparr>
      | (Some y, l) \<Rightarrow> set_stage (r\<lparr>r_line := l\<rparr>) y (Resuming True))"

text \<open>\<^verbatim>\<open>SlotOperation::on_stop\<close>: off the line if in it, else a note for \<^verbatim>\<open>start()\<close>.\<close>

definition on_stop :: "queue_run \<Rightarrow> wid \<Rightarrow> slot_op \<Rightarrow> queue_run" where
  "on_stop r x p =
     (let p = p\<lparr>so_stop_called := True\<rparr>;
          (found, l) = line_dequeue (r_line r) x (so_lease p \<noteq> None)
      in if found then r\<lparr>r_line := l, r_ops := (r_ops r)(x \<mapsto> p\<lparr>so_stage := Resuming False\<rparr>)\<rparr>
         else r\<lparr>r_line := l, r_ops := (r_ops r)(x \<mapsto> p\<lparr>so_stopped_early := True\<rparr>)\<rparr>)"

text \<open>The critical section of \<^verbatim>\<open>SlotOperation::start\<close>.\<close>

definition start_section :: "queue_run \<Rightarrow> wid \<Rightarrow> slot_op \<Rightarrow> queue_run" where
  "start_section r x p =
     (if so_stopped_early p then set_stage r x Completed_stopped
      else (case line_try_take (r_line r) of
              (True, l) \<Rightarrow> set_stage (r\<lparr>r_line := l\<rparr>) x Granted
            | (False, l) \<Rightarrow>
                set_stage (r\<lparr>r_line := line_enqueue l x (so_lease p \<noteq> None)\<rparr>) x In_line))"

text \<open>
  \<^verbatim>\<open>complete_given\<close>: a reacquire sets its lease's \<^verbatim>\<open>m_held\<close>; new work gets a slot,
  which its lease takes over at once.
\<close>

definition complete_given :: "queue_run \<Rightarrow> wid \<Rightarrow> slot_op \<Rightarrow> queue_run" where
  "complete_given r x p =
     (let r = set_stage r x Completed_given in
      case so_lease p of
        Some k \<Rightarrow> r\<lparr>r_leases := (r_leases r)(k \<mapsto> True)\<rparr>
      | None \<Rightarrow> r\<lparr>r_leases := (r_leases r)(x \<mapsto> True)\<rparr>)"

definition complete_stopped :: "queue_run \<Rightarrow> wid \<Rightarrow> queue_run" where
  "complete_stopped r x = set_stage r x Completed_stopped"

text \<open>\<^verbatim>\<open>Resume::set_value\<close> and \<^verbatim>\<open>Resume::set_stopped\<close>.\<close>

definition resume_value :: "queue_run \<Rightarrow> wid \<Rightarrow> slot_op \<Rightarrow> bool \<Rightarrow> queue_run" where
  "resume_value r x p given = (if given then complete_given r x p else complete_stopped r x)"

definition resume_stopped :: "queue_run \<Rightarrow> wid \<Rightarrow> bool \<Rightarrow> queue_run" where
  "resume_stopped r x given =
     (let r = (if given then give_slot_back r else r) in complete_stopped r x)"

text \<open>\<^verbatim>\<open>Lease::release\<close>.\<close>

definition lease_release :: "queue_run \<Rightarrow> wid \<Rightarrow> queue_run" where
  "lease_release r k =
     (if r_leases r k = Some True then give_slot_back (r\<lparr>r_leases := (r_leases r)(k \<mapsto> False)\<rparr>) else r)"

definition new_op :: "wid option \<Rightarrow> slot_op" where
  "new_op k = \<lparr>so_lease = k, so_stage = Constructed, so_stopped_early = False, so_stop_called = False\<rparr>"

text \<open>An operation that has not completed.\<close>

definition under_way :: "slot_op \<Rightarrow> bool" where
  "under_way p \<longleftrightarrow> so_stage p \<noteq> Completed_given \<and> so_stage p \<noteq> Completed_stopped"

section \<open>Steps\<close>

text \<open>
  The premises of \<open>make_work\<close> and \<open>make_reacquire\<close> are the preconditions the header
  states: a ticket is used for no other work; a lease that does not hold its slot has at most
  one reacquire under way.
\<close>

inductive run_step :: "queue_run \<Rightarrow> queue_run \<Rightarrow> bool" where
  make_work:
    "r_ops r x = None \<Longrightarrow> (\<And>t y. tk = Some t \<Longrightarrow> l_waiter_ticket (r_line r) y \<noteq> Some t) \<Longrightarrow>
     run_step r (r\<lparr>r_ops := (r_ops r)(x \<mapsto> new_op None),
       r_line := (r_line r)\<lparr>l_waiter_ticket := (l_waiter_ticket (r_line r))(x := tk)\<rparr>\<rparr>)"
| make_reacquire:
    "r_ops r x = None \<Longrightarrow> r_leases r k = Some False \<Longrightarrow>
     (\<And>y p. r_ops r y = Some p \<Longrightarrow> so_lease p = Some k \<Longrightarrow> \<not> under_way p) \<Longrightarrow>
     run_step r (r\<lparr>r_ops := (r_ops r)(x \<mapsto> new_op (Some k))\<rparr>)"
| register_stop:
    "r_ops r x = Some p \<Longrightarrow> so_stage p = Constructed \<Longrightarrow> run_step r (set_stage r x Registered)"
| start:
    "r_ops r x = Some p \<Longrightarrow> so_stage p = Registered \<Longrightarrow> run_step r (start_section r x p)"
| stop:
    "r_ops r x = Some p \<Longrightarrow> so_stage p \<noteq> Constructed \<Longrightarrow> under_way p \<Longrightarrow> \<not> so_stop_called p \<Longrightarrow>
     run_step r (on_stop r x p)"
| granted:
    "r_ops r x = Some p \<Longrightarrow> so_stage p = Granted \<Longrightarrow> run_step r (complete_given r x p)"
| resumed:
    "r_ops r x = Some p \<Longrightarrow> so_stage p = Resuming g \<Longrightarrow> run_step r (resume_value r x p g)"
| handoff_shut_down:
    "r_ops r x = Some p \<Longrightarrow> so_stage p = Resuming g \<Longrightarrow> run_step r (resume_stopped r x g)"
| release:
    "run_step r (lease_release r k)"
| promote:
    "run_step r (r\<lparr>r_line := line_promote (r_line r) t\<rparr>)"

section \<open>Invariant\<close>

definition owner_stage :: "stage \<Rightarrow> bool" where
  "owner_stage st \<longleftrightarrow> st = Granted \<or> st = Resuming True"

text \<open>The operations in line, and those that own a slot no lease holds yet.\<close>

definition lined :: "(wid \<rightharpoonup> slot_op) \<Rightarrow> bool \<Rightarrow> wid set" where
  "lined ops reacquire = {x. \<exists>p. ops x = Some p \<and> so_stage p = In_line \<and> (so_lease p \<noteq> None) = reacquire}"

definition owners :: "(wid \<rightharpoonup> slot_op) \<Rightarrow> wid set" where
  "owners ops = {x. \<exists>p. ops x = Some p \<and> owner_stage (so_stage p)}"

definition holders :: "(wid \<rightharpoonup> bool) \<Rightarrow> wid set" where
  "holders leases = {k. leases k = Some True}"

definition slots :: "queue_run \<Rightarrow> nat" where
  "slots r = l_free (r_line r) + card (owners (r_ops r)) + card (holders (r_leases r))"

text \<open>The line holds exactly the operations that are in line, and no slot is free meanwhile.\<close>

definition line_matches :: "line \<Rightarrow> (wid \<rightharpoonup> slot_op) \<Rightarrow> bool" where
  "line_matches l ops \<longleftrightarrow>
     line_inv l \<and> set (l_reacquiring l) = lined ops True \<and>
     set (l_promoted l) \<union> set (l_waiting l) = lined ops False"

definition none_idle :: "line \<Rightarrow> bool" where
  "none_idle l \<longleftrightarrow> (0 < l_free l \<longrightarrow> in_line l = {})"

definition tickets_owned :: "line \<Rightarrow> (wid \<rightharpoonup> slot_op) \<Rightarrow> bool" where
  "tickets_owned l ops \<longleftrightarrow>
     (\<forall>x y t. l_waiter_ticket l x = Some t \<longrightarrow> l_waiter_ticket l y = Some t \<longrightarrow> x = y) \<and>
     (\<forall>x. l_waiter_ticket l x \<noteq> None \<longrightarrow> ops x \<noteq> None)"

text \<open>
  Leases and operations agree: while a reacquire is under way its lease does not hold a slot and
  no other reacquire of it is under way; a lease exists only once its operation completed.
\<close>

definition leases_match :: "(wid \<rightharpoonup> slot_op) \<Rightarrow> (wid \<rightharpoonup> bool) \<Rightarrow> bool" where
  "leases_match ops leases \<longleftrightarrow>
     (\<forall>x p k. ops x = Some p \<longrightarrow> under_way p \<longrightarrow> so_lease p = Some k \<longrightarrow> leases k = Some False) \<and>
     (\<forall>x y p q k. ops x = Some p \<longrightarrow> ops y = Some q \<longrightarrow> under_way p \<longrightarrow> under_way q \<longrightarrow>
        so_lease p = Some k \<longrightarrow> so_lease q = Some k \<longrightarrow> x = y) \<and>
     (\<forall>x p. ops x = Some p \<longrightarrow> under_way p \<longrightarrow> so_lease p = None \<longrightarrow> leases x = None) \<and>
     (\<forall>k. leases k \<noteq> None \<longrightarrow> ops k \<noteq> None)"

definition run_ok :: "queue_run \<Rightarrow> bool" where
  "run_ok r \<longleftrightarrow>
     finite (dom (r_ops r)) \<and> finite (dom (r_leases r)) \<and>
     line_matches (r_line r) (r_ops r) \<and> none_idle (r_line r) \<and>
     tickets_owned (r_line r) (r_ops r) \<and> leases_match (r_ops r) (r_leases r)"

definition run_inv :: "nat \<Rightarrow> queue_run \<Rightarrow> bool" where
  "run_inv n r \<longleftrightarrow> run_ok r \<and> slots r = n"

subsection \<open>How the parts move when one operation changes stage\<close>

lemma set_stage_fields [simp]:
  "r_line (set_stage r x st) = r_line r" "r_leases (set_stage r x st) = r_leases r"
  by (simp_all add: set_stage_def split: option.splits)

lemma set_stage_ops:
  "r_ops r x = Some p \<Longrightarrow> r_ops (set_stage r x st) = (r_ops r)(x \<mapsto> p\<lparr>so_stage := st\<rparr>)"
  by (simp add: set_stage_def)

lemma lined_update:
  "lined (ops(x \<mapsto> p)) b =
     (if so_stage p = In_line \<and> (so_lease p \<noteq> None) = b then insert x (lined ops b) else lined ops b - {x})"
  by (auto simp: lined_def)

lemma owners_finite: "finite (dom ops) \<Longrightarrow> finite (owners ops)"
  by (rule finite_subset [of _ "dom ops"]) (auto simp: owners_def)

lemma holders_finite: "finite (dom leases) \<Longrightarrow> finite (holders leases)"
  by (rule finite_subset [of _ "dom leases"]) (auto simp: holders_def)

lemma owners_update:
  "owners (ops(x \<mapsto> p)) = (if owner_stage (so_stage p) then insert x (owners ops) else owners ops - {x})"
  by (auto simp: owners_def)

lemma holders_update:
  "holders (leases(k \<mapsto> b)) = (if b then insert k (holders leases) else holders leases - {k})"
  by (auto simp: holders_def)

lemma owners_mem: "ops x = Some p \<Longrightarrow> x \<in> owners ops \<longleftrightarrow> owner_stage (so_stage p)"
  by (simp add: owners_def)

lemma lined_mem:
  "ops x = Some p \<Longrightarrow> x \<in> lined ops b \<longleftrightarrow> so_stage p = In_line \<and> (so_lease p \<noteq> None) = b"
  by (simp add: lined_def)

lemma leases_match_update:
  assumes "leases_match ops leases" and "ops x = Some p" and "so_lease p' = so_lease p"
    and "under_way p' \<Longrightarrow> under_way p"
  shows "leases_match (ops(x \<mapsto> p')) leases"
  using assms unfolding leases_match_def by (auto split: if_splits)

lemma leases_matchI:
  assumes "\<And>x p k. ops x = Some p \<Longrightarrow> under_way p \<Longrightarrow> so_lease p = Some k \<Longrightarrow> leases k = Some False"
    and "\<And>x y p q k. ops x = Some p \<Longrightarrow> ops y = Some q \<Longrightarrow> under_way p \<Longrightarrow> under_way q \<Longrightarrow>
      so_lease p = Some k \<Longrightarrow> so_lease q = Some k \<Longrightarrow> x = y"
    and "\<And>x p. ops x = Some p \<Longrightarrow> under_way p \<Longrightarrow> so_lease p = None \<Longrightarrow> leases x = None"
    and "\<And>k. leases k \<noteq> None \<Longrightarrow> ops k \<noteq> None"
  shows "leases_match ops leases"
  using assms unfolding leases_match_def by blast

lemma leases_matchD:
  assumes "leases_match ops leases"
  shows "ops x = Some p \<Longrightarrow> under_way p \<Longrightarrow> so_lease p = Some k \<Longrightarrow> leases k = Some False"
    and "ops x = Some p \<Longrightarrow> ops y = Some q \<Longrightarrow> under_way p \<Longrightarrow> under_way q \<Longrightarrow>
      so_lease p = Some k \<Longrightarrow> so_lease q = Some k \<Longrightarrow> x = y"
    and "ops x = Some p \<Longrightarrow> under_way p \<Longrightarrow> so_lease p = None \<Longrightarrow> leases x = None"
    and "leases k \<noteq> None \<Longrightarrow> ops k \<noteq> None"
  using assms unfolding leases_match_def by blast+

lemma tickets_owned_update:
  "tickets_owned l ops \<Longrightarrow> l_waiter_ticket l' = l_waiter_ticket l \<Longrightarrow> tickets_owned l' (ops(x \<mapsto> p))"
  by (simp add: tickets_owned_def)

lemma tickets_owned_cong:
  "tickets_owned l ops \<Longrightarrow> l_waiter_ticket l' = l_waiter_ticket l \<Longrightarrow> tickets_owned l' ops"
  by (simp add: tickets_owned_def)

lemma line_ticket_frame [frame_simps]:
  "l_waiter_ticket (line_left l x) = l_waiter_ticket l"
  "l_waiter_ticket (line_enqueue l x b) = l_waiter_ticket l"
  "l_waiter_ticket (snd (line_dequeue l x b)) = l_waiter_ticket l"
  "l_waiter_ticket (snd (line_release l)) = l_waiter_ticket l"
  "l_waiter_ticket (snd (line_try_take l)) = l_waiter_ticket l"
  "l_waiter_ticket (line_promote l t) = l_waiter_ticket l"
  by (simp_all add: line_left_def line_enqueue_def line_dequeue_def line_release_def line_try_take_def
      line_promote_def Let_def split: option.splits list.splits)

lemma line_left_seqs [simp]:
  "l_reacquiring (line_left l x) = l_reacquiring l" "l_promoted (line_left l x) = l_promoted l"
  "l_waiting (line_left l x) = l_waiting l" "l_free (line_left l x) = l_free l"
  by (simp_all add: line_left_def split: option.splits)

lemma in_line_lined: "line_matches l ops \<Longrightarrow> in_line l = lined ops True \<union> lined ops False"
  by (auto simp: line_matches_def in_line_def)

lemma lined_disjoint: "lined ops True \<inter> lined ops False = {}"
  by (auto simp: lined_def)


subsection \<open>Giving a slot back\<close>

lemma line_release_None:
  "line_release l = (None, l') \<Longrightarrow> in_line l = {} \<and> l' = l\<lparr>l_free := l_free l + 1\<rparr>"
  by (auto simp: line_release_def in_line_def split: list.splits)

lemma line_release_Some:
  assumes "line_release l = (Some y, l')" and "line_distinct l"
  shows "y \<in> in_line l \<and> l_free l' = l_free l \<and>
     set (l_reacquiring l') = set (l_reacquiring l) - {y} \<and>
     set (l_promoted l') \<union> set (l_waiting l') = set (l_promoted l) \<union> set (l_waiting l) - {y}"
  using assms
  by (auto simp: line_release_def in_line_def line_distinct_def split: list.splits)

lemma line_matches_leave:
  assumes "line_matches l ops" and "line_inv l'" and "ops y = Some p" and "so_stage p' \<noteq> In_line"
    and "set (l_reacquiring l') = set (l_reacquiring l) - {y}"
    and "set (l_promoted l') \<union> set (l_waiting l') = set (l_promoted l) \<union> set (l_waiting l) - {y}"
  shows "line_matches l' (ops(y \<mapsto> p'))"
  using assms by (simp add: line_matches_def lined_update)

lemma give_slot_back_ok:
  assumes ok: "run_ok r"
  shows "run_ok (give_slot_back r) \<and> slots (give_slot_back r) = Suc (slots r) \<and>
    r_leases (give_slot_back r) = r_leases r \<and>
    (\<forall>x p. r_ops r x = Some p \<longrightarrow> so_stage p \<noteq> In_line \<longrightarrow> r_ops (give_slot_back r) x = Some p)"
proof (cases "line_release (r_line r)")
  case (Pair w l')
  have inv': "line_inv l'"
    using ok Pair line_inv_release [of "r_line r"] by (simp add: run_ok_def line_matches_def)
  have tk: "l_waiter_ticket l' = l_waiter_ticket (r_line r)"
    using Pair line_ticket_frame(4) [of "r_line r"] by simp
  show ?thesis
  proof (cases w)
    case None
    with Pair line_release_None have e: "in_line (r_line r) = {}"
      and l': "l' = (r_line r)\<lparr>l_free := l_free (r_line r) + 1\<rparr>" by blast+
    have "give_slot_back r = r\<lparr>r_line := l'\<rparr>"
      using Pair None by (simp add: give_slot_back_def)
    with ok inv' e l' tk show ?thesis
      by (auto simp: run_ok_def line_matches_def none_idle_def in_line_def slots_def tickets_owned_def)
  next
    case (Some y)
    note rel = line_release_Some [OF Pair [unfolded Some]]
    from ok have dist: "line_distinct (r_line r)"
      by (simp add: run_ok_def line_matches_def line_inv_def)
    with rel have "y \<in> in_line (r_line r)" by blast
    with ok obtain p where p: "r_ops r y = Some p" "so_stage p = In_line"
      using in_line_lined [of "r_line r" "r_ops r"] by (auto simp: run_ok_def lined_def)
    define p' where "p' = p\<lparr>so_stage := Resuming True\<rparr>"
    have eq: "give_slot_back r = r\<lparr>r_line := l', r_ops := (r_ops r)(y \<mapsto> p')\<rparr>"
      using Pair Some p by (simp add: give_slot_back_def set_stage_def p'_def)
    have matches: "line_matches l' ((r_ops r)(y \<mapsto> p'))"
      using ok rel dist inv' p by (intro line_matches_leave [of "r_line r"]) (auto simp: run_ok_def p'_def)
    have free: "l_free (r_line r) = 0"
      using ok \<open>y \<in> in_line (r_line r)\<close> by (auto simp: run_ok_def none_idle_def)
    have "leases_match ((r_ops r)(y \<mapsto> p')) (r_leases r)"
      using ok p by (intro leases_match_update [of _ _ y p]) (auto simp: run_ok_def p'_def under_way_def)
    moreover have "y \<notin> owners (r_ops r)" "y \<in> owners ((r_ops r)(y \<mapsto> p'))"
      using p by (auto simp: owners_def owner_stage_def p'_def)
    ultimately show ?thesis
      unfolding eq using ok matches rel dist free tk p
      by (auto simp: run_ok_def none_idle_def slots_def owners_update owners_finite owner_stage_def p'_def
          intro: tickets_owned_update)
  qed
qed

lemmas give_slot_back_run_ok = give_slot_back_ok [THEN conjunct1]
lemmas give_slot_back_slots = give_slot_back_ok [THEN conjunct2, THEN conjunct1]
lemmas give_slot_back_leases = give_slot_back_ok [THEN conjunct2, THEN conjunct2, THEN conjunct1]
lemmas give_slot_back_other = give_slot_back_ok [THEN conjunct2, THEN conjunct2, THEN conjunct2, rule_format]

subsection \<open>Every step keeps the invariant\<close>

text \<open>An operation that is not in line and does not come to be moves on; its ownership of a slot may end.\<close>

lemma move_ok:
  assumes ok: "run_ok r" and p: "r_ops r x = Some p" and st: "so_stage p \<noteq> In_line" "so_stage p' \<noteq> In_line"
    and k: "so_lease p' = so_lease p" and u: "under_way p' \<Longrightarrow> under_way p"
  shows "run_ok (r\<lparr>r_ops := (r_ops r)(x \<mapsto> p')\<rparr>)"
proof -
  have "lined ((r_ops r)(x \<mapsto> p')) b = lined (r_ops r) b" for b
    using p st by (auto simp: lined_update lined_def)
  with ok have "line_matches (r_line r) ((r_ops r)(x \<mapsto> p'))"
    by (simp add: run_ok_def line_matches_def)
  moreover have "leases_match ((r_ops r)(x \<mapsto> p')) (r_leases r)"
    using ok p k u by (intro leases_match_update [of _ _ x p]) (auto simp: run_ok_def)
  ultimately show ?thesis
    using ok by (auto simp: run_ok_def intro: tickets_owned_update)
qed

lemma move_slots:
  assumes "finite (dom (r_ops r))" and "r_ops r x = Some p"
  shows "slots (r\<lparr>r_ops := (r_ops r)(x \<mapsto> p')\<rparr>) + of_bool (owner_stage (so_stage p)) =
         slots r + of_bool (owner_stage (so_stage p'))"
proof -
  have f: "finite (owners (r_ops r))" using assms(1) by (rule owners_finite)
  have "x \<in> owners (r_ops r) \<longleftrightarrow> owner_stage (so_stage p)" using assms(2) by (rule owners_mem)
  moreover have "x \<in> owners (r_ops r) \<Longrightarrow> 0 < card (owners (r_ops r))"
    using f by (auto simp: card_gt_0_iff)
  ultimately show ?thesis
    using f by (cases "owner_stage (so_stage p)") (auto simp: slots_def owners_update insert_absorb)
qed

lemma set_stage_eq:
  "r_ops r x = Some p \<Longrightarrow> set_stage r x st = r\<lparr>r_ops := (r_ops r)(x \<mapsto> p\<lparr>so_stage := st\<rparr>)\<rparr>"
  by (simp add: set_stage_def)


lemma run_invD:
  assumes "run_inv n r"
  shows "run_ok r" "slots r = n"
  using assms by (simp_all add: run_inv_def)

lemma run_inv_move:
  assumes inv: "run_inv n r" and p: "r_ops r x = Some p" and st: "so_stage p \<noteq> In_line" "so_stage p' \<noteq> In_line"
    and k: "so_lease p' = so_lease p" and u: "under_way p' \<Longrightarrow> under_way p"
    and o: "owner_stage (so_stage p) = owner_stage (so_stage p')"
  shows "run_inv n (r\<lparr>r_ops := (r_ops r)(x \<mapsto> p')\<rparr>)"
proof -
  from inv have "finite (dom (r_ops r))" by (simp add: run_inv_def run_ok_def)
  from move_slots [OF this p, of p'] o inv have "slots (r\<lparr>r_ops := (r_ops r)(x \<mapsto> p')\<rparr>) = n"
    by (simp add: run_inv_def)
  with move_ok [OF run_invD(1) [OF inv] p st k u] show ?thesis by (simp add: run_inv_def)
qed

lemma run_inv_make_work:
  assumes inv: "run_inv n r" and x: "r_ops r x = None"
    and fresh: "\<And>t y. tk = Some t \<Longrightarrow> l_waiter_ticket (r_line r) y \<noteq> Some t"
  shows "run_inv n (r\<lparr>r_ops := (r_ops r)(x \<mapsto> new_op None),
       r_line := (r_line r)\<lparr>l_waiter_ticket := (l_waiter_ticket (r_line r))(x := tk)\<rparr>\<rparr>)"
proof -
  define l where "l = r_line r"
  define l' where "l' = l\<lparr>l_waiter_ticket := (l_waiter_ticket l)(x := tk)\<rparr>"
  have ok: "run_ok r" using inv by (simp add: run_inv_def)
  have "line_matches l (r_ops r)" using ok by (simp add: run_ok_def l_def)
  from in_line_lined [OF this] x have "x \<notin> in_line l" by (auto simp: lined_def)
  then have nin: "x \<notin> set (l_reacquiring l)" "x \<notin> set (l_promoted l)" "x \<notin> set (l_waiting l)"
    by (simp_all add: in_line_def)
  have xt: "l_waiter_ticket l x = None"
    using ok x by (auto simp: run_ok_def tickets_owned_def l_def)
  have "line_inv l" using ok by (simp add: run_ok_def line_matches_def l_def)
  with nin have "line_inv l'"
    by (auto simp: line_inv_def line_inv_parts l'_def)
  moreover have "lined ((r_ops r)(x \<mapsto> new_op None)) b = lined (r_ops r) b" for b
    using x by (auto simp: lined_def new_op_def)
  ultimately have "line_matches l' ((r_ops r)(x \<mapsto> new_op None))"
    using ok by (simp add: run_ok_def line_matches_def l'_def l_def)
  moreover have "none_idle l'"
    using ok by (simp add: run_ok_def none_idle_def in_line_def l'_def l_def)
  moreover have "tickets_owned l' ((r_ops r)(x \<mapsto> new_op None))"
    using ok fresh by (auto simp: run_ok_def tickets_owned_def l'_def l_def)
  moreover have "leases_match ((r_ops r)(x \<mapsto> new_op None)) (r_leases r)"
    using ok x by (auto simp: run_ok_def leases_match_def new_op_def)
  moreover have "owners ((r_ops r)(x \<mapsto> new_op None)) = owners (r_ops r)"
    using x by (auto simp: owners_def new_op_def owner_stage_def)
  ultimately show ?thesis
    using ok run_invD(2) [OF inv] by (simp add: run_inv_def run_ok_def slots_def l'_def l_def)
qed

lemma run_inv_make_reacquire:
  assumes inv: "run_inv n r" and x: "r_ops r x = None" and k: "r_leases r k = Some False"
    and none: "\<And>y p. r_ops r y = Some p \<Longrightarrow> so_lease p = Some k \<Longrightarrow> \<not> under_way p"
  shows "run_inv n (r\<lparr>r_ops := (r_ops r)(x \<mapsto> new_op (Some k))\<rparr>)"
proof -
  have ok: "run_ok r" using inv by (simp add: run_inv_def)
  have "lined ((r_ops r)(x \<mapsto> new_op (Some k))) b = lined (r_ops r) b" for b
    using x by (auto simp: lined_def new_op_def)
  with ok have "line_matches (r_line r) ((r_ops r)(x \<mapsto> new_op (Some k)))"
    by (simp add: run_ok_def line_matches_def)
  moreover have "leases_match ((r_ops r)(x \<mapsto> new_op (Some k))) (r_leases r)"
    using ok k none by (auto simp: run_ok_def leases_match_def new_op_def)
  moreover have "owners ((r_ops r)(x \<mapsto> new_op (Some k))) = owners (r_ops r)"
    using x by (auto simp: owners_def new_op_def owner_stage_def)
  ultimately show ?thesis
    using ok run_invD(2) [OF inv] by (auto simp: run_inv_def run_ok_def slots_def intro: tickets_owned_update)
qed

lemma line_try_take_cases:
  "line_try_take l = (True, l') \<Longrightarrow> 0 < l_free l \<and> l' = l\<lparr>l_free := l_free l - 1\<rparr>"
  "line_try_take l = (False, l') \<Longrightarrow> l_free l = 0 \<and> l' = l"
  by (auto simp: line_try_take_def split: if_splits)

lemma line_enqueue_sets:
  "set (l_reacquiring (line_enqueue l x b)) = (if b then insert x (set (l_reacquiring l)) else set (l_reacquiring l))"
  "set (l_promoted (line_enqueue l x b)) \<union> set (l_waiting (line_enqueue l x b)) =
     (if b then set (l_promoted l) \<union> set (l_waiting l) else insert x (set (l_promoted l) \<union> set (l_waiting l)))"
  "l_free (line_enqueue l x b) = l_free l"
  by (auto simp: line_enqueue_def Let_def split: option.splits)

lemma run_inv_start:
  assumes inv: "run_inv n r" and p: "r_ops r x = Some p" and st: "so_stage p = Registered"
  shows "run_inv n (start_section r x p)"
proof -
  have ok: "run_ok r" using inv by (simp add: run_inv_def)
  have fin: "finite (dom (r_ops r))" using ok by (simp add: run_ok_def)
  consider "so_stopped_early p" | l where "\<not> so_stopped_early p" "line_try_take (r_line r) = (True, l)"
    | l where "\<not> so_stopped_early p" "line_try_take (r_line r) = (False, l)"
    by (metis (full_types) surj_pair)
  then show ?thesis
  proof cases
    case 1
    with p st show ?thesis
      by (auto simp: start_section_def set_stage_eq under_way_def owner_stage_def intro!: run_inv_move [OF inv p])
  next
    case (2 l)
    from line_try_take_cases(1) [OF 2(2)] have free: "0 < l_free (r_line r)"
      and l: "l = (r_line r)\<lparr>l_free := l_free (r_line r) - 1\<rparr>" by blast+
    define p' where "p' = p\<lparr>so_stage := Granted\<rparr>"
    have m: "run_ok (r\<lparr>r_ops := (r_ops r)(x \<mapsto> p')\<rparr>)"
      using st by (intro move_ok [OF ok p]) (auto simp: p'_def under_way_def)
    have "slots (r\<lparr>r_ops := (r_ops r)(x \<mapsto> p')\<rparr>) = Suc (slots r)"
      using move_slots [OF fin p, of p'] st by (simp add: p'_def owner_stage_def)
    moreover have "start_section r x p = r\<lparr>r_line := l, r_ops := (r_ops r)(x \<mapsto> p')\<rparr>"
      using 2 p by (simp add: start_section_def set_stage_def p'_def)
    ultimately show ?thesis
      using m inv free l
      by (auto simp: run_inv_def run_ok_def slots_def line_matches_def line_inv_def line_inv_parts
          none_idle_def in_line_def tickets_owned_def)
  next
    case (3 l)
    from line_try_take_cases(2) [OF 3(2)] have free: "l_free (r_line r) = 0" and l: "l = r_line r" by blast+
    define p' where "p' = p\<lparr>so_stage := In_line\<rparr>"
    define b where "b = (so_lease p \<noteq> None)"
    define l' where "l' = line_enqueue (r_line r) x b"
    have eq: "start_section r x p = r\<lparr>r_line := l', r_ops := (r_ops r)(x \<mapsto> p')\<rparr>"
      using 3 p l by (simp add: start_section_def set_stage_def p'_def l'_def b_def)
    have lm: "line_matches (r_line r) (r_ops r)" using ok by (simp add: run_ok_def)
    have nin: "x \<notin> in_line (r_line r)"
      using in_line_lined [OF lm] p st by (auto simp: lined_def)
    have "line_inv l'"
      using lm ok nin unfolding l'_def
      by (intro line_inv_enqueue) (auto simp: line_matches_def run_ok_def tickets_owned_def)
    moreover have "lined ((r_ops r)(x \<mapsto> p')) c = (if c = b then insert x (lined (r_ops r) c) else lined (r_ops r) c)" for c
      using p st by (auto simp: lined_update lined_def p'_def b_def)
    ultimately have "line_matches l' ((r_ops r)(x \<mapsto> p'))"
      using lm by (auto simp: line_matches_def l'_def line_enqueue_sets)
    moreover have "leases_match ((r_ops r)(x \<mapsto> p')) (r_leases r)"
      using ok p st by (intro leases_match_update [of _ _ x p]) (auto simp: run_ok_def p'_def under_way_def)
    moreover have "owners ((r_ops r)(x \<mapsto> p')) = owners (r_ops r)"
      using p st by (auto simp: owners_def p'_def owner_stage_def)
    moreover have "tickets_owned l' ((r_ops r)(x \<mapsto> p'))"
      using ok by (auto simp: run_ok_def l'_def frame_simps intro: tickets_owned_update)
    ultimately show ?thesis
      unfolding eq using ok run_invD(2) [OF inv] free
      by (simp add: run_inv_def run_ok_def slots_def none_idle_def l'_def line_enqueue_sets)
  qed
qed


lemma line_dequeue_sets:
  assumes "line_distinct l"
  shows "fst (line_dequeue l x b) \<longleftrightarrow> (if b then x \<in> set (l_reacquiring l) else x \<in> set (l_promoted l) \<union> set (l_waiting l))"
    and "set (l_reacquiring (snd (line_dequeue l x b))) = (if b then set (l_reacquiring l) - {x} else set (l_reacquiring l))"
    and "set (l_promoted (snd (line_dequeue l x b))) \<union> set (l_waiting (snd (line_dequeue l x b))) =
      (if b then set (l_promoted l) \<union> set (l_waiting l) else set (l_promoted l) \<union> set (l_waiting l) - {x})"
    and "l_free (snd (line_dequeue l x b)) = l_free l"
  using assms by (auto simp: line_dequeue_def line_distinct_def)

lemma line_dequeue_absent:
  "line_distinct l \<Longrightarrow> \<not> fst (line_dequeue l x b) \<Longrightarrow> snd (line_dequeue l x b) = l"
  by (auto simp: line_dequeue_def remove1_idem split: if_splits)

lemma run_inv_stop:
  assumes inv: "run_inv n r" and p: "r_ops r x = Some p" and u: "under_way p"
  shows "run_inv n (on_stop r x p)"
proof -
  have ok: "run_ok r" using inv by (simp add: run_inv_def)
  have lm: "line_matches (r_line r) (r_ops r)" using ok by (simp add: run_ok_def)
  then have dist: "line_distinct (r_line r)" by (simp add: line_matches_def line_inv_def)
  define b where "b = (so_lease p \<noteq> None)"
  obtain found l where dq: "line_dequeue (r_line r) x b = (found, l)" by (cases "line_dequeue (r_line r) x b")
  have found: "found \<longleftrightarrow> so_stage p = In_line"
    using line_dequeue_sets(1) [OF dist, of x b] dq lm lined_mem [of "r_ops r" x p, OF p]
    by (auto simp: line_matches_def b_def split: if_splits)
  show ?thesis
  proof (cases found)
    case False
    then have "l = r_line r" using line_dequeue_absent [OF dist, of x b] dq by simp
    then have "on_stop r x p = r\<lparr>r_ops := (r_ops r)(x \<mapsto> p\<lparr>so_stop_called := True, so_stopped_early := True\<rparr>)\<rparr>"
      using dq False by (simp add: on_stop_def b_def)
    with inv p u False found show ?thesis
      by (auto simp: under_way_def intro!: run_inv_move [OF inv p])
  next
    case True
    define p' where "p' = p\<lparr>so_stop_called := True, so_stage := Resuming False\<rparr>"
    have eq: "on_stop r x p = r\<lparr>r_line := l, r_ops := (r_ops r)(x \<mapsto> p')\<rparr>"
      using dq True by (simp add: on_stop_def b_def p'_def)
    have "line_inv l"
      using line_inv_dequeue [of "r_line r" x b] dq lm by (simp add: line_matches_def)
    moreover have "set (l_reacquiring l) = set (l_reacquiring (r_line r)) - {x}"
      and "set (l_promoted l) \<union> set (l_waiting l) = set (l_promoted (r_line r)) \<union> set (l_waiting (r_line r)) - {x}"
      using line_dequeue_sets(2,3) [OF dist, of x b] dq lm lined_mem [of "r_ops r" x p, OF p] True found
      by (auto simp: line_matches_def b_def split: if_splits)
    ultimately have lm': "line_matches l ((r_ops r)(x \<mapsto> p'))"
      using lm p by (intro line_matches_leave [of "r_line r" _ _ x p]) (auto simp: p'_def)
    have free: "l_free l = l_free (r_line r)"
      using line_dequeue_sets(4) [OF dist, of x b] dq by simp
    moreover have "l_free (r_line r) = 0"
      using ok in_line_lined [OF lm] p True found by (auto simp: run_ok_def none_idle_def lined_def)
    moreover have "l_waiter_ticket l = l_waiter_ticket (r_line r)"
      using dq line_ticket_frame(3) [of "r_line r" x b] by simp
    moreover have "leases_match ((r_ops r)(x \<mapsto> p')) (r_leases r)"
      using ok p u by (intro leases_match_update [of _ _ x p]) (auto simp: run_ok_def p'_def under_way_def)
    moreover have "owners ((r_ops r)(x \<mapsto> p')) = owners (r_ops r)"
      using p True found by (auto simp: owners_def p'_def owner_stage_def)
    ultimately show ?thesis
      unfolding eq using ok run_invD(2) [OF inv] lm'
      by (auto simp: run_inv_def run_ok_def slots_def none_idle_def intro: tickets_owned_update)
  qed
qed

lemma run_inv_complete_given:
  assumes inv: "run_inv n r" and p: "r_ops r x = Some p" and st: "owner_stage (so_stage p)"
  shows "run_inv n (complete_given r x p)"
proof -
  have ok: "run_ok r" using inv by (simp add: run_inv_def)
  have fin: "finite (dom (r_ops r))" "finite (dom (r_leases r))" using ok by (simp_all add: run_ok_def)
  have u: "under_way p" using st by (auto simp: under_way_def owner_stage_def)
  define k where "k = (case so_lease p of Some k \<Rightarrow> k | None \<Rightarrow> x)"
  define p' where "p' = p\<lparr>so_stage := Completed_given\<rparr>"
  define r1 where "r1 = r\<lparr>r_ops := (r_ops r)(x \<mapsto> p')\<rparr>"
  have eq: "complete_given r x p = r1\<lparr>r_leases := (r_leases r)(k \<mapsto> True)\<rparr>"
    using p by (simp add: complete_given_def set_stage_eq r1_def p'_def k_def split: option.splits)
  have r1: "run_ok r1"
    unfolding r1_def using st by (intro move_ok [OF ok p]) (auto simp: p'_def under_way_def owner_stage_def)
  have s1: "slots r1 + 1 = slots r"
    using move_slots [OF fin(1) p, of p'] st owner_stage_def [of Completed_given]
    by (simp add: r1_def p'_def)
  have knt: "k \<notin> holders (r_leases r)"
    using ok p u by (auto simp: run_ok_def leases_match_def holders_def k_def split: option.splits)
  have "leases_match (r_ops r1) ((r_leases r)(k \<mapsto> True))"
  proof -
    have lm: "leases_match (r_ops r) (r_leases r)" using ok by (simp add: run_ok_def)
    have dead: "\<not> under_way p'" by (simp add: under_way_def p'_def)
    have other: "r_ops r1 y = Some q \<Longrightarrow> under_way q \<Longrightarrow> y \<noteq> x \<and> r_ops r y = Some q" for y q
      using dead by (auto simp: r1_def split: if_splits)
    show ?thesis
    proof (rule leases_matchI)
      fix y q j assume y: "r_ops r1 y = Some q" "under_way q" "so_lease q = Some j"
      have y': "y \<noteq> x" "r_ops r y = Some q" using other [OF y(1,2)] by blast+
      have j: "r_leases r j = Some False" by (rule leases_matchD(1) [OF lm y'(2) y(2,3)])
      have "j \<noteq> k"
      proof (cases "so_lease p")
        case None
        with leases_matchD(3) [OF lm p u] j show ?thesis by (auto simp: k_def)
      next
        case (Some i)
        with leases_matchD(2) [OF lm y'(2) p y(2) u y(3)] y'(1) show ?thesis by (auto simp: k_def)
      qed
      with j show "((r_leases r)(k \<mapsto> True)) j = Some False" by simp
    next
      fix y z q q' j
      assume "r_ops r1 y = Some q" "r_ops r1 z = Some q'" "under_way q" "under_way q'"
        "so_lease q = Some j" "so_lease q' = Some j"
      with other leases_matchD(2) [OF lm, of y q z q' j] show "y = z" by blast
    next
      fix y q assume y: "r_ops r1 y = Some q" "under_way q" "so_lease q = None"
      have "k = x \<or> r_leases r k = Some False"
        using leases_matchD(1) [OF lm p u] by (auto simp: k_def split: option.splits)
      with leases_matchD(3) [OF lm _ y(2,3)] other [OF y(1,2)] have "y \<noteq> k" by auto
      with leases_matchD(3) [OF lm] other [OF y(1,2)] y
      show "((r_leases r)(k \<mapsto> True)) y = None" by simp
    next
      fix j assume "((r_leases r)(k \<mapsto> True)) j \<noteq> None"
      then have "j = x \<or> r_leases r j \<noteq> None"
        using leases_matchD(1) [OF lm p u] by (auto simp: k_def split: if_splits option.splits)
      with leases_matchD(4) [OF lm, of j] p show "r_ops r1 j \<noteq> None" by (auto simp: r1_def)
    qed
  qed
  with r1 have "run_ok (complete_given r x p)"
    unfolding eq by (simp add: run_ok_def r1_def)
  moreover have "slots (complete_given r x p) = slots r1 + 1"
    unfolding eq using knt fin(2) by (simp add: slots_def holders_update holders_finite r1_def)
  ultimately show ?thesis using s1 run_invD(2) [OF inv] by (simp add: run_inv_def)
qed

lemma run_inv_resume_stopped:
  assumes inv: "run_inv n r" and p: "r_ops r x = Some p" and st: "so_stage p = Resuming g"
  shows "run_inv n (resume_stopped r x g)"
proof (cases g)
  case False
  with p st show ?thesis
    by (auto simp: resume_stopped_def complete_stopped_def set_stage_eq under_way_def owner_stage_def
        intro!: run_inv_move [OF inv p])
next
  case True
  have ok: "run_ok r" using inv by (simp add: run_inv_def)
  define r1 where "r1 = give_slot_back r"
  have ok1: "run_ok r1" and s1: "slots r1 = Suc (slots r)"
    using give_slot_back_run_ok [OF ok] give_slot_back_slots [OF ok] by (simp_all add: r1_def)
  have p1: "r_ops r1 x = Some p"
    using give_slot_back_other [OF ok p] st by (simp add: r1_def)
  define p' where "p' = p\<lparr>so_stage := Completed_stopped\<rparr>"
  have "resume_stopped r x g = r1\<lparr>r_ops := (r_ops r1)(x \<mapsto> p')\<rparr>"
    using True p1 by (simp add: resume_stopped_def complete_stopped_def set_stage_eq r1_def p'_def)
  moreover have "run_ok (r1\<lparr>r_ops := (r_ops r1)(x \<mapsto> p')\<rparr>)"
    using st by (intro move_ok [OF ok1 p1]) (auto simp: p'_def under_way_def)
  moreover have "slots (r1\<lparr>r_ops := (r_ops r1)(x \<mapsto> p')\<rparr>) + 1 = slots r1"
    using move_slots [OF _ p1, of p'] ok1 st True by (simp add: p'_def owner_stage_def run_ok_def)
  ultimately show ?thesis using s1 run_invD(2) [OF inv] by (simp add: run_inv_def)
qed

lemma run_inv_lease_release:
  assumes inv: "run_inv n r"
  shows "run_inv n (lease_release r k)"
proof (cases "r_leases r k = Some True")
  case False
  with inv show ?thesis by (simp add: lease_release_def)
next
  case True
  have ok: "run_ok r" using inv by (simp add: run_inv_def)
  define r1 where "r1 = r\<lparr>r_leases := (r_leases r)(k \<mapsto> False)\<rparr>"
  have "so_lease p \<noteq> None" if "r_ops r k = Some p" "under_way p" for p
    using leases_matchD(3) [of "r_ops r" "r_leases r" k p] ok that True by (auto simp: run_ok_def)
  then have "leases_match (r_ops r) ((r_leases r)(k \<mapsto> False))"
    using ok True by (auto simp: run_ok_def leases_match_def)
  with ok have ok1: "run_ok r1" by (simp add: run_ok_def r1_def)
  have "k \<in> holders (r_leases r)" using True by (simp add: holders_def)
  moreover have "finite (holders (r_leases r))" using ok by (simp add: run_ok_def holders_finite)
  moreover from calculation have "0 < card (holders (r_leases r))" by (auto simp: card_gt_0_iff)
  ultimately have "slots r1 + 1 = slots r"
    by (simp add: slots_def r1_def holders_update)
  with give_slot_back_run_ok [OF ok1] give_slot_back_slots [OF ok1] True inv show ?thesis
    by (simp add: lease_release_def run_inv_def r1_def)
qed

lemma line_promote_sets:
  "line_inv l \<Longrightarrow> set (l_reacquiring (line_promote l t)) = set (l_reacquiring l) \<and>
     set (l_promoted (line_promote l t)) \<union> set (l_waiting (line_promote l t)) =
     set (l_promoted l) \<union> set (l_waiting l) \<and> l_free (line_promote l t) = l_free l"
  by (auto simp: line_promote_def Let_def line_inv_def line_distinct_def split: option.splits)

lemma run_inv_promote:
  assumes inv: "run_inv n r"
  shows "run_inv n (r\<lparr>r_line := line_promote (r_line r) t\<rparr>)"
proof -
  have ok: "run_ok r" using inv by (simp add: run_inv_def)
  have "line_inv (r_line r)" using ok by (simp add: run_ok_def line_matches_def)
  from line_promote_sets [OF this, of t] line_inv_promote [OF this, of t]
  show ?thesis using inv
    by (auto simp: run_inv_def run_ok_def slots_def line_matches_def none_idle_def in_line_def
        frame_simps intro: tickets_owned_cong)
qed

lemma run_step_inv: "run_inv n r \<Longrightarrow> run_step r r' \<Longrightarrow> run_inv n r'"
proof (erule run_step.cases)
  fix r0 x p assume inv: "run_inv n r" and r: "r = r0" "r' = set_stage r0 x Registered"
    and p: "r_ops r0 x = Some p" "so_stage p = Constructed"
  then show "run_inv n r'"
    by (auto simp: set_stage_eq under_way_def owner_stage_def intro!: run_inv_move)
next
  fix r0 x p g assume "run_inv n r" and "r = r0" "r' = resume_value r0 x p g"
    and p: "r_ops r0 x = Some p" "so_stage p = Resuming g"
  then show "run_inv n r'"
    by (auto simp: resume_value_def complete_stopped_def set_stage_eq under_way_def owner_stage_def
        intro!: run_inv_complete_given run_inv_move)
qed (auto intro: run_inv_make_work run_inv_make_reacquire run_inv_start run_inv_stop
    run_inv_complete_given run_inv_resume_stopped run_inv_lease_release run_inv_promote
    simp: owner_stage_def)

lemma run_inv_new: "run_inv n (run_new n)"
  by (simp add: run_inv_def run_ok_def run_new_def slots_def owners_def holders_def line_matches_def
      lined_def line_inv_new none_idle_def in_line_def tickets_owned_def leases_match_def)
    (simp add: line_new_def)

interpretation qr: transition_system "\<lambda>r. r = run_new n" run_step "run_inv n" for n
  by unfold_locales (auto intro: run_inv_new run_step_inv)

end
