(* ===== verification/Queue_Properties.thy ===== *)
theory Queue_Properties
  imports Queue_Run
begin

text \<open>
  The properties of the build queue: the pointer code refines the line, the line is served in
  the documented order, and in every reachable state of the waiting operations and leases no
  slot is lost, duplicated or left idle.
\<close>

text \<open>The order in which the line is served.\<close>

definition service_order :: "line \<Rightarrow> wid list" where
  "service_order l = l_reacquiring l @ l_promoted l @ l_waiting l"

lemma line_release_order:
  "fst (line_release l) = (case service_order l of [] \<Rightarrow> None | x # _ \<Rightarrow> Some x)"
  "service_order (snd (line_release l)) = tl (service_order l)"
  "l_free (snd (line_release l)) = (if service_order l = [] then l_free l + 1 else l_free l)"
  by (auto simp: line_release_def service_order_def split: list.splits)

lemma line_promote_order:
  assumes "line_inv l" and "l_ticket_waiter l t = Some x" and "\<not> l_ticket_promoted l t"
  shows "service_order (line_promote l t) =
     l_reacquiring l @ l_promoted l @ x # remove1 x (l_waiting l)"
proof -
  have "l_waiter_ticket l x = Some t" and "x \<in> set (l_promoted l) \<union> set (l_waiting l)"
    using tickets_agreeD [OF line_invD(2) [OF assms(1)], of t x] assms(2) by auto
  with line_invD(3) [OF assms(1)] assms(3) have "x \<in> set (l_waiting l)"
    by (auto simp: promoted_ok_def)
  with assms(2,3) show ?thesis by (simp add: line_promote_def service_order_def)
qed

text \<open>
  The intrusive list of waiters is a FIFO queue: pushing waiters onto an empty list, in any
  state of the \<open>next\<close> pointers, and popping as many again yields them in the order they came.
\<close>

theorem waiters_fifo:
  assumes "distinct xs" and "waiters_push_all h waiters_empty xs = (h', w')"
  shows "waiters_pop_all h' w' (length xs) = xs"
proof -
  have "waiters_repr h' w' ([] @ xs)"
    using assms by (intro waiters_push_all_repr [of h waiters_empty]) auto
  from wl.drain_order [OF this, of "length xs"] show ?thesis
    by (simp add: waiters_pop_all_drain)
qed

theorem waiters_fifo_witness:
  "\<exists>h w. waiters_push_all (\<lambda>_. Some 7) waiters_empty [3, 1, 2] = (h, w) \<and> waiters_pop_all h w 3 = [3, 1, 2]"
proof -
  obtain h w where p: "waiters_push_all (\<lambda>_. Some 7) waiters_empty [3, 1, 2] = (h, w)"
    by (metis surj_pair)
  have "distinct [3, 1, 2 :: wid]" by simp
  from waiters_fifo [OF this p] have "waiters_pop_all h w 3 = [3, 1, 2]" by (simp add: numeral_3_eq_3)
  with p show ?thesis by blast
qed

text \<open>
  C32: the queue over pointer lists implements the line over sequences: from related states every
  operation under the queue's lock - putting a new waiter in line, taking one out, giving a slot
  back and promoting a ticket - returns, returns the same answer and leads to related states.
\<close>

theorem queue_refines_line:
  assumes "queue_repr q l" and "x \<notin> in_line l"
  shows "queue_repr (enqueue q x b) (line_enqueue l x b) \<and>
    (\<exists>q'. dequeue q y b = Some (fst (line_dequeue l y b), q') \<and> queue_repr q' (snd (line_dequeue l y b))) \<and>
    fst (release_slot q) = fst (line_release l) \<and> queue_repr (snd (release_slot q)) (snd (line_release l)) \<and>
    (\<exists>q'. promote q t = Some q' \<and> queue_repr q' (line_promote l t))"
  using sim_enqueue [OF assms] sim_dequeue [OF assms(1)] sim_release [OF assms(1)] sim_promote [OF assms(1)]
  by blast

theorem queue_refines_line_witness:
  "\<exists>q'. dequeue (build_queue_new 2 (\<lambda>_. None)) 5 False = Some (False, q')"
proof -
  have "5 \<notin> in_line (line_new 2 (\<lambda>_. None))" by (simp add: in_line_def line_new_def)
  from queue_refines_line [OF queue_repr_new this, of False 5]
  show ?thesis by (auto simp: line_dequeue_def line_new_def)
qed

text \<open>
  A slot given back goes to the oldest lease taking one back, else to the oldest promoted
  work, else to the oldest other work, and only if nobody is in line to the free slots.
\<close>

theorem release_serves_in_order:
  assumes "queue_repr q l"
  shows "fst (release_slot q) =
      (case l_reacquiring l @ l_promoted l @ l_waiting l of [] \<Rightarrow> None | x # _ \<Rightarrow> Some x) \<and>
    bq_free (snd (release_slot q)) = (if in_line l = {} then bq_free q + 1 else bq_free q)"
proof
  note sim = sim_release [OF assms]
  from sim show "fst (release_slot q) =
      (case l_reacquiring l @ l_promoted l @ l_waiting l of [] \<Rightarrow> None | x # _ \<Rightarrow> Some x)"
    by (simp add: line_release_order(1) service_order_def)
  from sim assms show "bq_free (snd (release_slot q)) = (if in_line l = {} then bq_free q + 1 else bq_free q)"
    by (auto simp: line_release_order(3) service_order_def in_line_def queue_repr_fields(1))
qed

theorem release_serves_in_order_witness:
  "fst (release_slot (enqueue (enqueue (build_queue_new 0 (\<lambda>_. None)) 4 False) 9 True)) = Some 9"
proof -
  let ?empty = "line_new 0 (\<lambda>_. None)"
  have "4 \<notin> in_line ?empty" and "9 \<notin> in_line (line_enqueue ?empty 4 False)"
    by (simp_all add: in_line_def line_new_def line_enqueue_def)
  then have "queue_repr (enqueue (enqueue (build_queue_new 0 (\<lambda>_. None)) 4 False) 9 True)
      (line_enqueue (line_enqueue ?empty 4 False) 9 True)"
    by (intro sim_enqueue queue_repr_new)
  from release_serves_in_order [OF this] show ?thesis
    by (simp add: line_enqueue_def line_new_def)
qed

text \<open>
  Promoting the ticket of waiting work moves it ahead of all work that was not promoted and
  behind the work promoted before it; everyone else keeps their order.
\<close>

theorem promote_moves_ahead:
  assumes "queue_repr q l" and "line_inv l" and "bq_ticket_waiter q t = Some x" and "\<not> bq_ticket_promoted q t"
  shows "\<exists>q' l'. promote q t = Some q' \<and> queue_repr q' l' \<and>
    service_order l' = l_reacquiring l @ l_promoted l @ x # remove1 x (l_waiting l)"
  using sim_promote [OF assms(1), of t] line_promote_order [OF assms(2), of t x] assms
  by (auto simp: queue_repr_fields)

theorem promote_moves_ahead_witness:
  "\<exists>q'. promote (enqueue (enqueue (build_queue_new 0 (\<lambda>x. Some x)) 4 False) 9 False) 9 = Some q' \<and>
     fst (release_slot q') = Some 9"
proof -
  let ?q = "enqueue (enqueue (build_queue_new 0 (\<lambda>x. Some x)) 4 False) 9 False"
  let ?empty = "line_new 0 (\<lambda>x. Some x)"
  let ?l = "line_enqueue (line_enqueue ?empty 4 False) 9 False"
  have n: "4 \<notin> in_line ?empty" "9 \<notin> in_line (line_enqueue ?empty 4 False)"
    by (simp_all add: in_line_def line_new_def line_enqueue_def Let_def)
  then have repr: "queue_repr ?q ?l" by (intro sim_enqueue queue_repr_new)
  have inv: "line_inv ?l"
    by (intro line_inv_enqueue line_inv_new n) (simp_all add: line_enqueue_def line_new_def Let_def)
  have "bq_ticket_waiter ?q 9 = Some 9" "\<not> bq_ticket_promoted ?q 9"
    by (simp_all add: queue_repr_fields [OF repr] line_enqueue_def line_new_def Let_def)
  from promote_moves_ahead [OF repr inv this] obtain q' l'
    where "promote ?q 9 = Some q'" and r': "queue_repr q' l'" and "service_order l' = [9, 4]"
    by (auto simp: line_enqueue_def line_new_def Let_def)
  moreover from this sim_release [OF r'] have "fst (release_slot q') = Some 9"
    by (simp add: line_release_order(1))
  ultimately show ?thesis by blast
qed

text \<open>
  C31: in every reachable state of a queue of \<open>n\<close> slots the free slots, the slots on their way to
  a waiter and the slots leases hold are \<open>n\<close> together; so at most \<open>n\<close> leases hold a slot at a
  time, and no slot is lost or made, whatever is stopped and even if the hand-off shuts down.
\<close>

theorem slots_conserved:
  assumes "run_step\<^sup>*\<^sup>* (run_new n) r"
  shows "l_free (r_line r) + card (owners (r_ops r)) + card (holders (r_leases r)) = n"
  using qr.reachable_inv [OF refl assms] by (simp add: run_inv_def slots_def)

theorem slots_conserved_witness:
  "l_free (r_line (run_new 3)) + card (owners (r_ops (run_new 3))) + card (holders (r_leases (run_new 3))) = 3"
  by (rule slots_conserved) simp

text \<open>
  No slot lies free while an operation waits in line, every operation in line is there exactly
  once, and, as long as the queue has a slot at all, some lease holds one or some slot is on its
  way, so a waiter is always waiting on somebody who will give a slot back.
\<close>

theorem no_idle_slot:
  assumes "run_step\<^sup>*\<^sup>* (run_new n) r" and "r_ops r x = Some p" and "so_stage p = In_line"
  shows "count_list (service_order (r_line r)) x = 1 \<and> l_free (r_line r) = 0 \<and>
    (0 < n \<longrightarrow> owners (r_ops r) \<noteq> {} \<or> holders (r_leases r) \<noteq> {})"
proof -
  have ok: "run_ok r" and slots: "slots r = n"
    using qr.reachable_inv [OF refl assms(1)] by (simp_all add: run_inv_def)
  then have lm: "line_matches (r_line r) (r_ops r)" by (simp add: run_ok_def)
  have "x \<in> in_line (r_line r)"
    using in_line_lined [OF lm] assms(2,3) by (auto simp: lined_def)
  moreover have "distinct (service_order (r_line r))"
    using line_invD(1) [of "r_line r"] lm
    unfolding line_matches_def line_distinct_def service_order_def by blast
  moreover have "in_line (r_line r) = set (service_order (r_line r))"
    by (auto simp: in_line_def service_order_def)
  moreover have "l_free (r_line r) = 0"
    using ok \<open>x \<in> in_line (r_line r)\<close> by (auto simp: run_ok_def none_idle_def)
  ultimately show ?thesis
    using slots by (auto simp: slots_def distinct_count_list)
qed

theorem no_idle_slot_witness:
  "\<exists>r. run_step\<^sup>*\<^sup>* (run_new 0) r \<and> count_list (service_order (r_line r)) 5 = 1 \<and> l_free (r_line r) = 0"
proof -
  define r1 where "r1 = (run_new 0)\<lparr>r_ops := [5 \<mapsto> new_op None],
      r_line := (r_line (run_new 0))\<lparr>l_waiter_ticket := (\<lambda>_. None)(5 := None)\<rparr>\<rparr>"
  define r2 where "r2 = set_stage r1 5 Registered"
  define p where "p = (new_op None)\<lparr>so_stage := Registered\<rparr>"
  define r3 where "r3 = start_section r2 5 p"
  have "run_step (run_new 0) r1"
    using run_step.make_work [of "run_new 0" 5 None] by (simp add: r1_def run_new_def line_new_def)
  moreover have "run_step r1 r2"
    unfolding r2_def by (rule run_step.register_stop [of _ _ "new_op None"]) (simp_all add: r1_def new_op_def)
  moreover have p2: "r_ops r2 5 = Some p" by (simp add: r2_def r1_def set_stage_def p_def)
  then have "run_step r2 r3"
    unfolding r3_def by (rule run_step.start) (simp add: p_def)
  ultimately have reach: "run_step\<^sup>*\<^sup>* (run_new 0) r3"
    by (blast intro: converse_rtranclp_into_rtranclp)
  have "r_ops r3 5 = Some (p\<lparr>so_stage := In_line\<rparr>)"
    using p2 by (simp add: r3_def start_section_def p_def new_op_def line_try_take_def r2_def r1_def
        set_stage_def run_new_def line_new_def)
  with no_idle_slot [OF reach this] reach show ?thesis by auto
qed

end
