(* ===== verification/Coordinator.thy ===== *)
theory Coordinator
  imports Prelude "HOL-Library.AList"
begin

text \<open>
  \<^verbatim>\<open>BuildCoordinator\<close> (\<^verbatim>\<open>src/buildcoordinator.cpp\<close>): its state, the transitions it
  makes under its lock, and what each leaves to be done once the lock is released
  (\<open>effects\<close>).  Attempts and waits are named by numbers, in the order they are made; the
  pointers of the code are these names.  \<open>unordered_map\<close>s from attempts to counts are
  association lists, so that a loop over one visits its keys in some fixed order.
\<close>

type_synonym aid = nat
type_synonym rid = nat

section \<open>State\<close>

datatype phase = Pending | Queued | Running | Ended

datatype permit = No_permit | Held | Released | Reacquiring

text \<open>
  \<open>a_lease\<close> and \<open>a_reacquire\<close> say whether the optional members are present; the latter holds
  whether its stop was requested.  \<open>a_stop\<close> is whether the attempt's own stop was requested.
\<close>

record attempt =
  a_output :: string
  a_phase :: phase
  a_permit :: permit
  a_stopping :: bool
  a_doomed :: bool
  a_hurried :: bool
  a_result :: "error_code option"
  a_predecessor :: "aid option"
  a_lease :: bool
  a_reacquire :: "bool option"
  a_reacquire_outstanding :: bool
  a_drain :: bool
  a_waits_by_me :: "rid list"
  a_waits_on_me :: "rid list"
  a_edges_out :: "(aid \<times> nat) list"
  a_stop :: bool

datatype wait_state = Blocked | Ready | Done

record wait =
  w_target :: aid
  w_requester :: "aid option"
  w_state :: wait_state
  w_result :: error_code

record effects =
  e_stop_reacquires :: "aid list"
  e_stop_attempts :: "aid list"
  e_reacquires :: "aid list"
  e_drains :: "aid list"
  e_answered :: "rid list"

definition no_effects :: effects where
  "no_effects = \<lparr>e_stop_reacquires = [], e_stop_attempts = [], e_reacquires = [], e_drains = [], e_answered = []\<rparr>"

text \<open>Calls on the permit provider that are made under the lock.\<close>

datatype permit_call = Release_permit aid | Promote_ticket aid

text \<open>
  \<open>c_effects\<close> is the local \<^verbatim>\<open>Effects\<close> of the section under way; \<open>c_calls\<close> logs the
  calls made under the lock.
\<close>

record coord =
  c_att :: "aid \<Rightarrow> attempt"
  c_attempts :: nat
  c_wait :: "rid \<Rightarrow> wait"
  c_nwaits :: nat
  c_running :: "string \<rightharpoonup> aid"
  c_waits :: "rid list"
  c_effects :: effects
  c_calls :: "permit_call list"

definition upd :: "coord \<Rightarrow> aid \<Rightarrow> (attempt \<Rightarrow> attempt) \<Rightarrow> coord" where
  "upd c a f = c\<lparr>c_att := (c_att c)(a := f (c_att c a))\<rparr>"

definition updw :: "coord \<Rightarrow> rid \<Rightarrow> (wait \<Rightarrow> wait) \<Rightarrow> coord" where
  "updw c w f = c\<lparr>c_wait := (c_wait c)(w := f (c_wait c w))\<rparr>"

definition eff :: "coord \<Rightarrow> (effects \<Rightarrow> effects) \<Rightarrow> coord" where
  "eff c f = c\<lparr>c_effects := f (c_effects c)\<rparr>"

lemma upd_fields [simp]:
  "c_attempts (upd c a f) = c_attempts c" "c_wait (upd c a f) = c_wait c" "c_nwaits (upd c a f) = c_nwaits c"
  "c_running (upd c a f) = c_running c" "c_waits (upd c a f) = c_waits c"
  "c_effects (upd c a f) = c_effects c" "c_calls (upd c a f) = c_calls c"
  "c_att (upd c a f) b = (if b = a then f (c_att c a) else c_att c b)"
  by (simp_all add: upd_def)

lemma updw_fields [simp]:
  "c_attempts (updw c w g) = c_attempts c" "c_att (updw c w g) = c_att c" "c_nwaits (updw c w g) = c_nwaits c"
  "c_running (updw c w g) = c_running c" "c_waits (updw c w g) = c_waits c"
  "c_effects (updw c w g) = c_effects c" "c_calls (updw c w g) = c_calls c"
  "c_wait (updw c w g) v = (if v = w then g (c_wait c w) else c_wait c v)"
  by (simp_all add: updw_def)

lemma eff_fields [simp]:
  "c_attempts (eff c h) = c_attempts c" "c_att (eff c h) = c_att c" "c_nwaits (eff c h) = c_nwaits c"
  "c_running (eff c h) = c_running c" "c_waits (eff c h) = c_waits c" "c_wait (eff c h) = c_wait c"
  "c_effects (eff c h) = h (c_effects c)" "c_calls (eff c h) = c_calls c"
  by (simp_all add: eff_def)

section \<open>Attempts\<close>

definition new_attempt :: "string \<Rightarrow> aid option \<Rightarrow> attempt" where
  "new_attempt out pred =
     \<lparr>a_output = out, a_phase = Pending, a_permit = No_permit, a_stopping = False, a_doomed = False,
      a_hurried = False, a_result = None, a_predecessor = pred, a_lease = False, a_reacquire = None,
      a_reacquire_outstanding = False, a_drain = False, a_waits_by_me = [], a_waits_on_me = [],
      a_edges_out = [], a_stop = False\<rparr>"

definition create_attempt :: "coord \<Rightarrow> string \<Rightarrow> aid option \<Rightarrow> aid \<times> coord" where
  "create_attempt c out pred =
     (let pred = (case pred of
                    None \<Rightarrow> None
                  | Some p \<Rightarrow> if a_phase (c_att c p) = Ended then None else Some p)
      in (c_attempts c,
          c\<lparr>c_att := (c_att c)(c_attempts c := new_attempt out pred), c_attempts := Suc (c_attempts c)\<rparr>))"

section \<open>The transitions under the lock\<close>

definition edge_count :: "coord \<Rightarrow> aid \<Rightarrow> aid \<Rightarrow> nat" where
  "edge_count c a b = (case map_of (a_edges_out (c_att c a)) b of None \<Rightarrow> 0 | Some k \<Rightarrow> k)"

definition remove_edge :: "coord \<Rightarrow> aid \<Rightarrow> aid \<Rightarrow> coord" where
  "remove_edge c a b =
     (case map_of (a_edges_out (c_att c a)) b of
        None \<Rightarrow> c
      | Some k \<Rightarrow>
          upd c a (\<lambda>x. x\<lparr>a_edges_out :=
            (if k - 1 = 0 then AList.delete b (a_edges_out x) else AList.update b (k - 1) (a_edges_out x))\<rparr>))"

definition add_edge :: "coord \<Rightarrow> aid \<Rightarrow> aid \<Rightarrow> coord" where
  "add_edge c a b = upd c a (\<lambda>x. x\<lparr>a_edges_out := AList.update b (edge_count c a b + 1) (a_edges_out x)\<rparr>)"

definition unlink :: "coord \<Rightarrow> rid \<Rightarrow> coord" where
  "unlink c w =
     (let c = (case w_requester (c_wait c w) of
                 None \<Rightarrow> c
               | Some a \<Rightarrow> upd c a (\<lambda>x. x\<lparr>a_waits_by_me := remove1 w (a_waits_by_me x)\<rparr>));
          c = upd c (w_target (c_wait c w)) (\<lambda>x. x\<lparr>a_waits_on_me := remove1 w (a_waits_on_me x)\<rparr>)
      in c\<lparr>c_waits := remove1 w (c_waits c)\<rparr>)"

text \<open>What an attempt waits on: its blocked waits' targets and, not yet started, its predecessor.\<close>

definition behind :: "coord \<Rightarrow> aid \<Rightarrow> aid list" where
  "behind c a =
     (if a_phase (c_att c a) = Pending
      then (case a_predecessor (c_att c a) of None \<Rightarrow> [] | Some p \<Rightarrow> [p]) else [])"

definition waits_on :: "coord \<Rightarrow> aid \<Rightarrow> aid list" where
  "waits_on c a = map fst (a_edges_out (c_att c a)) @ behind c a"

text \<open>
  \<open>hurry\<close>: the worklist loop.  Each round takes one attempt off the stack; the fuel is one more
  than all the attempts the loop can ever push, and \<open>hurry_closes\<close> shows it is enough.
\<close>

fun hurry_loop :: "nat \<Rightarrow> coord \<Rightarrow> aid list \<Rightarrow> coord" where
  "hurry_loop 0 c stack = c"
| "hurry_loop (Suc fuel) c [] = c"
| "hurry_loop (Suc fuel) c (node # stack) =
     (if a_hurried (c_att c node) then hurry_loop fuel c stack
      else
        (let c = upd c node (\<lambda>x. x\<lparr>a_hurried := True\<rparr>);
             c = c\<lparr>c_calls := c_calls c @ [Promote_ticket node]\<rparr>
         in hurry_loop fuel c (rev (waits_on c node) @ stack)))"

definition hurry_fuel :: "coord \<Rightarrow> nat" where
  "hurry_fuel c = Suc (\<Sum>a<c_attempts c. Suc (length (waits_on c a)))"

definition hurry :: "coord \<Rightarrow> aid \<Rightarrow> coord" where
  "hurry c a = hurry_loop (hurry_fuel c) c [a]"

definition answer :: "coord \<Rightarrow> rid \<Rightarrow> error_code \<Rightarrow> coord" where
  "answer c w r =
     (let c = (case w_requester (c_wait c w) of
                 Some a \<Rightarrow> if w_state (c_wait c w) = Blocked then remove_edge c a (w_target (c_wait c w)) else c
               | None \<Rightarrow> c);
          c = unlink c w;
          c = updw c w (\<lambda>x. x\<lparr>w_result := r, w_state := Done\<rparr>)
      in eff c (\<lambda>e. e\<lparr>e_answered := e_answered e @ [w]\<rparr>))"

definition give_back :: "coord \<Rightarrow> aid \<Rightarrow> coord" where
  "give_back c a =
     (let c = upd c a (\<lambda>x. x\<lparr>a_permit := Released\<rparr>)
      in if a_lease (c_att c a) then c\<lparr>c_calls := c_calls c @ [Release_permit a]\<rparr> else c)"

definition give_back_if_waiting :: "coord \<Rightarrow> aid \<Rightarrow> coord" where
  "give_back_if_waiting c a =
     (if a_permit (c_att c a) = Held \<and> \<not> a_stopping (c_att c a) \<and>
         (\<exists>w \<in> set (a_waits_by_me (c_att c a)). w_state (c_wait c w) = Blocked)
      then give_back c a else c)"

definition block :: "coord \<Rightarrow> aid \<Rightarrow> coord" where
  "block c a = (if a_permit (c_att c a) = Held then give_back c a else c)"

definition reacquire :: "coord \<Rightarrow> aid \<Rightarrow> coord" where
  "reacquire c a =
     eff (upd c a (\<lambda>x. x\<lparr>a_permit := Reacquiring, a_reacquire := Some False, a_reacquire_outstanding := True\<rparr>))
       (\<lambda>e. e\<lparr>e_reacquires := e_reacquires e @ [a]\<rparr>)"

text \<open>The last lines of \<open>ready\<close>: the wait leaves its target and waits for its requester's permit.\<close>

definition hold_ready :: "coord \<Rightarrow> rid \<Rightarrow> aid \<Rightarrow> error_code \<Rightarrow> coord" where
  "hold_ready c w a r =
     (let t = w_target (c_wait c w);
          c = remove_edge c a t;
          c = upd c t (\<lambda>x. x\<lparr>a_waits_on_me := remove1 w (a_waits_on_me x)\<rparr>)
      in updw c w (\<lambda>x. x\<lparr>w_result := r, w_state := Ready\<rparr>))"

definition ready :: "coord \<Rightarrow> rid \<Rightarrow> error_code \<Rightarrow> coord" where
  "ready c w r =
     (case w_requester (c_wait c w) of
        None \<Rightarrow> answer c w r
      | Some a \<Rightarrow>
          if a_stopping (c_att c a) then answer c w Operation_canceled
          else (case a_permit (c_att c a) of
                  Held \<Rightarrow> give_back_if_waiting (answer c w r) a
                | Released \<Rightarrow> hold_ready (reacquire c a) w a r
                | Reacquiring \<Rightarrow> hold_ready c w a r
                | No_permit \<Rightarrow> answer c w Operation_canceled))"

definition cancel_waits_of :: "coord \<Rightarrow> aid \<Rightarrow> coord" where
  "cancel_waits_of c a = fold (\<lambda>w c. answer c w Operation_canceled) (a_waits_by_me (c_att c a)) c"

definition stop_attempt :: "coord \<Rightarrow> aid \<Rightarrow> coord" where
  "stop_attempt c a =
     (let c = upd c a (\<lambda>x. x\<lparr>a_stopping := True\<rparr>);
          c = cancel_waits_of c a;
          c = (if a_reacquire_outstanding (c_att c a)
               then eff c (\<lambda>e. e\<lparr>e_stop_reacquires := e_stop_reacquires e @ [a]\<rparr>) else c)
      in eff c (\<lambda>e. e\<lparr>e_stop_attempts := e_stop_attempts e @ [a]\<rparr>))"

subsection \<open>Looking for a path of waits\<close>

text \<open>
  \<open>path_to\<close>: depth-first over \<open>waits_on\<close>, each attempt entered once under the attempt it was
  found from (\<open>parent\<close>, newest entry first).  The fuel is one more than the attempts there are.
\<close>

type_synonym parents = "(aid \<times> aid option) list"

definition visit :: "aid \<Rightarrow> parents \<times> aid list \<Rightarrow> aid \<Rightarrow> parents \<times> aid list" where
  "visit node ps next =
     (case ps of (parent, stack) \<Rightarrow>
        if map_of parent next = None then ((next, Some node) # parent, next # stack) else (parent, stack))"

text \<open>The walk back along \<open>parent\<close>; a missing entry reads as the null pointer.\<close>

fun walk_back :: "nat \<Rightarrow> parents \<Rightarrow> aid option \<Rightarrow> aid list" where
  "walk_back 0 parent it = []"
| "walk_back (Suc fuel) parent None = []"
| "walk_back (Suc fuel) parent (Some i) =
     i # walk_back fuel parent (case map_of parent i of None \<Rightarrow> None | Some p \<Rightarrow> p)"

fun path_loop :: "nat \<Rightarrow> coord \<Rightarrow> aid \<Rightarrow> parents \<Rightarrow> aid list \<Rightarrow> aid list" where
  "path_loop 0 c dest parent stack = []"
| "path_loop (Suc fuel) c dest parent [] = []"
| "path_loop (Suc fuel) c dest parent (node # stack) =
     (if node = dest then walk_back (length parent) parent (Some node)
      else (case foldl (visit node) (parent, stack) (waits_on c node) of
              (parent, stack) \<Rightarrow> path_loop fuel c dest parent stack))"

definition path_to :: "coord \<Rightarrow> aid \<Rightarrow> aid \<Rightarrow> aid list" where
  "path_to c src dest = path_loop (Suc (c_attempts c)) c dest [(src, None)] [src]"

section \<open>The sections run under the lock\<close>

definition on_reacquired :: "coord \<Rightarrow> aid \<Rightarrow> bool \<Rightarrow> coord" where
  "on_reacquired c a granted =
     (let c = upd c a (\<lambda>x. x\<lparr>a_reacquire_outstanding := False,
                              a_permit := (if granted then Held else Released)\<rparr>);
          c = fold (\<lambda>w c. if w_state (c_wait c w) = Ready
                          then answer c w (if granted \<and> \<not> a_stopping (c_att c a)
                                           then w_result (c_wait c w) else Operation_canceled)
                          else c) (a_waits_by_me (c_att c a)) c;
          c = give_back_if_waiting c a
      in if a_drain (c_att c a)
         then eff (upd c a (\<lambda>x. x\<lparr>a_drain := False\<rparr>)) (\<lambda>e. e\<lparr>e_drains := e_drains e @ [a]\<rparr>)
         else c)"

definition on_outer_stop :: "coord \<Rightarrow> aid \<Rightarrow> coord" where
  "on_outer_stop c a =
     (if a_phase (c_att c a) = Running \<and> \<not> a_stopping (c_att c a) then stop_attempt c a
      else eff c (\<lambda>e. e\<lparr>e_stop_attempts := e_stop_attempts e @ [a]\<rparr>))"

text \<open>
  What a request gets from the first section of \<^verbatim>\<open>Impl::wait\<close>: an answer at once, or a wait
  to suspend on.
\<close>

datatype wait_outcome = Returned error_code | Suspended rid

definition doom :: "aid \<Rightarrow> coord \<Rightarrow> coord" where
  "doom a c =
     (if a_phase (c_att c a) = Running \<and> \<not> a_stopping (c_att c a)
      then stop_attempt (upd c a (\<lambda>x. x\<lparr>a_doomed := True\<rparr>)) a else c)"

text \<open>Entering the wait everywhere it is looked for.\<close>

definition link :: "coord \<Rightarrow> aid \<Rightarrow> aid option \<Rightarrow> rid \<times> coord" where
  "link c target requester =
     (let w = c_nwaits c;
          c = c\<lparr>c_wait := (c_wait c)(w := \<lparr>w_target = target, w_requester = requester,
                                          w_state = Blocked, w_result = No_error\<rparr>),
                c_nwaits := Suc w, c_waits := c_waits c @ [w]\<rparr>;
          c = upd c target (\<lambda>x. x\<lparr>a_waits_on_me := a_waits_on_me x @ [w]\<rparr>);
          c = (case requester of
                 None \<Rightarrow> c
               | Some a \<Rightarrow> add_edge (upd c a (\<lambda>x. x\<lparr>a_waits_by_me := a_waits_by_me x @ [w]\<rparr>)) a target)
      in (w, c))"

definition wait_section :: "coord \<Rightarrow> bool \<Rightarrow> aid \<Rightarrow> string option \<Rightarrow> wait_outcome \<times> coord" where
  "wait_section c stop_requested target requester_output =
     (if stop_requested then (Returned Operation_canceled, c)
      else (case a_result (c_att c target) of
              Some r \<Rightarrow> (Returned r, c)
            | None \<Rightarrow>
                (let requester = (case requester_output of None \<Rightarrow> None | Some out \<Rightarrow> c_running c out) in
                 case requester of
                   None \<Rightarrow>
                     (let (w, c) = link c target None in (Suspended w, hurry c target))
                 | Some a \<Rightarrow>
                     if a_stopping (c_att c a) then (Returned Operation_canceled, c)
                     else
                       (let cycle = path_to c target a in
                        if cycle \<noteq> [] then (Returned Resource_deadlock_would_occur, fold doom cycle c)
                        else
                          (let (w, c) = link c target (Some a);
                               c = (if a_hurried (c_att c a) then hurry c target else c)
                           in (Suspended w, block c a))))))"

definition cancel_wait :: "coord \<Rightarrow> rid \<Rightarrow> coord" where
  "cancel_wait c w =
     (if w_state (c_wait c w) = Done then c
      else
        (let c = answer c w Operation_canceled in
         case w_requester (c_wait c w) of
           None \<Rightarrow> c
         | Some a \<Rightarrow>
             if \<not> a_stopping (c_att c a) \<and> a_waits_by_me (c_att c a) = [] \<and> a_permit (c_att c a) = Released
             then reacquire c a else c))"

definition complete :: "coord \<Rightarrow> aid \<Rightarrow> error_code \<Rightarrow> coord" where
  "complete c a r =
     (let c = upd c a (\<lambda>x. x\<lparr>a_result := Some r, a_predecessor := None\<rparr>)
      in fold (\<lambda>w c. ready c w r) (a_waits_on_me (c_att c a)) c)"

definition run_section :: "coord \<Rightarrow> aid \<Rightarrow> coord" where
  "run_section c a = upd c a (\<lambda>x. x\<lparr>a_phase := Queued, a_predecessor := None\<rparr>)"

definition on_permit :: "coord \<Rightarrow> aid \<Rightarrow> coord" where
  "on_permit c a =
     (let c = upd c a (\<lambda>x. x\<lparr>a_phase := Running, a_permit := Held, a_lease := True\<rparr>)
      in case c_running c (a_output (c_att c a)) of
           None \<Rightarrow> c\<lparr>c_running := (c_running c)(a_output (c_att c a) \<mapsto> a)\<rparr>
         | Some _ \<Rightarrow> c)"

definition finish :: "coord \<Rightarrow> aid \<Rightarrow> coord" where
  "finish c a =
     (let c = upd c a (\<lambda>x. x\<lparr>a_phase := Ended, a_stopping := True\<rparr>);
          c = c\<lparr>c_running := (c_running c)(a_output (c_att c a) := None)\<rparr>;
          c = cancel_waits_of c a
      in if a_reacquire_outstanding (c_att c a)
         then eff (upd c a (\<lambda>x. x\<lparr>a_drain := True\<rparr>)) (\<lambda>e. e\<lparr>e_stop_reacquires := e_stop_reacquires e @ [a]\<rparr>)
         else eff c (\<lambda>e. e\<lparr>e_drains := e_drains e @ [a]\<rparr>))"

text \<open>What \<^verbatim>\<open>run()\<close> completes with: the work's own result unless the attempt is doomed.\<close>

datatype 'b work_outcome = Work_value "'b expected" | Work_error error_code | Work_stopped

definition work_result :: "'b work_outcome \<Rightarrow> 'b expected" where
  "work_result oc = (case oc of Work_value r \<Rightarrow> r | Work_error e \<Rightarrow> Inl e | Work_stopped \<Rightarrow> Inl Operation_canceled)"

definition run_result :: "coord \<Rightarrow> aid \<Rightarrow> 'b work_outcome \<Rightarrow> 'b expected" where
  "run_result c a oc =
     (if a_doomed (c_att c a) then Inl Resource_deadlock_would_occur else work_result oc)"

end
