(* ===== verification/Coordinator_Search.thy ===== *)
theory Coordinator_Search
  imports Coordinator
begin

text \<open>
  The two graph searches of the coordinator, \<open>path_to\<close> and \<open>hurry\<close>: with the fuel they are
  given both end, the first finds a path of waits exactly when there is one, and the second
  marks everything the attempt it starts at waits on.
\<close>

definition wait_graph :: "coord \<Rightarrow> (aid \<times> aid) set" where
  "wait_graph c = {(a, b). b \<in> set (waits_on c a)}"

definition graph_valid :: "coord \<Rightarrow> bool" where
  "graph_valid c \<longleftrightarrow> (\<forall>a b. b \<in> set (waits_on c a) \<longrightarrow> b < c_attempts c)"

lemma set_behind:
  "x \<in> set (behind c a) \<longleftrightarrow> a_phase (c_att c a) = Pending \<and> a_predecessor (c_att c a) = Some x"
  by (cases "a_phase (c_att c a) = Pending"; cases "a_predecessor (c_att c a)") (auto simp: behind_def)

section \<open>The search tree\<close>

inductive search_tree :: "(aid \<times> aid) set \<Rightarrow> aid \<Rightarrow> parents \<Rightarrow> bool" for g src where
  root: "search_tree g src [(src, None)]"
| found: "search_tree g src ps \<Longrightarrow> x \<notin> fst ` set ps \<Longrightarrow> p \<in> fst ` set ps \<Longrightarrow> (p, x) \<in> g \<Longrightarrow>
    search_tree g src ((x, Some p) # ps)"

lemma search_tree_distinct: "search_tree g src ps \<Longrightarrow> distinct (map fst ps)"
  by (induction rule: search_tree.induct) auto

lemma search_tree_reach: "search_tree g src ps \<Longrightarrow> x \<in> fst ` set ps \<Longrightarrow> (src, x) \<in> g\<^sup>*"
  by (induction arbitrary: x rule: search_tree.induct) (auto intro: rtrancl_into_rtrancl)

lemma search_tree_src: "search_tree g src ps \<Longrightarrow> src \<in> fst ` set ps"
  by (induction rule: search_tree.induct) auto

lemma search_tree_extend:
  assumes "search_tree g src ps" and "node \<in> fst ` set ps" and "distinct news"
    and "\<And>x. x \<in> set news \<Longrightarrow> x \<notin> fst ` set ps \<and> (node, x) \<in> g"
  shows "search_tree g src (map (\<lambda>x. (x, Some node)) news @ ps)"
  using assms(3,4)
proof (induction news)
  case Nil
  with assms(1) show ?case by simp
next
  case (Cons x news)
  then have "search_tree g src (map (\<lambda>x. (x, Some node)) news @ ps)" by simp
  moreover have "x \<notin> fst ` set (map (\<lambda>x. (x, Some node)) news @ ps)"
    using Cons.prems(1) Cons.prems(2) [of x] by (auto simp: image_Un image_image)
  moreover have "node \<in> fst ` set (map (\<lambda>x. (x, Some node)) news @ ps)"
    using assms(2) by (simp add: image_Un)
  ultimately have "search_tree g src ((x, Some node) # map (\<lambda>x. (x, Some node)) news @ ps)"
    using Cons.prems(2) [of x] by (intro search_tree.found) auto
  then show ?case by simp
qed

lemma visit_fold:
  "\<exists>news. foldl (visit node) (ps, stack) xs = (map (\<lambda>x. (x, Some node)) news @ ps, news @ stack) \<and>
     distinct news \<and> set news = set xs - fst ` set ps"
proof (induction xs rule: rev_induct)
  case Nil
  show ?case by auto
next
  case (snoc x xs)
  then obtain news where f: "foldl (visit node) (ps, stack) xs = (map (\<lambda>x. (x, Some node)) news @ ps, news @ stack)"
    and d: "distinct news" and s: "set news = set xs - fst ` set ps" by blast
  let ?ps = "map (\<lambda>x. (x, Some node)) news @ ps"
  have known: "map_of ?ps x = None \<longleftrightarrow> x \<notin> set news \<and> x \<notin> fst ` set ps"
    by (simp add: map_of_eq_None_iff image_Un image_image)
  show ?case
  proof (cases "map_of ?ps x = None")
    case True
    with f have "foldl (visit node) (ps, stack) (xs @ [x]) =
        (map (\<lambda>x. (x, Some node)) (x # news) @ ps, (x # news) @ stack)"
      by (simp add: visit_def)
    with True known d s show ?thesis by (intro exI [of _ "x # news"]) auto
  next
    case False
    with f have "foldl (visit node) (ps, stack) (xs @ [x]) = (?ps, news @ stack)"
      by (auto simp: visit_def)
    with False known d s show ?thesis by (intro exI [of _ news]) auto
  qed
qed

section \<open>The way back\<close>

text \<open>A path as \<open>path_to\<close> returns it: from the destination back to the source.\<close>

definition back_path :: "(aid \<times> aid) set \<Rightarrow> aid \<Rightarrow> aid \<Rightarrow> aid list \<Rightarrow> bool" where
  "back_path g src dest xs \<longleftrightarrow>
     xs \<noteq> [] \<and> hd xs = dest \<and> last xs = src \<and> successively (\<lambda>x y. (y, x) \<in> g) xs"

lemma back_path_Cons:
  "back_path g src p xs \<Longrightarrow> (p, x) \<in> g \<Longrightarrow> back_path g src x (x # xs)"
  by (cases xs) (auto simp: back_path_def)

lemma walk_back_path:
  assumes "search_tree g src vs" and "distinct (map fst (us @ vs))" and "i \<in> fst ` set vs"
    and "length vs \<le> fuel"
  shows "back_path g src i (walk_back fuel (us @ vs) (Some i))"
  using assms
proof (induction arbitrary: us i fuel rule: search_tree.induct)
  case root
  then obtain n where "fuel = Suc n" by (cases fuel) auto
  moreover have "map_of (us @ [(src, None)]) src = Some None"
    using root.prems(1) by (intro map_of_is_SomeI) auto
  ultimately show ?case
    using root.prems by (cases n) (auto simp: back_path_def)
next
  case (found ps x p)
  then obtain n where n: "fuel = Suc n" "length ps \<le> n" by (cases fuel) auto
  have d: "distinct (map fst ((us @ [(x, Some p)]) @ ps))" using found.prems(1) by simp
  show ?case
  proof (cases "i = x")
    case True
    have "map_of (us @ (x, Some p) # ps) x = Some (Some p)"
      using found.prems(1) by (intro map_of_is_SomeI) auto
    moreover from found.IH [OF d found.hyps(3) n(2)]
    have "back_path g src p (walk_back n (us @ (x, Some p) # ps) (Some p))" by simp
    ultimately show ?thesis
      using True n found.hyps(4) by (auto intro: back_path_Cons)
  next
    case False
    with found.prems(2) have "i \<in> fst ` set ps" by auto
    from found.IH [OF d this, of fuel] n show ?thesis by simp
  qed
qed

section \<open>The search\<close>

text \<open>
  The invariant of the loop: the entered attempts form a search tree, those still on the stack
  are distinct, and everything an attempt taken off the stack waits on has been entered.
\<close>

definition search_inv :: "coord \<Rightarrow> aid \<Rightarrow> aid \<Rightarrow> parents \<Rightarrow> aid list \<Rightarrow> bool" where
  "search_inv c src dest ps stack \<longleftrightarrow>
     search_tree (wait_graph c) src ps \<and> distinct stack \<and> set stack \<subseteq> fst ` set ps \<and>
     (\<forall>x \<in> fst ` set ps - set stack. x \<noteq> dest \<and> set (waits_on c x) \<subseteq> fst ` set ps) \<and>
     fst ` set ps \<subseteq> {..<c_attempts c}"

lemma search_inv_step:
  assumes inv: "search_inv c src dest ps (node # stack)" and "node \<noteq> dest" and valid: "graph_valid c"
  shows "\<exists>news. foldl (visit node) (ps, stack) (waits_on c node) =
           (map (\<lambda>x. (x, Some node)) news @ ps, news @ stack) \<and>
         search_inv c src dest (map (\<lambda>x. (x, Some node)) news @ ps) (news @ stack)"
proof -
  obtain news where f: "foldl (visit node) (ps, stack) (waits_on c node) =
      (map (\<lambda>x. (x, Some node)) news @ ps, news @ stack)"
    and d: "distinct news" and s: "set news = set (waits_on c node) - fst ` set ps"
    using visit_fold by blast
  let ?ps = "map (\<lambda>x. (x, Some node)) news @ ps"
  have keys: "fst ` set ?ps = set news \<union> fst ` set ps" by (force simp: image_Un)
  have node: "node \<in> fst ` set ps" using inv by (simp add: search_inv_def)
  have "search_tree (wait_graph c) src ?ps"
    using inv node d s by (intro search_tree_extend) (auto simp: search_inv_def wait_graph_def)
  moreover have "distinct (news @ stack)"
    using inv d s by (auto simp: search_inv_def)
  moreover have "set (news @ stack) \<subseteq> fst ` set ?ps"
    unfolding keys using inv by (auto simp: search_inv_def)
  moreover have "x \<noteq> dest \<and> set (waits_on c x) \<subseteq> fst ` set ?ps"
    if "x \<in> fst ` set ?ps - set (news @ stack)" for x
  proof (cases "x = node")
    case True
    with assms(2) s show ?thesis unfolding keys by auto
  next
    case False
    with that have "x \<in> fst ` set ps - set (node # stack)" unfolding keys by auto
    with inv show ?thesis unfolding keys by (auto simp: search_inv_def)
  qed
  moreover have "fst ` set ?ps \<subseteq> {..<c_attempts c}"
    unfolding keys using inv s valid by (auto simp: search_inv_def graph_valid_def)
  ultimately have "search_inv c src dest ?ps (news @ stack)"
    unfolding search_inv_def by blast
  with f show ?thesis by blast
qed

lemma search_closed:
  assumes "search_inv c src dest ps []"
  shows "(src, dest) \<notin> (wait_graph c)\<^sup>*"
proof
  assume "(src, dest) \<in> (wait_graph c)\<^sup>*"
  then have "dest \<in> fst ` set ps"
  proof (induction rule: rtrancl_induct)
    case base
    from assms show ?case by (auto simp: search_inv_def dest: search_tree_src)
  next
    case (step y z)
    with assms show ?case by (auto simp: search_inv_def wait_graph_def)
  qed
  with assms show False by (auto simp: search_inv_def)
qed

lemma path_loop_correct:
  assumes "search_inv c src dest ps stack" and "graph_valid c"
    and "c_attempts c < fuel + (length ps - length stack)"
  shows "if (src, dest) \<in> (wait_graph c)\<^sup>* then back_path (wait_graph c) src dest (path_loop fuel c dest ps stack)
         else path_loop fuel c dest ps stack = []"
  using assms
proof (induction fuel arbitrary: ps stack)
  case 0
  have "distinct (map fst ps)" and "fst ` set ps \<subseteq> {..<c_attempts c}"
    using "0.prems"(1) by (auto simp: search_inv_def dest: search_tree_distinct)
  then have "length ps \<le> c_attempts c"
    by (metis card_lessThan card_mono distinct_card finite_lessThan length_map list.set_map)
  with "0.prems"(3) show ?case by simp
next
  case (Suc fuel)
  show ?case
  proof (cases stack)
    case Nil
    with search_closed Suc.prems(1) show ?thesis by auto
  next
    case (Cons node rest)
    have tree: "search_tree (wait_graph c) src ps" and node: "node \<in> fst ` set ps"
      using Suc.prems(1) Cons by (simp_all add: search_inv_def)
    show ?thesis
    proof (cases "node = dest")
      case True
      have "back_path (wait_graph c) src dest (walk_back (length ps) ([] @ ps) (Some dest))"
        using tree node True search_tree_distinct [OF tree] by (intro walk_back_path) auto
      moreover have "(src, dest) \<in> (wait_graph c)\<^sup>*"
        using search_tree_reach [OF tree node] True by simp
      ultimately show ?thesis using Cons True by simp
    next
      case False
      from search_inv_step [OF Suc.prems(1) [unfolded Cons] False Suc.prems(2)] obtain news
        where f: "foldl (visit node) (ps, rest) (waits_on c node) =
            (map (\<lambda>x. (x, Some node)) news @ ps, news @ rest)"
          and inv: "search_inv c src dest (map (\<lambda>x. (x, Some node)) news @ ps) (news @ rest)" by blast
      have "card (set stack) \<le> card (fst ` set ps)"
        using Suc.prems(1) by (intro card_mono) (auto simp: search_inv_def)
      then have "length stack \<le> length ps"
        using Suc.prems(1) card_image_le [of "set ps" fst] card_length [of ps]
        by (auto simp: search_inv_def distinct_card)
      with Suc.prems(3) Cons
      have "c_attempts c < fuel + (length (map (\<lambda>x. (x, Some node)) news @ ps) - length (news @ rest))"
        by simp
      from Suc.IH [OF inv Suc.prems(2) this] f Cons False show ?thesis by simp
    qed
  qed
qed

lemma path_to_correct:
  assumes "graph_valid c" and "src < c_attempts c"
  shows "if (src, dest) \<in> (wait_graph c)\<^sup>* then back_path (wait_graph c) src dest (path_to c src dest)
         else path_to c src dest = []"
proof -
  have "search_inv c src dest [(src, None)] [src]"
    using assms(2) by (auto simp: search_inv_def intro: search_tree.root)
  from path_loop_correct [OF this assms(1), of "Suc (c_attempts c)"] show ?thesis
    unfolding path_to_def by simp
qed

section \<open>Hurrying\<close>

definition same_but_hurried :: "coord \<Rightarrow> coord \<Rightarrow> bool" where
  "same_but_hurried c c' \<longleftrightarrow>
     (\<exists>h calls. c' = c\<lparr>c_att := (\<lambda>a. (c_att c a)\<lparr>a_hurried := h a\<rparr>), c_calls := calls\<rparr>)"

lemma same_but_hurried_refl: "same_but_hurried c c"
  by (auto simp: same_but_hurried_def intro!: exI [of _ "\<lambda>a. a_hurried (c_att c a)"] exI [of _ "c_calls c"])

lemma same_but_hurried_trans:
  "same_but_hurried a b \<Longrightarrow> same_but_hurried b c \<Longrightarrow> same_but_hurried a c"
  by (auto simp: same_but_hurried_def) (rule exI, rule exI, rule refl)

lemma same_but_hurried_mark:
  "same_but_hurried c ((upd c a (\<lambda>x. x\<lparr>a_hurried := True\<rparr>))\<lparr>c_calls := calls\<rparr>)"
  by (auto simp: same_but_hurried_def upd_def fun_eq_iff
      intro!: exI [of _ "\<lambda>x. x = a \<or> a_hurried (c_att c x)"] exI [of _ calls])

lemma same_but_hurried_fields:
  assumes "same_but_hurried c c'"
  shows "c_attempts c' = c_attempts c" "c_wait c' = c_wait c" "c_nwaits c' = c_nwaits c"
    "c_running c' = c_running c" "c_waits c' = c_waits c" "c_effects c' = c_effects c"
    "waits_on c' = waits_on c"
    "c_att c' a = (c_att c a)\<lparr>a_hurried := a_hurried (c_att c' a)\<rparr>"
  using assms by (auto simp: same_but_hurried_def waits_on_def behind_def fun_eq_iff)

definition unhurried_work :: "coord \<Rightarrow> nat" where
  "unhurried_work c = (\<Sum>a | a < c_attempts c \<and> \<not> a_hurried (c_att c a). Suc (length (waits_on c a)))"

lemma unhurried_work_mark:
  assumes "node < c_attempts c" and "\<not> a_hurried (c_att c node)"
  shows "unhurried_work ((upd c node (\<lambda>x. x\<lparr>a_hurried := True\<rparr>))\<lparr>c_calls := calls\<rparr>) +
      Suc (length (waits_on c node)) = unhurried_work c"
proof -
  let ?S = "{a. a < c_attempts c \<and> \<not> a_hurried (c_att c a)}"
  let ?c = "(upd c node (\<lambda>x. x\<lparr>a_hurried := True\<rparr>))\<lparr>c_calls := calls\<rparr>"
  have "waits_on ?c = waits_on c" by (rule same_but_hurried_fields(7) [OF same_but_hurried_mark])
  moreover have "{a. a < c_attempts ?c \<and> \<not> a_hurried (c_att ?c a)} = ?S - {node}"
    by (auto simp: upd_def)
  moreover have "node \<in> ?S" and "finite ?S" using assms by auto
  ultimately show ?thesis
    by (simp add: unhurried_work_def sum.remove [of ?S node])
qed

lemma hurry_loop_correct:
  assumes "graph_valid c" and "set stack \<subseteq> {..<c_attempts c}"
    and "length stack + unhurried_work c \<le> fuel"
  shows "same_but_hurried c (hurry_loop fuel c stack) \<and>
    (\<forall>a. a_hurried (c_att c a) \<longrightarrow> a_hurried (c_att (hurry_loop fuel c stack) a)) \<and>
    (\<forall>a \<in> set stack. a_hurried (c_att (hurry_loop fuel c stack) a)) \<and>
    (\<forall>a b. a_hurried (c_att (hurry_loop fuel c stack) a) \<longrightarrow> \<not> a_hurried (c_att c a) \<longrightarrow>
       b \<in> set (waits_on c a) \<longrightarrow> a_hurried (c_att (hurry_loop fuel c stack) b)) \<and>
    (\<forall>a. a_hurried (c_att (hurry_loop fuel c stack) a) \<longrightarrow> \<not> a_hurried (c_att c a) \<longrightarrow>
       (\<exists>s \<in> set stack. (s, a) \<in> (wait_graph c)\<^sup>*))"
  using assms
proof (induction fuel arbitrary: c stack)
  case 0
  then show ?case by (simp add: same_but_hurried_refl)
next
  case (Suc fuel)
  show ?case
  proof (cases stack)
    case Nil
    then show ?thesis by (simp add: same_but_hurried_refl)
  next
    case (Cons node rest)
    show ?thesis
    proof (cases "a_hurried (c_att c node)")
      case True
      have "same_but_hurried c (hurry_loop fuel c rest) \<and>
        (\<forall>a. a_hurried (c_att c a) \<longrightarrow> a_hurried (c_att (hurry_loop fuel c rest) a)) \<and>
        (\<forall>a \<in> set rest. a_hurried (c_att (hurry_loop fuel c rest) a)) \<and>
        (\<forall>a b. a_hurried (c_att (hurry_loop fuel c rest) a) \<longrightarrow> \<not> a_hurried (c_att c a) \<longrightarrow>
           b \<in> set (waits_on c a) \<longrightarrow> a_hurried (c_att (hurry_loop fuel c rest) b)) \<and>
        (\<forall>a. a_hurried (c_att (hurry_loop fuel c rest) a) \<longrightarrow> \<not> a_hurried (c_att c a) \<longrightarrow>
           (\<exists>s \<in> set rest. (s, a) \<in> (wait_graph c)\<^sup>*))"
        using Suc.prems Cons by (intro Suc.IH) auto
      with Cons True show ?thesis by auto
    next
      case False
      define d where "d = (upd c node (\<lambda>x. x\<lparr>a_hurried := True\<rparr>))\<lparr>c_calls := c_calls c @ [Promote_ticket node]\<rparr>"
      have same: "same_but_hurried c d" unfolding d_def by (rule same_but_hurried_mark)
      note f = same_but_hurried_fields [OF same]
      have hd: "a_hurried (c_att d a) \<longleftrightarrow> a = node \<or> a_hurried (c_att c a)" for a
        by (simp add: d_def upd_def)
      have work: "unhurried_work d + Suc (length (waits_on c node)) = unhurried_work c"
        unfolding d_def using Suc.prems(2) Cons False by (intro unhurried_work_mark) auto
      have gr: "wait_graph d = wait_graph c" by (simp add: wait_graph_def f)
      define e where "e = hurry_loop fuel d (rev (waits_on c node) @ rest)"
      have eq: "hurry_loop (Suc fuel) c stack = e"
        using Cons False f(7) by (simp add: e_def d_def Let_def)
      have IH: "same_but_hurried d e \<and> (\<forall>a. a_hurried (c_att d a) \<longrightarrow> a_hurried (c_att e a)) \<and>
        (\<forall>a \<in> set (rev (waits_on c node) @ rest). a_hurried (c_att e a)) \<and>
        (\<forall>a b. a_hurried (c_att e a) \<longrightarrow> \<not> a_hurried (c_att d a) \<longrightarrow>
           b \<in> set (waits_on d a) \<longrightarrow> a_hurried (c_att e b)) \<and>
        (\<forall>a. a_hurried (c_att e a) \<longrightarrow> \<not> a_hurried (c_att d a) \<longrightarrow>
           (\<exists>s \<in> set (rev (waits_on c node) @ rest). (s, a) \<in> (wait_graph d)\<^sup>*))"
        unfolding e_def
      proof (rule Suc.IH)
        show "graph_valid d" using Suc.prems(1) by (simp add: graph_valid_def f)
        show "set (rev (waits_on c node) @ rest) \<subseteq> {..<c_attempts d}"
          using Suc.prems(1,2) Cons by (auto simp: graph_valid_def f)
        show "length (rev (waits_on c node) @ rest) + unhurried_work d \<le> fuel"
          using work Suc.prems(3) Cons by simp
      qed
      have reach: "\<exists>s \<in> set stack. (s, a) \<in> (wait_graph c)\<^sup>*"
        if "s \<in> set (rev (waits_on c node) @ rest)" "(s, a) \<in> (wait_graph c)\<^sup>*" for s a
      proof (cases "s \<in> set rest")
        case True
        with that Cons show ?thesis by auto
      next
        case no: False
        with that have "(node, s) \<in> wait_graph c" by (auto simp: wait_graph_def)
        with that(2) Cons show ?thesis by (auto intro: converse_rtrancl_into_rtrancl)
      qed
      show ?thesis
        unfolding eq
      proof (intro conjI allI impI ballI)
        show "same_but_hurried c e" using same IH by (blast intro: same_but_hurried_trans)
      next
        fix a assume "a_hurried (c_att c a)" then show "a_hurried (c_att e a)" using IH hd by blast
      next
        fix a assume "a \<in> set stack" then show "a_hurried (c_att e a)" using IH hd Cons by auto
      next
        fix a b assume a: "a_hurried (c_att e a)" "\<not> a_hurried (c_att c a)" "b \<in> set (waits_on c a)"
        show "a_hurried (c_att e b)"
        proof (cases "a = node")
          case True with IH a show ?thesis by simp
        next
          case False with IH a hd f(7) show ?thesis by metis
        qed
      next
        fix a assume a: "a_hurried (c_att e a)" "\<not> a_hurried (c_att c a)"
        show "\<exists>s \<in> set stack. (s, a) \<in> (wait_graph c)\<^sup>*"
        proof (cases "a = node")
          case True with Cons show ?thesis by auto
        next
          case False
          with a hd have "\<not> a_hurried (c_att d a)" by blast
          with IH a(1) gr obtain s where "s \<in> set (rev (waits_on c node) @ rest)" "(s, a) \<in> (wait_graph c)\<^sup>*"
            by metis
          then show ?thesis by (rule reach)
        qed
      qed
    qed
  qed
qed

lemma unhurried_work_fuel: "Suc (unhurried_work c) \<le> hurry_fuel c"
  unfolding unhurried_work_def hurry_fuel_def by (simp, intro sum_mono2) auto

lemma hurry_correct:
  assumes "graph_valid c" and "a < c_attempts c"
  shows "same_but_hurried c (hurry c a)"
    and "a_hurried (c_att c x) \<Longrightarrow> a_hurried (c_att (hurry c a) x)"
    and "a_hurried (c_att (hurry c a) a)"
    and "a_hurried (c_att (hurry c a) x) \<Longrightarrow> \<not> a_hurried (c_att c x) \<Longrightarrow> y \<in> set (waits_on c x) \<Longrightarrow>
      a_hurried (c_att (hurry c a) y)"
    and "a_hurried (c_att (hurry c a) x) \<Longrightarrow> \<not> a_hurried (c_att c x) \<Longrightarrow> (a, x) \<in> (wait_graph c)\<^sup>*"
proof -
  have "length [a] + unhurried_work c \<le> hurry_fuel c" using unhurried_work_fuel [of c] by simp
  from hurry_loop_correct [OF assms(1) _ this] assms(2)
  have all: "same_but_hurried c (hurry c a) \<and>
    (\<forall>x. a_hurried (c_att c x) \<longrightarrow> a_hurried (c_att (hurry c a) x)) \<and>
    (\<forall>x \<in> set [a]. a_hurried (c_att (hurry c a) x)) \<and>
    (\<forall>x b. a_hurried (c_att (hurry c a) x) \<longrightarrow> \<not> a_hurried (c_att c x) \<longrightarrow>
       b \<in> set (waits_on c x) \<longrightarrow> a_hurried (c_att (hurry c a) b)) \<and>
    (\<forall>x. a_hurried (c_att (hurry c a) x) \<longrightarrow> \<not> a_hurried (c_att c x) \<longrightarrow>
       (\<exists>s \<in> set [a]. (s, x) \<in> (wait_graph c)\<^sup>*))"
    unfolding hurry_def by simp
  then show "same_but_hurried c (hurry c a)"
    and "a_hurried (c_att c x) \<Longrightarrow> a_hurried (c_att (hurry c a) x)"
    and "a_hurried (c_att (hurry c a) a)"
    and "a_hurried (c_att (hurry c a) x) \<Longrightarrow> \<not> a_hurried (c_att c x) \<Longrightarrow> y \<in> set (waits_on c x) \<Longrightarrow>
      a_hurried (c_att (hurry c a) y)"
    and "a_hurried (c_att (hurry c a) x) \<Longrightarrow> \<not> a_hurried (c_att c x) \<Longrightarrow> (a, x) \<in> (wait_graph c)\<^sup>*"
    by auto
qed

end
