(* ===== verification/Coordinator_Links.thy ===== *)
theory Coordinator_Links
  imports Coordinator_Search
begin

text \<open>
  The bookkeeping of waits: every list a wait is entered in, and the counted edges between
  attempts, say exactly what the states of the waits say (\<open>links_ok\<close>).  Each transition is
  described by what it does to the table of waits; what it leaves alone of an attempt is its
  \<open>core\<close>.
\<close>

section \<open>Links\<close>

definition live :: "coord \<Rightarrow> rid \<Rightarrow> bool" where
  "live c w \<longleftrightarrow> w < c_nwaits c \<and> w_state (c_wait c w) \<noteq> Done"

definition blocked :: "coord \<Rightarrow> rid \<Rightarrow> bool" where
  "blocked c w \<longleftrightarrow> w < c_nwaits c \<and> w_state (c_wait c w) = Blocked"

definition blocked_on :: "coord \<Rightarrow> aid \<Rightarrow> aid \<Rightarrow> rid set" where
  "blocked_on c a b = {w. blocked c w \<and> w_requester (c_wait c w) = Some a \<and> w_target (c_wait c w) = b}"

definition waits_listed :: "coord \<Rightarrow> bool" where
  "waits_listed c \<longleftrightarrow> distinct (c_waits c) \<and> set (c_waits c) = {w. live c w}"

definition by_me_listed :: "coord \<Rightarrow> aid \<Rightarrow> bool" where
  "by_me_listed c a \<longleftrightarrow> distinct (a_waits_by_me (c_att c a)) \<and>
     set (a_waits_by_me (c_att c a)) = {w. live c w \<and> w_requester (c_wait c w) = Some a}"

definition on_me_listed :: "coord \<Rightarrow> aid \<Rightarrow> bool" where
  "on_me_listed c a \<longleftrightarrow> distinct (a_waits_on_me (c_att c a)) \<and>
     set (a_waits_on_me (c_att c a)) = {w. blocked c w \<and> w_target (c_wait c w) = a}"

definition edges_counted :: "coord \<Rightarrow> aid \<Rightarrow> bool" where
  "edges_counted c a \<longleftrightarrow> distinct (map fst (a_edges_out (c_att c a))) \<and>
     (\<forall>b. map_of (a_edges_out (c_att c a)) b =
        (if blocked_on c a b = {} then None else Some (card (blocked_on c a b))))"

definition links_ok :: "coord \<Rightarrow> bool" where
  "links_ok c \<longleftrightarrow>
     waits_listed c \<and> (\<forall>a. by_me_listed c a) \<and> (\<forall>a. on_me_listed c a) \<and> (\<forall>a. edges_counted c a)"

lemma links_okD:
  assumes "links_ok c"
  shows "waits_listed c" "by_me_listed c a" "on_me_listed c a" "edges_counted c a"
  using assms by (simp_all add: links_ok_def)

lemma blocked_live: "blocked c w \<Longrightarrow> live c w"
  by (simp add: blocked_def live_def)

lemma finite_blocked_on [simp]: "finite (blocked_on c a b)"
  by (rule finite_subset [of _ "{..<c_nwaits c}"]) (auto simp: blocked_on_def blocked_def)

lemma edges_keys:
  assumes "edges_counted c a"
  shows "b \<in> set (map fst (a_edges_out (c_att c a))) \<longleftrightarrow> blocked_on c a b \<noteq> {}"
proof -
  have "b \<in> fst ` set (a_edges_out (c_att c a)) \<longleftrightarrow> map_of (a_edges_out (c_att c a)) b \<noteq> None"
    by (simp add: map_of_eq_None_iff)
  with assms show ?thesis by (simp add: edges_counted_def)
qed

lemma wait_graph_iff:
  assumes "links_ok c"
  shows "(a, b) \<in> wait_graph c \<longleftrightarrow>
    blocked_on c a b \<noteq> {} \<or> (a_phase (c_att c a) = Pending \<and> a_predecessor (c_att c a) = Some b)"
proof -
  have "b \<in> set (waits_on c a) \<longleftrightarrow> b \<in> set (map fst (a_edges_out (c_att c a))) \<or>
      (a_phase (c_att c a) = Pending \<and> a_predecessor (c_att c a) = Some b)"
    by (simp add: waits_on_def set_behind)
  with edges_keys [OF links_okD(4) [OF assms], of b a] show ?thesis
    by (simp add: wait_graph_def)
qed

lemma edge_count_blocked:
  "edges_counted c a \<Longrightarrow> edge_count c a b = card (blocked_on c a b)"
  by (simp add: edges_counted_def edge_count_def)

section \<open>Cores\<close>

text \<open>An attempt without its links.\<close>

definition core :: "attempt \<Rightarrow> attempt" where
  "core x = x\<lparr>a_waits_by_me := [], a_waits_on_me := [], a_edges_out := []\<rparr>"

lemma core_upd [simp]:
  "core (x\<lparr>a_waits_by_me := l\<rparr>) = core x" "core (x\<lparr>a_waits_on_me := l\<rparr>) = core x"
  "core (x\<lparr>a_edges_out := es\<rparr>) = core x"
  by (simp_all add: core_def)

lemma core_fields:
  assumes "core x = core y"
  shows "a_output x = a_output y" "a_phase x = a_phase y" "a_permit x = a_permit y"
    "a_stopping x = a_stopping y" "a_doomed x = a_doomed y" "a_hurried x = a_hurried y"
    "a_result x = a_result y" "a_predecessor x = a_predecessor y" "a_lease x = a_lease y"
    "a_reacquire x = a_reacquire y" "a_reacquire_outstanding x = a_reacquire_outstanding y"
    "a_drain x = a_drain y" "a_stop x = a_stop y"
  using assms by (cases x; cases y; simp add: core_def)+

definition same_core :: "coord \<Rightarrow> coord \<Rightarrow> bool" where
  "same_core c c' \<longleftrightarrow> (\<forall>a. core (c_att c' a) = core (c_att c a)) \<and> c_attempts c' = c_attempts c \<and>
     c_nwaits c' = c_nwaits c \<and> c_running c' = c_running c \<and> c_calls c' = c_calls c"

lemma same_core_refl [simp]: "same_core c c"
  by (simp add: same_core_def)

lemma same_core_trans: "same_core a b \<Longrightarrow> same_core b c \<Longrightarrow> same_core a c"
  by (simp add: same_core_def)

lemmas same_coreD = core_fields [OF same_core_def [THEN iffD1, THEN conjunct1, THEN spec]]

lemma same_core_fields:
  assumes "same_core c c'"
  shows "c_attempts c' = c_attempts c" "c_nwaits c' = c_nwaits c" "c_running c' = c_running c" "c_calls c' = c_calls c"
  using assms by (simp_all add: same_core_def)

section \<open>Edges\<close>

lemma remove_edge_same [simp]:
  "c_wait (remove_edge c a b) = c_wait c" "c_nwaits (remove_edge c a b) = c_nwaits c"
  "c_waits (remove_edge c a b) = c_waits c" "c_effects (remove_edge c a b) = c_effects c"
  "a_waits_by_me (c_att (remove_edge c a b) x) = a_waits_by_me (c_att c x)"
  "a_waits_on_me (c_att (remove_edge c a b) x) = a_waits_on_me (c_att c x)"
  "x \<noteq> a \<Longrightarrow> a_edges_out (c_att (remove_edge c a b) x) = a_edges_out (c_att c x)"
  by (simp_all add: remove_edge_def split: option.splits)

lemma remove_edge_core [simp]: "same_core c (remove_edge c a b)"
  by (simp add: same_core_def remove_edge_def split: option.splits)

lemma remove_edge_map:
  assumes "distinct (map fst (a_edges_out (c_att c a)))"
    and "map_of (a_edges_out (c_att c a)) b = Some k"
  shows "map_of (a_edges_out (c_att (remove_edge c a b) a)) =
      (map_of (a_edges_out (c_att c a)))(b := (if k - 1 = 0 then None else Some (k - 1)))"
    and "distinct (map fst (a_edges_out (c_att (remove_edge c a b) a)))"
  using assms
  by (auto simp: remove_edge_def update_conv' delete_conv' distinct_update distinct_delete)

lemma add_edge_same [simp]:
  "c_wait (add_edge c a b) = c_wait c" "c_nwaits (add_edge c a b) = c_nwaits c"
  "c_waits (add_edge c a b) = c_waits c" "c_effects (add_edge c a b) = c_effects c"
  "a_waits_by_me (c_att (add_edge c a b) x) = a_waits_by_me (c_att c x)"
  "a_waits_on_me (c_att (add_edge c a b) x) = a_waits_on_me (c_att c x)"
  "x \<noteq> a \<Longrightarrow> a_edges_out (c_att (add_edge c a b) x) = a_edges_out (c_att c x)"
  by (simp_all add: add_edge_def)

lemma add_edge_core [simp]: "same_core c (add_edge c a b)"
  by (simp add: same_core_def add_edge_def)

lemma add_edge_map:
  assumes "distinct (map fst (a_edges_out (c_att c a)))"
  shows "map_of (a_edges_out (c_att (add_edge c a b) a)) =
      (map_of (a_edges_out (c_att c a)))(b \<mapsto> edge_count c a b + 1)"
    and "distinct (map fst (a_edges_out (c_att (add_edge c a b) a)))"
  using assms by (auto simp: add_edge_def update_conv' distinct_update)

lemma edges_counted_remove:
  assumes cnt: "edges_counted c a" and w: "w \<in> blocked_on c a b"
    and edges: "a_edges_out (c_att c' a) = a_edges_out (c_att (remove_edge c a b) a)"
    and blk: "\<And>b'. blocked_on c' a b' = blocked_on c a b' - {w}"
  shows "edges_counted c' a"
proof -
  let ?n = "card (blocked_on c a b)"
  have pos: "0 < ?n" using w by (auto simp: card_gt_0_iff)
  have m: "map_of (a_edges_out (c_att c a)) b = Some ?n"
    using cnt w by (auto simp: edges_counted_def)
  have d: "distinct (map fst (a_edges_out (c_att c a)))" using cnt by (simp add: edges_counted_def)
  have card: "card (blocked_on c a b - {w}) = ?n - 1" using w by simp
  have empty: "blocked_on c a b - {w} = {} \<longleftrightarrow> ?n - 1 = 0"
    using card by (metis card_0_eq finite_Diff finite_blocked_on)
  have other: "b' \<noteq> b \<Longrightarrow> blocked_on c a b' - {w} = blocked_on c a b'" for b'
    using w by (auto simp: blocked_on_def)
  show ?thesis
    using remove_edge_map [OF d m] cnt card empty other
    unfolding edges_counted_def edges blk by auto
qed

lemma edges_counted_add:
  assumes cnt: "edges_counted c a" and w: "w \<notin> blocked_on c a b"
    and edges: "a_edges_out (c_att c' a) = a_edges_out (c_att (add_edge c a b) a)"
    and blk: "blocked_on c' a b = insert w (blocked_on c a b)"
    and other: "\<And>b'. b' \<noteq> b \<Longrightarrow> blocked_on c' a b' = blocked_on c a b'"
  shows "edges_counted c' a"
proof -
  have d: "distinct (map fst (a_edges_out (c_att c a)))" using cnt by (simp add: edges_counted_def)
  have "card (blocked_on c' a b) = Suc (card (blocked_on c a b))" using w by (simp add: blk)
  then show ?thesis
    using add_edge_map [OF d, of b] cnt blk other edge_count_blocked [OF cnt, of b]
    unfolding edges_counted_def edges by auto
qed

lemma edges_counted_same:
  assumes "edges_counted c a" and "a_edges_out (c_att c' a) = a_edges_out (c_att c a)"
    and "\<And>b. blocked_on c' a b = blocked_on c a b"
  shows "edges_counted c' a"
  using assms by (simp add: edges_counted_def)

section \<open>One wait is answered, or becomes ready\<close>

text \<open>The table of waits after a wait changed.\<close>

definition set_wait :: "rid \<Rightarrow> error_code \<Rightarrow> wait_state \<Rightarrow> coord \<Rightarrow> rid \<Rightarrow> wait" where
  "set_wait w r st c = (c_wait c)(w := (c_wait c w)\<lparr>w_result := r, w_state := st\<rparr>)"

lemma set_wait_fields [simp]:
  "w_target (set_wait w r st c v) = w_target (c_wait c v)"
  "w_requester (set_wait w r st c v) = w_requester (c_wait c v)"
  "w_state (set_wait w r st c v) = (if v = w then st else w_state (c_wait c v))"
  "w_result (set_wait w r st c v) = (if v = w then r else w_result (c_wait c v))"
  by (simp_all add: set_wait_def)

lemma unlink_fields [simp]:
  "c_wait (unlink c w) = c_wait c" "c_nwaits (unlink c w) = c_nwaits c"
  "c_effects (unlink c w) = c_effects c" "c_waits (unlink c w) = remove1 w (c_waits c)"
  "a_waits_by_me (c_att (unlink c w) a) =
     (if w_requester (c_wait c w) = Some a then remove1 w (a_waits_by_me (c_att c a)) else a_waits_by_me (c_att c a))"
  "a_waits_on_me (c_att (unlink c w) a) =
     (if w_target (c_wait c w) = a then remove1 w (a_waits_on_me (c_att c a)) else a_waits_on_me (c_att c a))"
  "a_edges_out (c_att (unlink c w) a) = a_edges_out (c_att c a)"
  by (auto simp: unlink_def Let_def split: option.splits)

lemma unlink_core [simp]: "same_core c (unlink c w)"
  by (auto simp: same_core_def unlink_def Let_def split: option.splits)

lemma answer_fields:
  "c_wait (answer c w r) = set_wait w r Done c" "c_nwaits (answer c w r) = c_nwaits c"
  "c_waits (answer c w r) = remove1 w (c_waits c)"
  "c_effects (answer c w r) = (c_effects c)\<lparr>e_answered := e_answered (c_effects c) @ [w]\<rparr>"
  "a_waits_by_me (c_att (answer c w r) a) =
     (if w_requester (c_wait c w) = Some a then remove1 w (a_waits_by_me (c_att c a)) else a_waits_by_me (c_att c a))"
  "a_waits_on_me (c_att (answer c w r) a) =
     (if w_target (c_wait c w) = a then remove1 w (a_waits_on_me (c_att c a)) else a_waits_on_me (c_att c a))"
  "a_edges_out (c_att (answer c w r) a) =
     (if w_state (c_wait c w) = Blocked \<and> w_requester (c_wait c w) = Some a
      then a_edges_out (c_att (remove_edge c a (w_target (c_wait c w))) a) else a_edges_out (c_att c a))"
  by (auto simp: answer_def Let_def set_wait_def fun_eq_iff split: option.splits)

lemma updw_core [simp]: "same_core c (updw c w g)" and eff_core [simp]: "same_core c (eff c h)"
  by (simp_all add: same_core_def)

lemma upd_core: "(\<And>x. core (f x) = core x) \<Longrightarrow> same_core c (upd c a f)"
  by (simp add: same_core_def)

lemma answer_core: "same_core c (answer c w r)"
proof -
  let ?c = "case w_requester (c_wait c w) of
      Some a \<Rightarrow> if w_state (c_wait c w) = Blocked then remove_edge c a (w_target (c_wait c w)) else c
    | None \<Rightarrow> c"
  let ?d = "updw (unlink ?c w) w (\<lambda>x. x\<lparr>w_result := r, w_state := Done\<rparr>)"
  have "same_core c ?c" by (simp split: option.splits)
  then have "same_core c (unlink ?c w)" by (rule same_core_trans) simp
  then have "same_core c ?d" by (rule same_core_trans) simp
  then show ?thesis unfolding answer_def Let_def by (rule same_core_trans) simp
qed

lemma blocked_after:
  assumes "c_wait c' = set_wait w r st c" and "c_nwaits c' = c_nwaits c" and "st \<noteq> Blocked"
  shows "blocked_on c' a b = blocked_on c a b - {w}" and "blocked c' v \<longleftrightarrow> blocked c v \<and> v \<noteq> w"
    and "w_target (c_wait c' v) = w_target (c_wait c v)" and "w_requester (c_wait c' v) = w_requester (c_wait c v)"
  using assms by (auto simp: blocked_on_def blocked_def set_wait_def)

lemma answer_links:
  assumes ok: "links_ok c" and w: "live c w"
  shows "links_ok (answer c w r)"
proof -
  let ?c = "answer c w r"
  note f = answer_fields [of c w r]
  note b = blocked_after [OF f(1,2), simplified]
  have live: "live ?c v \<longleftrightarrow> live c v \<and> v \<noteq> w" for v
    by (auto simp: live_def f set_wait_def)
  have "waits_listed ?c"
    using links_okD(1) [OF ok] by (auto simp: waits_listed_def f live)
  moreover have "by_me_listed ?c a" for a
  proof -
    have "{v. live ?c v \<and> w_requester (c_wait ?c v) = Some a} =
        {v. live c v \<and> w_requester (c_wait c v) = Some a} - {w}" by (auto simp: live f)
    with links_okD(2) [OF ok, of a] show ?thesis by (simp add: by_me_listed_def f)
  qed
  moreover have "on_me_listed ?c a" for a
    using links_okD(3) [OF ok, of a] by (auto simp: on_me_listed_def f b)
  moreover have "edges_counted ?c a" for a
  proof (cases "w_state (c_wait c w) = Blocked \<and> w_requester (c_wait c w) = Some a")
    case True
    with w have "w \<in> blocked_on c a (w_target (c_wait c w))"
      by (simp add: blocked_on_def blocked_def live_def)
    with True show ?thesis
      by (intro edges_counted_remove [OF links_okD(4) [OF ok]]) (simp_all add: f b)
  next
    case False
    then have "blocked_on c a b - {w} = blocked_on c a b" for b
      by (auto simp: blocked_on_def blocked_def)
    with False show ?thesis
      by (intro edges_counted_same [OF links_okD(4) [OF ok]]) (auto simp: f b)
  qed
  ultimately show ?thesis by (simp add: links_ok_def)
qed

lemma hold_ready_fields:
  "c_wait (hold_ready c w x r) = set_wait w r Ready c" "c_nwaits (hold_ready c w x r) = c_nwaits c"
  "c_waits (hold_ready c w x r) = c_waits c" "c_effects (hold_ready c w x r) = c_effects c"
  "a_waits_by_me (c_att (hold_ready c w x r) a) = a_waits_by_me (c_att c a)"
  "a_waits_on_me (c_att (hold_ready c w x r) a) =
     (if w_target (c_wait c w) = a then remove1 w (a_waits_on_me (c_att c a)) else a_waits_on_me (c_att c a))"
  "a_edges_out (c_att (hold_ready c w x r) a) =
     (if a = x then a_edges_out (c_att (remove_edge c a (w_target (c_wait c w))) a) else a_edges_out (c_att c a))"
  by (auto simp: hold_ready_def Let_def set_wait_def fun_eq_iff)

lemma hold_ready_core: "same_core c (hold_ready c w x r)"
proof -
  let ?t = "w_target (c_wait c w)"
  have "same_core c (remove_edge c x ?t)" by simp
  then have "same_core c (upd (remove_edge c x ?t) ?t (\<lambda>y. y\<lparr>a_waits_on_me := remove1 w (a_waits_on_me y)\<rparr>))"
    by (rule same_core_trans) (rule upd_core, simp)
  then show ?thesis unfolding hold_ready_def Let_def by (rule same_core_trans) simp
qed

lemma hold_ready_links:
  assumes ok: "links_ok c" and w: "blocked c w" and x: "w_requester (c_wait c w) = Some x"
  shows "links_ok (hold_ready c w x r)"
proof -
  let ?c = "hold_ready c w x r"
  note f = hold_ready_fields [of c w x r]
  note b = blocked_after [OF f(1,2), simplified]
  have live: "live ?c v \<longleftrightarrow> live c v" for v
    using w by (auto simp: live_def blocked_def f set_wait_def)
  have "waits_listed ?c"
    using links_okD(1) [OF ok] by (auto simp: waits_listed_def f live)
  moreover have "by_me_listed ?c a" for a
  proof -
    have "{v. live ?c v \<and> w_requester (c_wait ?c v) = Some a} =
        {v. live c v \<and> w_requester (c_wait c v) = Some a}" by (auto simp: live f)
    with links_okD(2) [OF ok, of a] show ?thesis by (simp add: by_me_listed_def f)
  qed
  moreover have "on_me_listed ?c a" for a
    using links_okD(3) [OF ok, of a] by (auto simp: on_me_listed_def f b)
  moreover have "edges_counted ?c a" for a
  proof (cases "a = x")
    case True
    with w x have "w \<in> blocked_on c a (w_target (c_wait c w))"
      by (simp add: blocked_on_def)
    with True show ?thesis
      by (intro edges_counted_remove [OF links_okD(4) [OF ok]]) (simp_all add: f b)
  next
    case False
    with x have "blocked_on c a b - {w} = blocked_on c a b" for b
      by (auto simp: blocked_on_def)
    with False show ?thesis
      by (intro edges_counted_same [OF links_okD(4) [OF ok]]) (auto simp: f b)
  qed
  ultimately show ?thesis by (simp add: links_ok_def)
qed

end
