(* ===== verification/Coordinator_Moves.thy ===== *)
theory Coordinator_Moves
  imports Coordinator_Links
begin

text \<open>
  What the transitions of the coordinator have in common (\<open>adv\<close>): waits only move towards
  their answer, attempts only become stopped, what is owed to the outside (answers,
  take-backs, stops of work) is put among the effects exactly when the state says so, and
  everything else stays.  The invariants of attempts and waits are stated here and shown of
  each transition.
\<close>

section \<open>Moving forward\<close>

definition same_life :: "attempt \<Rightarrow> attempt \<Rightarrow> bool" where
  "same_life x y \<longleftrightarrow> a_output y = a_output x \<and> a_phase y = a_phase x \<and> a_hurried y = a_hurried x \<and>
     a_result y = a_result x \<and> a_predecessor y = a_predecessor x \<and> a_lease y = a_lease x \<and>
     a_drain y = a_drain x \<and> a_stop y = a_stop x \<and> (a_stopping x \<longrightarrow> a_stopping y) \<and> (a_doomed x \<longrightarrow> a_doomed y)"

definition wait_moved :: "wait \<Rightarrow> wait \<Rightarrow> bool" where
  "wait_moved x y \<longleftrightarrow> w_target y = w_target x \<and> w_requester y = w_requester x \<and>
     (w_state x = Done \<longrightarrow> y = x) \<and> (w_state x \<noteq> Blocked \<longrightarrow> w_state y \<noteq> Blocked)"

text \<open>What is owed and what is among the effects add up to the same, before and after.\<close>

definition balanced :: "coord \<Rightarrow> coord \<Rightarrow> bool" where
  "balanced c c' \<longleftrightarrow>
     (\<forall>a. count_list (e_reacquires (c_effects c')) a + of_bool (a_reacquire_outstanding (c_att c a)) =
          count_list (e_reacquires (c_effects c)) a + of_bool (a_reacquire_outstanding (c_att c' a))) \<and>
     (\<forall>w. count_list (e_answered (c_effects c')) w + of_bool (live c' w) =
          count_list (e_answered (c_effects c)) w + of_bool (live c w)) \<and>
     e_drains (c_effects c') = e_drains (c_effects c) \<and>
     set (e_stop_attempts (c_effects c)) \<subseteq> set (e_stop_attempts (c_effects c')) \<and>
     (\<forall>a. a_stopping (c_att c' a) \<longrightarrow> a_stopping (c_att c a) \<or> a \<in> set (e_stop_attempts (c_effects c')))"

definition adv :: "coord \<Rightarrow> coord \<Rightarrow> bool" where
  "adv c c' \<longleftrightarrow> c_attempts c' = c_attempts c \<and> c_nwaits c' = c_nwaits c \<and> c_running c' = c_running c \<and>
     (\<forall>a. same_life (c_att c a) (c_att c' a)) \<and> (\<forall>w. wait_moved (c_wait c w) (c_wait c' w)) \<and> balanced c c'"

lemma same_life_refl [simp]: "same_life x x" by (simp add: same_life_def)
lemma wait_moved_refl [simp]: "wait_moved x x" by (simp add: wait_moved_def)
lemma same_life_trans: "same_life x y \<Longrightarrow> same_life y z \<Longrightarrow> same_life x z" by (simp add: same_life_def)
lemma wait_moved_trans: "wait_moved x y \<Longrightarrow> wait_moved y z \<Longrightarrow> wait_moved x z"
  unfolding wait_moved_def by metis

lemma balancedD:
  assumes "balanced c c'"
  shows "count_list (e_reacquires (c_effects c')) a + of_bool (a_reacquire_outstanding (c_att c a)) =
      count_list (e_reacquires (c_effects c)) a + of_bool (a_reacquire_outstanding (c_att c' a))"
    and "count_list (e_answered (c_effects c')) w + of_bool (live c' w) =
      count_list (e_answered (c_effects c)) w + of_bool (live c w)"
    and "e_drains (c_effects c') = e_drains (c_effects c)"
    and "set (e_stop_attempts (c_effects c)) \<subseteq> set (e_stop_attempts (c_effects c'))"
    and "a_stopping (c_att c' a) \<Longrightarrow> a_stopping (c_att c a) \<or> a \<in> set (e_stop_attempts (c_effects c'))"
  using assms unfolding balanced_def by blast+

lemma balanced_refl [simp]: "balanced c c" by (simp add: balanced_def)

lemma balanced_trans:
  assumes "balanced a b" and "balanced b c"
  shows "balanced a c"
  unfolding balanced_def
proof (intro conjI allI impI)
  fix x
  show "count_list (e_reacquires (c_effects c)) x + of_bool (a_reacquire_outstanding (c_att a x)) =
      count_list (e_reacquires (c_effects a)) x + of_bool (a_reacquire_outstanding (c_att c x))"
    using balancedD(1) [OF assms(1), of x] balancedD(1) [OF assms(2), of x] by linarith
next
  fix w
  show "count_list (e_answered (c_effects c)) w + of_bool (live c w) =
      count_list (e_answered (c_effects a)) w + of_bool (live a w)"
    using balancedD(2) [OF assms(1), of w] balancedD(2) [OF assms(2), of w] by linarith
next
  show "e_drains (c_effects c) = e_drains (c_effects a)"
    using balancedD(3) [OF assms(1)] balancedD(3) [OF assms(2)] by simp
next
  show "set (e_stop_attempts (c_effects a)) \<subseteq> set (e_stop_attempts (c_effects c))"
    using balancedD(4) [OF assms(1)] balancedD(4) [OF assms(2)] by blast
next
  fix x assume "a_stopping (c_att c x)"
  then show "a_stopping (c_att a x) \<or> x \<in> set (e_stop_attempts (c_effects c))"
    using balancedD(5) [OF assms(1), of x] balancedD(5) [OF assms(2), of x] balancedD(4) [OF assms(2)] by blast
qed

lemma adv_refl [simp]: "adv c c" by (simp add: adv_def)

lemma adv_trans: "adv a b \<Longrightarrow> adv b c \<Longrightarrow> adv a c"
  unfolding adv_def using same_life_trans wait_moved_trans balanced_trans by metis

lemma advD:
  assumes "adv c c'"
  shows "c_attempts c' = c_attempts c" "c_nwaits c' = c_nwaits c" "c_running c' = c_running c"
    and "a_output (c_att c' a) = a_output (c_att c a)" "a_phase (c_att c' a) = a_phase (c_att c a)"
    and "a_hurried (c_att c' a) = a_hurried (c_att c a)" "a_result (c_att c' a) = a_result (c_att c a)"
    and "a_predecessor (c_att c' a) = a_predecessor (c_att c a)" "a_lease (c_att c' a) = a_lease (c_att c a)"
    and "a_drain (c_att c' a) = a_drain (c_att c a)" "a_stop (c_att c' a) = a_stop (c_att c a)"
    and "w_target (c_wait c' w) = w_target (c_wait c w)" "w_requester (c_wait c' w) = w_requester (c_wait c w)"
  using assms by (simp_all add: adv_def same_life_def wait_moved_def)

lemma adv_stopping: "adv c c' \<Longrightarrow> a_stopping (c_att c a) \<Longrightarrow> a_stopping (c_att c' a)"
  and adv_doomed: "adv c c' \<Longrightarrow> a_doomed (c_att c a) \<Longrightarrow> a_doomed (c_att c' a)"
  and adv_done: "adv c c' \<Longrightarrow> w_state (c_wait c w) = Done \<Longrightarrow> c_wait c' w = c_wait c w"
  and adv_balanced: "adv c c' \<Longrightarrow> balanced c c'"
  by (simp_all add: adv_def same_life_def wait_moved_def)

lemma adv_live: "adv c c' \<Longrightarrow> live c' w \<Longrightarrow> live c w"
  by (auto simp: live_def advD adv_done)

lemma adv_blocked: "adv c c' \<Longrightarrow> blocked c' w \<Longrightarrow> blocked c w"
  by (auto simp: blocked_def adv_def wait_moved_def)

lemma adv_blocked_on: "adv c c' \<Longrightarrow> blocked_on c' a b \<subseteq> blocked_on c a b"
  by (auto simp: blocked_on_def advD dest: adv_blocked)

lemma adv_wait_graph:
  assumes "adv c c'" and "links_ok c" and "links_ok c'"
  shows "wait_graph c' \<subseteq> wait_graph c"
  using adv_blocked_on [OF assms(1)] by (fastforce simp: wait_graph_iff assms(2,3) advD [OF assms(1)])

section \<open>Attempts and waits\<close>

definition att_ok :: "attempt \<Rightarrow> bool" where
  "att_ok x \<longleftrightarrow>
     (a_permit x = No_permit \<longleftrightarrow> a_phase x \<in> {Pending, Queued}) \<and>
     (a_lease x \<longleftrightarrow> a_phase x \<in> {Running, Ended}) \<and>
     (a_reacquire_outstanding x \<longleftrightarrow> a_permit x = Reacquiring) \<and>
     (a_reacquire_outstanding x \<longrightarrow> a_reacquire x \<noteq> None) \<and>
     (a_drain x \<longleftrightarrow> a_phase x = Ended \<and> a_reacquire_outstanding x) \<and>
     (a_phase x = Ended \<longrightarrow> a_stopping x) \<and>
     (a_stopping x \<longrightarrow> a_phase x \<in> {Running, Ended}) \<and>
     (a_doomed x \<longrightarrow> a_stopping x) \<and>
     (a_predecessor x \<noteq> None \<longrightarrow> a_phase x = Pending)"

definition wait_ok :: "coord \<Rightarrow> rid \<Rightarrow> bool" where
  "wait_ok c w \<longleftrightarrow> (live c w \<longrightarrow>
     w_target (c_wait c w) < c_attempts c \<and>
     (case w_requester (c_wait c w) of
        None \<Rightarrow> w_state (c_wait c w) = Blocked
      | Some a \<Rightarrow> a < c_attempts c \<and> a_phase (c_att c a) = Running \<and> \<not> a_stopping (c_att c a) \<and>
          a_permit (c_att c a) \<noteq> Held \<and> (w_state (c_wait c w) = Ready \<longrightarrow> a_permit (c_att c a) = Reacquiring)))"

text \<open>The invariant that every transition keeps.\<close>

definition table_ok :: "coord \<Rightarrow> bool" where
  "table_ok c \<longleftrightarrow> links_ok c \<and> (\<forall>a. att_ok (c_att c a)) \<and> (\<forall>w. wait_ok c w)"

lemma table_okD: "table_ok c \<Longrightarrow> links_ok c" "table_ok c \<Longrightarrow> att_ok (c_att c a)" "table_ok c \<Longrightarrow> wait_ok c w"
  by (simp_all add: table_ok_def)

lemma table_okI: "links_ok c \<Longrightarrow> (\<And>a. att_ok (c_att c a)) \<Longrightarrow> (\<And>w. wait_ok c w) \<Longrightarrow> table_ok c"
  by (simp add: table_ok_def)

lemma att_ok_core: "core y = core x \<Longrightarrow> att_ok x \<Longrightarrow> att_ok y"
  using core_fields [of y x] by (simp add: att_ok_def)

lemma wait_okD:
  assumes "wait_ok c w" and "live c w" and "w_requester (c_wait c w) = Some a"
  shows "a < c_attempts c" "a_phase (c_att c a) = Running" "\<not> a_stopping (c_att c a)"
    "a_permit (c_att c a) \<noteq> Held" "w_state (c_wait c w) = Ready \<Longrightarrow> a_permit (c_att c a) = Reacquiring"
  using assms by (simp_all add: wait_ok_def)

lemma same_core_wait_ok:
  assumes "same_core c c'" and "live c' w \<Longrightarrow> live c w"
    and "w_target (c_wait c' w) = w_target (c_wait c w)" "w_requester (c_wait c' w) = w_requester (c_wait c w)"
    and "live c' w \<Longrightarrow> w_state (c_wait c' w) = w_state (c_wait c w)"
    and "wait_ok c w"
  shows "wait_ok c' w"
  using assms unfolding wait_ok_def
  by (cases "w_requester (c_wait c w)") (auto simp: same_coreD [OF assms(1)] same_core_fields [OF assms(1)])

lemma same_core_life: "same_core c c' \<Longrightarrow> same_life (c_att c a) (c_att c' a)"
  by (simp add: same_life_def same_coreD)

section \<open>Answering\<close>

lemma answer_live: "live (answer c w r) v \<longleftrightarrow> live c v \<and> v \<noteq> w"
  by (auto simp: live_def answer_fields)

lemma answer_adv:
  assumes "live c w"
  shows "adv c (answer c w r)"
proof -
  have core: "same_core c (answer c w r)" by (rule answer_core)
  have "balanced c (answer c w r)"
    using assms by (auto simp: balanced_def answer_fields answer_live same_coreD [OF core])
  moreover have "wait_moved (c_wait c v) (c_wait (answer c w r) v)" for v
    using assms by (auto simp: wait_moved_def answer_fields live_def set_wait_def)
  ultimately show ?thesis
    by (simp add: adv_def same_core_life [OF core] same_core_fields [OF core])
qed

lemma answer_table:
  assumes "table_ok c" and "live c w"
  shows "table_ok (answer c w r)"
proof (rule table_okI)
  show "links_ok (answer c w r)" using assms by (intro answer_links table_okD)
  fix a show "att_ok (c_att (answer c w r) a)"
    using att_ok_core [OF _ table_okD(2) [OF assms(1)]] answer_core by (simp add: same_core_def)
next
  fix v show "wait_ok (answer c w r) v"
    by (rule same_core_wait_ok [OF answer_core _ _ _ _ table_okD(3) [OF assms(1)]])
      (auto simp: answer_live answer_fields)
qed

lemma fold_answer:
  assumes "links_ok c" and "distinct ws" and "\<And>w. w \<in> set ws \<Longrightarrow> live c w"
  shows "links_ok (fold (\<lambda>w c. answer c w r) ws c) \<and> adv c (fold (\<lambda>w c. answer c w r) ws c) \<and>
    same_core c (fold (\<lambda>w c. answer c w r) ws c) \<and>
    (\<forall>v. c_wait (fold (\<lambda>w c. answer c w r) ws c) v =
      (if v \<in> set ws then (c_wait c v)\<lparr>w_result := r, w_state := Done\<rparr> else c_wait c v)) \<and>
    e_stop_attempts (c_effects (fold (\<lambda>w c. answer c w r) ws c)) = e_stop_attempts (c_effects c)"
  using assms
proof (induction ws arbitrary: c)
  case Nil
  then show ?case by simp
next
  case (Cons w ws)
  let ?d = "answer c w r"
  have w: "live c w" using Cons.prems by simp
  have "\<And>v. v \<in> set ws \<Longrightarrow> live ?d v" using Cons.prems by (auto simp: answer_live)
  with Cons.IH [OF answer_links [OF Cons.prems(1) w]] Cons.prems(2) show ?case
    using answer_adv [OF w, of r] answer_core [of c w r]
    by (auto simp: answer_fields set_wait_def intro: adv_trans same_core_trans)
qed


section \<open>Permits\<close>

text \<open>A change of one attempt that leaves its links alone.\<close>

lemma links_ok_upd:
  assumes "links_ok c" and "c_wait c' = c_wait c" "c_nwaits c' = c_nwaits c" "c_waits c' = c_waits c"
    and "\<And>x. a_waits_by_me (c_att c' x) = a_waits_by_me (c_att c x)"
    and "\<And>x. a_waits_on_me (c_att c' x) = a_waits_on_me (c_att c x)"
    and "\<And>x. a_edges_out (c_att c' x) = a_edges_out (c_att c x)"
  shows "links_ok c'"
proof -
  have "live c' = live c" and "blocked c' = blocked c"
    using assms by (auto simp: live_def blocked_def fun_eq_iff)
  moreover from this have "blocked_on c' = blocked_on c"
    using assms by (auto simp: blocked_on_def fun_eq_iff)
  ultimately show ?thesis
    using assms by (simp add: links_ok_def waits_listed_def by_me_listed_def on_me_listed_def edges_counted_def)
qed

lemma give_back_fields [simp]:
  "c_wait (give_back c a) = c_wait c" "c_nwaits (give_back c a) = c_nwaits c" "c_waits (give_back c a) = c_waits c"
  "c_running (give_back c a) = c_running c" "c_attempts (give_back c a) = c_attempts c"
  "c_effects (give_back c a) = c_effects c"
  "c_att (give_back c a) b = (if b = a then (c_att c a)\<lparr>a_permit := Released\<rparr> else c_att c b)"
  by (simp_all add: give_back_def Let_def)

lemma live_same: "c_wait c' = c_wait c \<Longrightarrow> c_nwaits c' = c_nwaits c \<Longrightarrow> live c' = live c"
  by (simp add: live_def fun_eq_iff)

lemma give_back_live [simp]: "live (give_back c a) = live c"
  by (rule live_same) simp_all

lemma give_back_adv: "adv c (give_back c a)"
  by (auto simp: adv_def balanced_def same_life_def)

lemma give_back_links: "links_ok c \<Longrightarrow> links_ok (give_back c a)"
  by (erule links_ok_upd) auto

lemma give_back_att:
  assumes "att_ok (c_att c b)" and "a_permit (c_att c a) = Held"
  shows "att_ok (c_att (give_back c a) b)"
  using assms by (cases "b = a") (simp_all add: att_ok_def)

text \<open>\<open>reacquire\<close> is only called for an attempt that gave its permit back and is not being stopped.\<close>

lemma reacquire_fields [simp]:
  "c_wait (reacquire c a) = c_wait c" "c_nwaits (reacquire c a) = c_nwaits c" "c_waits (reacquire c a) = c_waits c"
  "c_running (reacquire c a) = c_running c" "c_attempts (reacquire c a) = c_attempts c"
  "c_effects (reacquire c a) = (c_effects c)\<lparr>e_reacquires := e_reacquires (c_effects c) @ [a]\<rparr>"
  "c_att (reacquire c a) b =
     (if b = a then (c_att c a)\<lparr>a_permit := Reacquiring, a_reacquire := Some False, a_reacquire_outstanding := True\<rparr>
      else c_att c b)"
  by (simp_all add: reacquire_def)

lemma reacquire_live [simp]: "live (reacquire c a) = live c"
  by (rule live_same) simp_all

lemma reacquire_adv:
  assumes "table_ok c" and "a_permit (c_att c a) = Released"
  shows "adv c (reacquire c a)"
proof -
  have "\<not> a_reacquire_outstanding (c_att c a)"
    using table_okD(2) [OF assms(1), of a] assms(2) by (simp add: att_ok_def)
  then show ?thesis by (auto simp: adv_def balanced_def same_life_def)
qed

lemma reacquire_table:
  assumes "table_ok c" and "a_permit (c_att c a) = Released" and "\<not> a_stopping (c_att c a)"
  shows "table_ok (reacquire c a)"
proof (rule table_okI)
  show "links_ok (reacquire c a)" using table_okD(1) [OF assms(1)] by (rule links_ok_upd) auto
  fix b show "att_ok (c_att (reacquire c a) b)"
    using table_okD(2) [OF assms(1), of b] table_okD(2) [OF assms(1), of a] assms(2,3)
    by (cases "b = a") (simp_all add: att_ok_def)
next
  fix w show "wait_ok (reacquire c a) w"
    using table_okD(3) [OF assms(1), of w]
    by (cases "w_requester (c_wait c w)") (auto simp: wait_ok_def)
qed

lemma block_table:
  assumes "table_ok c" and "a_permit (c_att c a) \<noteq> Held"
  shows "block c a = c"
  using assms by (simp add: block_def)

section \<open>Waits whose target completed\<close>

lemma hold_ready_live [simp]: "blocked c w \<Longrightarrow> live (hold_ready c w x r) v \<longleftrightarrow> live c v"
  by (auto simp: live_def blocked_def hold_ready_fields)

lemma hold_ready_adv:
  assumes "blocked c w"
  shows "adv c (hold_ready c w x r)"
proof -
  have core: "same_core c (hold_ready c w x r)" by (rule hold_ready_core)
  have "balanced c (hold_ready c w x r)"
    using assms by (auto simp: balanced_def hold_ready_fields same_coreD [OF core])
  moreover have "wait_moved (c_wait c v) (c_wait (hold_ready c w x r) v)" for v
    using assms by (auto simp: wait_moved_def hold_ready_fields blocked_def set_wait_def)
  ultimately show ?thesis
    by (simp add: adv_def same_core_life [OF core] same_core_fields [OF core])
qed

lemma hold_ready_table:
  assumes ok: "table_ok c" and w: "blocked c w" and x: "w_requester (c_wait c w) = Some x"
    and p: "a_permit (c_att c x) = Reacquiring"
  shows "table_ok (hold_ready c w x r)"
proof (rule table_okI)
  note core = hold_ready_core [of c w x r]
  show "links_ok (hold_ready c w x r)" using ok w x by (intro hold_ready_links table_okD)
  fix a show "att_ok (c_att (hold_ready c w x r) a)"
    using att_ok_core [OF _ table_okD(2) [OF ok]] core by (simp add: same_core_def)
next
  note core = hold_ready_core [of c w x r]
  fix v
  have "wait_ok c v" using ok by (rule table_okD)
  then show "wait_ok (hold_ready c w x r) v"
    using w x p unfolding wait_ok_def
    by (cases "w_requester (c_wait c v)")
      (auto simp: hold_ready_fields same_coreD [OF core] same_core_fields [OF core])
qed

text \<open>
  The requester of a blocked wait holds no permit and is not being stopped, so \<open>ready\<close> takes one
  of two ways: a wait of no attempt is answered, any other waits for its requester's permit.
\<close>

lemma ready_cases:
  assumes ok: "table_ok c" and w: "blocked c w"
  obtains (outside) "w_requester (c_wait c w) = None" "ready c w r = answer c w r"
  | (take) a where "w_requester (c_wait c w) = Some a" "a_permit (c_att c a) = Released" "\<not> a_stopping (c_att c a)"
      "ready c w r = hold_ready (reacquire c a) w a r"
  | (taking) a where "w_requester (c_wait c w) = Some a" "a_permit (c_att c a) = Reacquiring"
      "\<not> a_stopping (c_att c a)" "ready c w r = hold_ready c w a r"
proof (cases "w_requester (c_wait c w)")
  case None
  with outside show ?thesis by (simp add: ready_def)
next
  case (Some a)
  note f = wait_okD [OF table_okD(3) [OF ok] blocked_live [OF w] Some]
  have "a_permit (c_att c a) = Released \<or> a_permit (c_att c a) = Reacquiring"
    using f table_okD(2) [OF ok, of a] by (cases "a_permit (c_att c a)") (auto simp: att_ok_def)
  with take taking Some f show ?thesis by (auto simp: ready_def)
qed

lemma ready_ok:
  assumes ok: "table_ok c" and w: "blocked c w"
  shows "table_ok (ready c w r) \<and> adv c (ready c w r) \<and> \<not> blocked (ready c w r) w \<and>
    (\<forall>v. v \<noteq> w \<longrightarrow> c_wait (ready c w r) v = c_wait c v) \<and> w_result (c_wait (ready c w r) w) = r"
  using ok w
proof (cases rule: ready_cases [where r = r])
  case outside
  then show ?thesis
    using answer_table [OF ok blocked_live [OF w], of r] answer_adv [OF blocked_live [OF w], of r]
    by (simp add: answer_fields blocked_def set_wait_def)
next
  case (take a)
  have t: "table_ok (reacquire c a)" using ok take by (intro reacquire_table)
  have b: "blocked (reacquire c a) w" using w by (simp add: blocked_def)
  have "adv c (reacquire c a)" using ok take by (intro reacquire_adv)
  with take show ?thesis
    using hold_ready_table [OF t b, of a r] hold_ready_adv [OF b, of a r]
    by (auto simp: hold_ready_fields blocked_def set_wait_def intro: adv_trans)
next
  case (taking a)
  then show ?thesis
    using hold_ready_table [OF ok w, of a r] hold_ready_adv [OF w, of a r]
    by (simp add: hold_ready_fields blocked_def set_wait_def)
qed

lemma fold_ready:
  assumes "table_ok c" and "distinct ws" and "\<And>w. w \<in> set ws \<Longrightarrow> blocked c w"
  shows "table_ok (fold (\<lambda>w c. ready c w r) ws c) \<and> adv c (fold (\<lambda>w c. ready c w r) ws c) \<and>
    (\<forall>w \<in> set ws. \<not> blocked (fold (\<lambda>w c. ready c w r) ws c) w \<and>
       w_result (c_wait (fold (\<lambda>w c. ready c w r) ws c) w) = r) \<and>
    (\<forall>v. v \<notin> set ws \<longrightarrow> c_wait (fold (\<lambda>w c. ready c w r) ws c) v = c_wait c v)"
  using assms
proof (induction ws arbitrary: c)
  case Nil
  then show ?case by simp
next
  case (Cons w ws)
  let ?d = "ready c w r"
  let ?e = "fold (\<lambda>w c. ready c w r) ws ?d"
  have w: "blocked c w" using Cons.prems by simp
  note d = ready_ok [OF Cons.prems(1) w, of r]
  have n: "c_nwaits ?d = c_nwaits c" using d by (simp add: advD)
  have "blocked ?d v" if "v \<in> set ws" for v
  proof -
    have "v \<noteq> w" "blocked c v" using that Cons.prems by auto
    with d n show ?thesis by (simp add: blocked_def)
  qed
  then have e: "table_ok ?e \<and> adv ?d ?e \<and> (\<forall>w \<in> set ws. \<not> blocked ?e w \<and> w_result (c_wait ?e w) = r) \<and>
      (\<forall>v. v \<notin> set ws \<longrightarrow> c_wait ?e v = c_wait ?d v)"
    using d Cons.prems(2) by (intro Cons.IH) auto
  have "w \<notin> set ws" using Cons.prems(2) by simp
  with e d have "c_wait ?e w = c_wait ?d w" by blast
  moreover have "c_nwaits ?e = c_nwaits ?d" using e advD(2) by blast
  ultimately have "\<not> blocked ?e w \<and> w_result (c_wait ?e w) = r" using d by (simp add: blocked_def)
  moreover have "adv c ?e" using d e by (blast intro: adv_trans)
  ultimately show ?case using d e by simp
qed

section \<open>Stopping\<close>

lemma cancel_waits_ok:
  fixes a :: aid
  assumes ok: "links_ok c"
  defines "d \<equiv> cancel_waits_of c a"
  shows "links_ok d \<and> adv c d \<and> same_core c d \<and>
    (\<forall>v. c_wait d v = (if live c v \<and> w_requester (c_wait c v) = Some a
       then (c_wait c v)\<lparr>w_result := Operation_canceled, w_state := Done\<rparr> else c_wait c v)) \<and>
    e_stop_attempts (c_effects d) = e_stop_attempts (c_effects c)"
proof -
  let ?ws = "a_waits_by_me (c_att c a)"
  have ws: "distinct ?ws" "set ?ws = {w. live c w \<and> w_requester (c_wait c w) = Some a}"
    using links_okD(2) [OF ok, of a] by (simp_all add: by_me_listed_def)
  have "live c w" if "w \<in> set ?ws" for w using that ws(2) by blast
  note f = fold_answer [OF ok ws(1) this, of Operation_canceled]
  have "w \<in> set ?ws \<longleftrightarrow> live c w \<and> w_requester (c_wait c w) = Some a" for w using ws(2) by blast
  with f show ?thesis
    unfolding d_def cancel_waits_of_def by (simp only: simp_thms)
qed

text \<open>An attempt that changes and whose waits are then all answered.\<close>

lemma retire_ok:
  assumes ok: "table_ok c"
    and c0: "c_wait c0 = c_wait c" "c_nwaits c0 = c_nwaits c" "c_waits c0 = c_waits c" "c_attempts c0 = c_attempts c"
    and others: "\<And>b. b \<noteq> a \<Longrightarrow> c_att c0 b = c_att c b"
    and same: "a_waits_by_me (c_att c0 a) = a_waits_by_me (c_att c a)"
      "a_waits_on_me (c_att c0 a) = a_waits_on_me (c_att c a)" "a_edges_out (c_att c0 a) = a_edges_out (c_att c a)"
  defines "d \<equiv> cancel_waits_of c0 a"
  shows "links_ok d \<and> adv c0 d \<and> same_core c0 d \<and> (\<forall>v. wait_ok d v) \<and>
    (\<forall>v. c_wait d v = (if live c v \<and> w_requester (c_wait c v) = Some a
       then (c_wait c v)\<lparr>w_result := Operation_canceled, w_state := Done\<rparr> else c_wait c v)) \<and>
    e_stop_attempts (c_effects d) = e_stop_attempts (c_effects c0)"
proof -
  have "links_ok c0"
    using table_okD(1) [OF ok] c0(1-3)
  proof (rule links_ok_upd)
    fix x
    show "a_waits_by_me (c_att c0 x) = a_waits_by_me (c_att c x)"
      "a_waits_on_me (c_att c0 x) = a_waits_on_me (c_att c x)" "a_edges_out (c_att c0 x) = a_edges_out (c_att c x)"
      using same others [of x] by (cases "x = a"; simp)+
  qed
  from cancel_waits_ok [OF this, of a] have d: "links_ok d \<and> adv c0 d \<and> same_core c0 d \<and>
    (\<forall>v. c_wait d v = (if live c v \<and> w_requester (c_wait c v) = Some a
       then (c_wait c v)\<lparr>w_result := Operation_canceled, w_state := Done\<rparr> else c_wait c v)) \<and>
    e_stop_attempts (c_effects d) = e_stop_attempts (c_effects c0)"
    unfolding d_def using live_same [OF c0(1,2)] c0(1) by simp
  have "wait_ok d v" for v
  proof (cases "live d v")
    case False
    then show ?thesis by (simp add: wait_ok_def)
  next
    case True
    have core: "same_core c0 d" using d by blast
    have w: "c_wait d v = c_wait c v" "w_requester (c_wait c v) \<noteq> Some a" and l: "live c v"
    proof -
      have "live c0 v" using d True adv_live by blast
      with live_same [OF c0(1,2)] show l: "live c v" by simp
      with True d show "c_wait d v = c_wait c v" "w_requester (c_wait c v) \<noteq> Some a"
        by (auto simp: live_def split: if_splits)
    qed
    show ?thesis
    proof (cases "w_requester (c_wait c v)")
      case None
      with table_okD(3) [OF ok, of v] l w True c0 same_core_fields [OF core] show ?thesis
        by (simp add: wait_ok_def)
    next
      case (Some b)
      with w have "b \<noteq> a" by simp
      with others have "c_att c0 b = c_att c b" by simp
      with table_okD(3) [OF ok, of v] l w True c0 Some same_coreD [OF core, of b] same_core_fields [OF core]
      show ?thesis by (simp add: wait_ok_def)
    qed
  qed
  with d show ?thesis by blast
qed

lemma upd_idem: "upd c a (\<lambda>x. x\<lparr>a_doomed := a_doomed x \<or> False\<rparr>) = c"
  by (simp add: upd_def)

text \<open>For the attempt stopped as it is, and for one marked doomed before it is stopped.\<close>

lemma stop_attempt_gen:
  assumes ok: "table_ok c" and phase: "a_phase (c_att c a) = Running"
    and c1: "c1 = upd c a (\<lambda>x. x\<lparr>a_doomed := a_doomed x \<or> z\<rparr>)"
  shows "table_ok (stop_attempt c1 a) \<and> adv c (stop_attempt c1 a) \<and> a_stopping (c_att (stop_attempt c1 a) a) \<and>
    (\<forall>v. c_wait (stop_attempt c1 a) v = (if live c v \<and> w_requester (c_wait c v) = Some a
       then (c_wait c v)\<lparr>w_result := Operation_canceled, w_state := Done\<rparr> else c_wait c v)) \<and>
    (\<forall>b. b \<noteq> a \<longrightarrow> core (c_att (stop_attempt c1 a) b) = core (c_att c b)) \<and>
    a_doomed (c_att (stop_attempt c1 a) a) = (a_doomed (c_att c a) \<or> z) \<and>
    a \<in> set (e_stop_attempts (c_effects (stop_attempt c1 a)))"
proof -
  define c0 where "c0 = upd c1 a (\<lambda>x. x\<lparr>a_stopping := True\<rparr>)"
  define d where "d = cancel_waits_of c0 a"
  have f: "c_wait c0 = c_wait c" "c_nwaits c0 = c_nwaits c" "c_waits c0 = c_waits c" "c_attempts c0 = c_attempts c"
    "c_running c0 = c_running c" "c_effects c0 = c_effects c"
    "\<And>b. c_att c0 b = (if b = a then (c_att c a)\<lparr>a_stopping := True, a_doomed := a_doomed (c_att c a) \<or> z\<rparr>
       else c_att c b)"
    by (simp_all add: c0_def c1)
  have d: "links_ok d \<and> adv c0 d \<and> same_core c0 d \<and> (\<forall>v. wait_ok d v) \<and>
    (\<forall>v. c_wait d v = (if live c v \<and> w_requester (c_wait c v) = Some a
       then (c_wait c v)\<lparr>w_result := Operation_canceled, w_state := Done\<rparr> else c_wait c v)) \<and>
    e_stop_attempts (c_effects d) = e_stop_attempts (c_effects c0)"
    unfolding d_def by (rule retire_ok [OF ok]) (simp_all add: f)
  have core: "same_core c0 d" and adv0: "adv c0 d" using d by blast+
  define e where "e = stop_attempt c1 a"
  have e: "c_att e = c_att d" "c_wait e = c_wait d" "c_nwaits e = c_nwaits d" "c_attempts e = c_attempts d"
    "c_waits e = c_waits d" "c_running e = c_running d"
    "e_reacquires (c_effects e) = e_reacquires (c_effects d)" "e_answered (c_effects e) = e_answered (c_effects d)"
    "e_drains (c_effects e) = e_drains (c_effects d)"
    "e_stop_attempts (c_effects e) = e_stop_attempts (c_effects d) @ [a]"
    by (simp_all add: e_def d_def c0_def stop_attempt_def Let_def)
  have live_e: "live e = live d" by (rule live_same [OF e(2,3)])
  have live_0: "live c0 = live c" by (rule live_same [OF f(1,2)])
  have out: "a_reacquire_outstanding (c_att e b) = a_reacquire_outstanding (c_att c b)"
    and stopping: "a_stopping (c_att e b) \<longleftrightarrow> b = a \<or> a_stopping (c_att c b)" for b
    by (simp_all add: e(1) same_coreD [OF core] f)
  have links: "links_ok e" using d by (intro links_ok_upd [of d e]) (simp_all add: e)
  have att: "att_ok (c_att e b)" for b
  proof -
    have "att_ok (c_att c0 b)" using table_okD(2) [OF ok, of b] phase
      by (cases "b = a") (simp_all add: f att_ok_def)
    with core show ?thesis unfolding e(1) same_core_def by (blast intro: att_ok_core)
  qed
  have waits: "wait_ok e v" for v
    using d unfolding wait_ok_def live_e e(1,2,4) by blast
  have bal: "balanced c e"
  proof -
    note b0 = balancedD [OF adv_balanced [OF adv0]]
    have "a_reacquire_outstanding (c_att c0 b) = a_reacquire_outstanding (c_att c b)" for b
      by (simp add: f(7))
    then have "count_list (e_reacquires (c_effects d)) b = count_list (e_reacquires (c_effects c)) b" for b
      using b0(1) [of b] by (simp add: same_coreD(11) [OF core] f(6))
    moreover have "count_list (e_answered (c_effects d)) w + of_bool (live d w) =
        count_list (e_answered (c_effects c)) w + of_bool (live c w)" for w
      using b0(2) [of w] by (simp add: live_0 f(6))
    ultimately show ?thesis
      using b0(3) d by (auto simp: balanced_def out stopping live_e e(7-10) f(6))
  qed
  have "adv c e"
    unfolding adv_def
  proof (intro conjI allI bal)
    show "c_attempts e = c_attempts c" "c_nwaits e = c_nwaits c" "c_running e = c_running c"
      by (simp_all add: e f advD [OF adv0])
    fix b
    have "same_life (c_att c b) (c_att c0 b)" by (simp add: f same_life_def)
    moreover have "same_life (c_att c0 b) (c_att e b)" unfolding e(1) by (rule same_core_life [OF core])
    ultimately show "same_life (c_att c b) (c_att e b)" by (rule same_life_trans)
  next
    fix w
    from adv0 have "wait_moved (c_wait c0 w) (c_wait d w)" unfolding adv_def by blast
    then show "wait_moved (c_wait c w) (c_wait e w)" by (simp add: e f)
  qed
  moreover have "core (c_att e b) = core (c_att c b)" if "b \<noteq> a" for b
    using core that by (simp add: same_core_def e f)
  moreover have "a_doomed (c_att e a) = (a_doomed (c_att c a) \<or> z)"
    by (simp add: e same_coreD [OF core] f)
  ultimately show ?thesis
    unfolding e_def [symmetric] using links att waits d by (simp add: table_ok_def stopping) (simp add: e)
qed

lemmas stop_attempt_ok = stop_attempt_gen [where z = False, OF _ _ sym [OF upd_idem], simplified]

end
