(* ===== verification/Coordinator_Sections.thy ===== *)
theory Coordinator_Sections
  imports Coordinator_Moves
begin

text \<open>
  The sections run under the lock.  \<open>coord_ok\<close> is the invariant of the coordinator's state
  between sections; \<open>owes\<close> says what a section leaves among its effects: exactly the answers,
  take-backs, drains and stops that the change of state calls for.
\<close>

section \<open>The invariant\<close>

definition running_ok :: "coord \<Rightarrow> bool" where
  "running_ok c \<longleftrightarrow> (\<forall>out a. c_running c out = Some a \<longleftrightarrow>
     a < c_attempts c \<and> a_phase (c_att c a) = Running \<and> a_output (c_att c a) = out)"

lemma running_iff:
  "running_ok c \<Longrightarrow> c_running c out = Some a \<longleftrightarrow>
     a < c_attempts c \<and> a_phase (c_att c a) = Running \<and> a_output (c_att c a) = out"
  by (simp add: running_ok_def)

definition hurry_ok :: "coord \<Rightarrow> bool" where
  "hurry_ok c \<longleftrightarrow> (\<forall>a b. (a, b) \<in> wait_graph c \<longrightarrow> a_hurried (c_att c a) \<longrightarrow> a_hurried (c_att c b)) \<and>
     (\<forall>w. blocked c w \<longrightarrow> w_requester (c_wait c w) = None \<longrightarrow> a_hurried (c_att c (w_target (c_wait c w))))"

definition result_ok :: "coord \<Rightarrow> bool" where
  "result_ok c \<longleftrightarrow> (\<forall>w. blocked c w \<longrightarrow> a_result (c_att c (w_target (c_wait c w))) = None)"

definition fresh_ok :: "coord \<Rightarrow> bool" where
  "fresh_ok c \<longleftrightarrow> (\<forall>a. c_attempts c \<le> a \<longrightarrow>
      a_phase (c_att c a) = Pending \<and> a_predecessor (c_att c a) = None \<and> \<not> a_hurried (c_att c a)) \<and>
     (\<forall>a p. a_predecessor (c_att c a) = Some p \<longrightarrow> p < c_attempts c)"

definition rest_ok :: "coord \<Rightarrow> bool" where
  "rest_ok c \<longleftrightarrow> running_ok c \<and> acyclic (wait_graph c) \<and> hurry_ok c \<and> result_ok c \<and> fresh_ok c"

definition coord_ok :: "coord \<Rightarrow> bool" where
  "coord_ok c \<longleftrightarrow> table_ok c \<and> rest_ok c"

lemma coord_okD:
  assumes "coord_ok c"
  shows "table_ok c" "rest_ok c" "running_ok c" "acyclic (wait_graph c)" "hurry_ok c" "result_ok c" "fresh_ok c"
    "links_ok c" "att_ok (c_att c a)" "wait_ok c w"
  using assms by (simp_all add: coord_ok_def rest_ok_def table_ok_def)

lemma adv_rest_ok:
  assumes "adv c c'" and "links_ok c" and "links_ok c'" and "rest_ok c"
  shows "rest_ok c'"
proof -
  note f = advD [OF assms(1)]
  have g: "wait_graph c' \<subseteq> wait_graph c" using assms(1-3) by (rule adv_wait_graph)
  have "running_ok c'" using assms(4) by (simp add: rest_ok_def running_ok_def f)
  moreover have "acyclic (wait_graph c')"
    using assms(4) g by (auto simp: rest_ok_def intro: acyclic_subset)
  moreover have "hurry_ok c'"
    using assms(4) g adv_blocked [OF assms(1)] unfolding rest_ok_def hurry_ok_def f by blast
  moreover have "result_ok c'"
    using assms(4) adv_blocked [OF assms(1)] unfolding rest_ok_def result_ok_def f by blast
  moreover have "fresh_ok c'"
    using assms(4) by (simp add: rest_ok_def fresh_ok_def f)
  ultimately show ?thesis by (simp add: rest_ok_def)
qed

lemma adv_coord_ok: "coord_ok c \<Longrightarrow> adv c c' \<Longrightarrow> table_ok c' \<Longrightarrow> coord_ok c'"
  using adv_rest_ok [of c c'] by (simp add: coord_ok_def table_ok_def)

lemma coord_graph_valid:
  assumes "coord_ok c"
  shows "graph_valid c"
  unfolding graph_valid_def
proof (intro allI impI)
  fix a b assume "b \<in> set (waits_on c a)"
  then have "(a, b) \<in> wait_graph c" by (simp add: wait_graph_def)
  then consider w where "w \<in> blocked_on c a b" | "a_predecessor (c_att c a) = Some b"
    using wait_graph_iff [OF coord_okD(8) [OF assms]] by blast
  then show "b < c_attempts c"
  proof cases
    case 1
    then have "live c w" "w_target (c_wait c w) = b" by (auto simp: blocked_on_def blocked_live)
    with coord_okD(10) [OF assms, of w] show ?thesis by (auto simp: wait_ok_def)
  next
    case 2
    with coord_okD(7) [OF assms] show ?thesis by (auto simp: fresh_ok_def)
  qed
qed

section \<open>What a section owes\<close>

definition owes :: "aid option \<Rightarrow> coord \<Rightarrow> coord \<Rightarrow> bool" where
  "owes took c c' \<longleftrightarrow>
     c_attempts c \<le> c_attempts c' \<and> c_nwaits c \<le> c_nwaits c' \<and>
     (\<forall>a. count_list (e_reacquires (c_effects c')) a + of_bool (a_reacquire_outstanding (c_att c a)) =
          of_bool (a_reacquire_outstanding (c_att c' a)) + of_bool (took = Some a)) \<and>
     (\<forall>w. count_list (e_answered (c_effects c')) w + of_bool (live c' w) =
          of_bool (live c w) + of_bool (c_nwaits c \<le> w \<and> w < c_nwaits c')) \<and>
     (\<forall>a. count_list (e_drains (c_effects c')) a + of_bool (a_drain (c_att c' a)) +
            of_bool (a_phase (c_att c' a) \<noteq> Ended) =
          of_bool (a_drain (c_att c a)) + of_bool (a_phase (c_att c a) \<noteq> Ended)) \<and>
     (\<forall>a. a_stopping (c_att c' a) \<longrightarrow> a_phase (c_att c' a) = Running \<longrightarrow>
          a_stopping (c_att c a) \<or> a \<in> set (e_stop_attempts (c_effects c'))) \<and>
     (\<forall>a. a < c_attempts c \<longrightarrow> a_stop (c_att c' a) = a_stop (c_att c a)) \<and>
     (\<forall>a. a_phase (c_att c a) = Ended \<longrightarrow> a_phase (c_att c' a) = Ended) \<and>
     (\<forall>a. a < c_attempts c \<longrightarrow> a_stopping (c_att c a) \<longrightarrow> a_stopping (c_att c' a)) \<and>
     (\<forall>a. a < c_attempts c \<longrightarrow> a_doomed (c_att c a) \<longrightarrow> a_doomed (c_att c' a)) \<and>
     (\<forall>w. w < c_nwaits c \<longrightarrow> w_state (c_wait c w) = Done \<longrightarrow> c_wait c' w = c_wait c w)"

lemma adv_owes:
  assumes "adv c c'" and "c_effects c = no_effects"
  shows "owes None c c'"
proof -
  note f = advD [OF assms(1)] and b = balancedD [OF adv_balanced [OF assms(1)]]
  have "c_attempts c \<le> c_attempts c' \<and> c_nwaits c \<le> c_nwaits c'" by (simp add: f)
  moreover have "\<forall>a. count_list (e_reacquires (c_effects c')) a + of_bool (a_reacquire_outstanding (c_att c a)) =
          of_bool (a_reacquire_outstanding (c_att c' a)) + of_bool (None = Some a)"
    using b(1) by (simp add: assms(2) no_effects_def)
  moreover have "\<forall>w. count_list (e_answered (c_effects c')) w + of_bool (live c' w) =
          of_bool (live c w) + of_bool (c_nwaits c \<le> w \<and> w < c_nwaits c')"
    using b(2) by (simp add: assms(2) no_effects_def f)
  moreover have "\<forall>a. count_list (e_drains (c_effects c')) a + of_bool (a_drain (c_att c' a)) +
            of_bool (a_phase (c_att c' a) \<noteq> Ended) =
          of_bool (a_drain (c_att c a)) + of_bool (a_phase (c_att c a) \<noteq> Ended)"
    using b(3) by (simp add: assms(2) no_effects_def f)
  moreover have "\<forall>a. a_stopping (c_att c' a) \<longrightarrow> a_phase (c_att c' a) = Running \<longrightarrow>
          a_stopping (c_att c a) \<or> a \<in> set (e_stop_attempts (c_effects c'))"
    using b(5) by blast
  moreover have "\<forall>a. a_phase (c_att c a) = Ended \<longrightarrow> a_phase (c_att c' a) = Ended" by (simp add: f)
  ultimately show ?thesis
    unfolding owes_def using adv_stopping [OF assms(1)] adv_doomed [OF assms(1)] adv_done [OF assms(1)] f(11)
    by blast
qed

text \<open>Attempts keep their outputs, and either their phase or end.\<close>

definition settles :: "coord \<Rightarrow> coord \<Rightarrow> bool" where
  "settles c c' \<longleftrightarrow> c_attempts c' = c_attempts c \<and>
     (\<forall>a. a_output (c_att c' a) = a_output (c_att c a) \<and>
        (a_phase (c_att c' a) = a_phase (c_att c a) \<or> a_phase (c_att c' a) = Ended))"

lemma adv_settles: "adv c c' \<Longrightarrow> settles c c'"
  by (simp add: settles_def advD)

lemma settles_refl [simp]: "settles c c"
  by (simp add: settles_def)

lemma owes_refl: "c_effects c = no_effects \<Longrightarrow> owes None c c"
  by (rule adv_owes) simp_all

text \<open>Two halves of a section, the first with no effects and no change of what is owed.\<close>

definition quiet :: "coord \<Rightarrow> coord \<Rightarrow> bool" where
  "quiet c c1 \<longleftrightarrow> c_nwaits c1 = c_nwaits c \<and> c_wait c1 = c_wait c \<and> c_attempts c \<le> c_attempts c1 \<and>
     (\<forall>a. a_reacquire_outstanding (c_att c1 a) = a_reacquire_outstanding (c_att c a) \<and>
          a_drain (c_att c1 a) = a_drain (c_att c a) \<and>
          (a < c_attempts c \<longrightarrow> a_stop (c_att c1 a) = a_stop (c_att c a)) \<and>
          (a_phase (c_att c1 a) = Ended \<longleftrightarrow> a_phase (c_att c a) = Ended) \<and>
          (a_stopping (c_att c1 a) \<longleftrightarrow> a_stopping (c_att c a)) \<and> (a_doomed (c_att c a) \<longrightarrow> a_doomed (c_att c1 a)))"

lemma quiet_owes:
  assumes "quiet c c1" and "owes took c1 c'"
  shows "owes took c c'"
proof -
  have "live c1 = live c" using assms(1) by (intro live_same) (simp_all add: quiet_def)
  with assms show ?thesis unfolding quiet_def owes_def by auto
qed

section \<open>Creating and starting an attempt\<close>

lemma create_attempt_ok:
  assumes ok: "coord_ok c" and pred: "case pred of None \<Rightarrow> True | Some p \<Rightarrow> p < c_attempts c"
  shows "coord_ok (snd (create_attempt c out pred))" and "quiet c (snd (create_attempt c out pred))"
proof -
  define c' where "c' = snd (create_attempt c out pred)"
  define q where "q = (case pred of None \<Rightarrow> None
      | Some p \<Rightarrow> if a_phase (c_att c p) = Ended then None else Some p)"
  let ?n = "c_attempts c"
  have f: "c_wait c' = c_wait c" "c_nwaits c' = c_nwaits c" "c_waits c' = c_waits c" "c_attempts c' = Suc ?n"
    "c_running c' = c_running c" "c_effects c' = c_effects c"
    "\<And>b. c_att c' b = (if b = ?n then new_attempt out q else c_att c b)"
    by (simp_all add: c'_def create_attempt_def q_def Let_def)
  have q: "q = Some p \<Longrightarrow> p < ?n" for p
    using pred by (auto simp: q_def split: option.splits if_splits)
  have lv: "live c' = live c" by (rule live_same) (simp_all add: f)
  have bl: "blocked c' = blocked c" by (simp add: blocked_def fun_eq_iff f)
  have on: "blocked_on c' = blocked_on c" by (simp add: blocked_on_def fun_eq_iff f bl)
  have w: "live c w \<Longrightarrow> w_target (c_wait c w) < ?n" "live c w \<Longrightarrow> w_requester (c_wait c w) = Some a \<Longrightarrow> a < ?n" for w a
    using coord_okD(10) [OF ok, of w] by (auto simp: wait_ok_def)
  have none: "blocked_on c ?n b = {}" for b
    using w(2) [OF blocked_live, of _ ?n] by (auto simp: blocked_on_def)
  have ph: "a_phase (c_att c ?n) = Pending" "a_predecessor (c_att c ?n) = None" "\<not> a_hurried (c_att c ?n)"
    using coord_okD(7) [OF ok] by (simp_all add: fresh_ok_def)
  have links: "links_ok c'"
    unfolding links_ok_def
  proof (intro conjI allI)
    note L = links_okD [OF coord_okD(8) [OF ok]]
    show "waits_listed c'" using L(1) by (simp add: waits_listed_def f lv)
    fix a
    show "by_me_listed c' a"
      using L(2) [of a] w(2) [of _ ?n] by (cases "a = ?n") (auto simp: by_me_listed_def f lv new_attempt_def)
    show "on_me_listed c' a"
      using L(3) [of a] w(1) [OF blocked_live]
      by (cases "a = ?n") (simp_all add: on_me_listed_def f bl new_attempt_def, fastforce)
    show "edges_counted c' a"
      using L(4) [of a] none by (cases "a = ?n") (simp_all add: edges_counted_def f on new_attempt_def)
  qed
  have table: "table_ok c'"
  proof (rule table_okI [OF links])
    fix a show "att_ok (c_att c' a)"
      using coord_okD(9) [OF ok, of a] by (cases "a = ?n") (simp_all add: f att_ok_def new_attempt_def)
  next
    fix v show "wait_ok c' v"
      using coord_okD(10) [OF ok, of v] unfolding wait_ok_def lv f(1,4)
      by (cases "w_requester (c_wait c v)") (auto simp: f)
  qed
  have graph: "wait_graph c' = wait_graph c \<union> (case q of None \<Rightarrow> {} | Some p \<Rightarrow> {(?n, p)})"
  proof -
    have "(a, b) \<in> wait_graph c' \<longleftrightarrow> (a, b) \<in> wait_graph c \<or> (a = ?n \<and> q = Some b)" for a b
      using none ph by (cases "a = ?n")
        (simp_all add: wait_graph_iff [OF links] wait_graph_iff [OF coord_okD(8) [OF ok]] on f new_attempt_def)
    then show ?thesis by (auto split: option.splits)
  qed
  have into: "(a, b) \<in> wait_graph c \<Longrightarrow> b < ?n" for a b
    using coord_graph_valid [OF ok] by (auto simp: graph_valid_def wait_graph_def)
  have "acyclic (wait_graph c')"
  proof (cases q)
    case None
    with graph coord_okD(4) [OF ok] show ?thesis by simp
  next
    case (Some p)
    have "(p, ?n) \<notin> (wait_graph c)\<^sup>*"
    proof
      assume "(p, ?n) \<in> (wait_graph c)\<^sup>*"
      then show False
        by (cases rule: rtranclE) (use q [OF Some] into [of _ ?n] in blast)+
    qed
    with graph Some coord_okD(4) [OF ok] show ?thesis by (simp add: acyclic_insert)
  qed
  moreover have "running_ok c'"
    unfolding running_ok_def
  proof (intro allI)
    fix o' a
    show "c_running c' o' = Some a \<longleftrightarrow> a < c_attempts c' \<and> a_phase (c_att c' a) = Running \<and> a_output (c_att c' a) = o'"
      using coord_okD(3) [OF ok] by (cases "a = ?n") (simp_all add: running_ok_def f new_attempt_def, linarith)
  qed
  moreover have "hurry_ok c'"
    unfolding hurry_ok_def
  proof (intro conjI allI impI)
    fix a b assume e: "(a, b) \<in> wait_graph c'" "a_hurried (c_att c' a)"
    then have "a \<noteq> ?n" by (auto simp: f new_attempt_def)
    moreover from this e graph have "(a, b) \<in> wait_graph c" by (auto split: option.splits)
    moreover from this have "b \<noteq> ?n" using into by blast
    ultimately show "a_hurried (c_att c' b)"
      using e(2) coord_okD(5) [OF ok] by (auto simp: f hurry_ok_def)
  next
    fix v assume b: "blocked c' v" "w_requester (c_wait c' v) = None"
    then have "w_target (c_wait c v) \<noteq> ?n" using w(1) [OF blocked_live] bl by fastforce
    with b coord_okD(5) [OF ok] show "a_hurried (c_att c' (w_target (c_wait c' v)))"
      by (simp add: f bl hurry_ok_def)
  qed
  moreover have "result_ok c'"
    using coord_okD(6) [OF ok] by (auto simp: result_ok_def f bl new_attempt_def)
  moreover have "fresh_ok c'"
    unfolding fresh_ok_def
  proof (intro conjI allI impI)
    fix a p assume "a_predecessor (c_att c' a) = Some p"
    then show "p < c_attempts c'"
      using q [of p] coord_okD(7) [OF ok] by (cases "a = ?n") (auto simp: f fresh_ok_def new_attempt_def intro: less_SucI)
  qed (use coord_okD(7) [OF ok] in \<open>auto simp: f fresh_ok_def\<close>)
  ultimately show "coord_ok (snd (create_attempt c out pred))"
    using table unfolding c'_def [symmetric] by (simp add: coord_ok_def rest_ok_def)
  have "\<not> a_stopping (c_att c ?n)" "\<not> a_reacquire_outstanding (c_att c ?n)" "\<not> a_drain (c_att c ?n)" "\<not> a_doomed (c_att c ?n)"
    using coord_okD(9) [OF ok, of ?n] ph by (auto simp: att_ok_def)
  with ph show "quiet c (snd (create_attempt c out pred))"
    unfolding c'_def [symmetric] quiet_def by (simp add: f new_attempt_def)
qed

text \<open>
  One attempt changes, its links and what others see of it aside: what is left to show is its
  own invariant, that of the waits, and the map of running attempts.
\<close>

lemma tweak_ok:
  assumes ok: "coord_ok c"
    and f: "c_wait c' = c_wait c" "c_nwaits c' = c_nwaits c" "c_waits c' = c_waits c" "c_attempts c' = c_attempts c"
    and others: "\<And>b. b \<noteq> a \<Longrightarrow> c_att c' b = c_att c b"
    and links: "a_waits_by_me (c_att c' a) = a_waits_by_me (c_att c a)"
      "a_waits_on_me (c_att c' a) = a_waits_on_me (c_att c a)" "a_edges_out (c_att c' a) = a_edges_out (c_att c a)"
    and same: "a_hurried (c_att c' a) = a_hurried (c_att c a)"
    and graph: "\<And>p. a_predecessor (c_att c' a) = Some p \<Longrightarrow> a_phase (c_att c' a) = Pending \<Longrightarrow>
      a_predecessor (c_att c a) = Some p \<and> a_phase (c_att c a) = Pending"
    and pred: "\<And>p. a_predecessor (c_att c' a) = Some p \<Longrightarrow> p < c_attempts c"
    and a: "a < c_attempts c"
  shows "links_ok c'" and "wait_graph c' \<subseteq> wait_graph c" and "acyclic (wait_graph c')" and "hurry_ok c'" and "fresh_ok c'"
    and "blocked c' = blocked c" and "live c' = live c"
proof -
  show lv: "live c' = live c" using f by (intro live_same)
  show bl: "blocked c' = blocked c" by (simp add: blocked_def fun_eq_iff f)
  show L: "links_ok c'"
    using coord_okD(8) [OF ok] f(1-3)
  proof (rule links_ok_upd)
    fix x
    show "a_waits_by_me (c_att c' x) = a_waits_by_me (c_att c x)"
      "a_waits_on_me (c_att c' x) = a_waits_on_me (c_att c x)" "a_edges_out (c_att c' x) = a_edges_out (c_att c x)"
      using links others [of x] by (cases "x = a"; simp)+
  qed
  have on: "blocked_on c' = blocked_on c" by (simp add: blocked_on_def fun_eq_iff f bl)
  show g: "wait_graph c' \<subseteq> wait_graph c"
  proof (rule subrelI)
    fix x y assume e: "(x, y) \<in> wait_graph c'"
    show "(x, y) \<in> wait_graph c"
      using e graph [of y] others [of x]
      unfolding wait_graph_iff [OF L] wait_graph_iff [OF coord_okD(8) [OF ok]] on
      by (cases "x = a") auto
  qed
  show "acyclic (wait_graph c')" using acyclic_subset [OF coord_okD(4) [OF ok] g] .
  have h: "a_hurried (c_att c' x) = a_hurried (c_att c x)" for x
    using same others by (cases "x = a") simp_all
  show "hurry_ok c'"
    using coord_okD(5) [OF ok] g unfolding hurry_ok_def h bl f by blast
  show "fresh_ok c'"
    unfolding fresh_ok_def
  proof (intro conjI allI impI)
    fix x q assume "a_predecessor (c_att c' x) = Some q"
    then show "q < c_attempts c'"
      using pred [of q] coord_okD(7) [OF ok] others [of x] by (cases "x = a") (auto simp: f fresh_ok_def)
  qed (use coord_okD(7) [OF ok] a others in \<open>auto simp: f fresh_ok_def\<close>)
qed

lemma run_section_ok:
  assumes ok: "coord_ok c" and a: "a < c_attempts c" and ph: "a_phase (c_att c a) = Pending"
  shows "coord_ok (run_section c a)" and "quiet c (run_section c a)"
proof -
  define c' where "c' = run_section c a"
  have f: "c_wait c' = c_wait c" "c_nwaits c' = c_nwaits c" "c_waits c' = c_waits c" "c_attempts c' = c_attempts c"
    "c_running c' = c_running c" "c_effects c' = c_effects c"
    "\<And>b. c_att c' b = (if b = a then (c_att c a)\<lparr>a_phase := Queued, a_predecessor := None\<rparr> else c_att c b)"
    by (simp_all add: c'_def run_section_def)
  have t: "links_ok c'" "acyclic (wait_graph c')" "hurry_ok c'" "fresh_ok c'" "blocked c' = blocked c" "live c' = live c"
    by (rule tweak_ok [OF ok f(1-4), where a = a]; simp add: f a)+
  have "att_ok (c_att c' b)" for b
    using coord_okD(9) [OF ok, of b] ph by (cases "b = a") (auto simp: f att_ok_def)
  moreover have "wait_ok c' v" for v
    using coord_okD(10) [OF ok, of v] ph unfolding wait_ok_def t(6) f(1,4)
    by (cases "w_requester (c_wait c v)") (auto simp: f)
  moreover have "running_ok c'"
    unfolding running_ok_def
  proof (intro allI)
    fix o' b
    show "c_running c' o' = Some b \<longleftrightarrow> b < c_attempts c' \<and> a_phase (c_att c' b) = Running \<and> a_output (c_att c' b) = o'"
      using coord_okD(3) [OF ok] ph by (cases "b = a") (simp_all add: running_ok_def f)
  qed
  moreover have "result_ok c'"
    using coord_okD(6) [OF ok] by (auto simp: result_ok_def f t(5))
  ultimately show "coord_ok (run_section c a)"
    using t unfolding c'_def [symmetric] by (simp add: coord_ok_def rest_ok_def table_ok_def)
  show "quiet c (run_section c a)" using ph unfolding c'_def [symmetric] by (simp add: quiet_def f)
qed

lemma on_permit_ok:
  assumes ok: "coord_ok c" and a: "a < c_attempts c" and ph: "a_phase (c_att c a) = Queued"
    and alone: "\<And>b. b < c_attempts c \<Longrightarrow> a_output (c_att c b) = a_output (c_att c a) \<Longrightarrow> a_phase (c_att c b) \<noteq> Running"
  shows "coord_ok (on_permit c a)" and "quiet c (on_permit c a)" and "c_running c (a_output (c_att c a)) = None"
proof -
  define c' where "c' = on_permit c a"
  show free: "c_running c (a_output (c_att c a)) = None"
  proof (cases "c_running c (a_output (c_att c a))")
    case (Some b)
    with coord_okD(3) [OF ok] alone [of b] show ?thesis by (simp add: running_ok_def)
  qed
  have f: "c_wait c' = c_wait c" "c_nwaits c' = c_nwaits c" "c_waits c' = c_waits c" "c_attempts c' = c_attempts c"
    "c_running c' = (c_running c)(a_output (c_att c a) \<mapsto> a)" "c_effects c' = c_effects c"
    "\<And>b. c_att c' b = (if b = a then (c_att c a)\<lparr>a_phase := Running, a_permit := Held, a_lease := True\<rparr> else c_att c b)"
    by (simp_all add: c'_def on_permit_def Let_def free)
  have np: "a_predecessor (c_att c a) = None" using coord_okD(9) [OF ok, of a] ph by (auto simp: att_ok_def)
  have t: "links_ok c'" "acyclic (wait_graph c')" "hurry_ok c'" "fresh_ok c'" "blocked c' = blocked c" "live c' = live c"
    by (rule tweak_ok [OF ok f(1-4), where a = a]; simp add: f a np)+
  have "att_ok (c_att c' b)" for b
    using coord_okD(9) [OF ok, of b] ph by (cases "b = a") (auto simp: f att_ok_def)
  moreover have "wait_ok c' v" for v
    using coord_okD(10) [OF ok, of v] ph unfolding wait_ok_def t(6) f(1,4)
    by (cases "w_requester (c_wait c v)") (auto simp: f)
  moreover have "running_ok c'"
    unfolding running_ok_def
  proof (intro allI)
    fix o' b
    show "c_running c' o' = Some b \<longleftrightarrow> b < c_attempts c' \<and> a_phase (c_att c' b) = Running \<and> a_output (c_att c' b) = o'"
      using coord_okD(3) [OF ok] ph alone [of b] a unfolding running_ok_def f
      by (cases "b = a"; cases "o' = a_output (c_att c a)") auto
  qed
  moreover have "result_ok c'"
    using coord_okD(6) [OF ok] by (auto simp: result_ok_def f t(5))
  ultimately show "coord_ok (on_permit c a)"
    using t unfolding c'_def [symmetric] by (simp add: coord_ok_def rest_ok_def table_ok_def)
  show "quiet c (on_permit c a)" using ph unfolding c'_def [symmetric] by (simp add: quiet_def f)
qed

section \<open>Stopping and ending an attempt\<close>

text \<open>The invariant does not look at the effects or the log of calls.\<close>

lemma coord_ok_effects:
  assumes "c_att c' = c_att c" "c_wait c' = c_wait c" "c_nwaits c' = c_nwaits c" "c_waits c' = c_waits c"
    "c_attempts c' = c_attempts c" "c_running c' = c_running c"
  shows "coord_ok c' = coord_ok c" and "table_ok c' = table_ok c" and "live c' = live c" and "wait_graph c' = wait_graph c"
proof -
  show lv: "live c' = live c" using assms by (intro live_same)
  have bl: "blocked c' = blocked c" by (simp add: blocked_def fun_eq_iff assms)
  have on: "blocked_on c' = blocked_on c" by (simp add: blocked_on_def fun_eq_iff assms bl)
  have "waits_on c' = waits_on c" by (simp add: fun_eq_iff waits_on_def behind_def assms)
  then show g: "wait_graph c' = wait_graph c" by (simp add: wait_graph_def)
  show t: "table_ok c' = table_ok c"
    unfolding table_ok_def links_ok_def waits_listed_def by_me_listed_def on_me_listed_def edges_counted_def
      wait_ok_def assms lv bl on by (rule refl)
  show "coord_ok c' = coord_ok c"
    by (simp add: coord_ok_def rest_ok_def running_ok_def hurry_ok_def result_ok_def fresh_ok_def g t bl assms)
qed

lemma on_outer_stop_ok:
  assumes ok: "coord_ok c" and eff: "c_effects c = no_effects"
  shows "coord_ok (on_outer_stop c a) \<and> owes None c (on_outer_stop c a) \<and> settles c (on_outer_stop c a)"
proof (cases "a_phase (c_att c a) = Running \<and> \<not> a_stopping (c_att c a)")
  case True
  note s = stop_attempt_ok [OF coord_okD(1) [OF ok], of a]
  from True s have "table_ok (stop_attempt c a)" "adv c (stop_attempt c a)" by blast+
  then show ?thesis
    using True adv_coord_ok [OF ok] adv_owes [OF _ eff] adv_settles by (simp add: on_outer_stop_def)
next
  case False
  let ?c' = "eff c (\<lambda>e. e\<lparr>e_stop_attempts := e_stop_attempts e @ [a]\<rparr>)"
  have "coord_ok ?c'" using ok by (subst coord_ok_effects(1) [where c = c]) simp_all
  moreover have "live ?c' = live c" by (rule live_same) simp_all
  then have "owes None c ?c'" using eff by (simp add: owes_def no_effects_def)
  moreover have "settles c ?c'" by (simp add: settles_def)
  moreover have "on_outer_stop c a = ?c'" using False unfolding on_outer_stop_def by (simp only: if_False)
  ultimately show ?thesis by simp
qed

lemma finish_ok:
  assumes ok: "coord_ok c" and eff: "c_effects c = no_effects"
    and a: "a < c_attempts c" and ph: "a_phase (c_att c a) = Running"
  shows "coord_ok (finish c a) \<and> owes None c (finish c a) \<and> settles c (finish c a)"
proof -
  define c0 where "c0 = (upd c a (\<lambda>x. x\<lparr>a_phase := Ended, a_stopping := True\<rparr>))
    \<lparr>c_running := (c_running c)(a_output (c_att c a) := None)\<rparr>"
  define d where "d = cancel_waits_of c0 a"
  define c' where "c' = finish c a"
  have f: "c_wait c0 = c_wait c" "c_nwaits c0 = c_nwaits c" "c_waits c0 = c_waits c" "c_attempts c0 = c_attempts c"
    "c_running c0 = (c_running c)(a_output (c_att c a) := None)" "c_effects c0 = c_effects c"
    "\<And>b. c_att c0 b = (if b = a then (c_att c a)\<lparr>a_phase := Ended, a_stopping := True\<rparr> else c_att c b)"
    by (simp_all add: c0_def)
  have d: "links_ok d \<and> adv c0 d \<and> same_core c0 d \<and> (\<forall>v. wait_ok d v) \<and>
    (\<forall>v. c_wait d v = (if live c v \<and> w_requester (c_wait c v) = Some a
       then (c_wait c v)\<lparr>w_result := Operation_canceled, w_state := Done\<rparr> else c_wait c v)) \<and>
    e_stop_attempts (c_effects d) = e_stop_attempts (c_effects c0)"
    unfolding d_def by (rule retire_ok [OF coord_okD(1) [OF ok]]) (simp_all add: f)
  then have core: "same_core c0 d" and adv: "adv c0 d" and Ld: "links_ok d" and wd: "wait_ok d v" for v by blast+
  note dc = same_coreD [OF core] and da = advD [OF adv]
  let ?out = "a_reacquire_outstanding (c_att c a)"
  have c': "c_wait c' = c_wait d" "c_nwaits c' = c_nwaits d" "c_waits c' = c_waits d" "c_attempts c' = c_attempts d"
    "c_running c' = c_running d" "e_reacquires (c_effects c') = e_reacquires (c_effects d)"
    "e_answered (c_effects c') = e_answered (c_effects d)"
    "e_drains (c_effects c') = e_drains (c_effects d) @ (if ?out then [] else [a])"
    "\<And>b. c_att c' b = (if b = a \<and> ?out then (c_att d a)\<lparr>a_drain := True\<rparr> else c_att d b)"
  proof -
    have "finish c a = (if a_reacquire_outstanding (c_att d a)
         then eff (upd d a (\<lambda>x. x\<lparr>a_drain := True\<rparr>)) (\<lambda>e. e\<lparr>e_stop_reacquires := e_stop_reacquires e @ [a]\<rparr>)
         else eff d (\<lambda>e. e\<lparr>e_drains := e_drains e @ [a]\<rparr>))"
      by (simp add: finish_def d_def c0_def Let_def)
    moreover have "a_reacquire_outstanding (c_att d a) = ?out" by (simp add: dc(11) f)
    ultimately show "c_wait c' = c_wait d" "c_nwaits c' = c_nwaits d" "c_waits c' = c_waits d"
      "c_attempts c' = c_attempts d" "c_running c' = c_running d"
      "e_reacquires (c_effects c') = e_reacquires (c_effects d)"
      "e_answered (c_effects c') = e_answered (c_effects d)"
      "e_drains (c_effects c') = e_drains (c_effects d) @ (if ?out then [] else [a])"
      "\<And>b. c_att c' b = (if b = a \<and> ?out then (c_att d a)\<lparr>a_drain := True\<rparr> else c_att d b)"
      by (simp_all add: c'_def)
  qed
  have l0: "live c0 = live c" by (rule live_same) (simp_all add: f)
  have ld: "live c' = live d" by (rule live_same) (simp_all add: c')
  have bd: "blocked c' = blocked d" by (simp add: blocked_def fun_eq_iff c')
  have att: "att_ok (c_att c' b)" for b
  proof (cases "b = a")
    case True
    with coord_okD(9) [OF ok, of a] ph show ?thesis by (simp add: c'(9) att_ok_def dc f)
  next
    case False
    with coord_okD(9) [OF ok, of b] show ?thesis by (simp add: c'(9) att_ok_def dc f)
  qed
  have links: "links_ok c'" by (rule links_ok_upd [OF Ld]) (simp_all add: c')
  have waits: "wait_ok c' v" for v
    using wd [of v] unfolding wait_ok_def ld c'(1,4)
    by (cases "w_requester (c_wait d v)") (auto simp: c'(9))
  have "wait_graph c' \<subseteq> wait_graph c"
  proof (rule subrelI)
    fix x y assume "(x, y) \<in> wait_graph c'"
    moreover have "blocked_on c' x y \<subseteq> blocked_on c x y"
      using adv_blocked_on [OF adv, of x y] by (auto simp: blocked_on_def bd c' blocked_def f)
    ultimately show "(x, y) \<in> wait_graph c"
      using ph unfolding wait_graph_iff [OF links] wait_graph_iff [OF coord_okD(8) [OF ok]]
      by (auto simp: c'(9) dc f split: if_splits)
  qed
  note g = this
  have blk: "blocked c' v \<Longrightarrow> blocked c v" for v
    using adv_blocked [OF adv, of v] by (simp add: bd blocked_def f)
  have same: "a_hurried (c_att c' b) = a_hurried (c_att c b)" "a_result (c_att c' b) = a_result (c_att c b)"
    "a_output (c_att c' b) = a_output (c_att c b)" "a_predecessor (c_att c' b) = a_predecessor (c_att c b)"
    "a_phase (c_att c' b) = (if b = a then Ended else a_phase (c_att c b))"
    "w_target (c_wait c' v) = w_target (c_wait c v)" "w_requester (c_wait c' v) = w_requester (c_wait c v)" for b v
    by (simp_all add: c'(9) c'(1) dc da f)
  have "running_ok c'"
    unfolding running_ok_def
  proof (intro allI)
    fix o' b
    show "c_running c' o' = Some b \<longleftrightarrow> b < c_attempts c' \<and> a_phase (c_att c' b) = Running \<and> a_output (c_att c' b) = o'"
      using running_iff [OF coord_okD(3) [OF ok], of o' b] running_iff [OF coord_okD(3) [OF ok], of o' a] ph a
      unfolding same c'(4,5) da f by auto
  qed
  moreover have "acyclic (wait_graph c')" using acyclic_subset [OF coord_okD(4) [OF ok] g] .
  moreover have "hurry_ok c'"
    using coord_okD(5) [OF ok] g blk unfolding hurry_ok_def same by blast
  moreover have "result_ok c'"
    using coord_okD(6) [OF ok] blk unfolding result_ok_def same by blast
  moreover have "fresh_ok c'"
    using coord_okD(7) [OF ok] a unfolding fresh_ok_def same c'(4) da f by auto
  ultimately have "coord_ok c'"
    using links att waits by (simp add: coord_ok_def rest_ok_def table_ok_def)
  moreover have "owes None c c'"
  proof -
    note b = balancedD [OF adv_balanced [OF adv]]
    have drain: "\<not> a_drain (c_att c a)"
      using coord_okD(9) [OF ok, of a] ph by (simp_all add: att_ok_def)
    have n: "c_attempts c' = c_attempts c" "c_nwaits c' = c_nwaits c" by (simp_all add: c' da f)
    have out: "a_reacquire_outstanding (c_att c' x) = a_reacquire_outstanding (c_att c x)" for x
      by (simp add: c'(9) dc f)
    have "count_list (e_reacquires (c_effects c')) x = 0" for x
      using b(1) [of x] by (simp add: c' f eff no_effects_def dc(11))
    moreover have "count_list (e_answered (c_effects c')) w + of_bool (live c' w) = of_bool (live c w)" for w
      using b(2) [of w] by (simp add: c' ld l0 f eff no_effects_def)
    moreover have "count_list (e_drains (c_effects c')) x + of_bool (a_drain (c_att c' x)) +
        of_bool (a_phase (c_att c' x) \<noteq> Ended) = of_bool (a_drain (c_att c x)) + of_bool (a_phase (c_att c x) \<noteq> Ended)" for x
      using b(3) drain ph by (cases "x = a") (simp_all add: c'(8,9) f eff no_effects_def dc)
    moreover have "a_stopping (c_att c' x) \<longleftrightarrow> x = a \<or> a_stopping (c_att c x)" for x
      by (simp add: c'(9) dc f)
    moreover have "a_stop (c_att c' x) = a_stop (c_att c x)" "a_doomed (c_att c' x) = a_doomed (c_att c x)" for x
      by (simp_all add: c'(9) dc f)
    moreover have "w_state (c_wait c w) = Done \<Longrightarrow> c_wait c' w = c_wait c w" for w
      using adv_done [OF adv, of w] by (simp add: c' f)
    ultimately show ?thesis unfolding owes_def out n using same(5) by simp
  qed
  moreover have "settles c c'" by (simp add: settles_def same c'(4) da f)
  ultimately show ?thesis by (simp add: c'_def)
qed

section \<open>A permit taken back, or not\<close>

lemma rest_ok_cong:
  assumes "rest_ok c" and "wait_graph c' \<subseteq> wait_graph c" and "\<And>v. blocked c' v \<Longrightarrow> blocked c v"
    and "c_attempts c' = c_attempts c" "c_running c' = c_running c"
    and "\<And>v. w_target (c_wait c' v) = w_target (c_wait c v)" "\<And>v. w_requester (c_wait c' v) = w_requester (c_wait c v)"
    and "\<And>b. a_phase (c_att c' b) = a_phase (c_att c b)" "\<And>b. a_output (c_att c' b) = a_output (c_att c b)"
    and "\<And>b. a_hurried (c_att c' b) = a_hurried (c_att c b)" "\<And>b. a_result (c_att c' b) = a_result (c_att c b)"
    and "\<And>b. a_predecessor (c_att c' b) = a_predecessor (c_att c b)"
  shows "rest_ok c'"
proof -
  have "acyclic (wait_graph c')" using assms(1,2) by (auto simp: rest_ok_def intro: acyclic_subset)
  moreover have "hurry_ok c'"
    using assms(1-3) unfolding rest_ok_def hurry_ok_def assms(6,7,10) by blast
  moreover have "result_ok c'"
    using assms(1,3) unfolding rest_ok_def result_ok_def assms(6,11) by blast
  moreover have "running_ok c'" using assms(1) by (simp add: rest_ok_def running_ok_def assms(4,5,8,9))
  moreover have "fresh_ok c'" using assms(1) by (simp add: rest_ok_def fresh_ok_def assms(4,8,10,12))
  ultimately show ?thesis by (simp add: rest_ok_def)
qed

definition answer_ready :: "aid \<Rightarrow> bool \<Rightarrow> rid \<Rightarrow> coord \<Rightarrow> coord" where
  "answer_ready a granted w c =
     (if w_state (c_wait c w) = Ready
      then answer c w (if granted \<and> \<not> a_stopping (c_att c a) then w_result (c_wait c w) else Operation_canceled)
      else c)"

lemma answer_ready_ok:
  assumes "links_ok c" and "live c w"
  shows "links_ok (answer_ready a g w c) \<and> adv c (answer_ready a g w c) \<and> same_core c (answer_ready a g w c)"
  using assms answer_links [OF assms] answer_adv [OF assms(2)] answer_core by (simp add: answer_ready_def)

lemma fold_answer_ready:
  assumes "links_ok c" and "distinct ws" and "\<And>w. w \<in> set ws \<Longrightarrow> live c w"
  shows "links_ok (fold (answer_ready a g) ws c) \<and> adv c (fold (answer_ready a g) ws c) \<and>
    same_core c (fold (answer_ready a g) ws c) \<and>
    (\<forall>v. c_wait (fold (answer_ready a g) ws c) v =
      (if v \<in> set ws \<and> w_state (c_wait c v) = Ready
       then (c_wait c v)\<lparr>w_result := (if g \<and> \<not> a_stopping (c_att c a) then w_result (c_wait c v) else Operation_canceled),
              w_state := Done\<rparr> else c_wait c v))"
  using assms
proof (induction ws arbitrary: c)
  case Nil
  then show ?case by simp
next
  case (Cons w ws)
  let ?d = "answer_ready a g w c"
  have w: "live c w" using Cons.prems by simp
  note d = answer_ready_ok [OF Cons.prems(1) w, of a g]
  have dw: "c_wait ?d v = (if v = w \<and> w_state (c_wait c v) = Ready
       then (c_wait c v)\<lparr>w_result := (if g \<and> \<not> a_stopping (c_att c a) then w_result (c_wait c v) else Operation_canceled),
              w_state := Done\<rparr> else c_wait c v)" for v
    by (cases "v = w") (auto simp: answer_ready_def answer_fields set_wait_def)
  have n: "c_nwaits ?d = c_nwaits c" using d by (simp add: advD)
  have "live ?d v" if "v \<in> set ws" for v
  proof -
    have "v \<noteq> w" "live c v" using that Cons.prems by auto
    then show ?thesis by (simp add: live_def dw n)
  qed
  moreover have "a_stopping (c_att ?d a) = a_stopping (c_att c a)" using d by (simp add: same_coreD)
  ultimately show ?case
    using Cons.IH [of ?d] d Cons.prems(2) dw by (auto intro: adv_trans same_core_trans)
qed

lemma on_reacquired_eq:
  "on_reacquired c a g =
     (let c = upd c a (\<lambda>x. x\<lparr>a_reacquire_outstanding := False, a_permit := (if g then Held else Released)\<rparr>);
          c = fold (answer_ready a g) (a_waits_by_me (c_att c a)) c;
          c = give_back_if_waiting c a
      in if a_drain (c_att c a)
         then eff (upd c a (\<lambda>x. x\<lparr>a_drain := False\<rparr>)) (\<lambda>e. e\<lparr>e_drains := e_drains e @ [a]\<rparr>)
         else c)"
  unfolding on_reacquired_def answer_ready_def ..

lemma give_back_if_waiting_ok:
  assumes "links_ok c"
  shows "links_ok (give_back_if_waiting c a)" and "adv c (give_back_if_waiting c a)"
    and "c_wait (give_back_if_waiting c a) = c_wait c"
    and "c_att (give_back_if_waiting c a) b =
      (if b = a \<and> a_permit (c_att c a) = Held \<and> \<not> a_stopping (c_att c a) \<and>
          (\<exists>w. blocked c w \<and> w_requester (c_wait c w) = Some a)
       then (c_att c a)\<lparr>a_permit := Released\<rparr> else c_att c b)"
    and "c_effects (give_back_if_waiting c a) = c_effects c"
proof -
  have "(\<exists>w \<in> set (a_waits_by_me (c_att c a)). w_state (c_wait c w) = Blocked) \<longleftrightarrow>
      (\<exists>w. blocked c w \<and> w_requester (c_wait c w) = Some a)"
    using links_okD(2) [OF assms, of a] by (auto simp: by_me_listed_def blocked_def live_def)
  note eq = give_back_if_waiting_def [of c a, unfolded this]
  show "links_ok (give_back_if_waiting c a)" "adv c (give_back_if_waiting c a)"
    "c_wait (give_back_if_waiting c a) = c_wait c" "c_effects (give_back_if_waiting c a) = c_effects c"
    using give_back_links [OF assms] give_back_adv assms by (simp_all add: give_back_if_waiting_def)
  show "c_att (give_back_if_waiting c a) b =
      (if b = a \<and> a_permit (c_att c a) = Held \<and> \<not> a_stopping (c_att c a) \<and>
          (\<exists>w. blocked c w \<and> w_requester (c_wait c w) = Some a)
       then (c_att c a)\<lparr>a_permit := Released\<rparr> else c_att c b)"
    unfolding eq by simp
qed

text \<open>
  The state after a take-back ended: of the waits of \<open>a\<close> those that were ready are answered,
  and if some are left its permit is not held.
\<close>

lemma core_over:
  "core x = core y \<Longrightarrow> core (x\<lparr>a_permit := p\<rparr>) = core (y\<lparr>a_permit := p\<rparr>)"
  "core x = core y \<Longrightarrow> core (x\<lparr>a_drain := q\<rparr>) = core (y\<lparr>a_drain := q\<rparr>)"
  by (cases x; cases y; simp add: core_def)+

lemma on_reacquired_state:
  fixes g :: bool
  assumes ok: "coord_ok c" and eff: "c_effects c = no_effects"
    and a: "a < c_attempts c" and out: "a_reacquire_outstanding (c_att c a)"
  defines "c' \<equiv> on_reacquired c a g"
  defines "keeps \<equiv> g \<and> (a_stopping (c_att c a) \<or> \<not> (\<exists>w. blocked c w \<and> w_requester (c_wait c w) = Some a))"
  shows "links_ok c' \<and> c_attempts c' = c_attempts c \<and> c_nwaits c' = c_nwaits c \<and> c_running c' = c_running c \<and>
    (\<forall>b. b \<noteq> a \<longrightarrow> core (c_att c' b) = core (c_att c b)) \<and>
    core (c_att c' a) = core ((c_att c a)\<lparr>a_reacquire_outstanding := False,
      a_permit := (if keeps then Held else Released), a_drain := False\<rparr>) \<and>
    (\<forall>v. c_wait c' v =
      (if live c v \<and> w_requester (c_wait c v) = Some a \<and> w_state (c_wait c v) = Ready
       then (c_wait c v)\<lparr>w_result := (if g \<and> \<not> a_stopping (c_att c a) then w_result (c_wait c v) else Operation_canceled),
              w_state := Done\<rparr> else c_wait c v)) \<and>
    (\<forall>x. count_list (e_reacquires (c_effects c')) x = 0) \<and>
    (\<forall>w. count_list (e_answered (c_effects c')) w + of_bool (live c' w) = of_bool (live c w)) \<and>
    e_drains (c_effects c') = (if a_drain (c_att c a) then [a] else [])"
proof -
  define c0 where "c0 = upd c a (\<lambda>x. x\<lparr>a_reacquire_outstanding := False, a_permit := (if g then Held else Released)\<rparr>)"
  define d where "d = fold (answer_ready a g) (a_waits_by_me (c_att c0 a)) c0"
  define e where "e = give_back_if_waiting d a"
  have f: "c_wait c0 = c_wait c" "c_nwaits c0 = c_nwaits c" "c_waits c0 = c_waits c" "c_attempts c0 = c_attempts c"
    "c_running c0 = c_running c" "c_effects c0 = no_effects"
    "\<And>b. c_att c0 b = (if b = a then (c_att c a)\<lparr>a_reacquire_outstanding := False, a_permit := (if g then Held else Released)\<rparr>
       else c_att c b)"
    by (simp_all add: c0_def eff)
  have l0: "live c0 = live c" by (rule live_same) (simp_all add: f)
  have L0: "links_ok c0" by (rule links_ok_upd [OF coord_okD(8) [OF ok]]) (simp_all add: f)
  let ?ws = "a_waits_by_me (c_att c0 a)"
  have ws: "distinct ?ws" "v \<in> set ?ws \<longleftrightarrow> live c v \<and> w_requester (c_wait c v) = Some a" for v
    using links_okD(2) [OF coord_okD(8) [OF ok], of a] by (simp_all add: by_me_listed_def f)
  have lw: "live c0 v" if "v \<in> set ?ws" for v using that by (simp add: ws(2) l0)
  have d: "links_ok d" "adv c0 d" "same_core c0 d"
    "c_wait d v = (if live c v \<and> w_requester (c_wait c v) = Some a \<and> w_state (c_wait c v) = Ready
       then (c_wait c v)\<lparr>w_result := (if g \<and> \<not> a_stopping (c_att c a) then w_result (c_wait c v) else Operation_canceled),
              w_state := Done\<rparr> else c_wait c v)" for v
    using fold_answer_ready [OF L0 ws(1) lw, of a g] unfolding d_def [symmetric] ws(2) by (simp_all add: f)
  note dc = same_coreD [OF d(3)]
  have bd: "blocked d v \<longleftrightarrow> blocked c v" and rd: "w_requester (c_wait d v) = w_requester (c_wait c v)" for v
    by (auto simp: blocked_def d(4) advD [OF d(2)] f)
  note e = give_back_if_waiting_ok [OF d(1), of a, folded e_def]
  have ade: "adv c0 e" using d(2) e(2) by (rule adv_trans)
  note b = balancedD [OF adv_balanced [OF ade]] and ae = advD [OF ade]
  have c': "c' = (if a_drain (c_att e a)
         then eff (upd e a (\<lambda>x. x\<lparr>a_drain := False\<rparr>)) (\<lambda>e. e\<lparr>e_drains := e_drains e @ [a]\<rparr>)
         else e)"
    by (simp add: c'_def on_reacquired_eq e_def d_def c0_def Let_def)
  have drain: "a_drain (c_att e a) = a_drain (c_att c a)" by (simp add: ae f)
  have cf: "c_wait c' = c_wait e" "c_nwaits c' = c_nwaits e" "c_attempts c' = c_attempts e" "c_waits c' = c_waits e"
    "c_running c' = c_running e" "e_reacquires (c_effects c') = e_reacquires (c_effects e)"
    "e_answered (c_effects c') = e_answered (c_effects e)"
    "e_drains (c_effects c') = e_drains (c_effects e) @ (if a_drain (c_att c a) then [a] else [])"
    "\<And>x. c_att c' x = (if x = a \<and> a_drain (c_att c a) then (c_att e a)\<lparr>a_drain := False\<rparr> else c_att e x)"
    unfolding c' drain by simp_all
  have "links_ok c'" by (rule links_ok_upd [OF e(1)]) (simp_all add: cf)
  moreover have "c_attempts c' = c_attempts c" "c_nwaits c' = c_nwaits c" "c_running c' = c_running c"
    by (simp_all add: cf ae f)
  moreover have "core (c_att c' x) = core (c_att c x)" if "x \<noteq> a" for x
    using that d(3) by (simp add: cf e(4) same_core_def f)
  moreover have "core (c_att c' a) = core ((c_att c a)\<lparr>a_reacquire_outstanding := False,
      a_permit := (if keeps then Held else Released), a_drain := False\<rparr>)"
  proof -
    let ?x = "c_att d a" and ?y = "c_att c0 a"
    have core: "core ?x = core ?y" using d(3) by (simp add: same_core_def)
    have keep: "a_permit ?x = Held \<and> \<not> a_stopping ?x \<and> (\<exists>w. blocked d w \<and> w_requester (c_wait d w) = Some a) \<longleftrightarrow>
        g \<and> \<not> keeps"
      unfolding bd rd by (auto simp: dc f keeps_def)
    have "c_att e a = (if g \<and> \<not> keeps then ?x\<lparr>a_permit := Released\<rparr> else ?x)"
      unfolding e(4) keep by simp
    moreover have "c_att c' a = (if a_drain (c_att c a) then (c_att e a)\<lparr>a_drain := False\<rparr> else c_att e a)"
      by (simp add: cf)
    ultimately have "core (c_att c' a) = core ((if g \<and> \<not> keeps then ?y\<lparr>a_permit := Released\<rparr> else ?y)
        \<lparr>a_drain := (if a_drain (c_att c a) then False else a_drain ?y)\<rparr>)"
      using core_over [OF core] core_over(2) [OF core_over(1) [OF core]] core by simp
    moreover have "keeps \<Longrightarrow> g" by (simp add: keeps_def)
    ultimately show ?thesis by (auto simp: f)
  qed
  moreover have "c_wait c' v = (if live c v \<and> w_requester (c_wait c v) = Some a \<and> w_state (c_wait c v) = Ready
       then (c_wait c v)\<lparr>w_result := (if g \<and> \<not> a_stopping (c_att c a) then w_result (c_wait c v) else Operation_canceled),
              w_state := Done\<rparr> else c_wait c v)" for v
    unfolding cf(1) e(3) by (rule d(4))
  moreover have "count_list (e_reacquires (c_effects c')) x = 0" for x
  proof -
    have "a_reacquire_outstanding (c_att e x) = a_reacquire_outstanding (c_att c0 x)"
      by (simp add: e(4) dc)
    with b(1) [of x] show ?thesis by (simp add: cf f no_effects_def)
  qed
  moreover have "live c' = live e" by (rule live_same) (simp_all add: cf)
  then have "count_list (e_answered (c_effects c')) w + of_bool (live c' w) = of_bool (live c w)" for w
    using b(2) [of w] by (simp add: cf l0 f no_effects_def)
  moreover have "e_drains (c_effects c') = (if a_drain (c_att c a) then [a] else [])"
    using b(3) by (simp add: cf f no_effects_def)
  ultimately show ?thesis by blast
qed

lemma on_reacquired_ok:
  assumes ok: "coord_ok c" and eff: "c_effects c = no_effects"
    and a: "a < c_attempts c" and out: "a_reacquire_outstanding (c_att c a)"
  shows "coord_ok (on_reacquired c a g) \<and> owes (Some a) c (on_reacquired c a g)"
proof -
  define c' where "c' = on_reacquired c a g"
  define keeps where "keeps \<longleftrightarrow> g \<and> (a_stopping (c_att c a) \<or> \<not> (\<exists>w. blocked c w \<and> w_requester (c_wait c w) = Some a))"
  note S = on_reacquired_state [OF ok eff a out, of g, folded c'_def keeps_def]
  have L: "links_ok c'" and n: "c_attempts c' = c_attempts c" "c_nwaits c' = c_nwaits c" "c_running c' = c_running c"
    and w: "c_wait c' v =
      (if live c v \<and> w_requester (c_wait c v) = Some a \<and> w_state (c_wait c v) = Ready
       then (c_wait c v)\<lparr>w_result := (if g \<and> \<not> a_stopping (c_att c a) then w_result (c_wait c v) else Operation_canceled),
              w_state := Done\<rparr> else c_wait c v)" for v
    using S by blast+
  note ca = core_fields [OF S [THEN conjunct2, THEN conjunct2, THEN conjunct2, THEN conjunct2, THEN conjunct2, THEN conjunct1]]
  have others: "core (c_att c' b) = core (c_att c b)" if "b \<noteq> a" for b using S that by blast
  note cb = core_fields [OF others]
  have same: "a_phase (c_att c' b) = a_phase (c_att c b)" "a_output (c_att c' b) = a_output (c_att c b)"
    "a_hurried (c_att c' b) = a_hurried (c_att c b)" "a_result (c_att c' b) = a_result (c_att c b)"
    "a_predecessor (c_att c' b) = a_predecessor (c_att c b)" "a_stopping (c_att c' b) = a_stopping (c_att c b)"
    "a_doomed (c_att c' b) = a_doomed (c_att c b)" "a_stop (c_att c' b) = a_stop (c_att c b)" for b
    by (cases "b = a"; simp add: ca cb)+
  have lv: "live c' v \<Longrightarrow> live c v \<and> c_wait c' v = c_wait c v \<and>
      \<not> (w_requester (c_wait c v) = Some a \<and> w_state (c_wait c v) = Ready)" for v
    using w [of v] by (auto simp: live_def n split: if_splits)
  have bl: "blocked c' v \<Longrightarrow> blocked c v" for v
    using lv [OF blocked_live, of v] by (auto simp: blocked_def n)
  have g: "wait_graph c' \<subseteq> wait_graph c"
  proof (rule subrelI)
    fix x y assume "(x, y) \<in> wait_graph c'"
    moreover have "blocked_on c' x y \<subseteq> blocked_on c x y"
      using bl lv [OF blocked_live] by (fastforce simp: blocked_on_def)
    ultimately show "(x, y) \<in> wait_graph c"
      unfolding wait_graph_iff [OF L] wait_graph_iff [OF coord_okD(8) [OF ok]] same by auto
  qed
  have att: "att_ok (c_att c' b)" for b
  proof (cases "b = a")
    case True
    with coord_okD(9) [OF ok, of a] out show ?thesis by (auto simp: att_ok_def ca)
  next
    case False
    with coord_okD(9) [OF ok, of b] show ?thesis by (simp add: att_ok_def cb)
  qed
  have waits: "wait_ok c' v" for v
  proof (cases "live c' v")
    case False
    then show ?thesis by (simp add: wait_ok_def)
  next
    case True
    note v = lv [OF True]
    show ?thesis
    proof (cases "w_requester (c_wait c v)")
      case None
      with coord_okD(10) [OF ok, of v] v n show ?thesis by (simp add: wait_ok_def)
    next
      case (Some b)
      show ?thesis
      proof (cases "b = a")
        case False
        with Some coord_okD(10) [OF ok, of v] v n show ?thesis by (simp add: wait_ok_def cb)
      next
        case True
        with v Some have "w_state (c_wait c v) = Blocked"
          by (cases "w_state (c_wait c v)") (auto simp: live_def)
        moreover from this v have "blocked c v" by (simp add: blocked_def live_def)
        moreover have "\<not> a_stopping (c_att c a)"
          using coord_okD(10) [OF ok, of v] v Some True by (simp add: wait_ok_def)
        ultimately have "\<not> keeps" using Some True by (auto simp: keeps_def)
        with Some True coord_okD(10) [OF ok, of v] v n \<open>w_state (c_wait c v) = Blocked\<close>
        show ?thesis by (simp add: wait_ok_def ca)
      qed
    qed
  qed
  have "w_target (c_wait c' v) = w_target (c_wait c v)" "w_requester (c_wait c' v) = w_requester (c_wait c v)" for v
    by (simp_all add: w)
  then have "rest_ok c'"
    by (intro rest_ok_cong [OF coord_okD(2) [OF ok] g bl]) (simp_all add: n same)
  then have "coord_ok c'" using L att waits by (simp add: coord_ok_def table_ok_def)
  moreover have "owes (Some a) c c'"
  proof -
    have "count_list (e_reacquires (c_effects c')) x + of_bool (a_reacquire_outstanding (c_att c x)) =
        of_bool (a_reacquire_outstanding (c_att c' x)) + of_bool (Some a = Some x)" for x
      using S out by (cases "x = a") (simp_all add: ca cb)
    moreover have "count_list (e_answered (c_effects c')) w + of_bool (live c' w) = of_bool (live c w)" for w
      using S by blast
    moreover have "count_list (e_drains (c_effects c')) x + of_bool (a_drain (c_att c' x)) =
        of_bool (a_drain (c_att c x))" for x
      using S by (cases "x = a") (simp_all add: ca cb)
    moreover have "w_state (c_wait c v) = Done \<Longrightarrow> c_wait c' v = c_wait c v" for v
      using w [of v] by (auto simp: live_def)
    ultimately show ?thesis unfolding owes_def n same by simp
  qed
  ultimately show ?thesis by (simp add: c'_def)
qed

section \<open>Cancelling a request, completing an attempt\<close>

lemma cancel_wait_ok:
  assumes ok: "coord_ok c" and eff: "c_effects c = no_effects" and w: "w < c_nwaits c"
  shows "coord_ok (cancel_wait c w) \<and> owes None c (cancel_wait c w) \<and> settles c (cancel_wait c w)"
proof (cases "w_state (c_wait c w) = Done")
  case True
  then show ?thesis using ok owes_refl [OF eff] by (simp add: cancel_wait_def)
next
  case False
  with w have lv: "live c w" by (simp add: live_def)
  let ?d = "answer c w Operation_canceled"
  have d: "table_ok ?d" "adv c ?d" using answer_table [OF coord_okD(1) [OF ok] lv] answer_adv [OF lv] by auto
  have "table_ok (cancel_wait c w) \<and> adv c (cancel_wait c w)"
  proof (cases "w_requester (c_wait ?d w)")
    case None
    with False d show ?thesis by (simp add: cancel_wait_def Let_def)
  next
    case (Some a)
    show ?thesis
    proof (cases "\<not> a_stopping (c_att ?d a) \<and> a_waits_by_me (c_att ?d a) = [] \<and> a_permit (c_att ?d a) = Released")
      case True
      then have "table_ok (reacquire ?d a)" "adv ?d (reacquire ?d a)"
        using d reacquire_table reacquire_adv by auto
      with True False Some d show ?thesis
        unfolding cancel_wait_def Let_def by (auto intro: adv_trans)
    next
      case no: False
      have "cancel_wait c w = ?d" using no False Some unfolding cancel_wait_def Let_def by auto
      with d show ?thesis by simp
    qed
  qed
  then show ?thesis using adv_coord_ok [OF ok] adv_owes [OF _ eff] adv_settles by blast
qed

lemma complete_ok:
  assumes ok: "coord_ok c" and eff: "c_effects c = no_effects" and a: "a < c_attempts c"
  shows "coord_ok (complete c a r) \<and> owes None c (complete c a r) \<and> settles c (complete c a r) \<and>
    a_result (c_att (complete c a r) a) = Some r \<and>
    (\<forall>w. w_target (c_wait c w) = a \<longrightarrow> \<not> blocked (complete c a r) w) \<and>
    (\<forall>w. blocked c w \<and> w_target (c_wait c w) = a \<longrightarrow> w_result (c_wait (complete c a r) w) = r) \<and>
    (\<forall>w. \<not> (blocked c w \<and> w_target (c_wait c w) = a) \<longrightarrow> c_wait (complete c a r) w = c_wait c w)"
proof -
  define c0 where "c0 = upd c a (\<lambda>x. x\<lparr>a_result := Some r, a_predecessor := None\<rparr>)"
  define c' where "c' = complete c a r"
  have f: "c_wait c0 = c_wait c" "c_nwaits c0 = c_nwaits c" "c_waits c0 = c_waits c" "c_attempts c0 = c_attempts c"
    "c_running c0 = c_running c" "c_effects c0 = c_effects c"
    "\<And>b. c_att c0 b = (if b = a then (c_att c a)\<lparr>a_result := Some r, a_predecessor := None\<rparr> else c_att c b)"
    by (simp_all add: c0_def)
  have t: "links_ok c0" "acyclic (wait_graph c0)" "hurry_ok c0" "fresh_ok c0" "blocked c0 = blocked c" "live c0 = live c"
    by (rule tweak_ok [OF ok f(1-4), where a = a]; simp add: f a)+
  have "att_ok (c_att c0 b)" for b
    using coord_okD(9) [OF ok, of b] by (cases "b = a") (simp_all add: f att_ok_def)
  moreover have "wait_ok c0 v" for v
    using coord_okD(10) [OF ok, of v] unfolding wait_ok_def t(6) f(1,4)
    by (cases "w_requester (c_wait c v)") (auto simp: f)
  ultimately have table: "table_ok c0" using t by (simp add: table_ok_def)
  let ?ws = "a_waits_on_me (c_att c0 a)"
  have ws: "distinct ?ws" "v \<in> set ?ws \<longleftrightarrow> blocked c v \<and> w_target (c_wait c v) = a" for v
    using links_okD(3) [OF coord_okD(8) [OF ok], of a] by (simp_all add: on_me_listed_def f)
  have bws: "v \<in> set ?ws \<Longrightarrow> blocked c0 v" for v by (simp add: ws(2) t)
  note F = fold_ready [OF table ws(1) bws, of r]
  have eq: "c' = fold (\<lambda>w c. ready c w r) ?ws c0"
    by (simp add: c'_def complete_def c0_def Let_def)
  have c': "table_ok c'" "adv c0 c'" "\<forall>w \<in> set ?ws. \<not> blocked c' w \<and> w_result (c_wait c' w) = r"
    "\<forall>v. v \<notin> set ?ws \<longrightarrow> c_wait c' v = c_wait c0 v"
    using F unfolding eq by blast+
  note ad = advD [OF c'(2)]
  have bl: "blocked c' v \<Longrightarrow> blocked c v \<and> w_target (c_wait c v) \<noteq> a" for v
    using c'(3) ws(2) [of v] adv_blocked [OF c'(2), of v] by (auto simp: t)
  have "wait_graph c' \<subseteq> wait_graph c0" using adv_wait_graph [OF c'(2) t(1)] c'(1) by (simp add: table_ok_def)
  then have g: "acyclic (wait_graph c')" "hurry_ok c'"
    using acyclic_subset [OF t(2)] t(3) adv_blocked [OF c'(2)] unfolding hurry_ok_def ad by blast+
  have "running_ok c'" using coord_okD(3) [OF ok] by (auto simp: running_ok_def ad f)
  moreover have "fresh_ok c'" using t(4) by (simp add: fresh_ok_def ad)
  moreover have "result_ok c'"
    unfolding result_ok_def
  proof (intro allI impI)
    fix v assume "blocked c' v"
    from bl [OF this] coord_okD(6) [OF ok] show "a_result (c_att c' (w_target (c_wait c' v))) = None"
      by (simp add: ad f result_ok_def)
  qed
  ultimately have "coord_ok c'" using c'(1) g by (simp add: coord_ok_def rest_ok_def)
  moreover have "quiet c c0" by (simp add: quiet_def f)
  then have "owes None c c'"
    by (rule quiet_owes) (rule adv_owes [OF c'(2)], simp add: f eff)
  moreover have "settles c c'" by (simp add: settles_def ad f)
  moreover have "a_result (c_att c' a) = Some r" by (simp add: ad f)
  moreover have "\<forall>w. w_target (c_wait c w) = a \<longrightarrow> \<not> blocked c' w" using bl by blast
  moreover have "\<forall>w. blocked c w \<and> w_target (c_wait c w) = a \<longrightarrow> w_result (c_wait c' w) = r"
    using c'(3) ws(2) by simp
  moreover have "\<forall>w. \<not> (blocked c w \<and> w_target (c_wait c w) = a) \<longrightarrow> c_wait c' w = c_wait c w"
    using c'(4) ws(2) f(1) by simp
  ultimately show ?thesis unfolding c'_def by (intro conjI)
qed

end
