(* ===== verification/Coordinator_Waits.thy ===== *)
theory Coordinator_Waits
  imports Coordinator_Sections
begin

text \<open>
  The first section of \<^verbatim>\<open>Impl::wait\<close>: a request is answered at once, refused because it
  would close a cycle, or entered as a wait.
\<close>

section \<open>Entering a wait\<close>

lemma link_fields:
  assumes "d = snd (link c t req)"
  shows "fst (link c t req) = c_nwaits c"
    and "c_attempts d = c_attempts c" "c_running d = c_running c" "c_effects d = c_effects c"
    and "c_nwaits d = Suc (c_nwaits c)" "c_waits d = c_waits c @ [c_nwaits c]"
    and "c_wait d = (c_wait c)(c_nwaits c := \<lparr>w_target = t, w_requester = req, w_state = Blocked, w_result = No_error\<rparr>)"
    and "core (c_att d b) = core (c_att c b)"
    and "a_waits_on_me (c_att d b) = a_waits_on_me (c_att c b) @ (if b = t then [c_nwaits c] else [])"
    and "a_waits_by_me (c_att d b) = a_waits_by_me (c_att c b) @ (if req = Some b then [c_nwaits c] else [])"
    and "a_edges_out (c_att d b) =
      (if req = Some b then a_edges_out (c_att (add_edge c b t) b) else a_edges_out (c_att c b))"
  using assms by (auto simp: link_def Let_def add_edge_def edge_count_def fun_eq_iff core_def split: option.splits)

lemma link_blocked:
  assumes "d = snd (link c t req)"
  shows "blocked d v \<longleftrightarrow> blocked c v \<or> v = c_nwaits c" and "live d v \<longleftrightarrow> live c v \<or> v = c_nwaits c"
    and "v \<noteq> c_nwaits c \<Longrightarrow> c_wait d v = c_wait c v"
    and "blocked_on d a b = blocked_on c a b \<union> (if req = Some a \<and> b = t then {c_nwaits c} else {})"
  by (auto simp: blocked_def live_def blocked_on_def link_fields [OF assms])

lemma not_live_next: "\<not> live c (c_nwaits c)" "\<not> blocked c (c_nwaits c)" "c_nwaits c \<notin> blocked_on c a b"
  by (simp_all add: live_def blocked_def blocked_on_def)

lemma link_links:
  assumes ok: "links_ok c" and d: "d = snd (link c t req)"
  shows "links_ok d"
  unfolding links_ok_def
proof (intro conjI allI)
  note f = link_fields [OF d] and b = link_blocked [OF d] and L = links_okD [OF ok]
  let ?n = "c_nwaits c"
  show "waits_listed d"
    using L(1) not_live_next(1) [of c] by (auto simp: waits_listed_def f b)
  fix a
  have "{v. live d v \<and> w_requester (c_wait d v) = Some a} =
      {v. live c v \<and> w_requester (c_wait c v) = Some a} \<union> (if req = Some a then {?n} else {})"
    using not_live_next(1) [of c] by (auto simp: b f)
  then show "by_me_listed d a"
    using L(2) [of a] not_live_next(1) [of c] by (simp add: by_me_listed_def f)
  have "{v. blocked d v \<and> w_target (c_wait d v) = a} =
      {v. blocked c v \<and> w_target (c_wait c v) = a} \<union> (if a = t then {?n} else {})"
    using not_live_next(2) [of c] by (auto simp: b f)
  then show "on_me_listed d a"
    using L(3) [of a] not_live_next(2) [of c] by (simp add: on_me_listed_def f)
  show "edges_counted d a"
  proof (cases "req = Some a")
    case True
    then show ?thesis
      by (intro edges_counted_add [OF L(4), where b = t, OF not_live_next(3)]) (simp_all add: f b)
  next
    case False
    then show ?thesis by (intro edges_counted_same [OF L(4)]) (simp_all add: f b)
  qed
qed

lemma link_graph:
  assumes ok: "links_ok c" and d: "d = snd (link c t req)"
  shows "wait_graph d = wait_graph c \<union> (case req of None \<Rightarrow> {} | Some a \<Rightarrow> {(a, t)})"
proof -
  have "(x, y) \<in> wait_graph d \<longleftrightarrow> (x, y) \<in> wait_graph c \<or> req = Some x \<and> y = t" for x y
    unfolding wait_graph_iff [OF ok] wait_graph_iff [OF link_links [OF ok d]]
    by (auto simp: link_blocked [OF d] core_fields [OF link_fields(8) [OF d]])
  then show ?thesis by (auto split: option.splits)
qed

text \<open>
  The whole of it: entered, the target hurried if the request is from outside or from a hurried
  attempt, and the permit of the attempt that asks given back.
\<close>

definition enter_wait :: "coord \<Rightarrow> aid \<Rightarrow> aid option \<Rightarrow> coord" where
  "enter_wait c t req =
     (let d = snd (link c t req);
          h = (if (case req of None \<Rightarrow> True | Some a \<Rightarrow> a_hurried (c_att d a)) then hurry d t else d)
      in case req of None \<Rightarrow> h | Some a \<Rightarrow> block h a)"

lemma hurried_step:
  assumes valid: "graph_valid d" and t: "t < c_attempts d"
    and h: "h = (if q then hurry d t else d)"
  shows "same_but_hurried d h"
    and "a_hurried (c_att d x) \<Longrightarrow> a_hurried (c_att h x)"
    and "q \<Longrightarrow> a_hurried (c_att h t)"
    and "a_hurried (c_att h x) \<Longrightarrow> \<not> a_hurried (c_att d x) \<Longrightarrow> (x, y) \<in> wait_graph d \<Longrightarrow> a_hurried (c_att h y)"
    and "a_hurried (c_att h x) \<Longrightarrow> a_hurried (c_att d x) \<or> x < c_attempts d"
proof -
  note H = hurry_correct [OF valid t]
  show "same_but_hurried d h" using H(1) by (simp add: h same_but_hurried_refl)
  show "a_hurried (c_att d x) \<Longrightarrow> a_hurried (c_att h x)" using H(2) by (simp add: h)
  show "q \<Longrightarrow> a_hurried (c_att h t)" using H(3) by (simp add: h)
  show "a_hurried (c_att h x) \<Longrightarrow> \<not> a_hurried (c_att d x) \<Longrightarrow> (x, y) \<in> wait_graph d \<Longrightarrow> a_hurried (c_att h y)"
    using H(4) [of x y] by (simp add: h wait_graph_def split: if_splits)
  assume x: "a_hurried (c_att h x)"
  show "a_hurried (c_att d x) \<or> x < c_attempts d"
  proof (cases "a_hurried (c_att d x)")
    case False
    with x have "(t, x) \<in> (wait_graph d)\<^sup>*" using H(5) [of x] by (simp add: h split: if_splits)
    then show ?thesis
      using t valid by (cases rule: rtranclE) (auto simp: graph_valid_def wait_graph_def)
  qed simp
qed

lemma enter_wait_ok:
  assumes ok: "coord_ok c" and eff: "c_effects c = no_effects"
    and t: "t < c_attempts c" "a_result (c_att c t) = None"
    and req: "\<And>a. req = Some a \<Longrightarrow> a < c_attempts c \<and> a_phase (c_att c a) = Running \<and> \<not> a_stopping (c_att c a) \<and>
      (t, a) \<notin> (wait_graph c)\<^sup>*"
  shows "coord_ok (enter_wait c t req) \<and> owes None c (enter_wait c t req) \<and> settles c (enter_wait c t req)"
proof -
  define d where "d = snd (link c t req)"
  define q where "q \<longleftrightarrow> (case req of None \<Rightarrow> True | Some a \<Rightarrow> a_hurried (c_att d a))"
  define h where "h = (if q then hurry d t else d)"
  define e where "e = enter_wait c t req"
  note f = link_fields [OF d_def] and b = link_blocked [OF d_def]
  note fc = core_fields [OF f(8)]
  have Ld: "links_ok d" by (rule link_links [OF coord_okD(8) [OF ok] d_def])
  have gd: "wait_graph d = wait_graph c \<union> (case req of None \<Rightarrow> {} | Some a \<Rightarrow> {(a, t)})"
    by (rule link_graph [OF coord_okD(8) [OF ok] d_def])
  have valid: "graph_valid d"
    using coord_graph_valid [OF ok] t(1) gd
    by (fastforce simp: graph_valid_def wait_graph_def f set_eq_iff split: option.splits)
  have td: "t < c_attempts d" using t by (simp add: f)
  note H = hurried_step [OF valid td h_def]
  note s = same_but_hurried_fields [OF H(1)]
  define held where "held \<longleftrightarrow> (\<exists>a. req = Some a \<and> a_permit (c_att c a) = Held)"
  have eq: "e = (case req of None \<Rightarrow> h | Some a \<Rightarrow> block h a)"
    unfolding e_def enter_wait_def Let_def d_def [symmetric] q_def [symmetric] h_def [symmetric] ..
  have perm: "a_permit (c_att h x) = a_permit (c_att c x)" for x
    by (subst s(8)) (simp add: fc)
  have ef: "c_wait e = c_wait d" "c_nwaits e = c_nwaits d" "c_waits e = c_waits d" "c_attempts e = c_attempts d"
    "c_running e = c_running d" "c_effects e = c_effects d"
    unfolding eq by (simp_all add: block_def s(1-6) split: option.splits)
  have ea: "c_att e x = (c_att d x)\<lparr>a_hurried := a_hurried (c_att h x),
      a_permit := (if req = Some x \<and> a_permit (c_att c x) = Held then Released else a_permit (c_att c x))\<rparr>" for x
  proof -
    have hx: "c_att h x = (c_att d x)\<lparr>a_hurried := a_hurried (c_att h x)\<rparr>" by (rule s(8))
    have hp: "(c_att d x)\<lparr>a_hurried := u, a_permit := a_permit (c_att c x)\<rparr> = (c_att d x)\<lparr>a_hurried := u\<rparr>" for u
      using fc(3) [of x] by (cases "c_att d x") simp
    show ?thesis
      unfolding eq block_def
      by (cases req) (auto simp: perm hp hx [symmetric] intro: trans [OF arg_cong [OF hx, of "\<lambda>y. y\<lparr>a_permit := Released\<rparr>"]])
  qed
  have same: "a_phase (c_att e x) = a_phase (c_att c x)" "a_output (c_att e x) = a_output (c_att c x)"
    "a_stopping (c_att e x) = a_stopping (c_att c x)" "a_result (c_att e x) = a_result (c_att c x)"
    "a_predecessor (c_att e x) = a_predecessor (c_att c x)" "a_doomed (c_att e x) = a_doomed (c_att c x)"
    "a_reacquire_outstanding (c_att e x) = a_reacquire_outstanding (c_att c x)"
    "a_drain (c_att e x) = a_drain (c_att c x)" "a_stop (c_att e x) = a_stop (c_att c x)"
    "a_lease (c_att e x) = a_lease (c_att c x)" "a_reacquire (c_att e x) = a_reacquire (c_att c x)"
    "a_hurried (c_att e x) = a_hurried (c_att h x)"
    "a_permit (c_att e x) = (if req = Some x \<and> a_permit (c_att c x) = Held then Released else a_permit (c_att c x))" for x
    by (simp_all add: ea fc)
  have le: "live e = live d" by (rule live_same) (simp_all add: ef)
  have be: "blocked e = blocked d" by (simp add: blocked_def fun_eq_iff ef)
  have Le: "links_ok e" by (rule links_ok_upd [OF Ld]) (simp_all add: ef ea)
  have ge: "wait_graph e = wait_graph d"
  proof -
    have "blocked_on e = blocked_on d" by (simp add: blocked_on_def be ef fun_eq_iff)
    then show ?thesis
      by (auto simp: wait_graph_iff [OF Le] wait_graph_iff [OF Ld] same fc)
  qed
  have att: "att_ok (c_att e x)" for x
  proof (cases "req = Some x \<and> a_permit (c_att c x) = Held")
    case True
    with coord_okD(9) [OF ok, of x] show ?thesis unfolding att_ok_def same by simp
  next
    case False
    then have "a_permit (c_att e x) = a_permit (c_att c x)" unfolding same by (rule if_not_P)
    with coord_okD(9) [OF ok, of x] show ?thesis unfolding att_ok_def same(1-12) by simp
  qed
  have waits: "wait_ok e v" for v
  proof (cases "v = c_nwaits c")
    case True
    have "c_wait e v = \<lparr>w_target = t, w_requester = req, w_state = Blocked, w_result = No_error\<rparr>"
      by (simp add: ef f True)
    then show ?thesis using t req by (cases req) (simp_all add: wait_ok_def ef f same)
  next
    case False
    then have v: "c_wait e v = c_wait c v" "live e v = live c v" by (simp_all add: ef b le)
    with coord_okD(10) [OF ok, of v] show ?thesis
      unfolding wait_ok_def v same ef(4) f(2) by (cases "w_requester (c_wait c v)") auto
  qed
  have "acyclic (wait_graph e)"
  proof (cases req)
    case None
    with coord_okD(4) [OF ok] show ?thesis by (simp add: ge gd)
  next
    case (Some a)
    with req coord_okD(4) [OF ok] show ?thesis by (simp add: ge gd acyclic_insert)
  qed
  moreover have "running_ok e"
    using coord_okD(3) [OF ok] unfolding running_ok_def same ef f .
  moreover have "hurry_ok e"
    unfolding hurry_ok_def same ge
  proof (intro conjI allI impI)
    fix x y assume g: "(x, y) \<in> wait_graph d" and x: "a_hurried (c_att h x)"
    show "a_hurried (c_att h y)"
    proof (cases "a_hurried (c_att d x)")
      case False
      with g x show ?thesis using H(4) by blast
    next
      case hx: True
      show ?thesis
      proof (cases "(x, y) \<in> wait_graph c")
        case True
        with coord_okD(5) [OF ok] hx have "a_hurried (c_att d y)" unfolding hurry_ok_def fc by blast
        then show ?thesis by (rule H(2))
      next
        case False
        with g gd have "req = Some x" "y = t" by (auto split: option.splits)
        with hx H(3) show ?thesis by (simp add: q_def)
      qed
    qed
  next
    fix v assume v: "blocked e v" "w_requester (c_wait e v) = None"
    show "a_hurried (c_att h (w_target (c_wait e v)))"
    proof (cases "v = c_nwaits c")
      case True
      with v have "req = None" by (simp add: ef f)
      with True H(3) show ?thesis by (simp add: ef f q_def)
    next
      case False
      with v have "blocked c v" "w_requester (c_wait c v) = None" "c_wait e v = c_wait c v"
        by (simp_all add: be b ef)
      with coord_okD(5) [OF ok] have "a_hurried (c_att d (w_target (c_wait e v)))"
        by (simp add: hurry_ok_def fc)
      then show ?thesis by (rule H(2))
    qed
  qed
  moreover have "result_ok e"
    unfolding result_ok_def same
  proof (intro allI impI)
    fix v assume "blocked e v"
    then show "a_result (c_att c (w_target (c_wait e v))) = None"
      using coord_okD(6) [OF ok] t(2) by (cases "v = c_nwaits c") (simp_all add: be b ef f result_ok_def)
  qed
  moreover have "fresh_ok e"
    unfolding fresh_ok_def same ef f
    using coord_okD(7) [OF ok] H(5) unfolding fresh_ok_def fc f
    by (metis leD)
  ultimately have "coord_ok e" using Le att waits by (simp add: coord_ok_def rest_ok_def table_ok_def)
  moreover have "owes None c e"
    unfolding owes_def same ef f
    using not_live_next(1) [of c] by (auto simp: eff no_effects_def le b less_Suc_eq_le)
  moreover have "settles c e" by (simp add: settles_def same ef f)
  ultimately show ?thesis by (simp add: e_def)
qed

section \<open>Refusing a wait that closes a cycle\<close>

lemma doom_ok:
  assumes ok: "table_ok c"
  shows "table_ok (doom a c) \<and> adv c (doom a c) \<and>
    (a_phase (c_att c a) = Running \<longrightarrow> a_stopping (c_att (doom a c) a)) \<and>
    (a_phase (c_att c a) = Running \<and> \<not> a_stopping (c_att c a) \<longrightarrow>
       a_doomed (c_att (doom a c) a) \<and> a \<in> set (e_stop_attempts (c_effects (doom a c)))) \<and>
    (\<forall>b. b \<noteq> a \<longrightarrow> core (c_att (doom a c) b) = core (c_att c b)) \<and>
    (\<forall>v. w_requester (c_wait c v) \<noteq> Some a \<longrightarrow> c_wait (doom a c) v = c_wait c v)"
proof (cases "a_phase (c_att c a) = Running \<and> \<not> a_stopping (c_att c a)")
  case True
  let ?c1 = "upd c a (\<lambda>x. x\<lparr>a_doomed := True\<rparr>)"
  have "?c1 = upd c a (\<lambda>x. x\<lparr>a_doomed := a_doomed x \<or> True\<rparr>)" by simp
  note S = stop_attempt_gen [OF ok _ this, of] True
  have "doom a c = stop_attempt ?c1 a" using True by (simp add: doom_def)
  with S show ?thesis by auto
next
  case False
  then have "doom a c = c" unfolding doom_def by (rule if_not_P)
  with False ok show ?thesis by auto
qed

lemma fold_doom_ok:
  assumes "table_ok c"
  shows "table_ok (fold doom xs c) \<and> adv c (fold doom xs c) \<and>
    (\<forall>a \<in> set xs. a_phase (c_att c a) = Running \<longrightarrow> a_stopping (c_att (fold doom xs c) a)) \<and>
    (\<forall>a \<in> set xs. a_phase (c_att c a) = Running \<longrightarrow> \<not> a_stopping (c_att c a) \<longrightarrow>
       a_doomed (c_att (fold doom xs c) a) \<and> a \<in> set (e_stop_attempts (c_effects (fold doom xs c)))) \<and>
    (\<forall>b. b \<notin> set xs \<longrightarrow> core (c_att (fold doom xs c) b) = core (c_att c b))"
  using assms
proof (induction xs arbitrary: c)
  case Nil
  then show ?case by simp
next
  case (Cons x xs)
  let ?d = "doom x c"
  let ?e = "fold doom xs ?d"
  have d: "table_ok ?d" "adv c ?d" and other: "\<And>b. b \<noteq> x \<Longrightarrow> core (c_att ?d b) = core (c_att c b)"
    and stop: "a_phase (c_att c x) = Running \<Longrightarrow> a_stopping (c_att ?d x)"
    and doomed: "a_phase (c_att c x) = Running \<Longrightarrow> \<not> a_stopping (c_att c x) \<Longrightarrow>
       a_doomed (c_att ?d x) \<and> x \<in> set (e_stop_attempts (c_effects ?d))"
    using doom_ok [OF Cons.prems, of x] by blast+
  have e: "table_ok ?e" "adv ?d ?e" and eother: "\<And>b. b \<notin> set xs \<Longrightarrow> core (c_att ?e b) = core (c_att ?d b)"
    and estop: "\<And>a. a \<in> set xs \<Longrightarrow> a_phase (c_att ?d a) = Running \<Longrightarrow> a_stopping (c_att ?e a)"
    and edoomed: "\<And>a. a \<in> set xs \<Longrightarrow> a_phase (c_att ?d a) = Running \<Longrightarrow> \<not> a_stopping (c_att ?d a) \<Longrightarrow>
       a_doomed (c_att ?e a) \<and> a \<in> set (e_stop_attempts (c_effects ?e))"
    using Cons.IH [OF d(1)] by blast+
  have mono: "set (e_stop_attempts (c_effects ?d)) \<subseteq> set (e_stop_attempts (c_effects ?e))"
    by (rule balancedD(4) [OF adv_balanced [OF e(2)]])
  show ?case
  proof (intro conjI ballI impI allI)
    show "table_ok (fold doom (x # xs) c)" "adv c (fold doom (x # xs) c)" using d e by (auto intro: adv_trans)
  next
    fix a assume a: "a \<in> set (x # xs)" "a_phase (c_att c a) = Running"
    show "a_stopping (c_att (fold doom (x # xs) c) a)"
    proof (cases "a = x")
      case True
      with stop a adv_stopping [OF e(2)] show ?thesis by simp
    next
      case False
      with estop a advD(5) [OF d(2)] show ?thesis by simp
    qed
    assume n: "\<not> a_stopping (c_att c a)"
    have "a_doomed (c_att ?e a) \<and> a \<in> set (e_stop_attempts (c_effects ?e))"
    proof (cases "a = x")
      case True
      with doomed a n adv_doomed [OF e(2)] mono show ?thesis by blast
    next
      case False
      then have "\<not> a_stopping (c_att ?d a)" using n core_fields(4) [OF other] by blast
      with edoomed a False advD(5) [OF d(2)] show ?thesis by simp
    qed
    then show "a_doomed (c_att (fold doom (x # xs) c) a)"
      "a \<in> set (e_stop_attempts (c_effects (fold doom (x # xs) c)))" by simp_all
  next
    fix b assume "b \<notin> set (x # xs)"
    with other eother show "core (c_att (fold doom (x # xs) c) b) = core (c_att c b)" by simp
  qed
qed

section \<open>The whole section\<close>

text \<open>What becomes of a request, by what is known of its target and of whoever makes it.\<close>

definition requester_of :: "coord \<Rightarrow> string option \<Rightarrow> aid option" where
  "requester_of c out = (case out of None \<Rightarrow> None | Some out \<Rightarrow> c_running c out)"

lemma wait_section_cases:
  obtains (canceled) "wait_section c s t out = (Returned Operation_canceled, c)"
      "s \<or> (\<exists>a. a_result (c_att c t) = None \<and> requester_of c out = Some a \<and> a_stopping (c_att c a))"
  | (known) r where "\<not> s" "a_result (c_att c t) = Some r" "wait_section c s t out = (Returned r, c)"
  | (cycle) a where "\<not> s" "a_result (c_att c t) = None" "requester_of c out = Some a" "\<not> a_stopping (c_att c a)"
      "path_to c t a \<noteq> []"
      "wait_section c s t out = (Returned Resource_deadlock_would_occur, fold doom (path_to c t a) c)"
  | (entered) "\<not> s" "a_result (c_att c t) = None"
      "\<And>a. requester_of c out = Some a \<Longrightarrow> \<not> a_stopping (c_att c a) \<and> path_to c t a = []"
      "wait_section c s t out = (Suspended (c_nwaits c), enter_wait c t (requester_of c out))"
proof (cases s)
  case True
  with canceled show ?thesis by (simp add: wait_section_def)
next
  case s: False
  show ?thesis
  proof (cases "a_result (c_att c t)")
    case (Some r)
    with s known show ?thesis by (simp add: wait_section_def)
  next
    case res: None
    show ?thesis
    proof (cases "requester_of c out")
      case None
      then have "wait_section c s t out = (Suspended (c_nwaits c), enter_wait c t (requester_of c out))"
        using s res
        by (simp add: wait_section_def requester_of_def [symmetric] enter_wait_def Let_def split_beta link_def)
      with entered s res None show ?thesis by simp
    next
      case (Some a)
      show ?thesis
      proof (cases "a_stopping (c_att c a)")
        case True
        with canceled s res Some show ?thesis
          by (simp add: wait_section_def requester_of_def [symmetric])
      next
        case st: False
        show ?thesis
        proof (cases "path_to c t a = []")
          case False
          with cycle s res Some st show ?thesis
            by (simp add: wait_section_def requester_of_def [symmetric])
        next
          case True
          have h: "a_hurried (c_att (snd (link c t (Some a))) a) = a_hurried (c_att c a)"
            by (rule core_fields(6) [OF link_fields(8) [OF refl]])
          have "wait_section c s t out = (Suspended (c_nwaits c), enter_wait c t (requester_of c out))"
            using s res Some st True h link_fields(1) [OF refl, of c t "Some a"]
            by (simp add: wait_section_def requester_of_def [symmetric] enter_wait_def Let_def split_beta)
          with entered s res Some st True show ?thesis by simp
        qed
      qed
    qed
  qed
qed

lemma wait_section_ok:
  assumes ok: "coord_ok c" and eff: "c_effects c = no_effects" and t: "t < c_attempts c"
  shows "coord_ok (snd (wait_section c s t out)) \<and> owes None c (snd (wait_section c s t out)) \<and>
    settles c (snd (wait_section c s t out))"
proof (cases rule: wait_section_cases [of c s t out])
  case canceled
  with ok owes_refl [OF eff] show ?thesis by simp
next
  case known
  with ok owes_refl [OF eff] show ?thesis by simp
next
  case (cycle a)
  with fold_doom_ok [OF coord_okD(1) [OF ok], of "path_to c t a"] adv_coord_ok [OF ok] adv_owes [OF _ eff] adv_settles
  show ?thesis by simp
next
  case entered
  have "coord_ok (enter_wait c t (requester_of c out)) \<and> owes None c (enter_wait c t (requester_of c out)) \<and>
    settles c (enter_wait c t (requester_of c out))"
  proof (rule enter_wait_ok [OF ok eff t entered(2)])
    fix a assume a: "requester_of c out = Some a"
    then obtain out' where "c_running c out' = Some a" by (auto simp: requester_of_def split: option.splits)
    then have "a < c_attempts c" "a_phase (c_att c a) = Running"
      using running_iff [OF coord_okD(3) [OF ok]] by blast+
    moreover have "(t, a) \<notin> (wait_graph c)\<^sup>*"
    proof
      assume "(t, a) \<in> (wait_graph c)\<^sup>*"
      with path_to_correct [OF coord_graph_valid [OF ok] t, of a] entered(3) [OF a]
      show False by (simp add: back_path_def)
    qed
    ultimately show "a < c_attempts c \<and> a_phase (c_att c a) = Running \<and> \<not> a_stopping (c_att c a) \<and>
        (t, a) \<notin> (wait_graph c)\<^sup>*"
      using entered(3) [OF a] by blast
  qed
  with entered show ?thesis by simp
qed

end
