(* ===== verification/Coordinator_Run.thy ===== *)
theory Coordinator_Run
  imports Coordinator_Waits
begin

text \<open>
  The coordinator with its callers.  A step is one section under the lock, or one action of an
  \<^verbatim>\<open>Effects::run\<close> after it: each section that ends leaves a list of actions to a thread,
  and the lists of the threads run interleaved in every way.  (A section run from within an
  action, as a take-back that ends at once does, is one more list here: the order in which its
  caller waits for it is one of the interleavings.)  The permit provider is the set of
  take-backs it was asked for (\<open>s_asked\<close>); it may end any of them at any time, with the permit
  or without.
\<close>

section \<open>States and steps\<close>

datatype action =
  Stop_reacquire aid | Stop_work aid | Take_back aid | Drain_done aid | Wake rid

definition actions :: "effects \<Rightarrow> action list" where
  "actions e = map Stop_reacquire (e_stop_reacquires e) @ map Stop_work (e_stop_attempts e) @
     map Take_back (e_reacquires e) @ map Drain_done (e_drains e) @ map Wake (e_answered e)"

record csys =
  s_coord :: coord
  s_threads :: "action list list"
  s_asked :: "aid list"
  s_drained :: "aid list"
  s_woken :: "rid list"

definition pending :: "csys \<Rightarrow> action list" where
  "pending s = concat (s_threads s)"

definition section_end :: "csys \<Rightarrow> coord \<Rightarrow> csys" where
  "section_end s c = s\<lparr>s_coord := c\<lparr>c_effects := no_effects\<rparr>, s_threads := s_threads s @ [actions (c_effects c)]\<rparr>"

fun perform :: "csys \<Rightarrow> action \<Rightarrow> csys" where
  "perform s (Stop_reacquire a) =
     s\<lparr>s_coord := upd (s_coord s) a (\<lambda>x. x\<lparr>a_reacquire := map_option (\<lambda>_. True) (a_reacquire x)\<rparr>)\<rparr>"
| "perform s (Stop_work a) = s\<lparr>s_coord := upd (s_coord s) a (\<lambda>x. x\<lparr>a_stop := True\<rparr>)\<rparr>"
| "perform s (Take_back a) =
     (if a_lease (c_att (s_coord s) a) \<and> a_reacquire (c_att (s_coord s) a) \<noteq> None
      then s\<lparr>s_asked := s_asked s @ [a]\<rparr>
      else section_end s (on_reacquired (s_coord s) a False))"
| "perform s (Drain_done a) = s\<lparr>s_drained := s_drained s @ [a]\<rparr>"
| "perform s (Wake w) = s\<lparr>s_woken := s_woken s @ [w]\<rparr>"

text \<open>Attempts at one output are started one after another (their caller's part of the contract).\<close>

definition alone :: "coord \<Rightarrow> aid \<Rightarrow> bool" where
  "alone c a \<longleftrightarrow> (\<forall>b < c_attempts c. b \<noteq> a \<longrightarrow> a_output (c_att c b) = a_output (c_att c a) \<longrightarrow>
     a_phase (c_att c b) \<noteq> Queued \<and> a_phase (c_att c b) \<noteq> Running)"

definition over :: "coord \<Rightarrow> aid option \<Rightarrow> bool" where
  "over c p = (case p of None \<Rightarrow> True | Some p \<Rightarrow> a_phase (c_att c p) = Ended)"

inductive coord_step :: "csys \<Rightarrow> csys \<Rightarrow> bool" where
  create: "(case pred of None \<Rightarrow> True | Some p \<Rightarrow> p < c_attempts (s_coord s)) \<Longrightarrow>
    coord_step s (section_end s (snd (create_attempt (s_coord s) out pred)))"
| run: "a < c_attempts (s_coord s) \<Longrightarrow> a_phase (c_att (s_coord s) a) = Pending \<Longrightarrow>
    over (s_coord s) (a_predecessor (c_att (s_coord s) a)) \<Longrightarrow> alone (s_coord s) a \<Longrightarrow>
    coord_step s (section_end s (run_section (s_coord s) a))"
| permit: "a < c_attempts (s_coord s) \<Longrightarrow> a_phase (c_att (s_coord s) a) = Queued \<Longrightarrow>
    coord_step s (section_end s (on_permit (s_coord s) a))"
| finish: "a < c_attempts (s_coord s) \<Longrightarrow> a_phase (c_att (s_coord s) a) = Running \<Longrightarrow>
    coord_step s (section_end s (finish (s_coord s) a))"
| outer_stop: "a < c_attempts (s_coord s) \<Longrightarrow> coord_step s (section_end s (on_outer_stop (s_coord s) a))"
| complete: "a < c_attempts (s_coord s) \<Longrightarrow> coord_step s (section_end s (complete (s_coord s) a r))"
| wait: "t < c_attempts (s_coord s) \<Longrightarrow>
    coord_step s (section_end s (snd (wait_section (s_coord s) stop t out)))"
| cancel: "w < c_nwaits (s_coord s) \<Longrightarrow> coord_step s (section_end s (cancel_wait (s_coord s) w))"
| act: "s_threads s = us @ (x # l) # vs \<Longrightarrow> coord_step s (perform (s\<lparr>s_threads := us @ l # vs\<rparr>) x)"
| throws: "s_threads s = us @ (Take_back a # l) # vs \<Longrightarrow> d = s\<lparr>s_threads := us @ l # vs\<rparr> \<Longrightarrow>
    coord_step s (section_end d (on_reacquired (s_coord d) a False))"
| taken: "a \<in> set (s_asked s) \<Longrightarrow> d = s\<lparr>s_asked := remove1 a (s_asked s)\<rparr> \<Longrightarrow>
    coord_step s (section_end d (on_reacquired (s_coord d) a g))"

definition coord_new :: coord where
  "coord_new = \<lparr>c_att = (\<lambda>_. new_attempt '''' None), c_attempts = 0,
     c_wait = (\<lambda>_. \<lparr>w_target = 0, w_requester = None, w_state = Done, w_result = No_error\<rparr>), c_nwaits = 0,
     c_running = Map.empty, c_waits = [], c_effects = no_effects, c_calls = []\<rparr>"

definition csys_new :: csys where
  "csys_new = \<lparr>s_coord = coord_new, s_threads = [], s_asked = [], s_drained = [], s_woken = []\<rparr>"

section \<open>The invariant\<close>

definition one_each :: "coord \<Rightarrow> bool" where
  "one_each c \<longleftrightarrow> (\<forall>a < c_attempts c. a_phase (c_att c a) \<in> {Queued, Running} \<longrightarrow> alone c a)"

definition active :: "coord \<Rightarrow> aid \<Rightarrow> bool" where
  "active c a \<longleftrightarrow> a < c_attempts c \<and> (a_phase (c_att c a) = Queued \<or> a_phase (c_att c a) = Running)"

lemma one_each_iff:
  "one_each c \<longleftrightarrow> (\<forall>a b. active c a \<longrightarrow> active c b \<longrightarrow> a_output (c_att c a) = a_output (c_att c b) \<longrightarrow> a = b)"
  unfolding one_each_def alone_def active_def by (safe; metis insertCI)

lemma one_each_sub:
  assumes "one_each c" and "\<And>a. active c' a \<Longrightarrow> active c a"
    and "\<And>a. a < c_attempts c \<Longrightarrow> a_output (c_att c' a) = a_output (c_att c a)"
  shows "one_each c'"
  unfolding one_each_iff
proof (intro allI impI)
  fix a b assume ab: "active c' a" "active c' b" "a_output (c_att c' a) = a_output (c_att c' b)"
  then have "active c a" "active c b" using assms(2) by blast+
  moreover from this have "a_output (c_att c a) = a_output (c_att c b)"
    using ab(3) assms(3) by (simp add: active_def)
  ultimately show "a = b" using assms(1) unfolding one_each_iff by blast
qed

text \<open>The books, with \<open>took\<close> a take-back already struck off.\<close>

definition books :: "aid option \<Rightarrow> csys \<Rightarrow> bool" where
  "books took s \<longleftrightarrow>
     (\<forall>a. count_list (pending s) (Take_back a) + count_list (s_asked s) a + of_bool (took = Some a) =
          of_bool (a_reacquire_outstanding (c_att (s_coord s) a))) \<and>
     (\<forall>w. count_list (pending s) (Wake w) + count_list (s_woken s) w + of_bool (live (s_coord s) w) =
          of_bool (w < c_nwaits (s_coord s))) \<and>
     (\<forall>a. count_list (pending s) (Drain_done a) + count_list (s_drained s) a +
          of_bool (a_drain (c_att (s_coord s) a)) + of_bool (a_phase (c_att (s_coord s) a) \<noteq> Ended) = 1) \<and>
     (\<forall>a. a_stopping (c_att (s_coord s) a) \<longrightarrow> a_phase (c_att (s_coord s) a) = Running \<longrightarrow>
          a_stop (c_att (s_coord s) a) \<or> Stop_work a \<in> set (pending s))"

definition csys_inv :: "csys \<Rightarrow> bool" where
  "csys_inv s \<longleftrightarrow> coord_ok (s_coord s) \<and> c_effects (s_coord s) = no_effects \<and> one_each (s_coord s) \<and> books None s"

lemma csys_invD:
  assumes "csys_inv s"
  shows "coord_ok (s_coord s)" "c_effects (s_coord s) = no_effects" "one_each (s_coord s)" "books None s"
  using assms by (simp_all add: csys_inv_def)

lemma count_map [simp]:
  "count_list (map Take_back as) (Take_back a) = count_list as a"
  "count_list (map Wake ws) (Wake w) = count_list ws w"
  "count_list (map Drain_done as) (Drain_done a) = count_list as a"
  by (induction as) (simp_all, induction ws, simp_all)

lemma count_map_other: "(\<And>x. f x \<noteq> y) \<Longrightarrow> count_list (map f xs) y = 0"
  by (induction xs) auto

lemma count_actions [simp]:
  "count_list (actions e) (Take_back a) = count_list (e_reacquires e) a"
  "count_list (actions e) (Wake w) = count_list (e_answered e) w"
  "count_list (actions e) (Drain_done a) = count_list (e_drains e) a"
  "Stop_work a \<in> set (actions e) \<longleftrightarrow> a \<in> set (e_stop_attempts e)"
  by (auto simp: actions_def count_list_append count_map_other)

lemma section_end_fields [simp]:
  "s_coord (section_end s c) = c\<lparr>c_effects := no_effects\<rparr>" "s_asked (section_end s c) = s_asked s"
  "s_drained (section_end s c) = s_drained s" "s_woken (section_end s c) = s_woken s"
  "pending (section_end s c) = pending s @ actions (c_effects c)"
  by (simp_all add: section_end_def pending_def)

lemma stopping_known:
  assumes "coord_ok c" and "a_stopping (c_att c a)"
  shows "a < c_attempts c"
proof (rule ccontr)
  assume "\<not> a < c_attempts c"
  with coord_okD(7) [OF assms(1)] have "a_phase (c_att c a) = Pending" by (simp add: fresh_ok_def)
  with assms(2) coord_okD(9) [OF assms(1), of a] show False by (simp add: att_ok_def)
qed

lemma section_inv:
  assumes books: "books took s" and ok: "coord_ok c'" and one: "one_each c'" and owes: "owes took (s_coord s) c'"
    and before: "coord_ok (s_coord s)"
  shows "csys_inv (section_end s c')"
proof -
  let ?c = "s_coord s" and ?s' = "section_end s c'"
  have lv: "live (c'\<lparr>c_effects := no_effects\<rparr>) = live c'" by (rule live_same) simp_all
  have "coord_ok (c'\<lparr>c_effects := no_effects\<rparr>)" using ok coord_ok_effects(1) [of "c'\<lparr>c_effects := no_effects\<rparr>" c'] by simp
  moreover have "one_each (c'\<lparr>c_effects := no_effects\<rparr>)" 
    using one by (rule one_each_sub) (simp_all add: active_def)
  moreover have "books None ?s'"
    unfolding books_def
  proof (intro conjI allI impI)
    fix a
    show "count_list (pending ?s') (Take_back a) + count_list (s_asked ?s') a + of_bool (None = Some a) =
        of_bool (a_reacquire_outstanding (c_att (s_coord ?s') a))"
    proof -
      have "count_list (e_reacquires (c_effects c')) a + of_bool (a_reacquire_outstanding (c_att ?c a)) =
          of_bool (a_reacquire_outstanding (c_att c' a)) + of_bool (took = Some a)"
        using owes by (simp add: owes_def)
      moreover have "count_list (pending s) (Take_back a) + count_list (s_asked s) a + of_bool (took = Some a) =
          of_bool (a_reacquire_outstanding (c_att ?c a))"
        using books by (simp add: books_def)
      ultimately show ?thesis by (simp add: count_list_append)
    qed
    show "count_list (pending ?s') (Drain_done a) + count_list (s_drained ?s') a +
        of_bool (a_drain (c_att (s_coord ?s') a)) + of_bool (a_phase (c_att (s_coord ?s') a) \<noteq> Ended) = 1"
    proof -
      have "count_list (e_drains (c_effects c')) a + of_bool (a_drain (c_att c' a)) + of_bool (a_phase (c_att c' a) \<noteq> Ended) =
          of_bool (a_drain (c_att ?c a)) + of_bool (a_phase (c_att ?c a) \<noteq> Ended)"
        using owes by (simp add: owes_def)
      moreover have "count_list (pending s) (Drain_done a) + count_list (s_drained s) a +
          of_bool (a_drain (c_att ?c a)) + of_bool (a_phase (c_att ?c a) \<noteq> Ended) = 1"
        using books by (simp add: books_def)
      ultimately show ?thesis by (simp add: count_list_append)
    qed
  next
    fix w
    have "count_list (e_answered (c_effects c')) w + of_bool (live c' w) =
          of_bool (live ?c w) + of_bool (c_nwaits ?c \<le> w \<and> w < c_nwaits c')" "c_nwaits ?c \<le> c_nwaits c'"
      using owes by (simp_all add: owes_def)
    moreover have "count_list (pending s) (Wake w) + count_list (s_woken s) w + of_bool (live ?c w) =
          of_bool (w < c_nwaits ?c)"
      using books by (simp add: books_def)
    ultimately show "count_list (pending ?s') (Wake w) + count_list (s_woken ?s') w + of_bool (live (s_coord ?s') w) =
        of_bool (w < c_nwaits (s_coord ?s'))"
      by (auto simp: count_list_append lv of_bool_def split: if_splits)
  next
    fix a assume a: "a_stopping (c_att (s_coord ?s') a)" "a_phase (c_att (s_coord ?s') a) = Running"
    then have "a_stopping (c_att ?c a) \<or> a \<in> set (e_stop_attempts (c_effects c'))"
      using owes by (simp add: owes_def)
    then show "a_stop (c_att (s_coord ?s') a) \<or> Stop_work a \<in> set (pending ?s')"
    proof
      assume st: "a_stopping (c_att ?c a)"
      then have "a_phase (c_att ?c a) \<in> {Running, Ended}" using coord_okD(9) [OF before, of a] by (simp add: att_ok_def)
      moreover have "a_phase (c_att ?c a) \<noteq> Ended" using owes a(2) by (auto simp: owes_def)
      ultimately have "a_phase (c_att ?c a) = Running" by simp
      with st books have "a_stop (c_att ?c a) \<or> Stop_work a \<in> set (pending s)" by (simp add: books_def)
      with owes stopping_known [OF before st] show ?thesis by (auto simp: owes_def)
    qed simp
  qed
  ultimately show ?thesis by (simp add: csys_inv_def)
qed

text \<open>What is never taken back: an answer that was given, an attempt that was doomed.\<close>

definition kept :: "coord \<Rightarrow> coord \<Rightarrow> bool" where
  "kept c c' \<longleftrightarrow> c_nwaits c \<le> c_nwaits c' \<and> c_attempts c \<le> c_attempts c' \<and>
     (\<forall>w < c_nwaits c. w_state (c_wait c w) = Done \<longrightarrow> c_wait c' w = c_wait c w) \<and>
     (\<forall>a < c_attempts c. a_doomed (c_att c a) \<longrightarrow> a_doomed (c_att c' a))"

lemma kept_refl [simp]: "kept c c"
  by (simp add: kept_def)

lemma kept_trans: "kept a b \<Longrightarrow> kept b c \<Longrightarrow> kept a c"
  unfolding kept_def by (metis order.trans order_less_le_trans)

lemma section_both:
  assumes "books took s" and "coord_ok c'" and "one_each c'" and "owes took (s_coord s) c'" and "coord_ok (s_coord s)"
  shows "csys_inv (section_end s c') \<and> kept (s_coord s) (s_coord (section_end s c'))"
  using section_inv [OF assms] assms(4) by (simp add: kept_def owes_def)

lemma one_each_alone:
  "one_each c \<Longrightarrow> active c a \<Longrightarrow> b < c_attempts c \<Longrightarrow> a_output (c_att c b) = a_output (c_att c a) \<Longrightarrow> b \<noteq> a \<Longrightarrow>
     a_phase (c_att c b) \<noteq> Running"
  unfolding one_each_iff active_def by blast

lemma one_each_owes:
  assumes "one_each c" and "\<And>a. a_phase (c_att c' a) = a_phase (c_att c a) \<or> a_phase (c_att c' a) = Ended"
    and "\<And>a. a_output (c_att c' a) = a_output (c_att c a)" and "c_attempts c' = c_attempts c"
  shows "one_each c'"
proof (rule one_each_sub [OF assms(1)])
  fix a assume "active c' a" then show "active c a" using assms(2) [of a] by (auto simp: active_def assms(4))
qed (rule assms(3))

lemma settles_one_each: "one_each c \<Longrightarrow> settles c c' \<Longrightarrow> one_each c'"
  by (rule one_each_owes) (auto simp: settles_def)

text \<open>Actions: what is done leaves the books and the invariant as they are.\<close>

lemma perform_coord_ok:
  assumes ok: "coord_ok c"
    and c': "\<And>b. c_att c' b = (if b = a then f (c_att c a) else c_att c b)"
    and f: "c_wait c' = c_wait c" "c_nwaits c' = c_nwaits c" "c_waits c' = c_waits c" "c_attempts c' = c_attempts c"
      "c_running c' = c_running c"
    and h: "(f = (\<lambda>x. x\<lparr>a_stop := True\<rparr>)) \<or> f = (\<lambda>x. x\<lparr>a_reacquire := map_option (\<lambda>_. True) (a_reacquire x)\<rparr>)"
  shows "coord_ok c'"
proof -
  have s: "a_phase (f x) = a_phase x" "a_output (f x) = a_output x" "a_hurried (f x) = a_hurried x"
    "a_result (f x) = a_result x" "a_predecessor (f x) = a_predecessor x" "a_permit (f x) = a_permit x"
    "a_stopping (f x) = a_stopping x" "a_doomed (f x) = a_doomed x" "a_lease (f x) = a_lease x"
    "a_reacquire_outstanding (f x) = a_reacquire_outstanding x" "a_drain (f x) = a_drain x"
    "a_waits_by_me (f x) = a_waits_by_me x" "a_waits_on_me (f x) = a_waits_on_me x" "a_edges_out (f x) = a_edges_out x"
    "(a_reacquire (f x) \<noteq> None) = (a_reacquire x \<noteq> None)" for x
    using h by auto
  have same: "a_phase (c_att c' b) = a_phase (c_att c b)" "a_output (c_att c' b) = a_output (c_att c b)"
    "a_hurried (c_att c' b) = a_hurried (c_att c b)" "a_result (c_att c' b) = a_result (c_att c b)"
    "a_predecessor (c_att c' b) = a_predecessor (c_att c b)" "a_permit (c_att c' b) = a_permit (c_att c b)"
    "a_stopping (c_att c' b) = a_stopping (c_att c b)"
    "a_waits_by_me (c_att c' b) = a_waits_by_me (c_att c b)"
    "a_waits_on_me (c_att c' b) = a_waits_on_me (c_att c b)" "a_edges_out (c_att c' b) = a_edges_out (c_att c b)" for b
    by (simp_all add: c' s)
  have lv: "live c' = live c" and bl: "blocked c' = blocked c"
    using f by (auto simp: live_def blocked_def fun_eq_iff)
  have L: "links_ok c'" by (rule links_ok_upd [OF coord_okD(8) [OF ok] f(1-3)]) (simp_all add: same)
  have g: "wait_graph c' = wait_graph c"
  proof -
    have "blocked_on c' = blocked_on c" by (simp add: blocked_on_def bl f fun_eq_iff)
    then show ?thesis
      by (auto simp: wait_graph_iff [OF L] wait_graph_iff [OF coord_okD(8) [OF ok]] same)
  qed
  have "att_ok (c_att c' b)" for b
    using coord_okD(9) [OF ok, of b] by (cases "b = a") (simp_all add: c' att_ok_def s del: not_None_eq)
  moreover have "wait_ok c' v" for v
    using coord_okD(10) [OF ok, of v] unfolding wait_ok_def lv f same .
  moreover have "rest_ok c'"
    by (rule rest_ok_cong [OF coord_okD(2) [OF ok]]) (simp_all add: g bl f same)
  ultimately show ?thesis using L by (simp add: coord_ok_def table_ok_def)
qed

lemma count_list_snoc: "count_list (xs @ [a]) y = count_list xs y + of_bool (y = a)"
  by (simp add: count_list_append)

lemma booksD:
  assumes "books took s"
  shows "count_list (pending s) (Take_back a) + count_list (s_asked s) a + of_bool (took = Some a) =
      of_bool (a_reacquire_outstanding (c_att (s_coord s) a))"
    and "count_list (pending s) (Wake w) + count_list (s_woken s) w + of_bool (live (s_coord s) w) =
      of_bool (w < c_nwaits (s_coord s))"
    and "count_list (pending s) (Drain_done a) + count_list (s_drained s) a +
      of_bool (a_drain (c_att (s_coord s) a)) + of_bool (a_phase (c_att (s_coord s) a) \<noteq> Ended) = 1"
    and "a_stopping (c_att (s_coord s) a) \<Longrightarrow> a_phase (c_att (s_coord s) a) = Running \<Longrightarrow>
      a_stop (c_att (s_coord s) a) \<or> Stop_work a \<in> set (pending s)"
  using assms unfolding books_def by blast+

lemma pending_pop:
  assumes "s_threads s = us @ (x # l) # vs" and "d = s\<lparr>s_threads := us @ l # vs\<rparr>"
  shows "count_list (pending s) y = count_list (pending d) y + of_bool (y = x)"
    and "set (pending s) = insert x (set (pending d))"
  using assms by (auto simp: pending_def count_list_append)

lemma pop_take_books:
  assumes "books None s" and "s_threads s = us @ (Take_back a # l) # vs" and d: "d = s\<lparr>s_threads := us @ l # vs\<rparr>"
  shows "books (Some a) d"
proof -
  note p = pending_pop [OF assms(2,3)] and b = booksD [OF assms(1)]
  have s: "s_coord d = s_coord s" "s_asked d = s_asked s" "s_woken d = s_woken s" "s_drained d = s_drained s"
    by (simp_all add: d)
  show ?thesis
    unfolding books_def s
  proof (intro conjI allI impI)
    fix x w
    show "count_list (pending d) (Take_back x) + count_list (s_asked s) x + of_bool (Some a = Some x) =
        of_bool (a_reacquire_outstanding (c_att (s_coord s) x))"
      using b(1) [of x] p(1) [of "Take_back x"] by (cases "x = a") simp_all
    show "count_list (pending d) (Wake w) + count_list (s_woken s) w + of_bool (live (s_coord s) w) =
        of_bool (w < c_nwaits (s_coord s))"
      using b(2) [of w] p(1) [of "Wake w"] by simp
    show "count_list (pending d) (Drain_done x) + count_list (s_drained s) x + of_bool (a_drain (c_att (s_coord s) x)) +
        of_bool (a_phase (c_att (s_coord s) x) \<noteq> Ended) = 1"
      using b(3) [of x] p(1) [of "Drain_done x"] by simp
    assume "a_stopping (c_att (s_coord s) x)" "a_phase (c_att (s_coord s) x) = Running"
    from b(4) [OF this] p(2) show "a_stop (c_att (s_coord s) x) \<or> Stop_work x \<in> set (pending d)" by simp
  qed
qed

lemma asked_books:
  assumes "books None s" and "a \<in> set (s_asked s)" and d: "d = s\<lparr>s_asked := remove1 a (s_asked s)\<rparr>"
  shows "books (Some a) d"
proof -
  note b = booksD [OF assms(1)]
  have s: "s_coord d = s_coord s" "pending d = pending s" "s_woken d = s_woken s" "s_drained d = s_drained s"
    by (simp_all add: d pending_def)
  have "count_list (s_asked s) x = count_list (s_asked d) x + of_bool (a = x)" for x
    using assms(2) count_list_0_iff [of "s_asked s" a] by (cases "a = x") (simp_all add: d count_list_remove1)
  then have "count_list (pending s) (Take_back x) + count_list (s_asked d) x + of_bool (Some a = Some x) =
      of_bool (a_reacquire_outstanding (c_att (s_coord s) x))" for x
    using b(1) [of x] by simp
  with b(2-4) show ?thesis unfolding books_def s by blast
qed

lemma outstanding_known:
  assumes "coord_ok c" and "a_reacquire_outstanding (c_att c a)"
  shows "a < c_attempts c" and "a_lease (c_att c a)" and "a_reacquire (c_att c a) \<noteq> None"
proof -
  have att: "att_ok (c_att c a)" using assms(1) by (rule coord_okD)
  then have "a_phase (c_att c a) \<in> {Running, Ended}"
    using assms(2) by (cases "a_phase (c_att c a)") (auto simp: att_ok_def)
  with assms coord_okD(7) [OF assms(1)] show "a < c_attempts c"
    unfolding fresh_ok_def by (metis insertE leI phase.distinct(3,5) singletonD)
  show "a_lease (c_att c a)" "a_reacquire (c_att c a) \<noteq> None"
    using att assms(2) \<open>a_phase (c_att c a) \<in> {Running, Ended}\<close> by (auto simp: att_ok_def)
qed

lemma books_outstanding: "books (Some a) s \<Longrightarrow> a_reacquire_outstanding (c_att (s_coord s) a)"
  using booksD(1) [of "Some a" s a] by (simp add: of_bool_def split: if_splits)

lemma reacquired_step:
  assumes "coord_ok (s_coord d)" and "c_effects (s_coord d) = no_effects" and "one_each (s_coord d)" and "books (Some a) d"
  shows "csys_inv (section_end d (on_reacquired (s_coord d) a g)) \<and>
    kept (s_coord d) (s_coord (section_end d (on_reacquired (s_coord d) a g)))"
proof -
  have out: "a_reacquire_outstanding (c_att (s_coord d) a)" using assms(4) by (rule books_outstanding)
  note known = outstanding_known [OF assms(1) out]
  note R = on_reacquired_ok [OF assms(1,2) known(1) out, of g]
  note S = on_reacquired_state [OF assms(1,2) known(1) out, of g]
  have "a_phase (c_att (on_reacquired (s_coord d) a g) b) = a_phase (c_att (s_coord d) b)"
    "a_output (c_att (on_reacquired (s_coord d) a g) b) = a_output (c_att (s_coord d) b)" for b
    using S by (cases "b = a"; force dest: core_fields)+
  then have "one_each (on_reacquired (s_coord d) a g)"
    using S by (intro one_each_owes [OF assms(3)]) auto
  with R assms(1,4) show ?thesis by (intro section_both) auto
qed

lemma perform_step:
  assumes inv: "csys_inv s" and th: "s_threads s = us @ (x # l) # vs" and d: "d = s\<lparr>s_threads := us @ l # vs\<rparr>"
  shows "csys_inv (perform d x)"
proof -
  note I = csys_invD [OF inv] and b = booksD [OF csys_invD(4) [OF inv]] and p = pending_pop [OF th d]
  have s: "s_coord d = s_coord s" "s_asked d = s_asked s" "s_woken d = s_woken s" "s_drained d = s_drained s"
    by (simp_all add: d)
  show ?thesis
  proof (cases x)
    case (Take_back a)
    have bk: "books (Some a) d" using I(4) th d unfolding Take_back by (intro pop_take_books)
    have out: "a_reacquire_outstanding (c_att (s_coord d) a)" using bk by (rule books_outstanding)
    note known = outstanding_known [OF I(1) out [unfolded s]]
    have "perform d x = d\<lparr>s_asked := s_asked d @ [a]\<rparr>" using known by (simp add: Take_back s)
    moreover have "books None (d\<lparr>s_asked := s_asked d @ [a]\<rparr>)"
    proof -
      let ?e = "d\<lparr>s_asked := s_asked d @ [a]\<rparr>"
      have f: "s_coord ?e = s_coord d" "pending ?e = pending d" "s_woken ?e = s_woken d" "s_drained ?e = s_drained d"
        by (simp_all add: pending_def)
      have "count_list (pending d) (Take_back y) + count_list (s_asked ?e) y + of_bool (None = Some y) =
          of_bool (a_reacquire_outstanding (c_att (s_coord d) y))" for y
      proof -
        have e: "s_asked ?e = s_asked d @ [a]" by simp
        have "of_bool (Some a = Some y) = (of_bool (y = a) :: nat)" "of_bool (None = Some y) = (0 :: nat)" by auto
        with booksD(1) [OF bk, of y] show ?thesis unfolding e count_list_snoc by linarith
      qed
      with booksD(2-4) [OF bk] show ?thesis unfolding books_def f by blast
    qed
    ultimately show ?thesis using I by (simp add: csys_inv_def s)
  next
    case (Drain_done a)
    let ?d = "perform d x"
    have f: "s_coord ?d = s_coord s" "s_asked ?d = s_asked s" "s_woken ?d = s_woken s" "pending ?d = pending d"
      "s_drained ?d = s_drained s @ [a]"
      by (simp_all add: Drain_done s pending_def)
    have "books None ?d"
      unfolding books_def f
    proof (intro conjI allI impI)
      fix y
      show "count_list (pending d) (Drain_done y) + count_list (s_drained s @ [a]) y +
          of_bool (a_drain (c_att (s_coord s) y)) + of_bool (a_phase (c_att (s_coord s) y) \<noteq> Ended) = 1"
      proof -
        have "count_list (pending s) (Drain_done y) = count_list (pending d) (Drain_done y) + of_bool (y = a)"
          using p(1) [of "Drain_done y"] by (simp add: Drain_done)
        with b(3) [of y] show ?thesis unfolding count_list_snoc by linarith
      qed
      show "count_list (pending d) (Take_back y) + count_list (s_asked s) y + of_bool (None = Some y) =
          of_bool (a_reacquire_outstanding (c_att (s_coord s) y))"
        using b(1) [of y] p(1) [of "Take_back y"] by (simp add: Drain_done)
      assume "a_stopping (c_att (s_coord s) y)" "a_phase (c_att (s_coord s) y) = Running"
      from b(4) [OF this] p(2) show "a_stop (c_att (s_coord s) y) \<or> Stop_work y \<in> set (pending d)"
        by (simp add: Drain_done)
    next
      fix w
      show "count_list (pending d) (Wake w) + count_list (s_woken s) w + of_bool (live (s_coord s) w) =
          of_bool (w < c_nwaits (s_coord s))"
        using b(2) [of w] p(1) [of "Wake w"] by (simp add: Drain_done)
    qed
    with I show ?thesis by (simp add: csys_inv_def f)
  next
    case (Wake v)
    let ?d = "perform d x"
    have f: "s_coord ?d = s_coord s" "s_asked ?d = s_asked s" "s_drained ?d = s_drained s" "pending ?d = pending d"
      "s_woken ?d = s_woken s @ [v]"
      by (simp_all add: Wake s pending_def)
    have "books None ?d"
      unfolding books_def f
    proof (intro conjI allI impI)
      fix w
      show "count_list (pending d) (Wake w) + count_list (s_woken s @ [v]) w + of_bool (live (s_coord s) w) =
          of_bool (w < c_nwaits (s_coord s))"
      proof -
        have "count_list (pending s) (Wake w) = count_list (pending d) (Wake w) + of_bool (w = v)"
          using p(1) [of "Wake w"] by (simp add: Wake)
        with b(2) [of w] show ?thesis unfolding count_list_snoc by linarith
      qed
    next
      fix y
      show "count_list (pending d) (Take_back y) + count_list (s_asked s) y + of_bool (None = Some y) =
          of_bool (a_reacquire_outstanding (c_att (s_coord s) y))"
        using b(1) [of y] p(1) [of "Take_back y"] by (simp add: Wake)
      show "count_list (pending d) (Drain_done y) + count_list (s_drained s) y +
          of_bool (a_drain (c_att (s_coord s) y)) + of_bool (a_phase (c_att (s_coord s) y) \<noteq> Ended) = 1"
        using b(3) [of y] p(1) [of "Drain_done y"] by (simp add: Wake)
      assume "a_stopping (c_att (s_coord s) y)" "a_phase (c_att (s_coord s) y) = Running"
      from b(4) [OF this] p(2) show "a_stop (c_att (s_coord s) y) \<or> Stop_work y \<in> set (pending d)"
        by (simp add: Wake)
    qed
    with I show ?thesis by (simp add: csys_inv_def f)
  next
    case (Stop_reacquire a)
    let ?d = "perform d x" and ?f = "\<lambda>x. x\<lparr>a_reacquire := map_option (\<lambda>_. True) (a_reacquire x)\<rparr>"
    have f: "s_coord ?d = upd (s_coord s) a ?f" "s_asked ?d = s_asked s" "s_drained ?d = s_drained s"
      "pending ?d = pending d" "s_woken ?d = s_woken s"
      by (simp_all add: Stop_reacquire s pending_def)
    have ok: "coord_ok (s_coord ?d)"
      unfolding f(1) by (rule perform_coord_ok [OF I(1), where a = a and f = ?f]) simp_all
    have one: "one_each (s_coord ?d)"
      unfolding f(1) by (rule one_each_owes [OF I(3)]) simp_all
    have lv: "live (s_coord ?d) = live (s_coord s)" unfolding f(1) by (rule live_same) simp_all
    have att: "a_reacquire_outstanding (c_att (s_coord ?d) y) = a_reacquire_outstanding (c_att (s_coord s) y)"
      "a_drain (c_att (s_coord ?d) y) = a_drain (c_att (s_coord s) y)"
      "a_phase (c_att (s_coord ?d) y) = a_phase (c_att (s_coord s) y)"
      "a_stopping (c_att (s_coord ?d) y) = a_stopping (c_att (s_coord s) y)"
      "a_stop (c_att (s_coord ?d) y) = a_stop (c_att (s_coord s) y)" "c_nwaits (s_coord ?d) = c_nwaits (s_coord s)" for y
      by (simp_all add: f)
    have pc: "count_list (pending d) y = count_list (pending s) y" if "y \<noteq> x" for y using p(1) [of y] that by simp
    have "books None ?d"
      using I(4) p(2) unfolding books_def att lv f(2-5) by (simp add: pc Stop_reacquire)
    with ok one I(2) show ?thesis by (simp add: csys_inv_def f(1))
  next
    case (Stop_work a)
    let ?d = "perform d x" and ?f = "\<lambda>x. x\<lparr>a_stop := True\<rparr>"
    have f: "s_coord ?d = upd (s_coord s) a ?f" "s_asked ?d = s_asked s" "s_drained ?d = s_drained s"
      "pending ?d = pending d" "s_woken ?d = s_woken s"
      by (simp_all add: Stop_work s pending_def)
    have ok: "coord_ok (s_coord ?d)"
      unfolding f(1) by (rule perform_coord_ok [OF I(1), where a = a and f = ?f]) simp_all
    have one: "one_each (s_coord ?d)"
      unfolding f(1) by (rule one_each_owes [OF I(3)]) simp_all
    have lv: "live (s_coord ?d) = live (s_coord s)" unfolding f(1) by (rule live_same) simp_all
    have att: "a_reacquire_outstanding (c_att (s_coord ?d) y) = a_reacquire_outstanding (c_att (s_coord s) y)"
      "a_drain (c_att (s_coord ?d) y) = a_drain (c_att (s_coord s) y)"
      "a_phase (c_att (s_coord ?d) y) = a_phase (c_att (s_coord s) y)"
      "a_stopping (c_att (s_coord ?d) y) = a_stopping (c_att (s_coord s) y)"
      "a_stop (c_att (s_coord ?d) y) = (y = a \<or> a_stop (c_att (s_coord s) y))"
      "c_nwaits (s_coord ?d) = c_nwaits (s_coord s)" for y
      by (simp_all add: f)
    have pc: "count_list (pending d) y = count_list (pending s) y" if "y \<noteq> x" for y using p(1) [of y] that by simp
    have "books None ?d"
      using I(4) p(2) unfolding books_def att lv f(2-5) by (auto simp: pc Stop_work)
    with ok one I(2) show ?thesis by (simp add: csys_inv_def f(1))
  qed
qed

lemma perform_kept:
  assumes inv: "csys_inv s" and th: "s_threads s = us @ (x # l) # vs" and d: "d = s\<lparr>s_threads := us @ l # vs\<rparr>"
  shows "kept (s_coord s) (s_coord (perform d x))"
proof (cases x)
  case (Take_back a)
  have "books (Some a) d" using csys_invD(4) [OF inv] th d unfolding Take_back by (intro pop_take_books)
  moreover have s: "s_coord d = s_coord s" by (simp add: d)
  ultimately have "a_reacquire_outstanding (c_att (s_coord s) a)" using books_outstanding by metis
  note known = outstanding_known [OF csys_invD(1) [OF inv] this]
  then show ?thesis by (simp add: Take_back s)
qed (simp_all add: d kept_def)

lemma coord_step_both:
  assumes inv: "csys_inv s" and step: "coord_step s s'"
  shows "csys_inv s' \<and> kept (s_coord s) (s_coord s')"
  using step
proof cases
  note I = csys_invD [OF inv]
  case (create pred out)
  let ?c = "snd (create_attempt (s_coord s) out pred)"
  note C = create_attempt_ok [OF I(1) create(2)]
  have "c_effects ?c = no_effects" using I(2) by (simp add: create_attempt_def Let_def)
  then have "owes None (s_coord s) ?c" using quiet_owes [OF C(2)] owes_refl by blast
  moreover have "one_each ?c"
    by (rule one_each_sub [OF I(3)])
      (auto simp: create_attempt_def Let_def active_def new_attempt_def split: if_splits)
  ultimately show ?thesis unfolding create(1) using I(1,4) C(1) by (intro section_both)
next
  note I = csys_invD [OF inv]
  case (run a)
  note C = run_section_ok [OF I(1) run(2,3)]
  let ?c = "run_section (s_coord s) a"
  have "c_effects ?c = no_effects" using I(2) by (simp add: run_section_def)
  then have "owes None (s_coord s) ?c" using quiet_owes [OF C(2)] owes_refl by blast
  moreover have "one_each ?c"
    unfolding one_each_iff
  proof (intro allI impI)
    fix x y assume xy: "active ?c x" "active ?c y" "a_output (c_att ?c x) = a_output (c_att ?c y)"
    have eq: "active ?c z \<longleftrightarrow> z = a \<or> active (s_coord s) z" for z using run(2) by (auto simp: active_def run_section_def)
    have o: "a_output (c_att ?c z) = a_output (c_att (s_coord s) z)" for z by (simp add: run_section_def)
    have no: "active (s_coord s) z \<Longrightarrow> a_output (c_att (s_coord s) z) = a_output (c_att (s_coord s) a) \<Longrightarrow> z = a" for z
      using run(5) unfolding alone_def active_def by blast
    show "x = y"
      using xy no I(3) unfolding eq o one_each_iff by metis
  qed
  ultimately show ?thesis unfolding run(1) using I(1,4) C(1) by (intro section_both)
next
  note I = csys_invD [OF inv]
  case (permit a)
  let ?c = "on_permit (s_coord s) a"
  have "active (s_coord s) a" using permit(2,3) by (simp add: active_def)
  from one_each_alone [OF I(3) this]
  have "\<And>b. b < c_attempts (s_coord s) \<Longrightarrow> a_output (c_att (s_coord s) b) = a_output (c_att (s_coord s) a) \<Longrightarrow>
      a_phase (c_att (s_coord s) b) \<noteq> Running"
    using permit(3) by (metis phase.distinct(7))
  note C = on_permit_ok [OF I(1) permit(2,3) this]
  have f: "c_effects ?c = no_effects" "c_attempts ?c = c_attempts (s_coord s)"
    "\<And>b. c_att ?c b = (if b = a then (c_att (s_coord s) a)\<lparr>a_phase := Running, a_permit := Held, a_lease := True\<rparr>
       else c_att (s_coord s) b)"
    using I(2) by (simp_all add: on_permit_def Let_def split: option.split)
  then have "owes None (s_coord s) ?c" using quiet_owes [OF C(2)] owes_refl by blast
  moreover have "one_each ?c"
    by (rule one_each_sub [OF I(3)]) (use permit(3) in \<open>auto simp: active_def f split: if_splits\<close>)
  ultimately show ?thesis unfolding permit(1) using I(1,4) C(1) by (intro section_both)
next
  note I = csys_invD [OF inv]
  case (finish a)
  note C = finish_ok [OF I(1,2) finish(2,3)]
  show ?thesis
    unfolding finish(1) using I C by (intro section_both [where took = None] settles_one_each [OF I(3)]) blast+
next
  note I = csys_invD [OF inv]
  case (outer_stop a)
  note C = on_outer_stop_ok [OF I(1,2), of a]
  show ?thesis
    unfolding outer_stop(1) using I C by (intro section_both [where took = None] settles_one_each [OF I(3)]) blast+
next
  note I = csys_invD [OF inv]
  case (complete a r)
  note C = complete_ok [OF I(1,2) complete(2), of r]
  show ?thesis
    unfolding complete(1) using I C by (intro section_both [where took = None] settles_one_each [OF I(3)]) blast+
next
  note I = csys_invD [OF inv]
  case (wait t stop out)
  note C = wait_section_ok [OF I(1,2) wait(2), of stop out]
  show ?thesis
    unfolding wait(1) using I C by (intro section_both [where took = None] settles_one_each [OF I(3)]) blast+
next
  note I = csys_invD [OF inv]
  case (cancel w)
  note C = cancel_wait_ok [OF I(1,2) cancel(2)]
  show ?thesis
    unfolding cancel(1) using I C by (intro section_both [where took = None] settles_one_each [OF I(3)]) blast+
next
  case (act us x l vs)
  with perform_step [OF inv act(2) refl] perform_kept [OF inv act(2) refl] show ?thesis by simp
next
  note I = csys_invD [OF inv]
  case (throws us a l vs d)
  have "books (Some a) d" using I(4) throws(2,3) by (rule pop_take_books)
  then have "csys_inv s' \<and> kept (s_coord d) (s_coord s')"
    using I unfolding throws(1) by (intro reacquired_step) (simp_all add: throws(3))
  then show ?thesis by (simp add: throws(3))
next
  note I = csys_invD [OF inv]
  case (taken a d g)
  have "books (Some a) d" using I(4) taken(2,3) by (rule asked_books)
  then have "csys_inv s' \<and> kept (s_coord d) (s_coord s')"
    using I unfolding taken(1) by (intro reacquired_step) (simp_all add: taken(3))
  then show ?thesis by (simp add: taken(3))
qed

lemmas coord_step_inv = coord_step_both [THEN conjunct1]
lemmas kept_step = coord_step_both [THEN conjunct2]

end
