(* ===== verification/Coordinator_Properties.thy ===== *)
theory Coordinator_Properties
  imports Coordinator_Run
begin

text \<open>
  The properties of the coordinator, in every state it can reach with any number of attempts,
  requests and threads.  The last section holds a small run on which they are instantiated.
\<close>

lemma csys_new_inv: "csys_inv csys_new"
proof -
  have b: "blocked coord_new w \<longleftrightarrow> False" "live coord_new w \<longleftrightarrow> False" for w
    by (simp_all add: blocked_def live_def coord_new_def)
  have on: "blocked_on coord_new a b = {}" for a b by (simp add: blocked_on_def b)
  have f: "c_waits coord_new = []" "c_att coord_new a = new_attempt '''' None" for a
    by (simp_all add: coord_new_def)
  have L: "links_ok coord_new"
    unfolding links_ok_def waits_listed_def by_me_listed_def on_me_listed_def edges_counted_def
    by (simp add: b on f) (simp add: new_attempt_def)
  have "(a, x) \<notin> wait_graph coord_new" for a x
    unfolding wait_graph_iff [OF L] by (simp add: on f new_attempt_def)
  then have g: "wait_graph coord_new = {}" by auto
  have "att_ok (c_att coord_new a)" for a by (simp add: coord_new_def new_attempt_def att_ok_def)
  moreover have "wait_ok coord_new w" for w by (simp add: wait_ok_def b)
  moreover have "rest_ok coord_new"
    unfolding rest_ok_def running_ok_def hurry_ok_def result_ok_def fresh_ok_def g b
    by (simp add: acyclic_def) (simp add: coord_new_def new_attempt_def)
  ultimately have "coord_ok coord_new" using L by (simp add: coord_ok_def table_ok_def)
  moreover have "books None csys_new"
    unfolding books_def csys_new_def csys.simps b
    by (simp add: pending_def) (simp add: coord_new_def new_attempt_def)
  moreover have "one_each coord_new" unfolding one_each_def by (simp add: coord_new_def)
  ultimately show ?thesis
    unfolding csys_inv_def by (simp add: csys_new_def) (simp add: coord_new_def)
qed

interpretation cr: transition_system "\<lambda>s. s = csys_new" coord_step csys_inv
  by unfold_locales (auto simp: csys_new_inv intro: coord_step_inv)

lemma reached_inv: "coord_step\<^sup>*\<^sup>* csys_new s \<Longrightarrow> csys_inv s"
  by (rule cr.reachable_inv [OF refl])

lemma reached:
  assumes "coord_step\<^sup>*\<^sup>* csys_new s"
  shows "coord_ok (s_coord s)" "c_effects (s_coord s) = no_effects" "one_each (s_coord s)" "books None s"
  using csys_invD [OF reached_inv [OF assms]] by blast+

section \<open>A run\<close>

text \<open>
  Attempt 0 builds \<open>x\<close>, attempt 1 builds \<open>y\<close>; both run, then 0 waits on 1, and a reader on 0.
\<close>

definition demo1 :: csys where
  "demo1 = section_end csys_new (snd (create_attempt (s_coord csys_new) ''x'' None))"
definition demo2 :: csys where
  "demo2 = section_end demo1 (snd (create_attempt (s_coord demo1) ''y'' None))"
definition demo3 :: csys where "demo3 = section_end demo2 (run_section (s_coord demo2) 0)"
definition demo4 :: csys where "demo4 = section_end demo3 (on_permit (s_coord demo3) 0)"
definition demo5 :: csys where "demo5 = section_end demo4 (run_section (s_coord demo4) 1)"
definition demo6 :: csys where "demo6 = section_end demo5 (on_permit (s_coord demo5) 1)"
definition demo7 :: csys where
  "demo7 = section_end demo6 (snd (wait_section (s_coord demo6) False 1 (Some ''x'')))"
definition demo8 :: csys where
  "demo8 = section_end demo7 (snd (wait_section (s_coord demo7) False 0 None))"

lemmas coord_eval = section_end_def csys_new_def coord_new_def create_attempt_def actions_def no_effects_def
  new_attempt_def Let_def run_section_def upd_def eff_def updw_def on_permit_def wait_section_def link_def
  add_edge_def edge_count_def block_def give_back_def path_to_def waits_on_def behind_def visit_def hurry_def
  hurry_fuel_def

text \<open>An attempt that runs, and the states with two of them.\<close>

definition demo_attempt :: "string \<Rightarrow> permit \<Rightarrow> bool \<Rightarrow> rid list \<Rightarrow> rid list \<Rightarrow> (aid \<times> nat) list \<Rightarrow> attempt" where
  "demo_attempt out p h by_me on_me es = (new_attempt out None)\<lparr>a_phase := Running, a_permit := p, a_lease := True,
     a_hurried := h, a_waits_by_me := by_me, a_waits_on_me := on_me, a_edges_out := es\<rparr>"

lemma demo2_state: "s_coord demo2 = coord_new\<lparr>c_att := (\<lambda>_. new_attempt '''' None)
    (0 := new_attempt ''x'' None, Suc 0 := new_attempt ''y'' None), c_attempts := 2\<rparr>"
  by (simp add: demo1_def demo2_def coord_eval)

lemma demo4_state: "s_coord demo4 = coord_new\<lparr>c_att := (\<lambda>_. new_attempt '''' None)
    (0 := demo_attempt ''x'' Held False [] [] [], Suc 0 := new_attempt ''y'' None), c_attempts := 2,
    c_running := [''x'' \<mapsto> 0]\<rparr>"
  by (simp add: demo4_def demo3_def demo2_state demo_attempt_def coord_eval fun_upd_twist)

lemma demo6_state: "s_coord demo6 = coord_new\<lparr>c_att := (\<lambda>_. new_attempt '''' None)
    (0 := demo_attempt ''x'' Held False [] [] [], Suc 0 := demo_attempt ''y'' Held False [] [] []), c_attempts := 2,
    c_running := [''x'' \<mapsto> 0, ''y'' \<mapsto> 1]\<rparr>"
  by (simp add: demo6_def demo5_def demo4_state demo_attempt_def coord_eval fun_upd_twist)

lemma demo7_state: "s_coord demo7 = coord_new\<lparr>c_att := (\<lambda>_. new_attempt '''' None)
    (Suc 0 := demo_attempt ''y'' Held False [] [0] [],
     0 := demo_attempt ''x'' Released False [0] [] [(Suc 0, Suc 0)]), c_attempts := 2,
    c_wait := (c_wait coord_new)(0 := \<lparr>w_target = 1, w_requester = Some 0, w_state = Blocked, w_result = No_error\<rparr>),
    c_nwaits := 1, c_waits := [0], c_running := [''x'' \<mapsto> 0, ''y'' \<mapsto> 1], c_calls := [Release_permit 0]\<rparr>"
  by (simp add: demo7_def demo6_state demo_attempt_def coord_eval numeral_2_eq_2 fun_upd_twist)

lemma demo8_state: "s_coord demo8 = coord_new\<lparr>c_att := (\<lambda>_. new_attempt '''' None)
    (0 := demo_attempt ''x'' Released True [0] [Suc 0] [(Suc 0, Suc 0)],
     Suc 0 := demo_attempt ''y'' Held True [] [0] []), c_attempts := 2,
    c_wait := (c_wait coord_new)(0 := \<lparr>w_target = 1, w_requester = Some 0, w_state = Blocked, w_result = No_error\<rparr>,
      Suc 0 := \<lparr>w_target = 0, w_requester = None, w_state = Blocked, w_result = No_error\<rparr>),
    c_nwaits := 2, c_waits := [0, 1], c_running := [''x'' \<mapsto> 0, ''y'' \<mapsto> 1],
    c_calls := [Release_permit 0, Promote_ticket 0, Promote_ticket 1]\<rparr>"
  by (simp add: demo8_def demo7_state demo_attempt_def coord_eval numeral_2_eq_2 fun_upd_twist)

lemmas demo_step = rtranclp.rtrancl_into_rtrancl [of coord_step csys_new]

lemma demo_reached:
  "coord_step\<^sup>*\<^sup>* csys_new demo7" "coord_step\<^sup>*\<^sup>* csys_new demo8"
proof -
  have "coord_step\<^sup>*\<^sup>* csys_new demo1"
    unfolding demo1_def by (rule demo_step [OF rtranclp.rtrancl_refl], rule coord_step.create) simp
  then have "coord_step\<^sup>*\<^sup>* csys_new demo2"
    unfolding demo2_def by (rule demo_step, intro coord_step.create) simp
  then have "coord_step\<^sup>*\<^sup>* csys_new demo3"
    unfolding demo3_def
    by (rule demo_step, intro coord_step.run) (auto simp: demo2_state alone_def over_def new_attempt_def)
  then have "coord_step\<^sup>*\<^sup>* csys_new demo4"
    unfolding demo4_def
    by (rule demo_step, intro coord_step.permit) (simp_all add: demo3_def demo2_state coord_eval)
  then have "coord_step\<^sup>*\<^sup>* csys_new demo5"
    unfolding demo5_def
    by (rule demo_step, intro coord_step.run)
      (auto simp: demo4_state alone_def over_def new_attempt_def demo_attempt_def less_Suc_eq numeral_2_eq_2)
  then have "coord_step\<^sup>*\<^sup>* csys_new demo6"
    unfolding demo6_def
    by (rule demo_step, intro coord_step.permit) (simp_all add: demo5_def demo4_state coord_eval)
  then have 7: "coord_step\<^sup>*\<^sup>* csys_new demo7"
    unfolding demo7_def by (rule demo_step, intro coord_step.wait) (simp add: demo6_state)
  then have "coord_step\<^sup>*\<^sup>* csys_new demo8"
    unfolding demo8_def by (rule demo_step, intro coord_step.wait) (simp add: demo7_state)
  with 7 show "coord_step\<^sup>*\<^sup>* csys_new demo7" "coord_step\<^sup>*\<^sup>* csys_new demo8" by blast+
qed

section \<open>Nothing waits in a circle\<close>

lemma wait_graph_bounded:
  assumes "coord_ok c" and "(a, b) \<in> wait_graph c"
  shows "a < c_attempts c \<and> b < c_attempts c"
proof
  show "b < c_attempts c"
    using coord_graph_valid [OF assms(1)] assms(2) by (auto simp: graph_valid_def wait_graph_def)
  show "a < c_attempts c"
    using assms(2) unfolding wait_graph_iff [OF coord_okD(8) [OF assms(1)]]
  proof
    assume "blocked_on c a b \<noteq> {}"
    then obtain w where "blocked c w" "w_requester (c_wait c w) = Some a" by (auto simp: blocked_on_def)
    with coord_okD(10) [OF assms(1), of w] show ?thesis by (simp add: wait_ok_def blocked_live)
  next
    assume "a_phase (c_att c a) = Pending \<and> a_predecessor (c_att c a) = Some b"
    with coord_okD(7) [OF assms(1)] show ?thesis unfolding fresh_ok_def by (metis leI option.distinct(1))
  qed
qed

lemma finite_wait_graph: "coord_ok c \<Longrightarrow> finite (wait_graph c)"
  by (rule finite_subset [of _ "{..<c_attempts c} \<times> {..<c_attempts c}"]) (auto dest: wait_graph_bounded)

text \<open>C2: In every reachable state no attempt waits, through any chain of waits and
  predecessors, on itself; so from any attempt the chain of what it waits on ends at an attempt
  that waits on nothing, and the builds cannot deadlock on each other.\<close>

theorem no_wait_cycle:
  assumes "coord_step\<^sup>*\<^sup>* csys_new s"
  shows "acyclic (wait_graph (s_coord s)) \<and>
    (\<exists>b. (a, b) \<in> (wait_graph (s_coord s))\<^sup>* \<and> waits_on (s_coord s) b = [])"
proof
  let ?g = "wait_graph (s_coord s)"
  note R = reached [OF assms]
  show ac: "acyclic ?g" using R(1) by (rule coord_okD)
  have "wf (?g\<inverse>)" using finite_wait_graph [OF R(1)] ac by (rule finite_acyclic_wf_converse)
  moreover have "a \<in> {x. (a, x) \<in> ?g\<^sup>*}" by simp
  ultimately obtain b where b: "b \<in> {x. (a, x) \<in> ?g\<^sup>*}" "\<And>y. (y, b) \<in> ?g\<inverse> \<Longrightarrow> y \<notin> {x. (a, x) \<in> ?g\<^sup>*}"
    by (rule wfE_min) blast
  then have "(b, y) \<notin> ?g" for y by (auto intro: rtrancl_into_rtrancl)
  then have "waits_on (s_coord s) b = []" by (cases "waits_on (s_coord s) b") (auto simp: wait_graph_def)
  with b(1) show "\<exists>b. (a, b) \<in> ?g\<^sup>* \<and> waits_on (s_coord s) b = []" by auto
qed

theorem no_wait_cycle_witness:
  "acyclic (wait_graph (s_coord demo8)) \<and>
    (\<exists>b. (0, b) \<in> (wait_graph (s_coord demo8))\<^sup>* \<and> waits_on (s_coord demo8) b = [])"
  by (rule no_wait_cycle [OF demo_reached(2), of 0])

text \<open>The search for a path of waits is exact: from any attempt it finds a path to another,
  returned from its end back to its start and made of waits only, when there is one, and
  nothing when there is none.\<close>

theorem path_to_exact:
  assumes "coord_step\<^sup>*\<^sup>* csys_new s" and "src < c_attempts (s_coord s)"
  shows "if (src, dest) \<in> (wait_graph (s_coord s))\<^sup>*
    then back_path (wait_graph (s_coord s)) src dest (path_to (s_coord s) src dest)
    else path_to (s_coord s) src dest = []"
  by (rule path_to_correct [OF coord_graph_valid [OF reached(1) [OF assms(1)]] assms(2)])

theorem path_to_exact_witness:
  "(0, 1) \<in> (wait_graph (s_coord demo8))\<^sup>* \<and> path_to (s_coord demo8) 0 1 = [1, 0] \<and>
    back_path (wait_graph (s_coord demo8)) 0 1 [1, 0]"
proof -
  have p: "path_to (s_coord demo8) 0 1 = [1, 0]"
    by (simp add: demo8_state demo_attempt_def coord_eval numeral_2_eq_2)
  have "if (0, 1) \<in> (wait_graph (s_coord demo8))\<^sup>*
    then back_path (wait_graph (s_coord demo8)) 0 1 (path_to (s_coord demo8) 0 1)
    else path_to (s_coord demo8) 0 1 = []"
    by (rule path_to_exact [OF demo_reached(2)]) (simp add: demo8_state)
  with p show ?thesis by (simp split: if_splits)
qed



section \<open>Waits and permits\<close>

text \<open>C7: An attempt with an unanswered request is running and not being stopped, and does not
  hold its permit; a request whose target completed is kept only while its permit is being taken
  back, and a blocked one only while its target has no result.\<close>

theorem waiting_holds_no_permit:
  assumes "coord_step\<^sup>*\<^sup>* csys_new s" and "w \<in> set (c_waits (s_coord s))"
  shows "(w_state (c_wait (s_coord s) w) = Blocked \<and> a_result (c_att (s_coord s) (w_target (c_wait (s_coord s) w))) = None \<or>
      w_state (c_wait (s_coord s) w) = Ready \<and> w_requester (c_wait (s_coord s) w) \<noteq> None) \<and>
    (case w_requester (c_wait (s_coord s) w) of None \<Rightarrow> True
     | Some a \<Rightarrow> a_phase (c_att (s_coord s) a) = Running \<and> \<not> a_stopping (c_att (s_coord s) a) \<and>
         a_permit (c_att (s_coord s) a) \<in> {Released, Reacquiring} \<and>
         (w_state (c_wait (s_coord s) w) = Ready \<longrightarrow> a_permit (c_att (s_coord s) a) = Reacquiring))"
proof -
  let ?c = "s_coord s"
  note R = reached [OF assms(1)]
  have lv: "live ?c w" using coord_okD(8) [OF R(1)] assms(2) by (simp add: links_ok_def waits_listed_def)
  have wok: "wait_ok ?c w" using R(1) by (rule coord_okD)
  have b: "w_state (c_wait ?c w) = Blocked \<Longrightarrow> a_result (c_att ?c (w_target (c_wait ?c w))) = None"
    using coord_okD(6) [OF R(1)] lv by (simp add: result_ok_def blocked_def live_def)
  show ?thesis
  proof (cases "w_requester (c_wait ?c w)")
    case None
    with wok lv b show ?thesis by (simp add: wait_ok_def)
  next
    case (Some a)
    note f = wait_okD [OF wok lv Some]
    have "a_permit (c_att ?c a) \<noteq> No_permit" using coord_okD(9) [OF R(1), of a] f(2) by (simp add: att_ok_def)
    with f have "a_permit (c_att ?c a) \<in> {Released, Reacquiring}" by (cases "a_permit (c_att ?c a)") auto
    with f Some b lv show ?thesis by (cases "w_state (c_wait ?c w)") (auto simp: live_def)
  qed
qed

theorem waiting_holds_no_permit_witness:
  "w_state (c_wait (s_coord demo8) 0) = Blocked \<and> a_permit (c_att (s_coord demo8) 0) \<in> {Released, Reacquiring}"
  using waiting_holds_no_permit [OF demo_reached(2), of 0] by (simp add: demo8_state)

text \<open>C6: Every request is answered exactly once: one that is done has exactly one wake-up,
  made or left to be made, and any other has none.\<close>

theorem answered_once:
  assumes "coord_step\<^sup>*\<^sup>* csys_new s" and "w < c_nwaits (s_coord s)"
  shows "count_list (pending s) (Wake w) + count_list (s_woken s) w =
    (if w_state (c_wait (s_coord s) w) = Done then 1 else 0)"
  using booksD(2) [OF reached(4) [OF assms(1)], of w] assms(2) by (simp add: live_def of_bool_def split: if_splits)

theorem answered_once_witness: "count_list (pending demo8) (Wake 0) + count_list (s_woken demo8) 0 = 0"
  using answered_once [OF demo_reached(2), of 0] by (simp add: demo8_state)

text \<open>Once a request is answered its answer never changes, and an attempt once doomed stays
  doomed, so that what its run completes with is the deadlock error whatever its work made.\<close>

theorem answers_final:
  assumes "coord_step\<^sup>*\<^sup>* csys_new s" and "coord_step\<^sup>*\<^sup>* s s'"
  shows "(w < c_nwaits (s_coord s) \<longrightarrow> w_state (c_wait (s_coord s) w) = Done \<longrightarrow>
      c_wait (s_coord s') w = c_wait (s_coord s) w) \<and>
    (a < c_attempts (s_coord s) \<longrightarrow> a_doomed (c_att (s_coord s) a) \<longrightarrow>
      run_result (s_coord s') a oc = Inl Resource_deadlock_would_occur)"
proof -
  have "kept (s_coord s) (s_coord s')"
    using assms(2) reached_inv [OF assms(1)] by (rule cr.steps_monotone) (auto intro: kept_trans kept_step)
  then show ?thesis by (simp add: kept_def run_result_def)
qed

text \<open>An answer, a doom and their witnesses: the reader's request is called off in one step.\<close>

definition demo9 :: csys where "demo9 = section_end demo8 (cancel_wait (s_coord demo8) 1)"

lemma demo9_reached: "coord_step\<^sup>*\<^sup>* csys_new demo9" "coord_step\<^sup>*\<^sup>* demo8 demo9"
proof -
  have "coord_step demo8 demo9"
    unfolding demo9_def by (rule coord_step.cancel) (simp add: demo8_state)
  then show "coord_step\<^sup>*\<^sup>* csys_new demo9" "coord_step\<^sup>*\<^sup>* demo8 demo9"
    using demo_reached(2) by (auto intro: rtranclp.rtrancl_into_rtrancl)
qed

lemma demo9_done: "w_state (c_wait (s_coord demo9) 1) = Done" "c_nwaits (s_coord demo9) = 2" "c_attempts (s_coord demo9) = 2"
  by (simp_all add: demo9_def cancel_wait_def answer_def unlink_def demo8_state demo_attempt_def coord_eval)

theorem answers_final_witness:
  "coord_step\<^sup>*\<^sup>* demo9 (section_end demo9 (finish (s_coord demo9) 1)) \<and>
   c_wait (s_coord (section_end demo9 (finish (s_coord demo9) 1))) 1 = c_wait (s_coord demo9) 1"
proof -
  have "coord_step demo9 (section_end demo9 (finish (s_coord demo9) 1))"
    by (rule coord_step.finish)
      (simp_all add: demo9_def cancel_wait_def answer_def unlink_def demo8_state demo_attempt_def coord_eval)
  then have st: "coord_step\<^sup>*\<^sup>* demo9 (section_end demo9 (finish (s_coord demo9) 1))" by simp
  with answers_final [OF demo9_reached(1) st, of 1 0 "Work_stopped :: unit work_outcome"] demo9_done
  show ?thesis by simp
qed

text \<open>A permit is asked back at most once at a time: a take-back is with the provider, or
  left to be asked for, exactly once while the attempt is reacquiring and not at all otherwise;
  and the lease and the request it needs are there, so that asking cannot fail for want of them.\<close>

theorem one_take_back:
  assumes "coord_step\<^sup>*\<^sup>* csys_new s"
  shows "count_list (pending s) (Take_back a) + count_list (s_asked s) a =
      (if a_permit (c_att (s_coord s) a) = Reacquiring then 1 else 0) \<and>
    (if Take_back a \<in> set (pending s) then a_lease (c_att (s_coord s) a) \<and> a_reacquire (c_att (s_coord s) a) \<noteq> None
     else True)"
proof -
  note R = reached [OF assms]
  have out: "a_reacquire_outstanding (c_att (s_coord s) a) \<longleftrightarrow> a_permit (c_att (s_coord s) a) = Reacquiring"
    using coord_okD(9) [OF R(1), of a] by (simp add: att_ok_def)
  have cnt: "count_list (pending s) (Take_back a) + count_list (s_asked s) a =
      (if a_permit (c_att (s_coord s) a) = Reacquiring then 1 else 0)"
    using booksD(1) [OF R(4), of a] unfolding out by (simp add: of_bool_def split: if_splits)
  have "a_reacquire_outstanding (c_att (s_coord s) a)" if "Take_back a \<in> set (pending s)"
  proof -
    have "count_list (pending s) (Take_back a) \<noteq> 0" using that by (simp add: count_list_0_iff)
    with cnt out show ?thesis by (simp split: if_splits)
  qed
  with cnt outstanding_known [OF R(1)] show ?thesis by (simp add: if_bool_eq_conj)
qed

theorem one_take_back_witness:
  "count_list (pending demo8) (Take_back 0) + count_list (s_asked demo8) 0 = 0"
  using one_take_back [OF demo_reached(2), of 0] by (simp add: demo8_state demo_attempt_def)

text \<open>The run of an attempt completes exactly once after its work ended, and not before a
  take-back of its permit still under way has ended.\<close>

theorem drained_once:
  assumes "coord_step\<^sup>*\<^sup>* csys_new s"
  shows "count_list (pending s) (Drain_done a) + count_list (s_drained s) a =
    (if a_phase (c_att (s_coord s) a) = Ended \<and> a_permit (c_att (s_coord s) a) \<noteq> Reacquiring then 1 else 0)"
proof -
  note R = reached [OF assms]
  have "a_drain (c_att (s_coord s) a) \<longleftrightarrow> a_phase (c_att (s_coord s) a) = Ended \<and> a_permit (c_att (s_coord s) a) = Reacquiring"
    using coord_okD(9) [OF R(1), of a] by (auto simp: att_ok_def)
  with booksD(3) [OF R(4), of a] show ?thesis by (simp add: of_bool_def split: if_splits)
qed

theorem drained_once_witness: "count_list (pending demo8) (Drain_done 0) + count_list (s_drained demo8) 0 = 0"
  using drained_once [OF demo_reached(2), of 0] by (simp add: demo8_state demo_attempt_def)

text \<open>An attempt that is stopped while it runs has its work stopped: the stop was requested
  or is left to be requested by some thread.\<close>

theorem stop_reaches_work:
  assumes "coord_step\<^sup>*\<^sup>* csys_new s" and "a_phase (c_att (s_coord s) a) = Running" and "a_stopping (c_att (s_coord s) a)"
  shows "a_stop (c_att (s_coord s) a) \<or> Stop_work a \<in> set (pending s)"
  using booksD(4) [OF reached(4) [OF assms(1)] assms(3,2)] .

definition demo10 :: csys where "demo10 = section_end demo8 (on_outer_stop (s_coord demo8) 1)"

lemma demo10_reached: "coord_step\<^sup>*\<^sup>* csys_new demo10"
  unfolding demo10_def
  by (rule demo_step [OF demo_reached(2)], rule coord_step.outer_stop) (simp add: demo8_state)

theorem stop_reaches_work_witness:
  "a_stop (c_att (s_coord demo10) 1) \<or> Stop_work 1 \<in> set (pending demo10)"
  by (rule stop_reaches_work [OF demo10_reached])
    (simp_all add: demo10_def on_outer_stop_def stop_attempt_def cancel_waits_of_def demo8_state demo_attempt_def coord_eval)

section \<open>Whom a reader waits for\<close>

text \<open>Everything an outside request waits for, directly or through other attempts, goes
  ahead in the line for permits: it is hurried.\<close>

theorem readers_hurry:
  assumes "coord_step\<^sup>*\<^sup>* csys_new s" and "w \<in> set (c_waits (s_coord s))" and "w_requester (c_wait (s_coord s) w) = None"
    and "(w_target (c_wait (s_coord s) w), b) \<in> (wait_graph (s_coord s))\<^sup>*"
  shows "a_hurried (c_att (s_coord s) b)"
proof -
  let ?c = "s_coord s"
  note R = reached [OF assms(1)]
  have lv: "live ?c w" using coord_okD(8) [OF R(1)] assms(2) by (simp add: links_ok_def waits_listed_def)
  moreover have "w_state (c_wait ?c w) = Blocked" using coord_okD(10) [OF R(1), of w] assms(3) lv by (simp add: wait_ok_def)
  ultimately have "blocked ?c w" by (simp add: live_def blocked_def)
  with coord_okD(5) [OF R(1)] assms(3) have h: "a_hurried (c_att ?c (w_target (c_wait ?c w)))" by (simp add: hurry_ok_def)
  from assms(4) h show ?thesis
    by (induction rule: rtrancl_induct) (use coord_okD(5) [OF R(1)] in \<open>auto simp: hurry_ok_def\<close>)
qed

theorem readers_hurry_witness: "(0, 1) \<in> (wait_graph (s_coord demo8))\<^sup>* \<and> a_hurried (c_att (s_coord demo8) 1)"
proof -
  have "(0, Suc 0) \<in> wait_graph (s_coord demo8)"
    by (simp add: wait_graph_def waits_on_def demo8_state demo_attempt_def)
  then have g: "(0, 1) \<in> (wait_graph (s_coord demo8))\<^sup>*" by auto
  have "a_hurried (c_att (s_coord demo8) 1)"
    by (rule readers_hurry [OF demo_reached(2), of 1]) (use g in \<open>simp_all add: demo8_state\<close>)
  with g show ?thesis by simp
qed

section \<open>Completing, and the books of waits\<close>

text \<open>Completing an attempt leaves no request blocked on it: every one that was gets the
  result, at once or once its own permit is back, and no other request changes.\<close>

theorem complete_answers:
  fixes r :: error_code
  assumes "coord_step\<^sup>*\<^sup>* csys_new s" and "a < c_attempts (s_coord s)"
  defines "c' \<equiv> complete (s_coord s) a r"
  shows "\<not> (w_target (c_wait (s_coord s) w) = a \<and> w \<in> set (c_waits c') \<and> w_state (c_wait c' w) = Blocked) \<and>
    (if w \<in> set (a_waits_on_me (c_att (s_coord s) a)) then w_result (c_wait c' w) = r
     else c_wait c' w = c_wait (s_coord s) w)"
proof -
  note R = reached [OF assms(1)]
  note C = complete_ok [OF R(1,2) assms(2), of r, folded c'_def]
  have on: "w \<in> set (a_waits_on_me (c_att (s_coord s) a)) \<longleftrightarrow> blocked (s_coord s) w \<and> w_target (c_wait (s_coord s) w) = a"
    using links_okD(3) [OF coord_okD(8) [OF R(1)], of a] by (simp add: on_me_listed_def)
  have "w \<in> set (c_waits c') \<Longrightarrow> w_state (c_wait c' w) = Blocked \<Longrightarrow> blocked c' w"
    using coord_okD(8) [of c'] C by (auto simp: links_ok_def waits_listed_def live_def blocked_def)
  with C on show ?thesis by auto
qed

theorem complete_answers_witness: "w_result (c_wait (complete (s_coord demo8) 1 Io_error) 0) = Io_error"
  using complete_answers [OF demo_reached(2), of 1 0 Io_error] by (simp add: demo8_state demo_attempt_def)

text \<open>The counts of edges that the graph is searched by are right: from each attempt to each
  other there is an edge exactly if the first has blocked waits on the second, and its count is
  how many; and the list of waits is that of the unanswered ones, each once.\<close>

theorem edges_count_waits:
  assumes "coord_step\<^sup>*\<^sup>* csys_new s"
  shows "edge_count (s_coord s) a b = card {w \<in> set (c_waits (s_coord s)). w_state (c_wait (s_coord s) w) = Blocked \<and>
      w_requester (c_wait (s_coord s) w) = Some a \<and> w_target (c_wait (s_coord s) w) = b} \<and>
    distinct (c_waits (s_coord s)) \<and>
    set (c_waits (s_coord s)) = {w. w < c_nwaits (s_coord s) \<and> w_state (c_wait (s_coord s) w) \<noteq> Done}"
proof -
  note L = links_okD [OF coord_okD(8) [OF reached(1) [OF assms]]]
  have w: "set (c_waits (s_coord s)) = {w. live (s_coord s) w}" "distinct (c_waits (s_coord s))"
    using L(1) by (simp_all add: waits_listed_def)
  have "blocked_on (s_coord s) a b = {w \<in> set (c_waits (s_coord s)). w_state (c_wait (s_coord s) w) = Blocked \<and>
      w_requester (c_wait (s_coord s) w) = Some a \<and> w_target (c_wait (s_coord s) w) = b}"
    unfolding w(1) by (auto simp: blocked_on_def blocked_def live_def)
  with edge_count_blocked [OF L(4), of a b] w show ?thesis by (simp add: live_def)
qed

theorem edges_count_waits_witness: "edge_count (s_coord demo8) 0 1 =
    card {w \<in> set (c_waits (s_coord demo8)). w_state (c_wait (s_coord demo8) w) = Blocked \<and>
      w_requester (c_wait (s_coord demo8) w) = Some 0 \<and> w_target (c_wait (s_coord demo8) w) = 1}"
  using edges_count_waits [OF demo_reached(2), of 0 1] by blast

text \<open>When an attempt gets its permit no other attempt of its output is in the map of running
  ones, so that it is entered there; and the map holds exactly the attempts that run.\<close>

theorem one_running_per_output:
  assumes "coord_step\<^sup>*\<^sup>* csys_new s"
  shows "(a_phase (c_att (s_coord s) a) = Queued \<longrightarrow> c_running (s_coord s) (a_output (c_att (s_coord s) a)) = None) \<and>
    (c_running (s_coord s) out = Some a \<longleftrightarrow>
       a < c_attempts (s_coord s) \<and> a_phase (c_att (s_coord s) a) = Running \<and> a_output (c_att (s_coord s) a) = out)"
proof
  note R = reached [OF assms]
  show "c_running (s_coord s) out = Some a \<longleftrightarrow>
       a < c_attempts (s_coord s) \<and> a_phase (c_att (s_coord s) a) = Running \<and> a_output (c_att (s_coord s) a) = out"
    by (rule running_iff [OF coord_okD(3) [OF R(1)]])
  show "a_phase (c_att (s_coord s) a) = Queued \<longrightarrow> c_running (s_coord s) (a_output (c_att (s_coord s) a)) = None"
  proof
    assume q: "a_phase (c_att (s_coord s) a) = Queued"
    then have "a < c_attempts (s_coord s)" using coord_okD(7) [OF R(1)] by (metis fresh_ok_def leI phase.distinct(1))
    with q have "active (s_coord s) a" by (simp add: active_def)
    with one_each_alone [OF R(3) this] q have "b < c_attempts (s_coord s) \<Longrightarrow>
        a_output (c_att (s_coord s) b) = a_output (c_att (s_coord s) a) \<Longrightarrow> a_phase (c_att (s_coord s) b) \<noteq> Running" for b
      by (metis phase.distinct(7))
    with running_iff [OF coord_okD(3) [OF R(1)], of "a_output (c_att (s_coord s) a)"]
    show "c_running (s_coord s) (a_output (c_att (s_coord s) a)) = None" by (meson not_Some_eq)
  qed
qed

theorem one_running_per_output_witness: "c_running (s_coord demo8) ''y'' = Some 1 \<and> a_output (c_att (s_coord demo8) 1) = ''y''"
  using one_running_per_output [OF demo_reached(2), of 1 "''y''"] by (simp add: demo8_state)

end
