(* ===== verification/Paths.thy ===== *)
theory Paths
  imports Prelude "HOL-Library.Sublist" "HOL-Library.Char_ord" "HOL-Library.List_Lexorder"
begin

text \<open>
  Strings and paths as the program uses them: the members of \<^verbatim>\<open>std::string_view\<close>
  and, of \<^verbatim>\<open>std::filesystem::path\<close> on a POSIX system, what is asked of a path that was
  normalised.  A relative path that names a file inside a directory is the list of its names
  (\<open>inside\<close>); \<^verbatim>\<open>parent_path\<close> is \<open>butlast\<close>, \<^verbatim>\<open>filename\<close> is \<open>last\<close>, and an ancestor
  is a strict prefix.
\<close>

section \<open>Strings\<close>

definition starts_with :: "'a list \<Rightarrow> 'a list \<Rightarrow> bool" where
  "starts_with s p \<longleftrightarrow> take (length p) s = p"

definition ends_with :: "'a list \<Rightarrow> 'a list \<Rightarrow> bool" where
  "ends_with s p \<longleftrightarrow> length p \<le> length s \<and> drop (length s - length p) s = p"

lemma starts_with_prefix: "starts_with s p \<longleftrightarrow> prefix p s"
  unfolding starts_with_def prefix_def by (metis append_eq_conv_conj append_take_drop_id)

lemma ends_with_suffix: "ends_with s p \<longleftrightarrow> suffix p s"
proof
  assume "ends_with s p"
  then have "take (length s - length p) s @ p = s" by (metis append_take_drop_id ends_with_def)
  then show "suffix p s" by (metis suffixI)
next
  assume "suffix p s"
  then obtain q where "s = q @ p" by (auto simp: suffix_def)
  then show "ends_with s p" by (simp add: ends_with_def)
qed

fun split_on :: "char \<Rightarrow> string \<Rightarrow> string list" where
  "split_on c [] = [[]]"
| "split_on c (x # xs) =
     (if x = c then [] # split_on c xs
      else (case split_on c xs of [] \<Rightarrow> [[x]] | y # ys \<Rightarrow> (x # y) # ys))"

fun join_with :: "char \<Rightarrow> string list \<Rightarrow> string" where
  "join_with c [] = []"
| "join_with c [x] = x"
| "join_with c (x # y # ys) = x @ c # join_with c (y # ys)"

lemma split_on_nonempty [simp]: "split_on c s \<noteq> []"
  by (cases s) (auto split: list.splits)

lemma split_on_free: "c \<notin> set s \<Longrightarrow> split_on c s = [s]"
  by (induction s) auto

lemma split_on_append: "c \<notin> set x \<Longrightarrow> split_on c (x @ c # s) = x # split_on c s"
  by (induction x) auto

lemma split_on_pieces: "x \<in> set (split_on c s) \<Longrightarrow> c \<notin> set x"
  by (induction s arbitrary: x) (auto split: list.splits if_splits)

lemma split_join:
  assumes "xs \<noteq> []" and "\<And>x. x \<in> set xs \<Longrightarrow> c \<notin> set x"
  shows "split_on c (join_with c xs) = xs"
  using assms by (induction c xs rule: join_with.induct) (auto simp: split_on_free split_on_append)

lemma join_split: "join_with c (split_on c s) = s"
proof (induction s)
  case (Cons x s)
  obtain y ys where s: "split_on c s = y # ys" by (cases "split_on c s") auto
  with Cons.IH show ?case by (cases ys) auto
qed simp

text \<open>The decimal representation that \<^verbatim>\<open>std::format\<close> gives a number.\<close>

definition digit :: "nat \<Rightarrow> char" where
  "digit d = ''0123456789'' ! d"

fun decimal :: "nat \<Rightarrow> string" where
  "decimal n = (let d = [digit (n mod 10)] in if 10 \<le> n then decimal (n div 10) @ d else d)"

declare decimal.simps [simp del]

section \<open>Paths\<close>

text \<open>
  The loop of \<^verbatim>\<open>lexically_normal\<close> over the names between the separators: the names kept so
  far, newest first, and whether what was read last leaves the path ending in a separator.
  Repeated separators make empty names, which are skipped like \<^verbatim>\<open>.\<close>.
\<close>

fun normal_loop :: "bool \<Rightarrow> string list \<Rightarrow> string list \<Rightarrow> bool \<Rightarrow> string list \<times> bool" where
  "normal_loop rooted [] st slash = (rev st, slash \<and> st \<noteq> [] \<and> hd st \<noteq> ''..'')"
| "normal_loop rooted (n # ns) st slash =
     (if n = '''' \<or> n = ''.'' then normal_loop rooted ns st True
      else if n = ''..'' then
        (if st \<noteq> [] \<and> hd st \<noteq> ''..'' then normal_loop rooted ns (tl st) True
         else if rooted then normal_loop rooted ns st True
         else normal_loop rooted ns (n # st) False)
      else normal_loop rooted ns (n # st) False)"

definition is_rooted :: "string \<Rightarrow> bool" where
  "is_rooted s = starts_with s ''/''"

definition lexically_normal :: "string \<Rightarrow> string list \<times> bool" where
  "lexically_normal s = normal_loop (is_rooted s) (split_on (CHR ''/'') s) [] False"

definition generic_string :: "string list \<Rightarrow> string" where
  "generic_string p = join_with (CHR ''/'') p"

definition name_ok :: "string \<Rightarrow> bool" where
  "name_ok n \<longleftrightarrow> n \<noteq> '''' \<and> n \<noteq> ''.'' \<and> n \<noteq> ''..'' \<and> CHR ''/'' \<notin> set n"

definition inside :: "string list \<Rightarrow> bool" where
  "inside p \<longleftrightarrow> p \<noteq> [] \<and> (\<forall>n \<in> set p. name_ok n)"

text \<open>The directories above a path, nearest first: the loop over \<^verbatim>\<open>parent_path\<close> until it is empty.\<close>

definition parents :: "string list \<Rightarrow> string list list" where
  "parents p = map (\<lambda>k. take k p) (rev [1..<length p])"

lemma set_parents: "q \<in> set (parents p) \<longleftrightarrow> q \<noteq> [] \<and> strict_prefix q p"
proof -
  have "q \<in> set (parents p) \<longleftrightarrow> (\<exists>k. 0 < k \<and> k < length p \<and> q = take k p)"
    by (auto simp: parents_def image_iff Bex_def Suc_le_eq)
  also have "\<dots> \<longleftrightarrow> q \<noteq> [] \<and> strict_prefix q p"
  proof
    assume "\<exists>k. 0 < k \<and> k < length p \<and> q = take k p"
    then show "q \<noteq> [] \<and> strict_prefix q p" by (auto simp: strict_prefix_def take_is_prefix)
  next
    assume q: "q \<noteq> [] \<and> strict_prefix q p"
    then have "q = take (length q) p" "length q < length p"
      by (auto simp: strict_prefix_def prefix_def)
    with q show "\<exists>k. 0 < k \<and> k < length p \<and> q = take k p" by auto
  qed
  finally show ?thesis .
qed

text \<open>A prefix of names followed by more: how paths below a directory compare.\<close>

lemma strict_prefix_snoc: "strict_prefix p (d @ [n]) \<longleftrightarrow> prefix p d"
  by (auto simp: strict_prefix_def)

lemma inside_prefix: "inside p \<Longrightarrow> q \<noteq> [] \<Longrightarrow> prefix q p \<Longrightarrow> inside q"
  using set_mono_prefix by (fastforce simp: inside_def)

subsection \<open>Normal paths\<close>

definition normal_stack :: "string list \<Rightarrow> bool" where
  "normal_stack st \<longleftrightarrow> (\<exists>us vs. st = us @ vs \<and> (\<forall>n \<in> set us. name_ok n) \<and> (\<forall>n \<in> set vs. n = ''..''))"

lemma normal_stack_push: "normal_stack st \<Longrightarrow> name_ok n \<Longrightarrow> normal_stack (n # st)"
  unfolding normal_stack_def by (metis append_Cons set_ConsD)

lemma normal_stack_pop:
  assumes "normal_stack st" and "st \<noteq> []" and "hd st \<noteq> ''..''"
  shows "normal_stack (tl st)"
proof -
  obtain us vs where s: "st = us @ vs" "\<forall>n \<in> set us. name_ok n" "\<forall>n \<in> set vs. n = ''..''"
    using assms(1) by (auto simp: normal_stack_def)
  with assms(2,3) obtain u us' where "us = u # us'" by (cases us) auto
  with s show ?thesis unfolding normal_stack_def by (metis list.sel(3) append_Cons list.set_intros(2))
qed

lemma normal_stack_up:
  assumes "normal_stack st" and "st = [] \<or> hd st = ''..''"
  shows "normal_stack (''..'' # st)"
proof -
  obtain us vs where s: "st = us @ vs" "\<forall>n \<in> set us. name_ok n" "\<forall>n \<in> set vs. n = ''..''"
    using assms(1) by (auto simp: normal_stack_def)
  with assms(2) have "us = []" by (cases us) (auto simp: name_ok_def)
  with s have "''..'' # st = [] @ (''..'' # vs)" "\<forall>n \<in> set (''..'' # vs). n = ''..''" by auto
  then show ?thesis unfolding normal_stack_def by (metis empty_iff list.set(1))
qed

lemma normal_loop_stack:
  assumes "normal_stack st" and "\<And>n. n \<in> set ns \<Longrightarrow> CHR ''/'' \<notin> set n"
  shows "normal_stack (rev (fst (normal_loop rooted ns st slash)))"
  using assms
proof (induction ns arbitrary: st slash)
  case Nil
  then show ?case by simp
next
  case (Cons n ns)
  have IH: "normal_stack (rev (fst (normal_loop rooted ns st' slash')))" if "normal_stack st'" for st' slash'
    using Cons.IH [OF that] Cons.prems(2) by simp
  consider (skip) "n = '''' \<or> n = ''.''" | (pop) "n = ''..''" "st \<noteq> []" "hd st \<noteq> ''..''"
    | (up) "n = ''..''" "st = [] \<or> hd st = ''..''" | (name) "n \<noteq> ''''" "n \<noteq> ''.''" "n \<noteq> ''..''"
    by blast
  then show ?case
  proof cases
    case skip
    then have "normal_loop rooted (n # ns) st slash = normal_loop rooted ns st True" by auto
    with IH Cons.prems(1) show ?thesis by metis
  next
    case pop
    then have "normal_loop rooted (n # ns) st slash = normal_loop rooted ns (tl st) True" by simp
    with IH [OF normal_stack_pop [OF Cons.prems(1) pop(2,3)]] show ?thesis by metis
  next
    case up
    then have "normal_loop rooted (n # ns) st slash =
        (if rooted then normal_loop rooted ns st True else normal_loop rooted ns (''..'' # st) False)" by auto
    with IH [OF Cons.prems(1)] IH [OF normal_stack_up [OF Cons.prems(1) up(2)]] show ?thesis by metis
  next
    case name
    then have "normal_loop rooted (n # ns) st slash = normal_loop rooted ns (n # st) False" by simp
    moreover have "name_ok n" using name Cons.prems(2) [of n] by (simp add: name_ok_def)
    ultimately show ?thesis using IH [OF normal_stack_push [OF Cons.prems(1)]] by metis
  qed
qed

lemma normal_loop_names:
  "(\<And>n. n \<in> set ns \<Longrightarrow> name_ok n) \<Longrightarrow> ns \<noteq> [] \<Longrightarrow> normal_loop rooted ns st slash = (rev st @ ns, False)"
proof (induction ns arbitrary: st slash)
  case (Cons n ns)
  then have "name_ok n" by simp
  then have "normal_loop rooted (n # ns) st slash = normal_loop rooted ns (n # st) False"
    by (simp add: name_ok_def)
  with Cons show ?case by (cases ns) auto
qed simp

section \<open>Paths inside a directory\<close>

text \<open>
  \<^verbatim>\<open>to_inside_path\<close> of the manifest: the path is refused if it is empty, rooted, without a file
  name (nothing but the directory itself, or ending in a separator), or leads out.
\<close>

definition to_inside_path :: "string \<Rightarrow> string list option" where
  "to_inside_path relative =
     (case lexically_normal relative of (names, slash) \<Rightarrow>
        if relative = '''' \<or> is_rooted relative \<or> slash \<or> names = [] \<or> last names = ''..'' \<or> hd names = ''..''
        then None else Some names)"

lemma to_inside_path_inside:
  assumes "to_inside_path s = Some p"
  shows "inside p"
proof -
  let ?r = "normal_loop (is_rooted s) (split_on (CHR ''/'') s) [] False"
  have p: "fst ?r = p" "p \<noteq> []" "hd p \<noteq> ''..''"
    using assms by (auto simp: to_inside_path_def lexically_normal_def split: prod.splits if_splits)
  have "normal_stack []" by (simp add: normal_stack_def)
  then have "normal_stack (rev (fst ?r))"
    by (rule normal_loop_stack) (rule split_on_pieces)
  then obtain us vs where s: "rev p = us @ vs" "\<forall>n \<in> set us. name_ok n" "\<forall>n \<in> set vs. n = ''..''"
    unfolding p(1) normal_stack_def by blast
  then have rp: "p = rev vs @ rev us" by (metis rev_append rev_rev_ident)
  have "vs = []"
  proof (cases vs rule: rev_cases)
    case (snoc xs x)
    with s(3) rp have "hd p = ''..''" by simp
    with p(3) show ?thesis by simp
  qed
  with rp s(2) p(2) show ?thesis by (simp add: inside_def)
qed

lemma to_inside_path_generic:
  assumes "inside p"
  shows "to_inside_path (generic_string p) = Some p"
proof -
  have names: "\<And>n. n \<in> set p \<Longrightarrow> name_ok n" and ne: "p \<noteq> []" using assms by (auto simp: inside_def)
  have sp: "split_on (CHR ''/'') (generic_string p) = p"
    unfolding generic_string_def using ne names by (intro split_join) (auto simp: name_ok_def)
  have "\<not> is_rooted (generic_string p) \<and> generic_string p \<noteq> []"
  proof -
    obtain n ns where p: "p = n # ns" using ne by (cases p) auto
    then have "n \<noteq> []" "CHR ''/'' \<notin> set n" using names [of n] by (auto simp: name_ok_def)
    then obtain x xs where "n = x # xs" "x \<noteq> CHR ''/''" by (cases n) auto
    then show ?thesis unfolding p generic_string_def is_rooted_def starts_with_def by (cases ns) auto
  qed
  moreover have "hd p \<noteq> ''..''" "last p \<noteq> ''..''" using names ne by (auto simp: name_ok_def)
  ultimately show ?thesis
    using normal_loop_names [OF names ne, of False "[]" False] ne
    by (simp add: to_inside_path_def lexically_normal_def sp)
qed

lemma inside_snoc: "inside (d @ [n]) \<longleftrightarrow> (\<forall>m \<in> set d. name_ok m) \<and> name_ok n"
  by (auto simp: inside_def)

end
