(* ===== verification/Manifest.thy ===== *)
theory Manifest
  imports Paths "HOL-Library.Multiset"
begin

text \<open>
  \<^verbatim>\<open>Manifest\<close> (\<^verbatim>\<open>src/manifest.cpp\<close>): the parser of \<^verbatim>\<open>build.makebelieve\<close> and the
  instantiation of wildcard rules.  A rejected line is the left of a sum, with its message; each
  of the checks a line goes through is one definition, in the order the parser makes them.  The
  \<^verbatim>\<open>std::map\<close>s are association lists sorted by key, which is the order \<^verbatim>\<open>find_if\<close> sees.
\<close>

section \<open>Rules\<close>

datatype build_action = Run | Capture | Copy | Tracing

record rule =
  r_output :: "string list"
  r_action :: build_action
  r_command :: string
  r_wildcard_source :: "string list"
  r_over_outputs :: bool

definition is_wildcard :: "rule \<Rightarrow> bool" where
  "is_wildcard r \<longleftrightarrow> r_wildcard_source r \<noteq> []"

record line_error =
  l_line :: nat
  l_message :: string

section \<open>Words\<close>

definition is_space :: "char \<Rightarrow> bool" where
  "is_space c \<longleftrightarrow> c = CHR '' '' \<or> c = CHR 0x09 \<or> c = CHR 0x0D \<or> c = CHR 0x0A"

definition trim :: "string \<Rightarrow> string" where
  "trim text = rev (dropWhile is_space (rev (dropWhile is_space text)))"

definition first_word :: "string \<Rightarrow> string" where
  "first_word text = takeWhile (\<lambda>c. \<not> is_space c) text"

definition to_action :: "string \<Rightarrow> build_action option" where
  "to_action word =
     (if word = ''run'' then Some Run
      else if word = ''capture'' then Some Capture
      else if word = ''copy'' then Some Copy
      else if word = ''tracing'' then Some Tracing
      else None)"

definition argument_of :: "build_action \<Rightarrow> string" where
  "argument_of a = (if a = Copy then ''path'' else ''command'')"

lemma trim_length: "length (trim s) \<le> length s"
  unfolding trim_def by (metis length_dropWhile_le length_rev le_trans)

lemma trim_hd: "trim s \<noteq> [] \<Longrightarrow> \<not> is_space (hd (trim s))"
proof -
  let ?t = "dropWhile is_space s"
  assume ne: "trim s \<noteq> []"
  have "prefix (trim s) ?t"
    unfolding trim_def by (metis suffix_dropWhile suffix_to_prefix rev_rev_ident)
  then obtain zs where z: "?t = trim s @ zs" by (auto simp: prefix_def)
  have "?t \<noteq> []" using ne by (metis z append_is_Nil_conv)
  moreover have "hd ?t = hd (trim s)" using ne by (metis z hd_append2)
  ultimately show ?thesis using hd_dropWhile [of is_space s] by metis
qed

lemma first_word_nonempty: "trim s \<noteq> [] \<Longrightarrow> first_word (trim s) \<noteq> []"
  using trim_hd [of s] by (cases "trim s") (auto simp: first_word_def)

function first_wildcard_word :: "string \<Rightarrow> string" where
  "first_wildcard_word s =
     (let text = trim s in
      if text = [] then []
      else let word = first_word text in
        if CHR ''*'' \<in> set word then word
        else first_wildcard_word (drop (length word) text))"
  by auto
termination
proof (relation "measure length")
  fix s t word
  assume "t = trim s" "t \<noteq> []" "word = first_word t"
  then have "0 < length word" "0 < length t" "length t \<le> length s"
    using first_word_nonempty [of s] trim_length [of s] by auto
  then have "length t - length word < length s" by linarith
  then show "(drop (length word) t, s) \<in> measure length" by simp
qed simp

declare first_wildcard_word.simps [simp del]

definition is_wildcard_pattern :: "string list \<Rightarrow> bool" where
  "is_wildcard_pattern p \<longleftrightarrow>
     count_list (generic_string p) (CHR ''*'') = 1 \<and> CHR ''*'' \<in> set (last p)"

section \<open>Name patterns\<close>

record name_pattern =
  np_prefix :: string
  np_suffix :: string

definition to_pattern :: "string \<Rightarrow> name_pattern" where
  "to_pattern name =
     (let pre = takeWhile (\<lambda>c. c \<noteq> CHR ''*'') name
      in \<lparr>np_prefix = pre, np_suffix = drop (Suc (length pre)) name\<rparr>)"

definition matches :: "name_pattern \<Rightarrow> string \<Rightarrow> bool" where
  "matches p name \<longleftrightarrow> length (np_prefix p) + length (np_suffix p) < length name \<and>
     starts_with name (np_prefix p) \<and> ends_with name (np_suffix p)"

definition agree :: "string \<Rightarrow> string \<Rightarrow> bool \<Rightarrow> bool" where
  "agree a b front =
     (let longer = (if length b \<le> length a then a else b);
          shorter = (if length b \<le> length a then b else a)
      in if front then starts_with longer shorter else ends_with longer shorter)"

definition overlaps :: "name_pattern \<Rightarrow> name_pattern \<Rightarrow> bool" where
  "overlaps p q \<longleftrightarrow> agree (np_prefix p) (np_prefix q) True \<and> agree (np_suffix p) (np_suffix q) False"

definition stem_of :: "name_pattern \<Rightarrow> string \<Rightarrow> string" where
  "stem_of p name = take (length name - length (np_prefix p) - length (np_suffix p)) (drop (length (np_prefix p)) name)"

definition fill_in :: "string \<Rightarrow> string \<Rightarrow> string" where
  "fill_in stem text = concat (map (\<lambda>c. if c = CHR ''*'' then stem else [c]) text)"

definition instantiate :: "rule \<Rightarrow> string \<Rightarrow> rule option" where
  "instantiate r source_name =
     (let source = to_pattern (last (r_wildcard_source r)) in
      if \<not> matches source source_name then None
      else
        (let stem = stem_of source source_name;
             output = to_pattern (last (r_output r))
         in Some \<lparr>r_output = butlast (r_output r) @ [np_prefix output @ stem @ np_suffix output],
                  r_action = r_action r, r_command = fill_in stem (r_command r),
                  r_wildcard_source = [], r_over_outputs = False\<rparr>))"

section \<open>One line\<close>

text \<open>An element put in a sorted map unless its key is there.\<close>

fun emplace :: "'k::linorder \<Rightarrow> 'v \<Rightarrow> ('k \<times> 'v) list \<Rightarrow> ('k \<times> 'v) list" where
  "emplace k v [] = [(k, v)]"
| "emplace k v ((k', v') # m) =
     (if k < k' then (k, v) # (k', v') # m else if k = k' then (k', v') # m else (k', v') # emplace k v m)"

record banned_suffix =
  b_suffix :: string
  b_line :: nat

record copy_of_output =
  k_rule :: nat
  k_line :: nat
  k_left :: string
  k_source :: "string list"

record parsing =
  p_rules :: "rule list"
  p_errors :: "line_error list"
  p_lines :: "nat list"
  p_files :: "(string list \<times> nat) list"
  p_directories :: "(string list \<times> nat) list"
  p_banned :: "string list \<Rightarrow> banned_suffix list"
  p_copies :: "copy_of_output list"

definition parsing_new :: parsing where
  "parsing_new = \<lparr>p_rules = [], p_errors = [], p_lines = [], p_files = [], p_directories = [],
     p_banned = (\<lambda>_. []), p_copies = []\<rparr>"

definition quoted :: "string \<Rightarrow> string" where
  "quoted s = ''`'' @ s @ ''`''"

text \<open>The parts of a line: what is declared, the action and its argument.\<close>

definition split_line :: "string \<Rightarrow> string + string \<times> build_action \<times> string" where
  "split_line line =
     (if CHR ''='' \<notin> set line then Inl ''expected `@/<output> = <action> <command>`''
      else
        (let left = trim (takeWhile (\<lambda>c. c \<noteq> CHR ''='') line);
             value = trim (tl (dropWhile (\<lambda>c. c \<noteq> CHR ''='') line))
         in if \<not> starts_with left ''@/'' then Inl (''output '' @ quoted left @ '' must start with `@/`'')
            else
              (let word = first_word value in
               case to_action word of
                 None \<Rightarrow> Inl (quoted left @ '' must be assigned `run <command>`, `capture <command>`, `copy <path>` or `tracing`'')
               | Some a \<Rightarrow>
                   (let argument = trim (drop (length word) value) in
                    if a = Tracing then
                      (if argument \<noteq> [] then
                         Inl (quoted left @ '' is assigned `tracing`, which takes no argument, but was given '' @ quoted argument)
                       else Inr (left, a, argument))
                    else if argument = [] then Inl (quoted left @ '' has no '' @ argument_of a)
                    else Inr (left, a, argument)))))"

definition is_wildcard_left :: "string \<Rightarrow> bool" where
  "is_wildcard_left left \<longleftrightarrow> CHR ''*'' \<in> set left"

definition place_text :: "bool \<Rightarrow> string" where
  "place_text generated = (if generated then ''`@/`'' else ''the manifest's directory'')"

text \<open>The pattern a wildcard takes its sources from, and whether they are outputs.\<close>

definition wildcard_source_of :: "string \<Rightarrow> build_action \<Rightarrow> string \<Rightarrow> string + string list \<times> bool" where
  "wildcard_source_of left a argument =
     (if \<not> is_wildcard_left left then Inr ([], False)
      else if a = Tracing then Inl (quoted left @ '' is a wildcard, which `tracing` cannot be'')
      else
        (let pattern = (if a = Copy then argument else first_wildcard_word argument) in
         if pattern = [] then Inl (quoted left @ '' is a wildcard, but its command names no source files with a `*`'')
         else
           (let over_outputs = starts_with pattern ''@/'';
                source = (if CHR 0x22 \<in> set pattern \<or> CHR 0x27 \<in> set pattern then None
                          else to_inside_path (if over_outputs then drop 2 pattern else pattern))
            in case source of
                 Some p \<Rightarrow>
                   if is_wildcard_pattern p then Inr (p, over_outputs)
                   else Inl (quoted left @ '' takes its sources from '' @ quoted pattern @
                     '', which must be an unquoted path inside '' @ place_text over_outputs @
                     '' with a single `*`, in its file name'')
               | None \<Rightarrow> Inl (quoted left @ '' takes its sources from '' @ quoted pattern @
                     '', which must be an unquoted path inside '' @ place_text over_outputs @
                     '' with a single `*`, in its file name''))))"

text \<open>The command as stored, and the output a copy takes, if it takes one.\<close>

definition command_of :: "string \<Rightarrow> build_action \<Rightarrow> string \<Rightarrow> string list option \<Rightarrow> string list \<Rightarrow> bool \<Rightarrow>
    string + string \<times> string list option" where
  "command_of left a argument output wildcard_source over_outputs =
     (if a \<noteq> Copy then Inr (argument, None)
      else if is_wildcard_left left then
        Inr ((if over_outputs then ''@/'' else '''') @ generic_string wildcard_source, None)
      else
        (let generated = starts_with argument ''@/'' in
         case to_inside_path (if generated then drop 2 argument else argument) of
           None \<Rightarrow> Inl (quoted left @ '' copies '' @ quoted argument @ '', which does not name a file inside '' @
                     place_text generated)
         | Some source \<Rightarrow>
             if generated then
               (if Some source = output then Inl (quoted left @ '' copies itself'')
                else Inr (''@/'' @ generic_string source, Some source))
             else Inr (generic_string source, None)))"

text \<open>The suffix banned where a path is that its name ends in, if any.\<close>

definition banned_suffix_of :: "parsing \<Rightarrow> string list \<Rightarrow> banned_suffix option" where
  "banned_suffix_of st path = List.find (\<lambda>b. ends_with (last path) (b_suffix b)) (p_banned st (butlast path))"

definition first_some :: "('a \<Rightarrow> 'b option) \<Rightarrow> 'a list \<Rightarrow> 'b option" where
  "first_some f xs = (case List.find (\<lambda>x. f x \<noteq> None) xs of None \<Rightarrow> None | Some x \<Rightarrow> f x)"

text \<open>Whether the output clashes with a file or a directory declared before.\<close>

definition check_declared :: "parsing \<Rightarrow> string \<Rightarrow> string list option \<Rightarrow> string + string list" where
  "check_declared st left output =
     (case output of
        None \<Rightarrow> Inl (quoted left @ '' does not name a file inside `@/`'')
      | Some out \<Rightarrow>
          if is_wildcard_left left \<and> \<not> is_wildcard_pattern out then
            Inl (quoted left @ '' must have a single `*`, in its file name'')
          else (case map_of (p_files st) out of
            Some n \<Rightarrow> Inl (quoted left @ '' is already declared on line '' @ decimal n)
          | None \<Rightarrow> (case map_of (p_directories st) out of
              Some n \<Rightarrow> Inl (quoted left @ '' is a directory of the output declared on line '' @ decimal n)
            | None \<Rightarrow> (case first_some (map_of (p_files st)) (parents out) of
                Some n \<Rightarrow> Inl (quoted left @ '' is inside the output declared on line '' @ decimal n)
              | None \<Rightarrow> Inr out))))"

text \<open>Whether the output, or a directory of it, ends in a suffix that is banned there.\<close>

definition check_directories :: "parsing \<Rightarrow> string \<Rightarrow> string list \<Rightarrow> string + string list" where
  "check_directories st left out =
     (case first_some (banned_suffix_of st) (parents out) of
        Some b \<Rightarrow> Inl (quoted left @ '' is inside a directory ending in '' @ quoted (b_suffix b) @
                    '', which only files of the wildcard on line '' @ decimal (b_line b) @ '' may'')
      | None \<Rightarrow> Inr out)"

definition ends_in_it :: "string list \<Rightarrow> string \<Rightarrow> string list \<Rightarrow> bool" where
  "ends_in_it directory ending declared \<longleftrightarrow>
     butlast declared = directory \<and> declared \<noteq> [] \<and> ends_with (last declared) ending"

definition check_suffix :: "parsing \<Rightarrow> string \<Rightarrow> string list \<Rightarrow> string + string list" where
  "check_suffix st left out =
     (if \<not> is_wildcard_left left then
        (case banned_suffix_of st out of
           Some b \<Rightarrow> Inl (quoted left @ '' ends in '' @ quoted (b_suffix b) @
                       '', which only outputs of the wildcard on line '' @ decimal (b_line b) @ '' may'')
         | None \<Rightarrow> Inr out)
      else
        (let ending = np_suffix (to_pattern (last out)); directory = butlast out in
         case List.find (\<lambda>d. ends_in_it directory ending (fst d)) (p_files st) of
           Some d \<Rightarrow> Inl (quoted left @ '' bans outputs ending in '' @ quoted ending @
                       '' from its directory, but line '' @ decimal (snd d) @ '' declares one'')
         | None \<Rightarrow> (case List.find (\<lambda>d. ends_in_it directory ending (fst d)) (p_directories st) of
             Some d \<Rightarrow> Inl (quoted left @ '' bans names ending in '' @ quoted ending @
                         '' from its directory, but the output on line '' @ decimal (snd d) @ '' is inside one'')
           | None \<Rightarrow> (case List.find (\<lambda>b. ends_with ending (b_suffix b) \<or> ends_with (b_suffix b) ending)
                         (p_banned st directory) of
               Some b \<Rightarrow> Inl (quoted left @ '' and the wildcard on line '' @ decimal (b_line b) @
                           '' could both produce outputs ending in '' @
                           quoted (if length (b_suffix b) < length ending then ending else b_suffix b))
             | None \<Rightarrow> Inr out))))"

text \<open>The rule a line declares, with the output it copies; or why the line is rejected.\<close>

definition rule_of :: "parsing \<Rightarrow> string \<Rightarrow> string + string \<times> rule \<times> string list option" where
  "rule_of st line =
     and_then (split_line line) (\<lambda>(left, a, argument).
       let output = to_inside_path (drop 2 left) in
       and_then (wildcard_source_of left a argument) (\<lambda>(source, over_outputs).
         and_then (command_of left a argument output source over_outputs) (\<lambda>(command, copied).
           and_then (check_declared st left output) (\<lambda>out.
             and_then (check_directories st left out) (\<lambda>out.
               and_then (check_suffix st left out) (\<lambda>out.
                 Inr (left, \<lparr>r_output = out, r_action = a, r_command = command,
                   r_wildcard_source = source, r_over_outputs = over_outputs\<rparr>, copied)))))))"

definition accept :: "parsing \<Rightarrow> nat \<Rightarrow> string \<Rightarrow> rule \<Rightarrow> string list option \<Rightarrow> parsing" where
  "accept st number left r copied =
     (let out = r_output r;
          directory = butlast out;
          st = (if is_wildcard_left left
                then st\<lparr>p_banned := (p_banned st)(directory := p_banned st directory @
                       [\<lparr>b_suffix = np_suffix (to_pattern (last out)), b_line = number\<rparr>])\<rparr>
                else st\<lparr>p_files := emplace out number (p_files st)\<rparr>);
          st = st\<lparr>p_directories := fold (\<lambda>d m. emplace d number m) (parents out) (p_directories st)\<rparr>;
          st = (case copied of
                  None \<Rightarrow> st
                | Some source \<Rightarrow> st\<lparr>p_copies := p_copies st @
                    [\<lparr>k_rule = length (p_rules st), k_line = number, k_left = left, k_source = source\<rparr>]\<rparr>)
      in st\<lparr>p_lines := p_lines st @ [number], p_rules := p_rules st @ [r]\<rparr>)"

definition parse_line :: "parsing \<Rightarrow> nat \<Rightarrow> string \<Rightarrow> parsing" where
  "parse_line st number text =
     (let line = trim text in
      if line = [] \<or> hd line = CHR ''#'' then st
      else (case rule_of st line of
              Inl message \<Rightarrow> st\<lparr>p_errors := p_errors st @ [\<lparr>l_line = number, l_message = message\<rparr>]\<rparr>
            | Inr (left, r, copied) \<Rightarrow> accept st number left r copied))"

definition numbered :: "string \<Rightarrow> (nat \<times> string) list" where
  "numbered text = (let ls = split_on (CHR 0x0A) text in zip [1..<Suc (length ls)] ls)"

definition parse_lines :: "string \<Rightarrow> parsing" where
  "parse_lines text = fold (\<lambda>(number, line) st. parse_line st number line) (numbered text) parsing_new"

section \<open>Once every line is read\<close>

text \<open>Copies of outputs that no rule declares.\<close>

definition undeclared :: "parsing \<Rightarrow> copy_of_output list" where
  "undeclared st = filter (\<lambda>k. map_of (p_files st) (k_source k) = None) (p_copies st)"

definition copy_error :: "copy_of_output \<Rightarrow> line_error" where
  "copy_error k = \<lparr>l_line = k_line k,
     l_message = quoted (k_left k) @ '' copies '' @ quoted (''@/'' @ generic_string (k_source k)) @ '', which is not declared''\<rparr>"

text \<open>What a rule could produce that another could match, and the closure over chains of such rules.\<close>

definition feeds :: "rule \<Rightarrow> rule \<Rightarrow> bool" where
  "feeds a b \<longleftrightarrow> is_wildcard a \<and> r_over_outputs b \<and>
     butlast (r_output a) = butlast (r_wildcard_source b) \<and>
     overlaps (to_pattern (last (r_output a))) (to_pattern (last (r_wildcard_source b)))"

type_synonym matrix = "bool list list"

definition at :: "matrix \<Rightarrow> nat \<Rightarrow> nat \<Rightarrow> bool" where
  "at m a b = m ! a ! b"

definition feeds_matrix :: "rule list \<Rightarrow> matrix" where
  "feeds_matrix rules = map (\<lambda>a. map (\<lambda>b. feeds a b) rules) rules"

definition close_cell :: "nat \<Rightarrow> nat \<Rightarrow> nat \<Rightarrow> matrix \<Rightarrow> matrix" where
  "close_cell via a b m = m[a := (m ! a)[b := (at m a b \<or> (at m a via \<and> at m via b))]]"

definition close_matrix :: "nat \<Rightarrow> matrix \<Rightarrow> matrix" where
  "close_matrix n m =
     fold (\<lambda>via m. fold (\<lambda>a m. fold (\<lambda>b m. close_cell via a b m) [0..<n] m) [0..<n] m) [0..<n] m"

definition endless :: "rule list \<Rightarrow> nat list" where
  "endless rules =
     (let m = close_matrix (length rules) (feeds_matrix rules) in filter (\<lambda>i. at m i i) [0..<length rules])"

definition endless_error :: "parsing \<Rightarrow> nat \<Rightarrow> line_error" where
  "endless_error st i = \<lparr>l_line = p_lines st ! i,
     l_message = quoted (''@/'' @ generic_string (r_output (p_rules st ! i))) @
       '' could produce its own sources, so its outputs would never end''\<rparr>"

text \<open>The dropped rules, in order and each once, and their removal from the last to the first.\<close>

definition dropped :: "parsing \<Rightarrow> nat list" where
  "dropped st = sort (remdups (map k_rule (undeclared st) @ endless (p_rules st)))"

definition erase_at :: "nat \<Rightarrow> 'a list \<Rightarrow> 'a list" where
  "erase_at i xs = take i xs @ drop (Suc i) xs"

record manifest =
  m_rules :: "rule list"
  m_errors :: "line_error list"

definition finish_parse :: "parsing \<Rightarrow> manifest" where
  "finish_parse st =
     (let errors = p_errors st @ map copy_error (undeclared st) @ map (endless_error st) (endless (p_rules st))
      in \<lparr>m_rules = fold erase_at (rev (dropped st)) (p_rules st),
          m_errors = (if dropped st = [] then errors else sort_key l_line errors)\<rparr>)"

definition parse :: "string \<Rightarrow> manifest" where
  "parse text = finish_parse (parse_lines text)"

end
