(* ===== verification/Manifest_Rules.thy ===== *)
theory Manifest_Rules
  imports Manifest
begin

text \<open>
  Name patterns and what rules can produce; the invariant of the parser: its maps say exactly
  what the accepted rules declare, and no two accepted rules can produce paths of which one is
  the other or a directory of it.
\<close>

section \<open>Patterns\<close>

lemma prefix_same_length: "prefix a b \<Longrightarrow> length b \<le> length a \<Longrightarrow> a = b"
  by (auto simp: prefix_def)

lemma agree_front: "agree a b True \<longleftrightarrow> prefix a b \<or> prefix b a"
  using prefix_same_length [of a b] prefix_length_le [of b a] prefix_length_le [of a b]
  by (cases "length b \<le> length a") (auto simp: agree_def starts_with_prefix)

lemma agree_back: "agree a b False \<longleftrightarrow> suffix a b \<or> suffix b a"
proof -
  have "agree a b False = agree (rev a) (rev b) True"
    by (simp add: agree_def ends_with_suffix starts_with_prefix suffix_to_prefix Let_def)
  then show ?thesis by (simp add: agree_front suffix_to_prefix)
qed

lemma matches_iff:
  "matches p name \<longleftrightarrow> (\<exists>stem. stem \<noteq> [] \<and> name = np_prefix p @ stem @ np_suffix p)"
proof
  assume m: "matches p name"
  then obtain xs where n: "name = np_prefix p @ xs"
    and l: "length (np_prefix p) + length (np_suffix p) < length name"
    by (auto simp: matches_def starts_with_prefix prefix_def)
  have "suffix (np_suffix p) (np_prefix p @ xs)" using m n by (simp add: matches_def ends_with_suffix)
  moreover have "length (np_suffix p) < length xs" using l n by simp
  ultimately have "suffix (np_suffix p) xs"
    by (metis suffix_append suffix_length_le append_Nil2 suffixI suffix_same_cases leD suffix_order.refl)
  then obtain us where "xs = us @ np_suffix p" by (auto simp: suffix_def)
  with n l show "\<exists>stem. stem \<noteq> [] \<and> name = np_prefix p @ stem @ np_suffix p" by auto
next
  assume "\<exists>stem. stem \<noteq> [] \<and> name = np_prefix p @ stem @ np_suffix p"
  then obtain stem where s: "stem \<noteq> []" "name = np_prefix p @ stem @ np_suffix p" by blast
  have "suffix (np_suffix p) ((np_prefix p @ stem) @ np_suffix p)" by (rule suffixI) simp
  with s show "matches p name" by (simp add: matches_def starts_with_prefix ends_with_suffix)
qed

lemma stem_of_eq: "stem_of p (np_prefix p @ stem @ np_suffix p) = stem"
  by (simp add: stem_of_def)

lemma overlaps_iff: "overlaps p q \<longleftrightarrow> (\<exists>name. matches p name \<and> matches q name)"
proof
  assume o: "overlaps p q"
  then have "\<exists>a. prefix (np_prefix p) a \<and> prefix (np_prefix q) a"
    unfolding overlaps_def agree_front by blast
  then obtain a where "prefix (np_prefix p) a" "prefix (np_prefix q) a" by blast
  then obtain a1 a2 where a: "a = np_prefix p @ a1" "a = np_prefix q @ a2" unfolding prefix_def by blast
  have "\<exists>z. suffix (np_suffix p) z \<and> suffix (np_suffix q) z"
    using o unfolding overlaps_def agree_back by blast
  then obtain z where "suffix (np_suffix p) z" "suffix (np_suffix q) z" by blast
  then obtain z1 z2 where z: "z = z1 @ np_suffix p" "z = z2 @ np_suffix q" unfolding suffix_def by blast
  have "a @ ''x'' @ z = np_prefix p @ (a1 @ ''x'' @ z1) @ np_suffix p" using a(1) z(1) by simp
  then have "matches p (a @ ''x'' @ z)" unfolding matches_iff by (intro exI [of _ "a1 @ ''x'' @ z1"]) simp
  moreover have "a @ ''x'' @ z = np_prefix q @ (a2 @ ''x'' @ z2) @ np_suffix q" using a(2) z(2) by simp
  then have "matches q (a @ ''x'' @ z)" unfolding matches_iff by (intro exI [of _ "a2 @ ''x'' @ z2"]) simp
  ultimately show "\<exists>name. matches p name \<and> matches q name" by blast
next
  assume "\<exists>name. matches p name \<and> matches q name"
  then obtain name where n: "matches p name" "matches q name" by blast
  then have "prefix (np_prefix p) name" "prefix (np_prefix q) name" "suffix (np_suffix p) name" "suffix (np_suffix q) name"
    by (simp_all add: matches_def starts_with_prefix ends_with_suffix)
  then show "overlaps p q"
    unfolding overlaps_def agree_front agree_back using prefix_same_cases suffix_same_cases by blast
qed

text \<open>A name with a star is its prefix, the star and its suffix.\<close>

lemma to_pattern_eq:
  assumes "CHR ''*'' \<in> set name"
  shows "name = np_prefix (to_pattern name) @ CHR ''*'' # np_suffix (to_pattern name)"
    and "CHR ''*'' \<notin> set (np_prefix (to_pattern name))"
proof -
  obtain u v where n: "name = u @ CHR ''*'' # v" "CHR ''*'' \<notin> set u"
    using split_list_first [OF assms] by blast
  have "takeWhile (\<lambda>c. c \<noteq> CHR ''*'') name = u"
    using n by (simp add: takeWhile_append2 takeWhile_tail) (metis (mono_tags, lifting) takeWhile_eq_all_conv)
  then have "to_pattern name = \<lparr>np_prefix = u, np_suffix = v\<rparr>"
    using n(1) by (simp add: to_pattern_def)
  with n show "name = np_prefix (to_pattern name) @ CHR ''*'' # np_suffix (to_pattern name)"
    "CHR ''*'' \<notin> set (np_prefix (to_pattern name))" by simp_all
qed

section \<open>What a rule produces\<close>

definition produced :: "rule \<Rightarrow> string list set" where
  "produced r =
     (if is_wildcard r
      then {butlast (r_output r) @ [name] |name. matches (to_pattern (last (r_output r))) name}
      else {r_output r})"

definition apart :: "rule \<Rightarrow> rule \<Rightarrow> bool" where
  "apart a b \<longleftrightarrow> (\<forall>p \<in> produced a. \<forall>q \<in> produced b. \<not> prefix p q \<and> \<not> prefix q p)"

lemma apart_sym: "apart a b \<Longrightarrow> apart b a"
  by (auto simp: apart_def)

definition rule_ok :: "rule \<Rightarrow> bool" where
  "rule_ok r \<longleftrightarrow> inside (r_output r) \<and>
     (if is_wildcard r
      then is_wildcard_pattern (r_output r) \<and> inside (r_wildcard_source r) \<and>
        is_wildcard_pattern (r_wildcard_source r) \<and> r_action r \<noteq> Tracing
      else \<not> r_over_outputs r)"

definition out_suffix :: "rule \<Rightarrow> string" where
  "out_suffix r = np_suffix (to_pattern (last (r_output r)))"

definition files_ok :: "parsing \<Rightarrow> bool" where
  "files_ok st \<longleftrightarrow> (\<forall>p. map_of (p_files st) p \<noteq> None \<longleftrightarrow>
     (\<exists>r \<in> set (p_rules st). \<not> is_wildcard r \<and> r_output r = p))"

definition directories_ok :: "parsing \<Rightarrow> bool" where
  "directories_ok st \<longleftrightarrow> (\<forall>d. map_of (p_directories st) d \<noteq> None \<longleftrightarrow>
     d \<noteq> [] \<and> (\<exists>r \<in> set (p_rules st). strict_prefix d (r_output r)))"

definition banned_ok :: "parsing \<Rightarrow> bool" where
  "banned_ok st \<longleftrightarrow> (\<forall>d s. s \<in> b_suffix ` set (p_banned st d) \<longleftrightarrow>
     (\<exists>r \<in> set (p_rules st). is_wildcard r \<and> butlast (r_output r) = d \<and> out_suffix r = s))"

definition maps_ok :: "parsing \<Rightarrow> bool" where
  "maps_ok st \<longleftrightarrow> files_ok st \<and> directories_ok st \<and> banned_ok st"

lemma files_okD: "files_ok st \<Longrightarrow> map_of (p_files st) p = None \<Longrightarrow> r \<in> set (p_rules st) \<Longrightarrow> \<not> is_wildcard r \<Longrightarrow> r_output r \<noteq> p"
  unfolding files_ok_def by blast

lemma directories_okD:
  "directories_ok st \<Longrightarrow> map_of (p_directories st) d = None \<Longrightarrow> d \<noteq> [] \<Longrightarrow> r \<in> set (p_rules st) \<Longrightarrow>
     \<not> strict_prefix d (r_output r)"
  unfolding directories_ok_def by blast

lemma banned_okD:
  assumes "banned_ok st" and "r \<in> set (p_rules st)" and "is_wildcard r"
  shows "\<exists>b \<in> set (p_banned st (butlast (r_output r))). b_suffix b = out_suffix r"
proof -
  have "out_suffix r \<in> b_suffix ` set (p_banned st (butlast (r_output r)))"
    using assms unfolding banned_ok_def by blast
  then show ?thesis by auto
qed

lemma maps_okD:
  assumes "maps_ok st"
  shows "map_of (p_files st) p = None \<Longrightarrow> r \<in> set (p_rules st) \<Longrightarrow> \<not> is_wildcard r \<Longrightarrow> r_output r \<noteq> p"
    and "map_of (p_directories st) d = None \<Longrightarrow> d \<noteq> [] \<Longrightarrow> r \<in> set (p_rules st) \<Longrightarrow> \<not> strict_prefix d (r_output r)"
    and "r \<in> set (p_rules st) \<Longrightarrow> is_wildcard r \<Longrightarrow> butlast (r_output r) = d \<Longrightarrow>
      \<exists>b \<in> set (p_banned st d). b_suffix b = out_suffix r"
  using assms files_okD directories_okD banned_okD by (simp_all add: maps_ok_def) blast+

lemma first_some_None: "first_some f xs = None \<longleftrightarrow> (\<forall>x \<in> set xs. f x = None)"
proof (cases "List.find (\<lambda>x. f x \<noteq> None) xs")
  case None
  then have "\<forall>x \<in> set xs. f x = None" by (auto simp: find_None_iff)
  with None show ?thesis unfolding first_some_def by simp
next
  case (Some y)
  then have "y \<in> set xs" "f y \<noteq> None" by (auto simp: find_Some_iff)
  then show ?thesis unfolding first_some_def Some by auto
qed

lemma banned_None:
  "banned_suffix_of st p = None \<Longrightarrow> b \<in> set (p_banned st (butlast p)) \<Longrightarrow> \<not> suffix (b_suffix b) (last p)"
  by (auto simp: banned_suffix_of_def find_None_iff ends_with_suffix)

text \<open>A new rule that passed the checks is apart from every rule accepted before.\<close>

lemma matches_suffix: "matches p name \<Longrightarrow> suffix (np_suffix p) name"
  by (auto simp: matches_iff suffix_def)

definition clear :: "parsing \<Rightarrow> rule \<Rightarrow> bool" where
  "clear st r \<longleftrightarrow> map_of (p_files st) (r_output r) = None \<and> map_of (p_directories st) (r_output r) = None \<and>
     (\<forall>q \<in> set (parents (r_output r)). map_of (p_files st) q = None \<and> banned_suffix_of st q = None) \<and>
     (if is_wildcard r
      then (\<forall>p. p \<noteq> [] \<longrightarrow> butlast p = butlast (r_output r) \<longrightarrow> suffix (out_suffix r) (last p) \<longrightarrow>
              map_of (p_files st) p = None \<and> map_of (p_directories st) p = None) \<and>
           (\<forall>b \<in> set (p_banned st (butlast (r_output r))).
              \<not> suffix (b_suffix b) (out_suffix r) \<and> \<not> suffix (out_suffix r) (b_suffix b))
      else banned_suffix_of st (r_output r) = None)"

lemma produced_not_Nil: "rule_ok r \<Longrightarrow> p \<in> produced r \<Longrightarrow> p \<noteq> []"
  by (auto simp: produced_def rule_ok_def inside_def split: if_splits)

lemma clear_apart:
  assumes maps: "maps_ok st" and c: "clear st r" and ok: "rule_ok r" and old: "r' \<in> set (p_rules st)" and ok': "rule_ok r'"
  shows "apart r r'"
  unfolding apart_def
proof (intro ballI conjI)
  note M = maps_okD [OF maps]
  let ?d = "butlast (r_output r)" and ?d' = "butlast (r_output r')"
  have ne: "r_output r \<noteq> []" "r_output r' \<noteq> []" using ok ok' by (auto simp: rule_ok_def inside_def)
  have o: "r_output r = ?d @ [last (r_output r)]" "r_output r' = ?d' @ [last (r_output r')]" using ne by simp_all
  have up: "q \<in> set (parents (r_output r))" if "q \<noteq> []" "prefix q ?d" for q
    unfolding set_parents using that o(1) by (metis strict_prefix_snoc)
  have dir': "strict_prefix q (r_output r')" if "prefix q ?d'" for q
    using that o(2) by (metis strict_prefix_snoc)
  fix p q assume pq: "p \<in> produced r" "q \<in> produced r'"
  have pne: "p \<noteq> []" "q \<noteq> []" using produced_not_Nil pq ok ok' by blast+
  have p: "p = r_output r \<and> \<not> is_wildcard r \<or> is_wildcard r \<and> (\<exists>n. p = ?d @ [n] \<and> suffix (out_suffix r) n)"
    using pq(1) matches_suffix by (fastforce simp: produced_def out_suffix_def split: if_splits)
  have q: "q = r_output r' \<and> \<not> is_wildcard r' \<or> is_wildcard r' \<and> (\<exists>n. q = ?d' @ [n] \<and> suffix (out_suffix r') n)"
    using pq(2) matches_suffix by (fastforce simp: produced_def out_suffix_def split: if_splits)
  have bp: "butlast p = ?d" "butlast q = ?d'" using p q by auto
  have old_file: "\<not> is_wildcard r' \<Longrightarrow> map_of (p_files st) x = None \<Longrightarrow> x \<noteq> q" for x
    using M(1) [OF _ old] q by auto
  have old_dir: "map_of (p_directories st) x = None \<Longrightarrow> x \<noteq> [] \<Longrightarrow> \<not> prefix x ?d'" for x
    using M(2) [OF _ _ old] dir' by blast
  have old_ban: "is_wildcard r' \<Longrightarrow> banned_suffix_of st x = None \<Longrightarrow> x \<noteq> q" for x
    using M(3) [OF old _ refl] banned_None [of st x] q by fastforce
  have above: "map_of (p_files st) x = None" "banned_suffix_of st x = None" if "x \<noteq> []" "prefix x ?d" for x
    using c up [OF that] by (auto simp: clear_def)
  have same: "p \<noteq> q"
  proof
    assume e: "p = q"
    show False
    proof (cases "is_wildcard r")
      case False
      with p e have "q = r_output r" by simp
      with c False old_file old_ban show False by (cases "is_wildcard r'") (auto simp: clear_def)
    next
      case True
      with p obtain n where n: "p = ?d @ [n]" "suffix (out_suffix r) n" by blast
      show False
      proof (cases "is_wildcard r'")
        case False
        have "map_of (p_files st) p = None" using c True n pne(1) by (auto simp: clear_def)
        with old_file [OF False] e show False by blast
      next
        case w: True
        with q e n(1) have d: "?d' = ?d" and "suffix (out_suffix r') n" by auto
        then have "suffix (out_suffix r) (out_suffix r') \<or> suffix (out_suffix r') (out_suffix r)"
          using n(2) by (metis suffix_same_cases)
        moreover obtain b where "b \<in> set (p_banned st ?d)" "b_suffix b = out_suffix r'"
          using M(3) [OF old w] d by blast
        ultimately show False using c True by (auto simp: clear_def)
      qed
    qed
  qed
  show "\<not> prefix p q"
  proof
    assume "prefix p q"
    with same have "strict_prefix p q" by (simp add: strict_prefix_def)
    then have pd: "prefix p ?d'" by (metis pne(2) append_butlast_last_id strict_prefix_snoc bp(2))
    have "map_of (p_directories st) p = None"
    proof (cases "is_wildcard r")
      case False
      with p c show ?thesis by (simp add: clear_def)
    next
      case True
      with p c pne(1) show ?thesis by (auto simp: clear_def)
    qed
    from old_dir [OF this pne(1)] pd show False by blast
  qed
  show "\<not> prefix q p"
  proof
    assume "prefix q p"
    with same have "strict_prefix q p" by (auto simp: strict_prefix_def)
    then have "prefix q ?d" by (metis pne(1) append_butlast_last_id strict_prefix_snoc bp(1))
    with above [OF pne(2) this] old_file [of q] old_ban [of q] show False by blast
  qed
qed

end
