(* ===== verification/Manifest_Closure.thy ===== *)
theory Manifest_Closure
  imports Manifest_Rules
begin

text \<open>
  The two loops of the parser over the accepted rules: the triple loop that closes \<open>feeds\<close> over
  chains of rules computes the transitive closure, and erasing the dropped rules from the last to
  the first removes exactly them.
\<close>

section \<open>The closure\<close>

definition square :: "nat \<Rightarrow> matrix \<Rightarrow> bool" where
  "square n m \<longleftrightarrow> length m = n \<and> (\<forall>row \<in> set m. length row = n)"

definition cells :: "nat \<Rightarrow> matrix \<Rightarrow> (nat \<times> nat) set" where
  "cells n m = {(a, b). a < n \<and> b < n \<and> at m a b}"

lemma square_iff: "square n m \<longleftrightarrow> length m = n \<and> (\<forall>i < n. length (m ! i) = n)"
  by (auto simp: square_def all_set_conv_all_nth)

lemma square_close_cell: "square n m \<Longrightarrow> square n (close_cell via a b m)"
  by (cases "a < n") (auto simp: square_iff close_cell_def nth_list_update)

lemma at_close_cell:
  assumes "square n m" and "a < n" and "b < n"
  shows "at (close_cell via a b m) x y \<longleftrightarrow> at m x y \<or> (x, y) = (a, b) \<and> at m a via \<and> at m via b"
  using assms by (auto simp: at_def close_cell_def square_def nth_list_update)

text \<open>One cell, a row or a whole phase: the cells visited gain the ways through \<open>via\<close>.\<close>

definition gains :: "nat \<Rightarrow> nat \<Rightarrow> (nat \<times> nat) set \<Rightarrow> matrix \<Rightarrow> matrix \<Rightarrow> bool" where
  "gains n via S m m' \<longleftrightarrow> square n m' \<and>
     (\<forall>x y. at m' x y \<longleftrightarrow> at m x y \<or> (x, y) \<in> S \<and> at m x via \<and> at m via y)"

lemma gains_refl: "square n m \<Longrightarrow> gains n via {} m m"
  by (simp add: gains_def)

lemma gains_trans: "gains n via S m m' \<Longrightarrow> gains n via T m' m'' \<Longrightarrow> gains n via (S \<union> T) m m''"
  unfolding gains_def by blast

lemma gains_fold:
  assumes "\<And>x m. x \<in> set xs \<Longrightarrow> square n m \<Longrightarrow> gains n via (S x) m (f x m)" and "square n m"
  shows "gains n via (\<Union>x \<in> set xs. S x) m (fold f xs m)"
  using assms
proof (induction xs arbitrary: m)
  case (Cons x xs)
  then have g: "gains n via (S x) m (f x m)" by simp
  then have "square n (f x m)" by (simp add: gains_def)
  with Cons have "gains n via (\<Union>x \<in> set xs. S x) (f x m) (fold f xs (f x m))" by simp
  from gains_trans [OF g this] show ?case by simp
qed (simp add: gains_refl)

lemma gains_phase:
  assumes "square n m"
  shows "gains n via ({..<n} \<times> {..<n}) m (fold (\<lambda>a m. fold (\<lambda>b m. close_cell via a b m) [0..<n] m) [0..<n] m)"
proof -
  have cell: "gains n via {(a, b)} m (close_cell via a b m)" if "square n m" "a < n" "b < n" for a b m
    using that by (auto simp: gains_def square_close_cell at_close_cell)
  have row: "gains n via (\<Union>b \<in> set [0..<n]. {(a, b)}) m (fold (\<lambda>b m. close_cell via a b m) [0..<n] m)"
    if "square n m" "a < n" for a m
    using that by (intro gains_fold cell) auto
  have "gains n via (\<Union>a \<in> set [0..<n]. \<Union>b \<in> set [0..<n]. {(a, b)}) m
      (fold (\<lambda>a m. fold (\<lambda>b m. close_cell via a b m) [0..<n] m) [0..<n] m)"
    using assms by (intro gains_fold row) auto
  moreover have "(\<Union>a \<in> set [0..<n]. \<Union>b \<in> set [0..<n]. {(a, b)}) = {..<n} \<times> {..<n}" by auto
  ultimately show ?thesis by simp
qed

lemma cells_phase:
  assumes "gains n via ({..<n} \<times> {..<n}) m m'" and "via < n"
  shows "(a, b) \<in> cells n m' \<longleftrightarrow> (a, b) \<in> cells n m \<or> (a, via) \<in> cells n m \<and> (via, b) \<in> cells n m"
  using assms by (auto simp: gains_def cells_def)

definition short :: "('a \<times> 'a) set \<Rightarrow> 'a set \<Rightarrow> bool" where
  "short R K \<longleftrightarrow> (\<forall>a b. \<forall>k \<in> K. (a, k) \<in> R \<longrightarrow> (k, b) \<in> R \<longrightarrow> (a, b) \<in> R)"

lemma close_matrix_trancl:
  assumes sq: "square n m"
  shows "cells n (close_matrix n m) = (cells n m)\<^sup>+"
proof -
  define phase where "phase = (\<lambda>via m. fold (\<lambda>a m. fold (\<lambda>b m. close_cell via a b m) [0..<n] m) [0..<n] m)"
  have inv: "square n (fold phase [0..<k] m) \<and> cells n m \<subseteq> cells n (fold phase [0..<k] m) \<and>
      cells n (fold phase [0..<k] m) \<subseteq> (cells n m)\<^sup>+ \<and> short (cells n (fold phase [0..<k] m)) {..<k}"
    if "k \<le> n" for k
    using that
  proof (induction k)
    case 0
    show ?case using sq by (auto simp: short_def)
  next
    case (Suc k)
    let ?M = "fold phase [0..<k] m" and ?M' = "phase k (fold phase [0..<k] m)"
    from Suc have IH: "square n ?M" "cells n m \<subseteq> cells n ?M" "cells n ?M \<subseteq> (cells n m)\<^sup>+"
      "short (cells n ?M) {..<k}" and k: "k < n" by simp_all
    have g: "gains n k ({..<n} \<times> {..<n}) ?M ?M'" unfolding phase_def using IH(1)
      unfolding phase_def by (rule gains_phase)
    have c: "(a, b) \<in> cells n ?M' \<longleftrightarrow> (a, b) \<in> cells n ?M \<or> (a, k) \<in> cells n ?M \<and> (k, b) \<in> cells n ?M" for a b
      by (rule cells_phase [OF g k])
    have "short (cells n ?M') {..<Suc k}"
      unfolding short_def
    proof (intro allI ballI impI)
      fix a b j assume j: "j \<in> {..<Suc k}" "(a, j) \<in> cells n ?M'" "(j, b) \<in> cells n ?M'"
      show "(a, b) \<in> cells n ?M'"
      proof (cases "j = k")
        case True
        with j(2,3) show ?thesis unfolding c by blast
      next
        case False
        with j(1) have "j < k" by auto
        then have "\<And>a b. (a, j) \<in> cells n ?M \<Longrightarrow> (j, b) \<in> cells n ?M \<Longrightarrow> (a, b) \<in> cells n ?M"
          using IH(4) unfolding short_def by blast
        with j(2,3) show ?thesis unfolding c by blast
      qed
    qed
    moreover have "square n ?M'" using g by (simp add: gains_def)
    moreover have "cells n m \<subseteq> cells n ?M'" using IH(2) c by auto
    moreover have "cells n ?M' \<subseteq> (cells n m)\<^sup>+"
    proof
      fix p assume "p \<in> cells n ?M'"
      then obtain a b where p: "p = (a, b)" "(a, b) \<in> cells n ?M'" by (cases p) auto
      with IH(3) show "p \<in> (cells n m)\<^sup>+" unfolding p(1) c by (meson subsetD trancl_trans)
    qed
    ultimately show ?case by simp
  qed
  have "close_matrix n m = fold phase [0..<n] m" by (simp add: close_matrix_def phase_def)
  with inv [OF order_refl] have i: "cells n m \<subseteq> cells n (close_matrix n m)"
    "cells n (close_matrix n m) \<subseteq> (cells n m)\<^sup>+" "short (cells n (close_matrix n m)) {..<n}" by simp_all
  have "trans (cells n (close_matrix n m))"
  proof (rule transI)
    fix a b c assume "(a, b) \<in> cells n (close_matrix n m)" "(b, c) \<in> cells n (close_matrix n m)"
    moreover from this have "b < n" by (simp add: cells_def)
    ultimately show "(a, c) \<in> cells n (close_matrix n m)" using i(3) by (auto simp: short_def)
  qed
  then have "(cells n (close_matrix n m))\<^sup>+ = cells n (close_matrix n m)" by (rule trancl_id)
  with i show ?thesis using trancl_mono_subset [OF i(1)] by blast
qed

text \<open>The relation between rules, by index.\<close>

definition feeding :: "rule list \<Rightarrow> (nat \<times> nat) set" where
  "feeding rules = {(a, b). a < length rules \<and> b < length rules \<and> feeds (rules ! a) (rules ! b)}"

lemma endless_iff: "i \<in> set (endless rules) \<longleftrightarrow> (i, i) \<in> (feeding rules)\<^sup>+"
proof -
  let ?n = "length rules"
  have sq: "square ?n (feeds_matrix rules)" by (auto simp: square_def feeds_matrix_def)
  have "cells ?n (feeds_matrix rules) = feeding rules"
    by (auto simp: cells_def feeding_def at_def feeds_matrix_def)
  with close_matrix_trancl [OF sq] have "cells ?n (close_matrix ?n (feeds_matrix rules)) = (feeding rules)\<^sup>+" by simp
  moreover have "i \<in> set (endless rules) \<longleftrightarrow> (i, i) \<in> cells ?n (close_matrix ?n (feeds_matrix rules))"
    by (auto simp: endless_def cells_def)
  ultimately show ?thesis by simp
qed

section \<open>Erasing\<close>

lemma erase_at_nths:
  assumes "\<And>i. i \<in> J \<Longrightarrow> i < j"
  shows "nths (erase_at j xs) (- J) = nths xs (- insert j J)"
proof (cases "j < length xs")
  case False
  then have "erase_at j xs = xs" by (simp add: erase_at_def)
  moreover have "nths xs (- J) = nths xs (- insert j J)"
    unfolding nths_def using False by (intro arg_cong [where f = "map fst"] filter_cong refl) (auto simp: set_zip)
  ultimately show ?thesis by simp
next
  case True
  have l: "length (take j xs) = j" using True by simp
  have "nths (take j xs) (- insert j J) = nths (take j xs) (- J)"
    unfolding nths_def using l by (intro arg_cong [where f = "map fst"] filter_cong refl) (auto simp: set_zip)
  moreover have "nths (drop (Suc j) xs) {i. i + j \<in> - J} = drop (Suc j) xs"
    using assms by (intro nths_all) force
  moreover have "nths (drop (Suc j) xs) {i. Suc i + j \<in> - insert j J} = drop (Suc j) xs"
    using assms by (intro nths_all) force
  moreover have "xs = take j xs @ xs ! j # drop (Suc j) xs" using True by (rule id_take_nth_drop)
  then have "nths xs (- insert j J) = nths (take j xs @ xs ! j # drop (Suc j) xs) (- insert j J)" by simp
  ultimately show ?thesis
    by (simp add: erase_at_def nths_append nths_Cons l min_absorb2 True less_imp_le)
qed

lemma fold_erase_at:
  assumes "sorted js" and "distinct js"
  shows "fold erase_at (rev js) xs = nths xs (- set js)"
  using assms
proof (induction js arbitrary: xs rule: rev_induct)
  case Nil
  then show ?case by (simp add: nths_all)
next
  case (snoc j js)
  have "\<And>i. i \<in> set js \<Longrightarrow> i < j" using snoc.prems by (auto simp: sorted_append order_less_le)
  then have "nths (erase_at j xs) (- set js) = nths xs (- insert j (set js))" by (rule erase_at_nths)
  with snoc show ?case by (simp add: sorted_append)
qed

lemma set_dropped: "set (dropped st) = k_rule ` set (undeclared st) \<union> set (endless (p_rules st))"
  by (simp add: dropped_def)

lemma m_rules_eq: "m_rules (finish_parse st) = nths (p_rules st) (- set (dropped st))"
  unfolding finish_parse_def Let_def manifest.simps
  by (rule fold_erase_at) (simp_all add: dropped_def)

end
