(* ===== verification/Manifest_Invariant.thy ===== *)
theory Manifest_Invariant
  imports Manifest_Closure
begin

text \<open>
  Every check of a line read backwards (what holds of a line that passed it), the invariant of
  the parser kept by every line, and what the parsed manifest therefore is.
\<close>

section \<open>The checks read backwards\<close>

lemma wildcard_source_of_Inr:
  assumes "wildcard_source_of left a argument = Inr (source, over)"
  shows "if is_wildcard_left left then inside source \<and> is_wildcard_pattern source \<and> a \<noteq> Tracing
    else source = [] \<and> \<not> over"
  using assms to_inside_path_inside
  by (auto simp: wildcard_source_of_def Let_def split: if_splits option.splits)

lemma command_of_Inr:
  assumes "command_of left a argument output source over = Inr (command, copied)"
  shows "copied = Some p \<Longrightarrow> a = Copy \<and> \<not> is_wildcard_left left \<and> inside p \<and>
      command = ''@/'' @ generic_string p \<and> output \<noteq> Some p"
  using assms to_inside_path_inside
  by (auto simp: command_of_def Let_def split: if_splits option.splits)

lemma check_declared_Inr:
  assumes "check_declared st left output = Inr out"
  shows "output = Some out" "is_wildcard_left left \<Longrightarrow> is_wildcard_pattern out"
    "map_of (p_files st) out = None" "map_of (p_directories st) out = None"
    "\<forall>q \<in> set (parents out). map_of (p_files st) q = None"
  using assms by (auto simp: check_declared_def first_some_None split: option.splits if_splits)

lemma check_directories_Inr:
  assumes "check_directories st left out = Inr out'"
  shows "out' = out" "\<forall>q \<in> set (parents out). banned_suffix_of st q = None"
  using assms by (auto simp: check_directories_def first_some_None split: option.splits)

lemma find_ends_None:
  assumes "List.find (\<lambda>d. ends_in_it directory ending (fst d)) m = None"
    and "p \<noteq> []" and "butlast p = directory" and "suffix ending (last p)"
  shows "map_of m p = None"
proof (rule ccontr)
  assume "map_of m p \<noteq> None"
  then obtain n where "(p, n) \<in> set m" by (auto dest: map_of_SomeD)
  with assms show False by (force simp: find_None_iff ends_in_it_def ends_with_suffix)
qed

lemma check_suffix_Inr:
  assumes "check_suffix st left out = Inr out'"
  shows "out' = out"
    and "\<not> is_wildcard_left left \<Longrightarrow> banned_suffix_of st out = None"
    and "is_wildcard_left left \<Longrightarrow> p \<noteq> [] \<Longrightarrow> butlast p = butlast out \<Longrightarrow>
      suffix (np_suffix (to_pattern (last out))) (last p) \<Longrightarrow>
      map_of (p_files st) p = None \<and> map_of (p_directories st) p = None"
    and "is_wildcard_left left \<Longrightarrow> b \<in> set (p_banned st (butlast out)) \<Longrightarrow>
      \<not> suffix (b_suffix b) (np_suffix (to_pattern (last out))) \<and>
      \<not> suffix (np_suffix (to_pattern (last out))) (b_suffix b)"
proof -
  show "out' = out" and "\<not> is_wildcard_left left \<Longrightarrow> banned_suffix_of st out = None"
    using assms by (auto simp: check_suffix_def Let_def split: if_splits option.splits)
  assume w: "is_wildcard_left left"
  with assms have f:
    "List.find (\<lambda>d. ends_in_it (butlast out) (np_suffix (to_pattern (last out))) (fst d)) (p_files st) = None"
    "List.find (\<lambda>d. ends_in_it (butlast out) (np_suffix (to_pattern (last out))) (fst d)) (p_directories st) = None"
    "List.find (\<lambda>b. ends_with (np_suffix (to_pattern (last out))) (b_suffix b) \<or>
        ends_with (b_suffix b) (np_suffix (to_pattern (last out)))) (p_banned st (butlast out)) = None"
    by (auto simp: check_suffix_def Let_def split: if_splits option.splits)
  show "p \<noteq> [] \<Longrightarrow> butlast p = butlast out \<Longrightarrow>
      suffix (np_suffix (to_pattern (last out))) (last p) \<Longrightarrow>
      map_of (p_files st) p = None \<and> map_of (p_directories st) p = None"
    using find_ends_None [OF f(1)] find_ends_None [OF f(2)] by blast
  show "b \<in> set (p_banned st (butlast out)) \<Longrightarrow>
      \<not> suffix (b_suffix b) (np_suffix (to_pattern (last out))) \<and>
      \<not> suffix (np_suffix (to_pattern (last out))) (b_suffix b)"
    using f(3) by (auto simp: find_None_iff ends_with_suffix)
qed

text \<open>All of them: the rule of a line is well formed and clear of what was declared before.\<close>

lemma rule_of_Inr:
  assumes "rule_of st line = Inr (left, r, copied)"
  shows "rule_ok r" "is_wildcard r \<longleftrightarrow> is_wildcard_left left" "clear st r"
    "copied = Some p \<Longrightarrow> \<not> is_wildcard r \<and> r_action r = Copy \<and> inside p \<and>
      r_command r = ''@/'' @ generic_string p \<and> r_output r \<noteq> p"
proof -
  from assms obtain a argument source over command out out' out'' where
    s: "wildcard_source_of left a argument = Inr (source, over)" and
    c: "command_of left a argument (to_inside_path (drop 2 left)) source over = Inr (command, copied)" and
    d': "check_declared st left (to_inside_path (drop 2 left)) = Inr out'"
       "check_directories st left out' = Inr out''" "check_suffix st left out'' = Inr out" and
    r: "r = \<lparr>r_output = out, r_action = a, r_command = command, r_wildcard_source = source, r_over_outputs = over\<rparr>"
    by (auto simp: rule_of_def and_then_Inr Let_def split: prod.splits)
  have d: "check_declared st left (to_inside_path (drop 2 left)) = Inr out"
       "check_directories st left out = Inr out" "check_suffix st left out = Inr out"
    using d' check_directories_Inr(1) [OF d'(2)] check_suffix_Inr(1) [OF d'(3)] by simp_all
  note S = wildcard_source_of_Inr [OF s] and D = check_declared_Inr [OF d(1)]
    and U = check_directories_Inr [OF d(2)] and X = check_suffix_Inr [OF d(3)]
  show w: "is_wildcard r \<longleftrightarrow> is_wildcard_left left"
    using S by (auto simp: is_wildcard_def r inside_def split: if_splits)
  have "inside out" using D(1) to_inside_path_inside by simp
  then show "rule_ok r" using S D(2) w by (auto simp: rule_ok_def r split: if_splits)
  have o: "r_output r = out" "out_suffix r = np_suffix (to_pattern (last out))"
    by (simp_all add: r out_suffix_def)
  show "clear st r"
    unfolding clear_def w o using D(3-5) U(2) X(2-4) by (cases "is_wildcard_left left") auto
  show "copied = Some p \<Longrightarrow> \<not> is_wildcard r \<and> r_action r = Copy \<and> inside p \<and>
      r_command r = ''@/'' @ generic_string p \<and> r_output r \<noteq> p"
    using command_of_Inr [OF c, of p] D(1) w by (auto simp: r)
qed

section \<open>The invariant\<close>

lemma map_of_emplace: "map_of (emplace k v m) q = None \<longleftrightarrow> q \<noteq> k \<and> map_of m q = None"
  by (induction k v m rule: emplace.induct) auto

lemma map_of_fold_emplace:
  "map_of (fold (\<lambda>d m. emplace d v m) ds m) q = None \<longleftrightarrow> q \<notin> set ds \<and> map_of m q = None"
  by (induction ds arbitrary: m) (auto simp: map_of_emplace)

definition copies_ok :: "parsing \<Rightarrow> bool" where
  "copies_ok st \<longleftrightarrow> distinct (map k_rule (p_copies st)) \<and>
     (\<forall>k \<in> set (p_copies st). k_rule k < length (p_rules st) \<and> k_line k = p_lines st ! k_rule k \<and>
        \<not> is_wildcard (p_rules st ! k_rule k) \<and> r_action (p_rules st ! k_rule k) = Copy \<and>
        r_command (p_rules st ! k_rule k) = ''@/'' @ generic_string (k_source k))"

definition parsing_ok :: "parsing \<Rightarrow> bool" where
  "parsing_ok st \<longleftrightarrow> maps_ok st \<and> (\<forall>r \<in> set (p_rules st). rule_ok r) \<and> sorted_wrt apart (p_rules st) \<and>
     length (p_lines st) = length (p_rules st) \<and> copies_ok st"

lemma accept_fields:
  "p_rules (accept st number left r copied) = p_rules st @ [r]"
  "p_lines (accept st number left r copied) = p_lines st @ [number]"
  "p_errors (accept st number left r copied) = p_errors st"
  "p_files (accept st number left r copied) =
     (if is_wildcard_left left then p_files st else emplace (r_output r) number (p_files st))"
  "p_directories (accept st number left r copied) =
     fold (\<lambda>d m. emplace d number m) (parents (r_output r)) (p_directories st)"
  "p_banned (accept st number left r copied) d =
     p_banned st d @ (if is_wildcard_left left \<and> d = butlast (r_output r)
       then [\<lparr>b_suffix = out_suffix r, b_line = number\<rparr>] else [])"
  "p_copies (accept st number left r copied) = p_copies st @ (case copied of None \<Rightarrow> []
     | Some source \<Rightarrow> [\<lparr>k_rule = length (p_rules st), k_line = number, k_left = left, k_source = source\<rparr>])"
  by (simp_all add: accept_def Let_def out_suffix_def split: option.split)

lemma accept_maps_ok:
  assumes "maps_ok st" and w: "is_wildcard r \<longleftrightarrow> is_wildcard_left left"
  shows "maps_ok (accept st number left r copied)"
proof -
  let ?t = "accept st number left r copied"
  note ok = assms(1) [unfolded maps_ok_def]
  have "files_ok ?t" using ok w unfolding files_ok_def accept_fields by (auto simp: map_of_emplace simp del: not_None_eq)
  moreover have "directories_ok ?t"
    using ok unfolding directories_ok_def accept_fields map_of_fold_emplace set_parents by (auto simp del: not_None_eq)
  moreover have "banned_ok ?t"
    unfolding banned_ok_def
  proof (intro allI)
    fix d s
    have "s \<in> b_suffix ` set (p_banned ?t d) \<longleftrightarrow>
        s \<in> b_suffix ` set (p_banned st d) \<or> is_wildcard r \<and> d = butlast (r_output r) \<and> s = out_suffix r"
      unfolding accept_fields w by auto
    also have "s \<in> b_suffix ` set (p_banned st d) \<longleftrightarrow>
        (\<exists>r \<in> set (p_rules st). is_wildcard r \<and> butlast (r_output r) = d \<and> out_suffix r = s)"
      using ok unfolding banned_ok_def by blast
    finally show "s \<in> b_suffix ` set (p_banned ?t d) \<longleftrightarrow>
        (\<exists>r \<in> set (p_rules ?t). is_wildcard r \<and> butlast (r_output r) = d \<and> out_suffix r = s)"
      unfolding accept_fields by auto
  qed
  ultimately show ?thesis by (simp add: maps_ok_def)
qed

lemma accept_copies_ok:
  assumes ok: "copies_ok st" and l: "length (p_lines st) = length (p_rules st)"
    and c: "\<And>p. copied = Some p \<Longrightarrow> \<not> is_wildcard r \<and> r_action r = Copy \<and> r_command r = ''@/'' @ generic_string p"
  shows "copies_ok (accept st number left r copied)"
proof -
  have "k_rule k < length (p_rules st)" if "k \<in> set (p_copies st)" for k
    using ok that by (auto simp: copies_ok_def)
  then have "length (p_rules st) \<notin> k_rule ` set (p_copies st)" by force
  with ok l c show ?thesis
    by (cases copied) (auto simp: copies_ok_def accept_fields nth_append less_Suc_eq)
qed

lemma accept_ok:
  assumes "parsing_ok st" and r: "rule_of st line = Inr (left, r, copied)"
  shows "parsing_ok (accept st number left r copied)"
proof -
  note R = rule_of_Inr [OF r] and ok = assms(1) [unfolded parsing_ok_def]
  have "\<forall>r' \<in> set (p_rules st). apart r' r"
    using clear_apart [OF _ R(3) R(1)] ok apart_sym by blast
  then show ?thesis
    using ok R(1,4) accept_maps_ok [OF _ R(2)] accept_copies_ok
    by (auto simp: parsing_ok_def accept_fields sorted_wrt_append)
qed

lemma errors_update_ok: "parsing_ok (p_errors_update f st) \<longleftrightarrow> parsing_ok st"
  by (simp add: parsing_ok_def maps_ok_def files_ok_def directories_ok_def banned_ok_def copies_ok_def)

lemma parse_line_ok: "parsing_ok st \<Longrightarrow> parsing_ok (parse_line st number line)"
  by (auto simp: parse_line_def Let_def errors_update_ok accept_ok split: sum.split)

lemma parsing_new_ok: "parsing_ok parsing_new"
  by (simp add: parsing_ok_def parsing_new_def maps_ok_def files_ok_def directories_ok_def banned_ok_def copies_ok_def)

lemma fold_parse_line_ok: "parsing_ok st \<Longrightarrow> parsing_ok (fold (\<lambda>(number, line) st. parse_line st number line) ls st)"
  by (induction ls arbitrary: st) (auto simp: parse_line_ok)

lemma parse_lines_ok: "parsing_ok (parse_lines text)"
  unfolding parse_lines_def by (rule fold_parse_line_ok) (rule parsing_new_ok)

section \<open>Lines\<close>

text \<open>A line says something unless it is empty or a comment.\<close>

definition significant :: "string \<Rightarrow> bool" where
  "significant line \<longleftrightarrow> trim line \<noteq> [] \<and> hd (trim line) \<noteq> CHR ''#''"

lemma parse_line_lines:
  "mset (p_lines (parse_line st number line)) + mset (map l_line (p_errors (parse_line st number line))) =
   mset (p_lines st) + mset (map l_line (p_errors st)) + (if significant line then {#number#} else {#})"
  by (auto simp: parse_line_def significant_def Let_def accept_fields split: sum.split)

lemma fold_parse_line_lines:
  "mset (p_lines (fold (\<lambda>(number, line) st. parse_line st number line) ls st)) +
     mset (map l_line (p_errors (fold (\<lambda>(number, line) st. parse_line st number line) ls st))) =
   mset (p_lines st) + mset (map l_line (p_errors st)) + mset (map fst (filter (significant \<circ> snd) ls))"
proof (induction ls arbitrary: st)
  case (Cons l ls)
  obtain n x where "l = (n, x)" by (cases l)
  with Cons.IH [of "parse_line st n x"] parse_line_lines [of st n x] show ?case by (auto simp: comp_def)
qed simp

definition significant_lines :: "string \<Rightarrow> nat list" where
  "significant_lines text = map fst (filter (significant \<circ> snd) (numbered text))"

lemma parse_lines_lines:
  "mset (p_lines (parse_lines text)) + mset (map l_line (p_errors (parse_lines text))) = mset (significant_lines text)"
  using fold_parse_line_lines [of "numbered text" parsing_new]
  by (simp add: parse_lines_def significant_lines_def parsing_new_def)

lemma sorted_numbered: "sorted_wrt (<) (map fst (numbered text))"
proof -
  have "map fst (numbered text) = [1..<Suc (length (split_on (CHR 0x0A) text))]"
    by (simp add: numbered_def Let_def del: upt_Suc)
  then show ?thesis by (simp del: upt_Suc)
qed

lemma sorted_significant_lines: "sorted_wrt (<) (significant_lines text)"
  using sorted_numbered unfolding significant_lines_def sorted_wrt_map by (rule sorted_wrt_filter)

text \<open>The errors of a parse grow at the end by lines not yet read, so they are sorted already.\<close>

lemma parse_line_errors:
  "p_errors (parse_line st number line) = p_errors st \<or>
   (\<exists>e. p_errors (parse_line st number line) = p_errors st @ [e] \<and> l_line e = number)"
  by (auto simp: parse_line_def Let_def accept_fields split: sum.split)

lemma fold_parse_line_sorted:
  assumes "sorted_wrt (<) (map l_line (p_errors st))" and "sorted_wrt (<) (map fst ls)"
    and "\<forall>e \<in> set (p_errors st). \<forall>l \<in> set ls. l_line e < fst l"
  shows "sorted_wrt (<) (map l_line (p_errors (fold (\<lambda>(number, line) st. parse_line st number line) ls st)))"
  using assms
proof (induction ls arbitrary: st)
  case (Cons l ls)
  obtain n x where l: "l = (n, x)" by (cases l)
  let ?t = "parse_line st n x"
  have "sorted_wrt (<) (map l_line (p_errors ?t))" "\<forall>e \<in> set (p_errors ?t). \<forall>l \<in> set ls. l_line e < fst l"
    using parse_line_errors [of st n x] Cons.prems by (fastforce simp: l sorted_wrt_append)+
  with Cons show ?case by (simp add: l)
qed simp

lemma parse_lines_sorted: "sorted_wrt (<) (map l_line (p_errors (parse_lines text)))"
  unfolding parse_lines_def
  by (rule fold_parse_line_sorted) (simp_all add: parsing_new_def sorted_numbered)

section \<open>The manifest\<close>

lemma feeding_wildcard: "(a, b) \<in> (feeding rules)\<^sup>+ \<Longrightarrow> is_wildcard (rules ! a) \<and> a < length rules"
  by (induction rule: converse_trancl_induct) (auto simp: feeding_def feeds_def)

lemma endless_wildcard: "i \<in> set (endless rules) \<Longrightarrow> is_wildcard (rules ! i) \<and> i < length rules"
  unfolding endless_iff by (rule feeding_wildcard)

lemma endless_distinct: "distinct (endless rules)"
  by (simp add: endless_def Let_def)

text \<open>Each dropped rule is dropped once, with one error on its line.\<close>

lemma dropped_distinct:
  assumes "parsing_ok st"
  shows "distinct (map k_rule (undeclared st) @ endless (p_rules st))"
    and "\<forall>i \<in> set (dropped st). i < length (p_rules st)"
proof -
  have c: "copies_ok st" using assms by (simp add: parsing_ok_def)
  have "distinct (map k_rule (undeclared st))"
    using c by (auto simp: undeclared_def copies_ok_def intro: distinct_map_filter)
  moreover have u: "\<And>k. k \<in> set (undeclared st) \<Longrightarrow> k_rule k < length (p_rules st) \<and> \<not> is_wildcard (p_rules st ! k_rule k)"
    using c by (auto simp: undeclared_def copies_ok_def)
  ultimately show "distinct (map k_rule (undeclared st) @ endless (p_rules st))"
    using endless_distinct endless_wildcard by fastforce
  show "\<forall>i \<in> set (dropped st). i < length (p_rules st)"
    using u endless_wildcard by (auto simp: set_dropped)
qed

lemma errors_lines:
  assumes "parsing_ok st"
  shows "mset (map l_line (m_errors (finish_parse st))) =
    mset (map l_line (p_errors st)) + image_mset ((!) (p_lines st)) (mset (dropped st))"
proof -
  let ?u = "map k_rule (undeclared st) @ endless (p_rules st)"
  have "mset (dropped st) = mset ?u"
    unfolding dropped_def using dropped_distinct(1) [OF assms] by (simp add: distinct_remdups_id)
  moreover have "map (l_line \<circ> copy_error) (undeclared st) = map ((!) (p_lines st)) (map k_rule (undeclared st))"
    using assms by (auto simp: copy_error_def undeclared_def parsing_ok_def copies_ok_def)
  moreover have "map (l_line \<circ> endless_error st) (endless (p_rules st)) = map ((!) (p_lines st)) (endless (p_rules st))"
    by (simp add: endless_error_def)
  moreover have "mset (m_errors (finish_parse st)) =
      mset (p_errors st @ map copy_error (undeclared st) @ map (endless_error st) (endless (p_rules st)))"
    by (simp add: finish_parse_def Let_def)
  then have "mset (map l_line (m_errors (finish_parse st))) = mset (map l_line (p_errors st)) +
      (mset (map (l_line \<circ> copy_error) (undeclared st)) + mset (map (l_line \<circ> endless_error st) (endless (p_rules st))))"
    by (simp add: multiset.map_comp comp_def)
  ultimately show ?thesis by (metis image_mset_union mset_append mset_map)
qed

lemma mset_nths_split: "mset xs = mset (nths xs A) + mset (nths xs (- A))"
proof (induction xs arbitrary: A)
  case (Cons x xs)
  have "- {j. Suc j \<in> A} = {j. Suc j \<in> - A}" by auto
  with Cons [of "{j. Suc j \<in> A}"] show ?case by (simp add: nths_Cons)
qed simp

lemma nths_conv_map_nth: "nths xs A = map ((!) xs) (filter (\<lambda>i. i \<in> A) [0..<length xs])"
proof (induction xs rule: rev_induct)
  case (snoc x xs)
  have "map ((!) (xs @ [x])) (filter (\<lambda>i. i \<in> A) [0..<length xs]) = map ((!) xs) (filter (\<lambda>i. i \<in> A) [0..<length xs])"
    by (auto simp: nth_append)
  with snoc show ?case by (simp add: nths_append nths_singleton)
qed simp

lemma image_mset_nth:
  assumes "distinct js" and "\<forall>j \<in> set js. j < length xs"
  shows "image_mset ((!) xs) (mset js) = mset (nths xs (set js))"
proof -
  have "mset (nths xs (set js)) = mset (map ((!) xs) (filter (\<lambda>i. i \<in> set js) [0..<length xs]))"
    by (simp add: nths_conv_map_nth)
  also have "mset (filter (\<lambda>i. i \<in> set js) [0..<length xs]) = mset js"
    using assms by (intro set_eq_iff_mset_eq_distinct [THEN iffD1]) auto
  then have "mset (map ((!) xs) (filter (\<lambda>i. i \<in> set js) [0..<length xs])) = image_mset ((!) xs) (mset js)"
    by simp
  finally show ?thesis by simp
qed

lemma finish_parse_lines:
  assumes "parsing_ok st"
  shows "mset (nths (p_lines st) (- set (dropped st))) + mset (map l_line (m_errors (finish_parse st))) =
    mset (p_lines st) + mset (map l_line (p_errors st))"
proof -
  have "distinct (dropped st)" "\<forall>i \<in> set (dropped st). i < length (p_lines st)"
    using dropped_distinct(2) [OF assms] assms by (simp_all add: dropped_def parsing_ok_def)
  with errors_lines [OF assms] mset_nths_split [of "p_lines st" "set (dropped st)"] show ?thesis
    by (simp add: image_mset_nth)
qed

lemma sorted_wrt_nths: "sorted_wrt P xs \<Longrightarrow> sorted_wrt P (nths xs A)"
  by (induction xs arbitrary: A) (auto simp: nths_Cons dest: in_set_nthsD)

lemma length_nths_same: "length xs = length ys \<Longrightarrow> length (nths xs A) = length (nths ys A)"
  by (simp add: length_nths)

end
