(* ===== verification/Manifest_Properties.thy ===== *)
theory Manifest_Properties
  imports Manifest_Invariant
begin

text \<open>
  What a parsed manifest guarantees to the build directory: its rules cannot collide, chains of
  wildcards over outputs end, every line that says something is a rule or an error, patterns
  decide what they should and paths never leave their directory.
\<close>

section \<open>Lemmas\<close>

text \<open>The outputs a rule makes: its own, or that of an instance of a wildcard.\<close>

definition makes :: "rule \<Rightarrow> string list \<Rightarrow> bool" where
  "makes r p \<longleftrightarrow> (if is_wildcard r then \<exists>name r'. instantiate r name = Some r' \<and> r_output r' = p else r_output r = p)"

lemma instantiate_iff:
  "instantiate r name = Some r' \<longleftrightarrow>
   (\<exists>stem. stem \<noteq> [] \<and>
      name = np_prefix (to_pattern (last (r_wildcard_source r))) @ stem @ np_suffix (to_pattern (last (r_wildcard_source r))) \<and>
      r' = \<lparr>r_output = butlast (r_output r) @
              [np_prefix (to_pattern (last (r_output r))) @ stem @ np_suffix (to_pattern (last (r_output r)))],
            r_action = r_action r, r_command = fill_in stem (r_command r), r_wildcard_source = [], r_over_outputs = False\<rparr>)"
  (is "_ \<longleftrightarrow> (\<exists>stem. ?Q stem)")
proof
  assume i: "instantiate r name = Some r'"
  then have "matches (to_pattern (last (r_wildcard_source r))) name"
    by (auto simp: instantiate_def Let_def split: if_splits)
  then obtain stem where s: "stem \<noteq> []"
    "name = np_prefix (to_pattern (last (r_wildcard_source r))) @ stem @ np_suffix (to_pattern (last (r_wildcard_source r)))"
    unfolding matches_iff by blast
  then have "?Q stem" using i by (auto simp: instantiate_def Let_def stem_of_eq split: if_splits)
  then show "\<exists>stem. ?Q stem" ..
next
  assume "\<exists>stem. ?Q stem"
  then obtain stem where q: "?Q stem" ..
  then have "matches (to_pattern (last (r_wildcard_source r))) name" unfolding matches_iff by blast
  with q show "instantiate r name = Some r'" by (auto simp: instantiate_def Let_def stem_of_eq)
qed

lemma makes_produced: "makes r p \<Longrightarrow> p \<in> produced r"
  by (auto simp: makes_def produced_def instantiate_iff matches_iff split: if_splits)

lemma m_rules_subset: "set (m_rules (finish_parse st)) \<subseteq> set (p_rules st)"
  by (auto simp: m_rules_eq dest: in_set_nthsD)

lemma parse_rule_ok: "r \<in> set (m_rules (parse t)) \<Longrightarrow> rule_ok r"
  using parse_lines_ok [of t] m_rules_subset [of "parse_lines t"]
  by (auto simp: parse_def parsing_ok_def)

lemma parse_apart: "sorted_wrt apart (m_rules (parse t))"
  using parse_lines_ok [of t] by (simp add: parse_def m_rules_eq parsing_ok_def sorted_wrt_nths)

lemma parse_acyclic: "acyclic (feeding (m_rules (parse t)))"
proof -
  let ?st = "parse_lines t"
  define js where "js = filter (\<lambda>i. i \<in> - set (dropped ?st)) [0..<length (p_rules ?st)]"
  have rules: "m_rules (parse t) = map ((!) (p_rules ?st)) js"
    by (simp add: parse_def m_rules_eq nths_conv_map_nth js_def)
  have js: "\<And>i. i < length js \<Longrightarrow> js ! i < length (p_rules ?st) \<and> js ! i \<notin> set (dropped ?st)"
    unfolding js_def using nth_mem by (metis (no_types, lifting) ComplD atLeastLessThan_iff mem_Collect_eq set_filter set_upt)
  have step: "(a, b) \<in> feeding (m_rules (parse t)) \<Longrightarrow> (js ! a, js ! b) \<in> feeding (p_rules ?st)" for a b
    using js by (auto simp: feeding_def rules)
  have steps: "(js ! a, js ! b) \<in> (feeding (p_rules ?st))\<^sup>+" if "(a, b) \<in> (feeding (m_rules (parse t)))\<^sup>+" for a b
    using that by (induction rule: trancl_induct) (auto dest: step intro: trancl_into_trancl)
  show ?thesis
    unfolding acyclic_def
  proof (intro allI notI)
    fix i assume i: "(i, i) \<in> (feeding (m_rules (parse t)))\<^sup>+"
    then have "i < length (m_rules (parse t))" using feeding_wildcard by blast
    then have "js ! i \<notin> set (dropped ?st)" using js by (simp add: rules)
    moreover have "js ! i \<in> set (endless (p_rules ?st))" using steps [OF i] by (simp add: endless_iff)
    ultimately show False by (simp add: set_dropped)
  qed
qed

text \<open>An output of one rule from which a wildcard over outputs makes another.\<close>

definition leads_to :: "rule list \<Rightarrow> nat \<times> string list \<Rightarrow> nat \<times> string list \<Rightarrow> bool" where
  "leads_to rules = (\<lambda>(i, p) (j, q). i < length rules \<and> j < length rules \<and> makes (rules ! i) p \<and>
     is_wildcard (rules ! j) \<and> r_over_outputs (rules ! j) \<and> butlast p = butlast (r_wildcard_source (rules ! j)) \<and>
     (\<exists>r'. instantiate (rules ! j) (last p) = Some r' \<and> r_output r' = q))"

lemma leads_to_feeding:
  assumes "leads_to rules (i, p) (j, q)" and w: "is_wildcard (rules ! i)"
  shows "(i, j) \<in> feeding rules"
proof -
  have "p \<in> produced (rules ! i)" using assms(1) makes_produced by (auto simp: leads_to_def)
  with w obtain name where p: "p = butlast (r_output (rules ! i)) @ [name]"
    and m: "matches (to_pattern (last (r_output (rules ! i)))) name" by (auto simp: produced_def)
  have "matches (to_pattern (last (r_wildcard_source (rules ! j)))) name"
    using assms(1) p by (auto simp: leads_to_def instantiate_def Let_def split: if_splits)
  with m have "overlaps (to_pattern (last (r_output (rules ! i)))) (to_pattern (last (r_wildcard_source (rules ! j))))"
    unfolding overlaps_iff by blast
  with assms p show ?thesis by (auto simp: leads_to_def feeding_def feeds_def)
qed

lemma successively_trancl:
  "successively (\<lambda>a b. (a, b) \<in> R) xs \<Longrightarrow> i < j \<Longrightarrow> j < length xs \<Longrightarrow> (xs ! i, xs ! j) \<in> R\<^sup>+"
proof (induction xs arbitrary: i j)
  case (Cons x xs)
  then obtain j' where j: "j = Suc j'" "j' < length xs" by (cases j) auto
  from Cons.prems j have s: "successively (\<lambda>a b. (a, b) \<in> R) xs" "(x, xs ! 0) \<in> R"
    by (cases xs; simp)+
  show ?case
  proof (cases i)
    case 0
    show ?thesis
    proof (cases j')
      case 0
      with \<open>i = 0\<close> s j show ?thesis by auto
    next
      case (Suc k)
      with Cons.IH [of 0 j'] s j have "(xs ! 0, xs ! j') \<in> R\<^sup>+" by simp
      with s(2) \<open>i = 0\<close> j show ?thesis by (simp add: trancl_into_trancl2)
    qed
  next
    case (Suc i')
    with Cons j s show ?thesis by simp
  qed
qed simp

lemma leads_to_distinct:
  assumes "acyclic (feeding rules)" and "successively (leads_to rules) steps"
  shows "distinct (map fst steps)"
proof -
  let ?R = "{(i, j). i < length rules \<and> j < length rules \<and> is_wildcard (rules ! j) \<and>
     (is_wildcard (rules ! i) \<longrightarrow> (i, j) \<in> feeding rules)}"
  have "successively (\<lambda>a b. (fst a, fst b) \<in> ?R) steps"
    using assms(2)
  proof (rule successively_mono)
    fix a b assume l: "leads_to rules a b"
    obtain i p j q where "a = (i, p)" "b = (j, q)" by (cases a; cases b)
    with l leads_to_feeding [of rules i p j q] show "(fst a, fst b) \<in> ?R" by (auto simp: leads_to_def)
  qed
  then have s: "successively (\<lambda>a b. (a, b) \<in> ?R) (map fst steps)" by (simp add: successively_map)
  have up: "is_wildcard (rules ! j) \<and> (is_wildcard (rules ! i) \<longrightarrow> (i, j) \<in> (feeding rules)\<^sup>+)" if "(i, j) \<in> ?R\<^sup>+" for i j
    using that by (induction rule: trancl_induct) (auto intro: trancl_into_trancl)
  then have irr: "\<And>i. (i, i) \<notin> ?R\<^sup>+" using assms(1) unfolding acyclic_def by blast
  have less: "map fst steps ! i \<noteq> map fst steps ! j" if ij: "i < j" "j < length (map fst steps)" for i j
    using successively_trancl [OF s ij] irr by metis
  show ?thesis
    unfolding distinct_conv_nth
  proof (intro allI impI)
    fix i j assume "i < length (map fst steps)" "j < length (map fst steps)" "i \<noteq> j"
    with less [of i j] less [of j i] show "map fst steps ! i \<noteq> map fst steps ! j" by (metis nat_neq_iff)
  qed
qed

text \<open>An accepted rule's text, for the examples.\<close>

definition two_rules :: string where
  "two_rules = ''@/*.o = run cc src/*.c'' @ [CHR 0x0A] @ ''@/b = copy c''"

definition loop_rules :: string where
  "loop_rules = ''@/*.b = copy @/*.a'' @ [CHR 0x0A] @ ''@/x.a = copy c'' @ [CHR 0x0A] @ ''# end'' @ [CHR 0x0A] @ ''what''"

section \<open>Properties\<close>

text \<open>
  C33: no two rules of a manifest can make paths that clash: whatever instances their wildcards
  ever get, no path made by one rule is a path made by another or a directory of one.
\<close>

theorem rules_never_collide:
  assumes "i \<noteq> j" and "i < length (m_rules (parse t))" and "j < length (m_rules (parse t))"
    and "makes (m_rules (parse t) ! i) p" and "makes (m_rules (parse t) ! j) q"
  shows "\<not> prefix p q"
proof -
  have "apart (m_rules (parse t) ! i) (m_rules (parse t) ! j)"
    using parse_apart [of t] assms(1-3) apart_sym by (metis nat_neq_iff sorted_wrt_nth_less)
  with makes_produced [OF assms(4)] makes_produced [OF assms(5)] show ?thesis unfolding apart_def by blast
qed

lemma two_rules_make:
  "length (m_rules (parse two_rules)) = 2"
  "makes (m_rules (parse two_rules) ! 1) [''b'']"
proof -
  have m: "m_rules (parse two_rules) =
    [\<lparr>r_output = [''*.o''], r_action = Run, r_command = ''cc src/*.c'', r_wildcard_source = [''src'', ''*.c''], r_over_outputs = False\<rparr>,
     \<lparr>r_output = [''b''], r_action = Copy, r_command = ''c'', r_wildcard_source = [], r_over_outputs = False\<rparr>]"
    by code_simp
  show "length (m_rules (parse two_rules)) = 2" "makes (m_rules (parse two_rules) ! 1) [''b'']"
    unfolding m by (simp_all add: makes_def is_wildcard_def)
qed

lemma two_rules_instance:
  "map_option r_output (instantiate (m_rules (parse two_rules) ! 0) ''x.c'') = Some [''x.o'']"
  "is_wildcard (m_rules (parse two_rules) ! 0)"
  by code_simp+

lemma two_rules_make_instance: "makes (m_rules (parse two_rules) ! 0) [''x.o'']"
  using two_rules_instance by (auto simp: makes_def)

theorem rules_never_collide_witness: "\<not> prefix [''x.o''] [''b'']"
  by (rule rules_never_collide [of 0 1 two_rules, OF _ _ _ two_rules_make_instance two_rules_make(2)])
    (simp_all add: two_rules_make(1))

text \<open>
  Chains of outputs end: when each output of a sequence is made by a wildcard over outputs
  from the one before it, the rules used are pairwise different, so the sequence is no longer
  than the manifest has rules.
\<close>

theorem chains_end:
  assumes "successively (leads_to (m_rules (parse t))) steps" and "2 \<le> length steps"
  shows "length steps \<le> length (m_rules (parse t))"
proof -
  let ?rules = "m_rules (parse t)"
  have "distinct (map fst steps)" using leads_to_distinct [OF parse_acyclic assms(1)] .
  moreover have "set (map fst steps) \<subseteq> {..<length ?rules}"
  proof -
    have "fst (steps ! k) < length ?rules" if k: "k < length steps" for k
    proof (cases "Suc k < length steps")
      case True
      with assms(1) have "leads_to ?rules (steps ! k) (steps ! Suc k)" by (simp add: successively_conv_nth)
      then show ?thesis by (auto simp: leads_to_def split: prod.splits)
    next
      case False
      with assms(2) k obtain k' where "k = Suc k'" "Suc k' < length steps" by (cases k) auto
      moreover from this assms(1) have "leads_to ?rules (steps ! k') (steps ! k)" by (simp add: successively_conv_nth)
      ultimately show ?thesis by (auto simp: leads_to_def split: prod.splits)
    qed
    then show ?thesis by (metis (no_types, lifting) image_subsetI in_set_conv_nth lessThan_iff set_map)
  qed
  ultimately show ?thesis using card_mono [of "{..<length ?rules}" "set (map fst steps)"]
    by (metis card_lessThan distinct_card finite_lessThan length_map)
qed

lemma loop_rules_parsed:
  "m_rules (parse loop_rules) =
    [\<lparr>r_output = [''*.b''], r_action = Copy, r_command = ''@/*.a'', r_wildcard_source = [''*.a''], r_over_outputs = True\<rparr>,
     \<lparr>r_output = [''x.a''], r_action = Copy, r_command = ''c'', r_wildcard_source = [], r_over_outputs = False\<rparr>]"
  by code_simp

lemma loop_rules_lead: "successively (leads_to (m_rules (parse loop_rules))) [(1, [''x.a'']), (0, [''x.b''])]"
  unfolding loop_rules_parsed
  by (simp add: leads_to_def makes_def is_wildcard_def instantiate_def Let_def matches_def to_pattern_def
      starts_with_def ends_with_def stem_of_def)

theorem chains_end_witness:
  "length [(1 :: nat, [''x.a'']), (0, [''x.b''])] \<le> length (m_rules (parse loop_rules))"
  by (rule chains_end [OF loop_rules_lead]) simp

text \<open>
  The rules that the parser drops as endless are exactly those on a cycle of rules of which
  each could make a source of the next: the triple loop computes the transitive closure.
\<close>

theorem endless_exact: "set (endless rules) = {i. (i, i) \<in> {(a, b). a < length rules \<and> b < length rules \<and> feeds (rules ! a) (rules ! b)}\<^sup>+}"
  using endless_iff [of _ rules] unfolding feeding_def by blast

text \<open>
  C35: every rule of a manifest names a file inside the build directory; a wildcard has one star,
  in the last name of its output and in that of its source, which is a path inside its directory,
  and is never a tracing rule.
\<close>

theorem rules_well_formed:
  assumes "r \<in> set (m_rules (parse t))"
  shows "inside (r_output r) \<and>
    (is_wildcard r \<longrightarrow> is_wildcard_pattern (r_output r) \<and> inside (r_wildcard_source r) \<and>
       is_wildcard_pattern (r_wildcard_source r) \<and> r_action r \<noteq> Tracing) \<and>
    (r_over_outputs r \<longrightarrow> is_wildcard r)"
  using parse_rule_ok [OF assms] by (auto simp: rule_ok_def split: if_splits)

theorem rules_well_formed_witness:
  "inside (r_output (m_rules (parse loop_rules) ! 0)) \<and>
    is_wildcard_pattern (r_output (m_rules (parse loop_rules) ! 0)) \<and>
    is_wildcard_pattern (r_wildcard_source (m_rules (parse loop_rules) ! 0)) \<and>
    r_action (m_rules (parse loop_rules) ! 0) \<noteq> Tracing"
  using rules_well_formed [of "m_rules (parse loop_rules) ! 0" loop_rules]
  by (simp add: loop_rules_parsed is_wildcard_def)


text \<open>
  The instances of a wildcard are one to one with the files it matches: two source files
  give the same output only if they are the same file, each output is matched by the pattern of
  the rule's output and the action is the rule's own.
\<close>

theorem instances_one_to_one:
  assumes "instantiate r n1 = Some r1" and "instantiate r n2 = Some r2"
  shows "(r_output r1 = r_output r2 \<longleftrightarrow> n1 = n2) \<and>
    matches (to_pattern (last (r_output r))) (last (r_output r1)) \<and>
    butlast (r_output r1) = butlast (r_output r) \<and> r_action r1 = r_action r \<and> \<not> is_wildcard r1"
  using assms unfolding instantiate_iff by (auto simp: matches_iff is_wildcard_def)

theorem instances_one_to_one_witness:
  "let r = m_rules (parse two_rules) ! 0; r1 = the (instantiate r ''x.c'') in
    (r_output r1 = r_output r1 \<longleftrightarrow> ''x.c'' = ''x.c'') \<and>
    matches (to_pattern (last (r_output r))) (last (r_output r1)) \<and>
    butlast (r_output r1) = butlast (r_output r) \<and> r_action r1 = r_action r \<and> \<not> is_wildcard r1"
proof -
  have i: "instantiate (m_rules (parse two_rules) ! 0) ''x.c'' = Some (the (instantiate (m_rules (parse two_rules) ! 0) ''x.c''))"
    using two_rules_instance(1) by auto
  show ?thesis unfolding Let_def by (rule instances_one_to_one [OF i i])
qed

text \<open>
  C36: a path of the manifest that is accepted stays inside its directory, written back it is the
  same path, and written back it is normal: reading it again changes nothing.
\<close>

theorem inside_path_round_trip:
  assumes "to_inside_path s = Some p"
  shows "inside p \<and> to_inside_path (generic_string p) = Some p"
  using to_inside_path_inside [OF assms] to_inside_path_generic by blast

theorem inside_path_round_trip_witness:
  "inside [''a'', ''c''] \<and> to_inside_path (generic_string [''a'', ''c'']) = Some [''a'', ''c'']"
  by (rule inside_path_round_trip [of "''a/./b/../c''"]) code_simp

section \<open>Where the parser and its promises part\<close>

text \<open>
  A wildcard that matches a source named \<^verbatim>\<open>x..\<close> by \<^verbatim>\<open>x*\<close> makes the output \<^verbatim>\<open>..\<close>, which is
  not inside the build directory: only the pattern went through \<open>to_inside_path\<close>.
\<close>

lemma instance_can_leave:
  "map_option r_output (instantiate (m_rules (parse ''@/* = copy x*'') ! 0) ''x..'') = Some [''..''] \<and>
   \<not> inside [''..'']"
  by code_simp

text \<open>
  A copy of a file below a directory named \<^verbatim>\<open>@\<close> is stored as \<^verbatim>\<open>@/b\<close>, which reads as the copy of
  an output, though no output of that name is declared.
\<close>

lemma copy_of_at_directory:
  "map r_command (m_rules (parse ''@/a = copy ./@/b'')) = [''@/b''] \<and> m_errors (parse ''@/a = copy ./@/b'') = [] \<and>
   map l_line (m_errors (parse ''@/a = copy @/b'')) = [1]"
  by code_simp

text \<open>
  A copy of an output whose own rule is dropped stays in the manifest; the error of the dropped
  rule is the only one.
\<close>

definition dropped_source :: string where
  "dropped_source = ''@/a = copy @/b'' @ [CHR 0x0A] @ ''@/b = copy @/c''"

lemma copy_of_dropped_output:
  "map r_command (m_rules (parse dropped_source)) = [''@/b''] \<and> map l_line (m_errors (parse dropped_source)) = [2]"
  by code_simp

end
