(* ===== verification/Directory_Tree.thy ===== *)
theory Directory_Tree
  imports Paths "HOL-Library.Multiset"
begin

text \<open>
  \<^verbatim>\<open>DirectoryTree\<close> (\<^verbatim>\<open>src/directorytree.hpp\<close>): what a tree reports of its files, and the
  abstract class as the record of its operations at one moment.  The locale \<open>lawful_trees\<close> is
  the contract the callers rely on; \<open>In_Memory_Tree\<close> interprets it.
\<close>

section \<open>What a tree reports\<close>

record file_info =
  f_size :: nat
  f_mtime :: int

record directory_info =
  d_mtime :: int

datatype entry_info = File_entry file_info | Directory_entry directory_info

record file_content =
  fc_bytes :: string
  fc_info :: file_info

record tree_entry =
  t_name :: string
  t_info :: entry_info

record tree_diff =
  everything_dirty :: bool
  entries_changed :: "string list list"
  child_lists_changed :: "string list list"

definition no_diff :: tree_diff where
  "no_diff = \<lparr>everything_dirty = False, entries_changed = [], child_lists_changed = []\<rparr>"

text \<open>How a sender of a file operation completes: with a value or an error, an exception, or stopped.\<close>

datatype 'a completion = Value "'a expected" | Threw | Stopped

record directory_tree =
  dt_status :: "string list \<Rightarrow> entry_info expected"
  dt_ls :: "string list \<Rightarrow> tree_entry list expected"
  dt_open :: "string list \<Rightarrow> file_info completion"
  dt_read :: "string list \<Rightarrow> int \<Rightarrow> nat \<Rightarrow> string completion"
  dt_read_whole :: "string list \<Rightarrow> file_content completion"

section \<open>The contract\<close>

definition names_ok :: "string list \<Rightarrow> bool" where
  "names_ok p \<longleftrightarrow> (\<forall>n \<in> set p. name_ok n)"

lemma names_ok_simps [simp]:
  "names_ok []" "names_ok (p @ q) \<longleftrightarrow> names_ok p \<and> names_ok q" "names_ok (n # p) \<longleftrightarrow> name_ok n \<and> names_ok p"
  by (auto simp: names_ok_def)

lemma inside_names_ok: "inside p \<longleftrightarrow> p \<noteq> [] \<and> names_ok p"
  by (simp add: inside_def names_ok_def)

definition is_file :: "entry_info \<Rightarrow> bool" where
  "is_file i = (case i of File_entry _ \<Rightarrow> True | Directory_entry _ \<Rightarrow> False)"

lemma is_file_simps [simp]: "is_file (File_entry f)" "\<not> is_file (Directory_entry d)"
  by (simp_all add: is_file_def)

lemma is_file_iff: "is_file i \<longleftrightarrow> (\<exists>f. i = File_entry f)" "\<not> is_file i \<longleftrightarrow> (\<exists>d. i = Directory_entry d)"
  by (cases i; simp)+

locale lawful_trees =
  fixes ok :: "'s \<Rightarrow> bool"
    and view :: "'s \<Rightarrow> directory_tree"
  assumes root: "ok s \<Longrightarrow> \<exists>d. dt_status (view s) [] = Inr (Directory_entry d)"
    and listed: "ok s \<Longrightarrow> names_ok p \<Longrightarrow> dt_status (view s) p = Inr (Directory_entry d) \<Longrightarrow>
      \<exists>es. dt_ls (view s) p = Inr es \<and> distinct (map t_name es) \<and>
        (\<forall>n. n \<in> set (map t_name es) \<longleftrightarrow> name_ok n \<and> has_value (dt_status (view s) (p @ [n])))"
    and above: "ok s \<Longrightarrow> names_ok (p @ [n]) \<Longrightarrow> has_value (dt_status (view s) (p @ [n])) \<Longrightarrow>
      \<exists>d. dt_status (view s) p = Inr (Directory_entry d)"
    and read: "ok s \<Longrightarrow> names_ok p \<Longrightarrow> dt_status (view s) p = Inr (File_entry f) \<Longrightarrow>
      \<exists>bytes. length bytes = f_size f \<and> dt_read_whole (view s) p = Value (Inr \<lparr>fc_bytes = bytes, fc_info = f\<rparr>) \<and>
        (\<forall>n. dt_read (view s) p 0 n = Value (Inr (take n bytes)))"
    and shallow: "ok s \<Longrightarrow> \<exists>N. \<forall>p. names_ok p \<longrightarrow> has_value (dt_status (view s) p) \<longrightarrow> length p \<le> N"

end
