(* ===== verification/Tree_Util.thy ===== *)
theory Tree_Util
  imports Directory_Tree
begin

text \<open>
  \<^verbatim>\<open>DirectoryTreeUtil\<close> (\<^verbatim>\<open>src/directorytreeutil.cpp\<close>): opening by status, waiting for a sender and
  the structural comparison of two trees, with its messages.  The comparison recurses once per
  level of directories; its fuel is the number of levels it may go down, and it has no result
  (\<open>None\<close>) if that runs out or a tree throws.
\<close>

section \<open>The functions\<close>

definition open_by_status :: "(string list \<Rightarrow> entry_info expected) \<Rightarrow> string list \<Rightarrow> file_info completion" where
  "open_by_status status path =
     Value (case status path of
        Inl e \<Rightarrow> Inl e
      | Inr info \<Rightarrow> (case info of File_entry f \<Rightarrow> Inr f | Directory_entry d \<Rightarrow> Inl Is_a_directory))"

text \<open>\<^verbatim>\<open>sync_wait\<close>: a stopped sender becomes an error; an exception leaves the caller (\<open>None\<close>).\<close>

definition sync_wait :: "'a completion \<Rightarrow> 'a expected option" where
  "sync_wait c = (case c of Value r \<Rightarrow> Some r | Stopped \<Rightarrow> Some (Inl Operation_canceled) | Threw \<Rightarrow> None)"

definition util_open :: "directory_tree \<Rightarrow> string list \<Rightarrow> file_info expected option" where
  "util_open t path = sync_wait (dt_open t path)"

definition util_read :: "directory_tree \<Rightarrow> string list \<Rightarrow> int \<Rightarrow> nat \<Rightarrow> string expected option" where
  "util_read t path offset len = sync_wait (dt_read t path offset len)"

definition describe :: "string list \<Rightarrow> string" where
  "describe path = (if path = [] then ''<root>'' else generic_string path)"

definition kind_name :: "entry_info \<Rightarrow> string" where
  "kind_name i = (if is_file i then ''a file'' else ''a directory'')"

fun join :: "string list \<Rightarrow> string" where
  "join [] = []"
| "join [x] = x"
| "join (x # y # ys) = x @ '', '' @ join (y # ys)"

definition sorted_names :: "tree_entry list \<Rightarrow> string list" where
  "sorted_names es = sort (map t_name es)"

text \<open>What is compared at one path: a difference found, nothing more to compare, or the children to go into.\<close>

definition diff_files :: "directory_tree \<Rightarrow> directory_tree \<Rightarrow> string list \<Rightarrow> file_info \<Rightarrow> file_info \<Rightarrow> string option" where
  "diff_files a b path file_a file_b =
     (case (util_read a path 0 (f_size file_a), util_read b path 0 (f_size file_b)) of
        (Some (Inr content_a), Some (Inr content_b)) \<Rightarrow>
          Some (if content_a \<noteq> content_b
                then describe path @ '': content differs ('' @ decimal (length content_a) @ '' bytes in a, '' @
                       decimal (length content_b) @ '' bytes in b)''
                else [])
      | (Some ra, Some rb) \<Rightarrow>
          Some (describe path @ '': failed to read from '' @ (if \<not> has_value ra then ''a'' else ''b''))
      | _ \<Rightarrow> None)"

definition diff_lists :: "directory_tree \<Rightarrow> directory_tree \<Rightarrow> string list \<Rightarrow> string + string list" where
  "diff_lists a b path =
     (case (dt_ls a path, dt_ls b path) of
        (Inr ls_a, Inr ls_b) \<Rightarrow>
          (let names_a = sorted_names ls_a; names_b = sorted_names ls_b in
           if names_a \<noteq> names_b
           then Inl (describe path @ '': children differ (a has ['' @ join names_a @ ''], b has ['' @ join names_b @ ''])'')
           else Inr names_a)
      | (ra, rb) \<Rightarrow> Inl (describe path @ '': failed to list '' @ (if \<not> has_value ra then ''a'' else ''b'')))"

text \<open>The children in order, up to the first that differs.\<close>

fun first_diff :: "string option list \<Rightarrow> string option" where
  "first_diff [] = Some []"
| "first_diff (d # ds) = (case d of None \<Rightarrow> None | Some m \<Rightarrow> if m \<noteq> [] then Some m else first_diff ds)"

fun diff_at :: "nat \<Rightarrow> directory_tree \<Rightarrow> directory_tree \<Rightarrow> string list \<Rightarrow> string option" where
  "diff_at 0 a b path = None"
| "diff_at (Suc levels) a b path =
     (case (dt_status a path, dt_status b path) of
        (Inr (File_entry file_a), Inr (File_entry file_b)) \<Rightarrow> diff_files a b path file_a file_b
      | (Inr (Directory_entry _), Inr (Directory_entry _)) \<Rightarrow>
          (case diff_lists a b path of
             Inl message \<Rightarrow> Some message
           | Inr names \<Rightarrow> first_diff (map (\<lambda>name. diff_at levels a b (path @ [name])) names))
      | (Inr info_a, Inr info_b) \<Rightarrow>
          Some (describe path @ '': is '' @ kind_name info_a @ '' in a and '' @ kind_name info_b @ '' in b'')
      | (Inl _, Inl _) \<Rightarrow> Some []
      | (ra, rb) \<Rightarrow> Some (describe path @ '': exists in '' @ (if has_value ra then ''a'' else ''b'') @ '' but not the other''))"

definition diff_trees :: "nat \<Rightarrow> directory_tree \<Rightarrow> directory_tree \<Rightarrow> string option" where
  "diff_trees levels a b = diff_at levels a b []"

definition equal_trees :: "nat \<Rightarrow> directory_tree \<Rightarrow> directory_tree \<Rightarrow> bool option" where
  "equal_trees levels a b = map_option (\<lambda>m. m = []) (diff_trees levels a b)"

section \<open>What the comparison decides\<close>

text \<open>The same kind at every path, and the same bytes in every file.\<close>

definition alike_at :: "directory_tree \<Rightarrow> directory_tree \<Rightarrow> string list \<Rightarrow> bool" where
  "alike_at a b p \<longleftrightarrow>
     (case (dt_status a p, dt_status b p) of
        (Inr (File_entry f), Inr (File_entry g)) \<Rightarrow> dt_read a p 0 (f_size f) = dt_read b p 0 (f_size g)
      | (Inr (Directory_entry _), Inr (Directory_entry _)) \<Rightarrow> True
      | (Inl _, Inl _) \<Rightarrow> True
      | _ \<Rightarrow> False)"

lemma first_diff_Nil: "first_diff ds = Some [] \<longleftrightarrow> (\<forall>d \<in> set ds. d = Some [])"
  by (induction ds) (auto split: option.splits)

lemma first_diff_Some: "(\<forall>d \<in> set ds. d \<noteq> None) \<Longrightarrow> first_diff ds \<noteq> None"
  by (induction ds) (auto split: option.splits)

lemma diff_at_Nil_missing: "diff_at (Suc l) a b p = Some [] \<Longrightarrow> has_value (dt_status a p) \<longleftrightarrow> has_value (dt_status b p)"
  by (cases "dt_status a p"; cases "dt_status b p") (auto split: entry_info.splits)

context lawful_trees
begin

lemma below_file:
  assumes "ok s" and "names_ok (p @ q)" and "\<not> (\<exists>d. dt_status (view s) p = Inr (Directory_entry d))" and "q \<noteq> []"
  shows "\<not> has_value (dt_status (view s) (p @ q))"
  using assms(2,4)
proof (induction q rule: rev_induct)
  case (snoc n q)
  show ?case
  proof
    assume "has_value (dt_status (view s) (p @ q @ [n]))"
    with above [of s "p @ q" n] assms(1) snoc.prems(1)
    obtain d where "dt_status (view s) (p @ q) = Inr (Directory_entry d)" by auto
    with snoc assms(3) show False by (cases "q = []") auto
  qed
qed simp

lemma below_missing:
  assumes "ok s" and "names_ok (p @ q)" and "\<not> has_value (dt_status (view s) p)"
  shows "\<not> has_value (dt_status (view s) (p @ q))"
proof (cases "q = []")
  case False
  have "\<not> (\<exists>d. dt_status (view s) p = Inr (Directory_entry d))" using assms(3) by auto
  from below_file [OF assms(1,2) this False] show ?thesis .
qed (use assms(3) in simp)

lemma diff_files_Nil:
  assumes "ok s" and "ok t" and "names_ok p"
    and "dt_status (view s) p = Inr (File_entry f)" and "dt_status (view t) p = Inr (File_entry g)"
  shows "\<exists>m. diff_files (view s) (view t) p f g = Some m \<and> (m = [] \<longleftrightarrow> alike_at (view s) (view t) p)"
  using read [OF assms(1,3,4)] read [OF assms(2,3,5)] assms(4,5)
  by (auto simp: diff_files_def util_read_def sync_wait_def alike_at_def)

lemma diff_lists_Inr:
  assumes "ok s" and "ok t" and "names_ok p"
    and "dt_status (view s) p = Inr (Directory_entry d)" and "dt_status (view t) p = Inr (Directory_entry e)"
  shows "case diff_lists (view s) (view t) p of
      Inl m \<Rightarrow> m \<noteq> [] \<and> (\<exists>n. name_ok n \<and> \<not> alike_at (view s) (view t) (p @ [n]))
    | Inr names \<Rightarrow> (\<forall>n. n \<in> set names \<longleftrightarrow> name_ok n \<and> has_value (dt_status (view s) (p @ [n]))) \<and>
        (\<forall>n. n \<in> set names \<longleftrightarrow> name_ok n \<and> has_value (dt_status (view t) (p @ [n])))"
proof -
  obtain es where es: "dt_ls (view s) p = Inr es" "distinct (map t_name es)"
    "\<And>n. n \<in> set (map t_name es) \<longleftrightarrow> name_ok n \<and> has_value (dt_status (view s) (p @ [n]))"
    using listed [OF assms(1,3,4)] by blast
  obtain fs where fs: "dt_ls (view t) p = Inr fs" "distinct (map t_name fs)"
    "\<And>n. n \<in> set (map t_name fs) \<longleftrightarrow> name_ok n \<and> has_value (dt_status (view t) (p @ [n]))"
    using listed [OF assms(2,3,5)] by blast
  show ?thesis
  proof (cases "sorted_names es = sorted_names fs")
    case True
    then have "set (map t_name es) = set (map t_name fs)" unfolding sorted_names_def by (metis set_sort)
    with True es(1,3) fs(1,3) show ?thesis by (auto simp: diff_lists_def Let_def sorted_names_def)
  next
    case False
    then have "mset (map t_name es) \<noteq> mset (map t_name fs)"
      unfolding sorted_names_def by (metis sort_key_eq_sort_key properties_for_sort mset_sort sorted_sort)
    then have "set (map t_name es) \<noteq> set (map t_name fs)" using es(2) fs(2) set_eq_iff_mset_eq_distinct by blast
    then obtain n where "n \<in> set (map t_name es) \<longleftrightarrow> n \<notin> set (map t_name fs)" by blast
    then have "name_ok n" "has_value (dt_status (view s) (p @ [n])) \<longleftrightarrow> \<not> has_value (dt_status (view t) (p @ [n]))"
      unfolding es(3) fs(3) by blast+
    then have "name_ok n \<and> \<not> alike_at (view s) (view t) (p @ [n])"
      by (auto simp: alike_at_def has_value_def split: sum.splits entry_info.splits)
    with False es(1) fs(1) show ?thesis by (auto simp: diff_lists_def Let_def)
  qed
qed

text \<open>With a level of fuel for every level of the tree there is a result, and it is empty exactly when all is alike.\<close>

lemma diff_at_alike:
  assumes "ok s" and "ok t" and "names_ok p"
    and "\<forall>q. names_ok q \<longrightarrow> has_value (dt_status (view s) q) \<longrightarrow> length q \<le> N" and "Suc N \<le> length p + levels" and "0 < levels"
  shows "\<exists>m. diff_at levels (view s) (view t) p = Some m \<and>
    (m = [] \<longleftrightarrow> (\<forall>q. names_ok q \<longrightarrow> alike_at (view s) (view t) (p @ q)))"
  using assms(3,5,6)
proof (induction levels arbitrary: p)
  case (Suc levels)
  let ?a = "view s" and ?b = "view t"
  have self: "(\<forall>q. names_ok q \<longrightarrow> alike_at ?a ?b (p @ q)) \<Longrightarrow> alike_at ?a ?b p"
    by (metis append_Nil2 names_ok_simps(1))
  consider (dirs) d e where "dt_status ?a p = Inr (Directory_entry d)" "dt_status ?b p = Inr (Directory_entry e)"
    | (leaf) "\<not> (\<exists>d. dt_status ?a p = Inr (Directory_entry d)) \<or> \<not> (\<exists>d. dt_status ?b p = Inr (Directory_entry d))"
    by blast
  then show ?case
  proof cases
    case leaf
    have "alike_at ?a ?b p \<Longrightarrow> alike_at ?a ?b (p @ q)" if "names_ok q" for q
    proof (cases "q = []")
      case False
      assume al: "alike_at ?a ?b p"
      with leaf have n: "\<not> (\<exists>d. dt_status ?a p = Inr (Directory_entry d))" "\<not> (\<exists>d. dt_status ?b p = Inr (Directory_entry d))"
        by (auto simp: alike_at_def split: sum.splits entry_info.splits)
      have "names_ok (p @ q)" using Suc.prems(1) that by simp
      with n below_file [OF assms(1) _ n(1) False] below_file [OF assms(2) _ n(2) False]
      have "\<not> has_value (dt_status ?a (p @ q))" "\<not> has_value (dt_status ?b (p @ q))" by auto
      then show ?thesis by (auto simp: alike_at_def has_value_def split: sum.splits)
    qed simp
    then have all: "(\<forall>q. names_ok q \<longrightarrow> alike_at ?a ?b (p @ q)) \<longleftrightarrow> alike_at ?a ?b p" using self by blast
    show ?thesis
      unfolding all using leaf diff_files_Nil [OF assms(1,2) Suc.prems(1)]
      by (auto simp: alike_at_def split: sum.splits entry_info.splits)
  next
    case dirs
    note L = diff_lists_Inr [OF assms(1,2) Suc.prems(1) dirs]
    show ?thesis
    proof (cases "diff_lists ?a ?b p")
      case (Inl m)
      with L dirs show ?thesis by auto (metis names_ok_simps(1,3))
    next
      case (Inr names)
      with L have na: "\<And>n. n \<in> set names \<longleftrightarrow> name_ok n \<and> has_value (dt_status ?a (p @ [n]))"
        and nb: "\<And>n. n \<in> set names \<longleftrightarrow> name_ok n \<and> has_value (dt_status ?b (p @ [n]))" by auto
      have IH: "\<exists>m. diff_at levels ?a ?b (p @ [n]) = Some m \<and>
          (m = [] \<longleftrightarrow> (\<forall>q. names_ok q \<longrightarrow> alike_at ?a ?b (p @ n # q)))" if n: "n \<in> set names" for n
      proof -
        have "length (p @ [n]) \<le> N" using n na assms(4) Suc.prems(1) by (metis names_ok_simps)
        with Suc.prems n na Suc.IH [of "p @ [n]"] show ?thesis by auto
      qed
      have e: "diff_at (Suc levels) ?a ?b p = first_diff (map (\<lambda>n. diff_at levels ?a ?b (p @ [n])) names)"
        using dirs Inr by simp
      have "diff_at (Suc levels) ?a ?b p \<noteq> None"
        unfolding e using IH by (intro first_diff_Some) fastforce
      moreover have "diff_at (Suc levels) ?a ?b p = Some [] \<longleftrightarrow>
          (\<forall>n \<in> set names. \<forall>q. names_ok q \<longrightarrow> alike_at ?a ?b (p @ n # q))"
        unfolding e first_diff_Nil using IH by fastforce
      moreover have "(\<forall>n \<in> set names. \<forall>q. names_ok q \<longrightarrow> alike_at ?a ?b (p @ n # q)) \<longleftrightarrow>
          (\<forall>q. names_ok q \<longrightarrow> alike_at ?a ?b (p @ q))"
      proof
        assume l: "\<forall>n \<in> set names. \<forall>q. names_ok q \<longrightarrow> alike_at ?a ?b (p @ n # q)"
        show "\<forall>q. names_ok q \<longrightarrow> alike_at ?a ?b (p @ q)"
        proof (intro allI impI)
          fix q assume q: "names_ok q"
          show "alike_at ?a ?b (p @ q)"
          proof (cases q)
            case Nil
            with dirs show ?thesis by (simp add: alike_at_def)
          next
            case (Cons n q')
            show ?thesis
            proof (cases "n \<in> set names")
              case True
              with l q Cons show ?thesis by simp
            next
              case False
              with na nb q Cons have "\<not> has_value (dt_status ?a (p @ [n]))" "\<not> has_value (dt_status ?b (p @ [n]))" by auto
              then have "\<not> has_value (dt_status ?a (p @ q))" "\<not> has_value (dt_status ?b (p @ q))"
                using below_missing [OF assms(1), of "p @ [n]" q'] below_missing [OF assms(2), of "p @ [n]" q']
                  q Cons Suc.prems(1) by auto
              then show ?thesis by (auto simp: alike_at_def has_value_def split: sum.splits)
            qed
          qed
        qed
      next
        assume r: "\<forall>q. names_ok q \<longrightarrow> alike_at ?a ?b (p @ q)"
        show "\<forall>n \<in> set names. \<forall>q. names_ok q \<longrightarrow> alike_at ?a ?b (p @ n # q)"
          using r na by (metis names_ok_simps(3))
      qed
      ultimately show ?thesis by auto
    qed
  qed
qed simp

lemma diff_decides:
  assumes "ok s" and "ok t"
  shows "\<exists>N. \<forall>levels \<ge> N. \<exists>m. diff_trees levels (view s) (view t) = Some m \<and>
    (m = [] \<longleftrightarrow> (\<forall>p. names_ok p \<longrightarrow> alike_at (view s) (view t) p))"
proof -
  obtain N where N: "\<forall>q. names_ok q \<longrightarrow> has_value (dt_status (view s) q) \<longrightarrow> length q \<le> N" using shallow [OF assms(1)] by blast
  have "\<exists>m. diff_trees levels (view s) (view t) = Some m \<and>
    (m = [] \<longleftrightarrow> (\<forall>p. names_ok p \<longrightarrow> alike_at (view s) (view t) p))" if "Suc N \<le> levels" for levels
    using diff_at_alike [OF assms, of "[]" N levels] N that by (simp add: diff_trees_def)
  then show ?thesis by blast
qed

end

end
