(* ===== verification/In_Memory_Tree.thy ===== *)
theory In_Memory_Tree
  imports Tree_Util
begin

text \<open>
  \<^verbatim>\<open>InMemoryDirectoryTree\<close> (\<^verbatim>\<open>src/inmemorydirectorytree.cpp\<close>): a tree held in a
  \<^verbatim>\<open>std::map\<close> from normal paths to nodes, here an association list sorted by path.  A key is the
  list of the path's elements; a path that ends in a separator has an empty last element.  An
  operation whose \<^verbatim>\<open>assert\<close> fails is \<open>None\<close>; a mutator returns the tree and the calls it makes
  to the subscribers once the lock is released.
\<close>

section \<open>State\<close>

record node =
  n_info :: entry_info
  n_content :: "string option"

record mem_tree =
  m_entries :: "(string list \<times> node) list"
  m_subscribers :: "nat list"

definition mem_tree_new :: mem_tree where
  "mem_tree_new = \<lparr>m_entries = [([], \<lparr>n_info = Directory_entry \<lparr>d_mtime = 0\<rparr>, n_content = None\<rparr>)],
     m_subscribers = []\<rparr>"

section \<open>Paths\<close>

definition normalize :: "string \<Rightarrow> string list option" where
  "normalize path =
     (if path = [] then Some []
      else if is_rooted path then None
      else (case lexically_normal path of (names, slash) \<Rightarrow>
        if names \<noteq> [] \<and> hd names = ''..'' then None
        else Some (names @ (if slash then [''''] else []))))"

definition is_within :: "string list \<Rightarrow> string list \<Rightarrow> bool" where
  "is_within entry directory \<longleftrightarrow> strict_prefix directory entry"

fun insert_or_assign :: "'k::linorder \<Rightarrow> 'v \<Rightarrow> ('k \<times> 'v) list \<Rightarrow> ('k \<times> 'v) list" where
  "insert_or_assign k v [] = [(k, v)]"
| "insert_or_assign k v ((k', v') # m) =
     (if k < k' then (k, v) # (k', v') # m else if k = k' then (k, v) # m else (k', v') # insert_or_assign k v m)"

section \<open>Mutators\<close>

definition parent_is_directory :: "mem_tree \<Rightarrow> string list \<Rightarrow> bool" where
  "parent_is_directory t key =
     (case map_of (m_entries t) (butlast key) of None \<Rightarrow> False | Some n \<Rightarrow> \<not> is_file (n_info n))"

definition notify_subscribers :: "mem_tree \<Rightarrow> tree_diff \<Rightarrow> (nat \<times> tree_diff) list" where
  "notify_subscribers t diff = map (\<lambda>s. (s, diff)) (m_subscribers t)"

definition mem_write_file :: "mem_tree \<Rightarrow> string \<Rightarrow> string \<Rightarrow> int \<Rightarrow> (mem_tree \<times> tree_diff) option" where
  "mem_write_file t path content mtime =
     (case normalize path of None \<Rightarrow> None | Some key \<Rightarrow>
       if key = [] \<or> \<not> parent_is_directory t key then None
       else (let old = map_of (m_entries t) key;
                 fresh = \<lparr>n_info = File_entry \<lparr>f_size = length content, f_mtime = mtime\<rparr>, n_content = Some content\<rparr>;
                 t' = t\<lparr>m_entries := insert_or_assign key fresh (m_entries t)\<rparr>;
                 diff = no_diff\<lparr>entries_changed := [key]\<rparr>
             in case old of
                  None \<Rightarrow> Some (t', diff\<lparr>child_lists_changed := [butlast key]\<rparr>)
                | Some n \<Rightarrow> if is_file (n_info n) then Some (t', diff) else None))"

definition mem_make_directory :: "mem_tree \<Rightarrow> string \<Rightarrow> int \<Rightarrow> (mem_tree \<times> tree_diff) option" where
  "mem_make_directory t path mtime =
     (case normalize path of None \<Rightarrow> None | Some key \<Rightarrow>
       if key = [] \<or> \<not> parent_is_directory t key \<or> map_of (m_entries t) key \<noteq> None then None
       else Some (t\<lparr>m_entries := insert_or_assign key
                      \<lparr>n_info = Directory_entry \<lparr>d_mtime = mtime\<rparr>, n_content = None\<rparr> (m_entries t)\<rparr>,
                  no_diff\<lparr>entries_changed := [key], child_lists_changed := [butlast key]\<rparr>))"

definition mem_remove :: "mem_tree \<Rightarrow> string \<Rightarrow> (mem_tree \<times> tree_diff) option" where
  "mem_remove t path =
     (case normalize path of None \<Rightarrow> None | Some key \<Rightarrow>
       if key = [] \<or> map_of (m_entries t) key = None then None
       else (let goes = (\<lambda>e. fst e = key \<or> is_within (fst e) key) in
         Some (t\<lparr>m_entries := filter (\<lambda>e. \<not> goes e) (m_entries t)\<rparr>,
               no_diff\<lparr>entries_changed := map fst (filter goes (m_entries t)), child_lists_changed := [butlast key]\<rparr>)))"

definition set_info_mtime :: "int \<Rightarrow> entry_info \<Rightarrow> entry_info" where
  "set_info_mtime mtime i = (case i of File_entry f \<Rightarrow> File_entry (f\<lparr>f_mtime := mtime\<rparr>)
     | Directory_entry d \<Rightarrow> Directory_entry (d\<lparr>d_mtime := mtime\<rparr>))"

definition mem_set_mtime :: "mem_tree \<Rightarrow> string \<Rightarrow> int \<Rightarrow> (mem_tree \<times> tree_diff) option" where
  "mem_set_mtime t path mtime =
     (case normalize path of None \<Rightarrow> None | Some key \<Rightarrow>
       (case map_of (m_entries t) key of None \<Rightarrow> None
        | Some n \<Rightarrow> Some (t\<lparr>m_entries := insert_or_assign key (n\<lparr>n_info := set_info_mtime mtime (n_info n)\<rparr>) (m_entries t)\<rparr>,
            no_diff\<lparr>entries_changed := [key]\<rparr>)))"

definition subscribe :: "mem_tree \<Rightarrow> nat \<Rightarrow> mem_tree" where
  "subscribe t callback = t\<lparr>m_subscribers := m_subscribers t @ [callback]\<rparr>"

definition unsubscribe :: "mem_tree \<Rightarrow> nat \<Rightarrow> mem_tree" where
  "unsubscribe t callback = t\<lparr>m_subscribers := remove1 callback (m_subscribers t)\<rparr>"

section \<open>Readers\<close>

definition mem_status :: "mem_tree \<Rightarrow> string \<Rightarrow> entry_info expected" where
  "mem_status t path =
     (case normalize path of None \<Rightarrow> Inl No_such_file_or_directory | Some key \<Rightarrow>
       (case map_of (m_entries t) key of None \<Rightarrow> Inl No_such_file_or_directory | Some n \<Rightarrow> Inr (n_info n)))"

definition mem_ls :: "mem_tree \<Rightarrow> string \<Rightarrow> tree_entry list expected" where
  "mem_ls t path =
     (case normalize path of None \<Rightarrow> Inl No_such_file_or_directory | Some key \<Rightarrow>
       (case map_of (m_entries t) key of None \<Rightarrow> Inl No_such_file_or_directory
        | Some n \<Rightarrow> if is_file (n_info n) then Inl No_such_file_or_directory
            else Inr (map (\<lambda>(p, c). \<lparr>t_name = last p, t_info = n_info c\<rparr>)
                   (filter (\<lambda>(p, c). p \<noteq> key \<and> butlast p = key) (m_entries t)))))"

definition mem_read :: "mem_tree \<Rightarrow> string \<Rightarrow> int \<Rightarrow> nat \<Rightarrow> string expected" where
  "mem_read t path offset len =
     (case normalize path of None \<Rightarrow> Inl No_such_file_or_directory | Some key \<Rightarrow>
       if offset < 0 then Inl Invalid_argument
       else if len = 0 then Inr []
       else (case map_of (m_entries t) key of None \<Rightarrow> Inl No_such_file_or_directory
        | Some n \<Rightarrow> if \<not> is_file (n_info n) then Inl Is_a_directory
            else (let content = the (n_content n) in
              if length content \<le> nat offset then Inr [] else Inr (take len (drop (nat offset) content)))))"

definition mem_read_whole :: "mem_tree \<Rightarrow> string \<Rightarrow> file_content expected" where
  "mem_read_whole t path =
     (case normalize path of None \<Rightarrow> Inl No_such_file_or_directory | Some key \<Rightarrow>
       (case map_of (m_entries t) key of None \<Rightarrow> Inl No_such_file_or_directory
        | Some n \<Rightarrow> (case n_info n of
            Directory_entry d \<Rightarrow> Inl Is_a_directory
          | File_entry f \<Rightarrow> Inr \<lparr>fc_bytes = the (n_content n), fc_info = f\<rparr>)))"

section \<open>The tree as a directory tree\<close>

definition mem_view :: "mem_tree \<Rightarrow> directory_tree" where
  "mem_view t = \<lparr>dt_status = (\<lambda>p. mem_status t (generic_string p)), dt_ls = (\<lambda>p. mem_ls t (generic_string p)),
     dt_open = open_by_status (\<lambda>p. mem_status t (generic_string p)),
     dt_read = (\<lambda>p offset len. Value (mem_read t (generic_string p) offset len)),
     dt_read_whole = (\<lambda>p. Value (mem_read_whole t (generic_string p)))\<rparr>"

section \<open>The invariant\<close>

text \<open>
  The keys are sorted and normal, the root is a directory, everything is in a directory, and a
  node has content exactly if it is a file, of the size reported.
\<close>

definition node_ok :: "node \<Rightarrow> bool" where
  "node_ok n \<longleftrightarrow> (case n_info n of
      File_entry f \<Rightarrow> (case n_content n of None \<Rightarrow> False | Some c \<Rightarrow> length c = f_size f)
    | Directory_entry d \<Rightarrow> n_content n = None)"

definition mem_ok :: "mem_tree \<Rightarrow> bool" where
  "mem_ok t \<longleftrightarrow> sorted_wrt (<) (map fst (m_entries t)) \<and>
     (\<exists>n. map_of (m_entries t) [] = Some n \<and> \<not> is_file (n_info n)) \<and>
     (\<forall>(p, n) \<in> set (m_entries t). names_ok p \<and> node_ok n \<and> (p \<noteq> [] \<longrightarrow> parent_is_directory t p))"

lemma sorted_distinct_fst: "sorted_wrt (<) (map fst m) \<Longrightarrow> distinct (map fst (m :: ('k::linorder \<times> 'v) list))"
  by (simp add: strict_sorted_iff)

lemma set_insert_or_assign:
  "sorted_wrt (<) (map fst m) \<Longrightarrow>
   set (insert_or_assign k v m) = insert (k, v) {e \<in> set m. fst e \<noteq> (k :: 'k::linorder)}"
proof (induction k v m rule: insert_or_assign.induct)
  case (2 k v k' v' m)
  then have "\<And>e. e \<in> set m \<Longrightarrow> k' < fst e" by auto
  with 2 show ?case by (cases k k' rule: linorder_cases) (force simp: less_imp_neq)+
qed simp

lemma sorted_insert_or_assign:
  "sorted_wrt (<) (map fst m) \<Longrightarrow> sorted_wrt (<) (map fst (insert_or_assign (k :: 'k::linorder) v m))"
proof (induction k v m rule: insert_or_assign.induct)
  case (2 k v k' v' m)
  then show ?case by (cases k k' rule: linorder_cases) (auto simp: set_insert_or_assign)
qed simp

lemma map_of_insert_or_assign:
  assumes "sorted_wrt (<) (map fst m)"
  shows "map_of (insert_or_assign (k :: 'k::linorder) v m) = (map_of m)(k \<mapsto> v)"
  using assms
proof (induction k v m rule: insert_or_assign.induct)
  case (2 k v k' v' m)
  then show ?case by (cases k k' rule: linorder_cases) auto
qed simp

lemma map_of_filter_key: "map_of (filter (\<lambda>e. P (fst e)) m) k = (if P k then map_of m k else None)"
  by (induction m) auto

text \<open>A normal path written with separators is read back as itself.\<close>

lemma normalize_generic: "names_ok p \<Longrightarrow> normalize (generic_string p) = Some p"
proof (cases "p = []")
  case False
  assume "names_ok p"
  with False have i: "inside p" by (simp add: inside_names_ok)
  from to_inside_path_generic [OF i] show ?thesis
    by (auto simp: to_inside_path_def normalize_def split: prod.splits if_splits)
qed (simp add: normalize_def generic_string_def)

lemma mem_ok_entry:
  assumes "mem_ok t" and "map_of (m_entries t) p = Some n"
  shows "names_ok p" "node_ok n" "p \<noteq> [] \<Longrightarrow> parent_is_directory t p"
  using assms map_of_SomeD [OF assms(2)] unfolding mem_ok_def by blast+

lemma mem_status_at: "names_ok p \<Longrightarrow> mem_status t (generic_string p) =
    (case map_of (m_entries t) p of None \<Rightarrow> Inl No_such_file_or_directory | Some n \<Rightarrow> Inr (n_info n))"
  by (simp add: mem_status_def normalize_generic)

lemma lawful_root: "mem_ok t \<Longrightarrow> \<exists>d. dt_status (mem_view t) [] = Inr (Directory_entry d)"
  by (auto simp: mem_view_def mem_status_at mem_ok_def is_file_iff(2))

lemma lawful_above:
  assumes "mem_ok t" and "names_ok (p @ [n])" and "has_value (dt_status (mem_view t) (p @ [n]))"
  shows "\<exists>d. dt_status (mem_view t) p = Inr (Directory_entry d)"
proof -
  obtain c where "map_of (m_entries t) (p @ [n]) = Some c"
    using assms(2,3) by (auto simp: mem_view_def mem_status_at split: option.splits)
  from mem_ok_entry(3) [OF assms(1) this] have "parent_is_directory t (p @ [n])" by simp
  with assms(2) show ?thesis
    by (auto simp: parent_is_directory_def mem_view_def mem_status_at is_file_iff(2) split: option.splits)
qed

lemma lawful_listed:
  assumes ok: "mem_ok t" and p: "names_ok p" and d: "dt_status (mem_view t) p = Inr (Directory_entry d)"
  shows "\<exists>es. dt_ls (mem_view t) p = Inr es \<and> distinct (map t_name es) \<and>
    (\<forall>n. n \<in> set (map t_name es) \<longleftrightarrow> name_ok n \<and> has_value (dt_status (mem_view t) (p @ [n])))"
proof -
  let ?kids = "filter (\<lambda>(q, c). q \<noteq> p \<and> butlast q = p) (m_entries t)"
  let ?es = "map (\<lambda>(q, c). \<lparr>t_name = last q, t_info = n_info c\<rparr>) ?kids"
  obtain n where n: "map_of (m_entries t) p = Some n" "n_info n = Directory_entry d"
    using d p by (auto simp: mem_view_def mem_status_at split: option.splits)
  then have l: "dt_ls (mem_view t) p = Inr ?es"
    by (simp add: mem_view_def mem_ls_def normalize_generic [OF p])
  have dis: "distinct (map fst (m_entries t))" using ok by (simp add: mem_ok_def sorted_distinct_fst)
  have kid: "q = p @ [last q]" if "(q, c) \<in> set ?kids" for q c
    using that by (cases q rule: rev_cases) auto
  have names: "map t_name ?es = map last (map fst ?kids)" by (simp add: case_prod_unfold comp_def)
  have "distinct (map fst ?kids)" using dis by (rule distinct_map_filter)
  moreover have "inj_on last (set (map fst ?kids))"
    by (rule inj_onI) (metis (no_types, lifting) kid imageE list.set_map prod.collapse)
  ultimately have "distinct (map t_name ?es)" unfolding names by (subst distinct_map) blast
  moreover have "m \<in> set (map t_name ?es) \<longleftrightarrow> name_ok m \<and> has_value (dt_status (mem_view t) (p @ [m]))" for m
  proof -
    have "m \<in> set (map t_name ?es) \<longleftrightarrow> (\<exists>c. (p @ [m], c) \<in> set (m_entries t))"
    proof
      assume "m \<in> set (map t_name ?es)"
      then obtain q c where q: "(q, c) \<in> set ?kids" "m = last q" unfolding names by auto
      with kid [OF q(1)] show "\<exists>c. (p @ [m], c) \<in> set (m_entries t)" by auto
    next
      assume "\<exists>c. (p @ [m], c) \<in> set (m_entries t)"
      then obtain c where "(p @ [m], c) \<in> set ?kids" by auto
      then show "m \<in> set (map t_name ?es)" unfolding names by force
    qed
    also have "\<dots> \<longleftrightarrow> (\<exists>c. map_of (m_entries t) (p @ [m]) = Some c)"
      using dis by (simp add: map_of_eq_Some_iff)
    also have "\<dots> \<longleftrightarrow> name_ok m \<and> has_value (dt_status (mem_view t) (p @ [m]))"
    proof (cases "name_ok m")
      case True
      with p show ?thesis by (auto simp: mem_view_def mem_status_at split: option.splits)
    next
      case False
      with mem_ok_entry(1) [OF ok, of "p @ [m]"] show ?thesis
        by (cases "map_of (m_entries t) (p @ [m])") auto
    qed
    finally show ?thesis .
  qed
  ultimately show ?thesis using l by blast
qed

lemma lawful_read:
  assumes ok: "mem_ok t" and p: "names_ok p" and f: "dt_status (mem_view t) p = Inr (File_entry f)"
  shows "\<exists>bytes. length bytes = f_size f \<and>
    dt_read_whole (mem_view t) p = Value (Inr \<lparr>fc_bytes = bytes, fc_info = f\<rparr>) \<and>
    (\<forall>n. dt_read (mem_view t) p 0 n = Value (Inr (take n bytes)))"
proof -
  obtain n where n: "map_of (m_entries t) p = Some n" "n_info n = File_entry f"
    using f p by (auto simp: mem_view_def mem_status_at split: option.splits)
  then obtain c where c: "n_content n = Some c" "length c = f_size f"
    using mem_ok_entry(2) [OF ok n(1)] by (auto simp: node_ok_def split: option.splits)
  with n show ?thesis
    by (auto simp: mem_view_def mem_read_whole_def mem_read_def normalize_generic [OF p])
qed

lemma lawful_shallow:
  assumes "mem_ok t"
  shows "\<exists>N. \<forall>p. names_ok p \<longrightarrow> has_value (dt_status (mem_view t) p) \<longrightarrow> length p \<le> N"
proof -
  have "length p \<le> Max (length ` fst ` set (m_entries t))"
    if p: "names_ok p" and v: "has_value (dt_status (mem_view t) p)" for p
  proof -
    obtain n where "map_of (m_entries t) p = Some n"
      using v mem_status_at [OF p, of t] by (auto simp: mem_view_def split: option.splits)
    then have "length p \<in> length ` fst ` set (m_entries t)" by (force dest: map_of_SomeD)
    then show ?thesis by simp
  qed
  then show ?thesis by blast
qed

interpretation mem: lawful_trees mem_ok mem_view
  by unfold_locales (fact lawful_root lawful_listed lawful_above lawful_read lawful_shallow)+

section \<open>The mutators keep the invariant\<close>

text \<open>A node put at a normal path below a directory, in place of nothing or of a node of the same kind.\<close>

lemma mem_ok_insert:
  assumes ok: "mem_ok t" and k: "names_ok key" "key \<noteq> []" "parent_is_directory t key" "node_ok n"
    and kind: "\<And>old. map_of (m_entries t) key = Some old \<Longrightarrow> is_file (n_info old) \<longleftrightarrow> is_file (n_info n)"
  shows "mem_ok (t\<lparr>m_entries := insert_or_assign key n (m_entries t)\<rparr>)"
proof -
  let ?t = "t\<lparr>m_entries := insert_or_assign key n (m_entries t)\<rparr>"
  have s: "sorted_wrt (<) (map fst (m_entries t))" using ok by (simp add: mem_ok_def)
  have look: "map_of (m_entries ?t) = (map_of (m_entries t))(key \<mapsto> n)"
    by (simp add: map_of_insert_or_assign [OF s])
  have par: "parent_is_directory ?t p" if "parent_is_directory t p" for p
  proof (cases "butlast p = key")
    case True
    with that kind show ?thesis unfolding parent_is_directory_def look by (auto split: option.splits)
  next
    case False
    with that show ?thesis unfolding parent_is_directory_def look by simp
  qed
  show ?thesis
    unfolding mem_ok_def look
    using ok k par
    by (auto simp: sorted_insert_or_assign s set_insert_or_assign mem_ok_def)
qed

lemma mem_ok_filter:
  assumes ok: "mem_ok t" and k: "key \<noteq> []"
  shows "mem_ok (t\<lparr>m_entries := filter (\<lambda>e. \<not> (fst e = key \<or> is_within (fst e) key)) (m_entries t)\<rparr>)"
proof -
  let ?keep = "\<lambda>p. \<not> (p = key \<or> is_within p key)"
  let ?t = "t\<lparr>m_entries := filter (\<lambda>e. ?keep (fst e)) (m_entries t)\<rparr>"
  have look: "map_of (m_entries ?t) p = (if ?keep p then map_of (m_entries t) p else None)" for p
    using map_of_filter_key [of ?keep "m_entries t" p] by simp
  have "?keep (butlast p)" if "?keep p" for p
    using that by (cases p rule: rev_cases) (auto simp: is_within_def strict_prefix_def)
  then have par: "parent_is_directory ?t p" if "?keep p" "parent_is_directory t p" for p
    using that unfolding parent_is_directory_def look by auto
  have "sorted_wrt (<) (map fst (m_entries ?t))"
    using ok by (auto simp: mem_ok_def sorted_wrt_map intro: sorted_wrt_filter)
  moreover have "?keep []" using k by (simp add: is_within_def)
  ultimately show ?thesis
    unfolding mem_ok_def look using ok par by (auto simp: mem_ok_def)
qed

lemma mem_tree_new_ok: "mem_ok mem_tree_new"
  by (simp add: mem_ok_def mem_tree_new_def node_ok_def)

lemma subscribers_irrelevant:
  "mem_ok (subscribe t c) \<longleftrightarrow> mem_ok t" "mem_ok (unsubscribe t c) \<longleftrightarrow> mem_ok t"
  by (simp_all add: mem_ok_def subscribe_def unsubscribe_def parent_is_directory_def)

lemma set_mtime_ok: "node_ok n \<Longrightarrow> node_ok (n\<lparr>n_info := set_info_mtime mtime (n_info n)\<rparr>)"
  "is_file (set_info_mtime mtime i) \<longleftrightarrow> is_file i"
  by (auto simp: node_ok_def set_info_mtime_def split: entry_info.splits option.splits)

lemma mem_set_mtime_ok:
  assumes ok: "mem_ok t" and m: "mem_set_mtime t path mtime = Some (t', diff)"
  shows "mem_ok t'"
proof -
  obtain key n where n: "map_of (m_entries t) key = Some n"
    and t': "t' = t\<lparr>m_entries := insert_or_assign key (n\<lparr>n_info := set_info_mtime mtime (n_info n)\<rparr>) (m_entries t)\<rparr>"
    using m by (auto simp: mem_set_mtime_def split: option.splits)
  note e = mem_ok_entry [OF ok n]
  show ?thesis
  proof (cases "key = []")
    case False
    show ?thesis unfolding t' by (rule mem_ok_insert) (use ok e False n in \<open>auto simp: set_mtime_ok\<close>)
  next
    case True
    have s: "sorted_wrt (<) (map fst (m_entries t))" using ok by (simp add: mem_ok_def)
    let ?n = "n\<lparr>n_info := set_info_mtime mtime (n_info n)\<rparr>"
    have look: "map_of (m_entries t') = (map_of (m_entries t))([] \<mapsto> ?n)"
      by (simp add: t' True map_of_insert_or_assign [OF s])
    have r: "\<not> is_file (n_info n)" using ok n True by (auto simp: mem_ok_def)
    have "parent_is_directory t' p" if "parent_is_directory t p" for p
      using that r unfolding parent_is_directory_def look by (simp add: set_mtime_ok)
    then show ?thesis
      unfolding mem_ok_def look using ok e r
      by (auto simp: t' True sorted_insert_or_assign s set_insert_or_assign mem_ok_def set_mtime_ok)
  qed
qed

text \<open>Any mutator, given a path that names something inside the tree.\<close>

datatype mem_op = Write_file string string int | Make_directory string int | Remove_entry string | Set_mtime string int

fun mem_apply :: "mem_op \<Rightarrow> mem_tree \<Rightarrow> (mem_tree \<times> tree_diff) option" where
  "mem_apply (Write_file path content mtime) t = mem_write_file t path content mtime"
| "mem_apply (Make_directory path mtime) t = mem_make_directory t path mtime"
| "mem_apply (Remove_entry path) t = mem_remove t path"
| "mem_apply (Set_mtime path mtime) t = mem_set_mtime t path mtime"

fun op_path :: "mem_op \<Rightarrow> string" where
  "op_path (Write_file path content mtime) = path"
| "op_path (Make_directory path mtime) = path"
| "op_path (Remove_entry path) = path"
| "op_path (Set_mtime path mtime) = path"

definition plain_path :: "string \<Rightarrow> bool" where
  "plain_path path \<longleftrightarrow> (case normalize path of None \<Rightarrow> False | Some key \<Rightarrow> names_ok key)"

lemma mem_apply_ok:
  assumes ok: "mem_ok t" and p: "plain_path (op_path m)" and a: "mem_apply m t = Some (t', d)"
  shows "mem_ok t'"
proof (cases m)
  case (Write_file path content mtime)
  with a p show ?thesis
    by (auto simp: mem_write_file_def plain_path_def Let_def node_ok_def split: option.splits if_splits intro!: mem_ok_insert [OF ok])
next
  case (Make_directory path mtime)
  with a p show ?thesis
    by (auto simp: mem_make_directory_def plain_path_def Let_def node_ok_def split: option.splits if_splits intro!: mem_ok_insert [OF ok])
next
  case (Remove_entry path)
  with a mem_ok_filter [OF ok] show ?thesis
    by (auto simp: mem_remove_def Let_def split: option.splits if_splits)
next
  case (Set_mtime path mtime)
  with a mem_set_mtime_ok [OF ok] show ?thesis by simp
qed

text \<open>What a mutator leaves alone, as seen through the map.\<close>

lemma mem_apply_entries:
  assumes ok: "mem_ok t" and a: "mem_apply m t = Some (t', d)" and p: "p \<notin> set (entries_changed d)"
  shows "map_of (m_entries t') p = map_of (m_entries t) p"
proof -
  have s: "sorted_wrt (<) (map fst (m_entries t))" using ok by (simp add: mem_ok_def)
  show ?thesis
  proof (cases m)
    case (Remove_entry path)
    with a obtain key where k: "t' = t\<lparr>m_entries := filter (\<lambda>e. \<not> (fst e = key \<or> is_within (fst e) key)) (m_entries t)\<rparr>"
      "entries_changed d = map fst (filter (\<lambda>e. fst e = key \<or> is_within (fst e) key) (m_entries t))"
      by (auto simp: mem_remove_def Let_def split: option.splits if_splits)
    show ?thesis
    proof (cases "p = key \<or> is_within p key")
      case True
      with p k(2) have "p \<notin> fst ` set (m_entries t)" by force
      then have "map_of (m_entries t) p = None" by (simp add: map_of_eq_None_iff)
      with True k(1) map_of_filter_key [of "\<lambda>p. \<not> (p = key \<or> is_within p key)" "m_entries t" p] show ?thesis by simp
    next
      case False
      with k(1) map_of_filter_key [of "\<lambda>p. \<not> (p = key \<or> is_within p key)" "m_entries t" p] show ?thesis by simp
    qed
  qed (use a p in \<open>auto simp: mem_write_file_def mem_make_directory_def mem_set_mtime_def Let_def
      map_of_insert_or_assign [OF s] no_diff_def split: option.splits if_splits\<close>)
qed

text \<open>The key an operation adds or removes has its directory among the child lists changed.\<close>

lemma mem_apply_kinds:
  assumes ok: "mem_ok t" and a: "mem_apply m t = Some (t', d)"
    and p: "p \<in> set (entries_changed d)" "p \<noteq> []" "butlast p \<notin> set (child_lists_changed d) \<union> set (entries_changed d)"
  shows "(map_of (m_entries t') p = None) = (map_of (m_entries t) p = None)"
proof -
  have s: "sorted_wrt (<) (map fst (m_entries t))" using ok by (simp add: mem_ok_def)
  show ?thesis
  proof (cases m)
    case (Remove_entry path)
    with a obtain key where k: "entries_changed d = map fst (filter (\<lambda>e. fst e = key \<or> is_within (fst e) key) (m_entries t))"
      "child_lists_changed d = [butlast key]"
      by (auto simp: mem_remove_def Let_def no_diff_def split: option.splits if_splits)
    with p(1) obtain n where pn: "(p, n) \<in> set (m_entries t)" "p = key \<or> is_within p key" by auto
    with k(2) p(3) have "is_within p key" by auto
    with p(2) have "prefix key (butlast p)"
      by (cases p rule: rev_cases) (auto simp: is_within_def strict_prefix_def)
    moreover have "parent_is_directory t p" using ok pn p(2) by (auto simp: mem_ok_def)
    then have "butlast p \<in> fst ` set (m_entries t)"
      by (auto simp: parent_is_directory_def split: option.splits dest!: map_of_SomeD) force
    ultimately have "butlast p \<in> set (entries_changed d)"
      unfolding k(1) by (auto simp: is_within_def strict_prefix_def image_iff)
    with p(3) show ?thesis by blast
  qed (use a p in \<open>auto simp: mem_write_file_def mem_make_directory_def mem_set_mtime_def Let_def
      map_of_insert_or_assign [OF s] no_diff_def split: option.splits if_splits\<close>)
qed

end
