(* ===== verification/File_Snapshots.thy ===== *)
theory File_Snapshots
  imports In_Memory_Tree
begin

text \<open>
  \<^verbatim>\<open>FileSnapshots\<close> (\<^verbatim>\<open>src/filesnapshots.cpp\<close>): shared versions of files.  The snapshots are a
  heap of reference-counted objects, whose addresses are used again once freed; \<open>s_current\<close> holds
  weak references, so an address may be there after the last reference has gone but before the
  deleter took it out.  \<open>take\<close> is a coroutine: it is cut where it takes a lock, looks at the tree
  or drops a reference, and the steps of different takes, of changes and of releases interleave
  freely.
\<close>

section \<open>State\<close>

record snapshot =
  sn_path :: "string list"
  sn_bytes :: string
  sn_mtime :: int
  sn_generation :: nat

definition snapshot_info :: "snapshot \<Rightarrow> file_info" where
  "snapshot_info s = \<lparr>f_size = length (sn_bytes s), f_mtime = sn_mtime s\<rparr>"

definition same_file :: "file_info \<Rightarrow> file_info \<Rightarrow> bool" where
  "same_file a b \<longleftrightarrow> f_size a = f_size b \<and> f_mtime a = f_mtime b"

record snapshots =
  s_clock :: nat
  s_everything :: nat
  s_generations :: "string list \<Rightarrow> nat option"
  s_alive :: bool
  s_current :: "string list \<Rightarrow> nat option"
  s_heap :: "nat \<Rightarrow> snapshot option"
  s_refs :: "nat \<Rightarrow> nat"

definition snapshots_new :: snapshots where
  "snapshots_new = \<lparr>s_clock = 0, s_everything = 0, s_generations = (\<lambda>_. None), s_alive = True,
     s_current = (\<lambda>_. None), s_heap = (\<lambda>_. None), s_refs = (\<lambda>_. 0)\<rparr>"

section \<open>Operations under a lock\<close>

definition changed_path :: "string list \<Rightarrow> snapshots \<Rightarrow> snapshots" where
  "changed_path p s = s\<lparr>s_clock := Suc (s_clock s), s_generations := (s_generations s)(p \<mapsto> Suc (s_clock s)),
     s_current := (s_current s)(p := None)\<rparr>"

definition changed :: "tree_diff \<Rightarrow> snapshots \<Rightarrow> snapshots" where
  "changed diff s =
     (if everything_dirty diff
      then s\<lparr>s_clock := Suc (s_clock s), s_everything := Suc (s_clock s), s_generations := (\<lambda>_. None),
             s_current := (\<lambda>_. None)\<rparr>
      else fold changed_path (entries_changed diff) s)"

definition generation :: "snapshots \<Rightarrow> string list \<Rightarrow> nat" where
  "generation s p = max (s_everything s) (case s_generations s p of None \<Rightarrow> 0 | Some g \<Rightarrow> g)"

definition latest :: "snapshots \<Rightarrow> nat" where
  "latest s = s_clock s"

text \<open>The snapshot held for a path, with a reference taken to it: locking the weak pointer.\<close>

definition lock_held :: "snapshots \<Rightarrow> string list \<Rightarrow> snapshots \<times> nat option" where
  "lock_held s p =
     (case s_current s p of None \<Rightarrow> (s, None)
      | Some a \<Rightarrow> if s_refs s a = 0 then (s, None) else (s\<lparr>s_refs := (s_refs s)(a := Suc (s_refs s a))\<rparr>, Some a))"

definition drop_ref :: "nat \<Rightarrow> snapshots \<Rightarrow> snapshots" where
  "drop_ref a s = s\<lparr>s_refs := (s_refs s)(a := s_refs s a - 1)\<rparr>"

definition add_ref :: "nat \<Rightarrow> snapshots \<Rightarrow> snapshots" where
  "add_ref a s = s\<lparr>s_refs := (s_refs s)(a := Suc (s_refs s a))\<rparr>"

text \<open>The deleter of a snapshot without references: out of the map if it is still the one there, then freed.\<close>

definition forget :: "nat \<Rightarrow> snapshots \<Rightarrow> snapshots" where
  "forget a s =
     (case s_heap s a of None \<Rightarrow> s
      | Some sn \<Rightarrow>
          (let s' = (if s_alive s \<and> s_current s (sn_path sn) = Some a
                     then s\<lparr>s_current := (s_current s)(sn_path sn := None)\<rparr> else s)
           in s'\<lparr>s_heap := (s_heap s')(a := None)\<rparr>))"

definition new_snapshot :: "nat \<Rightarrow> snapshot \<Rightarrow> snapshots \<Rightarrow> snapshots" where
  "new_snapshot a sn s = s\<lparr>s_heap := (s_heap s)(a \<mapsto> sn), s_refs := (s_refs s)(a := 1)\<rparr>"

definition keep_current :: "string list \<Rightarrow> nat \<Rightarrow> snapshots \<Rightarrow> snapshots" where
  "keep_current p a s = s\<lparr>s_current := (s_current s)(p \<mapsto> a)\<rparr>"

definition held :: "snapshots \<Rightarrow> nat" where
  "held s = card {p. s_current s p \<noteq> None}"

definition file_status :: "directory_tree \<Rightarrow> string list \<Rightarrow> file_info expected" where
  "file_status t p =
     (case dt_status t p of
        Inl e \<Rightarrow> Inl e
      | Inr info \<Rightarrow> (case info of File_entry f \<Rightarrow> Inr f | Directory_entry d \<Rightarrow> Inl Is_a_directory))"

section \<open>Taking a snapshot\<close>

text \<open>
  Where a take is; \<open>Took\<close> is its result, as long as the caller keeps it, with what the take saw of
  the file on its way; a copy of the shared pointer that a caller makes is one of these too.
\<close>

datatype take =
    Idle
  | Begun "string list" nat
  | Stated "string list" nat file_info
  | Holding "string list" nat file_info nat
  | Reading "string list" nat
  | Made "string list" nat file_info nat
  | Took "string list" nat file_info nat
  | Failed error_code
  | Ended

fun running :: "take \<Rightarrow> bool" where
  "running Idle = False"
| "running (Took p g info a) = False"
| "running (Failed e) = False"
| "running Ended = False"
| "running _ = True"

record ssys =
  y_snapshots :: snapshots
  y_tree :: directory_tree
  y_takes :: "nat \<Rightarrow> take"

definition at_take :: "nat \<Rightarrow> take \<Rightarrow> ssys \<Rightarrow> ssys" where
  "at_take i w y = y\<lparr>y_takes := (y_takes y)(i := w)\<rparr>"

definition take_status :: "ssys \<Rightarrow> nat \<Rightarrow> string list \<Rightarrow> nat \<Rightarrow> ssys" where
  "take_status y i p before_gen =
     (case file_status (y_tree y) p of
        Inl e \<Rightarrow> at_take i (Failed e) y
      | Inr info \<Rightarrow> at_take i (Stated p before_gen info) y)"

definition take_lookup :: "ssys \<Rightarrow> nat \<Rightarrow> string list \<Rightarrow> nat \<Rightarrow> file_info \<Rightarrow> ssys" where
  "take_lookup y i p before_gen info =
     (case lock_held (y_snapshots y) p of
        (s, None) \<Rightarrow> at_take i (Reading p before_gen) (y\<lparr>y_snapshots := s\<rparr>)
      | (s, Some a) \<Rightarrow> at_take i (Holding p before_gen info a) (y\<lparr>y_snapshots := s\<rparr>))"

definition take_compare :: "ssys \<Rightarrow> nat \<Rightarrow> string list \<Rightarrow> nat \<Rightarrow> file_info \<Rightarrow> nat \<Rightarrow> ssys" where
  "take_compare y i p before_gen info a =
     (case s_heap (y_snapshots y) a of
        None \<Rightarrow> y
      | Some sn \<Rightarrow>
          if sn_generation sn = before_gen \<and> same_file (snapshot_info sn) info then at_take i (Took p before_gen info a) y
          else at_take i (Reading p before_gen) (y\<lparr>y_snapshots := drop_ref a (y_snapshots y)\<rparr>))"

definition take_read :: "ssys \<Rightarrow> nat \<Rightarrow> string list \<Rightarrow> nat \<Rightarrow> nat \<Rightarrow> ssys" where
  "take_read y i p before_gen a =
     (case dt_read_whole (y_tree y) p of
        Value (Inl e) \<Rightarrow> at_take i (Failed e) y
      | Value (Inr c) \<Rightarrow>
          at_take i (Made p before_gen (fc_info c) a)
            (y\<lparr>y_snapshots := new_snapshot a \<lparr>sn_path = p, sn_bytes = fc_bytes c, sn_mtime = f_mtime (fc_info c),
                 sn_generation = before_gen\<rparr> (y_snapshots y)\<rparr>)
      | _ \<Rightarrow> at_take i Ended y)"

definition take_keep :: "ssys \<Rightarrow> nat \<Rightarrow> string list \<Rightarrow> nat \<Rightarrow> file_info \<Rightarrow> nat \<Rightarrow> ssys" where
  "take_keep y i p before_gen info a =
     at_take i (Took p before_gen info a) (y\<lparr>y_snapshots := keep_current p a (y_snapshots y)\<rparr>)"

text \<open>What \<^verbatim>\<open>read_whole\<close> promises of the trees: bytes of the size it reports.\<close>

definition whole_reads_fit :: "directory_tree \<Rightarrow> bool" where
  "whole_reads_fit t \<longleftrightarrow> (\<forall>p c. dt_read_whole t p = Value (Inr c) \<longrightarrow> f_size (fc_info c) = length (fc_bytes c))"

inductive snap_step :: "ssys \<Rightarrow> ssys \<Rightarrow> bool" where
  Tree_changes: "whole_reads_fit t \<Longrightarrow> snap_step y (y\<lparr>y_tree := t\<rparr>)"
| Changed: "s_alive (y_snapshots y) \<Longrightarrow> snap_step y (y\<lparr>y_snapshots := changed diff (y_snapshots y)\<rparr>)"
| Take_begins: "s_alive (y_snapshots y) \<Longrightarrow> y_takes y i = Idle \<Longrightarrow> snap_step y (at_take i (Begun p (generation (y_snapshots y) p)) y)"
| Take_status: "y_takes y i = Begun p g \<Longrightarrow> snap_step y (take_status y i p g)"
| Take_lookup: "y_takes y i = Stated p g info \<Longrightarrow> snap_step y (take_lookup y i p g info)"
| Take_compare: "y_takes y i = Holding p g info a \<Longrightarrow> snap_step y (take_compare y i p g info a)"
| Take_read: "y_takes y i = Reading p g \<Longrightarrow> s_heap (y_snapshots y) a = None \<Longrightarrow> snap_step y (take_read y i p g a)"
| Take_keep: "y_takes y i = Made p g info a \<Longrightarrow> snap_step y (take_keep y i p g info a)"
| Copied: "y_takes y i = Took p g info a \<Longrightarrow> y_takes y j = Idle \<Longrightarrow>
    snap_step y (at_take j (Took p g info a) (y\<lparr>y_snapshots := add_ref a (y_snapshots y)\<rparr>))"
| Released: "y_takes y i = Took p g info a \<Longrightarrow>
    snap_step y (at_take i Ended (y\<lparr>y_snapshots := drop_ref a (y_snapshots y)\<rparr>))"
| Forgotten: "s_heap (y_snapshots y) a \<noteq> None \<Longrightarrow> s_refs (y_snapshots y) a = 0 \<Longrightarrow>
    snap_step y (y\<lparr>y_snapshots := forget a (y_snapshots y)\<rparr>)"
| Destroyed: "(\<And>i. \<not> running (y_takes y i)) \<Longrightarrow>
    snap_step y (y\<lparr>y_snapshots := (y_snapshots y)\<lparr>s_alive := False, s_current := (\<lambda>_. None)\<rparr>\<rparr>)"

section \<open>The invariant\<close>

fun holds :: "take \<Rightarrow> nat \<Rightarrow> bool" where
  "holds (Holding p g info a) b = (a = b)"
| "holds (Made p g info a) b = (a = b)"
| "holds (Took p g info a) b = (a = b)"
| "holds _ b = False"

fun fits :: "take \<Rightarrow> snapshot \<Rightarrow> bool" where
  "fits (Holding p g info a) sn = (sn_path sn = p)"
| "fits (Made p g info a) sn = (sn_path sn = p \<and> sn_generation sn = g \<and> snapshot_info sn = info)"
| "fits (Took p g info a) sn = (sn_path sn = p \<and> sn_generation sn = g \<and> snapshot_info sn = info)"
| "fits _ sn = True"

fun gen_of :: "take \<Rightarrow> nat" where
  "gen_of (Begun p g) = g"
| "gen_of (Stated p g info) = g"
| "gen_of (Holding p g info a) = g"
| "gen_of (Reading p g) = g"
| "gen_of (Made p g info a) = g"
| "gen_of (Took p g info a) = g"
| "gen_of _ = 0"

text \<open>A weak reference of the map is to a snapshot not yet freed, and of that path.\<close>

definition current_ok :: "snapshots \<Rightarrow> bool" where
  "current_ok s \<longleftrightarrow> (\<forall>p a. s_current s p = Some a \<longrightarrow> s_alive s \<and> (\<exists>sn. s_heap s a = Some sn \<and> sn_path sn = p))"

definition clock_ok :: "snapshots \<Rightarrow> bool" where
  "clock_ok s \<longleftrightarrow> s_everything s \<le> s_clock s \<and> (\<forall>p g. s_generations s p = Some g \<longrightarrow> g \<le> s_clock s) \<and>
     (\<forall>a sn. s_heap s a = Some sn \<longrightarrow> sn_generation sn \<le> s_clock s)"

definition takes_ok :: "ssys \<Rightarrow> bool" where
  "takes_ok y \<longleftrightarrow> finite {i. y_takes y i \<noteq> Idle} \<and>
     (\<forall>a. s_refs (y_snapshots y) a = card {i. holds (y_takes y i) a}) \<and>
     (\<forall>i a. holds (y_takes y i) a \<longrightarrow> (\<exists>sn. s_heap (y_snapshots y) a = Some sn \<and> fits (y_takes y i) sn)) \<and>
     (\<forall>i. gen_of (y_takes y i) \<le> s_clock (y_snapshots y)) \<and>
     (\<forall>i. running (y_takes y i) \<longrightarrow> s_alive (y_snapshots y))"

definition snaps_ok :: "ssys \<Rightarrow> bool" where
  "snaps_ok y \<longleftrightarrow> current_ok (y_snapshots y) \<and> clock_ok (y_snapshots y) \<and> takes_ok y \<and> whole_reads_fit (y_tree y)"

lemma card_holders:
  assumes "finite {j. f j \<noteq> Idle}"
  shows "card {j. holds ((f(i := w)) j) a} + of_bool (holds (f i) a) = card {j. holds (f j) a} + of_bool (holds w a)"
proof -
  have "{j. holds (f j) a} \<subseteq> {j. f j \<noteq> Idle}" by auto
  then have fin: "finite {j. holds (f j) a}" using assms by (rule finite_subset)
  have "{j. holds ((f(i := w)) j) a} = (if holds w a then insert i ({j. holds (f j) a} - {i}) else {j. holds (f j) a} - {i})"
    by auto
  then show ?thesis
    using fin card_Suc_Diff1 [OF fin, of i]
    by (cases "holds w a"; cases "holds (f i) a") (simp_all add: card_insert_if)
qed

text \<open>The one lemma for every step of a take: its references move with its stage.\<close>

lemma snaps_ok_at_take:
  assumes ok: "snaps_ok y" and s: "s = y_snapshots y"
    and refs: "\<And>b. s_refs s' b + of_bool (holds (y_takes y i) b) = s_refs s b + of_bool (holds w b)"
    and heap: "\<And>b sn. s_heap s b = Some sn \<Longrightarrow> s_heap s' b = Some sn"
    and new: "\<And>b sn. s_heap s' b = Some sn \<Longrightarrow> sn_generation sn \<le> s_clock s"
    and fit: "\<And>b. holds w b \<Longrightarrow> \<exists>sn. s_heap s' b = Some sn \<and> fits w sn"
    and cur: "current_ok s'"
    and same: "s_clock s' = s_clock s" "s_everything s' = s_everything s" "s_generations s' = s_generations s" "s_alive s' = s_alive s"
    and gen: "gen_of w \<le> s_clock s" and run: "running w \<Longrightarrow> s_alive s"
  shows "snaps_ok (at_take i w (y\<lparr>y_snapshots := s'\<rparr>))"
proof -
  note O = ok [unfolded snaps_ok_def takes_ok_def clock_ok_def, folded s]
  have fin: "finite {j. y_takes y j \<noteq> Idle}" using O by blast
  have "{j. ((y_takes y)(i := w)) j \<noteq> Idle} \<subseteq> insert i {j. y_takes y j \<noteq> Idle}" by auto
  then have fin': "finite {j. ((y_takes y)(i := w)) j \<noteq> Idle}" using fin by (meson finite_insert finite_subset)
  have r: "s_refs s' b = card {j. holds (((y_takes y)(i := w)) j) b}" for b
    using card_holders [OF fin, of i w b] refs [of b] O by simp
  have "clock_ok s'" using O new by (simp add: clock_ok_def same)
  moreover have "takes_ok (at_take i w (y\<lparr>y_snapshots := s'\<rparr>))"
    unfolding takes_ok_def at_take_def using O fin' r fit gen run
    by (simp add: same) (metis heap)
  ultimately show ?thesis using O cur by (simp add: snaps_ok_def at_take_def)
qed

lemma snaps_ok_D:
  assumes "snaps_ok y"
  shows "current_ok (y_snapshots y)" "clock_ok (y_snapshots y)" "takes_ok y" "whole_reads_fit (y_tree y)"
    "\<And>i a. holds (y_takes y i) a \<Longrightarrow> \<exists>sn. s_heap (y_snapshots y) a = Some sn \<and> fits (y_takes y i) sn"
    "\<And>i. gen_of (y_takes y i) \<le> s_clock (y_snapshots y)"
    "\<And>i. running (y_takes y i) \<Longrightarrow> s_alive (y_snapshots y)"
    "\<And>a sn. s_heap (y_snapshots y) a = Some sn \<Longrightarrow> sn_generation sn \<le> s_clock (y_snapshots y)"
    "\<And>p a. s_current (y_snapshots y) p = Some a \<Longrightarrow> s_alive (y_snapshots y) \<and> (\<exists>sn. s_heap (y_snapshots y) a = Some sn \<and> sn_path sn = p)"
  using assms unfolding snaps_ok_def takes_ok_def clock_ok_def current_ok_def by auto

lemma held_positive:
  assumes ok: "snaps_ok y" and h: "holds (y_takes y i) a"
  shows "0 < s_refs (y_snapshots y) a"
proof -
  have "finite {i. y_takes y i \<noteq> Idle}" using ok by (simp add: snaps_ok_def takes_ok_def)
  moreover have "{j. holds (y_takes y j) a} \<subseteq> {i. y_takes y i \<noteq> Idle}" by auto
  ultimately have "finite {j. holds (y_takes y j) a}" by (rule rev_finite_subset)
  from this h have "0 < card {j. holds (y_takes y j) a}" by (rule card_Collect_pos)
  then show ?thesis using ok by (simp add: snaps_ok_def takes_ok_def)
qed

lemma same_file_iff: "same_file a b \<longleftrightarrow> a = b"
  by (auto simp: same_file_def)

lemma generation_clock: "clock_ok s \<Longrightarrow> generation s p \<le> s_clock s"
  by (auto simp: generation_def clock_ok_def split: option.splits)

lemma same_snapshots: "at_take i w y = at_take i w (y\<lparr>y_snapshots := y_snapshots y\<rparr>)"
  by (simp add: at_take_def)

text \<open>Each step of a take.\<close>

lemma step_plain:
  assumes "snaps_ok y" and "\<And>b. holds (y_takes y i) b \<longleftrightarrow> holds w b" and "\<And>b sn. holds w b \<Longrightarrow> fits (y_takes y i) sn \<Longrightarrow> fits w sn"
    and "gen_of w \<le> s_clock (y_snapshots y)" and "running w \<Longrightarrow> s_alive (y_snapshots y)"
  shows "snaps_ok (at_take i w y)"
  unfolding same_snapshots [of i w y]
proof (rule snaps_ok_at_take [OF assms(1) refl])
  show "\<exists>sn. s_heap (y_snapshots y) b = Some sn \<and> fits w sn" if "holds w b" for b
    using that assms(2,3) snaps_ok_D(5) [OF assms(1)] by metis
  show "sn_generation sn \<le> s_clock (y_snapshots y)" if "s_heap (y_snapshots y) b = Some sn" for b sn
    using snaps_ok_D(8) [OF assms(1) that] .
qed (use assms snaps_ok_D(1) [OF assms(1)] in auto)

lemma step_status: "snaps_ok y \<Longrightarrow> y_takes y i = Begun p g \<Longrightarrow> snaps_ok (take_status y i p g)"
  using snaps_ok_D(6,7) [of y i] by (auto simp: take_status_def split: sum.split intro!: step_plain)

lemma step_lookup:
  assumes ok: "snaps_ok y" and t: "y_takes y i = Stated p g info"
  shows "snaps_ok (take_lookup y i p g info)"
proof (cases "\<exists>a. s_current (y_snapshots y) p = Some a \<and> s_refs (y_snapshots y) a \<noteq> 0")
  case False
  then have l: "lock_held (y_snapshots y) p = (y_snapshots y, None)" by (auto simp: lock_held_def split: option.splits)
  have "snaps_ok (at_take i (Reading p g) y)"
    by (rule step_plain [OF ok]) (use t snaps_ok_D(6,7) [OF ok, of i] in auto)
  then show ?thesis by (simp add: take_lookup_def l)
next
  case True
  then obtain a where a: "s_current (y_snapshots y) p = Some a" "s_refs (y_snapshots y) a \<noteq> 0" by blast
  then have l: "lock_held (y_snapshots y) p = (add_ref a (y_snapshots y), Some a)" by (simp add: lock_held_def add_ref_def)
  have "snaps_ok (at_take i (Holding p g info a) (y\<lparr>y_snapshots := add_ref a (y_snapshots y)\<rparr>))"
    by (rule snaps_ok_at_take [OF ok refl])
      (use t a snaps_ok_D(1) [OF ok] snaps_ok_D(6,7) [OF ok, of i] snaps_ok_D(8,9) [OF ok] in
        \<open>auto simp: add_ref_def current_ok_def\<close>)
  then show ?thesis by (simp add: take_lookup_def l)
qed

lemma step_compare:
  assumes ok: "snaps_ok y" and t: "y_takes y i = Holding p g info a"
  shows "snaps_ok (take_compare y i p g info a)"
proof -
  obtain sn where sn: "s_heap (y_snapshots y) a = Some sn" "sn_path sn = p"
    using snaps_ok_D(5) [OF ok, of i a] t by auto
  show ?thesis
  proof (cases "sn_generation sn = g \<and> same_file (snapshot_info sn) info")
    case True
    have "snaps_ok (at_take i (Took p g info a) (y\<lparr>y_snapshots := y_snapshots y\<rparr>))"
      by (rule snaps_ok_at_take [OF ok refl])
        (use t sn True snaps_ok_D(1) [OF ok] snaps_ok_D(6,7) [OF ok, of i] snaps_ok_D(8) [OF ok] in
          \<open>auto simp: same_file_iff\<close>)
    with True sn show ?thesis by (simp add: take_compare_def)
  next
    case False
    have "0 < s_refs (y_snapshots y) a" by (rule held_positive [OF ok, of i]) (simp add: t)
    then have "snaps_ok (at_take i (Reading p g) (y\<lparr>y_snapshots := drop_ref a (y_snapshots y)\<rparr>))"
      by (intro snaps_ok_at_take [OF ok refl])
        (use t snaps_ok_D(1) [OF ok] snaps_ok_D(6,7) [OF ok, of i] snaps_ok_D(8) [OF ok] in
          \<open>auto simp: drop_ref_def current_ok_def\<close>)
    with False sn show ?thesis by (auto simp: take_compare_def)
  qed
qed

lemma step_read:
  assumes ok: "snaps_ok y" and t: "y_takes y i = Reading p g" and free: "s_heap (y_snapshots y) a = None"
  shows "snaps_ok (take_read y i p g a)"
proof (cases "\<exists>c. dt_read_whole (y_tree y) p = Value (Inr c)")
  case True
  then obtain c where c: "dt_read_whole (y_tree y) p = Value (Inr c)" by blast
  have none: "\<And>j. \<not> holds (y_takes y j) a" using snaps_ok_D(5) [OF ok] free by fastforce
  then have zero: "s_refs (y_snapshots y) a = 0" using ok by (simp add: snaps_ok_def takes_ok_def)
  have cur: "\<And>q. s_current (y_snapshots y) q \<noteq> Some a" using snaps_ok_D(9) [OF ok] free by fastforce
  have fit: "f_size (fc_info c) = length (fc_bytes c)" using snaps_ok_D(4) [OF ok] c by (auto simp: whole_reads_fit_def)
  have "snaps_ok (at_take i (Made p g (fc_info c) a)
      (y\<lparr>y_snapshots := new_snapshot a \<lparr>sn_path = p, sn_bytes = fc_bytes c, sn_mtime = f_mtime (fc_info c),
                 sn_generation = g\<rparr> (y_snapshots y)\<rparr>))"
    by (intro snaps_ok_at_take [OF ok refl])
      (use t free zero cur fit snaps_ok_D(1) [OF ok] snaps_ok_D(6,7) [OF ok, of i] snaps_ok_D(8) [OF ok] in
        \<open>auto simp: new_snapshot_def current_ok_def snapshot_info_def split: if_splits\<close>)
  then show ?thesis by (simp add: take_read_def c)
next
  case False
  have "snaps_ok (at_take i (Failed e) y)" "snaps_ok (at_take i Ended y)" for e
    by (rule step_plain [OF ok]; simp add: t)+
  with False show ?thesis by (auto simp: take_read_def split: completion.splits sum.splits)
qed

lemma step_keep:
  assumes ok: "snaps_ok y" and t: "y_takes y i = Made p g info a"
  shows "snaps_ok (take_keep y i p g info a)"
  unfolding take_keep_def
  by (rule snaps_ok_at_take [OF ok refl])
    (use t snaps_ok_D(1) [OF ok] snaps_ok_D(5-7) [OF ok, of i] snaps_ok_D(8) [OF ok] in
      \<open>auto simp: keep_current_def current_ok_def\<close>)

lemma step_copied:
  assumes ok: "snaps_ok y" and t: "y_takes y i = Took p g info a" "y_takes y j = Idle"
  shows "snaps_ok (at_take j (Took p g info a) (y\<lparr>y_snapshots := add_ref a (y_snapshots y)\<rparr>))"
  by (rule snaps_ok_at_take [OF ok refl])
    (use t snaps_ok_D(1) [OF ok] snaps_ok_D(5-7) [OF ok, of i] snaps_ok_D(8) [OF ok] in
      \<open>auto simp: add_ref_def current_ok_def\<close>)

lemma step_released:
  assumes ok: "snaps_ok y" and t: "y_takes y i = Took p g info a"
  shows "snaps_ok (at_take i Ended (y\<lparr>y_snapshots := drop_ref a (y_snapshots y)\<rparr>))"
proof -
  have "0 < s_refs (y_snapshots y) a" by (rule held_positive [OF ok, of i]) (simp add: t)
  then show ?thesis
    by (intro snaps_ok_at_take [OF ok refl])
      (use t snaps_ok_D(1) [OF ok] snaps_ok_D(8) [OF ok] in \<open>auto simp: drop_ref_def current_ok_def\<close>)
qed

text \<open>The steps outside a take.\<close>

lemma fold_changed_path_fields:
  "s_heap (fold changed_path ps s) = s_heap s \<and> s_refs (fold changed_path ps s) = s_refs s \<and>
   s_alive (fold changed_path ps s) = s_alive s \<and> s_clock s \<le> s_clock (fold changed_path ps s) \<and>
   (s_current (fold changed_path ps s) p = Some a \<longrightarrow> s_current s p = Some a)"
proof (induction ps arbitrary: s)
  case (Cons q ps)
  from Cons [of "changed_path q s"] show ?case by (auto simp: changed_path_def split: if_splits)
qed simp

lemma changed_fields:
  "s_heap (changed d s) = s_heap s" "s_refs (changed d s) = s_refs s" "s_alive (changed d s) = s_alive s"
  "s_clock s \<le> s_clock (changed d s)"
  "s_current (changed d s) p = Some a \<Longrightarrow> s_current s p = Some a"
  using fold_changed_path_fields [of "entries_changed d" s p a]
  by (cases "everything_dirty d"; simp add: changed_def)+

lemma changed_path_clock_ok: "clock_ok s \<Longrightarrow> clock_ok (changed_path p s)"
  by (auto simp: clock_ok_def changed_path_def le_SucI)

lemma changed_clock_ok:
  assumes "clock_ok s"
  shows "clock_ok (changed diff s)"
proof (cases "everything_dirty diff")
  case True
  with assms show ?thesis by (auto simp: clock_ok_def changed_def le_SucI)
next
  case False
  have "clock_ok s \<Longrightarrow> clock_ok (fold changed_path ps s)" for ps
    by (induction ps arbitrary: s) (auto simp: changed_path_clock_ok)
  with assms False show ?thesis by (simp add: changed_def)
qed

lemma step_changed:
  assumes ok: "snaps_ok y"
  shows "snaps_ok (y\<lparr>y_snapshots := changed d (y_snapshots y)\<rparr>)"
proof -
  let ?s = "y_snapshots y"
  note F = changed_fields [where d = d and s = ?s]
  have "current_ok (changed d ?s)"
    using snaps_ok_D(9) [OF ok] F(5) unfolding current_ok_def F(1,3) by blast
  moreover have "takes_ok (y\<lparr>y_snapshots := changed d ?s\<rparr>)"
    using snaps_ok_D(3) [OF ok] order_trans [OF _ F(4)] by (simp add: takes_ok_def F(1-3))
  ultimately show ?thesis
    using changed_clock_ok [OF snaps_ok_D(2) [OF ok]] snaps_ok_D(4) [OF ok] by (simp add: snaps_ok_def)
qed

lemma step_forgotten:
  assumes ok: "snaps_ok y" and z: "s_refs (y_snapshots y) a = 0"
  shows "snaps_ok (y\<lparr>y_snapshots := forget a (y_snapshots y)\<rparr>)"
proof (cases "s_heap (y_snapshots y) a")
  case (Some sn)
  let ?s = "y_snapshots y"
  have "\<not> holds (y_takes y i) a" for i using held_positive [OF ok, of i a] z by auto
  moreover have "s_current ?s q = Some a \<Longrightarrow> s_alive ?s \<and> q = sn_path sn" for q
    using snaps_ok_D(9) [OF ok, of q a] Some by auto
  ultimately show ?thesis
    using ok Some unfolding snaps_ok_def takes_ok_def current_ok_def clock_ok_def forget_def Let_def
    by (auto split: if_splits)
qed (use ok in \<open>simp add: forget_def\<close>)

definition snap_init :: "ssys \<Rightarrow> bool" where
  "snap_init y \<longleftrightarrow> y_snapshots y = snapshots_new \<and> y_takes y = (\<lambda>_. Idle) \<and> whole_reads_fit (y_tree y)"

lemma snap_step_ok:
  assumes "snap_step y y'" and ok: "snaps_ok y"
  shows "snaps_ok y'"
  using assms(1)
proof cases
  case (Take_begins i p)
  then show ?thesis
    using generation_clock [OF snaps_ok_D(2) [OF ok]] by (auto intro!: step_plain [OF ok])
next
  case (Destroyed)
  with ok show ?thesis
    by (auto simp: snaps_ok_def takes_ok_def current_ok_def clock_ok_def)
next
  case (Tree_changes t)
  with ok show ?thesis by (simp add: snaps_ok_def takes_ok_def)
next
  case (Forgotten a)
  with step_forgotten [OF ok] show ?thesis by simp
next
  case (Copied i p g info a j)
  with step_copied [OF ok] show ?thesis by simp
next
  case (Released i p g info a)
  with step_released [OF ok] show ?thesis by simp
qed (auto intro: step_changed [OF ok] step_status [OF ok] step_lookup [OF ok] step_compare [OF ok] step_read [OF ok] step_keep [OF ok])

lemma snap_init_ok: "snap_init y \<Longrightarrow> snaps_ok y"
  by (simp add: snap_init_def snaps_ok_def takes_ok_def current_ok_def clock_ok_def snapshots_new_def)

interpretation fs: transition_system snap_init snap_step snaps_ok
  by unfold_locales (blast intro: snap_init_ok snap_step_ok)+

section \<open>What a caller holds\<close>

text \<open>A snapshot that somebody holds is neither freed nor changed by any step.\<close>

lemma drop_ref_heap: "s_heap (drop_ref a s) = s_heap s"
  by (simp add: drop_ref_def)

lemma lock_held_heap: "lock_held s p = (s', r) \<Longrightarrow> s_heap s' = s_heap s"
  by (auto simp: lock_held_def split: option.splits if_splits)

lemma step_keeps_held:
  assumes "snap_step y y'" and ok: "snaps_ok y" and h: "holds (y_takes y i) a"
  shows "s_heap (y_snapshots y') a = s_heap (y_snapshots y) a"
proof -
  have alloc: "s_heap (y_snapshots y) a \<noteq> None" using snaps_ok_D(5) [OF ok h] by auto
  show ?thesis
    using assms(1)
  proof cases
    case (Forgotten b)
    with held_positive [OF ok h] have "b \<noteq> a" by auto
    with Forgotten show ?thesis by (auto simp: forget_def Let_def split: option.split)
  qed (use alloc in \<open>auto simp: at_take_def take_status_def take_lookup_def take_compare_def take_read_def take_keep_def
      changed_fields drop_ref_heap add_ref_def new_snapshot_def keep_current_def
      split: sum.splits prod.splits option.splits completion.splits dest: lock_held_heap\<close>)
qed

lemma step_keeps_took:
  assumes "snap_step y y'" and t: "y_takes y i = Took p g info a"
  shows "y_takes y' i = Took p g info a \<or> y_takes y' i = Ended"
  using assms(1)
  by cases (use t in \<open>auto simp: at_take_def take_status_def take_lookup_def take_compare_def take_read_def take_keep_def
      split: sum.splits prod.splits option.splits completion.splits if_splits\<close>)

lemma generation_step:
  assumes "snap_step y y'" and ok: "snaps_ok y"
  shows "generation (y_snapshots y) p \<le> generation (y_snapshots y') p"
proof -
  have same: "generation s' p = generation s p"
    if "s_everything s' = s_everything s" "s_generations s' = s_generations s" for s s'
    using that by (simp add: generation_def)
  have path: "clock_ok s \<Longrightarrow> generation s p \<le> generation (changed_path q s) p" for s q
    by (auto simp: generation_def changed_path_def clock_ok_def le_SucI split: option.splits)
  have "clock_ok s \<Longrightarrow> generation s p \<le> generation (fold changed_path qs s) p" for s qs
  proof (induction qs arbitrary: s)
    case (Cons q qs)
    from order_trans [OF path [OF Cons.prems, of q] Cons.IH [OF changed_path_clock_ok [OF Cons.prems, of q]]]
    show ?case by simp
  qed simp
  moreover have "clock_ok s \<Longrightarrow> everything_dirty d \<Longrightarrow> generation s p \<le> generation (changed d s) p" for s d
    using generation_clock [of s p] by (simp add: generation_def changed_def)
  ultimately have ch: "generation (y_snapshots y) p \<le> generation (changed d (y_snapshots y)) p" for d
    using snaps_ok_D(2) [OF ok] by (cases "everything_dirty d") (auto simp: changed_def)
  show ?thesis
    using assms(1)
  proof cases
    case (Changed d)
    with ch show ?thesis by simp
  qed (auto simp: at_take_def take_status_def take_lookup_def take_compare_def take_read_def take_keep_def
      drop_ref_def add_ref_def new_snapshot_def keep_current_def lock_held_def forget_def Let_def generation_def
      split: sum.splits prod.splits option.splits completion.splits if_splits)
qed

lemma changed_generation:
  assumes ok: "clock_ok s" and d: "everything_dirty d \<or> p \<in> set (entries_changed d)"
  shows "s_clock s < generation (changed d s) p"
proof (cases "everything_dirty d")
  case True
  then show ?thesis by (simp add: changed_def generation_def)
next
  case False
  have keep: "m < generation s p \<Longrightarrow> m \<le> s_clock s \<Longrightarrow> m < generation (fold changed_path ps s) p" for m ps s
  proof (induction ps arbitrary: s)
    case (Cons q ps)
    then have "m < generation (changed_path q s) p" by (auto simp: generation_def changed_path_def split: option.splits if_splits)
    moreover have "m \<le> s_clock (changed_path q s)" using Cons.prems by (simp add: changed_path_def)
    ultimately show ?case using Cons.IH by simp
  qed simp
  have "p \<in> set ps \<Longrightarrow> m \<le> s_clock s \<Longrightarrow> m < generation (fold changed_path ps s) p" for m ps s
  proof (induction ps arbitrary: s)
    case (Cons q ps)
    show ?case
    proof (cases "p \<in> set ps")
      case True
      with Cons show ?thesis by (simp add: changed_path_def)
    next
      case False
      with Cons.prems have "m < generation (changed_path q s) p" "m \<le> s_clock (changed_path q s)"
        by (auto simp: generation_def changed_path_def)
      with keep show ?thesis by simp
    qed
  qed simp
  with d False show ?thesis by (simp add: changed_def)
qed

end
