(* ===== verification/Tree_Properties.thy ===== *)
theory Tree_Properties
  imports File_Snapshots
begin

text \<open>
  What the directory trees and the snapshots of their files guarantee: the notifications of a
  tree name everything that changed, the comparison of trees decides whether they are alike, and a
  snapshot is one version of its file for as long as anybody holds it.
\<close>

section \<open>Trees\<close>

definition child_names :: "directory_tree \<Rightarrow> string list \<Rightarrow> string set option" where
  "child_names t p = (case dt_ls t p of Inl e \<Rightarrow> None | Inr es \<Rightarrow> Some (set (map t_name es)))"

lemma child_names_directory:
  assumes "mem_ok t" and "names_ok p" and "dt_status (mem_view t) p = Inr (Directory_entry d)"
  shows "child_names (mem_view t) p = Some {n. name_ok n \<and> has_value (dt_status (mem_view t) (p @ [n]))}"
proof -
  obtain es where e: "dt_ls (mem_view t) p = Inr es"
    "\<forall>n. n \<in> set (map t_name es) \<longleftrightarrow> name_ok n \<and> has_value (dt_status (mem_view t) (p @ [n]))"
    using mem.listed [OF assms] by blast
  then have "set (map t_name es) = {n. name_ok n \<and> has_value (dt_status (mem_view t) (p @ [n]))}" by blast
  then show ?thesis by (simp add: child_names_def e(1))
qed

lemma child_names_other:
  assumes "names_ok p" and "\<not> (\<exists>d. dt_status (mem_view t) p = Inr (Directory_entry d))"
  shows "child_names (mem_view t) p = None"
  using assms by (auto simp: child_names_def mem_view_def mem_ls_def mem_status_at normalize_generic
      is_file_iff(2) split: option.splits)

lemma view_of_entry:
  assumes "names_ok p" and "map_of (m_entries t') p = map_of (m_entries t) p"
  shows "dt_status (mem_view t') p = dt_status (mem_view t) p"
    "dt_read_whole (mem_view t') p = dt_read_whole (mem_view t) p"
  using assms by (simp_all add: mem_view_def mem_status_at mem_read_whole_def normalize_generic)

lemma has_value_entry: "names_ok p \<Longrightarrow> has_value (dt_status (mem_view t) p) \<longleftrightarrow> map_of (m_entries t) p \<noteq> None"
  by (auto simp: mem_view_def mem_status_at split: option.splits)

text \<open>
  C37: a mutation of the in-memory tree keeps it well formed, and its notification names
  everything that changed: a path it does not name has the same status and the same content, and a
  directory not named at all has the same children.
\<close>

theorem diffs_tell_what_changed:
  assumes ok: "mem_ok t" and path: "plain_path (op_path m)" and a: "mem_apply m t = Some (t', d)" and p: "names_ok p"
  shows "mem_ok t' \<and>
    (p \<notin> set (entries_changed d) \<longrightarrow> dt_status (mem_view t') p = dt_status (mem_view t) p \<and>
       dt_read_whole (mem_view t') p = dt_read_whole (mem_view t) p) \<and>
    (p \<notin> set (entries_changed d) \<union> set (child_lists_changed d) \<longrightarrow>
       child_names (mem_view t') p = child_names (mem_view t) p)"
proof -
  have ok': "mem_ok t'" using mem_apply_ok [OF ok path a] .
  note same = view_of_entry [OF _ mem_apply_entries [OF ok a]]
  have kids: "child_names (mem_view t') p = child_names (mem_view t) p"
    if out: "p \<notin> set (entries_changed d) \<union> set (child_lists_changed d)"
  proof -
    have st: "dt_status (mem_view t') p = dt_status (mem_view t) p" using same(1) p out by simp
    show ?thesis
    proof (cases "\<exists>x. dt_status (mem_view t) p = Inr (Directory_entry x)")
      case False
      with st child_names_other [OF p] show ?thesis by metis
    next
      case True
      then obtain x where x: "dt_status (mem_view t) p = Inr (Directory_entry x)" ..
      have "has_value (dt_status (mem_view t') (p @ [n])) \<longleftrightarrow> has_value (dt_status (mem_view t) (p @ [n]))"
        if n: "name_ok n" for n
      proof (cases "p @ [n] \<in> set (entries_changed d)")
        case True
        have "names_ok (p @ [n])" using p n by simp
        with mem_apply_kinds [OF ok a True] out show ?thesis by (simp add: has_value_entry)
      next
        case False
        with same(1) [of "p @ [n]"] p n show ?thesis by simp
      qed
      then show ?thesis
        using child_names_directory [OF ok p x] child_names_directory [OF ok' p, of x] st x by auto
    qed
  qed
  show ?thesis using ok' same p kids by blast
qed

definition one_file :: mem_tree where
  "one_file = fst (the (mem_apply (Write_file ''a'' ''hello'' 3) mem_tree_new))"

theorem diffs_tell_what_changed_witness:
  "mem_ok one_file \<and> child_names (mem_view one_file) [''b''] = child_names (mem_view mem_tree_new) [''b'']"
proof -
  have "mem_apply (Write_file ''a'' ''hello'' 3) mem_tree_new = Some (one_file, no_diff\<lparr>entries_changed := [[''a'']], child_lists_changed := [[]]\<rparr>)"
    "plain_path (op_path (Write_file ''a'' ''hello'' 3))" "names_ok [''b'']"
    by code_simp+
  from diffs_tell_what_changed [OF mem_tree_new_ok this(2,1,3)] show ?thesis by (simp add: no_diff_def)
qed

text \<open>
  C38: the comparison of two trees always ends, given fuel for their depth, and reports no
  difference exactly when every path is the same kind of entry in both, with the same bytes if it
  is a file.
\<close>

theorem comparison_decides:
  assumes "mem_ok a" and "mem_ok b"
  shows "\<exists>N. \<forall>levels \<ge> N. \<exists>message. diff_trees levels (mem_view a) (mem_view b) = Some message \<and>
    (message = [] \<longleftrightarrow> (\<forall>p. names_ok p \<longrightarrow> alike_at (mem_view a) (mem_view b) p))"
  by (rule mem.diff_decides [OF assms])

lemma one_file_ok: "mem_ok one_file"
proof -
  have "mem_apply (Write_file ''a'' ''hello'' 3) mem_tree_new = Some (one_file, no_diff\<lparr>entries_changed := [[''a'']], child_lists_changed := [[]]\<rparr>)"
    "plain_path (op_path (Write_file ''a'' ''hello'' 3))" by code_simp+
  from mem_apply_ok [OF mem_tree_new_ok this(2,1)] show ?thesis .
qed

theorem comparison_decides_witness:
  "\<exists>N. \<forall>levels. N \<le> levels \<longrightarrow> diff_trees levels (mem_view one_file) (mem_view mem_tree_new) \<noteq> Some []"
proof -
  obtain N where N: "\<forall>levels \<ge> N. \<exists>message. diff_trees levels (mem_view one_file) (mem_view mem_tree_new) = Some message \<and>
    (message = [] \<longleftrightarrow> (\<forall>p. names_ok p \<longrightarrow> alike_at (mem_view one_file) (mem_view mem_tree_new) p))"
    using comparison_decides [OF one_file_ok mem_tree_new_ok] by blast
  have "names_ok [''a''] \<and> \<not> alike_at (mem_view one_file) (mem_view mem_tree_new) [''a'']" by code_simp
  with N show ?thesis by (metis option.inject)
qed

section \<open>Snapshots\<close>

text \<open>
  In every reachable state, whatever takes, changes, releases and deletions interleave: the
  map of current snapshots refers only to snapshots that are not freed and of the right path; and
  a snapshot that a take has returned is not freed, is of the file asked for, of the generation the
  file had when the take began, and has the size and time that the tree reported during the take.
\<close>

theorem snapshots_valid:
  assumes "snap_init y" and "snap_step\<^sup>*\<^sup>* y z"
  shows "(s_current (y_snapshots z) p = Some a \<longrightarrow> (\<exists>sn. s_heap (y_snapshots z) a = Some sn \<and> sn_path sn = p)) \<and>
    (y_takes z i = Took q g info b \<longrightarrow> (\<exists>sn. s_heap (y_snapshots z) b = Some sn \<and> sn_path sn = q \<and>
       sn_generation sn = g \<and> snapshot_info sn = info \<and> 0 < s_refs (y_snapshots z) b))"
proof -
  have ok: "snaps_ok z" using fs.reachable_inv [OF assms] .
  have "0 < s_refs (y_snapshots z) b" if "y_takes z i = Took q g info b"
    using held_positive [OF ok, of i b] that by simp
  with snaps_ok_D(9) [OF ok, of p a] snaps_ok_D(5) [OF ok, of i b] show ?thesis by auto
qed

definition snap_start :: ssys where
  "snap_start = \<lparr>y_snapshots = snapshots_new, y_tree = mem_view one_file, y_takes = (\<lambda>_. Idle)\<rparr>"

lemma mem_view_fits: "mem_ok t \<Longrightarrow> whole_reads_fit (mem_view t)"
  unfolding whole_reads_fit_def mem_view_def mem_read_whole_def
  by (auto simp: node_ok_def split: option.splits entry_info.splits dest: mem_ok_entry(2))

lemma snap_start_init: "snap_init snap_start"
  by (simp add: snap_init_def snap_start_def mem_view_fits one_file_ok)

definition snap_took :: ssys where
  "snap_took = take_keep (take_read (take_lookup (take_status
     (at_take 0 (Begun [''a''] 0) snap_start) 0 [''a''] 0) 0 [''a''] 0 \<lparr>f_size = 5, f_mtime = 3\<rparr>) 0 [''a''] 0 7)
     0 [''a''] 0 \<lparr>f_size = 5, f_mtime = 3\<rparr> 7"

lemma snap_took_reachable: "snap_step\<^sup>*\<^sup>* snap_start snap_took"
proof -
  let ?f = "\<lparr>f_size = 5, f_mtime = 3\<rparr>"
  let ?a = "at_take 0 (Begun [''a''] 0) snap_start"
  let ?b = "take_status ?a 0 [''a''] 0"
  let ?c = "take_lookup ?b 0 [''a''] 0 ?f"
  let ?d = "take_read ?c 0 [''a''] 0 7"
  have st: "file_status (mem_view one_file) [''a''] = Inr ?f" by code_simp
  have rd: "dt_read_whole (mem_view one_file) [''a''] = Value (Inr \<lparr>fc_bytes = ''hello'', fc_info = ?f\<rparr>)" by code_simp
  have b: "?b = at_take 0 (Stated [''a''] 0 ?f) ?a" by (simp add: take_status_def at_take_def snap_start_def st)
  have c: "?c = at_take 0 (Reading [''a''] 0) ?b"
    unfolding b by (simp add: take_lookup_def lock_held_def at_take_def snap_start_def snapshots_new_def)
  have "snap_step snap_start ?a"
    using Take_begins [of snap_start 0 "[''a'']"] by (simp add: snap_start_def snapshots_new_def generation_def)
  moreover have "snap_step ?a ?b" by (rule Take_status) (simp add: at_take_def)
  moreover have "snap_step ?b ?c" by (rule Take_lookup) (subst b, simp add: at_take_def)
  moreover have "snap_step ?c ?d"
    by (rule Take_read) (subst c, subst b, simp add: at_take_def snap_start_def snapshots_new_def)+
  moreover have "snap_step ?d snap_took"
    unfolding snap_took_def
    by (rule Take_keep) (subst c, subst b, simp add: take_read_def at_take_def snap_start_def rd)
  ultimately show ?thesis by (meson converse_rtranclp_into_rtranclp rtranclp.rtrancl_refl)
qed

lemma snap_took_is:
  "y_takes snap_took 0 = Took [''a''] 0 \<lparr>f_size = 5, f_mtime = 3\<rparr> 7"
  by (simp add: snap_took_def take_keep_def at_take_def)

theorem snapshots_valid_witness:
  "\<exists>sn. s_heap (y_snapshots snap_took) 7 = Some sn \<and> sn_path sn = [''a''] \<and>
     snapshot_info sn = \<lparr>f_size = 5, f_mtime = 3\<rparr> \<and> 0 < s_refs (y_snapshots snap_took) 7"
  using snapshots_valid [OF snap_start_init snap_took_reachable, of "[''a'']" 7 0 "[''a'']" 0 "\<lparr>f_size = 5, f_mtime = 3\<rparr>" 7]
    snap_took_is by blast

text \<open>
  A snapshot that is held never changes: until it is let go, every later state has the same
  content at its address, though the files it was taken from change.
\<close>

theorem held_snapshot_constant:
  assumes "snap_init y" and "snap_step\<^sup>*\<^sup>* y z" and "y_takes z i = Took p g info a" and "snap_step\<^sup>*\<^sup>* z z'"
  shows "y_takes z' i = Ended \<or>
    (y_takes z' i = Took p g info a \<and> s_heap (y_snapshots z') a = s_heap (y_snapshots z) a)"
  using assms(4)
proof (induction rule: rtranclp_induct)
  case base
  with assms(3) show ?case by simp
next
  case (step u v)
  have ok: "snaps_ok u"
    using fs.reachable_inv [OF assms(1)] assms(2) step.hyps(1) by (meson rtranclp_trans)
  show ?case
  proof (cases "y_takes u i = Ended")
    case True
    with step.hyps(2) show ?thesis
      by cases (auto simp: at_take_def take_status_def take_lookup_def take_compare_def take_read_def take_keep_def
          split: sum.splits prod.splits option.splits completion.splits if_splits)
  next
    case False
    with step.IH have u: "y_takes u i = Took p g info a" "s_heap (y_snapshots u) a = s_heap (y_snapshots z) a" by auto
    with step_keeps_held [OF step.hyps(2) ok, of i a] step_keeps_took [OF step.hyps(2) u(1)] show ?thesis by auto
  qed
qed

theorem held_snapshot_constant_witness:
  "y_takes snap_took 0 = Ended \<or> (y_takes snap_took 0 = Took [''a''] 0 \<lparr>f_size = 5, f_mtime = 3\<rparr> 7 \<and>
     s_heap (y_snapshots snap_took) 7 = s_heap (y_snapshots snap_took) 7)"
  by (rule held_snapshot_constant [OF snap_start_init snap_took_reachable snap_took_is rtranclp.rtrancl_refl])

text \<open>
  Generations only grow, none is beyond the newest, and once a change of a file is reported,
  its generation is beyond that of every snapshot taken before, so that none of them is returned
  again by a take that begins later.
\<close>

theorem generations_bound_snapshots:
  assumes "snap_init y" and "snap_step\<^sup>*\<^sup>* y z"
  shows "generation (y_snapshots z) p \<le> latest (y_snapshots z) \<and>
    (s_heap (y_snapshots z) a = Some sn \<longrightarrow> everything_dirty d \<or> p \<in> set (entries_changed d) \<longrightarrow>
       sn_generation sn < generation (changed d (y_snapshots z)) p) \<and>
    (snap_step z z' \<longrightarrow> generation (y_snapshots z) p \<le> generation (y_snapshots z') p)"
proof -
  have ok: "snaps_ok z" using fs.reachable_inv [OF assms] .
  have "sn_generation sn < generation (changed d (y_snapshots z)) p"
    if "s_heap (y_snapshots z) a = Some sn" "everything_dirty d \<or> p \<in> set (entries_changed d)"
    using changed_generation [OF snaps_ok_D(2) [OF ok] that(2)] snaps_ok_D(8) [OF ok that(1)] by simp
  moreover have "generation (y_snapshots z) p \<le> latest (y_snapshots z)"
    using generation_clock [OF snaps_ok_D(2) [OF ok]] by (simp add: latest_def)
  ultimately show ?thesis using generation_step [OF _ ok] by blast
qed

theorem generations_bound_snapshots_witness:
  "generation (y_snapshots snap_took) [''a''] \<le> latest (y_snapshots snap_took)"
  using generations_bound_snapshots [OF snap_start_init snap_took_reachable] by blast

end
