(* ===== verification/Build_Cache.thy ===== *)
theory Build_Cache
  imports Manifest "HOL-Library.Word"
begin

text \<open>
  \<^verbatim>\<open>BuildCache\<close> (\<^verbatim>\<open>src/buildcache.cpp\<close>): the records of built outputs in a database and
  the files of their contents, named by hash.  XXH3 is a parameter (\<open>xxh\<close>, the two halves of its
  128 bits).  Every statement of the database and every file operation may fail: the parameter
  \<open>fl\<close> says what the \<open>n\<close>th of them does, and the cache counts them in \<open>c_tick\<close>.  A failing
  write leaves as much of the file as the failure says.  An operation holds the lock, so it is one
  step; an exception it throws is the left of its result.
\<close>

section \<open>Hashes\<close>

definition hex_digit :: "nat \<Rightarrow> char" where
  "hex_digit d = ''0123456789abcdef'' ! d"

text \<open>\<^verbatim>\<open>{:016x}\<close>: sixteen digits, most significant first.\<close>

fun hex_digits :: "nat \<Rightarrow> nat \<Rightarrow> string" where
  "hex_digits 0 v = []"
| "hex_digits (Suc k) v = hex_digits k (v div 16) @ [hex_digit (v mod 16)]"

definition hash_of :: "(string \<Rightarrow> 64 word \<times> 64 word) \<Rightarrow> string \<Rightarrow> string" where
  "hash_of xxh bytes = hex_digits 16 (unat (fst (xxh bytes))) @ hex_digits 16 (unat (snd (xxh bytes)))"

definition is_hash :: "string \<Rightarrow> bool" where
  "is_hash h \<longleftrightarrow> length h = 32 \<and>
     (\<forall>c \<in> set h. (CHR ''0'' \<le> c \<and> c \<le> CHR ''9'') \<or> (CHR ''a'' \<le> c \<and> c \<le> CHR ''f''))"

section \<open>State\<close>

record command =
  o_output :: string
  o_action :: build_action
  o_text :: string

record cache_input =
  i_path :: string
  i_mtime :: int
  i_size :: int
  i_hash :: string

record cache_record =
  e_command :: command
  e_hash :: string
  e_mtime :: int
  e_inputs :: "cache_input list"

text \<open>The rows of the two tables, in the order of their row ids.\<close>

record output_row =
  w_path :: string
  w_action :: string
  w_command :: string
  w_hash :: string
  w_mtime :: int

record tables =
  d_outputs :: "output_row list"
  d_inputs :: "(string \<times> cache_input) list"

record cache =
  c_tables :: tables
  c_objects :: "string \<Rightarrow> string option"
  c_next_scratch :: nat
  c_tick :: nat

text \<open>How an operation fails: the error, and for a write how much of it was done.\<close>

type_synonym faults = "nat \<Rightarrow> (error_code \<times> nat) option"

definition tried :: "faults \<Rightarrow> cache \<Rightarrow> cache \<times> (error_code \<times> nat) option" where
  "tried fl c = (c\<lparr>c_tick := Suc (c_tick c)\<rparr>, fl (c_tick c))"

section \<open>Text\<close>

definition action_text :: "build_action \<Rightarrow> string" where
  "action_text a = (case a of Run \<Rightarrow> ''run'' | Capture \<Rightarrow> ''capture'' | Copy \<Rightarrow> ''copy'' | Tracing \<Rightarrow> ''tracing'')"

definition action_from_text :: "string \<Rightarrow> build_action option" where
  "action_from_text s = List.find (\<lambda>a. action_text a = s) [Run, Capture, Copy, Tracing]"

section \<open>Statements\<close>

definition find_hash :: "tables \<Rightarrow> string \<Rightarrow> string option" where
  "find_hash t path = map_option w_hash (List.find (\<lambda>w. w_path w = path) (d_outputs t))"

definition delete_inputs :: "string \<Rightarrow> tables \<Rightarrow> tables" where
  "delete_inputs out t = t\<lparr>d_inputs := filter (\<lambda>(p, i). p \<noteq> out) (d_inputs t)\<rparr>"

definition delete_output :: "string \<Rightarrow> tables \<Rightarrow> tables" where
  "delete_output out t = t\<lparr>d_outputs := filter (\<lambda>w. w_path w \<noteq> out) (d_outputs t)\<rparr>"

definition replace_output :: "output_row \<Rightarrow> tables \<Rightarrow> tables" where
  "replace_output w t = t\<lparr>d_outputs := filter (\<lambda>v. w_path v \<noteq> w_path w) (d_outputs t) @ [w]\<rparr>"

definition insert_input :: "string \<Rightarrow> cache_input \<Rightarrow> tables \<Rightarrow> tables" where
  "insert_input out i t =
     (if \<exists>(p, j) \<in> set (d_inputs t). p = out \<and> i_path j = i_path i then t
      else t\<lparr>d_inputs := d_inputs t @ [(out, i)]\<rparr>)"

text \<open>
  A transaction: statements one after the other on a copy of the tables, each of which may fail,
  then the commit, which may too; a failure rolls back and is thrown.
\<close>

fun run_statements :: "faults \<Rightarrow> (tables \<Rightarrow> tables) list \<Rightarrow> tables \<Rightarrow> cache \<Rightarrow> cache \<times> (error_code + tables)" where
  "run_statements fl [] t c = (c, Inr t)"
| "run_statements fl (s # ss) t c =
     (case tried fl c of
        (c, Some (e, k)) \<Rightarrow> (c, Inl e)
      | (c, None) \<Rightarrow> run_statements fl ss (s t) c)"

definition transaction :: "faults \<Rightarrow> (tables \<Rightarrow> tables) list \<Rightarrow> cache \<Rightarrow> cache \<times> (error_code + unit)" where
  "transaction fl ss c =
     (case run_statements fl (id # ss @ [id]) (c_tables c) c of
        (c, Inl e) \<Rightarrow> (c, Inl e)
      | (c, Inr t) \<Rightarrow> (c\<lparr>c_tables := t\<rparr>, Inr ()))"

section \<open>Operations\<close>

definition try_remove :: "faults \<Rightarrow> string \<Rightarrow> cache \<Rightarrow> cache \<times> error_code" where
  "try_remove fl name c =
     (case tried fl c of
        (c, Some (e, k)) \<Rightarrow> (c, e)
      | (c, None) \<Rightarrow> (c\<lparr>c_objects := (c_objects c)(name := None)\<rparr>, No_error))"

definition remove_file :: "faults \<Rightarrow> string \<Rightarrow> cache \<Rightarrow> cache" where
  "remove_file fl name c = fst (try_remove fl name c)"

definition drop_if_unreferenced :: "faults \<Rightarrow> string \<Rightarrow> cache \<Rightarrow> cache \<times> (error_code + unit)" where
  "drop_if_unreferenced fl h c =
     (case tried fl c of
        (c, Some (e, k)) \<Rightarrow> (c, Inl e)
      | (c, None) \<Rightarrow>
          (if \<exists>w \<in> set (d_outputs (c_tables c)). w_hash w = h then (c, Inr ()) else (remove_file fl h c, Inr ())))"

text \<open>
  The content under its hash, written in full under another name first.  When the renaming fails,
  the error thrown is that of the removal which follows, since both go to the same variable.
\<close>

definition scratch_name :: "string \<Rightarrow> nat \<Rightarrow> string" where
  "scratch_name h n = h @ ''.'' @ decimal n @ ''.tmp''"

definition write_object :: "faults \<Rightarrow> string \<Rightarrow> string \<Rightarrow> cache \<Rightarrow> cache \<times> (error_code + unit)" where
  "write_object fl h bytes c =
     (let c = c\<lparr>c_next_scratch := Suc (c_next_scratch c)\<rparr>;
          scratch = scratch_name h (c_next_scratch c)
      in case tried fl c of
           (c, Some (e, k)) \<Rightarrow>
             (remove_file fl scratch (if k = 0 then c
                else c\<lparr>c_objects := (c_objects c)(scratch \<mapsto> take (k - 1) bytes)\<rparr>), Inl e)
         | (c, None) \<Rightarrow>
             (let c = c\<lparr>c_objects := (c_objects c)(scratch \<mapsto> bytes)\<rparr> in
              case tried fl c of
                (c, Some (e, k)) \<Rightarrow> (case try_remove fl scratch c of (c, e) \<Rightarrow> (c, Inl e))
              | (c, None) \<Rightarrow> (c\<lparr>c_objects := (c_objects c)(scratch := None, h \<mapsto> bytes)\<rparr>, Inr ())))"

definition store :: "(string \<Rightarrow> 64 word \<times> 64 word) \<Rightarrow> faults \<Rightarrow> command \<Rightarrow> string \<Rightarrow> int \<Rightarrow> cache_input list \<Rightarrow>
    cache \<Rightarrow> cache \<times> (error_code + string)" where
  "store xxh fl cmd bytes mtime inputs c =
     (let h = hash_of xxh bytes; out = o_output cmd in
      case write_object fl h bytes c of
        (c, Inl e) \<Rightarrow> (c, Inl e)
      | (c, Inr _) \<Rightarrow>
          (let previous = find_hash (c_tables c) out;
               row = \<lparr>w_path = out, w_action = action_text (o_action cmd), w_command = o_text cmd, w_hash = h, w_mtime = mtime\<rparr>
           in case transaction fl ([id, delete_inputs out, replace_output row] @ map (insert_input out) inputs) c of
                (c, Inl e) \<Rightarrow> (fst (drop_if_unreferenced fl h c), Inl e)
              | (c, Inr _) \<Rightarrow>
                  (case previous of
                     None \<Rightarrow> (c, Inr h)
                   | Some p \<Rightarrow>
                       if p = h then (c, Inr h)
                       else (case drop_if_unreferenced fl p c of
                           (c, Inl e) \<Rightarrow> (c, Inl e)
                         | (c, Inr _) \<Rightarrow> (c, Inr h)))))"

fun drop_all :: "faults \<Rightarrow> string list \<Rightarrow> cache \<Rightarrow> cache \<times> (error_code + unit)" where
  "drop_all fl [] c = (c, Inr ())"
| "drop_all fl (h # hs) c =
     (case drop_if_unreferenced fl h c of (c, Inl e) \<Rightarrow> (c, Inl e) | (c, Inr _) \<Rightarrow> drop_all fl hs c)"

text \<open>The statements for forgotten outputs, those without a record skipped, and the hashes they drop.\<close>

fun forget_statements :: "tables \<Rightarrow> string list \<Rightarrow> (tables \<Rightarrow> tables) list" where
  "forget_statements t [] = []"
| "forget_statements t (out # outs) =
     (if find_hash t out = None then id # forget_statements t outs
      else [id, delete_inputs out, delete_output out] @ forget_statements (delete_output out (delete_inputs out t)) outs)"

fun forget_hashes :: "tables \<Rightarrow> string list \<Rightarrow> string list" where
  "forget_hashes t [] = []"
| "forget_hashes t (out # outs) =
     (case find_hash t out of None \<Rightarrow> forget_hashes t outs
      | Some h \<Rightarrow> h # forget_hashes (delete_output out (delete_inputs out t)) outs)"

definition forget_outputs :: "faults \<Rightarrow> string list \<Rightarrow> cache \<Rightarrow> cache \<times> (error_code + unit)" where
  "forget_outputs fl outs c =
     (if outs = [] then (c, Inr ())
      else (case transaction fl (forget_statements (c_tables c) outs) c of
          (c', Inl e) \<Rightarrow> (c', Inl e)
        | (c', Inr _) \<Rightarrow> drop_all fl (remdups (forget_hashes (c_tables c) outs)) c'))"

text \<open>Garbage: \<open>seen\<close> is what the directory iterator yields before it ends or fails.\<close>

definition collect_garbage :: "faults \<Rightarrow> string list \<Rightarrow> cache \<Rightarrow> cache \<times> (error_code + unit)" where
  "collect_garbage fl seen c =
     (case tried fl c of
        (c, Some (e, k)) \<Rightarrow> (c, Inl e)
      | (c, None) \<Rightarrow>
          (let referenced = map w_hash (d_outputs (c_tables c)) in
           (fold (remove_file fl) (filter (\<lambda>n. n \<notin> set referenced) seen) c, Inr ())))"

text \<open>What is read: the content of a hash, checked against it, and the records.\<close>

definition read_object :: "(string \<Rightarrow> 64 word \<times> 64 word) \<Rightarrow> faults \<Rightarrow> string \<Rightarrow> cache \<Rightarrow> cache \<times> (error_code + string)" where
  "read_object xxh fl h c =
     (if \<not> is_hash h then (c, Inl No_such_file_or_directory)
      else (case tried fl c of
        (c, Some (e, k)) \<Rightarrow> (c, Inl e)
      | (c, None) \<Rightarrow> (case c_objects c h of
          None \<Rightarrow> (c, Inl No_such_file_or_directory)
        | Some bytes \<Rightarrow> if hash_of xxh bytes \<noteq> h then (c, Inl No_such_file_or_directory) else (c, Inr bytes))))"

definition record_of :: "output_row \<Rightarrow> build_action \<Rightarrow> cache_record" where
  "record_of w a = \<lparr>e_command = \<lparr>o_output = w_path w, o_action = a, o_text = w_command w\<rparr>,
     e_hash = w_hash w, e_mtime = w_mtime w, e_inputs = []\<rparr>"

definition output_records :: "tables \<Rightarrow> cache_record list" where
  "output_records t = List.map_filter (\<lambda>w. map_option (record_of w) (action_from_text (w_action w))) (d_outputs t)"

definition add_input :: "string \<times> cache_input \<Rightarrow> cache_record list \<Rightarrow> cache_record list" where
  "add_input pi rs =
     (case List.find (\<lambda>k. o_output (e_command (rs ! k)) = fst pi) [0..<length rs] of
        None \<Rightarrow> rs
      | Some k \<Rightarrow> rs[k := (rs ! k)\<lparr>e_inputs := e_inputs (rs ! k) @ [snd pi]\<rparr>])"

definition records :: "tables \<Rightarrow> cache_record list" where
  "records t = fold add_input (d_inputs t) (output_records t)"

section \<open>Opening\<close>

text \<open>
  What the constructor finds: whether another instance holds the database, and the version of its
  tables; a cache of another version is emptied.
\<close>

definition schema_version :: int where
  "schema_version = 1"

text \<open>Calls that may fail and change nothing the model keeps.\<close>

fun tries :: "faults \<Rightarrow> nat \<Rightarrow> cache \<Rightarrow> cache \<times> (error_code + unit)" where
  "tries fl 0 c = (c, Inr ())"
| "tries fl (Suc n) c = (case tried fl c of (c, Some (e, k)) \<Rightarrow> (c, Inl e) | (c, None) \<Rightarrow> tries fl n c)"

definition drop_outputs :: "tables \<Rightarrow> tables" where
  "drop_outputs t = t\<lparr>d_outputs := []\<rparr>"

definition drop_inputs :: "tables \<Rightarrow> tables" where
  "drop_inputs t = t\<lparr>d_inputs := []\<rparr>"

definition open_cache :: "faults \<Rightarrow> bool \<Rightarrow> int \<Rightarrow> cache \<Rightarrow> cache \<times> (error_code + int)" where
  "open_cache fl in_use found c =
     (case tries fl 3 c of
        (c, Inl e) \<Rightarrow> (c, Inl e)
      | (c, Inr _) \<Rightarrow>
          if in_use then (c, Inl Device_or_resource_busy)
          else (case tries fl 3 c of
              (c, Inl e) \<Rightarrow> (c, Inl e)
            | (c, Inr _) \<Rightarrow>
                (case transaction fl (if found \<noteq> schema_version then [id, drop_outputs, drop_inputs, id, id] else [id]) c of
                   (c, Inl e) \<Rightarrow> (c, Inl e)
                 | (c, Inr _) \<Rightarrow> (c\<lparr>c_next_scratch := 0\<rparr>, Inr schema_version))))"

text \<open>Marking the directory: files of the directory itself, left as they are if already there.\<close>

definition write_once :: "string \<Rightarrow> string \<Rightarrow> (string \<Rightarrow> string option) \<Rightarrow> (string \<Rightarrow> string option)" where
  "write_once name contents files = (if files name = None then files(name \<mapsto> contents) else files)"

definition mark_as_cache :: "(string \<Rightarrow> string option) \<Rightarrow> (string \<Rightarrow> string option)" where
  "mark_as_cache files =
     write_once ''CACHEDIR.TAG''
       (''Signature: 8a477f597d28d172789f06886806bc55'' @ [CHR 0x0A] @
        ''# This file is a cache directory tag created by makebelieve.'' @ [CHR 0x0A] @
        ''# For information about cache directory tags, see:'' @ [CHR 0x0A] @ ''#'' @ [CHR 0x09] @
        ''https://bford.info/cachedir/'' @ [CHR 0x0A])
     (write_once ''.gitignore'' (''# Created by makebelieve.'' @ [CHR 0x0A] @ ''*'' @ [CHR 0x0A]) files)"

end
