(* ===== verification/Cache_Properties.thy ===== *)
theory Cache_Properties
  imports Build_Cache
begin

text \<open>
  What the build cache guarantees whatever fails on the way: every record names content that is
  there and has its hash, and what was stored is read back.
\<close>

section \<open>Hashes\<close>

lemma length_hex_digits: "length (hex_digits k v) = k"
  by (induction k v rule: hex_digits.induct) auto

lemma hex_digit_ok: "d < 16 \<Longrightarrow> (CHR ''0'' \<le> hex_digit d \<and> hex_digit d \<le> CHR ''9'') \<or> (CHR ''a'' \<le> hex_digit d \<and> hex_digit d \<le> CHR ''f'')"
proof -
  have "\<forall>d \<in> {..<16}. (CHR ''0'' \<le> hex_digit d \<and> hex_digit d \<le> CHR ''9'') \<or> (CHR ''a'' \<le> hex_digit d \<and> hex_digit d \<le> CHR ''f'')"
    by code_simp
  then show "d < 16 \<Longrightarrow> ?thesis" by blast
qed

lemma hex_digits_ok: "c \<in> set (hex_digits k v) \<Longrightarrow> (CHR ''0'' \<le> c \<and> c \<le> CHR ''9'') \<or> (CHR ''a'' \<le> c \<and> c \<le> CHR ''f'')"
proof (induction k v rule: hex_digits.induct)
  case (2 k v)
  with hex_digit_ok [of "v mod 16"] show ?case by auto
qed simp

lemma is_hash_hash_of: "is_hash (hash_of xxh bytes)"
  unfolding is_hash_def hash_of_def
  by (auto simp: length_hex_digits dest: hex_digits_ok)

lemma is_hash_length: "is_hash h \<Longrightarrow> length h = 32"
  by (simp add: is_hash_def)

lemma scratch_length: "is_hash h \<Longrightarrow> is_hash h' \<Longrightarrow> h \<noteq> scratch_name h' n"
  by (auto simp: scratch_name_def is_hash_def)

section \<open>The invariant\<close>

definition tables_ok :: "tables \<Rightarrow> bool" where
  "tables_ok t \<longleftrightarrow> distinct (map w_path (d_outputs t)) \<and>
     (\<forall>w \<in> set (d_outputs t). action_from_text (w_action w) \<noteq> None) \<and>
     distinct (map (\<lambda>(p, i). (p, i_path i)) (d_inputs t)) \<and>
     (\<forall>(p, i) \<in> set (d_inputs t). p \<in> w_path ` set (d_outputs t))"

definition content_ok :: "(string \<Rightarrow> 64 word \<times> 64 word) \<Rightarrow> cache \<Rightarrow> bool" where
  "content_ok xxh c \<longleftrightarrow> (\<forall>w \<in> set (d_outputs (c_tables c)). is_hash (w_hash w) \<and>
     (\<exists>bytes. c_objects c (w_hash w) = Some bytes \<and> hash_of xxh bytes = w_hash w))"

definition cache_ok :: "(string \<Rightarrow> 64 word \<times> 64 word) \<Rightarrow> cache \<Rightarrow> bool" where
  "cache_ok xxh c \<longleftrightarrow> tables_ok (c_tables c) \<and> content_ok xxh c"

lemma action_round_trip: "action_from_text (action_text a) = Some a"
  by (cases a) (simp_all add: action_from_text_def action_text_def)

subsection \<open>Statements\<close>

lemma tried_fields: "tried fl c = (c', r) \<Longrightarrow> c' = c\<lparr>c_tick := Suc (c_tick c)\<rparr> \<and> r = fl (c_tick c)"
  by (auto simp: tried_def)

lemma run_statements_result:
  "run_statements fl ss t c = (c', r) \<Longrightarrow>
   c_tables c' = c_tables c \<and> c_objects c' = c_objects c \<and> (\<forall>t'. r = Inr t' \<longrightarrow> t' = fold (\<lambda>s. s) ss t)"
  by (induction fl ss t c rule: run_statements.induct)
    (auto simp: tried_def split: option.splits prod.splits)

lemma transaction_result:
  assumes "transaction fl ss c = (c', r)"
  shows "c_objects c' = c_objects c"
    and "c_tables c' = (case r of Inl e \<Rightarrow> c_tables c | Inr _ \<Rightarrow> fold (\<lambda>s. s) ss (c_tables c))"
  using assms run_statements_result [of fl "id # ss @ [id]" "c_tables c" c]
  by (auto simp: transaction_def split: prod.splits sum.splits)

lemma tables_ok_delete:
  assumes "tables_ok t"
  shows "tables_ok (delete_inputs out t)" "tables_ok (delete_output out (delete_inputs out t))"
  using assms
  by (auto simp: tables_ok_def delete_inputs_def delete_output_def distinct_map_filter image_iff
      intro: distinct_map_filter)

lemma tables_ok_replace:
  assumes t: "tables_ok t" and a: "action_from_text (w_action w) \<noteq> None"
  shows "tables_ok (replace_output w t)"
proof -
  have "distinct (map w_path (filter (\<lambda>v. w_path v \<noteq> w_path w) (d_outputs t)))"
    using t by (auto simp: tables_ok_def intro: distinct_map_filter)
  moreover have "w_path w \<notin> w_path ` set (filter (\<lambda>v. w_path v \<noteq> w_path w) (d_outputs t))" by auto
  ultimately show ?thesis
    using t a by (auto simp: tables_ok_def replace_output_def)
qed

lemma tables_ok_insert:
  assumes t: "tables_ok t" and p: "out \<in> w_path ` set (d_outputs t)"
  shows "tables_ok (insert_input out i t)"
  using assms by (fastforce simp: tables_ok_def insert_input_def)

lemma insert_inputs_outputs: "d_outputs (fold (\<lambda>s. s) (map (insert_input out) is) t) = d_outputs t"
  by (induction "is" arbitrary: t) (auto simp: insert_input_def)

lemma tables_ok_inserts:
  "tables_ok t \<Longrightarrow> out \<in> w_path ` set (d_outputs t) \<Longrightarrow> tables_ok (fold (\<lambda>s. s) (map (insert_input out) is) t)"
proof (induction "is" arbitrary: t)
  case (Cons i "is")
  have "d_outputs (insert_input out i t) = d_outputs t" by (simp add: insert_input_def)
  with Cons tables_ok_insert show ?case by simp
qed simp

lemma tables_ok_forget: "tables_ok t \<Longrightarrow> tables_ok (fold (\<lambda>s. s) (forget_statements t outs) t)"
  by (induction t outs rule: forget_statements.induct) (auto simp: tables_ok_delete)

lemma forget_outputs_subset: "set (d_outputs (fold (\<lambda>s. s) (forget_statements t outs) t)) \<subseteq> set (d_outputs t)"
proof (induction t outs rule: forget_statements.induct)
  case (2 t out outs)
  show ?case
  proof (cases "find_hash t out = None")
    case False
    with 2 show ?thesis by (auto simp: delete_output_def delete_inputs_def)
  qed (use 2 in auto)
qed simp

subsection \<open>Files\<close>

text \<open>Changing a file that no record names, or giving a hash its own content.\<close>

lemma content_ok_remove:
  assumes "content_ok xxh c" and "\<forall>w \<in> set (d_outputs (c_tables c)). w_hash w \<noteq> name"
  shows "content_ok xxh (remove_file fl name c)" "c_tables (remove_file fl name c) = c_tables c"
  using assms by (auto simp: remove_file_def try_remove_def tried_def content_ok_def split: option.splits prod.splits)

lemma content_ok_drop:
  assumes "content_ok xxh c"
  shows "content_ok xxh (fst (drop_if_unreferenced fl h c))" "c_tables (fst (drop_if_unreferenced fl h c)) = c_tables c"
proof -
  let ?c = "c\<lparr>c_tick := Suc (c_tick c)\<rparr>"
  have "content_ok xxh ?c" using assms by (simp add: content_ok_def)
  then show "content_ok xxh (fst (drop_if_unreferenced fl h c))" "c_tables (fst (drop_if_unreferenced fl h c)) = c_tables c"
    using content_ok_remove [of xxh ?c h fl]
    by (auto simp: drop_if_unreferenced_def tried_def split: option.splits prod.splits)
qed

lemma content_ok_drop_all:
  "content_ok xxh c \<Longrightarrow> content_ok xxh (fst (drop_all fl hs c)) \<and> c_tables (fst (drop_all fl hs c)) = c_tables c"
proof (induction fl hs c rule: drop_all.induct)
  case (2 fl h hs c)
  obtain c' r where d: "drop_if_unreferenced fl h c = (c', r)" by (cases "drop_if_unreferenced fl h c")
  with content_ok_drop [OF 2(2), of fl h] have "content_ok xxh c'" "c_tables c' = c_tables c" by simp_all
  with 2 d show ?case by (cases r) simp_all
qed simp

lemma content_ok_collect:
  "content_ok xxh c \<Longrightarrow> \<forall>n \<in> set ns. \<forall>w \<in> set (d_outputs (c_tables c)). w_hash w \<noteq> n \<Longrightarrow>
   content_ok xxh (fold (remove_file fl) ns c) \<and> c_tables (fold (remove_file fl) ns c) = c_tables c"
proof (induction ns arbitrary: c)
  case (Cons n ns)
  have "content_ok xxh (remove_file fl n c)" "c_tables (remove_file fl n c) = c_tables c"
    using content_ok_remove [OF Cons.prems(1), of n fl] Cons.prems(2) by simp_all
  with Cons show ?case by simp
qed simp

lemma write_object_ok:
  assumes ok: "content_ok xxh c" and w: "write_object fl (hash_of xxh bytes) bytes c = (c', r)"
  shows "content_ok xxh c'" "c_tables c' = c_tables c" "r = Inr () \<Longrightarrow> c_objects c' (hash_of xxh bytes) = Some bytes"
proof -
  let ?h = "hash_of xxh bytes" and ?s = "scratch_name (hash_of xxh bytes) (Suc (c_next_scratch c))"
  have ne: "w_hash w \<noteq> ?s" if "w \<in> set (d_outputs (c_tables c))" for w
    using ok that scratch_length [OF _ is_hash_hash_of] by (auto simp: content_ok_def)
  have hs: "?h \<noteq> ?s" by (rule scratch_length) (rule is_hash_hash_of)+
  show "content_ok xxh c'" "c_tables c' = c_tables c" "r = Inr () \<Longrightarrow> c_objects c' ?h = Some bytes"
    using w ok ne hs unfolding write_object_def Let_def
    by (auto simp: remove_file_def try_remove_def tried_def content_ok_def split: option.splits prod.splits if_splits)
qed

section \<open>Operations\<close>

datatype cache_op = Store command string int "cache_input list" | Forget "string list" | Collect "string list"

definition cache_step :: "(string \<Rightarrow> 64 word \<times> 64 word) \<Rightarrow> faults \<Rightarrow> cache_op \<Rightarrow> cache \<Rightarrow> cache" where
  "cache_step xxh fl m c = (case m of
     Store cmd bytes mtime inputs \<Rightarrow> fst (store xxh fl cmd bytes mtime inputs c)
   | Forget outs \<Rightarrow> fst (forget_outputs fl outs c)
   | Collect seen \<Rightarrow> fst (collect_garbage fl seen c))"

definition stored_tables :: "command \<Rightarrow> string \<Rightarrow> int \<Rightarrow> cache_input list \<Rightarrow> tables \<Rightarrow> tables" where
  "stored_tables cmd h mtime inputs t =
     fold (\<lambda>s. s) (map (insert_input (o_output cmd)) inputs)
       (replace_output \<lparr>w_path = o_output cmd, w_action = action_text (o_action cmd), w_command = o_text cmd,
          w_hash = h, w_mtime = mtime\<rparr> (delete_inputs (o_output cmd) t))"

lemma stored_tables_outputs:
  "d_outputs (stored_tables cmd h mtime inputs t) = filter (\<lambda>v. w_path v \<noteq> o_output cmd) (d_outputs t) @
     [\<lparr>w_path = o_output cmd, w_action = action_text (o_action cmd), w_command = o_text cmd, w_hash = h, w_mtime = mtime\<rparr>]"
  by (simp add: stored_tables_def insert_inputs_outputs replace_output_def delete_inputs_def)

lemma stored_tables_ok:
  assumes "tables_ok t"
  shows "tables_ok (stored_tables cmd h mtime inputs t)"
  unfolding stored_tables_def
  by (intro tables_ok_inserts tables_ok_replace tables_ok_delete(1) assms)
    (simp_all add: action_round_trip replace_output_def)

text \<open>What a store does: the tables change all at once or not at all, and the content is there.\<close>

lemma store_cases:
  assumes ok: "cache_ok xxh c" and s: "store xxh fl cmd bytes mtime inputs c = (c', r)"
  shows "cache_ok xxh c' \<and>
    (case r of
       Inl e \<Rightarrow> c_tables c' \<in> {c_tables c, stored_tables cmd (hash_of xxh bytes) mtime inputs (c_tables c)}
     | Inr h \<Rightarrow> h = hash_of xxh bytes \<and> c_tables c' = stored_tables cmd h mtime inputs (c_tables c) \<and>
         (\<exists>b. c_objects c' h = Some b \<and> hash_of xxh b = h))"
proof -
  let ?h = "hash_of xxh bytes" and ?out = "o_output cmd"
  let ?row = "\<lparr>w_path = ?out, w_action = action_text (o_action cmd), w_command = o_text cmd, w_hash = ?h, w_mtime = mtime\<rparr>"
  let ?ss = "[id, delete_inputs ?out, replace_output ?row] @ map (insert_input ?out) inputs"
  have tok: "tables_ok (c_tables c)" and cok: "content_ok xxh c" using ok by (simp_all add: cache_ok_def)
  obtain c1 r1 where w: "write_object fl ?h bytes c = (c1, r1)" by (cases "write_object fl ?h bytes c")
  note W = write_object_ok [OF cok w]
  show ?thesis
  proof (cases r1)
    case (Inl e)
    with s w have "c' = c1" "r = Inl e" by (auto simp: store_def Let_def)
    with W tok show ?thesis by (simp add: cache_ok_def)
  next
    case (Inr u)
    obtain c2 r2 where t: "transaction fl ?ss c1 = (c2, r2)" by (cases "transaction fl ?ss c1")
    note T = transaction_result [OF t]
    have fold: "fold (\<lambda>s. s) ?ss (c_tables c1) = stored_tables cmd ?h mtime inputs (c_tables c)"
      by (simp add: stored_tables_def W(2))
    show ?thesis
    proof (cases r2)
      case (Inl e)
      have "content_ok xxh c2" using W(1) T Inl by (simp add: content_ok_def)
      note D = content_ok_drop [OF this, of fl ?h]
      from s w Inr t Inl have "c' = fst (drop_if_unreferenced fl ?h c2)" "r = Inl e"
        by (auto simp: store_def Let_def)
      with D T Inl W tok show ?thesis by (simp add: cache_ok_def)
    next
      case Inr2: (Inr u2)
      have tab: "c_tables c2 = stored_tables cmd ?h mtime inputs (c_tables c)" using T Inr2 fold by simp
      have obj: "c_objects c2 ?h = Some bytes" using T W(3) Inr by simp
      have c2: "content_ok xxh c2"
        using W(1,2) obj T(1) is_hash_hash_of unfolding content_ok_def tab stored_tables_outputs by auto
      have tok2: "tables_ok (c_tables c2)" unfolding tab by (rule stored_tables_ok [OF tok])
      show ?thesis
      proof (cases "find_hash (c_tables c1) ?out")
        case None
        with s w Inr t Inr2 have "c' = c2" "r = Inr ?h" by (auto simp: store_def Let_def)
        with c2 tok2 tab obj show ?thesis by (simp add: cache_ok_def)
      next
        case (Some p)
        show ?thesis
        proof (cases "p = ?h")
          case True
          with s w Inr t Inr2 Some have "c' = c2" "r = Inr ?h" by (auto simp: store_def Let_def)
          with c2 tok2 tab obj show ?thesis by (simp add: cache_ok_def)
        next
          case False
          obtain c3 r3 where d: "drop_if_unreferenced fl p c2 = (c3, r3)" by (cases "drop_if_unreferenced fl p c2")
          with content_ok_drop [OF c2, of fl p] have D: "content_ok xxh c3" "c_tables c3 = c_tables c2" by simp_all
          have r: "c' = c3" "r = (case r3 of Inl e \<Rightarrow> Inl e | Inr _ \<Rightarrow> Inr ?h)"
            using s w Inr t Inr2 Some False d by (auto simp: store_def Let_def split: sum.splits)
          have "\<exists>b. c_objects c3 ?h = Some b \<and> hash_of xxh b = ?h"
            using D(1) unfolding content_ok_def D(2) tab stored_tables_outputs by auto
          with D tok2 tab r show ?thesis by (auto simp: cache_ok_def split: sum.splits)
        qed
      qed
    qed
  qed
qed

lemma forget_ok:
  assumes ok: "cache_ok xxh c"
  shows "cache_ok xxh (fst (forget_outputs fl outs c))"
proof (cases "outs = []")
  case False
  let ?ss = "forget_statements (c_tables c) outs"
  have tok: "tables_ok (c_tables c)" and cok: "content_ok xxh c" using ok by (simp_all add: cache_ok_def)
  obtain c1 r where t: "transaction fl ?ss c = (c1, r)" by (cases "transaction fl ?ss c")
  note T = transaction_result [OF t]
  show ?thesis
  proof (cases r)
    case (Inl e)
    with T have "cache_ok xxh c1" using ok by (simp add: cache_ok_def content_ok_def)
    with False t Inl show ?thesis by (simp add: forget_outputs_def)
  next
    case (Inr u)
    have "tables_ok (c_tables c1)" using T Inr tables_ok_forget [OF tok] by simp
    moreover have "content_ok xxh c1"
      using T Inr cok forget_outputs_subset [of "c_tables c" outs] by (auto simp: content_ok_def)
    ultimately show ?thesis
      using content_ok_drop_all [of xxh c1 fl "remdups (forget_hashes (c_tables c) outs)"] False t Inr
      by (simp add: forget_outputs_def cache_ok_def)
  qed
qed (use ok in \<open>simp add: forget_outputs_def\<close>)

lemma collect_ok:
  assumes ok: "cache_ok xxh c"
  shows "cache_ok xxh (fst (collect_garbage fl seen c))"
proof -
  let ?c = "c\<lparr>c_tick := Suc (c_tick c)\<rparr>"
  let ?ns = "filter (\<lambda>n. n \<notin> set (map w_hash (d_outputs (c_tables c)))) seen"
  have c: "content_ok xxh ?c" "tables_ok (c_tables ?c)" using ok by (simp_all add: cache_ok_def content_ok_def)
  have "\<forall>n \<in> set ?ns. \<forall>w \<in> set (d_outputs (c_tables ?c)). w_hash w \<noteq> n" by auto
  from content_ok_collect [OF c(1) this, of fl] c show ?thesis
    by (auto simp: collect_garbage_def tried_def cache_ok_def Let_def split: option.splits prod.splits)
qed

section \<open>Records\<close>

definition with_inputs :: "(string \<times> cache_input) list \<Rightarrow> cache_record \<Rightarrow> cache_record" where
  "with_inputs is r = r\<lparr>e_inputs := e_inputs r @ map snd (filter (\<lambda>(p, i). p = o_output (e_command r)) is)\<rparr>"

lemma find_index_eq:
  assumes "distinct (map f xs)" and "k < length xs" and "f (xs ! k) = y"
  shows "List.find (\<lambda>k. f (xs ! k) = y) [0..<length xs] = Some k"
proof -
  have "\<not> (\<exists>j < k. f (xs ! j) = y)" using assms by (auto simp: distinct_conv_nth)
  with assms(2,3) show ?thesis by (auto simp: find_Some_iff)
qed

lemma add_input_map:
  assumes "distinct (map (\<lambda>r. o_output (e_command r)) rs)"
  shows "add_input pi rs = map (with_inputs [pi]) rs"
proof (cases "\<exists>k < length rs. o_output (e_command (rs ! k)) = fst pi")
  case True
  then obtain k where k: "k < length rs" "o_output (e_command (rs ! k)) = fst pi" by blast
  have e: "add_input pi rs = rs[k := (rs ! k)\<lparr>e_inputs := e_inputs (rs ! k) @ [snd pi]\<rparr>]"
    unfolding add_input_def find_index_eq [OF assms k] by simp
  show ?thesis
  proof (rule nth_equalityI)
    fix j assume j: "j < length (add_input pi rs)"
    then have jl: "j < length rs" by (simp add: e)
    have "j = k" if "o_output (e_command (rs ! j)) = fst pi"
      using assms jl k that unfolding distinct_conv_nth by (metis length_map nth_map)
    then show "add_input pi rs ! j = map (with_inputs [pi]) rs ! j"
      using jl k by (cases "j = k") (auto simp: e with_inputs_def case_prod_unfold)
  qed (simp add: e)
next
  case False
  then have "List.find (\<lambda>k. o_output (e_command (rs ! k)) = fst pi) [0..<length rs] = None" by (auto simp: find_None_iff)
  then have "add_input pi rs = rs" by (simp add: add_input_def)
  also have "rs = map (with_inputs [pi]) rs"
    using False by (intro nth_equalityI) (auto simp: with_inputs_def case_prod_unfold)
  finally show ?thesis .
qed

lemma fold_add_input:
  "distinct (map (\<lambda>r. o_output (e_command r)) rs) \<Longrightarrow> fold add_input is rs = map (with_inputs is) rs"
proof (induction "is" arbitrary: rs)
  case Nil
  have "with_inputs [] = id" by (rule ext) (simp add: with_inputs_def)
  then show ?case by simp
next
  case (Cons i "is")
  have o: "map (\<lambda>r. o_output (e_command r)) (map (with_inputs [i]) rs) = map (\<lambda>r. o_output (e_command r)) rs"
    by (simp add: with_inputs_def comp_def)
  have "with_inputs is (with_inputs [i] r) = with_inputs (i # is) r" for r
    by (simp add: with_inputs_def case_prod_unfold)
  then show ?case
    using Cons.IH [of "map (with_inputs [i]) rs"] Cons.prems by (simp add: add_input_map o comp_def del: map_map) (simp add: comp_def)
qed

text \<open>The records of well-formed tables: one for each output, with its inputs in order.\<close>

definition row_record :: "tables \<Rightarrow> output_row \<Rightarrow> cache_record" where
  "row_record t w = \<lparr>e_command = \<lparr>o_output = w_path w, o_action = the (action_from_text (w_action w)), o_text = w_command w\<rparr>,
     e_hash = w_hash w, e_mtime = w_mtime w, e_inputs = map snd (filter (\<lambda>(p, i). p = w_path w) (d_inputs t))\<rparr>"

lemma records_eq:
  assumes "tables_ok t"
  shows "records t = map (row_record t) (d_outputs t)"
proof -
  let ?r = "\<lambda>w. record_of w (the (action_from_text (w_action w)))"
  have "\<forall>w \<in> set (d_outputs t). action_from_text (w_action w) \<noteq> None" using assms by (simp add: tables_ok_def)
  then have out: "output_records t = map ?r (d_outputs t)"
    unfolding output_records_def by (induction "d_outputs t" arbitrary: t) (auto simp: List.map_filter_def)
  have "distinct (map (\<lambda>r. o_output (e_command r)) (map ?r (d_outputs t)))"
    using assms by (simp add: tables_ok_def record_of_def comp_def)
  from fold_add_input [OF this] show ?thesis
    by (simp add: records_def out row_record_def with_inputs_def record_of_def)
qed

lemma insert_inputs_rows:
  assumes "distinct (map i_path is)" and "\<forall>(p, i) \<in> set (d_inputs t). p \<noteq> out"
  shows "d_inputs (fold (\<lambda>s. s) (map (insert_input out) is) t) = d_inputs t @ map (Pair out) is"
proof -
  have "distinct (map i_path is) \<Longrightarrow> \<forall>(p, j) \<in> set (d_inputs t). p = out \<longrightarrow> i_path j \<notin> i_path ` set is \<Longrightarrow>
      d_inputs (fold (\<lambda>s. s) (map (insert_input out) is) t) = d_inputs t @ map (Pair out) is" for t
  proof (induction "is" arbitrary: t)
    case (Cons i "is")
    have new: "insert_input out i t = t\<lparr>d_inputs := d_inputs t @ [(out, i)]\<rparr>"
      using Cons.prems(2) by (fastforce simp: insert_input_def)
    have "\<forall>(p, j) \<in> set (d_inputs (insert_input out i t)). p = out \<longrightarrow> i_path j \<notin> i_path ` set is"
      using Cons.prems by (auto simp: new)
    with Cons.IH [of "insert_input out i t"] Cons.prems(1) show ?case by (simp add: new)
  qed simp
  with assms show ?thesis by fastforce
qed

lemma stored_tables_inputs:
  assumes "distinct (map i_path inputs)"
  shows "d_inputs (stored_tables cmd h mtime inputs t) =
    filter (\<lambda>(p, i). p \<noteq> o_output cmd) (d_inputs t) @ map (Pair (o_output cmd)) inputs"
  unfolding stored_tables_def
  by (subst insert_inputs_rows [OF assms]) (auto simp: replace_output_def delete_inputs_def)

section \<open>Properties\<close>

text \<open>
  C39: whatever fails on the way, no operation leaves a record without its content: every record
  names a hash under which a content file is found that has this hash, there is one record for an
  output, and no input belongs to an output without a record.
\<close>

theorem cache_keeps_content:
  assumes "cache_ok xxh c"
  shows "cache_ok xxh (cache_step xxh fl m c)"
proof (cases m)
  case (Store cmd bytes mtime inputs)
  obtain c' r where "store xxh fl cmd bytes mtime inputs c = (c', r)" by (cases "store xxh fl cmd bytes mtime inputs c")
  with store_cases [OF assms] Store show ?thesis by (simp add: cache_step_def)
qed (simp_all add: cache_step_def forget_ok [OF assms] collect_ok [OF assms])

definition new_cache :: cache where
  "new_cache = \<lparr>c_tables = \<lparr>d_outputs = [], d_inputs = []\<rparr>, c_objects = (\<lambda>_. None), c_next_scratch = 0, c_tick = 0\<rparr>"

lemma new_cache_ok: "cache_ok xxh new_cache"
  by (simp add: cache_ok_def tables_ok_def content_ok_def new_cache_def)

definition example_command :: command where
  "example_command = \<lparr>o_output = ''a.o'', o_action = Run, o_text = ''cc''\<rparr>"

text \<open>A stand-in for the hash, and a schedule in which the rename fails.\<close>

definition length_hash :: "string \<Rightarrow> 64 word \<times> 64 word" where
  "length_hash s = (0, of_nat (length s))"

definition second_fails :: faults where
  "second_fails n = (if n = 1 then Some (Permission_denied, 0) else None)"

theorem cache_keeps_content_witness:
  "cache_ok length_hash (cache_step length_hash second_fails (Store example_command ''bytes'' 7 []) new_cache)"
  by (rule cache_keeps_content) (rule new_cache_ok)

text \<open>
  C40: what is stored is read back: after a store that succeeds the records are those of before,
  but for the output's own, which is the command, hash, time and inputs given; and reading the hash
  gives content of that hash, the bytes stored unless another content has the same hash.
\<close>

theorem store_round_trip:
  assumes ok: "cache_ok xxh c" and d: "distinct (map i_path inputs)"
    and s: "store xxh fl cmd bytes mtime inputs c = (c', Inr h)"
  shows "h = hash_of xxh bytes \<and>
    set (records (c_tables c')) = {r \<in> set (records (c_tables c)). o_output (e_command r) \<noteq> o_output cmd} \<union>
      {\<lparr>e_command = cmd, e_hash = h, e_mtime = mtime, e_inputs = inputs\<rparr>} \<and>
    (\<exists>b. snd (read_object xxh (\<lambda>_. None) h c') = Inr b \<and> hash_of xxh b = h)"
proof -
  from store_cases [OF ok s] have c': "cache_ok xxh c'" and h: "h = hash_of xxh bytes"
    and t: "c_tables c' = stored_tables cmd h mtime inputs (c_tables c)"
    and b: "\<exists>b. c_objects c' h = Some b \<and> hash_of xxh b = h" by auto
  have tok: "tables_ok (c_tables c)" "tables_ok (c_tables c')" using ok c' by (simp_all add: cache_ok_def)
  let ?out = "o_output cmd" and ?t = "c_tables c" and ?t' = "c_tables c'"
  have ins: "d_inputs ?t' = filter (\<lambda>(p, i). p \<noteq> ?out) (d_inputs ?t) @ map (Pair ?out) inputs"
    unfolding t by (rule stored_tables_inputs [OF d])
  have other: "row_record ?t' w = row_record ?t w" if "w_path w \<noteq> ?out" for w
    using that by (auto simp: row_record_def ins filter_map comp_def case_prod_unfold filter_filter
        intro!: arg_cong [where f = "map snd"] filter_cong)
  have own: "row_record ?t' \<lparr>w_path = ?out, w_action = action_text (o_action cmd), w_command = o_text cmd, w_hash = h, w_mtime = mtime\<rparr> =
      \<lparr>e_command = cmd, e_hash = h, e_mtime = mtime, e_inputs = inputs\<rparr>"
    by (simp add: row_record_def ins action_round_trip filter_map comp_def case_prod_unfold filter_filter)
  have "set (records ?t') = {r \<in> set (records ?t). o_output (e_command r) \<noteq> ?out} \<union>
      {\<lparr>e_command = cmd, e_hash = h, e_mtime = mtime, e_inputs = inputs\<rparr>}"
  proof -
    have "set (records ?t') = row_record ?t' ` {w \<in> set (d_outputs ?t). w_path w \<noteq> ?out} \<union>
        {\<lparr>e_command = cmd, e_hash = h, e_mtime = mtime, e_inputs = inputs\<rparr>}"
      unfolding records_eq [OF tok(2)] by (subst t) (simp add: stored_tables_outputs own)
    also have "row_record ?t' ` {w \<in> set (d_outputs ?t). w_path w \<noteq> ?out} =
        row_record ?t ` {w \<in> set (d_outputs ?t). w_path w \<noteq> ?out}"
      using other by (intro image_cong) auto
    also have "\<dots> = {r \<in> set (records ?t). o_output (e_command r) \<noteq> ?out}"
      unfolding records_eq [OF tok(1)] by (auto simp: row_record_def)
    finally show ?thesis .
  qed
  moreover have "\<exists>b. snd (read_object xxh (\<lambda>_. None) h c') = Inr b \<and> hash_of xxh b = h"
    using b is_hash_hash_of [of xxh bytes] by (auto simp: read_object_def tried_def h)
  ultimately show ?thesis using h by blast
qed

theorem store_round_trip_witness:
  "let c' = fst (store length_hash (\<lambda>_. None) example_command ''bytes'' 7 [] new_cache) in
    set (records (c_tables c')) = {\<lparr>e_command = example_command, e_hash = hash_of length_hash ''bytes'', e_mtime = 7, e_inputs = []\<rparr>} \<and>
    (\<exists>b. snd (read_object length_hash (\<lambda>_. None) (hash_of length_hash ''bytes'') c') = Inr b)"
proof -
  let ?c = "fst (store length_hash (\<lambda>_. None) example_command ''bytes'' 7 [] new_cache)"
  have "snd (store length_hash (\<lambda>_. None) example_command ''bytes'' 7 [] new_cache) = Inr (hash_of length_hash ''bytes'')"
    by code_simp
  then have "store length_hash (\<lambda>_. None) example_command ''bytes'' 7 [] new_cache = (?c, Inr (hash_of length_hash ''bytes''))"
    by (metis prod.collapse)
  from store_round_trip [OF new_cache_ok _ this] show ?thesis
    by (auto simp: Let_def records_def output_records_def new_cache_def List.map_filter_def)
qed

section \<open>Where the cache and its promises part\<close>

text \<open>
  A store whose rename fails throws the error of the removal of the scratch file after it: when
  that succeeds, the exception says that there was no error.
\<close>

lemma store_throws_no_error:
  "snd (store length_hash second_fails example_command ''bytes'' 7 [] new_cache) = Inl No_error"
  by code_simp

text \<open>
  A store may throw though the output is recorded: the new record is committed before the content
  that only the old one named is dropped, and looking for other uses of that may fail.
\<close>

definition late_fault :: faults where
  "late_fault n = (if n = 14 then Some (Io_error, 0) else None)"

definition stored_once :: cache where
  "stored_once = fst (store length_hash late_fault example_command ''old'' 1 [] new_cache)"

lemma store_throws_after_commit:
  "snd (store length_hash late_fault example_command ''bytes'' 7 [] stored_once) = Inl Io_error \<and>
   map e_mtime (records (c_tables (fst (store length_hash late_fault example_command ''bytes'' 7 [] stored_once)))) = [7]"
  by code_simp

end
