(* ===== verification/Build_Rules.thy ===== *)
theory Build_Rules
  imports Manifest_Properties In_Memory_Tree Build_Cache
begin

text \<open>
  How the build directory reads its manifest (\<^verbatim>\<open>src/builddirectorytree.cpp\<close>, the functions
  before the class): the whole of a file, the rules of the manifest, and the outputs that rules
  and the files of the source declare.  The map of commands is an association list sorted by
  output; the loop over wildcards over outputs has fuel, one unit for each time round.
\<close>

section \<open>Reading\<close>

definition manifest_name :: string where
  "manifest_name = ''build.makebelieve''"

definition placeholder_content :: string where
  "placeholder_content = [CHR 0x00]"

definition chunk_size :: nat where
  "chunk_size = 64 * 1024"

fun read_chunks :: "nat \<Rightarrow> nat \<Rightarrow> directory_tree \<Rightarrow> string list \<Rightarrow> string \<Rightarrow> string expected option" where
  "read_chunks 0 chunk t path content = None"
| "read_chunks (Suc fuel) chunk t path content =
     (case util_read t path (int (length content)) chunk of
        None \<Rightarrow> None
      | Some (Inl e) \<Rightarrow> Some (Inl e)
      | Some (Inr c) \<Rightarrow>
          (if length c < chunk then Some (Inr (content @ c)) else read_chunks fuel chunk t path (content @ c)))"

definition read_all :: "nat \<Rightarrow> directory_tree \<Rightarrow> string list \<Rightarrow> string expected option" where
  "read_all fuel t path =
     (case dt_status t path of
        Inl e \<Rightarrow> Some (Inl e)
      | Inr info \<Rightarrow> if \<not> is_file info then Some (Inl Is_a_directory) else read_chunks fuel chunk_size t path [])"

definition as_input :: "string list \<Rightarrow> string list" where
  "as_input out = ''@'' # out"

definition output_named_by :: "string list \<Rightarrow> string list option" where
  "output_named_by input = (if starts_with (generic_string input) ''@/'' then Some (tl input) else None)"

text \<open>The message of an error code is the library's: a parameter.\<close>

fun problems :: "line_error list \<Rightarrow> string" where
  "problems [] = []"
| "problems [e] = manifest_name @ '':'' @ decimal (l_line e) @ '': '' @ l_message e"
| "problems (e # es) = manifest_name @ '':'' @ decimal (l_line e) @ '': '' @ l_message e @ CHR 0x0A # problems es"

definition read_rules :: "(error_code \<Rightarrow> string) \<Rightarrow> nat \<Rightarrow> directory_tree \<Rightarrow> (string + rule list) option" where
  "read_rules message fuel source =
     (case read_all fuel source [manifest_name] of
        None \<Rightarrow> None
      | Some (Inl e) \<Rightarrow> Some (if e = No_such_file_or_directory then Inr [] else Inl (manifest_name @ '': '' @ message e))
      | Some (Inr content) \<Rightarrow>
          (let parsed = parse content in
           Some (if m_errors parsed \<noteq> [] then Inl (problems (m_errors parsed)) else Inr (m_rules parsed))))"

section \<open>The outputs declared\<close>

type_synonym commands = "(string list \<times> command) list"

definition command_for :: "rule \<Rightarrow> command" where
  "command_for r = \<lparr>o_output = generic_string (r_output r), o_action = r_action r, o_text = r_command r\<rparr>"

definition declare_rule :: "rule \<Rightarrow> commands \<Rightarrow> commands" where
  "declare_rule r commands = emplace (r_output r) (command_for r) commands"

definition source_matches :: "directory_tree \<Rightarrow> rule \<Rightarrow> rule list" where
  "source_matches source r =
     (case dt_ls source (butlast (r_wildcard_source r)) of
        Inl e \<Rightarrow> []
      | Inr entries \<Rightarrow> List.map_filter (\<lambda>e. if is_file (t_info e) then instantiate r (t_name e) else None) entries)"

definition declare_source :: "directory_tree \<Rightarrow> rule \<Rightarrow> commands \<Rightarrow> commands" where
  "declare_source source r commands =
     (if \<not> is_wildcard r then declare_rule r commands
      else if r_over_outputs r then commands
      else fold declare_rule (source_matches source r) commands)"

text \<open>One rule of a round: what it matches among the outputs declared so far and is not declared.\<close>

definition output_matches :: "rule \<Rightarrow> commands \<Rightarrow> rule list" where
  "output_matches r commands = List.map_filter (\<lambda>(out, c).
     if butlast out \<noteq> butlast (r_wildcard_source r) then None
     else (case instantiate r (last out) of
             None \<Rightarrow> None
           | Some m \<Rightarrow> if map_of commands (r_output m) = None then Some m else None)) commands"

definition expand_rule :: "rule \<Rightarrow> commands \<times> bool \<Rightarrow> commands \<times> bool" where
  "expand_rule r state =
     (case state of (commands, added) \<Rightarrow>
        if \<not> r_over_outputs r then (commands, added)
        else (let ms = output_matches r commands in (fold declare_rule ms commands, added \<or> ms \<noteq> [])))"

definition expand_round :: "rule list \<Rightarrow> commands \<Rightarrow> commands \<times> bool" where
  "expand_round rules commands = fold expand_rule rules (commands, False)"

fun expand_loop :: "nat \<Rightarrow> rule list \<Rightarrow> commands \<Rightarrow> commands option" where
  "expand_loop 0 rules commands = None"
| "expand_loop (Suc fuel) rules commands =
     (case expand_round rules commands of
        (commands', added) \<Rightarrow> if added then expand_loop fuel rules commands' else Some commands')"

definition expand_rules :: "nat \<Rightarrow> directory_tree \<Rightarrow> rule list \<Rightarrow> commands option" where
  "expand_rules fuel source rules = expand_loop fuel rules (fold (declare_source source) rules [])"

section \<open>What is declared\<close>

text \<open>The outputs that rules stand for, given the files of the source.\<close>

inductive declares :: "directory_tree \<Rightarrow> rule list \<Rightarrow> rule \<Rightarrow> bool" for source rules where
  simple: "r \<in> set rules \<Longrightarrow> \<not> is_wildcard r \<Longrightarrow> declares source rules r"
| source: "r \<in> set rules \<Longrightarrow> is_wildcard r \<Longrightarrow> \<not> r_over_outputs r \<Longrightarrow> m \<in> set (source_matches source r) \<Longrightarrow>
    declares source rules m"
| over: "r \<in> set rules \<Longrightarrow> is_wildcard r \<Longrightarrow> r_over_outputs r \<Longrightarrow> declares source rules q \<Longrightarrow>
    butlast (r_output q) = butlast (r_wildcard_source r) \<Longrightarrow> instantiate r (last (r_output q)) = Some m \<Longrightarrow>
    declares source rules m"

text \<open>What a rule of the manifest makes; each declared output is made by one of them.\<close>

lemma source_matches_makes:
  assumes "is_wildcard r" and "m \<in> set (source_matches source r)"
  shows "makes r (r_output m)"
proof -
  obtain name where "instantiate r name = Some m"
    using assms(2) by (auto simp: source_matches_def List.map_filter_def split: sum.splits if_splits)
  with assms(1) show ?thesis by (auto simp: makes_def)
qed

lemma declares_makes: "declares source rules m \<Longrightarrow> \<exists>r \<in> set rules. makes r (r_output m)"
proof (induction rule: declares.induct)
  case (simple r)
  then show ?case by (auto simp: makes_def)
next
  case (source r m)
  then show ?case using source_matches_makes by blast
next
  case (over r q m)
  then show ?case by (auto simp: makes_def)
qed

text \<open>An output is declared by one rule only, so it has one command.\<close>

lemma makes_unique:
  assumes "sorted_wrt apart rules" and "i < length rules" and "j < length rules"
    and "makes (rules ! i) p" and "makes (rules ! j) p"
  shows "i = j"
proof (rule ccontr)
  assume "i \<noteq> j"
  then have "apart (rules ! i) (rules ! j)"
    using assms(1-3) apart_sym by (metis nat_neq_iff sorted_wrt_nth_less)
  with makes_produced [OF assms(4)] makes_produced [OF assms(5)] show False
    unfolding apart_def by blast
qed

lemma makes_unique_rule:
  assumes "sorted_wrt apart rules" and "r \<in> set rules" and "r' \<in> set rules" and "makes r p" and "makes r' p"
  shows "r = r'"
  using assms makes_unique by (metis in_set_conv_nth)

lemma instance_by_output:
  assumes "instantiate r n = Some m" and "instantiate r n' = Some m'" and "r_output m = r_output m'"
  shows "m = m'"
  using assms unfolding instantiate_iff by auto

lemma declares_unique:
  assumes rules: "sorted_wrt apart rules" and m: "declares source rules m" and m': "declares source rules m'"
    and eq: "r_output m = r_output m'"
  shows "command_for m = command_for m'"
proof -
  have origin: "\<exists>r \<in> set rules. makes r (r_output m) \<and> (if is_wildcard r then \<exists>n. instantiate r n = Some m else m = r)"
    if "declares source rules m" for m
    using that
  proof cases
    case simple
    then show ?thesis by (auto simp: makes_def)
  next
    case (source r)
    then have "\<exists>n. instantiate r n = Some m" by (auto simp: source_matches_def List.map_filter_def split: sum.splits if_splits)
    with source source_matches_makes show ?thesis by (metis (no_types, lifting))
  next
    case (over r q)
    then show ?thesis by (auto simp: makes_def intro!: bexI [of _ r])
  qed
  obtain r r' where r: "r \<in> set rules" "makes r (r_output m)" "if is_wildcard r then \<exists>n. instantiate r n = Some m else m = r"
    and r': "r' \<in> set rules" "makes r' (r_output m')" "if is_wildcard r' then \<exists>n. instantiate r' n = Some m' else m' = r'"
    using origin [OF m] origin [OF m'] by blast
  have "r = r'" by (rule makes_unique_rule [OF rules r(1) r'(1) r(2)]) (simp add: eq r'(2))
  with r(3) r'(3) eq have "m = m'" by (auto split: if_splits intro: instance_by_output)
  then show ?thesis by simp
qed

section \<open>The loop\<close>

definition outs :: "commands \<Rightarrow> string list set" where
  "outs commands = {p. map_of commands p \<noteq> None}"

lemma set_emplace: "set (emplace k v m) \<subseteq> insert (k, v) (set m)"
  by (induction k v m rule: emplace.induct) auto

lemma sorted_emplace: "sorted_wrt (<) (map fst m) \<Longrightarrow> sorted_wrt (<) (map fst (emplace k v m))"
proof (induction k v m rule: emplace.induct)
  case (2 k v k' v' m)
  have "x \<in> set (emplace k v m) \<Longrightarrow> fst x = k \<or> x \<in> set m" for x
    using set_emplace [of k v m] by auto
  with 2 show ?case by (cases k k' rule: linorder_cases) fastforce+
qed simp

lemma map_of_emplace_eq:
  assumes "sorted_wrt (<) (map fst m)"
  shows "map_of (emplace k v m) q = (if map_of m q \<noteq> None then map_of m q else if q = k then Some v else None)"
  using assms
proof (induction k v m rule: emplace.induct)
  case (2 k v k' v' m)
  have low: "\<And>x. x \<in> fst ` set m \<Longrightarrow> k' < x" using 2(2) by auto
  then have "map_of m k' = None" by (force simp: map_of_eq_None_iff)
  moreover have "k < k' \<Longrightarrow> map_of m k = None" using low by (force simp: map_of_eq_None_iff)
  ultimately show ?case using 2 by (cases k k' rule: linorder_cases) auto
qed simp

lemma set_map_filter: "x \<in> set (List.map_filter f xs) \<longleftrightarrow> (\<exists>y \<in> set xs. f y = Some x)"
  by (induction xs) (auto simp: List.map_filter_def split: option.splits)

lemma outs_declare: "outs (declare_rule m commands) = insert (r_output m) (outs commands)"
  by (auto simp: outs_def declare_rule_def map_of_emplace simp del: not_None_eq)

lemma outs_fold_declare: "outs (fold declare_rule ms commands) = r_output ` set ms \<union> outs commands"
  by (induction ms arbitrary: commands) (auto simp: outs_declare)

lemma in_outs: "p \<in> outs commands \<longleftrightarrow> (\<exists>c. (p, c) \<in> set commands)"
  by (auto simp: outs_def dest: map_of_SomeD) (metis weak_map_of_SomeI)

text \<open>The outputs a rule over outputs can add to some that are declared.\<close>

definition derived :: "rule \<Rightarrow> string list set \<Rightarrow> string list set" where
  "derived r P = {r_output m |m p. p \<in> P \<and> butlast p = butlast (r_wildcard_source r) \<and> instantiate r (last p) = Some m}"

lemma output_matches_derived:
  "r_output ` set (output_matches r commands) = derived r (outs commands) - outs commands"
proof -
  have "m \<in> set (output_matches r commands) \<longleftrightarrow>
      (\<exists>p \<in> outs commands. butlast p = butlast (r_wildcard_source r) \<and> instantiate r (last p) = Some m \<and> r_output m \<notin> outs commands)" for m
  proof -
    have "(case e of (out, c) \<Rightarrow> if butlast out \<noteq> butlast (r_wildcard_source r) then None
        else (case instantiate r (last out) of None \<Rightarrow> None
          | Some m \<Rightarrow> if map_of commands (r_output m) = None then Some m else None)) = Some m \<longleftrightarrow>
        butlast (fst e) = butlast (r_wildcard_source r) \<and> instantiate r (last (fst e)) = Some m \<and> r_output m \<notin> outs commands" for e
      by (auto simp: outs_def split: prod.splits option.splits if_splits)
    then have "m \<in> set (output_matches r commands) \<longleftrightarrow> (\<exists>e \<in> set commands.
        butlast (fst e) = butlast (r_wildcard_source r) \<and> instantiate r (last (fst e)) = Some m \<and> r_output m \<notin> outs commands)"
      unfolding output_matches_def set_map_filter by (intro bex_cong refl)
    also have "\<dots> \<longleftrightarrow> (\<exists>p \<in> outs commands. butlast p = butlast (r_wildcard_source r) \<and> instantiate r (last p) = Some m \<and> r_output m \<notin> outs commands)"
      by (auto simp: in_outs Bex_def)
    finally show ?thesis .
  qed
  then show ?thesis unfolding derived_def by (auto simp: image_iff) blast+
qed

lemma expand_rule_outs:
  "outs (fst (expand_rule r (commands, added))) =
     outs commands \<union> (if r_over_outputs r then derived r (outs commands) else {})"
  "snd (expand_rule r (commands, added)) \<longleftrightarrow> added \<or> outs (fst (expand_rule r (commands, added))) \<noteq> outs commands"
proof -
  have "output_matches r commands = [] \<longleftrightarrow> derived r (outs commands) - outs commands = {}"
    using output_matches_derived [of r commands] by (metis image_is_empty set_empty)
  then show "outs (fst (expand_rule r (commands, added))) =
     outs commands \<union> (if r_over_outputs r then derived r (outs commands) else {})"
    "snd (expand_rule r (commands, added)) \<longleftrightarrow> added \<or> outs (fst (expand_rule r (commands, added))) \<noteq> outs commands"
    by (auto simp: expand_rule_def Let_def outs_fold_declare output_matches_derived)
qed

lemma expand_rule_state: "expand_rule r state = (fst (expand_rule r state), snd (expand_rule r state))"
  by simp

lemma fold_expand_rule:
  "outs (fst (fold expand_rule rs state)) \<supseteq> outs (fst state) \<and>
   (\<forall>r \<in> set rs. r_over_outputs r \<longrightarrow> derived r (outs (fst state)) \<subseteq> outs (fst (fold expand_rule rs state))) \<and>
   (snd (fold expand_rule rs state) \<longleftrightarrow> snd state \<or> outs (fst (fold expand_rule rs state)) \<noteq> outs (fst state))"
proof (induction rs arbitrary: state)
  case (Cons r rs)
  let ?s = "expand_rule r state"
  have s: "outs (fst ?s) = outs (fst state) \<union> (if r_over_outputs r then derived r (outs (fst state)) else {})"
    "snd ?s \<longleftrightarrow> snd state \<or> outs (fst ?s) \<noteq> outs (fst state)"
    using expand_rule_outs [of r "fst state" "snd state"] by simp_all
  have mono: "derived q (outs (fst state)) \<subseteq> derived q (outs (fst ?s))" for q
    using s(1) by (auto simp: derived_def)
  from Cons [of ?s] have IH: "outs (fst (fold expand_rule rs ?s)) \<supseteq> outs (fst ?s)"
    "\<forall>r \<in> set rs. r_over_outputs r \<longrightarrow> derived r (outs (fst ?s)) \<subseteq> outs (fst (fold expand_rule rs ?s))"
    "snd (fold expand_rule rs ?s) \<longleftrightarrow> snd ?s \<or> outs (fst (fold expand_rule rs ?s)) \<noteq> outs (fst ?s)" by blast+
  have sub: "outs (fst state) \<subseteq> outs (fst ?s)" using s(1) by auto
  have "outs (fst (fold expand_rule rs ?s)) = outs (fst state) \<Longrightarrow> outs (fst ?s) = outs (fst state)" using sub IH(1) by blast
  then have "snd (fold expand_rule rs ?s) \<longleftrightarrow> snd state \<or> outs (fst (fold expand_rule rs ?s)) \<noteq> outs (fst state)"
    using IH(3) s(2) sub IH(1) by auto
  moreover have "r_over_outputs r \<longrightarrow> derived r (outs (fst state)) \<subseteq> outs (fst (fold expand_rule rs ?s))"
    using s(1) IH(1) by auto
  moreover have "\<forall>q \<in> set rs. r_over_outputs q \<longrightarrow> derived q (outs (fst state)) \<subseteq> outs (fst (fold expand_rule rs ?s))"
    using IH(2) mono by blast
  moreover have "outs (fst state) \<subseteq> outs (fst (fold expand_rule rs ?s))" using IH(1) sub by blast
  ultimately show ?case by simp
qed simp

lemma expand_round_outs:
  "outs commands \<subseteq> outs (fst (expand_round rules commands))"
  "r \<in> set rules \<Longrightarrow> r_over_outputs r \<Longrightarrow> derived r (outs commands) \<subseteq> outs (fst (expand_round rules commands))"
  "snd (expand_round rules commands) \<longleftrightarrow> outs (fst (expand_round rules commands)) \<noteq> outs commands"
  using fold_expand_rule [where rs = rules and state = "(commands, False)"] by (auto simp: expand_round_def)

subsection \<open>Chains of outputs\<close>

text \<open>An output at the end of a chain of at least \<open>n\<close> outputs each made from the one before.\<close>

definition chained :: "rule list \<Rightarrow> nat \<Rightarrow> string list \<Rightarrow> bool" where
  "chained rules n p \<longleftrightarrow> (\<exists>steps i. n \<le> length steps + 1 \<and> successively (leads_to rules) (steps @ [(i, p)]) \<and>
     i < length rules \<and> makes (rules ! i) p)"

lemma chained_less: "chained rules (Suc n) p \<Longrightarrow> chained rules n p"
  unfolding chained_def by (meson Suc_leD)

lemma chained_next:
  assumes "chained rules n p" and "j < length rules" and "is_wildcard (rules ! j)" "r_over_outputs (rules ! j)"
    and "butlast p = butlast (r_wildcard_source (rules ! j))" and "instantiate (rules ! j) (last p) = Some m"
  shows "chained rules (Suc n) (r_output m)"
proof -
  obtain steps i where c: "n \<le> length steps + 1" "successively (leads_to rules) (steps @ [(i, p)])"
    "i < length rules" "makes (rules ! i) p"
    using assms(1) by (auto simp: chained_def)
  have l: "leads_to rules (i, p) (j, r_output m)" using c assms(2-6) by (auto simp: leads_to_def)
  have "successively (leads_to rules) ((steps @ [(i, p)]) @ [(j, r_output m)])"
    unfolding successively_append_iff using c(2) l by (simp add: successively_append_iff)
  moreover have "makes (rules ! j) (r_output m)" using assms(3,6) by (auto simp: makes_def)
  moreover have "Suc n \<le> length (steps @ [(i, p)]) + 1" using c(1) by simp
  ultimately show ?thesis using assms(2) unfolding chained_def by blast
qed

lemma chained_bound:
  assumes "acyclic (feeding rules)" and "chained rules n p"
  shows "n \<le> length rules"
proof -
  obtain steps i where c: "n \<le> length steps + 1" "successively (leads_to rules) (steps @ [(i, p)])" "i < length rules"
    using assms(2) by (auto simp: chained_def)
  have "k < length rules" if "k \<in> set (map fst (steps @ [(i, p)]))" for k
  proof -
    from that obtain s where "s \<in> set (steps @ [(i, p)])" "k = fst s" unfolding set_map by (rule imageE)
    then obtain n where n: "n < length (steps @ [(i, p)])" "k = fst ((steps @ [(i, p)]) ! n)"
      unfolding in_set_conv_nth by blast
    show ?thesis
    proof (cases "n = length steps")
      case True
      with n c(3) show ?thesis by simp
    next
      case False
      with n have "Suc n < length (steps @ [(i, p)])" by auto
      with c(2) have "leads_to rules ((steps @ [(i, p)]) ! n) ((steps @ [(i, p)]) ! Suc n)"
        by (simp only: successively_conv_nth)
      with n(2) show ?thesis by (auto simp: leads_to_def split: prod.splits)
    qed
  qed
  then have "set (map fst (steps @ [(i, p)])) \<subseteq> {..<length rules}" by auto
  then have "card (set (map fst (steps @ [(i, p)]))) \<le> length rules"
    using card_mono [of "{..<length rules}"] by simp
  moreover have "card (set (map fst (steps @ [(i, p)]))) = length (map fst (steps @ [(i, p)]))"
    by (rule distinct_card) (rule leads_to_distinct [OF assms(1) c(2)])
  ultimately show ?thesis using c(1) by simp
qed

text \<open>
  In a round after another, a new output can only be made from one that the round before added:
  what is added in the \<open>n\<close>th round ends a chain of more than \<open>n\<close> outputs.
\<close>

lemma expand_round_chained:
  assumes wild: "\<forall>r \<in> set rules. r_over_outputs r \<longrightarrow> is_wildcard r"
    and prior: "\<And>r. r \<in> set rules \<Longrightarrow> r_over_outputs r \<Longrightarrow> derived r P \<subseteq> outs commands"
    and fresh: "\<And>p. p \<in> outs commands - P \<Longrightarrow> chained rules n p"
    and p: "p \<in> outs (fst (expand_round rules commands)) - outs commands"
  shows "chained rules (Suc n) p"
proof -
  have inv: "\<forall>p \<in> outs (fst (fold expand_rule rs state)) - outs commands. chained rules (Suc n) p"
    if "set rs \<subseteq> set rules" "outs commands \<subseteq> outs (fst state)" "\<forall>p \<in> outs (fst state) - outs commands. chained rules (Suc n) p" for rs state
    using that
  proof (induction rs arbitrary: state)
    case (Cons r rs)
    let ?s = "expand_rule r state"
    have s: "outs (fst ?s) = outs (fst state) \<union> (if r_over_outputs r then derived r (outs (fst state)) else {})"
      using expand_rule_outs(1) [of r "fst state" "snd state"] by simp
    have "chained rules (Suc n) q" if q: "q \<in> outs (fst ?s) - outs commands" for q
    proof (cases "q \<in> outs (fst state)")
      case True
      with q Cons.prems(3) show ?thesis by blast
    next
      case False
      with q s have over: "r_over_outputs r" and d: "q \<in> derived r (outs (fst state))" by (auto split: if_splits)
      from d obtain m o' where m: "q = r_output m" "o' \<in> outs (fst state)" "butlast o' = butlast (r_wildcard_source r)"
        "instantiate r (last o') = Some m" by (auto simp: derived_def)
      have r: "r \<in> set rules" using Cons.prems(1) by simp
      have "o' \<notin> P" using prior [OF r over] m q by (auto simp: derived_def)
      then have "chained rules n o'"
        using fresh [of o'] m(2) Cons.prems(3) chained_less by (cases "o' \<in> outs commands") blast+
      moreover obtain j where "j < length rules" "rules ! j = r" using r by (metis in_set_conv_nth)
      ultimately show ?thesis using chained_next [of rules n o' j m] m over wild r by simp
    qed
    moreover have "outs commands \<subseteq> outs (fst ?s)" using s Cons.prems(2) by auto
    ultimately show ?case using Cons.IH [of ?s] Cons.prems(1) by simp
  qed simp
  from inv [of rules "(commands, False)"] p show ?thesis by (auto simp: expand_round_def)
qed

lemma expand_loop_ends:
  assumes ac: "acyclic (feeding rules)" and wild: "\<forall>r \<in> set rules. r_over_outputs r \<longrightarrow> is_wildcard r"
    and "\<And>r. r \<in> set rules \<Longrightarrow> r_over_outputs r \<Longrightarrow> derived r P \<subseteq> outs commands"
    and "\<And>p. p \<in> outs commands - P \<Longrightarrow> chained rules n p"
    and "length rules < n + fuel" and "0 < fuel"
  shows "\<exists>result. expand_loop fuel rules commands = Some result \<and> outs commands \<subseteq> outs result \<and>
    (\<forall>r \<in> set rules. r_over_outputs r \<longrightarrow> derived r (outs result) \<subseteq> outs result)"
  using assms(3-)
proof (induction fuel arbitrary: P commands n)
  case (Suc fuel)
  let ?c = "fst (expand_round rules commands)"
  note R = expand_round_outs [where commands = commands and rules = rules]
  obtain c added where e: "expand_round rules commands = (c, added)" by (cases "expand_round rules commands")
  show ?case
  proof (cases added)
    case False
    with R(3) e have "outs c = outs commands" by simp
    with R e False show ?thesis by auto
  next
    case True
    with R(1,3) e obtain p where p: "p \<in> outs c - outs commands" by auto
    have ch: "\<And>p. p \<in> outs c - outs commands \<Longrightarrow> chained rules (Suc n) p"
      using expand_round_chained [OF wild Suc.prems(1,2)] e by simp
    from chained_bound [OF ac ch [OF p]] Suc.prems(3) have "0 < fuel" by simp
    moreover have "\<And>r. r \<in> set rules \<Longrightarrow> r_over_outputs r \<Longrightarrow> derived r (outs commands) \<subseteq> outs c"
      using R(2) e by simp
    ultimately obtain result where "expand_loop fuel rules c = Some result" "outs c \<subseteq> outs result"
      "\<forall>r \<in> set rules. r_over_outputs r \<longrightarrow> derived r (outs result) \<subseteq> outs result"
      using Suc.IH [of "outs commands" c "Suc n"] ch Suc.prems(3) by auto
    with True e R(1) show ?thesis by auto
  qed
qed simp

section \<open>Exactly the outputs declared\<close>

definition commands_sound :: "directory_tree \<Rightarrow> rule list \<Rightarrow> commands \<Rightarrow> bool" where
  "commands_sound source rules commands \<longleftrightarrow> sorted_wrt (<) (map fst commands) \<and>
     (\<forall>(p, c) \<in> set commands. \<exists>m. declares source rules m \<and> r_output m = p \<and> command_for m = c)"

lemma sound_declare:
  assumes "commands_sound source rules commands" and "declares source rules m"
  shows "commands_sound source rules (declare_rule m commands)"
  using assms set_emplace [of "r_output m" "command_for m" commands]
  unfolding commands_sound_def declare_rule_def by (auto simp: sorted_emplace)

lemma sound_fold_declare:
  "commands_sound source rules commands \<Longrightarrow> \<forall>m \<in> set ms. declares source rules m \<Longrightarrow>
   commands_sound source rules (fold declare_rule ms commands)"
  by (induction ms arbitrary: commands) (auto simp: sound_declare)

lemma sound_declare_source:
  assumes "commands_sound source rules commands" and "r \<in> set rules"
  shows "commands_sound source rules (declare_source source r commands)"
  using assms by (auto simp: declare_source_def intro!: sound_declare sound_fold_declare intro: declares.intros)

lemma sound_expand_rule:
  assumes wild: "\<forall>r \<in> set rules. r_over_outputs r \<longrightarrow> is_wildcard r"
    and ok: "commands_sound source rules (fst state)" and r: "r \<in> set rules"
  shows "commands_sound source rules (fst (expand_rule r state))"
proof (cases "r_over_outputs r")
  case True
  have "declares source rules m" if m: "m \<in> set (output_matches r (fst state))" for m
  proof -
    from m obtain p c where p: "(p, c) \<in> set (fst state)" "butlast p = butlast (r_wildcard_source r)"
      "instantiate r (last p) = Some m"
      by (auto simp: output_matches_def set_map_filter split: if_splits option.splits)
    with ok obtain q where "declares source rules q" "r_output q = p" by (auto simp: commands_sound_def)
    with p wild r True show ?thesis by (auto intro: declares.over)
  qed
  with ok True show ?thesis by (auto simp: expand_rule_def Let_def split: prod.split intro!: sound_fold_declare)
qed (use ok in \<open>auto simp: expand_rule_def split: prod.split\<close>)

lemma sound_expand_loop:
  assumes wild: "\<forall>r \<in> set rules. r_over_outputs r \<longrightarrow> is_wildcard r"
  shows "commands_sound source rules commands \<Longrightarrow> expand_loop fuel rules commands = Some result \<Longrightarrow>
    commands_sound source rules result"
proof (induction fuel arbitrary: commands)
  case (Suc fuel)
  have "commands_sound source rules (fst (fold expand_rule rs state))"
    if "set rs \<subseteq> set rules" "commands_sound source rules (fst state)" for rs state
    using that by (induction rs arbitrary: state) (auto simp: sound_expand_rule [OF wild])
  from this [of rules "(commands, False)"] Suc.prems(1) have "commands_sound source rules (fst (expand_round rules commands))"
    by (simp add: expand_round_def)
  with Suc.IH Suc.prems(2) show ?case by (cases "expand_round rules commands") (auto split: if_splits)
qed simp

lemma declare_source_outs:
  "outs commands \<subseteq> outs (declare_source source r commands)"
  "\<not> is_wildcard r \<Longrightarrow> r_output r \<in> outs (declare_source source r commands)"
  "is_wildcard r \<Longrightarrow> \<not> r_over_outputs r \<Longrightarrow> m \<in> set (source_matches source r) \<Longrightarrow> r_output m \<in> outs (declare_source source r commands)"
  by (auto simp: declare_source_def outs_declare outs_fold_declare)

lemma fold_declare_source_outs:
  "outs commands \<subseteq> outs (fold (declare_source source) rs commands)"
  "r \<in> set rs \<Longrightarrow> \<not> is_wildcard r \<Longrightarrow> r_output r \<in> outs (fold (declare_source source) rs commands)"
  "r \<in> set rs \<Longrightarrow> is_wildcard r \<Longrightarrow> \<not> r_over_outputs r \<Longrightarrow> m \<in> set (source_matches source r) \<Longrightarrow>
     r_output m \<in> outs (fold (declare_source source) rs commands)"
  using declare_source_outs by (induction rs arbitrary: commands) fastforce+

lemma fold_declare_source_chained:
  assumes "set rs \<subseteq> set rules" and "\<forall>p \<in> outs commands. chained rules 1 p"
  shows "\<forall>p \<in> outs (fold (declare_source source) rs commands). chained rules 1 p"
  using assms
proof (induction rs arbitrary: commands)
  case (Cons r rs)
  have one: "chained rules 1 p" if "makes r p" for p
  proof -
    obtain i where "i < length rules" "rules ! i = r" using Cons.prems(1) by (auto simp: in_set_conv_nth)
    with that show ?thesis unfolding chained_def by (intro exI [of _ "[]"]) auto
  qed
  have "\<forall>p \<in> outs (declare_source source r commands). chained rules 1 p"
    using Cons.prems(2) one source_matches_makes [of r]
    by (auto simp: declare_source_def outs_declare outs_fold_declare makes_def split: if_splits)
  with Cons show ?case by simp
qed simp

lemma expand_rules_exact:
  assumes ac: "acyclic (feeding rules)" and wild: "\<forall>r \<in> set rules. r_over_outputs r \<longrightarrow> is_wildcard r"
    and rules: "sorted_wrt apart rules" and fuel: "length rules < fuel"
  shows "\<exists>commands. expand_rules fuel source rules = Some commands \<and> distinct (map fst commands) \<and>
    (\<forall>p c. map_of commands p = Some c \<longleftrightarrow> (\<exists>m. declares source rules m \<and> r_output m = p \<and> command_for m = c))"
proof -
  let ?base = "fold (declare_source source) rules []"
  have none: "outs [] = {}" by (simp add: outs_def)
  have "\<forall>p \<in> outs ?base. chained rules 1 p"
    by (rule fold_declare_source_chained) (simp_all add: none)
  then obtain result where r: "expand_rules fuel source rules = Some result" "outs ?base \<subseteq> outs result"
    "\<forall>r \<in> set rules. r_over_outputs r \<longrightarrow> derived r (outs result) \<subseteq> outs result"
    using expand_loop_ends [OF ac wild, of "{}" ?base 1 fuel] fuel by (auto simp: derived_def expand_rules_def)
  have base: "commands_sound source rules (fold (declare_source source) rs commands)"
    if "set rs \<subseteq> set rules" "commands_sound source rules commands" for rs commands
    using that by (induction rs arbitrary: commands) (auto simp: sound_declare_source)
  have "commands_sound source rules ?base" by (rule base) (simp_all add: commands_sound_def)
  then have sound: "commands_sound source rules result"
    using sound_expand_loop [OF wild] r(1) by (simp add: expand_rules_def)
  have complete: "r_output m \<in> outs result" if "declares source rules m" for m
    using that
  proof (induction rule: declares.induct)
    case (over q p m)
    then have "r_output m \<in> derived q (outs result)" by (auto simp: derived_def)
    with over r(3) show ?case by blast
  qed (use r(2) fold_declare_source_outs in blast)+
  have "map_of result p = Some c \<longleftrightarrow> (\<exists>m. declares source rules m \<and> r_output m = p \<and> command_for m = c)" for p c
  proof
    assume "map_of result p = Some c"
    then show "\<exists>m. declares source rules m \<and> r_output m = p \<and> command_for m = c"
      using sound by (auto simp: commands_sound_def dest!: map_of_SomeD)
  next
    assume "\<exists>m. declares source rules m \<and> r_output m = p \<and> command_for m = c"
    then obtain m where m: "declares source rules m" "r_output m = p" "command_for m = c" by blast
    with complete obtain c' where c': "map_of result p = Some c'" by (auto simp: outs_def)
    with sound obtain m' where "declares source rules m'" "r_output m' = p" "command_for m' = c'"
      by (auto simp: commands_sound_def dest!: map_of_SomeD)
    with declares_unique [OF rules this(1) m(1)] m c' show "map_of result p = Some c" by simp
  qed
  moreover have "distinct (map fst result)" using sound by (simp add: commands_sound_def strict_sorted_iff)
  ultimately show ?thesis using r(1) by blast
qed

end
