(* ===== verification/Build_Layout.thy ===== *)
theory Build_Layout
  imports Build_Rules
begin

text \<open>
  The tree that the build directory serves from: an in-memory tree with a file for each declared
  output and the directories above them.  What a change of the rules does to it, with every
  precondition of the in-memory tree checked (an operation whose precondition fails has no
  result), and the proof that none ever fails while no output is another's directory.
\<close>

section \<open>Operations\<close>

type_synonym laid = "(mem_tree \<times> tree_diff list) option"

definition then_also :: "tree_diff \<Rightarrow> laid \<Rightarrow> laid" where
  "then_also d r = map_option (\<lambda>(t, ds). (t, d # ds)) r"

fun ensure_directories :: "int \<Rightarrow> string list list \<Rightarrow> mem_tree \<Rightarrow> laid" where
  "ensure_directories now [] t = Some (t, [])"
| "ensure_directories now (d # ds) t =
     (if has_value (mem_status t (generic_string d)) then ensure_directories now ds t
      else (case mem_make_directory t (generic_string d) now of
              None \<Rightarrow> None
            | Some (t', diff) \<Rightarrow> then_also diff (ensure_directories now ds t')))"

definition ensure_parent_directories :: "int \<Rightarrow> string list \<Rightarrow> mem_tree \<Rightarrow> laid" where
  "ensure_parent_directories now out t = ensure_directories now (rev (parents out)) t"

fun remove_empty_directories :: "string list list \<Rightarrow> mem_tree \<Rightarrow> laid" where
  "remove_empty_directories [] t = Some (t, [])"
| "remove_empty_directories (d # ds) t =
     (case mem_ls t (generic_string d) of
        Inl e \<Rightarrow> Some (t, [])
      | Inr children \<Rightarrow>
          if children \<noteq> [] then Some (t, [])
          else (case mem_remove t (generic_string d) of
                  None \<Rightarrow> None
                | Some (t', diff) \<Rightarrow> then_also diff (remove_empty_directories ds t')))"

definition remove_with_empty_parents :: "string list \<Rightarrow> mem_tree \<Rightarrow> laid" where
  "remove_with_empty_parents out t =
     (if \<not> has_value (mem_status t (generic_string out)) then Some (t, [])
      else (case mem_remove t (generic_string out) of
              None \<Rightarrow> None
            | Some (t', diff) \<Rightarrow> then_also diff (remove_empty_directories (parents out) t')))"

definition add_placeholder :: "int \<Rightarrow> string list \<Rightarrow> mem_tree \<Rightarrow> laid" where
  "add_placeholder now out t =
     (case ensure_parent_directories now out t of
        None \<Rightarrow> None
      | Some (t', diffs) \<Rightarrow>
          (case mem_write_file t' (generic_string out) placeholder_content now of
             None \<Rightarrow> None
           | Some (t'', diff) \<Rightarrow> Some (t'', diffs @ [diff])))"

fun lay_all :: "(string list \<Rightarrow> mem_tree \<Rightarrow> laid) \<Rightarrow> string list list \<Rightarrow> mem_tree \<Rightarrow> laid" where
  "lay_all f [] t = Some (t, [])"
| "lay_all f (p # ps) t =
     (case f p t of None \<Rightarrow> None
      | Some (t', ds) \<Rightarrow> map_option (\<lambda>(t'', ds'). (t'', ds @ ds')) (lay_all f ps t'))"

text \<open>Removals first, so a new output can take the place of a directory of removed ones.\<close>

definition apply_layout :: "int \<Rightarrow> string list list \<Rightarrow> string list list \<Rightarrow> mem_tree \<Rightarrow> laid" where
  "apply_layout now removed added t =
     (case lay_all remove_with_empty_parents removed t of
        None \<Rightarrow> None
      | Some (t', ds) \<Rightarrow> map_option (\<lambda>(t'', ds'). (t'', ds @ ds')) (lay_all (add_placeholder now) added t'))"

section \<open>The layout\<close>

definition antichain :: "string list set \<Rightarrow> bool" where
  "antichain D \<longleftrightarrow> (\<forall>p \<in> D. inside p) \<and> (\<forall>p \<in> D. \<forall>q \<in> D. p \<noteq> q \<longrightarrow> \<not> prefix p q)"

abbreviation entry :: "mem_tree \<Rightarrow> string list \<Rightarrow> node option" where
  "entry t \<equiv> map_of (m_entries t)"

text \<open>The files are the outputs, the directories those above them and those down to \<open>d\<close>.\<close>

definition laid_out :: "string list set \<Rightarrow> string list \<Rightarrow> mem_tree \<Rightarrow> bool" where
  "laid_out D d t \<longleftrightarrow> mem_ok t \<and>
     (\<forall>q. q \<noteq> [] \<longrightarrow> (entry t q \<noteq> None \<longleftrightarrow> q \<in> D \<or> (\<exists>r \<in> D. strict_prefix q r) \<or> prefix q d)) \<and>
     (\<forall>q n. entry t q = Some n \<longrightarrow> (is_file (n_info n) \<longleftrightarrow> q \<in> D))"

definition layout_ok :: "string list set \<Rightarrow> mem_tree \<Rightarrow> bool" where
  "layout_ok D t \<longleftrightarrow> laid_out D [] t"

lemma antichain_subset: "antichain D \<Longrightarrow> E \<subseteq> D \<Longrightarrow> antichain E"
  unfolding antichain_def by blast

lemma antichainD: "antichain D \<Longrightarrow> p \<in> D \<Longrightarrow> inside p" "antichain D \<Longrightarrow> p \<in> D \<Longrightarrow> q \<in> D \<Longrightarrow> prefix p q \<Longrightarrow> p = q"
  unfolding antichain_def by blast+

lemma laid_outD:
  assumes "laid_out D d t"
  shows "mem_ok t" "q \<noteq> [] \<Longrightarrow> entry t q \<noteq> None \<longleftrightarrow> q \<in> D \<or> (\<exists>r \<in> D. strict_prefix q r) \<or> prefix q d"
    "entry t q = Some n \<Longrightarrow> is_file (n_info n) \<longleftrightarrow> q \<in> D"
  using assms unfolding laid_out_def by blast+

subsection \<open>The operations of the in-memory tree, through its map\<close>

lemma status_entry: "names_ok p \<Longrightarrow> has_value (mem_status t (generic_string p)) \<longleftrightarrow> entry t p \<noteq> None"
  by (auto simp: mem_status_at split: option.splits)

lemma make_directory_entry:
  assumes ok: "mem_ok t" and d: "inside d" "entry t d = None" "parent_is_directory t d"
  shows "\<exists>t' diff n. mem_make_directory t (generic_string d) now = Some (t', diff) \<and> mem_ok t' \<and>
    entry t' = (entry t)(d \<mapsto> n) \<and> \<not> is_file (n_info n)"
proof -
  let ?n = "\<lparr>n_info = Directory_entry \<lparr>d_mtime = now\<rparr>, n_content = None\<rparr>"
  let ?t = "t\<lparr>m_entries := insert_or_assign d ?n (m_entries t)\<rparr>"
  have s: "sorted_wrt (<) (map fst (m_entries t))" using ok by (simp add: mem_ok_def)
  have dn: "names_ok d" "d \<noteq> []" using d(1) by (simp_all add: inside_names_ok)
  have "mem_make_directory t (generic_string d) now = Some (?t, no_diff\<lparr>entries_changed := [d], child_lists_changed := [butlast d]\<rparr>)"
    using d dn by (simp add: mem_make_directory_def normalize_generic)
  moreover have "mem_ok ?t" by (rule mem_ok_insert [OF ok]) (use d dn in \<open>auto simp: node_ok_def\<close>)
  ultimately show ?thesis by (auto simp: map_of_insert_or_assign [OF s])
qed

lemma write_file_entry:
  assumes ok: "mem_ok t" and p: "inside p" "parent_is_directory t p" "\<And>n. entry t p = Some n \<Longrightarrow> is_file (n_info n)"
  shows "\<exists>t' diff. mem_write_file t (generic_string p) content now = Some (t', diff) \<and> mem_ok t' \<and>
    entry t' = (entry t)(p \<mapsto> \<lparr>n_info = File_entry \<lparr>f_size = length content, f_mtime = now\<rparr>, n_content = Some content\<rparr>)"
proof -
  let ?n = "\<lparr>n_info = File_entry \<lparr>f_size = length content, f_mtime = now\<rparr>, n_content = Some content\<rparr>"
  let ?t = "t\<lparr>m_entries := insert_or_assign p ?n (m_entries t)\<rparr>"
  have s: "sorted_wrt (<) (map fst (m_entries t))" using ok by (simp add: mem_ok_def)
  have pn: "names_ok p" "p \<noteq> []" using p(1) by (simp_all add: inside_names_ok)
  have "\<exists>diff. mem_write_file t (generic_string p) content now = Some (?t, diff)"
    using p pn by (auto simp: mem_write_file_def normalize_generic Let_def split: option.split)
  moreover have "mem_ok ?t" by (rule mem_ok_insert [OF ok]) (use p pn in \<open>auto simp: node_ok_def\<close>)
  ultimately show ?thesis by (auto simp: map_of_insert_or_assign [OF s])
qed

lemma remove_entry:
  assumes ok: "mem_ok t" and p: "inside p" "entry t p \<noteq> None"
  shows "\<exists>t' diff. mem_remove t (generic_string p) = Some (t', diff) \<and> mem_ok t' \<and>
    (\<forall>q. entry t' q = (if prefix p q then None else entry t q))"
proof -
  let ?t = "t\<lparr>m_entries := filter (\<lambda>e. \<not> (fst e = p \<or> is_within (fst e) p)) (m_entries t)\<rparr>"
  have pn: "names_ok p" "p \<noteq> []" using p(1) by (simp_all add: inside_names_ok)
  have "\<exists>diff. mem_remove t (generic_string p) = Some (?t, diff)"
    using p pn by (auto simp: mem_remove_def normalize_generic Let_def)
  moreover have "entry ?t q = (if prefix p q then None else entry t q)" for q
    using map_of_filter_key [of "\<lambda>q. \<not> (q = p \<or> is_within q p)" "m_entries t" q]
    by (auto simp: is_within_def strict_prefix_def)
  ultimately show ?thesis using mem_ok_filter [OF ok pn(2)] by blast
qed

lemma ls_entry:
  assumes ok: "mem_ok t" and d: "names_ok d" "entry t d = Some n" "\<not> is_file (n_info n)"
  shows "\<exists>es. mem_ls t (generic_string d) = Inr es \<and> (es = [] \<longleftrightarrow> (\<forall>m. entry t (d @ [m]) = None))"
proof -
  obtain x where x: "n_info n = Directory_entry x" using d(3) is_file_iff(2) by blast
  have "dt_status (mem_view t) d = Inr (Directory_entry x)" using d x by (simp add: mem_view_def mem_status_at)
  from lawful_listed [OF ok d(1) this] obtain es where es: "mem_ls t (generic_string d) = Inr es"
    "\<forall>m. m \<in> set (map t_name es) \<longleftrightarrow> name_ok m \<and> has_value (dt_status (mem_view t) (d @ [m]))"
    by (auto simp: mem_view_def)
  have "(es = []) = (\<forall>m. m \<notin> set (map t_name es))" by auto
  also have "\<dots> = (\<forall>m. entry t (d @ [m]) = None)"
  proof -
    have "name_ok m \<and> has_value (dt_status (mem_view t) (d @ [m])) \<longleftrightarrow> entry t (d @ [m]) \<noteq> None" for m
      using mem_ok_entry(1) [OF ok, of "d @ [m]"] d(1)
      by (cases "entry t (d @ [m])"; cases "name_ok m") (auto simp: mem_view_def status_entry)
    with es(2) show ?thesis by blast
  qed
  finally show ?thesis using es(1) by blast
qed

subsection \<open>Adding\<close>

text \<open>The directory a laid-out path is in is there.\<close>

lemma laid_out_parent:
  assumes l: "laid_out D d t" and d: "\<And>q. q \<in> D \<Longrightarrow> \<not> prefix q d"
  shows "parent_is_directory t (d @ [n])"
proof (cases "d = []")
  case True
  have "\<exists>n. entry t [] = Some n \<and> \<not> is_file (n_info n)" using laid_outD(1) [OF l] by (simp add: mem_ok_def)
  with True show ?thesis by (auto simp: parent_is_directory_def)
next
  case False
  then obtain m where m: "entry t d = Some m" using laid_outD(2) [OF l, of d] by auto
  with laid_outD(3) [OF l m] d [of d] show ?thesis by (auto simp: parent_is_directory_def)
qed

lemma parents_snoc: "parents (d @ [n]) = (if d = [] then [] else d # parents d)"
proof (cases "d = []")
  case False
  have "parents (d @ [n]) = map (\<lambda>k. take k (d @ [n])) (rev ([1..<length d] @ [length d]))"
    unfolding parents_def using False by (simp add: Suc_leI)
  also have "\<dots> = d # map (\<lambda>k. take k (d @ [n])) (rev [1..<length d])" by simp
  also have "map (\<lambda>k. take k (d @ [n])) (rev [1..<length d]) = parents d"
    unfolding parents_def by (rule map_cong) auto
  finally show ?thesis using False by simp
qed (simp add: parents_def)

lemma ensure_directories_append:
  "ensure_directories now (ds @ es) t = (case ensure_directories now ds t of None \<Rightarrow> None
     | Some (t', diffs) \<Rightarrow> map_option (\<lambda>(t'', diffs'). (t'', diffs @ diffs')) (ensure_directories now es t'))"
  by (induction now ds t rule: ensure_directories.induct)
    (auto simp: then_also_def option.map_comp comp_def option.map_ident case_prod_unfold split: option.splits)

lemma ensure_laid_out:
  assumes "laid_out D [] t" and "inside (d @ [n])" and "\<And>q. q \<in> D \<Longrightarrow> \<not> prefix q d"
  shows "\<exists>t' diffs. ensure_parent_directories now (d @ [n]) t = Some (t', diffs) \<and> laid_out D d t'"
  using assms(2,3)
proof (induction d arbitrary: n rule: rev_induct)
  case Nil
  with assms(1) parents_snoc [of "[]" n] show ?case by (simp add: ensure_parent_directories_def)
next
  case (snoc m d)
  have ins: "inside (d @ [m])" using snoc.prems(1) by (auto simp: inside_def)
  have no: "\<And>q. q \<in> D \<Longrightarrow> \<not> prefix q d" using snoc.prems(2) by (metis prefix_prefix)
  obtain t1 diffs where t1: "ensure_parent_directories now (d @ [m]) t = Some (t1, diffs)" and l: "laid_out D d t1"
    using snoc.IH [OF ins no] by blast
  have names: "names_ok (d @ [m])" using ins by (simp add: inside_names_ok)
  have split: "ensure_parent_directories now ((d @ [m]) @ [n]) t =
      (case ensure_parent_directories now (d @ [m]) t of None \<Rightarrow> None
       | Some (t', diffs) \<Rightarrow> map_option (\<lambda>(t'', diffs'). (t'', diffs @ diffs')) (ensure_directories now [d @ [m]] t'))"
    unfolding ensure_parent_directories_def parents_snoc [of "d @ [m]"] by (simp add: ensure_directories_append)
  have pre: "prefix q (d @ [m]) \<longleftrightarrow> q = d @ [m] \<or> prefix q d" for q by auto
  show ?case
  proof (cases "entry t1 (d @ [m])")
    case None
    have "parent_is_directory t1 (d @ [m])" by (rule laid_out_parent [OF l no])
    from make_directory_entry [OF laid_outD(1) [OF l] ins None this, of now] obtain t2 diff x where
      t2: "mem_make_directory t1 (generic_string (d @ [m])) now = Some (t2, diff)" "mem_ok t2"
        "entry t2 = (entry t1)(d @ [m] \<mapsto> x)" "\<not> is_file (n_info x)" by blast
    have "laid_out D (d @ [m]) t2"
      unfolding laid_out_def t2(3)
      using t2(2,4) laid_outD(2,3) [OF l] snoc.prems(2) pre by (auto simp del: not_None_eq)
    with t1 t2(1) None names show ?thesis unfolding split by (simp add: status_entry then_also_def)
  next
    case (Some x)
    have "laid_out D (d @ [m]) t1"
      unfolding laid_out_def using laid_outD [OF l] Some pre by (auto simp del: not_None_eq)
    with t1 Some names show ?thesis unfolding split by (simp add: status_entry)
  qed
qed

lemma add_laid_out:
  assumes l: "laid_out D [] t" and a: "antichain (insert p D)" and p: "p \<notin> D"
  shows "\<exists>t' diffs. add_placeholder now p t = Some (t', diffs) \<and> laid_out (insert p D) [] t'"
proof -
  have ins: "inside p" using antichainD(1) [OF a] by blast
  then obtain d n where dn: "p = d @ [n]" by (cases p rule: rev_cases) (auto simp: inside_def)
  have no: "\<not> prefix q p" "\<not> prefix p q" if "q \<in> D" for q using antichainD(2) [OF a] that p by blast+
  have nod: "\<And>q. q \<in> D \<Longrightarrow> \<not> prefix q d" using no(1) dn by (metis prefix_prefix)
  obtain t1 diffs where t1: "ensure_parent_directories now p t = Some (t1, diffs)" and l1: "laid_out D d t1"
    using ensure_laid_out [OF l _ nod] ins dn by blast
  have par: "parent_is_directory t1 p" unfolding dn by (rule laid_out_parent [OF l1 nod])
  have "is_file (n_info x)" if "entry t1 p = Some x" for x
    using laid_outD(2) [OF l1, of p] that p no dn by (auto simp: strict_prefix_def)
  from write_file_entry [OF laid_outD(1) [OF l1] ins par this, of placeholder_content now] obtain t2 diff where
    t2: "mem_write_file t1 (generic_string p) placeholder_content now = Some (t2, diff)" "mem_ok t2"
      "entry t2 = (entry t1)(p \<mapsto> \<lparr>n_info = File_entry \<lparr>f_size = length placeholder_content, f_mtime = now\<rparr>, n_content = Some placeholder_content\<rparr>)"
    by blast
  have pre: "prefix q d \<longleftrightarrow> strict_prefix q p" for q unfolding dn by (rule strict_prefix_snoc [symmetric])
  have "laid_out (insert p D) [] t2"
    unfolding laid_out_def t2(3) using t2(2) laid_outD(2,3) [OF l1] pre by (auto simp del: not_None_eq)
  with t1 t2(1) show ?thesis by (simp add: add_placeholder_def)
qed

subsection \<open>Removing\<close>

lemma remove_empty_laid_out:
  assumes "laid_out D d t" and "names_ok d" and "\<And>q. q \<in> D \<Longrightarrow> \<not> prefix q d" and "antichain D"
  shows "\<exists>t' diffs. remove_empty_directories (if d = [] then [] else d # parents d) t = Some (t', diffs) \<and> laid_out D [] t'"
  using assms(1-3)
proof (induction d arbitrary: t rule: rev_induct)
  case Nil
  then show ?case by simp
next
  case (snoc n d)
  let ?d = "d @ [n]"
  note L = laid_outD [OF snoc.prems(1)]
  obtain x where x: "entry t ?d = Some x" using L(2) [of ?d] by auto
  with L(3) [OF x] snoc.prems(3) [of ?d] have dir: "\<not> is_file (n_info x)" by auto
  obtain es where es: "mem_ls t (generic_string ?d) = Inr es" "es = [] \<longleftrightarrow> (\<forall>m. entry t (?d @ [m]) = None)"
    using ls_entry [OF L(1) snoc.prems(2) x dir] by blast
  show ?case
  proof (cases "es = []")
    case False
    then obtain m where "entry t (?d @ [m]) \<noteq> None" using es(2) by blast
    then obtain r where r: "r \<in> D" "strict_prefix ?d r"
      using L(2) [of "?d @ [m]"] by (auto simp: strict_prefix_def prefix_def)
    have above: "strict_prefix q r" if "prefix q ?d" for q using prefix_order.le_less_trans [OF that r(2)] .
    have "entry t q \<noteq> None \<longleftrightarrow> q \<in> D \<or> (\<exists>r \<in> D. strict_prefix q r) \<or> prefix q []" if "q \<noteq> []" for q
      using L(2) [OF that] above [of q] r(1) that by (auto simp del: not_None_eq prefix_snoc)
    then have "laid_out D [] t" unfolding laid_out_def using L(1,3) by blast
    with False es(1) show ?thesis by simp
  next
    case True
    have ins: "inside ?d" using snoc.prems(2) by (simp add: inside_names_ok)
    have none: "\<not> strict_prefix ?d r" if r: "r \<in> D" for r
    proof
      assume "strict_prefix ?d r"
      then obtain zs where "r = ?d @ zs" "zs \<noteq> []" unfolding strict_prefix_def prefix_def by blast
      then obtain m rest where "r = ?d @ m # rest" by (cases zs) auto
      then have "?d @ [m] \<in> D \<or> strict_prefix (?d @ [m]) r" using r by (cases rest) (auto simp: strict_prefix_def)
      with r L(2) [of "?d @ [m]"] True es(2) show False by auto
    qed
    from remove_entry [OF L(1) ins] x obtain t1 diff where
      t1: "mem_remove t (generic_string ?d) = Some (t1, diff)" "mem_ok t1"
        "\<And>q. entry t1 q = (if prefix ?d q then None else entry t q)" by auto
    have "entry t1 q \<noteq> None \<longleftrightarrow> q \<in> D \<or> (\<exists>r \<in> D. strict_prefix q r) \<or> prefix q d" if q: "q \<noteq> []" for q
    proof -
      have "prefix ?d q \<Longrightarrow> \<not> prefix q d" using prefix_length_le [of ?d d] prefix_order.trans [of ?d q d] by auto
      moreover have "prefix ?d q \<Longrightarrow> \<not> (\<exists>r \<in> D. strict_prefix q r)" using none prefix_order.le_less_trans by blast
      moreover have "prefix ?d q \<Longrightarrow> q \<notin> D" using none [of q] snoc.prems(3) [of q] by (auto simp: strict_prefix_def)
      moreover have "\<not> prefix ?d q \<Longrightarrow> prefix q ?d \<longleftrightarrow> prefix q d" by auto
      ultimately show ?thesis
        unfolding t1(3) using L(2) [of q] q by (cases "prefix ?d q") (auto simp del: not_None_eq)
    qed
    moreover have "is_file (n_info y) \<longleftrightarrow> q \<in> D" if "entry t1 q = Some y" for q y
      using that L(3) [of q y] unfolding t1(3) by (auto split: if_splits)
    ultimately have "laid_out D d t1" using t1(2) unfolding laid_out_def by blast
    moreover have "names_ok d" "\<And>q. q \<in> D \<Longrightarrow> \<not> prefix q d" using snoc.prems by (simp, metis prefix_prefix)
    ultimately obtain t2 diffs where
      "remove_empty_directories (if d = [] then [] else d # parents d) t1 = Some (t2, diffs)" "laid_out D [] t2"
      using snoc.IH by blast
    with t1(1) es(1) True show ?thesis by (simp add: parents_snoc then_also_def)
  qed
qed

lemma remove_laid_out:
  assumes l: "laid_out D [] t" and a: "antichain D" and p: "p \<in> D"
  shows "\<exists>t' diffs. remove_with_empty_parents p t = Some (t', diffs) \<and> laid_out (D - {p}) [] t'"
proof -
  have ins: "inside p" using antichainD(1) [OF a p] .
  then obtain d n where dn: "p = d @ [n]" by (cases p rule: rev_cases) (auto simp: inside_def)
  note L = laid_outD [OF l]
  have e: "entry t p \<noteq> None" using L(2) [of p] p dn by auto
  from remove_entry [OF L(1) ins e] obtain t1 diff where
    t1: "mem_remove t (generic_string p) = Some (t1, diff)" "mem_ok t1"
      "\<And>q. entry t1 q = (if prefix p q then None else entry t q)" by blast
  have none: "\<not> prefix p r" "\<not> prefix r p" if "r \<in> D - {p}" for r using antichainD(2) [OF a] p that by blast+
  have pre: "strict_prefix q p \<longleftrightarrow> prefix q d" for q unfolding dn by (rule strict_prefix_snoc)
  have "entry t1 q \<noteq> None \<longleftrightarrow> q \<in> D - {p} \<or> (\<exists>r \<in> D - {p}. strict_prefix q r) \<or> prefix q d" if q: "q \<noteq> []" for q
  proof -
    have "prefix p q \<Longrightarrow> \<not> prefix q d" using pre [of q] by (auto simp: strict_prefix_def)
    moreover have "prefix p q \<Longrightarrow> \<not> (\<exists>r \<in> D - {p}. prefix q r)" using none(1) prefix_order.trans by blast
    moreover have "(\<exists>r \<in> D. strict_prefix q r) \<longleftrightarrow> (\<exists>r \<in> D - {p}. strict_prefix q r) \<or> prefix q d" using pre [of q] p by blast
    ultimately show ?thesis
      unfolding t1(3) using L(2) [of q] q by (cases "prefix p q") (auto simp del: not_None_eq simp: strict_prefix_def)
  qed
  moreover have "is_file (n_info n) \<longleftrightarrow> q \<in> D - {p}" if "entry t1 q = Some n" for q n
    using that L(3) [of q n] unfolding t1(3) by (auto split: if_splits)
  ultimately have "laid_out (D - {p}) d t1" using t1(2) unfolding laid_out_def by blast
  moreover have "names_ok d" using ins dn by (simp add: inside_names_ok)
  moreover have "\<And>q. q \<in> D - {p} \<Longrightarrow> \<not> prefix q d" using none(2) dn by (metis prefix_prefix)
  ultimately obtain t2 diffs where
    "remove_empty_directories (if d = [] then [] else d # parents d) t1 = Some (t2, diffs)" "laid_out (D - {p}) [] t2"
    using remove_empty_laid_out antichain_subset [OF a] by (meson Diff_subset)
  moreover have "has_value (mem_status t (generic_string p))" using e ins by (simp add: status_entry inside_names_ok)
  ultimately show ?thesis using t1(1) by (simp add: remove_with_empty_parents_def parents_snoc dn then_also_def)
qed

lemma remove_all_laid_out:
  "laid_out D [] t \<Longrightarrow> antichain D \<Longrightarrow> set ps \<subseteq> D \<Longrightarrow> distinct ps \<Longrightarrow>
   \<exists>t' diffs. lay_all remove_with_empty_parents ps t = Some (t', diffs) \<and> laid_out (D - set ps) [] t'"
proof (induction ps arbitrary: D t)
  case (Cons p ps)
  then obtain t1 ds where t1: "remove_with_empty_parents p t = Some (t1, ds)" "laid_out (D - {p}) [] t1"
    using remove_laid_out [OF Cons.prems(1,2), of p] Cons.prems(3) by auto
  have "set ps \<subseteq> D - {p}" "antichain (D - {p})" using Cons.prems antichain_subset by auto
  with Cons.IH [OF t1(2)] Cons.prems(4) obtain t2 ds' where
    "lay_all remove_with_empty_parents ps t1 = Some (t2, ds')" "laid_out (D - {p} - set ps) [] t2" by auto
  moreover have "D - {p} - set ps = D - set (p # ps)" by auto
  ultimately show ?case using t1(1) by simp
qed simp

lemma add_all_laid_out:
  "laid_out D [] t \<Longrightarrow> antichain (D \<union> set ps) \<Longrightarrow> set ps \<inter> D = {} \<Longrightarrow> distinct ps \<Longrightarrow>
   \<exists>t' diffs. lay_all (add_placeholder now) ps t = Some (t', diffs) \<and> laid_out (D \<union> set ps) [] t'"
proof (induction ps arbitrary: D t)
  case (Cons p ps)
  have "antichain (insert p D)" by (rule antichain_subset [OF Cons.prems(2)]) auto
  then obtain t1 ds where t1: "add_placeholder now p t = Some (t1, ds)" "laid_out (insert p D) [] t1"
    using add_laid_out [OF Cons.prems(1), of p now] Cons.prems(3) by auto
  have "insert p D \<union> set ps = D \<union> set (p # ps)" "set ps \<inter> insert p D = {}" using Cons.prems by auto
  with Cons.IH [OF t1(2)] Cons.prems(2,4) obtain t2 ds' where
    "lay_all (add_placeholder now) ps t1 = Some (t2, ds')" "laid_out (D \<union> set (p # ps)) [] t2" by auto
  then show ?case using t1(1) by simp
qed simp

lemma apply_layout_ok:
  assumes "layout_ok D t" and "antichain D" and "antichain E"
    and "set removed = D - E" "distinct removed" "set added = E - D" "distinct added"
  shows "\<exists>t' diffs. apply_layout now removed added t = Some (t', diffs) \<and> layout_ok E t'"
proof -
  obtain t1 ds where t1: "lay_all remove_with_empty_parents removed t = Some (t1, ds)" "laid_out (D - set removed) [] t1"
    using remove_all_laid_out [of D t removed] assms by (auto simp: layout_ok_def)
  have "D - set removed = D \<inter> E" using assms(4) by auto
  with t1 have "laid_out (D \<inter> E) [] t1" by simp
  moreover have u: "D \<inter> E \<union> set added = E" using assms(6) by auto
  ultimately obtain t2 ds' where "lay_all (add_placeholder now) added t1 = Some (t2, ds')" "laid_out E [] t2"
    using add_all_laid_out [of "D \<inter> E" t1 added now] assms(3,6,7) by auto
  with t1(1) show ?thesis by (simp add: apply_layout_def layout_ok_def)
qed

lemma layout_new: "layout_ok {} mem_tree_new"
  unfolding layout_ok_def laid_out_def using mem_tree_new_ok by (auto simp: mem_tree_new_def)

end
