(* ===== verification/Build_Tree.thy ===== *)
theory Build_Tree
  imports Build_Layout
begin

text \<open>
  \<^verbatim>\<open>BuildDirectoryTree::Impl\<close> (\<^verbatim>\<open>src/builddirectorytree.cpp\<close>): the bookkeeping of the builds,
  and each section of its members under \<^verbatim>\<open>m_mutex\<close> as one function of it.  Sets of paths that
  are iterated are sorted lists; attempts are numbered in the order they are asked of the
  coordinator, whose own behaviour is modelled in \<open>Coordinator\<close>.  The spans and arrows that are
  traced are left out, and with them the origin of a launch.
\<close>

section \<open>State\<close>

record attempts =
  a_current :: "nat option"
  a_next :: "nat option"
  a_at_start :: nat

record btree =
  b_structure :: mem_tree
  b_source :: directory_tree
  b_rules :: "rule list"
  b_wildcards :: "string list list"
  b_commands :: commands
  b_stale :: "string list set"
  b_in_flight :: "string list set"
  b_attempts :: "string list \<Rightarrow> attempts option"
  b_reads :: "string list \<Rightarrow> string list list option"
  b_materialized :: "string list set"
  b_all :: bool
  b_last_build :: nat
  b_dependencies :: "string list \<Rightarrow> string list list option"
  b_dependents :: "string list \<Rightarrow> string list list"
  b_invalidations :: "string list \<Rightarrow> nat"
  b_hashes :: "string list \<Rightarrow> string option"
  b_created :: nat

record launch =
  u_output :: "string list"
  u_attempt :: nat
  u_command :: command
  u_build :: nat

definition declared :: "btree \<Rightarrow> string list \<Rightarrow> bool" where
  "declared b p \<longleftrightarrow> map_of (b_commands b) p \<noteq> None"

definition attempts_of :: "btree \<Rightarrow> string list \<Rightarrow> attempts" where
  "attempts_of b p = (case b_attempts b p of None \<Rightarrow> \<lparr>a_current = None, a_next = None, a_at_start = 0\<rparr> | Some a \<Rightarrow> a)"

section \<open>Starting builds\<close>

definition claim_build :: "string list \<Rightarrow> btree \<Rightarrow> btree \<times> launch" where
  "claim_build p b =
     (let a = attempts_of b p;
          (attempt, created) = (case a_next a of Some j \<Rightarrow> (j, b_created b) | None \<Rightarrow> (b_created b, Suc (b_created b)));
          command = the (map_of (b_commands b) p);
          build = (if o_action command = Tracing then 0 else Suc (b_last_build b))
      in (b\<lparr>b_created := created,
            b_attempts := (b_attempts b)(p \<mapsto> \<lparr>a_current = Some attempt, a_next = None, a_at_start = b_invalidations b p\<rparr>),
            b_stale := b_stale b - {p},
            b_in_flight := insert p (b_in_flight b),
            b_reads := (b_reads b)(p := Some (case b_reads b p of None \<Rightarrow> [] | Some r \<Rightarrow> r)),
            b_last_build := (if o_action command = Tracing then b_last_build b else Suc (b_last_build b))\<rparr>,
          \<lparr>u_output = p, u_attempt = attempt, u_command = command, u_build = build\<rparr>))"

text \<open>What an open waits for, and the build it starts, if any.\<close>

definition bring_up_to_date :: "string list \<Rightarrow> btree \<Rightarrow> btree \<times> nat option \<times> launch option" where
  "bring_up_to_date p b =
     (case map_of (b_commands b) p of
        None \<Rightarrow> (b, None, None)
      | Some command \<Rightarrow>
          (let b = b\<lparr>b_materialized := insert p (b_materialized b)\<rparr>;
               b = (if o_action command = Tracing \<and> p \<notin> b_in_flight b then b\<lparr>b_stale := insert p (b_stale b)\<rparr> else b);
               a = attempts_of b p;
               b = b\<lparr>b_attempts := (b_attempts b)(p \<mapsto> a)\<rparr>
           in if p \<in> b_in_flight b then
                (if p \<notin> b_stale b then (b, a_current a, None)
                 else (case a_next a of
                         Some j \<Rightarrow> (b, Some j, None)
                       | None \<Rightarrow> (b\<lparr>b_attempts := (b_attempts b)(p \<mapsto> a\<lparr>a_next := Some (b_created b)\<rparr>), b_created := Suc (b_created b)\<rparr>,
                           Some (b_created b), None)))
              else if p \<in> b_stale b then
                (case claim_build p b of (b, l) \<Rightarrow> (b, Some (u_attempt l), Some l))
              else (b, None, None)))"

definition start_build :: "string list \<Rightarrow> btree \<Rightarrow> btree \<times> launch option" where
  "start_build p b =
     (if p \<notin> b_stale b \<or> p \<in> b_in_flight b \<or> \<not> declared b p then (b, None)
      else (case claim_build p b of (b, l) \<Rightarrow> (b, Some l)))"

definition record_read :: "string list \<Rightarrow> string list \<Rightarrow> btree \<Rightarrow> btree" where
  "record_read reader p b =
     (case b_reads b reader of
        None \<Rightarrow> b
      | Some r \<Rightarrow> b\<lparr>b_reads := (b_reads b)(reader \<mapsto> insort_insert (as_input p) r)\<rparr>)"

definition materialize_all :: "btree \<Rightarrow> btree \<times> string list list" where
  "materialize_all b =
     (let ps = map fst (filter (\<lambda>(p, c). o_action c \<noteq> Tracing) (b_commands b)) in
      (b\<lparr>b_all := True, b_materialized := b_materialized b \<union> set ps\<rparr>, ps))"

text \<open>What serves a build: the trace, a copy made by the tree, or the runner.\<close>

datatype work = Serve_trace | Copy_output "string list" | Run_command command

definition work_of :: "launch \<Rightarrow> work" where
  "work_of l =
     (if o_action (u_command l) = Tracing then Serve_trace
      else if o_action (u_command l) = Copy \<and> starts_with (o_text (u_command l)) ''@/''
      then Copy_output (split_on (CHR ''/'') (drop 2 (o_text (u_command l))))
      else Run_command (u_command l))"

section \<open>What outputs read\<close>

definition drop_dependent :: "string list \<Rightarrow> string list \<Rightarrow> (string list \<Rightarrow> string list list) \<Rightarrow> (string list \<Rightarrow> string list list)" where
  "drop_dependent p input m = m(input := remove1 p (m input))"

definition add_dependent :: "string list \<Rightarrow> string list \<Rightarrow> (string list \<Rightarrow> string list list) \<Rightarrow> (string list \<Rightarrow> string list list)" where
  "add_dependent p input m = m(input := insort_insert p (m input))"

definition update_dependents :: "string list \<Rightarrow> string list list \<Rightarrow> btree \<Rightarrow> btree" where
  "update_dependents p inputs b =
     (let previous = (case b_dependencies b p of None \<Rightarrow> [] | Some i \<Rightarrow> i) in
      b\<lparr>b_dependents := fold (add_dependent p) inputs (fold (drop_dependent p) previous (b_dependents b)),
        b_dependencies := (b_dependencies b)(p \<mapsto> inputs)\<rparr>)"

definition add_reads :: "btree \<Rightarrow> string list \<Rightarrow> string list list \<Rightarrow> string list list" where
  "add_reads b p inputs = inputs @ (case b_reads b p of None \<Rightarrow> [] | Some r \<Rightarrow> r)"

section \<open>The end of a build\<close>

datatype outcome = Built string "string list list" | Broken error_code "string list list"

record keep =
  k_command :: command
  k_inputs :: "string list list"
  k_mtime :: int
  k_at_start :: nat

text \<open>A success, recorded while the layout is held; the content is written next if still declared.\<close>

definition record_success :: "(string \<Rightarrow> string) option \<Rightarrow> int \<Rightarrow> string list \<Rightarrow> string \<Rightarrow> string list list \<Rightarrow> btree \<Rightarrow>
    btree \<times> bool \<times> keep option" where
  "record_success cache now p bytes inputs b =
     (case map_of (b_commands b) p of
        None \<Rightarrow> (b, False, None)
      | Some command \<Rightarrow>
          (let inputs = add_reads b p inputs;
               keep = (if cache = None \<or> o_action command = Tracing then None
                       else Some \<lparr>k_command = command, k_inputs = inputs, k_mtime = now, k_at_start = a_at_start (attempts_of b p)\<rparr>);
               b = (case cache of None \<Rightarrow> b | Some hash \<Rightarrow> b\<lparr>b_hashes := (b_hashes b)(p \<mapsto> hash bytes)\<rparr>)
           in (update_dependents p inputs b, True, keep)))"

definition write_output :: "int \<Rightarrow> string list \<Rightarrow> string \<Rightarrow> btree \<Rightarrow> (btree \<times> tree_diff) option" where
  "write_output now p bytes b =
     map_option (\<lambda>(t, d). (b\<lparr>b_structure := t\<rparr>, d)) (mem_write_file (b_structure b) (generic_string p) bytes now)"

text \<open>What a failure read, kept as what the output depends on unless it read nothing.\<close>

definition record_failure :: "string list \<Rightarrow> outcome \<Rightarrow> btree \<Rightarrow> btree" where
  "record_failure p r b =
     (case r of
        Built bytes inputs \<Rightarrow> b
      | Broken e inputs \<Rightarrow>
          (if \<not> declared b p then b
           else (let inputs = add_reads b p inputs in if inputs \<noteq> [] then update_dependents p inputs b else b)))"

text \<open>The section that ends a build: the next one claimed, if any, and the attempt nothing will run.\<close>

definition finish_section :: "string list \<Rightarrow> outcome \<Rightarrow> btree \<Rightarrow> btree \<times> launch option \<times> nat option" where
  "finish_section p r b =
     (let b = record_failure p r b;
          b = b\<lparr>b_in_flight := b_in_flight b - {p}, b_reads := (b_reads b)(p := None)\<rparr>;
          waited_on = (case b_attempts b p of None \<Rightarrow> False | Some a \<Rightarrow> a_next a \<noteq> None)
      in if \<not> declared b p then
           (b\<lparr>b_attempts := (b_attempts b)(p := None)\<rparr>, None, (case b_attempts b p of None \<Rightarrow> None | Some a \<Rightarrow> a_next a))
         else
           (let changed = (p \<in> b_stale b);
                stopped = (case r of Built _ _ \<Rightarrow> False | Broken e _ \<Rightarrow> e = Operation_canceled);
                b = (case r of Built _ _ \<Rightarrow> b | Broken _ _ \<Rightarrow> b\<lparr>b_stale := insert p (b_stale b)\<rparr>);
                rebuild = (waited_on \<or> changed \<and> \<not> stopped \<and> p \<in> b_materialized b)
            in if rebuild then (case claim_build p b of (b, l) \<Rightarrow> (b, Some l, None)) else (b, None, None)))"

definition error_of :: "outcome \<Rightarrow> error_code" where
  "error_of r = (case r of Built _ _ \<Rightarrow> No_error | Broken e _ \<Rightarrow> e)"

section \<open>The rules\<close>

fun climb :: "string list list \<Rightarrow> string list list \<Rightarrow> string list list" where
  "climb dirs [] = dirs"
| "climb dirs (d # ds) = (if d \<in> set dirs then dirs else climb (dirs @ [d]) ds)"

text \<open>A directory and those above it, the root last.\<close>

definition with_parents :: "string list \<Rightarrow> string list list" where
  "with_parents d = map (\<lambda>k. take k d) (rev [0..<Suc (length d)])"

definition wildcard_directories :: "rule list \<Rightarrow> string list list" where
  "wildcard_directories rules =
     fold (\<lambda>r dirs. if is_wildcard r then climb dirs (with_parents (butlast (r_wildcard_source r))) else dirs) rules []"

definition set_rules :: "nat \<Rightarrow> rule list \<Rightarrow> btree \<Rightarrow> btree \<times> commands option" where
  "set_rules fuel rules b =
     (b\<lparr>b_rules := rules, b_wildcards := wildcard_directories rules\<rparr>, expand_rules fuel (b_source b) rules)"

definition reload_manifest :: "(error_code \<Rightarrow> string) \<Rightarrow> nat \<Rightarrow> btree \<Rightarrow> btree \<times> commands option \<times> string option" where
  "reload_manifest message fuel b =
     (case read_rules message fuel (b_source b) of
        None \<Rightarrow> (b, None, None)
      | Some (Inl why) \<Rightarrow> (b, None, Some why)
      | Some (Inr rules) \<Rightarrow> (case set_rules fuel rules b of (b, cs) \<Rightarrow> (b, cs, None)))"

text \<open>What a change of the source does to the rules: new commands to apply, or none.\<close>

definition rules_after_change :: "(error_code \<Rightarrow> string) \<Rightarrow> nat \<Rightarrow> tree_diff \<Rightarrow> btree \<Rightarrow> btree \<times> commands option \<times> string option" where
  "rules_after_change message fuel diff b =
     (if everything_dirty diff \<or> [manifest_name] \<in> set (entries_changed diff) then reload_manifest message fuel b
      else if \<exists>d \<in> set (child_lists_changed diff). d \<in> set (b_wildcards b)
      then (b, expand_rules fuel (b_source b) (b_rules b), None)
      else (b, None, None))"

text \<open>The section that takes new commands.\<close>

definition forget_output :: "string list \<Rightarrow> btree \<Rightarrow> btree" where
  "forget_output p b =
     (let b = b\<lparr>b_stale := b_stale b - {p}, b_materialized := b_materialized b - {p},
                b_hashes := (b_hashes b)(p := None), b_invalidations := (b_invalidations b)(p := Suc (b_invalidations b p)),
                b_attempts := (if p \<in> b_in_flight b then b_attempts b else (b_attempts b)(p := None))\<rparr>;
          b = update_dependents p [] b
      in b\<lparr>b_dependencies := (b_dependencies b)(p := None)\<rparr>)"

definition added_outputs :: "commands \<Rightarrow> btree \<Rightarrow> string list list" where
  "added_outputs new b = filter (\<lambda>p. map_of (b_commands b) p = None) (map fst new)"

definition removed_outputs :: "commands \<Rightarrow> btree \<Rightarrow> string list list" where
  "removed_outputs new b = filter (\<lambda>p. map_of new p = None) (map fst (b_commands b))"

definition changed_outputs :: "commands \<Rightarrow> btree \<Rightarrow> string list list" where
  "changed_outputs new b = map fst (filter (\<lambda>(p, c).
     case map_of (b_commands b) p of None \<Rightarrow> b_all b \<and> o_action c \<noteq> Tracing | Some c' \<Rightarrow> c' \<noteq> c) new)"

definition apply_commands :: "commands \<Rightarrow> btree \<Rightarrow> btree" where
  "apply_commands new b =
     (let added = added_outputs new b;
          eager = filter (\<lambda>p. b_all b \<and> o_action (the (map_of new p)) \<noteq> Tracing) added;
          removed = removed_outputs new b;
          b = b\<lparr>b_stale := b_stale b \<union> set added, b_materialized := b_materialized b \<union> set eager\<rparr>;
          b = fold forget_output removed b
      in b\<lparr>b_commands := new\<rparr>)"

definition lay_out :: "int \<Rightarrow> string list list \<Rightarrow> string list list \<Rightarrow> btree \<Rightarrow> (btree \<times> tree_diff list) option" where
  "lay_out now removed added b =
     map_option (\<lambda>(t, ds). (b\<lparr>b_structure := t\<rparr>, ds)) (apply_layout now removed added (b_structure b))"

definition readers_of :: "btree \<Rightarrow> string list list \<Rightarrow> string list list" where
  "readers_of b ps = concat (map (\<lambda>p. b_dependents b (as_input p)) ps)"

section \<open>Changes\<close>

definition affected :: "tree_diff \<Rightarrow> btree \<Rightarrow> string list list" where
  "affected diff b =
     (if everything_dirty diff then map fst (b_commands b)
      else concat (map (b_dependents b) (entries_changed diff)))"

text \<open>
  The loop over what has gone stale, with everything that read it: the last of the list to look
  at first, and what was seen in that order.
\<close>

function stale_loop :: "btree \<Rightarrow> string list list \<Rightarrow> string list list \<Rightarrow> string list list" where
  "stale_loop b [] seen = seen"
| "stale_loop b (p # ps) seen =
     (if \<not> declared b p \<or> p \<in> set seen then stale_loop b ps seen
      else stale_loop b (rev (b_dependents b (as_input p)) @ ps) (seen @ [p]))"
  by pat_completeness auto
termination
proof (relation "inv_image (less_than <*lex*> less_than)
    (\<lambda>(b, ps, seen). (card (set (map fst (b_commands b)) - set seen), length ps))")
  fix b p ps and seen :: "string list list"
  assume "\<not> (\<not> declared b p \<or> p \<in> set seen)"
  then have "p \<in> set (map fst (b_commands b)) - set seen"
    by (auto simp: declared_def dest!: map_of_SomeD) (metis fst_conv image_eqI)
  then have "card (set (map fst (b_commands b)) - set (seen @ [p])) < card (set (map fst (b_commands b)) - set seen)"
    by (intro psubset_card_mono) auto
  then show "((b, rev (b_dependents b (as_input p)) @ ps, seen @ [p]), b, p # ps, seen)
      \<in> inv_image (less_than <*lex*> less_than) (\<lambda>(b, ps, seen). (card (set (map fst (b_commands b)) - set seen), length ps))"
    by simp
qed auto

definition invalidate :: "string list list \<Rightarrow> btree \<Rightarrow> btree \<times> string list list \<times> string list list" where
  "invalidate ps b =
     (let seen = stale_loop b (rev ps) [] in
      (b\<lparr>b_stale := b_stale b \<union> set seen,
         b_invalidations := (\<lambda>p. if p \<in> set seen then Suc (b_invalidations b p) else b_invalidations b p)\<rparr>,
       seen, filter (\<lambda>p. p \<in> b_materialized b \<and> p \<notin> b_in_flight b) seen))"

section \<open>Notifications\<close>

text \<open>What is passed on of a change of the tree: not the rewrite of a trace.\<close>

definition is_trace_rewrite :: "btree \<Rightarrow> tree_diff \<Rightarrow> string list \<Rightarrow> bool" where
  "is_trace_rewrite b diff p \<longleftrightarrow> (case map_of (b_commands b) p of
     None \<Rightarrow> False | Some c \<Rightarrow> o_action c = Tracing \<and> butlast p \<notin> set (child_lists_changed diff))"

definition passed_on :: "btree \<Rightarrow> tree_diff \<Rightarrow> tree_diff option" where
  "passed_on b diff =
     (if everything_dirty diff then Some diff
      else
        (let filtered = (if \<forall>p \<in> set (entries_changed diff). \<not> is_trace_rewrite b diff p then diff
               else no_diff\<lparr>child_lists_changed := child_lists_changed diff,
                      entries_changed := filter (\<lambda>p. \<not> is_trace_rewrite b diff p) (entries_changed diff)\<rparr>)
         in if entries_changed filtered \<noteq> [] \<or> child_lists_changed filtered \<noteq> [] then Some filtered else None))"

end
