(* ===== verification/Build_Machine.thy ===== *)
theory Build_Machine
  imports Build_Tree
begin

text \<open>
  The threads of \<^verbatim>\<open>BuildDirectoryTree::Impl\<close> (\<^verbatim>\<open>src/builddirectorytree.cpp\<close>) as a machine.  Each
  section under \<open>m_mutex\<close> is one move and moves come in any order; what a thread holds between
  two of its sections is in the phase of its build.  \<open>m_layout_mutex\<close> is the holder of the
  layout, the coordinator the list of attempts it was told are complete, the cache the list of
  builds it was given to keep.  How a build ends is up to whoever moves.
\<close>

section \<open>State\<close>

datatype phase =
    Running
  | Recorded int string "string list list" bool "keep option"
  | Written outcome "keep option"
  | Finished outcome "nat option" "launch option" "keep option"
  | Answered outcome "launch option" "keep option"
  | Done outcome

record build_run =
  n_launch :: launch
  n_phase :: phase

datatype holder = Free | Build nat | Rules "string list list" "string list list"

record machine =
  m_tree :: btree
  m_holder :: holder
  m_runs :: "build_run list"
  m_answers :: "(nat \<times> error_code) list"
  m_kept :: "(string list \<times> string \<times> keep) list"

datatype move =
    Open "string list"
  | Start "string list"
  | Read "string list" "string list"
  | Succeed nat int string "string list list"
  | Write nat
  | Fail nat error_code "string list list"
  | End_build nat
  | Answer nat
  | Move_on nat
  | Take_rules commands
  | Lay int
  | Invalidate "string list list"
  | Materialize

definition btree_new :: "directory_tree \<Rightarrow> btree" where
  "btree_new source = \<lparr>b_structure = mem_tree_new, b_source = source, b_rules = [], b_wildcards = [], b_commands = [],
     b_stale = {}, b_in_flight = {}, b_attempts = (\<lambda>p. None), b_reads = (\<lambda>p. None), b_materialized = {}, b_all = False,
     b_last_build = 0, b_dependencies = (\<lambda>p. None), b_dependents = (\<lambda>p. []), b_invalidations = (\<lambda>p. 0),
     b_hashes = (\<lambda>p. None), b_created = 0\<rparr>"

definition machine_new :: "directory_tree \<Rightarrow> machine" where
  "machine_new source = \<lparr>m_tree = btree_new source, m_holder = Free, m_runs = [], m_answers = [], m_kept = []\<rparr>"

section \<open>Moves\<close>

fun launched :: "launch option \<Rightarrow> build_run list" where
  "launched None = []"
| "launched (Some l) = [\<lparr>n_launch = l, n_phase = Running\<rparr>]"

definition set_phase :: "nat \<Rightarrow> phase \<Rightarrow> machine \<Rightarrow> machine" where
  "set_phase i ph m = m\<lparr>m_runs := (m_runs m)[i := (m_runs m ! i)\<lparr>n_phase := ph\<rparr>]\<rparr>"

definition open_move :: "string list \<Rightarrow> machine \<Rightarrow> machine" where
  "open_move p m =
     (let r = bring_up_to_date p (m_tree m) in m\<lparr>m_tree := fst r, m_runs := m_runs m @ launched (snd (snd r))\<rparr>)"

definition start_move :: "string list \<Rightarrow> machine \<Rightarrow> machine" where
  "start_move p m = (let r = start_build p (m_tree m) in m\<lparr>m_tree := fst r, m_runs := m_runs m @ launched (snd r)\<rparr>)"

text \<open>The first half of \<^verbatim>\<open>finish_build\<close> for a success: the layout is taken until \<open>write_move\<close>.\<close>

definition succeed_move :: "(string \<Rightarrow> string) option \<Rightarrow> nat \<Rightarrow> int \<Rightarrow> string \<Rightarrow> string list list \<Rightarrow> machine \<Rightarrow> machine option" where
  "succeed_move cache i now bytes inputs m =
     (if i < length (m_runs m) \<and> n_phase (m_runs m ! i) = Running \<and> m_holder m = Free then
        (let r = record_success cache now (u_output (n_launch (m_runs m ! i))) bytes inputs (m_tree m) in
         Some (set_phase i (Recorded now bytes inputs (fst (snd r)) (snd (snd r))) (m\<lparr>m_tree := fst r, m_holder := Build i\<rparr>)))
      else None)"

definition write_move :: "nat \<Rightarrow> machine \<Rightarrow> machine option" where
  "write_move i m =
     (if i < length (m_runs m) then
        (case n_phase (m_runs m ! i) of
           Recorded now bytes inputs wanted keep \<Rightarrow>
             (if wanted then
                map_option (\<lambda>(b, d). set_phase i (Written (Built bytes inputs) keep) (m\<lparr>m_tree := b, m_holder := Free\<rparr>))
                  (write_output now (u_output (n_launch (m_runs m ! i))) bytes (m_tree m))
              else Some (set_phase i (Written (Built bytes inputs) keep) (m\<lparr>m_holder := Free\<rparr>)))
         | _ \<Rightarrow> None)
      else None)"

definition fail_move :: "nat \<Rightarrow> error_code \<Rightarrow> string list list \<Rightarrow> machine \<Rightarrow> machine option" where
  "fail_move i e inputs m =
     (if i < length (m_runs m) \<and> n_phase (m_runs m ! i) = Running
      then Some (set_phase i (Written (Broken e inputs) None) m) else None)"

definition end_move :: "nat \<Rightarrow> machine \<Rightarrow> machine option" where
  "end_move i m =
     (if i < length (m_runs m) then
        (case n_phase (m_runs m ! i) of
           Written r keep \<Rightarrow>
             (let f = finish_section (u_output (n_launch (m_runs m ! i))) r (m_tree m) in
              Some (set_phase i (Finished r (snd (snd f)) (fst (snd f)) keep) (m\<lparr>m_tree := fst f\<rparr>)))
         | _ \<Rightarrow> None)
      else None)"

text \<open>The waiters of the attempt are told, then those of the attempt nothing will run.\<close>

definition answer_move :: "nat \<Rightarrow> machine \<Rightarrow> machine option" where
  "answer_move i m =
     (if i < length (m_runs m) then
        (case n_phase (m_runs m ! i) of
           Finished r orphan next keep \<Rightarrow>
             Some (set_phase i (Answered r next keep)
               (m\<lparr>m_answers := m_answers m @ (u_attempt (n_launch (m_runs m ! i)), error_of r) #
                   (case orphan of None \<Rightarrow> [] | Some j \<Rightarrow> [(j, No_such_file_or_directory)])\<rparr>))
         | _ \<Rightarrow> None)
      else None)"

definition move_on :: "nat \<Rightarrow> machine \<Rightarrow> machine option" where
  "move_on i m =
     (if i < length (m_runs m) then
        (case n_phase (m_runs m ! i) of
           Answered r next keep \<Rightarrow>
             (let m' = set_phase i (Done r) m in
              Some (m'\<lparr>m_runs := m_runs m' @ launched next,
                       m_kept := m_kept m @ (case (r, keep) of
                         (Built bytes inputs, Some k) \<Rightarrow> [(u_output (n_launch (m_runs m ! i)), bytes, k)] | _ \<Rightarrow> [])\<rparr>))
         | _ \<Rightarrow> None)
      else None)"

text \<open>New commands are those of an accepted manifest: one for each output, no output above another.\<close>

definition take_rules :: "commands \<Rightarrow> machine \<Rightarrow> machine option" where
  "take_rules new m =
     (if m_holder m = Free then
        Some (m\<lparr>m_tree := apply_commands new (m_tree m),
                m_holder := Rules (removed_outputs new (m_tree m)) (added_outputs new (m_tree m))\<rparr>)
      else None)"

definition lay_move :: "int \<Rightarrow> machine \<Rightarrow> machine option" where
  "lay_move now m =
     (case m_holder m of
        Rules removed added \<Rightarrow>
          map_option (\<lambda>(b, ds). m\<lparr>m_tree := b, m_holder := Free\<rparr>) (lay_out now removed added (m_tree m))
      | _ \<Rightarrow> None)"

definition invalidate_move :: "string list list \<Rightarrow> machine \<Rightarrow> machine" where
  "invalidate_move ps m = m\<lparr>m_tree := fst (invalidate ps (m_tree m))\<rparr>"

fun build_move :: "(string \<Rightarrow> string) option \<Rightarrow> move \<Rightarrow> machine \<Rightarrow> machine option" where
  "build_move cache (Open p) m = Some (open_move p m)"
| "build_move cache (Start p) m = Some (start_move p m)"
| "build_move cache (Read reader p) m = Some (m\<lparr>m_tree := record_read reader p (m_tree m)\<rparr>)"
| "build_move cache (Succeed i now bytes inputs) m = succeed_move cache i now bytes inputs m"
| "build_move cache (Write i) m = write_move i m"
| "build_move cache (Fail i e inputs) m = fail_move i e inputs m"
| "build_move cache (End_build i) m = end_move i m"
| "build_move cache (Answer i) m = answer_move i m"
| "build_move cache (Move_on i) m = move_on i m"
| "build_move cache (Take_rules new) m = take_rules new m"
| "build_move cache (Lay now) m = lay_move now m"
| "build_move cache (Invalidate ps) m = Some (invalidate_move ps m)"
| "build_move cache Materialize m = Some (m\<lparr>m_tree := fst (materialize_all (m_tree m))\<rparr>)"

fun proper_move :: "move \<Rightarrow> bool" where
  "proper_move (Take_rules new) = (distinct (map fst new) \<and> antichain (set (map fst new)))"
| "proper_move mv = True"

inductive machine_reached :: "(string \<Rightarrow> string) option \<Rightarrow> directory_tree \<Rightarrow> machine \<Rightarrow> bool" for cache source where
  start: "machine_reached cache source (machine_new source)"
| move: "machine_reached cache source m \<Longrightarrow> proper_move mv \<Longrightarrow> build_move cache mv m = Some m' \<Longrightarrow>
    machine_reached cache source m'"

fun moves :: "(string \<Rightarrow> string) option \<Rightarrow> move list \<Rightarrow> machine \<Rightarrow> machine option" where
  "moves cache [] m = Some m"
| "moves cache (mv # mvs) m = (case build_move cache mv m of None \<Rightarrow> None | Some m' \<Rightarrow> moves cache mvs m')"

lemma moves_reached:
  "machine_reached cache source m \<Longrightarrow> list_all proper_move mvs \<Longrightarrow> moves cache mvs m = Some m' \<Longrightarrow>
   machine_reached cache source m'"
  by (induction mvs arbitrary: m) (auto split: option.splits intro: machine_reached.move)

section \<open>What builds hold\<close>

fun claims_of :: "phase \<Rightarrow> launch \<Rightarrow> launch list" where
  "claims_of Running l = [l]"
| "claims_of (Recorded now bytes inputs d k) l = [l]"
| "claims_of (Written r k) l = [l]"
| "claims_of (Finished r orphan next k) l = (case next of None \<Rightarrow> [] | Some l' \<Rightarrow> [l'])"
| "claims_of (Answered r next k) l = (case next of None \<Rightarrow> [] | Some l' \<Rightarrow> [l'])"
| "claims_of (Done r) l = []"

text \<open>The attempts that a build has yet to answer.\<close>

fun owed_by :: "phase \<Rightarrow> launch \<Rightarrow> nat list" where
  "owed_by (Finished r orphan next k) l =
     u_attempt l # (case orphan of None \<Rightarrow> [] | Some j \<Rightarrow> [j]) @ (case next of None \<Rightarrow> [] | Some l' \<Rightarrow> [u_attempt l'])"
| "owed_by ph l = map u_attempt (claims_of ph l)"

definition claims :: "machine \<Rightarrow> launch list" where
  "claims m = concat (map (\<lambda>r. claims_of (n_phase r) (n_launch r)) (m_runs m))"

definition owed :: "machine \<Rightarrow> nat list" where
  "owed m = concat (map (\<lambda>r. owed_by (n_phase r) (n_launch r)) (m_runs m))"

definition next_of :: "btree \<Rightarrow> string list \<Rightarrow> nat option" where
  "next_of b p = a_next (attempts_of b p)"

definition current_of :: "btree \<Rightarrow> string list \<Rightarrow> nat option" where
  "current_of b p = a_current (attempts_of b p)"

end
