(* ===== verification/Build_Accounts.thy ===== *)
theory Build_Accounts
  imports Build_Machine
begin

text \<open>
  The books of the builds: every output in flight has exactly one build, whose attempt is the
  current one of the output; every attempt ever created has been answered, is owed by exactly one
  build, or is the next of an output in flight.  Kept by every move, in any order of moves.
\<close>

section \<open>The books\<close>

definition flights_ok :: "string list set \<Rightarrow> (string list \<Rightarrow> nat option) \<Rightarrow> (string list \<Rightarrow> nat option) \<Rightarrow> launch list \<Rightarrow> bool" where
  "flights_ok F N C cs \<longleftrightarrow> distinct (map u_output cs) \<and> u_output ` set cs = F \<and>
     (\<forall>l \<in> set cs. C (u_output l) = Some (u_attempt l)) \<and> (\<forall>p j. N p = Some j \<longrightarrow> p \<in> F)"

text \<open>\<open>os\<close> are the attempts answered or owed.\<close>

definition accounts_ok :: "(string list \<Rightarrow> nat option) \<Rightarrow> nat \<Rightarrow> nat list \<Rightarrow> bool" where
  "accounts_ok N n os \<longleftrightarrow> distinct os \<and> (\<forall>p q j. N p = Some j \<longrightarrow> N q = Some j \<longrightarrow> p = q) \<and>
     (\<forall>p j. N p = Some j \<longrightarrow> j \<notin> set os) \<and> (\<forall>j. j < n \<longleftrightarrow> j \<in> set os \<or> (\<exists>p. N p = Some j))"

lemma flights_perm: "mset cs = mset cs' \<Longrightarrow> flights_ok F N C cs = flights_ok F N C cs'"
  unfolding flights_ok_def
  using mset_eq_imp_distinct_iff [of "map u_output cs" "map u_output cs'"] mset_eq_setD [of cs cs'] by simp

lemma accounts_perm: "mset xs = mset ys \<Longrightarrow> accounts_ok N n xs = accounts_ok N n ys"
  unfolding accounts_ok_def using mset_eq_imp_distinct_iff [of xs ys] mset_eq_setD [of xs ys] by simp

definition attempt_for :: "nat option \<Rightarrow> nat \<Rightarrow> nat" where
  "attempt_for next n = (case next of None \<Rightarrow> n | Some j \<Rightarrow> j)"

definition created_for :: "nat option \<Rightarrow> nat \<Rightarrow> nat" where
  "created_for next n = (case next of None \<Rightarrow> Suc n | Some j \<Rightarrow> n)"

lemma flights_claim:
  assumes "flights_ok F N C cs" and "u_output l \<notin> F"
  shows "flights_ok (insert (u_output l) F) (N(u_output l := None)) (C(u_output l \<mapsto> u_attempt l)) (l # cs)"
  using assms unfolding flights_ok_def by (auto simp: image_iff) metis

lemma flights_release:
  assumes "flights_ok F N C (l # cs)"
  shows "flights_ok (F - {u_output l}) (N(u_output l := None)) C cs"
  using assms unfolding flights_ok_def by (auto simp: image_iff)

lemma flights_next: "flights_ok F N C cs \<Longrightarrow> p \<in> F \<Longrightarrow> flights_ok F (N(p \<mapsto> n)) C cs"
  unfolding flights_ok_def by auto

lemma accounts_claim:
  assumes "accounts_ok N n os"
  shows "accounts_ok (N(p := None)) (created_for (N p) n) (attempt_for (N p) n # os)"
proof (cases "N p")
  case None
  then have "N(p := None) = N" by auto
  moreover have "n \<notin> set os" "N q \<noteq> Some n" for q using assms unfolding accounts_ok_def by blast+
  ultimately show ?thesis using assms None
    unfolding accounts_ok_def attempt_for_def created_for_def by (auto simp: less_Suc_eq)
next
  case (Some j)
  then have "j \<notin> set os" "\<And>q. N q = Some j \<Longrightarrow> q = p" using assms unfolding accounts_ok_def by blast+
  moreover have "i < n \<longleftrightarrow> i \<in> set (j # os) \<or> (\<exists>q. (N(p := None)) q = Some i)" for i
  proof -
    have "i < n \<longleftrightarrow> i \<in> set os \<or> (\<exists>q. N q = Some i)" using assms unfolding accounts_ok_def by blast
    moreover have "(\<exists>q. N q = Some i) \<longleftrightarrow> i = j \<or> (\<exists>q. (N(p := None)) q = Some i)"
      using Some by (metis fun_upd_apply option.discI option.inject)
    ultimately show ?thesis by auto
  qed
  ultimately show ?thesis using assms Some
    unfolding accounts_ok_def attempt_for_def created_for_def by (auto split: if_splits)
qed

lemma accounts_orphan:
  assumes "accounts_ok N n os"
  shows "accounts_ok (N(p := None)) n ((case N p of None \<Rightarrow> [] | Some j \<Rightarrow> [j]) @ os)"
proof (cases "N p")
  case None
  then have "N(p := None) = N" by auto
  with assms None show ?thesis by simp
next
  case (Some j)
  with accounts_claim [OF assms, of p] show ?thesis by (simp add: created_for_def attempt_for_def)
qed

lemma accounts_next:
  assumes "accounts_ok N n os" and "N p = None"
  shows "accounts_ok (N(p \<mapsto> n)) (Suc n) os"
proof -
  have "n \<notin> set os" "N q \<noteq> Some n" for q using assms(1) unfolding accounts_ok_def by blast+
  moreover have "(\<exists>q. (N(p \<mapsto> n)) q = Some i) \<longleftrightarrow> i = n \<or> (\<exists>q. N q = Some i)" for i
    using assms(2) by (metis fun_upd_apply option.discI option.inject)
  ultimately show ?thesis using assms unfolding accounts_ok_def by (auto simp: less_Suc_eq split: if_splits)
qed

section \<open>The sections of the tree, in the books\<close>

lemma next_of_upd: "next_of (b\<lparr>b_attempts := (b_attempts b)(p \<mapsto> a)\<rparr>) = (next_of b)(p := a_next a)"
  "current_of (b\<lparr>b_attempts := (b_attempts b)(p \<mapsto> a)\<rparr>) = (current_of b)(p := a_current a)"
  by (auto simp: next_of_def current_of_def attempts_of_def)

lemma same_attempts:
  "b_attempts b' = b_attempts b \<Longrightarrow> next_of b' = next_of b" "b_attempts b' = b_attempts b \<Longrightarrow> current_of b' = current_of b"
  by (auto simp: next_of_def current_of_def attempts_of_def fun_eq_iff)

lemma claim_books:
  assumes "claim_build p b = (b', l)"
  shows "u_output l = p" "u_attempt l = attempt_for (next_of b p) (b_created b)"
    "b_created b' = created_for (next_of b p) (b_created b)" "next_of b' = (next_of b)(p := None)"
    "current_of b' = (current_of b)(p \<mapsto> u_attempt l)" "b_in_flight b' = insert p (b_in_flight b)"
    "b_stale b' = b_stale b - {p}" "b_commands b' = b_commands b" "b_structure b' = b_structure b"
    "b_dependencies b' = b_dependencies b" "b_dependents b' = b_dependents b"
  using assms
  by (auto simp: claim_build_def Let_def attempt_for_def created_for_def next_of_def current_of_def attempts_of_def fun_eq_iff
      split: option.splits)

definition books_ok :: "btree \<Rightarrow> launch list \<Rightarrow> nat list \<Rightarrow> bool" where
  "books_ok b cs os \<longleftrightarrow> flights_ok (b_in_flight b) (next_of b) (current_of b) cs \<and> accounts_ok (next_of b) (b_created b) os"

lemma books_same:
  assumes "books_ok b cs os" and "b_attempts b' = b_attempts b" and "b_in_flight b' = b_in_flight b" and "b_created b' = b_created b"
  shows "books_ok b' cs os"
  using assms same_attempts [of b' b] by (simp add: books_ok_def)

lemma books_perm: "mset cs = mset cs' \<Longrightarrow> mset os = mset os' \<Longrightarrow> books_ok b cs os = books_ok b cs' os'"
  unfolding books_ok_def using flights_perm accounts_perm by metis

lemma books_reorder: "books_ok b cs os \<Longrightarrow> b' = b \<Longrightarrow> mset cs = mset cs' \<Longrightarrow> mset os = mset os' \<Longrightarrow> books_ok b' cs' os'"
  using books_perm by blast

lemma books_claim:
  assumes "books_ok b cs os" and "p \<notin> b_in_flight b" and c: "claim_build p b = (b', l)"
  shows "books_ok b' (l # cs) (u_attempt l # os)"
  using assms flights_claim [of _ _ _ cs l] accounts_claim [of "next_of b" "b_created b" os p]
  by (simp add: books_ok_def claim_books [OF c])

definition opt_list :: "'a option \<Rightarrow> 'a list" where
  "opt_list x = (case x of None \<Rightarrow> [] | Some y \<Rightarrow> [y])"

lemma opt_list_simps [simp]: "opt_list None = []" "opt_list (Some y) = [y]"
  by (simp_all add: opt_list_def)

lemma touch_attempts: "next_of (b\<lparr>b_attempts := (b_attempts b)(p \<mapsto> attempts_of b p)\<rparr>) = next_of b"
  "current_of (b\<lparr>b_attempts := (b_attempts b)(p \<mapsto> attempts_of b p)\<rparr>) = current_of b"
  by (auto simp: next_of_def current_of_def attempts_of_def fun_eq_iff)

text \<open>The part of an open before it is known whether a build is under way.\<close>

definition touched :: "string list \<Rightarrow> command \<Rightarrow> btree \<Rightarrow> btree" where
  "touched p command b =
     b\<lparr>b_materialized := insert p (b_materialized b),
       b_stale := (if o_action command = Tracing \<and> p \<notin> b_in_flight b then insert p (b_stale b) else b_stale b),
       b_attempts := (b_attempts b)(p \<mapsto> attempts_of b p)\<rparr>"

lemma touched_same [simp]:
  "b_in_flight (touched p c b) = b_in_flight b" "b_created (touched p c b) = b_created b"
  "next_of (touched p c b) = next_of b" "current_of (touched p c b) = current_of b"
  "b_commands (touched p c b) = b_commands b" "b_structure (touched p c b) = b_structure b"
  "b_dependencies (touched p c b) = b_dependencies b" "b_dependents (touched p c b) = b_dependents b"
  by (auto simp: touched_def next_of_def current_of_def attempts_of_def fun_eq_iff)

lemma touched_stale: "b_stale b \<subseteq> b_stale (touched p c b)" "b_stale (touched p c b) \<subseteq> insert p (b_stale b)"
  "p \<in> b_in_flight b \<Longrightarrow> b_stale (touched p c b) = b_stale b"
  by (auto simp: touched_def)

lemma bring_up_to_date_touched:
  assumes "map_of (b_commands b) p = Some c"
  shows "bring_up_to_date p b =
    (let b = touched p c b in
     if p \<in> b_in_flight b then
       (if p \<notin> b_stale b then (b, current_of b p, None)
        else (case next_of b p of
                Some j \<Rightarrow> (b, Some j, None)
              | None \<Rightarrow> (b\<lparr>b_attempts := (b_attempts b)(p \<mapsto> (attempts_of b p)\<lparr>a_next := Some (b_created b)\<rparr>), b_created := Suc (b_created b)\<rparr>,
                         Some (b_created b), None)))
     else if p \<in> b_stale b then (let r = claim_build p b in (fst r, Some (u_attempt (snd r)), Some (snd r)))
     else (b, None, None))"
proof -
  have a: "attempts_of (b\<lparr>b_materialized := M, b_stale := S, b_attempts := (b_attempts b)(p \<mapsto> attempts_of b p)\<rparr>) p = attempts_of b p" for M S
    by (simp add: attempts_of_def)
  show ?thesis
    using assms unfolding bring_up_to_date_def touched_def next_of_def current_of_def
    by (auto simp: Let_def attempts_of_def split: option.splits prod.splits)
qed

lemma attempts_of_fresh: "attempts_of (b\<lparr>b_attempts := (b_attempts b)(p \<mapsto> a), b_created := n\<rparr>) = (attempts_of b)(p := a)"
  by (auto simp: attempts_of_def fun_eq_iff)

lemma books_touched: "books_ok b cs os \<Longrightarrow> books_ok (touched p c b) cs os"
  by (simp add: books_ok_def)

lemma books_open:
  assumes ok: "books_ok b cs os" and "bring_up_to_date p b = (b', target, u)"
  shows "books_ok b' (opt_list u @ cs) (map u_attempt (opt_list u) @ os)"
proof (cases "map_of (b_commands b) p")
  case None
  with assms show ?thesis by (simp add: bring_up_to_date_def)
next
  case (Some c)
  let ?b = "touched p c b"
  have t: "books_ok ?b cs os" by (rule books_touched [OF ok])
  note r = assms(2) [unfolded bring_up_to_date_touched [OF Some] Let_def]
  show ?thesis
  proof (cases "p \<in> b_in_flight ?b")
    case True
    show ?thesis
    proof (cases "p \<in> b_stale ?b \<and> next_of ?b p = None")
      case fresh: True
      then have b': "b' = ?b\<lparr>b_attempts := (b_attempts ?b)(p \<mapsto> (attempts_of ?b p)\<lparr>a_next := Some (b_created ?b)\<rparr>), b_created := Suc (b_created ?b)\<rparr>" "u = None"
        using r True by auto
      have "next_of b' = (next_of ?b)(p \<mapsto> b_created ?b)" "current_of b' = current_of ?b"
        unfolding b'(1) next_of_def current_of_def attempts_of_fresh by (simp_all add: fun_eq_iff)
      then show ?thesis
        using t True fresh b'(2) flights_next accounts_next by (auto simp: books_ok_def b'(1))
    next
      case False
      with r True t show ?thesis by (auto split: if_splits option.splits)
    qed
  next
    case False
    show ?thesis
    proof (cases "p \<in> b_stale ?b")
      case True
      have "claim_build p ?b = (b', snd (claim_build p ?b))" "u = Some (snd (claim_build p ?b))"
        using r False True by (auto simp: prod_eq_iff)
      with books_claim [OF t False this(1)] show ?thesis by simp
    next
      case fresh: False
      with r False t show ?thesis by auto
    qed
  qed
qed

lemma books_start:
  assumes "books_ok b cs os" and "start_build p b = (b', u)"
  shows "books_ok b' (opt_list u @ cs) (map u_attempt (opt_list u) @ os)"
  using assms books_claim [OF assms(1)]
  by (auto simp: start_build_def split: if_splits prod.splits)

lemma update_dependents_same [simp]:
  "b_attempts (update_dependents p i b) = b_attempts b" "b_in_flight (update_dependents p i b) = b_in_flight b"
  "b_created (update_dependents p i b) = b_created b" "b_commands (update_dependents p i b) = b_commands b"
  "b_stale (update_dependents p i b) = b_stale b" "b_structure (update_dependents p i b) = b_structure b"
  "b_materialized (update_dependents p i b) = b_materialized b"
  by (simp_all add: update_dependents_def Let_def)

lemma record_failure_same [simp]:
  "b_attempts (record_failure p r b) = b_attempts b" "b_in_flight (record_failure p r b) = b_in_flight b"
  "b_created (record_failure p r b) = b_created b" "b_commands (record_failure p r b) = b_commands b"
  "b_stale (record_failure p r b) = b_stale b" "b_structure (record_failure p r b) = b_structure b"
  "b_materialized (record_failure p r b) = b_materialized b"
  by (simp_all add: record_failure_def Let_def split: outcome.split)

lemma record_success_same:
  assumes "record_success cache now p bytes inputs b = (b', d, k)"
  shows "b_attempts b' = b_attempts b" "b_in_flight b' = b_in_flight b" "b_created b' = b_created b"
    "b_commands b' = b_commands b" "b_stale b' = b_stale b" "b_structure b' = b_structure b" "d = declared b p"
  using assms by (auto simp: record_success_def declared_def Let_def split: option.splits)

text \<open>What the end of a build comes to, before another is claimed.\<close>

definition ended :: "string list \<Rightarrow> outcome \<Rightarrow> btree \<Rightarrow> btree" where
  "ended p r b =
     (let b' = record_failure p r b in
      b'\<lparr>b_in_flight := b_in_flight b' - {p}, b_reads := (b_reads b')(p := None),
         b_stale := (if declared b p \<and> (\<exists>e is. r = Broken e is) then insert p (b_stale b') else b_stale b')\<rparr>)"

lemma ended_same [simp]:
  "b_attempts (ended p r b) = b_attempts b" "b_in_flight (ended p r b) = b_in_flight b - {p}"
  "b_created (ended p r b) = b_created b" "b_commands (ended p r b) = b_commands b" "b_structure (ended p r b) = b_structure b"
  "b_stale (ended p r b) = (if declared b p \<and> (\<exists>e is. r = Broken e is) then insert p (b_stale b) else b_stale b)"
  "b_materialized (ended p r b) = b_materialized b"
  "b_dependencies (ended p r b) = b_dependencies (record_failure p r b)" "b_dependents (ended p r b) = b_dependents (record_failure p r b)"
  by (auto simp: ended_def Let_def)

lemma ended_books [simp]: "next_of (ended p r b) = next_of b" "current_of (ended p r b) = current_of b"
  by (rule same_attempts, simp)+

lemma finish_cases:
  assumes "finish_section p r b = (b', u, orphan)"
  obtains
    (removed) "\<not> declared b p" "b' = (ended p r b)\<lparr>b_attempts := (b_attempts b)(p := None)\<rparr>" "u = None" "orphan = next_of b p"
  | (rebuild) l where "declared b p" "claim_build p (ended p r b) = (b', l)" "u = Some l" "orphan = None"
      "next_of b p \<noteq> None \<or> p \<in> b_stale b \<and> (\<forall>is. r \<noteq> Broken Operation_canceled is) \<and> p \<in> b_materialized b"
  | (idle) "declared b p" "b' = ended p r b" "u = None" "orphan = None" "next_of b p = None"
      "p \<in> b_stale b \<longrightarrow> (\<exists>is. r = Broken Operation_canceled is) \<or> p \<notin> b_materialized b"
proof -
  define b1 where "b1 = record_failure p r b"
  define b2 where "b2 = b1\<lparr>b_in_flight := b_in_flight b1 - {p}, b_reads := (b_reads b1)(p := None)\<rparr>"
  define w where "w = (case b_attempts b2 p of None \<Rightarrow> False | Some a \<Rightarrow> a_next a \<noteq> None)"
  define b3 where "b3 = (case r of Built _ _ \<Rightarrow> b2 | Broken _ _ \<Rightarrow> b2\<lparr>b_stale := insert p (b_stale b2)\<rparr>)"
  define stopped where "stopped = (case r of Built _ _ \<Rightarrow> False | Broken e _ \<Rightarrow> e = Operation_canceled)"
  define rebuild where "rebuild = (w \<or> p \<in> b_stale b2 \<and> \<not> stopped \<and> p \<in> b_materialized b3)"
  have b2: "b_attempts b2 = b_attempts b" "b_commands b2 = b_commands b" "b_stale b2 = b_stale b" "b_materialized b3 = b_materialized b"
    by (simp_all add: b1_def b2_def b3_def split: outcome.split)
  have d: "declared b2 p = declared b p" by (simp add: declared_def b2)
  have w: "w \<longleftrightarrow> next_of b p \<noteq> None" unfolding w_def b2 by (auto simp: next_of_def attempts_of_def split: option.splits)
  have stopped: "stopped \<longleftrightarrow> (\<exists>is. r = Broken Operation_canceled is)" by (auto simp: stopped_def split: outcome.split)
  note f = assms [unfolded finish_section_def Let_def, folded b1_def, folded b2_def, folded w_def, folded b3_def stopped_def]
  show thesis
  proof (cases "declared b p")
    case False
    have "ended p r b = b2" using False by (simp add: ended_def Let_def b1_def b2_def)
    moreover have "orphan = next_of b p" using f False d b2 by (auto simp: next_of_def attempts_of_def split: option.splits)
    ultimately show thesis using f False d b2 by (intro removed) auto
  next
    case True
    have e: "ended p r b = b3" using True by (cases r) (simp_all add: ended_def Let_def b1_def b2_def b3_def)
    have f': "(b', u, orphan) = (if rebuild then (let x = claim_build p b3 in (fst x, Some (snd x), None)) else (b3, None, None))"
      using f True d unfolding rebuild_def by (auto split: if_splits prod.splits simp: Let_def)
    show thesis
    proof (cases rebuild)
      case yes: True
      show thesis
        by (rule rebuild [OF True, of "snd (claim_build p b3)"])
          (use f' yes w stopped b2 in \<open>auto simp: e rebuild_def Let_def prod_eq_iff\<close>)
    next
      case no: False
      show thesis by (rule idle [OF True]) (use f' no w stopped b2 in \<open>auto simp: e rebuild_def\<close>)
    qed
  qed
qed

text \<open>The end of a build: its claim is given up, and another may be taken in its place.\<close>

lemma books_finish:
  assumes ok: "books_ok b (l # cs) os" and f: "finish_section (u_output l) r b = (b', u, orphan)"
  shows "books_ok b' (opt_list u @ cs) (opt_list orphan @ map u_attempt (opt_list u) @ os)"
proof -
  let ?p = "u_output l"
  have F: "flights_ok (b_in_flight b) (next_of b) (current_of b) (l # cs)" and A: "accounts_ok (next_of b) (b_created b) os"
    using ok by (simp_all add: books_ok_def)
  from f show ?thesis
  proof (cases rule: finish_cases)
    case removed
    have a: "attempts_of b' q = (if q = ?p then \<lparr>a_current = None, a_next = None, a_at_start = 0\<rparr> else attempts_of b q)" for q
      by (simp add: removed(2) attempts_of_def)
    have "next_of b' = (next_of b)(?p := None)" "current_of b' = (current_of b)(?p := None)"
      by (auto simp: next_of_def current_of_def a fun_eq_iff)
    moreover have "?p \<notin> u_output ` set cs" using F by (simp add: flights_ok_def)
    moreover have "b_in_flight b' = b_in_flight b - {?p}" "b_created b' = b_created b" by (simp_all add: removed(2))
    ultimately show ?thesis
      using flights_release [OF F] accounts_orphan [OF A, of ?p] removed(3,4)
      by (auto simp: books_ok_def flights_ok_def opt_list_def)
  next
    case (rebuild l')
    note cb = claim_books [OF rebuild(2)]
    have "flights_ok (b_in_flight b') (next_of b') (current_of b') (l' # cs)"
      using flights_claim [OF flights_release [OF F], of l'] by (simp add: cb)
    moreover have "accounts_ok (next_of b') (b_created b') (u_attempt l' # os)"
      using accounts_claim [OF A, of ?p] by (simp add: cb)
    ultimately show ?thesis by (simp add: books_ok_def rebuild(3,4))
  next
    case idle
    then have "(next_of b)(?p := None) = next_of b" by auto
    with flights_release [OF F] A idle show ?thesis by (simp add: books_ok_def)
  qed
qed

section \<open>The rules, in the books\<close>

lemma forget_books:
  assumes ok: "books_ok b cs os"
  shows "books_ok (forget_output p b) cs os" "b_in_flight (forget_output p b) = b_in_flight b"
proof -
  let ?b = "forget_output p b"
  show f: "b_in_flight ?b = b_in_flight b" by (simp add: forget_output_def Let_def)
  have c: "b_created ?b = b_created b" by (simp add: forget_output_def Let_def)
  have a: "b_attempts ?b = (if p \<in> b_in_flight b then b_attempts b else (b_attempts b)(p := None))"
    by (simp add: forget_output_def Let_def)
  show "books_ok ?b cs os"
  proof (cases "p \<in> b_in_flight b")
    case True
    show ?thesis by (rule books_same [OF ok]) (simp_all add: f c a True)
  next
    case False
    then have n: "next_of b p = None" "p \<notin> u_output ` set cs"
      using ok by (auto simp: books_ok_def flights_ok_def)
    have "next_of ?b = (next_of b)(p := None)" "current_of ?b = (current_of b)(p := None)"
      using False by (auto simp: next_of_def current_of_def attempts_of_def a fun_eq_iff)
    moreover have "(next_of b)(p := None) = next_of b" using n by auto
    ultimately show ?thesis using ok n unfolding books_ok_def flights_ok_def by (auto simp: f c)
  qed
qed

lemma apply_books:
  assumes "books_ok b cs os"
  shows "books_ok (apply_commands new b) cs os"
proof -
  have fold: "books_ok (fold forget_output ps b) cs os" if "books_ok b cs os" for ps b
    using that by (induction ps arbitrary: b) (auto intro: forget_books)
  define b1 where "b1 = b\<lparr>b_stale := b_stale b \<union> set (added_outputs new b),
    b_materialized := b_materialized b \<union> set (filter (\<lambda>p. b_all b \<and> o_action (the (map_of new p)) \<noteq> Tracing) (added_outputs new b))\<rparr>"
  have "books_ok b1 cs os" by (rule books_same [OF assms]) (simp_all add: b1_def)
  then have "books_ok (fold forget_output (removed_outputs new b) b1) cs os" by (rule fold)
  then have "books_ok ((fold forget_output (removed_outputs new b) b1)\<lparr>b_commands := new\<rparr>) cs os" by (rule books_same) simp_all
  then show ?thesis by (simp add: apply_commands_def Let_def b1_def)
qed

section \<open>The machine, in the books\<close>

abbreviation claims_in :: "build_run list \<Rightarrow> launch list" where
  "claims_in rs \<equiv> concat (map (\<lambda>r. claims_of (n_phase r) (n_launch r)) rs)"

abbreviation owed_in :: "build_run list \<Rightarrow> nat list" where
  "owed_in rs \<equiv> concat (map (\<lambda>r. owed_by (n_phase r) (n_launch r)) rs)"

definition machine_books :: "machine \<Rightarrow> bool" where
  "machine_books m \<longleftrightarrow> books_ok (m_tree m) (claims m) (map fst (m_answers m) @ owed m)"

lemma claims_launched [simp]: "claims_in (launched u) = opt_list u" "owed_in (launched u) = map u_attempt (opt_list u)"
  by (cases u; simp)+

lemma phase_split:
  assumes "i < length rs"
  shows "\<exists>R S. mset (claims_in rs) = mset (claims_of (n_phase (rs ! i)) (n_launch (rs ! i)) @ R) \<and>
    mset (owed_in rs) = mset (owed_by (n_phase (rs ! i)) (n_launch (rs ! i)) @ S) \<and>
    (\<forall>ph. mset (claims_in (rs[i := (rs ! i)\<lparr>n_phase := ph\<rparr>])) = mset (claims_of ph (n_launch (rs ! i)) @ R) \<and>
          mset (owed_in (rs[i := (rs ! i)\<lparr>n_phase := ph\<rparr>])) = mset (owed_by ph (n_launch (rs ! i)) @ S))"
proof -
  let ?A = "take i rs" and ?B = "drop (Suc i) rs"
  have 1: "rs = ?A @ rs ! i # ?B" by (rule id_take_nth_drop [OF assms])
  have c: "claims_in rs = claims_in ?A @ claims_of (n_phase (rs ! i)) (n_launch (rs ! i)) @ claims_in ?B"
    "owed_in rs = owed_in ?A @ owed_by (n_phase (rs ! i)) (n_launch (rs ! i)) @ owed_in ?B"
    by (subst 1, simp)+
  have "rs[i := x] = ?A @ x # ?B" for x by (rule upd_conv_take_nth_drop [OF assms])
  then show ?thesis
    by (intro exI [of _ "claims_in ?A @ claims_in ?B"] exI [of _ "owed_in ?A @ owed_in ?B"]) (simp add: c)
qed

text \<open>A build that changes phase, with what the tree made of it.\<close>

lemma machine_books_phase:
  assumes "machine_books m" and "i < length (m_runs m)" and l: "l = n_launch (m_runs m ! i)" and ph: "ph = n_phase (m_runs m ! i)"
    and m': "m_runs m' = (m_runs m)[i := (m_runs m ! i)\<lparr>n_phase := ph'\<rparr>] @ launched u"
    and answers: "map fst (m_answers m') = map fst (m_answers m) @ told"
    and step: "\<And>R S. books_ok (m_tree m) (claims_of ph l @ R) (owed_by ph l @ S) \<Longrightarrow>
      books_ok (m_tree m') (opt_list u @ claims_of ph' l @ R) (told @ map u_attempt (opt_list u) @ owed_by ph' l @ S)"
  shows "machine_books m'"
proof -
  obtain R S where RS: "mset (claims m) = mset (claims_of ph l @ R)" "mset (owed m) = mset (owed_by ph l @ S)"
    "\<And>ph. mset (claims_in ((m_runs m)[i := (m_runs m ! i)\<lparr>n_phase := ph\<rparr>])) = mset (claims_of ph l @ R)"
    "\<And>ph. mset (owed_in ((m_runs m)[i := (m_runs m ! i)\<lparr>n_phase := ph\<rparr>])) = mset (owed_by ph l @ S)"
    using phase_split [OF assms(2)] unfolding claims_def owed_def l ph by blast
  have "books_ok (m_tree m) (claims_of ph l @ R) (owed_by ph l @ (map fst (m_answers m) @ S))"
    using assms(1) books_perm [of "claims m" "claims_of ph l @ R" "map fst (m_answers m) @ owed m" "owed_by ph l @ (map fst (m_answers m) @ S)"]
      RS(1,2) by (simp add: machine_books_def)
  from step [OF this]
  have "books_ok (m_tree m') (opt_list u @ claims_of ph' l @ R) (told @ map u_attempt (opt_list u) @ owed_by ph' l @ map fst (m_answers m) @ S)" .
  moreover have "mset (claims m') = mset (opt_list u @ claims_of ph' l @ R)"
    unfolding claims_def m' using RS(3) [of ph'] by simp
  moreover have "mset (map fst (m_answers m') @ owed m') = mset (told @ map u_attempt (opt_list u) @ owed_by ph' l @ map fst (m_answers m) @ S)"
    unfolding owed_def m' answers using RS(4) [of ph'] by simp
  ultimately show ?thesis unfolding machine_books_def using books_perm by metis
qed

lemma machine_books_launch:
  assumes "machine_books m" and "m_runs m' = m_runs m @ launched u" and "m_answers m' = m_answers m"
    and "books_ok (m_tree m) (claims m) (map fst (m_answers m) @ owed m) \<Longrightarrow>
      books_ok (m_tree m') (opt_list u @ claims m) (map u_attempt (opt_list u) @ map fst (m_answers m) @ owed m)"
  shows "machine_books m'"
proof -
  have "mset (claims m') = mset (opt_list u @ claims m)" "mset (owed m') = mset (map u_attempt (opt_list u) @ owed m)"
    by (simp_all add: claims_def owed_def assms(2))
  then show ?thesis
    using assms books_perm [of "claims m'" "opt_list u @ claims m" "map fst (m_answers m') @ owed m'" "map u_attempt (opt_list u) @ map fst (m_answers m) @ owed m" "m_tree m'"]
    by (simp add: machine_books_def)
qed

lemma set_phase_simps [simp]:
  "m_tree (set_phase i ph m) = m_tree m" "m_holder (set_phase i ph m) = m_holder m" "m_answers (set_phase i ph m) = m_answers m"
  "m_kept (set_phase i ph m) = m_kept m" "m_runs (set_phase i ph m) = (m_runs m)[i := (m_runs m ! i)\<lparr>n_phase := ph\<rparr>]"
  by (simp_all add: set_phase_def)

lemma quiet_books:
  assumes "machine_books m" and "m_runs m' = m_runs m" and "m_answers m' = m_answers m"
    and "\<And>cs os. books_ok (m_tree m) cs os \<Longrightarrow> books_ok (m_tree m') cs os"
  shows "machine_books m'"
  using assms by (simp add: machine_books_def claims_def owed_def)

lemma write_books: "write_output now p bytes b = Some (b', d) \<Longrightarrow> books_ok b cs os \<Longrightarrow> books_ok b' cs os"
  by (auto simp: write_output_def elim!: books_same)

lemma lay_books: "lay_out now removed added b = Some (b', ds) \<Longrightarrow> books_ok b cs os \<Longrightarrow> books_ok b' cs os"
  by (auto simp: lay_out_def elim!: books_same)

lemma read_books: "books_ok b cs os \<Longrightarrow> books_ok (record_read reader p b) cs os"
  by (auto simp: record_read_def elim!: books_same split: option.split)

lemma invalidate_books: "books_ok b cs os \<Longrightarrow> books_ok (fst (invalidate ps b)) cs os"
  by (rule books_same) (simp_all add: invalidate_def Let_def)

lemma materialize_books: "books_ok b cs os \<Longrightarrow> books_ok (fst (materialize_all b)) cs os"
  by (rule books_same) (simp_all add: materialize_all_def Let_def)

lemma success_books:
  assumes "record_success cache now p bytes inputs b = (b', d, k)" and "books_ok b cs os"
  shows "books_ok b' cs os"
  by (rule books_same [OF assms(2)]) (rule record_success_same [OF assms(1)])+

lemma move_books:
  assumes ok: "machine_books m" and mv: "build_move cache mv m = Some m'"
  shows "machine_books m'"
proof (cases mv)
  case (Open p)
  obtain b t u where r: "bring_up_to_date p (m_tree m) = (b, t, u)" by (metis prod_cases3)
  with mv Open have m': "m' = m\<lparr>m_tree := b, m_runs := m_runs m @ launched u\<rparr>" by (simp add: open_move_def Let_def)
  show ?thesis by (rule machine_books_launch [OF ok, of _ u]) (simp_all add: m' books_open [OF _ r])
next
  case (Start p)
  obtain b u where r: "start_build p (m_tree m) = (b, u)" by fastforce
  with mv Start have m': "m' = m\<lparr>m_tree := b, m_runs := m_runs m @ launched u\<rparr>" by (simp add: start_move_def Let_def)
  show ?thesis by (rule machine_books_launch [OF ok, of _ u]) (simp_all add: m' books_start [OF _ r])
next
  case (Read reader p)
  with mv show ?thesis by (auto intro!: quiet_books [OF ok] read_books)
next
  case (Succeed i now bytes inputs)
  obtain b d k where r: "record_success cache now (u_output (n_launch (m_runs m ! i))) bytes inputs (m_tree m) = (b, d, k)"
    by (metis prod_cases3)
  have i: "i < length (m_runs m)" "n_phase (m_runs m ! i) = Running"
    and m': "m' = set_phase i (Recorded now bytes inputs d k) (m\<lparr>m_tree := b, m_holder := Build i\<rparr>)"
    using mv Succeed by (auto simp: succeed_move_def Let_def r split: if_splits)
  show ?thesis
    by (rule machine_books_phase [OF ok i(1) refl i(2) [symmetric], where u = None and ph' = "Recorded now bytes inputs d k" and told = "[]"])
      (simp_all add: m' success_books [OF r])
next
  case (Write i)
  then obtain now bytes inputs wanted keep where i: "i < length (m_runs m)" "n_phase (m_runs m ! i) = Recorded now bytes inputs wanted keep"
    using mv by (auto simp: write_move_def split: if_splits phase.splits)
  obtain b where m': "m' = set_phase i (Written (Built bytes inputs) keep) (m\<lparr>m_tree := b, m_holder := Free\<rparr>)"
    and b: "\<And>cs os. books_ok (m_tree m) cs os \<Longrightarrow> books_ok b cs os"
  proof (cases wanted)
    case True
    with mv Write i obtain b d where "write_output now (u_output (n_launch (m_runs m ! i))) bytes (m_tree m) = Some (b, d)"
      "m' = set_phase i (Written (Built bytes inputs) keep) (m\<lparr>m_tree := b, m_holder := Free\<rparr>)"
      by (auto simp: write_move_def)
    then show thesis using write_books that by blast
  next
    case False
    with mv Write i have "m' = set_phase i (Written (Built bytes inputs) keep) (m\<lparr>m_tree := m_tree m, m_holder := Free\<rparr>)"
      by (simp add: write_move_def)
    then show thesis using that by blast
  qed
  show ?thesis
    by (rule machine_books_phase [OF ok i(1) refl i(2) [symmetric], where u = None and ph' = "Written (Built bytes inputs) keep" and told = "[]"]) (simp_all add: m' b)
next
  case (Fail i e inputs)
  then have i: "i < length (m_runs m)" "n_phase (m_runs m ! i) = Running"
    and m': "m' = set_phase i (Written (Broken e inputs) None) m"
    using mv by (auto simp: fail_move_def split: if_splits)
  show ?thesis
    by (rule machine_books_phase [OF ok i(1) refl i(2) [symmetric], where u = None and ph' = "Written (Broken e inputs) None" and told = "[]"]) (simp_all add: m')
next
  case (End_build i)
  then obtain r keep where i: "i < length (m_runs m)" "n_phase (m_runs m ! i) = Written r keep"
    using mv by (auto simp: end_move_def split: if_splits phase.splits)
  obtain b u orphan where f: "finish_section (u_output (n_launch (m_runs m ! i))) r (m_tree m) = (b, u, orphan)" by (metis prod_cases3)
  have m': "m' = set_phase i (Finished r orphan u keep) (m\<lparr>m_tree := b\<rparr>)"
    using mv End_build i f by (simp add: end_move_def Let_def)
  show ?thesis
  proof (rule machine_books_phase [OF ok i(1) refl i(2) [symmetric], where u = None and told = "[]"])
    fix R S
    assume "books_ok (m_tree m) (claims_of (Written r keep) (n_launch (m_runs m ! i)) @ R) (owed_by (Written r keep) (n_launch (m_runs m ! i)) @ S)"
    then have "books_ok b (opt_list u @ R) (opt_list orphan @ map u_attempt (opt_list u) @ u_attempt (n_launch (m_runs m ! i)) # S)"
      using books_finish [OF _ f] by simp
    then show "books_ok (m_tree m') (opt_list None @ claims_of (Finished r orphan u keep) (n_launch (m_runs m ! i)) @ R)
        ([] @ map u_attempt (opt_list None) @ owed_by (Finished r orphan u keep) (n_launch (m_runs m ! i)) @ S)"
      by (rule books_reorder) (auto simp: m' opt_list_def split: option.split)
  qed (simp_all add: m')
next
  case (Answer i)
  then obtain r orphan u keep where i: "i < length (m_runs m)" "n_phase (m_runs m ! i) = Finished r orphan u keep"
    using mv by (auto simp: answer_move_def split: if_splits phase.splits)
  have m': "m' = set_phase i (Answered r u keep) (m\<lparr>m_answers := m_answers m @ (u_attempt (n_launch (m_runs m ! i)), error_of r) #
      (case orphan of None \<Rightarrow> [] | Some j \<Rightarrow> [(j, No_such_file_or_directory)])\<rparr>)"
    using mv Answer i by (simp add: answer_move_def)
  show ?thesis
  proof (rule machine_books_phase [OF ok i(1) refl i(2) [symmetric], where u = None and told = "u_attempt (n_launch (m_runs m ! i)) # opt_list orphan"])
    fix R S
    assume "books_ok (m_tree m) (claims_of (Finished r orphan u keep) (n_launch (m_runs m ! i)) @ R)
      (owed_by (Finished r orphan u keep) (n_launch (m_runs m ! i)) @ S)"
    then show "books_ok (m_tree m') (opt_list None @ claims_of (Answered r u keep) (n_launch (m_runs m ! i)) @ R)
        ((u_attempt (n_launch (m_runs m ! i)) # opt_list orphan) @ map u_attempt (opt_list None) @ owed_by (Answered r u keep) (n_launch (m_runs m ! i)) @ S)"
      by (rule books_reorder) (auto simp: m' opt_list_def split: option.split)
  qed (auto simp: m' split: option.split)
next
  case (Move_on i)
  then obtain r u keep where i: "i < length (m_runs m)" "n_phase (m_runs m ! i) = Answered r u keep"
    using mv by (auto simp: move_on_def split: if_splits phase.splits)
  have runs: "m_runs m' = (m_runs m)[i := (m_runs m ! i)\<lparr>n_phase := Done r\<rparr>] @ launched u" "m_answers m' = m_answers m" "m_tree m' = m_tree m"
    using mv Move_on i by (auto simp: move_on_def Let_def)
  show ?thesis
    by (rule machine_books_phase [OF ok i(1) refl i(2) [symmetric], where u = u and ph' = "Done r" and told = "[]"])
      (auto simp: runs opt_list_def split: option.splits)
next
  case (Take_rules new)
  with mv show ?thesis by (auto intro!: quiet_books [OF ok] apply_books simp: take_rules_def split: if_splits)
next
  case (Lay now)
  with mv show ?thesis by (auto intro!: quiet_books [OF ok] simp: lay_move_def lay_books split: holder.splits)
next
  case (Invalidate ps)
  with mv show ?thesis by (auto intro!: quiet_books [OF ok] invalidate_books simp: invalidate_move_def)
next
  case Materialize
  with mv show ?thesis by (auto intro!: quiet_books [OF ok] materialize_books)
qed

lemma reached_books: "machine_reached cache source m \<Longrightarrow> machine_books m"
proof (induction rule: machine_reached.induct)
  case start
  show ?case by (simp add: machine_books_def machine_new_def btree_new_def claims_def owed_def books_ok_def flights_ok_def
      accounts_ok_def next_of_def attempts_of_def)
next
  case (move m mv m')
  then show ?case using move_books by blast
qed

end
