(* ===== verification/Build_Inputs.thy ===== *)
theory Build_Inputs
  imports Build_Accounts
begin

text \<open>
  What the outputs read: the outputs that read each input are the exact inverse of the inputs
  of each output, in every state of the machine; and what an invalidation marks stale is what
  reads, through any number of outputs, one that it was given.
\<close>

section \<open>The index and its inverse\<close>

definition index_ok :: "(string list \<Rightarrow> string list list option) \<Rightarrow> (string list \<Rightarrow> string list list) \<Rightarrow> bool" where
  "index_ok deps m \<longleftrightarrow> (\<forall>input. sorted (m input) \<and> distinct (m input)) \<and>
     (\<forall>p input. p \<in> set (m input) \<longleftrightarrow> (\<exists>is. deps p = Some is \<and> input \<in> set is))"

lemma fold_drop: "(\<forall>x. sorted (m x) \<and> distinct (m x)) \<Longrightarrow>
   (\<forall>x. sorted (fold (drop_dependent p) is m x) \<and> distinct (fold (drop_dependent p) is m x) \<and>
     set (fold (drop_dependent p) is m x) = set (m x) - (if x \<in> set is then {p} else {}))"
proof (induction "is" arbitrary: m)
  case (Cons i "is")
  let ?m = "drop_dependent p i m"
  have s: "\<forall>x. sorted (?m x) \<and> distinct (?m x)" using Cons.prems by (simp add: drop_dependent_def sorted_remove1)
  have "set (?m x) = set (m x) - (if x = i then {p} else {})" for x
    using Cons.prems by (simp add: drop_dependent_def)
  with Cons.IH [OF s] show ?case by auto
qed simp

lemma fold_add: "(\<forall>x. sorted (m x) \<and> distinct (m x)) \<Longrightarrow>
   (\<forall>x. sorted (fold (add_dependent p) is m x) \<and> distinct (fold (add_dependent p) is m x) \<and>
     set (fold (add_dependent p) is m x) = set (m x) \<union> (if x \<in> set is then {p} else {}))"
proof (induction "is" arbitrary: m)
  case (Cons i "is")
  let ?m = "add_dependent p i m"
  have s: "\<forall>x. sorted (?m x) \<and> distinct (?m x)"
    using Cons.prems by (simp add: add_dependent_def sorted_insort_insert distinct_insort_insert)
  have "set (?m x) = set (m x) \<union> (if x = i then {p} else {})" for x
    by (simp add: add_dependent_def set_insort_insert)
  with Cons.IH [OF s] show ?case by auto
qed simp

lemma update_index:
  assumes "index_ok (b_dependencies b) (b_dependents b)"
  shows "index_ok (b_dependencies (update_dependents p is b)) (b_dependents (update_dependents p is b))"
proof -
  let ?prev = "case b_dependencies b p of None \<Rightarrow> [] | Some i \<Rightarrow> i"
  let ?d = "fold (drop_dependent p) ?prev (b_dependents b)"
  have s: "\<forall>x. sorted (b_dependents b x) \<and> distinct (b_dependents b x)"
    and i: "\<And>q x. q \<in> set (b_dependents b x) \<longleftrightarrow> (\<exists>is. b_dependencies b q = Some is \<and> x \<in> set is)"
    using assms by (simp_all add: index_ok_def)
  note d = fold_drop [OF s, of p ?prev]
  have "\<forall>x. sorted (?d x) \<and> distinct (?d x)" using d by blast
  note a = fold_add [OF this, of p "is"]
  have "set (?d x) = {q. q \<noteq> p \<and> (\<exists>is. b_dependencies b q = Some is \<and> x \<in> set is)}" for x
    using d i by (auto split: option.splits if_splits)
  then show ?thesis using a by (auto simp: index_ok_def update_dependents_def Let_def)
qed

lemma forget_index:
  assumes "index_ok (b_dependencies b) (b_dependents b)"
  shows "index_ok (b_dependencies (forget_output p b)) (b_dependents (forget_output p b))"
proof -
  let ?b = "update_dependents p [] b"
  have "index_ok (b_dependencies ?b) (b_dependents ?b)" by (rule update_index [OF assms])
  moreover have "b_dependencies ?b p = Some []" by (simp add: update_dependents_def Let_def)
  moreover have "b_dependencies (forget_output p b) = (b_dependencies ?b)(p := None)" "b_dependents (forget_output p b) = b_dependents ?b"
    by (simp_all add: forget_output_def update_dependents_def Let_def)
  ultimately show ?thesis unfolding index_ok_def by auto
qed

abbreviation inverse_ok :: "btree \<Rightarrow> bool" where
  "inverse_ok b \<equiv> index_ok (b_dependencies b) (b_dependents b)"

lemma apply_index:
  assumes "inverse_ok b"
  shows "inverse_ok (apply_commands new b)"
proof -
  have fold: "inverse_ok (fold forget_output ps b)" if "inverse_ok b" for ps b
    using that by (induction ps arbitrary: b) (auto intro: forget_index)
  show ?thesis using assms fold by (simp add: apply_commands_def Let_def)
qed

lemma success_index: "record_success cache now p bytes inputs b = (b', d, k) \<Longrightarrow> inverse_ok b \<Longrightarrow> inverse_ok b'"
  by (auto simp: record_success_def Let_def update_index split: option.splits)

lemma failure_index: "inverse_ok b \<Longrightarrow> inverse_ok (record_failure p r b)"
  by (auto simp: record_failure_def Let_def update_index split: outcome.split)

lemma claim_index: "claim_build p b = (b', l) \<Longrightarrow> b_dependencies b' = b_dependencies b" "claim_build p b = (b', l) \<Longrightarrow> b_dependents b' = b_dependents b"
  by (simp_all add: claim_books)

lemma open_index:
  assumes "bring_up_to_date p b = (b', t, u)" and "inverse_ok b"
  shows "inverse_ok b'"
proof (cases "map_of (b_commands b) p")
  case (Some c)
  have "inverse_ok (fst (claim_build p (touched p c b)))"
    using assms(2) claim_index [of p "touched p c b" "fst (claim_build p (touched p c b))" "snd (claim_build p (touched p c b))"] by simp
  with assms show ?thesis
    unfolding bring_up_to_date_touched [OF Some] Let_def by (auto split: if_splits option.splits)
qed (use assms in \<open>simp add: bring_up_to_date_def\<close>)

lemma finish_index:
  assumes "finish_section p r b = (b', u, orphan)" and "inverse_ok b"
  shows "inverse_ok b'"
  using assms(1)
proof (cases rule: finish_cases)
  case removed
  with failure_index [OF assms(2)] show ?thesis by simp
next
  case (rebuild l)
  with failure_index [OF assms(2)] claim_index [OF rebuild(2)] show ?thesis by simp
next
  case idle
  with failure_index [OF assms(2)] show ?thesis by simp
qed

lemma move_index:
  assumes ok: "inverse_ok (m_tree m)" and mv: "build_move cache mv m = Some m'"
  shows "inverse_ok (m_tree m')"
proof (cases mv)
  case (Open p)
  with mv ok show ?thesis by (auto simp: open_move_def Let_def)
    (metis open_index prod.collapse)
next
  case (Start p)
  with mv ok claim_index [of p "m_tree m" "fst (claim_build p (m_tree m))" "snd (claim_build p (m_tree m))"] show ?thesis
    by (auto simp: start_move_def start_build_def Let_def split: prod.splits)
next
  case (Read reader p)
  with mv ok show ?thesis by (auto simp: record_read_def split: option.splits)
next
  case (Succeed i now bytes inputs)
  obtain b d k where r: "record_success cache now (u_output (n_launch (m_runs m ! i))) bytes inputs (m_tree m) = (b, d, k)"
    by (metis prod_cases3)
  with mv Succeed success_index [OF r ok] show ?thesis by (auto simp: succeed_move_def Let_def split: if_splits)
next
  case (Write i)
  with mv ok show ?thesis by (auto simp: write_move_def write_output_def split: if_splits phase.splits)
next
  case (Fail i e inputs)
  with mv ok show ?thesis by (auto simp: fail_move_def split: if_splits)
next
  case (End_build i)
  then obtain r keep where i: "i < length (m_runs m)" "n_phase (m_runs m ! i) = Written r keep"
    using mv by (auto simp: end_move_def split: if_splits phase.splits)
  obtain b u orphan where f: "finish_section (u_output (n_launch (m_runs m ! i))) r (m_tree m) = (b, u, orphan)" by (metis prod_cases3)
  with mv End_build i finish_index [OF f ok] show ?thesis by (auto simp: end_move_def Let_def)
next
  case (Answer i)
  with mv ok show ?thesis by (auto simp: answer_move_def split: if_splits phase.splits)
next
  case (Move_on i)
  with mv ok show ?thesis by (auto simp: move_on_def Let_def split: if_splits phase.splits)
next
  case (Take_rules new)
  with mv apply_index [OF ok] show ?thesis by (auto simp: take_rules_def split: if_splits)
next
  case (Lay now)
  with mv ok show ?thesis by (auto simp: lay_move_def lay_out_def split: holder.splits)
next
  case (Invalidate ps)
  with mv ok show ?thesis by (auto simp: invalidate_move_def invalidate_def Let_def)
next
  case Materialize
  with mv ok show ?thesis by (auto simp: materialize_all_def Let_def)
qed

lemma reached_index: "machine_reached cache source m \<Longrightarrow> inverse_ok (m_tree m)"
proof (induction rule: machine_reached.induct)
  case start
  show ?case by (simp add: machine_new_def btree_new_def index_ok_def)
next
  case (move m mv m')
  then show ?case using move_index by blast
qed

section \<open>What goes stale\<close>

text \<open>The outputs that read one of the given, through declared outputs.\<close>

inductive goes_stale :: "btree \<Rightarrow> string list set \<Rightarrow> string list \<Rightarrow> bool" for b given where
  given: "p \<in> given \<Longrightarrow> declared b p \<Longrightarrow> goes_stale b given p"
| reader: "goes_stale b given p \<Longrightarrow> q \<in> set (b_dependents b (as_input p)) \<Longrightarrow> declared b q \<Longrightarrow> goes_stale b given q"

lemma stale_loop_sound:
  assumes "\<forall>p \<in> set ps. declared b p \<longrightarrow> goes_stale b given p" and "\<forall>p \<in> set seen. goes_stale b given p"
  shows "\<forall>p \<in> set (stale_loop b ps seen). goes_stale b given p"
  using assms
proof (induction b ps seen rule: stale_loop.induct)
  case (2 b p ps seen)
  show ?case
  proof (cases "\<not> declared b p \<or> p \<in> set seen")
    case True
    then have e: "stale_loop b (p # ps) seen = stale_loop b ps seen" by simp
    show ?thesis unfolding e by (rule "2.IH"(1) [OF True]) (use "2.prems" in simp_all)
  next
    case False
    then have e: "stale_loop b (p # ps) seen = stale_loop b (rev (b_dependents b (as_input p)) @ ps) (seen @ [p])" by simp
    have g: "goes_stale b given p" using "2.prems" False by simp
    then have "\<forall>q \<in> set (b_dependents b (as_input p)). declared b q \<longrightarrow> goes_stale b given q"
      using goes_stale.reader by blast
    with "2.prems" g show ?thesis unfolding e by (intro "2.IH"(2) [OF False]) auto
  qed
qed simp

text \<open>Everything looked at is in the result, and whatever reads it is too.\<close>

lemma stale_loop_complete:
  assumes "\<forall>p \<in> set seen. \<forall>q \<in> set (b_dependents b (as_input p)). declared b q \<longrightarrow> q \<in> set seen \<union> set ps"
  shows "set seen \<subseteq> set (stale_loop b ps seen) \<and> (\<forall>p \<in> set ps. declared b p \<longrightarrow> p \<in> set (stale_loop b ps seen)) \<and>
    (\<forall>p \<in> set (stale_loop b ps seen). \<forall>q \<in> set (b_dependents b (as_input p)). declared b q \<longrightarrow> q \<in> set (stale_loop b ps seen))"
  using assms
proof (induction b ps seen rule: stale_loop.induct)
  case (2 b p ps seen)
  show ?case
  proof (cases "\<not> declared b p \<or> p \<in> set seen")
    case True
    have "\<forall>p' \<in> set seen. \<forall>q \<in> set (b_dependents b (as_input p')). declared b q \<longrightarrow> q \<in> set seen \<union> set ps"
      using "2.prems" True by auto
    from "2.IH"(1) [OF True this] True show ?thesis by auto
  next
    case False
    have "\<forall>p' \<in> set (seen @ [p]). \<forall>q \<in> set (b_dependents b (as_input p')). declared b q \<longrightarrow>
        q \<in> set (seen @ [p]) \<union> set (rev (b_dependents b (as_input p)) @ ps)"
      using "2.prems" by auto
    from "2.IH"(2) [OF False this] False show ?thesis by auto
  qed
qed simp

lemma stale_loop_exact: "set (stale_loop b ps []) = {p. goes_stale b (set ps) p}"
proof -
  have "\<forall>p \<in> set ps. declared b p \<longrightarrow> goes_stale b (set ps) p" by (auto intro: goes_stale.given)
  then have 1: "\<forall>p \<in> set (stale_loop b ps []). goes_stale b (set ps) p" by (rule stale_loop_sound) simp
  have c: "(\<forall>p \<in> set ps. declared b p \<longrightarrow> p \<in> set (stale_loop b ps [])) \<and>
    (\<forall>p \<in> set (stale_loop b ps []). \<forall>q \<in> set (b_dependents b (as_input p)). declared b q \<longrightarrow> q \<in> set (stale_loop b ps []))"
    using stale_loop_complete [of "[]" b ps] by simp
  have "p \<in> set (stale_loop b ps [])" if "goes_stale b (set ps) p" for p
    using that by (induction rule: goes_stale.induct) (use c in blast)+
  with 1 show ?thesis by blast
qed

lemma stale_loop_distinct: "distinct seen \<Longrightarrow> distinct (stale_loop b ps seen)"
  by (induction b ps seen rule: stale_loop.induct) auto

end
