(* ===== verification/Build_Serving.thy ===== *)
theory Build_Serving
  imports Build_Inputs
begin

text \<open>
  What the tree holds, in every state of the machine: its files are the declared outputs
  whenever nobody holds the layout, no operation on it ever fails a precondition, and an output
  that is neither stale nor being built has the content that a build of it made.
\<close>

section \<open>What a change of the layout keeps\<close>

definition content_of :: "mem_tree \<Rightarrow> string list \<Rightarrow> string option" where
  "content_of t p = (case entry t p of None \<Rightarrow> None | Some n \<Rightarrow> n_content n)"

abbreviation tidy :: "mem_tree \<Rightarrow> bool" where
  "tidy t \<equiv> sorted_wrt (<) (map fst (m_entries t))"

lemma make_directory_keeps:
  assumes "mem_make_directory t path now = Some (t', d)" and "tidy t"
  shows "tidy t' \<and> entry t \<subseteq>\<^sub>m entry t'"
  using assms
  by (auto simp: mem_make_directory_def sorted_insert_or_assign map_of_insert_or_assign map_le_def split: option.splits if_splits)

lemma remove_keeps:
  assumes "mem_remove t path = Some (t', d)" and "tidy t"
  shows "tidy t' \<and> entry t' \<subseteq>\<^sub>m entry t"
proof -
  obtain key where t': "t' = t\<lparr>m_entries := filter (\<lambda>e. \<not> (fst e = key \<or> is_within (fst e) key)) (m_entries t)\<rparr>"
    using assms(1) by (auto simp: mem_remove_def Let_def split: option.splits if_splits)
  have "entry t' q = (if \<not> (q = key \<or> is_within q key) then entry t q else None)" for q
    using map_of_filter_key [of "\<lambda>q. \<not> (q = key \<or> is_within q key)" "m_entries t" q] by (simp add: t')
  then have "entry t' \<subseteq>\<^sub>m entry t" by (simp add: map_le_def dom_def)
  moreover have "tidy t'" using assms(2) by (simp add: t' sorted_wrt_map sorted_wrt_filter)
  ultimately show ?thesis by blast
qed

lemma write_file_keeps:
  assumes "mem_write_file t (generic_string p) content now = Some (t', d)" and "tidy t" and "names_ok p"
  shows "tidy t' \<and> content_of t' p = Some content \<and> (\<forall>q. q \<noteq> p \<longrightarrow> entry t' q = entry t q)"
  using assms
  by (auto simp: mem_write_file_def normalize_generic Let_def content_of_def sorted_insert_or_assign map_of_insert_or_assign
      split: option.splits if_splits)

lemma ensure_keeps:
  "ensure_directories now ds t = Some (t', diffs) \<Longrightarrow> tidy t \<Longrightarrow> tidy t' \<and> entry t \<subseteq>\<^sub>m entry t'"
proof (induction now ds t arbitrary: t' diffs rule: ensure_directories.induct)
  case (2 now d ds t)
  show ?case
  proof (cases "has_value (mem_status t (generic_string d))")
    case True
    with 2 show ?thesis by auto
  next
    case False
    then obtain t1 df ds' where t1: "mem_make_directory t (generic_string d) now = Some (t1, df)"
      "ensure_directories now ds t1 = Some (t', ds')"
      using "2.prems"(1) by (auto simp: then_also_def split: option.splits)
    from make_directory_keeps [OF t1(1) "2.prems"(2)] "2.IH"(2) [OF False t1(1) refl t1(2)] show ?thesis
      by (blast intro: map_le_trans)
  qed
qed (simp add: map_le_refl)

lemma remove_directories_keeps:
  "remove_empty_directories ds t = Some (t', diffs) \<Longrightarrow> tidy t \<Longrightarrow> tidy t' \<and> entry t' \<subseteq>\<^sub>m entry t"
proof (induction ds t arbitrary: t' diffs rule: remove_empty_directories.induct)
  case (2 d ds t)
  then consider "t' = t" | t1 df ds' where "mem_remove t (generic_string d) = Some (t1, df)"
      "remove_empty_directories ds t1 = Some (t', ds')" "mem_ls t (generic_string d) = Inr []"
    by (auto simp: then_also_def split: sum.splits option.splits if_splits)
  then show ?case
  proof cases
    case 1
    with 2 show ?thesis by simp
  next
    case (2 t1 df ds')
    have "tidy t' \<and> entry t' \<subseteq>\<^sub>m entry t1"
      using "2.IH" [OF 2(3)] 2(1,2) remove_keeps [OF 2(1) "2.prems"(2)] by auto
    with remove_keeps [OF 2(1) "2.prems"(2)] show ?thesis by (blast intro: map_le_trans)
  qed
qed (simp add: map_le_refl)

lemma remove_with_parents_keeps:
  assumes "remove_with_empty_parents p t = Some (t', diffs)" and "tidy t"
  shows "tidy t' \<and> entry t' \<subseteq>\<^sub>m entry t"
proof (cases "has_value (mem_status t (generic_string p))")
  case False
  with assms show ?thesis by (simp add: remove_with_empty_parents_def map_le_refl)
next
  case True
  then obtain t1 df ds' where t1: "mem_remove t (generic_string p) = Some (t1, df)" "remove_empty_directories (parents p) t1 = Some (t', ds')"
    using assms(1) by (auto simp: remove_with_empty_parents_def then_also_def split: option.splits)
  from remove_keeps [OF t1(1) assms(2)] remove_directories_keeps [OF t1(2)] show ?thesis by (blast intro: map_le_trans)
qed

lemma lay_all_removes:
  "lay_all remove_with_empty_parents ps t = Some (t', diffs) \<Longrightarrow> tidy t \<Longrightarrow> tidy t' \<and> entry t' \<subseteq>\<^sub>m entry t"
proof (induction ps arbitrary: t diffs)
  case (Cons p ps)
  then obtain t1 ds ds' where t1: "remove_with_empty_parents p t = Some (t1, ds)" "lay_all remove_with_empty_parents ps t1 = Some (t', ds')"
    by (auto split: option.splits)
  from remove_with_parents_keeps [OF t1(1) Cons.prems(2)] Cons.IH [OF t1(2)] show ?case by (blast intro: map_le_trans)
qed (simp add: map_le_refl)

lemma add_keeps:
  assumes "add_placeholder now p t = Some (t', diffs)" and "tidy t" and "names_ok p"
  shows "tidy t' \<and> (\<forall>q. q \<noteq> p \<longrightarrow> entry t q \<noteq> None \<longrightarrow> entry t' q = entry t q)"
proof -
  obtain t1 ds df where t1: "ensure_parent_directories now p t = Some (t1, ds)"
    "mem_write_file t1 (generic_string p) placeholder_content now = Some (t', df)"
    using assms(1) by (auto simp: add_placeholder_def split: option.splits)
  have e: "tidy t1 \<and> entry t \<subseteq>\<^sub>m entry t1" using ensure_keeps t1(1) assms(2) by (simp add: ensure_parent_directories_def)
  then have "\<forall>q. entry t q \<noteq> None \<longrightarrow> entry t1 q = entry t q" by (metis domIff map_le_def)
  with write_file_keeps [OF t1(2) _ assms(3)] e show ?thesis by auto
qed

lemma lay_all_adds:
  "lay_all (add_placeholder now) ps t = Some (t', diffs) \<Longrightarrow> tidy t \<Longrightarrow> \<forall>p \<in> set ps. names_ok p \<Longrightarrow>
   tidy t' \<and> (\<forall>q. q \<notin> set ps \<longrightarrow> entry t q \<noteq> None \<longrightarrow> entry t' q = entry t q)"
proof (induction ps arbitrary: t diffs)
  case (Cons p ps)
  then obtain t1 ds ds' where t1: "add_placeholder now p t = Some (t1, ds)" "lay_all (add_placeholder now) ps t1 = Some (t', ds')"
    by (auto split: option.splits)
  have "names_ok p" "\<forall>p \<in> set ps. names_ok p" using Cons.prems(3) by auto
  with add_keeps [OF t1(1) Cons.prems(2)] Cons.IH [OF t1(2)] show ?case by auto
qed simp

text \<open>An output declared before and after keeps its content.\<close>

lemma apply_layout_keeps:
  assumes l: "layout_ok D t" and "antichain D" and "antichain E"
    and "set removed = D - E" "distinct removed" "set added = E - D"
    and a: "apply_layout now removed added t = Some (t', ds)" and p: "p \<in> D" "p \<in> E"
  shows "entry t' p = entry t p"
proof -
  have ok: "tidy t" using laid_outD(1) l unfolding layout_ok_def mem_ok_def by blast
  obtain t1 ds1 ds2 where t1: "lay_all remove_with_empty_parents removed t = Some (t1, ds1)" "lay_all (add_placeholder now) added t1 = Some (t', ds2)"
    using a by (auto simp: apply_layout_def split: option.splits)
  have k: "tidy t1 \<and> entry t1 \<subseteq>\<^sub>m entry t" by (rule lay_all_removes [OF t1(1) ok])
  obtain t1' ds' where "lay_all remove_with_empty_parents removed t = Some (t1', ds')" "laid_out (D - set removed) [] t1'"
    using remove_all_laid_out [of D t removed] assms by (auto simp: layout_ok_def)
  with t1(1) have lo: "laid_out (D - set removed) [] t1" by simp
  have "p \<noteq> []" using antichainD(1) [OF \<open>antichain D\<close> p(1)] by (auto simp: inside_def)
  with laid_outD(2) [OF lo] p assms(4) have e: "entry t1 p \<noteq> None" by blast
  with k have "entry t1 p = entry t p" by (metis domIff map_le_def)
  moreover have "\<forall>p \<in> set added. names_ok p" using assms(6) antichainD(1) [OF \<open>antichain E\<close>] by (auto simp: inside_names_ok)
  moreover have "p \<notin> set added" using p assms(6) by blast
  ultimately show ?thesis using lay_all_adds [OF t1(2)] k e by auto
qed

text \<open>A declared output can always be written.\<close>

lemma write_laid_out:
  assumes l: "layout_ok D t" and a: "antichain D" and p: "p \<in> D"
  shows "\<exists>t' d. mem_write_file t (generic_string p) bytes now = Some (t', d) \<and> layout_ok D t' \<and>
    content_of t' p = Some bytes \<and> (\<forall>q. q \<noteq> p \<longrightarrow> entry t' q = entry t q)"
proof -
  have lo: "laid_out D [] t" using l by (simp add: layout_ok_def)
  note L = laid_outD [OF lo]
  have ins: "inside p" by (rule antichainD(1) [OF a p])
  then have ne: "p \<noteq> []" by (auto simp: inside_def)
  obtain n where n: "entry t p = Some n" using L(2) [OF ne] p by auto
  have par: "parent_is_directory t p" by (rule mem_ok_entry(3) [OF L(1) n ne])
  have fil: "is_file (n_info x)" if "entry t p = Some x" for x using L(3) [OF that] p by blast
  obtain t' d where t': "mem_write_file t (generic_string p) bytes now = Some (t', d)" "mem_ok t'"
    "entry t' = (entry t)(p \<mapsto> \<lparr>n_info = File_entry \<lparr>f_size = length bytes, f_mtime = now\<rparr>, n_content = Some bytes\<rparr>)"
    using write_file_entry [OF L(1) ins par fil] by blast
  have "laid_out D [] t'"
    unfolding laid_out_def t'(3) using t'(2) L(2,3) p by (auto simp del: not_None_eq)
  with t' show ?thesis by (auto simp: layout_ok_def content_of_def)
qed

section \<open>The layout is held right\<close>

fun wanted_of :: "phase \<Rightarrow> bool option" where
  "wanted_of (Recorded now bytes inputs wanted keep) = Some wanted"
| "wanted_of ph = None"

definition recorded_at :: "build_run list \<Rightarrow> nat \<Rightarrow> (string list \<times> bool) option" where
  "recorded_at rs i =
     (if i < length rs then map_option (Pair (u_output (n_launch (rs ! i)))) (wanted_of (n_phase (rs ! i))) else None)"

abbreviation outputs_of :: "btree \<Rightarrow> string list set" where
  "outputs_of b \<equiv> set (map fst (b_commands b))"

lemma declared_iff: "declared b p \<longleftrightarrow> p \<in> outputs_of b"
  by (simp add: declared_def map_of_eq_None_iff)

definition layout_held :: "machine \<Rightarrow> bool" where
  "layout_held m \<longleftrightarrow> distinct (map fst (b_commands (m_tree m))) \<and> antichain (outputs_of (m_tree m)) \<and>
     (case m_holder m of
        Free \<Rightarrow> layout_ok (outputs_of (m_tree m)) (b_structure (m_tree m))
      | Build i \<Rightarrow> layout_ok (outputs_of (m_tree m)) (b_structure (m_tree m)) \<and>
          (\<exists>p. recorded_at (m_runs m) i = Some (p, declared (m_tree m) p))
      | Rules removed added \<Rightarrow>
          (\<exists>D. layout_ok D (b_structure (m_tree m)) \<and> antichain D \<and> set removed = D - outputs_of (m_tree m) \<and>
            distinct removed \<and> set added = outputs_of (m_tree m) - D \<and> distinct added)) \<and>
     (\<forall>i. recorded_at (m_runs m) i \<noteq> None \<longrightarrow> m_holder m = Build i)"

lemma layout_quiet:
  assumes "layout_held m" and "b_commands (m_tree m') = b_commands (m_tree m)" and "b_structure (m_tree m') = b_structure (m_tree m)"
    and "m_holder m' = m_holder m" and "recorded_at (m_runs m') = recorded_at (m_runs m)"
  shows "layout_held m'"
  using assms(1) unfolding layout_held_def declared_def assms(2-5) .

lemma recorded_append [simp]: "recorded_at (rs @ launched u) = recorded_at rs"
proof
  fix i
  show "recorded_at (rs @ launched u) i = recorded_at rs i"
    by (cases u; cases "i < length rs"; cases "i = length rs") (simp_all add: recorded_at_def nth_append)
qed

lemma recorded_update:
  assumes "i < length rs"
  shows "recorded_at (rs[i := (rs ! i)\<lparr>n_phase := ph\<rparr>]) =
    (recorded_at rs)(i := map_option (Pair (u_output (n_launch (rs ! i)))) (wanted_of ph))"
proof
  fix j
  show "recorded_at (rs[i := (rs ! i)\<lparr>n_phase := ph\<rparr>]) j =
    ((recorded_at rs)(i := map_option (Pair (u_output (n_launch (rs ! i)))) (wanted_of ph))) j"
    using assms by (cases "j = i") (simp_all add: recorded_at_def)
qed

lemma recorded_same:
  assumes "i < length rs" and "wanted_of (n_phase (rs ! i)) = None" and "wanted_of ph = None"
  shows "recorded_at (rs[i := (rs ! i)\<lparr>n_phase := ph\<rparr>]) = recorded_at rs"
  using recorded_update [OF assms(1), of ph] assms by (auto simp: fun_eq_iff recorded_at_def)

lemma wanted_of_some: "wanted_of ph = Some w \<longleftrightarrow> (\<exists>now bytes inputs keep. ph = Recorded now bytes inputs w keep)"
  by (cases ph) auto

lemma open_same:
  assumes "bring_up_to_date p b = (b', t, u)"
  shows "b_commands b' = b_commands b" "b_structure b' = b_structure b"
proof -
  have "b_commands b' = b_commands b \<and> b_structure b' = b_structure b"
  proof (cases "map_of (b_commands b) p")
    case (Some c)
    have "b_commands (fst (claim_build p (touched p c b))) = b_commands b" "b_structure (fst (claim_build p (touched p c b))) = b_structure b"
      using claim_books(8,9) [of p "touched p c b" "fst (claim_build p (touched p c b))" "snd (claim_build p (touched p c b))"] by simp_all
    with assms show ?thesis unfolding bring_up_to_date_touched [OF Some] Let_def by (auto split: if_splits option.splits)
  qed (use assms in \<open>simp add: bring_up_to_date_def\<close>)
  then show "b_commands b' = b_commands b" "b_structure b' = b_structure b" by simp_all
qed

lemma start_same:
  assumes "start_build p b = (b', u)"
  shows "b_commands b' = b_commands b" "b_structure b' = b_structure b"
  using assms claim_books(8,9) by (auto simp: start_build_def split: if_splits prod.splits)

lemma finish_same:
  assumes "finish_section p r b = (b', u, orphan)"
  shows "b_commands b' = b_commands b" "b_structure b' = b_structure b"
  using assms by (cases rule: finish_cases; simp add: claim_books)+

lemma forget_same [simp]: "b_structure (forget_output p b) = b_structure b" "b_stale (forget_output p b) = b_stale b - {p}"
  by (simp_all add: forget_output_def Let_def)

lemma apply_same:
  "b_structure (apply_commands new b) = b_structure b" "b_commands (apply_commands new b) = new"
  "b_stale (apply_commands new b) = (b_stale b \<union> set (added_outputs new b)) - set (removed_outputs new b)"
  "b_in_flight (apply_commands new b) = b_in_flight b"
proof -
  have "b_structure (fold forget_output ps b) = b_structure b \<and> b_stale (fold forget_output ps b) = b_stale b - set ps \<and>
      b_in_flight (fold forget_output ps b) = b_in_flight b" for ps b
    by (induction ps arbitrary: b) (auto simp: forget_output_def Let_def)
  then show "b_structure (apply_commands new b) = b_structure b" "b_commands (apply_commands new b) = new"
    "b_stale (apply_commands new b) = (b_stale b \<union> set (added_outputs new b)) - set (removed_outputs new b)"
    "b_in_flight (apply_commands new b) = b_in_flight b"
    by (simp_all add: apply_commands_def Let_def)
qed

lemma added_removed:
  "set (added_outputs new b) = set (map fst new) - outputs_of b" "set (removed_outputs new b) = outputs_of b - set (map fst new)"
  "distinct (map fst new) \<Longrightarrow> distinct (added_outputs new b)" "distinct (map fst (b_commands b)) \<Longrightarrow> distinct (removed_outputs new b)"
  by (auto simp: added_outputs_def removed_outputs_def map_of_eq_None_iff)

lemma write_step:
  assumes "layout_held m" and "m_holder m = Build i"
  shows "\<exists>m'. write_move i m = Some m' \<and> layout_held m'"
proof -
  let ?b = "m_tree m" and ?p = "u_output (n_launch (m_runs m ! i))"
  obtain p where "recorded_at (m_runs m) i = Some (p, declared ?b p)" and l: "layout_ok (outputs_of ?b) (b_structure ?b)"
    and other: "\<And>j. recorded_at (m_runs m) j \<noteq> None \<Longrightarrow> j = i" and a: "distinct (map fst (b_commands ?b))" "antichain (outputs_of ?b)"
    using assms unfolding layout_held_def by auto
  then obtain now bytes inputs keep where i: "i < length (m_runs m)" "n_phase (m_runs m ! i) = Recorded now bytes inputs (declared ?b ?p) keep"
    by (auto simp: recorded_at_def wanted_of_some split: if_splits)
  have none: "recorded_at ((m_runs m)[i := (m_runs m ! i)\<lparr>n_phase := Written (Built bytes inputs) keep\<rparr>]) = (\<lambda>j. None)"
  proof
    fix j
    show "recorded_at ((m_runs m)[i := (m_runs m ! i)\<lparr>n_phase := Written (Built bytes inputs) keep\<rparr>]) j = None"
      unfolding recorded_update [OF i(1)] using other [of j] by (metis fun_upd_apply option.simps(8) wanted_of.simps(3))
  qed
  show ?thesis
  proof (cases "declared ?b ?p")
    case True
    obtain t d where t: "mem_write_file (b_structure ?b) (generic_string ?p) bytes now = Some (t, d)" "layout_ok (outputs_of ?b) t"
      using write_laid_out [OF l a(2) True [unfolded declared_iff]] by blast
    have "layout_held (set_phase i (Written (Built bytes inputs) keep) (m\<lparr>m_tree := ?b\<lparr>b_structure := t\<rparr>, m_holder := Free\<rparr>))"
      using a t(2) none by (simp add: layout_held_def)
    with i True t(1) show ?thesis by (simp add: write_move_def write_output_def)
  next
    case False
    have "layout_held (set_phase i (Written (Built bytes inputs) keep) (m\<lparr>m_holder := Free\<rparr>))"
      using a l none by (simp add: layout_held_def)
    with i False show ?thesis by (simp add: write_move_def)
  qed
qed

lemma lay_step:
  assumes "layout_held m" and "m_holder m = Rules removed added"
  shows "\<exists>m'. lay_move now m = Some m' \<and> layout_held m'"
proof -
  let ?b = "m_tree m"
  obtain D where D: "layout_ok D (b_structure ?b)" "antichain D" "set removed = D - outputs_of ?b" "distinct removed"
    "set added = outputs_of ?b - D" "distinct added" and a: "antichain (outputs_of ?b)" "distinct (map fst (b_commands ?b))"
    using assms unfolding layout_held_def by auto
  have none: "\<And>j. recorded_at (m_runs m) j = None" using assms unfolding layout_held_def by force
  from apply_layout_ok [OF D(1,2) a(1) D(3,4,5,6)] obtain t ds where
    t: "apply_layout now removed added (b_structure ?b) = Some (t, ds)" "layout_ok (outputs_of ?b) t" by blast
  have "layout_held (m\<lparr>m_tree := ?b\<lparr>b_structure := t\<rparr>, m_holder := Free\<rparr>)" using a t(2) none by (simp add: layout_held_def)
  with t(1) assms(2) show ?thesis by (simp add: lay_move_def lay_out_def)
qed

lemma free_none: "layout_held m \<Longrightarrow> \<forall>i. m_holder m \<noteq> Build i \<Longrightarrow> recorded_at (m_runs m) j = None"
  unfolding layout_held_def by blast

lemma quiet_phase:
  assumes "layout_held m" and "i < length (m_runs m)" and "wanted_of (n_phase (m_runs m ! i)) = None" and "wanted_of ph = None"
    and "m_runs m' = (m_runs m)[i := (m_runs m ! i)\<lparr>n_phase := ph\<rparr>] @ launched u" and "m_holder m' = m_holder m"
    and "b_commands (m_tree m') = b_commands (m_tree m)" and "b_structure (m_tree m') = b_structure (m_tree m)"
  shows "layout_held m'"
  by (rule layout_quiet [OF assms(1,7,8,6)]) (simp add: assms(5) recorded_same [OF assms(2-4)])

lemma move_layout:
  assumes ok: "layout_held m" and pm: "proper_move mv" and mv: "build_move cache mv m = Some m'"
  shows "layout_held m'"
proof (cases mv)
  case (Open p)
  obtain b t u where r: "bring_up_to_date p (m_tree m) = (b, t, u)" by (metis prod_cases3)
  with mv Open show ?thesis by (auto intro!: layout_quiet [OF ok] simp: open_move_def Let_def open_same [OF r])
next
  case (Start p)
  obtain b u where r: "start_build p (m_tree m) = (b, u)" by fastforce
  with mv Start show ?thesis by (auto intro!: layout_quiet [OF ok] simp: start_move_def Let_def start_same [OF r])
next
  case (Read reader p)
  with mv show ?thesis by (auto intro!: layout_quiet [OF ok] simp: record_read_def split: option.splits)
next
  case (Succeed i now bytes inputs)
  let ?p = "u_output (n_launch (m_runs m ! i))"
  obtain b d k where r: "record_success cache now ?p bytes inputs (m_tree m) = (b, d, k)" by (metis prod_cases3)
  have i: "i < length (m_runs m)" "n_phase (m_runs m ! i) = Running" "m_holder m = Free"
    and m': "m' = set_phase i (Recorded now bytes inputs d k) (m\<lparr>m_tree := b, m_holder := Build i\<rparr>)"
    using mv Succeed by (auto simp: succeed_move_def Let_def r split: if_splits)
  note b = record_success_same [OF r]
  have "recorded_at (m_runs m) j = None" for j
    by (rule free_none [OF ok]) (simp add: i(3))
  then have "recorded_at (m_runs m') = (\<lambda>j. None)(i := Some (?p, d))"
    using recorded_update [OF i(1), of "Recorded now bytes inputs d k"] by (auto simp: m' fun_eq_iff)
  moreover have "d = declared b ?p" using b by (simp add: declared_def)
  ultimately show ?thesis using ok i(3) b unfolding layout_held_def by (simp add: m' declared_def)
next
  case (Write i)
  have "m_holder m = Build i"
  proof -
    have "recorded_at (m_runs m) i \<noteq> None"
      using mv Write by (auto simp: write_move_def recorded_at_def wanted_of_some split: if_splits phase.splits)
    then show ?thesis using ok unfolding layout_held_def by blast
  qed
  with write_step [OF ok] mv Write show ?thesis by auto
next
  case (Fail i e inputs)
  with mv show ?thesis by (auto intro!: quiet_phase [OF ok, of i _ _ None] simp: fail_move_def split: if_splits)
next
  case (End_build i)
  then obtain r keep where i: "i < length (m_runs m)" "n_phase (m_runs m ! i) = Written r keep"
    using mv by (auto simp: end_move_def split: if_splits phase.splits)
  obtain b u orphan where f: "finish_section (u_output (n_launch (m_runs m ! i))) r (m_tree m) = (b, u, orphan)" by (metis prod_cases3)
  have m': "m' = set_phase i (Finished r orphan u keep) (m\<lparr>m_tree := b\<rparr>)" using mv End_build i f by (simp add: end_move_def Let_def)
  show ?thesis by (rule quiet_phase [OF ok i(1), of "Finished r orphan u keep" _ None]) (simp_all add: m' i finish_same [OF f])
next
  case (Answer i)
  then obtain r orphan u keep where i: "i < length (m_runs m)" "n_phase (m_runs m ! i) = Finished r orphan u keep"
    using mv by (auto simp: answer_move_def split: if_splits phase.splits)
  show ?thesis by (rule quiet_phase [OF ok i(1), of "Answered r u keep" _ None]) (use mv Answer i in \<open>auto simp: answer_move_def\<close>)
next
  case (Move_on i)
  then obtain r u keep where i: "i < length (m_runs m)" "n_phase (m_runs m ! i) = Answered r u keep"
    using mv by (auto simp: move_on_def split: if_splits phase.splits)
  show ?thesis by (rule quiet_phase [OF ok i(1), of "Done r" _ u]) (use mv Move_on i in \<open>auto simp: move_on_def Let_def\<close>)
next
  case (Take_rules new)
  have new: "distinct (map fst new)" "antichain (set (map fst new))" using pm Take_rules by simp_all
  have m': "m_holder m = Free" "m' = m\<lparr>m_tree := apply_commands new (m_tree m),
      m_holder := Rules (removed_outputs new (m_tree m)) (added_outputs new (m_tree m))\<rparr>"
    using mv Take_rules by (auto simp: take_rules_def split: if_splits)
  have none: "recorded_at (m_runs m) j = None" for j by (rule free_none [OF ok]) (simp add: m'(1))
  have old: "layout_ok (outputs_of (m_tree m)) (b_structure (m_tree m))" "antichain (outputs_of (m_tree m))" "distinct (map fst (b_commands (m_tree m)))"
    using ok m'(1) unfolding layout_held_def by simp_all
  have "\<exists>D. layout_ok D (b_structure (m_tree m)) \<and> antichain D \<and> set (removed_outputs new (m_tree m)) = D - set (map fst new) \<and>
      distinct (removed_outputs new (m_tree m)) \<and> set (added_outputs new (m_tree m)) = set (map fst new) - D \<and> distinct (added_outputs new (m_tree m))"
    using old added_removed(1,2) added_removed(3) [OF new(1)] added_removed(4) [OF old(3)] by blast
  then show ?thesis unfolding layout_held_def using new none by (simp add: m'(2) apply_same)
next
  case (Lay now)
  then obtain removed added where h: "m_holder m = Rules removed added" using mv by (auto simp: lay_move_def split: holder.splits)
  from lay_step [OF ok h, of now] mv Lay show ?thesis by auto
next
  case (Invalidate ps)
  with mv show ?thesis by (auto intro!: layout_quiet [OF ok] simp: invalidate_move_def invalidate_def Let_def)
next
  case Materialize
  with mv show ?thesis by (auto intro!: layout_quiet [OF ok] simp: materialize_all_def Let_def)
qed

lemma reached_layout: "machine_reached cache source m \<Longrightarrow> layout_held m"
proof (induction rule: machine_reached.induct)
  case start
  show ?case using layout_new by (simp add: layout_held_def machine_new_def btree_new_def recorded_at_def antichain_def)
next
  case (move m mv m')
  then show ?case using move_layout by blast
qed

section \<open>Up to date means built\<close>

fun past_bytes :: "phase \<Rightarrow> string option" where
  "past_bytes (Finished (Built bytes inputs) orphan next k) = Some bytes"
| "past_bytes (Answered (Built bytes inputs) next k) = Some bytes"
| "past_bytes (Done (Built bytes inputs)) = Some bytes"
| "past_bytes ph = None"

fun held_bytes :: "phase \<Rightarrow> string option" where
  "held_bytes (Written (Built bytes inputs) k) = Some bytes"
| "held_bytes ph = None"

definition built_by :: "build_run list \<Rightarrow> string list \<Rightarrow> string \<Rightarrow> bool" where
  "built_by rs p bytes \<longleftrightarrow> (\<exists>i < length rs. u_output (n_launch (rs ! i)) = p \<and> past_bytes (n_phase (rs ! i)) = Some bytes)"

definition holding :: "build_run list \<Rightarrow> string list \<Rightarrow> string \<Rightarrow> bool" where
  "holding rs p bytes \<longleftrightarrow> (\<exists>i < length rs. u_output (n_launch (rs ! i)) = p \<and> held_bytes (n_phase (rs ! i)) = Some bytes)"

definition serves :: "machine \<Rightarrow> string list \<Rightarrow> bool" where
  "serves m p \<longleftrightarrow> p \<in> b_stale (m_tree m) \<or>
     (p \<in> b_in_flight (m_tree m) \<or> (\<exists>bytes. built_by (m_runs m) p bytes \<and> content_of (b_structure (m_tree m)) p = Some bytes)) \<and>
     (\<forall>bytes. holding (m_runs m) p bytes \<longrightarrow> content_of (b_structure (m_tree m)) p = Some bytes)"

definition replaced :: "machine \<Rightarrow> string list \<Rightarrow> bool" where
  "replaced m p \<longleftrightarrow> p \<in> b_stale (m_tree m) \<or> p \<in> b_in_flight (m_tree m) \<and> (\<forall>bytes. \<not> holding (m_runs m) p bytes)"

definition serving_ok :: "machine \<Rightarrow> bool" where
  "serving_ok m \<longleftrightarrow> (\<forall>p. declared (m_tree m) p \<longrightarrow> serves m p) \<and>
     (case m_holder m of Rules removed added \<Rightarrow> \<forall>p \<in> set added. replaced m p | _ \<Rightarrow> True)"

lemma distinct_concat_nth:
  "distinct (concat xss) \<Longrightarrow> i < length xss \<Longrightarrow> j < length xss \<Longrightarrow> x \<in> set (xss ! i) \<Longrightarrow> x \<in> set (xss ! j) \<Longrightarrow> i = j"
proof (induction xss arbitrary: i j)
  case (Cons xs xss)
  have "x \<in> set (concat xss)" if "k < length xss" "x \<in> set (xss ! k)" for k using that by (metis UN_I nth_mem set_concat)
  with Cons show ?case by (cases i; cases j) (auto dest: nth_mem)
qed simp

text \<open>One build at a time of each output.\<close>

lemma one_claim:
  assumes b: "machine_books m" and i: "i < length (m_runs m)" "l \<in> set (claims_of (n_phase (m_runs m ! i)) (n_launch (m_runs m ! i)))"
    and j: "j < length (m_runs m)" "l' \<in> set (claims_of (n_phase (m_runs m ! j)) (n_launch (m_runs m ! j)))"
    and eq: "u_output l = u_output l'"
  shows "i = j"
proof -
  let ?xss = "map (\<lambda>r. map u_output (claims_of (n_phase r) (n_launch r))) (m_runs m)"
  have "distinct (map u_output (claims m))" using b by (simp add: machine_books_def books_ok_def flights_ok_def)
  then have "distinct (concat ?xss)" by (simp add: claims_def map_concat comp_def)
  moreover have "u_output l \<in> set (?xss ! i)" using i by simp
  moreover have "u_output l \<in> set (?xss ! j)" unfolding eq using j by simp
  ultimately show ?thesis using distinct_concat_nth [of ?xss i j] i(1) j(1) by simp
qed

lemma claim_in_flight:
  assumes b: "machine_books m" and i: "i < length (m_runs m)" "l \<in> set (claims_of (n_phase (m_runs m ! i)) (n_launch (m_runs m ! i)))"
  shows "u_output l \<in> b_in_flight (m_tree m)"
proof -
  have "l \<in> set (claims m)" unfolding claims_def using i nth_mem [OF i(1)] by auto
  then show ?thesis using b by (auto simp: machine_books_def books_ok_def flights_ok_def)
qed

lemma holding_in_flight: "machine_books m \<Longrightarrow> holding (m_runs m) p bytes \<Longrightarrow> p \<in> b_in_flight (m_tree m)"
proof -
  assume b: "machine_books m" and "holding (m_runs m) p bytes"
  then obtain i where i: "i < length (m_runs m)" "u_output (n_launch (m_runs m ! i)) = p" "held_bytes (n_phase (m_runs m ! i)) = Some bytes"
    by (auto simp: holding_def)
  then have "n_launch (m_runs m ! i) \<in> set (claims_of (n_phase (m_runs m ! i)) (n_launch (m_runs m ! i)))"
    by (cases "n_phase (m_runs m ! i)") auto
  from claim_in_flight [OF b i(1) this] i(2) show ?thesis by simp
qed

lemma launched_nth:
  assumes "f Running = (None :: string option)"
  shows "(\<exists>i < length (rs @ launched u). u_output (n_launch ((rs @ launched u) ! i)) = p \<and> f (n_phase ((rs @ launched u) ! i)) = Some bytes) \<longleftrightarrow>
      (\<exists>i < length rs. u_output (n_launch (rs ! i)) = p \<and> f (n_phase (rs ! i)) = Some bytes)"
  using assms by (cases u) (simp_all add: Ex_less_Suc nth_append cong: conj_cong)

lemma launched_history [simp]: "built_by (rs @ launched u) = built_by rs" "holding (rs @ launched u) = holding rs"
  unfolding built_by_def holding_def fun_eq_iff
  using launched_nth [of past_bytes rs u] launched_nth [of held_bytes rs u] by simp_all

lemma phase_history:
  assumes "i < length rs"
  shows "holding (rs[i := (rs ! i)\<lparr>n_phase := ph\<rparr>]) p bytes \<longleftrightarrow>
      (p = u_output (n_launch (rs ! i)) \<and> held_bytes ph = Some bytes) \<or>
      (\<exists>j < length rs. j \<noteq> i \<and> u_output (n_launch (rs ! j)) = p \<and> held_bytes (n_phase (rs ! j)) = Some bytes)"
    "built_by (rs[i := (rs ! i)\<lparr>n_phase := ph\<rparr>]) p bytes \<longleftrightarrow>
      (p = u_output (n_launch (rs ! i)) \<and> past_bytes ph = Some bytes) \<or>
      (\<exists>j < length rs. j \<noteq> i \<and> u_output (n_launch (rs ! j)) = p \<and> past_bytes (n_phase (rs ! j)) = Some bytes)"
proof -
  show "holding (rs[i := (rs ! i)\<lparr>n_phase := ph\<rparr>]) p bytes \<longleftrightarrow>
      (p = u_output (n_launch (rs ! i)) \<and> held_bytes ph = Some bytes) \<or>
      (\<exists>j < length rs. j \<noteq> i \<and> u_output (n_launch (rs ! j)) = p \<and> held_bytes (n_phase (rs ! j)) = Some bytes)"
    using assms unfolding holding_def by (simp add: nth_list_update) metis
  show "built_by (rs[i := (rs ! i)\<lparr>n_phase := ph\<rparr>]) p bytes \<longleftrightarrow>
      (p = u_output (n_launch (rs ! i)) \<and> past_bytes ph = Some bytes) \<or>
      (\<exists>j < length rs. j \<noteq> i \<and> u_output (n_launch (rs ! j)) = p \<and> past_bytes (n_phase (rs ! j)) = Some bytes)"
    using assms unfolding built_by_def by (simp add: nth_list_update) metis
qed

text \<open>What was neither stale nor built stays so, or gets a build where there was none.\<close>

definition shifts :: "btree \<Rightarrow> btree \<Rightarrow> bool" where
  "shifts b b' \<longleftrightarrow> b_commands b' = b_commands b \<and> b_structure b' = b_structure b \<and>
     (\<forall>q. q \<notin> b_stale b' \<longrightarrow> (q \<notin> b_stale b \<and> (q \<in> b_in_flight b' \<longleftrightarrow> q \<in> b_in_flight b)) \<or> (q \<in> b_in_flight b' \<and> q \<notin> b_in_flight b))"

lemma shifts_refl: "shifts b b" by (simp add: shifts_def)

lemma serving_shift:
  assumes ok: "serving_ok m" and b: "machine_books m" and s: "shifts (m_tree m) (m_tree m')"
    and r: "built_by (m_runs m') = built_by (m_runs m)" "holding (m_runs m') = holding (m_runs m)"
    and h: "m_holder m' = m_holder m \<or> (\<forall>removed added. m_holder m' \<noteq> Rules removed added)"
  shows "serving_ok m'"
proof -
  have none: "\<not> holding (m_runs m) q bytes" if "q \<notin> b_in_flight (m_tree m)" for q bytes
    using holding_in_flight [OF b] that by blast
  have serves: "serves m' q" if "serves m q" for q
    using that s none [of q] unfolding serves_def shifts_def r by (metis (no_types))
  have repl: "replaced m' q" if "replaced m q" for q
    using that s none [of q] unfolding replaced_def shifts_def r by (metis (no_types))
  have d: "declared (m_tree m') = declared (m_tree m)" using s by (simp add: shifts_def declared_def fun_eq_iff)
  show ?thesis
    using ok h serves repl unfolding serving_ok_def d by (auto split: holder.splits)
qed

lemma open_shifts:
  assumes "bring_up_to_date p b = (b', t, u)"
  shows "shifts b b'"
proof (cases "map_of (b_commands b) p")
  case (Some c)
  let ?b = "touched p c b"
  have c: "shifts b (fst (claim_build p ?b))" if "p \<notin> b_in_flight b"
    using claim_books(6-9) [of p ?b "fst (claim_build p ?b)" "snd (claim_build p ?b)"] touched_stale(1) [of b p c] that
    by (auto simp: shifts_def)
  have "shifts b ?b" using touched_stale(1) [of b p c] by (auto simp: shifts_def)
  moreover have "shifts b (?b\<lparr>b_attempts := A, b_created := n\<rparr>)" for A n
    using touched_stale(1) [of b p c] by (auto simp: shifts_def)
  ultimately show ?thesis
    using assms c unfolding bring_up_to_date_touched [OF Some] Let_def by (auto split: if_splits option.splits)
qed (use assms in \<open>simp add: bring_up_to_date_def shifts_refl\<close>)

lemma start_shifts:
  assumes "start_build p b = (b', u)"
  shows "shifts b b'"
proof -
  have "shifts b (fst (claim_build p b))" if "p \<notin> b_in_flight b"
    using claim_books(6-9) [of p b "fst (claim_build p b)" "snd (claim_build p b)"] that by (auto simp: shifts_def)
  with assms show ?thesis by (auto simp: start_build_def shifts_refl split: if_splits prod.splits)
qed

lemma history_same:
  assumes "i < length rs" and "past_bytes ph = past_bytes (n_phase (rs ! i))" and "held_bytes ph = held_bytes (n_phase (rs ! i))"
  shows "built_by (rs[i := (rs ! i)\<lparr>n_phase := ph\<rparr>]) = built_by rs" "holding (rs[i := (rs ! i)\<lparr>n_phase := ph\<rparr>]) = holding rs"
proof -
  have "built_by (rs[i := (rs ! i)\<lparr>n_phase := ph\<rparr>]) p bytes = built_by rs p bytes" for p bytes
    unfolding phase_history(2) [OF assms(1)] assms(2) using assms(1) unfolding built_by_def by blast
  then show "built_by (rs[i := (rs ! i)\<lparr>n_phase := ph\<rparr>]) = built_by rs" by (simp add: fun_eq_iff)
  have "holding (rs[i := (rs ! i)\<lparr>n_phase := ph\<rparr>]) p bytes = holding rs p bytes" for p bytes
    unfolding phase_history(1) [OF assms(1)] assms(3) using assms(1) unfolding holding_def by blast
  then show "holding (rs[i := (rs ! i)\<lparr>n_phase := ph\<rparr>]) = holding rs" by (simp add: fun_eq_iff)
qed

lemma serving_phase:
  assumes "serving_ok m" and "machine_books m" and "i < length (m_runs m)"
    and "past_bytes ph = past_bytes (n_phase (m_runs m ! i))" and "held_bytes ph = held_bytes (n_phase (m_runs m ! i))"
    and "m_runs m' = (m_runs m)[i := (m_runs m ! i)\<lparr>n_phase := ph\<rparr>] @ launched u" and "shifts (m_tree m) (m_tree m')"
    and "m_holder m' = m_holder m \<or> (\<forall>removed added. m_holder m' \<noteq> Rules removed added)"
  shows "serving_ok m'"
  by (rule serving_shift [OF assms(1,2,7) _ _ assms(8)]) (simp_all add: assms(6) history_same [OF assms(3-5)])

lemma active_claims: "held_bytes ph = Some bytes \<or> wanted_of ph = Some w \<or> (\<exists>r k. ph = Written r k) \<Longrightarrow> claims_of ph l = [l]"
  by (cases ph) auto

lemma serving_write:
  assumes ok: "serving_ok m" and b: "machine_books m" and l: "layout_held m" and h: "m_holder m = Build i"
    and w: "write_move i m = Some m'"
  shows "serving_ok m'"
proof -
  let ?b = "m_tree m" and ?p = "u_output (n_launch (m_runs m ! i))"
  obtain p where rec: "recorded_at (m_runs m) i = Some (p, declared ?b p)" and lo: "layout_ok (outputs_of ?b) (b_structure ?b)"
    and a: "antichain (outputs_of ?b)"
    using l h unfolding layout_held_def by auto
  then obtain now bytes inputs keep where i: "i < length (m_runs m)" "n_phase (m_runs m ! i) = Recorded now bytes inputs (declared ?b ?p) keep"
    by (auto simp: recorded_at_def wanted_of_some split: if_splits)
  have only: "\<not> (\<exists>j < length (m_runs m). j \<noteq> i \<and> u_output (n_launch (m_runs m ! j)) = ?p \<and> held_bytes (n_phase (m_runs m ! j)) = Some x)" for x
    using one_claim [OF b i(1), of "n_launch (m_runs m ! i)" _ "n_launch (m_runs m ! _)"] i(2) active_claims
    by (metis list.set_intros(1) claims_of.simps(2))
  have fl: "?p \<in> b_in_flight ?b" by (rule claim_in_flight [OF b i(1)]) (simp add: i(2))
  define t where "t = b_structure (m_tree m')"
  have all: "(m_runs m' = (m_runs m)[i := (m_runs m ! i)\<lparr>n_phase := Written (Built bytes inputs) keep\<rparr>] \<and> m_holder m' = Free \<and>
      b_commands (m_tree m') = b_commands ?b \<and> b_stale (m_tree m') = b_stale ?b \<and> b_in_flight (m_tree m') = b_in_flight ?b) \<and>
      (declared ?b ?p \<longrightarrow> content_of t ?p = Some bytes) \<and> (\<forall>q. q \<noteq> ?p \<longrightarrow> content_of t q = content_of (b_structure ?b) q)"
  proof (cases "declared ?b ?p")
    case True
    obtain t' d where t': "mem_write_file (b_structure ?b) (generic_string ?p) bytes now = Some (t', d)"
      "content_of t' ?p = Some bytes" "\<forall>q. q \<noteq> ?p \<longrightarrow> entry t' q = entry (b_structure ?b) q"
      using write_laid_out [OF lo a True [unfolded declared_iff]] by blast
    then have "m' = set_phase i (Written (Built bytes inputs) keep) (m\<lparr>m_tree := ?b\<lparr>b_structure := t'\<rparr>, m_holder := Free\<rparr>)"
      using w i True by (simp add: write_move_def write_output_def)
    with t' True show ?thesis by (simp add: t_def content_of_def)
  next
    case False
    then have "m' = set_phase i (Written (Built bytes inputs) keep) (m\<lparr>m_holder := Free\<rparr>)"
      using w i by (simp add: write_move_def)
    with False show ?thesis by (simp add: t_def)
  qed
  then have m': "m_runs m' = (m_runs m)[i := (m_runs m ! i)\<lparr>n_phase := Written (Built bytes inputs) keep\<rparr>]" "m_holder m' = Free"
      "b_commands (m_tree m') = b_commands ?b" "b_stale (m_tree m') = b_stale ?b" "b_in_flight (m_tree m') = b_in_flight ?b"
    by simp_all
  have t: "declared ?b ?p \<Longrightarrow> content_of t ?p = Some bytes" "\<And>q. q \<noteq> ?p \<Longrightarrow> content_of t q = content_of (b_structure ?b) q"
    using all by blast+
  have H: "holding (m_runs m') q x \<longleftrightarrow> (if q = ?p then x = bytes else holding (m_runs m) q x)" for q x
    unfolding m'(1) phase_history(1) [OF i(1)] using only i(2) by (auto simp: holding_def)
  have B: "built_by (m_runs m') = built_by (m_runs m)"
    unfolding m'(1) fun_eq_iff phase_history(2) [OF i(1)] using i by (auto simp: built_by_def)
  have "serves m' q" if d: "declared ?b q" for q
  proof -
    have "serves m q" using ok d by (simp add: serving_ok_def)
    then show ?thesis using t(1,2) fl d unfolding serves_def H B m'(2-5) t_def by (cases "q = ?p") auto
  qed
  moreover have "declared (m_tree m') = declared ?b" by (simp add: declared_def m' fun_eq_iff)
  ultimately show ?thesis by (simp add: serving_ok_def m')
qed

lemma serving_end:
  assumes ok: "serving_ok m" and b: "machine_books m" and i: "i < length (m_runs m)" "n_phase (m_runs m ! i) = Written r keep"
    and f: "finish_section (u_output (n_launch (m_runs m ! i))) r (m_tree m) = (b', u, orphan)"
    and m': "m' = set_phase i (Finished r orphan u keep) (m\<lparr>m_tree := b'\<rparr>)"
    and l: "layout_held m"
  shows "serving_ok m'"
proof -
  let ?b = "m_tree m" and ?p = "u_output (n_launch (m_runs m ! i))"
  have only: "\<not> (\<exists>j < length (m_runs m). j \<noteq> i \<and> u_output (n_launch (m_runs m ! j)) = ?p \<and> held_bytes (n_phase (m_runs m ! j)) = Some x)" for x
    using one_claim [OF b i(1), of "n_launch (m_runs m ! i)" _ "n_launch (m_runs m ! _)"] i(2) active_claims
    by (metis list.set_intros(1) claims_of.simps(3))
  have H: "holding (m_runs m') q x \<longleftrightarrow> q \<noteq> ?p \<and> holding (m_runs m) q x" for q x
    unfolding m' set_phase_simps by (simp add: phase_history(1) [OF i(1)], use only i(2) in \<open>auto simp: holding_def\<close>)
  have B: "built_by (m_runs m') q x" if "built_by (m_runs m) q x" for q x
    using that unfolding m' set_phase_simps by (simp add: phase_history(2) [OF i(1)], use i(2) in \<open>auto simp: built_by_def\<close>)
  have B': "built_by (m_runs m') ?p bytes" if "r = Built bytes is" for bytes "is"
    unfolding m' set_phase_simps using that by (simp add: phase_history(2) [OF i(1)])
  have held: "holding (m_runs m) ?p bytes" if "r = Built bytes is" for bytes "is"
    using i that by (auto simp: holding_def)
  have same: "b_commands b' = b_commands ?b" "b_structure b' = b_structure ?b" by (rule finish_same [OF f])+
  have other: "q \<in> b_stale b' \<longleftrightarrow> q \<in> b_stale ?b" "q \<in> b_in_flight b' \<longleftrightarrow> q \<in> b_in_flight ?b" if "q \<noteq> ?p" for q
    using f that by (cases rule: finish_cases; auto simp: claim_books)+
  have p: "?p \<in> b_in_flight b' \<or> \<not> declared ?b ?p \<or> ?p \<in> b_stale b' \<or> (?p \<notin> b_stale ?b \<and> (\<exists>bytes is. r = Built bytes is))"
    using f by (cases rule: finish_cases; cases r) (auto simp: claim_books)
  have serves: "serves m' q" if d: "declared ?b q" and s: "serves m q" for q
  proof (cases "q = ?p")
    case True
    with p d s held B' show ?thesis unfolding serves_def H by (auto simp: m' same)
  next
    case False
    with s B other [OF False] show ?thesis unfolding serves_def H by (auto simp: m' same)
  qed
  have repl: "replaced m' q" if d: "declared ?b q" and s: "replaced m q" for q
  proof (cases "q = ?p")
    case True
    with p d s held show ?thesis unfolding replaced_def H by (auto simp: m')
  next
    case False
    with s other [OF False] show ?thesis unfolding replaced_def H by (auto simp: m')
  qed
  have D: "declared (m_tree m') = declared ?b" by (simp add: declared_def m' same fun_eq_iff)
  have "declared ?b q" if "m_holder m = Rules removed added" "q \<in> set added" for removed added q
    using l that by (auto simp: layout_held_def declared_iff)
  moreover have "m_holder m' = m_holder m" by (simp add: m')
  ultimately show ?thesis unfolding serving_ok_def D
    using ok serves repl by (auto simp: serving_ok_def split: holder.splits)
qed

lemma serving_rules:
  assumes ok: "serving_ok m" and m': "m' = m\<lparr>m_tree := apply_commands new (m_tree m),
      m_holder := Rules (removed_outputs new (m_tree m)) (added_outputs new (m_tree m))\<rparr>"
  shows "serving_ok m'"
proof -
  let ?b = "m_tree m"
  have S: "q \<in> b_stale (m_tree m') \<longleftrightarrow> q \<in> b_stale ?b" if "q \<in> outputs_of ?b" "q \<in> set (map fst new)" for q
    unfolding m' using that added_removed(1,2) [of new ?b] by (auto simp: apply_same)
  have A: "q \<in> b_stale (m_tree m')" if "q \<in> set (added_outputs new ?b)" for q
    unfolding m' using that added_removed(1,2) [of new ?b] by (auto simp: apply_same)
  have "serves m' q" if d: "q \<in> set (map fst new)" for q
  proof (cases "q \<in> outputs_of ?b")
    case True
    with ok have "serves m q" by (simp add: serving_ok_def declared_iff)
    then show ?thesis unfolding serves_def S [OF True d] by (simp add: m' apply_same)
  next
    case False
    with d A added_removed(1) [of new ?b] show ?thesis by (auto simp: serves_def)
  qed
  moreover have "replaced m' q" if "q \<in> set (added_outputs new ?b)" for q using A [OF that] by (simp add: replaced_def)
  moreover have "declared (m_tree m') q \<longleftrightarrow> q \<in> set (map fst new)" for q by (simp add: declared_iff m' apply_same)
  ultimately show ?thesis unfolding serving_ok_def by (simp add: m')
qed

lemma serving_lay:
  assumes ok: "serving_ok m" and l: "layout_held m" and h: "m_holder m = Rules removed added" and mv: "lay_move now m = Some m'"
  shows "serving_ok m'"
proof -
  let ?b = "m_tree m"
  obtain D where D: "layout_ok D (b_structure ?b)" "antichain D" "set removed = D - outputs_of ?b" "distinct removed"
    "set added = outputs_of ?b - D" and a: "antichain (outputs_of ?b)"
    using l h unfolding layout_held_def by auto
  obtain t ds where t: "apply_layout now removed added (b_structure ?b) = Some (t, ds)"
    and m': "m' = m\<lparr>m_tree := ?b\<lparr>b_structure := t\<rparr>, m_holder := Free\<rparr>"
    using mv h by (auto simp: lay_move_def lay_out_def)
  have "serves m' q" if d: "declared ?b q" for q
  proof (cases "q \<in> set added")
    case True
    with ok h have "replaced m q" by (simp add: serving_ok_def)
    then show ?thesis by (auto simp: replaced_def serves_def m')
  next
    case False
    with d D(5) have "q \<in> D" "q \<in> outputs_of ?b" by (auto simp: declared_iff)
    from apply_layout_keeps [OF D(1,2) a D(3,4,5) t this] have "content_of t q = content_of (b_structure ?b) q"
      by (simp add: content_of_def)
    moreover have "serves m q" using ok d by (simp add: serving_ok_def)
    ultimately show ?thesis by (simp add: serves_def m')
  qed
  moreover have "declared (m_tree m') = declared ?b" by (simp add: declared_def m' fun_eq_iff)
  ultimately show ?thesis by (simp add: serving_ok_def m')
qed

lemma move_serving:
  assumes ok: "serving_ok m" and b: "machine_books m" and l: "layout_held m" and mv: "build_move cache mv m = Some m'"
  shows "serving_ok m'"
proof (cases mv)
  case (Open p)
  obtain b' t u where r: "bring_up_to_date p (m_tree m) = (b', t, u)" by (metis prod_cases3)
  with mv Open show ?thesis by (auto intro!: serving_shift [OF ok b] simp: open_move_def Let_def open_shifts [OF r])
next
  case (Start p)
  obtain b' u where r: "start_build p (m_tree m) = (b', u)" by fastforce
  with mv Start show ?thesis by (auto intro!: serving_shift [OF ok b] simp: start_move_def Let_def start_shifts [OF r])
next
  case (Read reader p)
  with mv show ?thesis by (auto intro!: serving_shift [OF ok b] simp: shifts_def record_read_def split: option.splits)
next
  case (Succeed i now bytes inputs)
  obtain b' d k where r: "record_success cache now (u_output (n_launch (m_runs m ! i))) bytes inputs (m_tree m) = (b', d, k)"
    by (metis prod_cases3)
  have i: "i < length (m_runs m)" "n_phase (m_runs m ! i) = Running"
    and m': "m' = set_phase i (Recorded now bytes inputs d k) (m\<lparr>m_tree := b', m_holder := Build i\<rparr>)"
    using mv Succeed by (auto simp: succeed_move_def Let_def r split: if_splits)
  have "shifts (m_tree m) b'" using record_success_same [OF r] by (simp add: shifts_def)
  then show ?thesis by (intro serving_phase [OF ok b i(1), of "Recorded now bytes inputs d k" _ None]) (simp_all add: m' i)
next
  case (Write i)
  have "m_holder m = Build i"
  proof -
    have "recorded_at (m_runs m) i \<noteq> None"
      using mv Write by (auto simp: write_move_def recorded_at_def wanted_of_some split: if_splits phase.splits)
    then show ?thesis using l unfolding layout_held_def by blast
  qed
  with serving_write [OF ok b l] mv Write show ?thesis by simp
next
  case (Fail i e inputs)
  then have i: "i < length (m_runs m)" "n_phase (m_runs m ! i) = Running" and m': "m' = set_phase i (Written (Broken e inputs) None) m"
    using mv by (auto simp: fail_move_def split: if_splits)
  show ?thesis by (rule serving_phase [OF ok b i(1), of "Written (Broken e inputs) None" _ None]) (simp_all add: m' i shifts_refl)
next
  case (End_build i)
  then obtain r keep where i: "i < length (m_runs m)" "n_phase (m_runs m ! i) = Written r keep"
    using mv by (auto simp: end_move_def split: if_splits phase.splits)
  obtain b' u orphan where f: "finish_section (u_output (n_launch (m_runs m ! i))) r (m_tree m) = (b', u, orphan)" by (metis prod_cases3)
  have "m' = set_phase i (Finished r orphan u keep) (m\<lparr>m_tree := b'\<rparr>)" using mv End_build i f by (simp add: end_move_def Let_def)
  from serving_end [OF ok b i f this l] show ?thesis .
next
  case (Answer i)
  then obtain r orphan u keep where i: "i < length (m_runs m)" "n_phase (m_runs m ! i) = Finished r orphan u keep"
    using mv by (auto simp: answer_move_def split: if_splits phase.splits)
  have r: "past_bytes (Answered r u keep) = past_bytes (Finished r orphan u keep)" by (cases r) simp_all
  show ?thesis
    by (rule serving_phase [OF ok b i(1), of "Answered r u keep" _ None])
      (use mv Answer i r in \<open>auto simp: answer_move_def shifts_refl\<close>)
next
  case (Move_on i)
  then obtain r u keep where i: "i < length (m_runs m)" "n_phase (m_runs m ! i) = Answered r u keep"
    using mv by (auto simp: move_on_def split: if_splits phase.splits)
  have r: "past_bytes (Done r) = past_bytes (Answered r u keep)" by (cases r) simp_all
  show ?thesis
    by (rule serving_phase [OF ok b i(1), of "Done r" _ u])
      (use mv Move_on i r in \<open>auto simp: move_on_def Let_def shifts_refl\<close>)
next
  case (Take_rules new)
  with mv serving_rules [OF ok] show ?thesis by (auto simp: take_rules_def split: if_splits)
next
  case (Lay now)
  then obtain removed added where h: "m_holder m = Rules removed added" using mv by (auto simp: lay_move_def split: holder.splits)
  from serving_lay [OF ok l h, of now] mv Lay show ?thesis by simp
next
  case (Invalidate ps)
  with mv show ?thesis by (auto intro!: serving_shift [OF ok b] simp: shifts_def invalidate_move_def invalidate_def Let_def)
next
  case Materialize
  with mv show ?thesis by (auto intro!: serving_shift [OF ok b] simp: shifts_def materialize_all_def Let_def)
qed

lemma reached_serving: "machine_reached cache source m \<Longrightarrow> serving_ok m"
proof (induction rule: machine_reached.induct)
  case start
  show ?case by (simp add: serving_ok_def machine_new_def btree_new_def declared_def)
next
  case (move m mv m')
  then show ?case using move_serving reached_books reached_layout by blast
qed

end
