(* ===== verification/Build_Liveness.thy ===== *)
theory Build_Liveness
  imports Build_Serving
begin

text \<open>
  Left alone, the builds drain: each move that is a build's own (its command ending, or a
  section of \<^verbatim>\<open>finish_build\<close>) lowers a rank, whatever the results, and as long as an attempt is
  unanswered one such move can be made.
\<close>

section \<open>The moves of the builds\<close>

text \<open>The result of each build is fixed by a function of what was launched.\<close>

fun own :: "(launch \<Rightarrow> outcome) \<Rightarrow> machine \<Rightarrow> move \<Rightarrow> bool" where
  "own result m (Succeed i now bytes inputs) = (i < length (m_runs m) \<and> result (n_launch (m_runs m ! i)) = Built bytes inputs)"
| "own result m (Fail i e inputs) = (i < length (m_runs m) \<and> result (n_launch (m_runs m ! i)) = Broken e inputs)"
| "own result m (Write i) = True"
| "own result m (End_build i) = True"
| "own result m (Answer i) = True"
| "own result m (Move_on i) = True"
| "own result m (Lay now) = True"
| "own result m mv = False"

fun drain :: "(launch \<Rightarrow> outcome) \<Rightarrow> (string \<Rightarrow> string) option \<Rightarrow> move list \<Rightarrow> machine \<Rightarrow> machine option" where
  "drain result cache [] m = Some m"
| "drain result cache (mv # mvs) m =
     (if own result m mv then (case build_move cache mv m of None \<Rightarrow> None | Some m' \<Rightarrow> drain result cache mvs m') else None)"

definition quiescent :: "(launch \<Rightarrow> outcome) \<Rightarrow> (string \<Rightarrow> string) option \<Rightarrow> machine \<Rightarrow> bool" where
  "quiescent result cache m \<longleftrightarrow> (\<forall>mv. own result m mv \<longrightarrow> build_move cache mv m = None)"

section \<open>The rank\<close>

fun weight :: "phase \<Rightarrow> nat" where
  "weight Running = 5"
| "weight (Recorded now bytes inputs d k) = 4"
| "weight (Written r k) = 3"
| "weight (Finished r orphan next k) = 2 + 5 * length (opt_list next)"
| "weight (Answered r next k) = 1 + 5 * length (opt_list next)"
| "weight (Done r) = 0"

text \<open>The outputs in flight that will be built once more.\<close>

definition again :: "btree \<Rightarrow> string list set" where
  "again b = {p \<in> b_in_flight b. p \<in> b_stale b \<or> next_of b p \<noteq> None}"

definition held_rank :: "holder \<Rightarrow> nat" where
  "held_rank h = (case h of Rules removed added \<Rightarrow> 1 | _ \<Rightarrow> 0)"

definition rank :: "machine \<Rightarrow> nat" where
  "rank m = (\<Sum>r \<leftarrow> m_runs m. weight (n_phase r)) + 5 * card (again (m_tree m)) + held_rank (m_holder m)"

lemma weight_update:
  "i < length rs \<Longrightarrow> (\<Sum>r \<leftarrow> rs[i := (rs ! i)\<lparr>n_phase := ph\<rparr>]. weight (n_phase r)) + weight (n_phase (rs ! i)) =
   (\<Sum>r \<leftarrow> rs. weight (n_phase r)) + weight ph"
proof (induction rs arbitrary: i)
  case (Cons r rs)
  show ?case
  proof (cases i)
    case (Suc k)
    with Cons.IH [of k] Cons.prems show ?thesis by simp
  qed simp
qed simp

lemma weight_launched: "(\<Sum>r \<leftarrow> launched u. weight (n_phase r)) = 5 * length (opt_list u)"
  by (cases u) simp_all

lemma finite_flights: "machine_books m \<Longrightarrow> finite (b_in_flight (m_tree m))"
  by (metis List.finite_set finite_imageI machine_books_def books_ok_def flights_ok_def)

lemma finish_again:
  assumes f: "finish_section p r b = (b', u, orphan)" and p: "p \<in> b_in_flight b" and fin: "finite (b_in_flight b)"
  shows "card (again b') + length (opt_list u) \<le> card (again b)"
  using f
proof (cases rule: finish_cases)
  case removed
  have "again b' \<subseteq> again b"
    by (auto simp: again_def removed(2) next_of_def attempts_of_def)
  moreover have "finite (again b)" using fin by (simp add: again_def)
  ultimately show ?thesis using removed(3) by (simp add: card_mono)
next
  case (rebuild l)
  note c = claim_books [OF rebuild(2)]
  have "again b' \<subseteq> again b - {p}" by (auto simp: again_def c split: if_splits)
  moreover have "p \<in> again b" using rebuild(5) p by (auto simp: again_def)
  moreover have fa: "finite (again b)" using fin by (simp add: again_def)
  ultimately have "card (again b') < card (again b)"
    by (meson Diff_subset dual_order.trans finite_Diff card_mono card_Diff1_less order_le_less_trans)
  with rebuild(3) show ?thesis by simp
next
  case idle
  have "again b' \<subseteq> again b" by (auto simp: again_def idle(2) split: if_splits)
  moreover have "finite (again b)" using fin by (simp add: again_def)
  ultimately show ?thesis using idle(3) by (simp add: card_mono)
qed

lemma own_rank:
  assumes b: "machine_books m" and l: "layout_held m" and o: "own result m mv" and mv: "build_move cache mv m = Some m'"
  shows "rank m' < rank m"
proof (cases mv)
  case (Succeed i now bytes inputs)
  obtain b' d k where r: "record_success cache now (u_output (n_launch (m_runs m ! i))) bytes inputs (m_tree m) = (b', d, k)"
    by (metis prod_cases3)
  have i: "i < length (m_runs m)" "n_phase (m_runs m ! i) = Running" "m_holder m = Free"
    and m': "m' = set_phase i (Recorded now bytes inputs d k) (m\<lparr>m_tree := b', m_holder := Build i\<rparr>)"
    using mv Succeed by (auto simp: succeed_move_def Let_def r split: if_splits)
  have "again b' = again (m_tree m)"
    using record_success_same [OF r] same_attempts(1) [of b' "m_tree m"] by (simp add: again_def)
  with weight_update [OF i(1), of "Recorded now bytes inputs d k"] i show ?thesis by (simp add: rank_def m' held_rank_def)
next
  case (Fail i e inputs)
  then have i: "i < length (m_runs m)" "n_phase (m_runs m ! i) = Running" and m': "m' = set_phase i (Written (Broken e inputs) None) m"
    using mv by (auto simp: fail_move_def split: if_splits)
  with weight_update [OF i(1), of "Written (Broken e inputs) None"] show ?thesis by (simp add: rank_def)
next
  case (Write i)
  then obtain now bytes inputs wanted keep where i: "i < length (m_runs m)" "n_phase (m_runs m ! i) = Recorded now bytes inputs wanted keep"
    using mv by (auto simp: write_move_def split: if_splits phase.splits)
  have m': "m_runs m' = (m_runs m)[i := (m_runs m ! i)\<lparr>n_phase := Written (Built bytes inputs) keep\<rparr>]" "m_holder m' = Free"
    and "again (m_tree m') = again (m_tree m)"
    using mv Write i by (auto simp: write_move_def write_output_def again_def next_of_def attempts_of_def split: if_splits)
  with weight_update [OF i(1), of "Written (Built bytes inputs) keep"] i(2) show ?thesis by (simp add: rank_def held_rank_def)
next
  case (End_build i)
  then obtain r keep where i: "i < length (m_runs m)" "n_phase (m_runs m ! i) = Written r keep"
    using mv by (auto simp: end_move_def split: if_splits phase.splits)
  obtain b' u orphan where f: "finish_section (u_output (n_launch (m_runs m ! i))) r (m_tree m) = (b', u, orphan)" by (metis prod_cases3)
  have m': "m' = set_phase i (Finished r orphan u keep) (m\<lparr>m_tree := b'\<rparr>)" using mv End_build i f by (simp add: end_move_def Let_def)
  have "u_output (n_launch (m_runs m ! i)) \<in> b_in_flight (m_tree m)" by (rule claim_in_flight [OF b i(1)]) (simp add: i(2))
  from finish_again [OF f this finite_flights [OF b]] weight_update [OF i(1), of "Finished r orphan u keep"] i(2)
  show ?thesis by (simp add: rank_def m')
next
  case (Answer i)
  then obtain r orphan u keep where i: "i < length (m_runs m)" "n_phase (m_runs m ! i) = Finished r orphan u keep"
    using mv by (auto simp: answer_move_def split: if_splits phase.splits)
  have "m_runs m' = (m_runs m)[i := (m_runs m ! i)\<lparr>n_phase := Answered r u keep\<rparr>]" "m_tree m' = m_tree m" "m_holder m' = m_holder m"
    using mv Answer i by (auto simp: answer_move_def)
  with weight_update [OF i(1), of "Answered r u keep"] i(2) show ?thesis by (simp add: rank_def)
next
  case (Move_on i)
  then obtain r u keep where i: "i < length (m_runs m)" "n_phase (m_runs m ! i) = Answered r u keep"
    using mv by (auto simp: move_on_def split: if_splits phase.splits)
  have "m_runs m' = (m_runs m)[i := (m_runs m ! i)\<lparr>n_phase := Done r\<rparr>] @ launched u" "m_tree m' = m_tree m" "m_holder m' = m_holder m"
    using mv Move_on i by (auto simp: move_on_def Let_def)
  with weight_update [OF i(1), of "Done r"] i(2) weight_launched [of u] show ?thesis by (simp add: rank_def)
next
  case (Lay now)
  then have "m_runs m' = m_runs m" "m_holder m' = Free" "again (m_tree m') = again (m_tree m)" "held_rank (m_holder m) = 1"
    using mv by (auto simp: lay_move_def lay_out_def again_def next_of_def attempts_of_def held_rank_def split: holder.splits)
  then show ?thesis by (simp add: rank_def held_rank_def)
qed (use o in simp_all)

section \<open>Progress\<close>

text \<open>Whatever holds the layout can give it up.\<close>

lemma holder_moves:
  assumes "layout_held m" and "m_holder m \<noteq> Free"
  shows "\<exists>mv. own result m mv \<and> build_move cache mv m \<noteq> None"
proof (cases "m_holder m")
  case (Build i)
  with write_step [OF assms(1)] have "own result m (Write i) \<and> build_move cache (Write i) m \<noteq> None" by auto
  then show ?thesis by blast
next
  case (Rules removed added)
  with lay_step [OF assms(1), of removed added 0] have "own result m (Lay 0) \<and> build_move cache (Lay 0) m \<noteq> None" by auto
  then show ?thesis by blast
qed (use assms in simp)

lemma run_moves:
  assumes l: "layout_held m" and i: "i < length (m_runs m)" and d: "\<forall>r. n_phase (m_runs m ! i) \<noteq> Done r"
  shows "\<exists>mv. own result m mv \<and> build_move cache mv m \<noteq> None"
proof (cases "m_holder m = Free")
  case free: True
  show ?thesis
  proof (cases "n_phase (m_runs m ! i)")
    case Running
    show ?thesis
    proof (cases "result (n_launch (m_runs m ! i))")
      case (Built bytes inputs)
      with Running i free have "own result m (Succeed i 0 bytes inputs) \<and> build_move cache (Succeed i 0 bytes inputs) m \<noteq> None"
        by (simp add: succeed_move_def Let_def)
      then show ?thesis by blast
    next
      case (Broken e inputs)
      with Running i have "own result m (Fail i e inputs) \<and> build_move cache (Fail i e inputs) m \<noteq> None"
        by (simp add: fail_move_def)
      then show ?thesis by blast
    qed
  next
    case (Recorded now bytes inputs wanted keep)
    then have "recorded_at (m_runs m) i \<noteq> None" using i by (simp add: recorded_at_def)
    with l free show ?thesis unfolding layout_held_def by (metis holder.distinct(1))
  next
    case (Written r keep)
    with i have "own result m (End_build i) \<and> build_move cache (End_build i) m \<noteq> None" by (simp add: end_move_def Let_def)
    then show ?thesis by blast
  next
    case (Finished r orphan u keep)
    with i have "own result m (Answer i) \<and> build_move cache (Answer i) m \<noteq> None" by (simp add: answer_move_def)
    then show ?thesis by blast
  next
    case (Answered r u keep)
    with i have "own result m (Move_on i) \<and> build_move cache (Move_on i) m \<noteq> None" by (simp add: move_on_def Let_def)
    then show ?thesis by blast
  qed (use d in simp)
qed (rule holder_moves [OF l])

lemma all_done_answered:
  assumes b: "machine_books m" and dn: "\<forall>i < length (m_runs m). \<exists>r. n_phase (m_runs m ! i) = Done r" and j: "j < b_created (m_tree m)"
  shows "j \<in> fst ` set (m_answers m)"
proof -
  have "\<forall>r \<in> set (m_runs m). \<exists>x. n_phase r = Done x" using dn by (metis in_set_conv_nth)
  then have none: "claims m = []" "owed m = []" by (auto simp: claims_def owed_def)
  then have "next_of (m_tree m) p = None" for p
    using b by (auto simp: machine_books_def books_ok_def flights_ok_def)
  moreover have "j \<in> set (map fst (m_answers m)) \<or> (\<exists>p. next_of (m_tree m) p = Some j)"
    using b j none by (simp add: machine_books_def books_ok_def accounts_ok_def)
  ultimately show ?thesis by auto
qed

lemma quiescent_answered:
  assumes "machine_books m" and "layout_held m" and "quiescent result cache m" and "j < b_created (m_tree m)"
  shows "j \<in> fst ` set (m_answers m)"
proof (rule all_done_answered [OF assms(1) _ assms(4)])
  show "\<forall>i < length (m_runs m). \<exists>r. n_phase (m_runs m ! i) = Done r"
    using run_moves [OF assms(2)] assms(3) unfolding quiescent_def by metis
qed

lemma own_proper: "own result m mv \<Longrightarrow> proper_move mv"
  by (cases mv) simp_all

lemma drain_reached:
  "machine_reached cache source m \<Longrightarrow> drain result cache mvs m = Some m' \<Longrightarrow>
   machine_reached cache source m' \<and> length mvs + rank m' \<le> rank m"
proof (induction mvs arbitrary: m)
  case (Cons mv mvs)
  then obtain m1 where o: "own result m mv" and m1: "build_move cache mv m = Some m1" "drain result cache mvs m1 = Some m'"
    by (auto split: if_splits option.splits)
  have r: "machine_reached cache source m1" by (rule machine_reached.move [OF Cons.prems(1) own_proper [OF o] m1(1)])
  have "rank m1 < rank m" by (rule own_rank [OF reached_books reached_layout o m1(1)]) (rule Cons.prems(1))+
  with Cons.IH [OF r m1(2)] show ?case by simp
qed simp

end
