(* ===== verification/Build_Properties.thy ===== *)
theory Build_Properties
  imports Build_Liveness
begin

text \<open>
  The properties of the build directory: which outputs a manifest declares, what its tree holds,
  whom the builds answer, what goes stale, and that the builds drain.
\<close>

section \<open>A run to apply them to\<close>

text \<open>One output is declared and laid out, opened, built and answered.\<close>

definition demo_start :: "move list" where
  "demo_start = [Take_rules [([''o''], \<lparr>o_output = ''o'', o_action = Capture, o_text = ''cat a''\<rparr>)], Lay 0, Open [''o'']]"

definition demo_end :: "move list" where
  "demo_end = [Succeed 0 1 ''x'' [[''a'']], Write 0, End_build 0, Answer 0, Move_on 0]"

definition demo_source :: directory_tree where
  "demo_source = mem_view mem_tree_new"

definition demo_opened :: machine where
  "demo_opened = the (moves None demo_start (machine_new demo_source))"

definition demo_result :: "launch \<Rightarrow> outcome" where
  "demo_result l = Built ''x'' [[''a'']]"

definition demo_built :: machine where
  "demo_built = the (drain demo_result None demo_end demo_opened)"

lemma demo_opened_some: "moves None demo_start (machine_new demo_source) = Some demo_opened"
proof -
  have "\<not> Option.is_none (moves None demo_start (machine_new demo_source))" by code_simp
  then show ?thesis by (auto simp: demo_opened_def Option.is_none_def)
qed

lemma demo_built_some: "drain demo_result None demo_end demo_opened = Some demo_built"
proof -
  have "\<not> Option.is_none (drain demo_result None demo_end demo_opened)" by code_simp
  then show ?thesis by (auto simp: demo_built_def Option.is_none_def)
qed

lemma demo_opened_reached: "machine_reached None demo_source demo_opened"
  by (rule moves_reached [OF machine_reached.start _ demo_opened_some])
    (simp add: demo_start_def antichain_def inside_def name_ok_def)

lemma demo_built_reached: "machine_reached None demo_source demo_built"
  using drain_reached [OF demo_opened_reached demo_built_some] by blast

section \<open>What a manifest declares\<close>



section \<open>The tree\<close>





section \<open>Whom the builds answer\<close>

text \<open>
  C3: no waiter is lost and none is told twice: each attempt ever created has been answered once, or
  is owed by exactly one build, or is the next attempt of an output in flight; each output in
  flight has one build; and what an open is given to wait for has not been answered before.
\<close>

theorem builds_answer_once:
  assumes "machine_reached cache source m"
  shows "distinct (map fst (m_answers m) @ owed m) \<and>
    (\<forall>j. j < b_created (m_tree m) \<longleftrightarrow> j \<in> fst ` set (m_answers m) \<or> j \<in> set (owed m) \<or>
       (\<exists>p. p \<in> b_in_flight (m_tree m) \<and> next_of (m_tree m) p = Some j)) \<and>
    distinct (map u_output (claims m)) \<and> u_output ` set (claims m) = b_in_flight (m_tree m) \<and>
    (\<forall>p. case fst (snd (bring_up_to_date p (m_tree m))) of None \<Rightarrow> True | Some j \<Rightarrow> j \<notin> fst ` set (m_answers m))"
proof -
  let ?b = "m_tree m"
  have F: "flights_ok (b_in_flight ?b) (next_of ?b) (current_of ?b) (claims m)"
    and A: "accounts_ok (next_of ?b) (b_created ?b) (map fst (m_answers m) @ owed m)"
    using reached_books [OF assms] by (simp_all add: machine_books_def books_ok_def)
  have old: "j < b_created ?b \<longleftrightarrow> j \<in> fst ` set (m_answers m) \<or> j \<in> set (owed m) \<or> (\<exists>p. next_of ?b p = Some j)" for j
    using A by (simp add: accounts_ok_def)
  have claim_owed: "u_attempt l \<in> set (owed m)" if "l \<in> set (claims m)" for l
  proof -
    from that obtain r where "r \<in> set (m_runs m)" "l \<in> set (claims_of (n_phase r) (n_launch r))" by (auto simp: claims_def)
    moreover from this have "u_attempt l \<in> set (owed_by (n_phase r) (n_launch r))"
      by (cases "n_phase r") (auto split: option.splits)
    ultimately show ?thesis by (auto simp: owed_def)
  qed
  have fresh: "b_created ?b \<notin> fst ` set (m_answers m)" using old [of "b_created ?b"] by blast
  have target: "j \<notin> fst ` set (m_answers m)" if "fst (snd (bring_up_to_date p ?b)) = Some j" for p j
  proof -
    obtain c where c: "map_of (b_commands ?b) p = Some c"
      using \<open>fst (snd (bring_up_to_date p ?b)) = Some j\<close> by (auto simp: bring_up_to_date_def split: option.splits)
    have "current_of ?b p = Some j \<and> p \<in> b_in_flight ?b \<or> next_of ?b p = Some j \<or> j = b_created ?b"
      using \<open>fst (snd (bring_up_to_date p ?b)) = Some j\<close> claim_books(2) [of p "touched p c ?b" "fst (claim_build p (touched p c ?b))" "snd (claim_build p (touched p c ?b))"]
      unfolding bring_up_to_date_touched [OF c] Let_def by (auto simp: attempt_for_def split: if_splits option.splits)
    then show ?thesis
    proof (elim disjE conjE)
      assume "current_of ?b p = Some j" "p \<in> b_in_flight ?b"
      moreover have "p \<in> u_output ` set (claims m)" using F \<open>p \<in> b_in_flight ?b\<close> by (simp add: flights_ok_def)
      then obtain l where l: "l \<in> set (claims m)" "u_output l = p" by auto
      ultimately have "u_attempt l = j" using F by (auto simp: flights_ok_def)
      with claim_owed [OF l(1)] A show ?thesis by (auto simp: accounts_ok_def)
    next
      assume "next_of ?b p = Some j"
      with A have "j \<notin> set (map fst (m_answers m) @ owed m)" unfolding accounts_ok_def by blast
      then show ?thesis by auto
    qed (simp add: fresh)
  qed
  have flight: "p \<in> b_in_flight ?b" if "next_of ?b p = Some j" for p j using F that unfolding flights_ok_def by blast
  have "distinct (map fst (m_answers m) @ owed m)" using A by (simp add: accounts_ok_def)
  moreover have "distinct (map u_output (claims m))" "u_output ` set (claims m) = b_in_flight ?b" using F by (simp_all add: flights_ok_def)
  moreover have "case fst (snd (bring_up_to_date p ?b)) of None \<Rightarrow> True | Some j \<Rightarrow> j \<notin> fst ` set (m_answers m)" for p
    using target by (auto split: option.split)
  ultimately show ?thesis using old flight by blast
qed

theorem builds_answer_once_witness:
  "distinct (map fst (m_answers demo_opened) @ owed demo_opened) \<and> owed demo_opened = [0] \<and>
   u_output ` set (claims demo_opened) = {[''o'']}"
proof -
  have "owed demo_opened = [0]" "map u_output (claims demo_opened) = [[''o'']]" by code_simp+
  moreover from this(2) have "u_output ` set (claims demo_opened) = {[''o'']}" by (metis list.set(1,2) set_map)
  ultimately show ?thesis using builds_answer_once [OF demo_opened_reached] by blast
qed

text \<open>
  C5: left alone, the builds drain: however many moves they make on their own, whatever the results
  of their commands, the rank bounds their number; and when none is left to make, every attempt
  that was ever created has been answered.
\<close>

theorem builds_drain:
  assumes "machine_reached cache source m" and "drain result cache mvs m = Some m'"
  shows "length mvs + rank m' \<le> rank m \<and>
    (quiescent result cache m' \<longrightarrow> fst ` set (m_answers m') = {..<b_created (m_tree m')})"
proof -
  have r: "machine_reached cache source m'" and n: "length mvs + rank m' \<le> rank m" using drain_reached [OF assms] by simp_all
  have "fst ` set (m_answers m') \<subseteq> {..<b_created (m_tree m')}"
    using reached_books [OF r] by (auto simp: machine_books_def books_ok_def accounts_ok_def)
  then show ?thesis using n quiescent_answered [OF reached_books [OF r] reached_layout [OF r]] by blast
qed

lemma done_quiescent:
  assumes "m_holder m = Free" and "\<forall>r \<in> set (m_runs m). \<exists>x. n_phase r = Done x"
  shows "quiescent result cache m"
proof -
  have d: "\<exists>x. n_phase (m_runs m ! i) = Done x" if "i < length (m_runs m)" for i using assms(2) that by simp
  have "build_move cache mv m = None" if o: "own result m mv" for mv
    using o d assms(1)
    by (cases mv) (fastforce simp: succeed_move_def write_move_def fail_move_def end_move_def answer_move_def move_on_def lay_move_def
        split: if_splits phase.splits)+
  then show ?thesis by (simp add: quiescent_def)
qed

theorem builds_drain_witness:
  "5 + rank demo_built \<le> rank demo_opened \<and> fst ` set (m_answers demo_built) = {..<1}"
proof -
  have d: "m_holder demo_built = Free" "map n_phase (m_runs demo_built) = [Done (Built ''x'' [[''a'']])]" "b_created (m_tree demo_built) = 1"
    "length demo_end = 5" by code_simp+
  have "n_phase r \<in> set (map n_phase (m_runs demo_built))" if "r \<in> set (m_runs demo_built)" for r using that by simp
  then have "quiescent demo_result None demo_built" using d(2) by (intro done_quiescent [OF d(1)]) auto
  with builds_drain [OF demo_opened_reached demo_built_some] d(3,4) show ?thesis by simp
qed

section \<open>What goes stale\<close>

text \<open>
  C12: in every state the outputs that read each input are exactly the inverse of the inputs each
  output has, without repetition: an output that is built, fails, or loses its rule never leaves
  a reader behind, and none is ever missing.
\<close>

theorem readers_are_inverse:
  assumes "machine_reached cache source m"
  shows "distinct (b_dependents (m_tree m) input) \<and>
    (p \<in> set (b_dependents (m_tree m) input) \<longleftrightarrow>
      (\<exists>inputs. b_dependencies (m_tree m) p = Some inputs \<and> input \<in> set inputs))"
  using reached_index [OF assms] by (simp add: index_ok_def)

theorem readers_are_inverse_witness:
  "distinct (b_dependents (m_tree demo_built) [''a'']) \<and> [''o''] \<in> set (b_dependents (m_tree demo_built) [''a''])"
proof -
  have "b_dependencies (m_tree demo_built) [''o''] = Some [[''a'']]" by code_simp
  with readers_are_inverse [OF demo_built_reached, of "[''a'']" "[''o'']"] show ?thesis by auto
qed

text \<open>
  C11: an invalidation marks exactly the declared outputs among those given and those that read one
  of them through any number of outputs - each once, however they read each other - and builds
  at once exactly those of them that were opened and are idle.
\<close>

theorem invalidation_exact:
  "case invalidate ps b of (b', seen, eager) \<Rightarrow>
     set seen = {p. goes_stale b (set ps) p} \<and> distinct seen \<and> b_stale b' = b_stale b \<union> {p. goes_stale b (set ps) p} \<and>
     (\<forall>p. b_invalidations b' p = b_invalidations b p + (if goes_stale b (set ps) p then 1 else 0)) \<and>
     set eager = {p. goes_stale b (set ps) p \<and> p \<in> b_materialized b \<and> p \<notin> b_in_flight b}"
  using stale_loop_exact [of b "rev ps"] stale_loop_distinct [of "[]" b "rev ps"]
  by (auto simp: invalidate_def Let_def)

end
