(* ===== verification/Restore_Proofs.thy ===== *)
theory Restore_Proofs
  imports Build_Restore
begin

text \<open>
  The check of the records is exact.  \<open>holds\<close> says, without a table, what it is for a record to
  hold: the least relation in which every input is as it was and every output read holds itself.
  A record that is met while it is being checked reads itself through others, so it cannot hold.
\<close>

section \<open>What it is to hold\<close>

definition readable :: "(string \<Rightarrow> 64 word \<times> 64 word) \<Rightarrow> (string \<Rightarrow> string option) \<Rightarrow> string \<Rightarrow> bool" where
  "readable xxh objects h \<longleftrightarrow> is_hash h \<and> (\<exists>bytes. objects h = Some bytes \<and> hash_of xxh bytes = h)"

inductive holds :: "(string \<Rightarrow> 64 word \<times> 64 word) \<Rightarrow> restoring \<Rightarrow> (string \<Rightarrow> string option) \<Rightarrow> string list \<Rightarrow> bool"
  for xxh g objects where
  holds: "current_record g p = Some r \<Longrightarrow>
    \<forall>i \<in> set (e_inputs r). output_named_by (path_of_text (i_path i)) = None \<longrightarrow>
      stamp_source (g_source g) (path_of_text (i_path i)) = Some i \<Longrightarrow>
    \<forall>i \<in> set (e_inputs r). \<forall>q. output_named_by (path_of_text (i_path i)) = Some q \<longrightarrow>
      record_hash g q = Some (i_hash i) \<and> holds xxh g objects q \<Longrightarrow>
    readable xxh objects (e_hash r) \<Longrightarrow> holds xxh g objects p"

definition input_holds :: "(string \<Rightarrow> 64 word \<times> 64 word) \<Rightarrow> restoring \<Rightarrow> (string \<Rightarrow> string option) \<Rightarrow> cache_input \<Rightarrow> bool" where
  "input_holds xxh g objects i \<longleftrightarrow>
     (case output_named_by (path_of_text (i_path i)) of
        None \<Rightarrow> stamp_source (g_source g) (path_of_text (i_path i)) = Some i
      | Some q \<Rightarrow> record_hash g q = Some (i_hash i) \<and> holds xxh g objects q)"

lemma holds_iff:
  "holds xxh g objects p \<longleftrightarrow> (\<exists>r. current_record g p = Some r \<and> (\<forall>i \<in> set (e_inputs r). input_holds xxh g objects i) \<and>
     readable xxh objects (e_hash r))"
  by (subst holds.simps) (fastforce simp: input_holds_def split: option.splits)

text \<open>The outputs that a record reads.\<close>

definition reads_output :: "restoring \<Rightarrow> (string list \<times> string list) set" where
  "reads_output g = {(p, q). \<exists>r. current_record g p = Some r \<and> (\<exists>i \<in> set (e_inputs r). output_named_by (path_of_text (i_path i)) = Some q)}"

lemma holds_no_cycle: "holds xxh g objects p \<Longrightarrow> (p, p) \<notin> (reads_output g)\<^sup>+"
proof (induction rule: holds.induct)
  case (holds p r)
  show ?case
  proof
    assume "(p, p) \<in> (reads_output g)\<^sup>+"
    then obtain q where q: "(p, q) \<in> reads_output g" "(q, p) \<in> (reads_output g)\<^sup>*" by (meson tranclD)
    then have "(q, q) \<in> (reads_output g)\<^sup>+" by (meson rtrancl_into_trancl1)
    moreover have "(q, q) \<notin> (reads_output g)\<^sup>+" using q(1) holds.hyps(1) holds.IH by (auto simp: reads_output_def)
    ultimately show False by blast
  qed
qed

section \<open>The table\<close>

lemma read_object_cases:
  assumes "read_object xxh fl h c = (c', x)"
  shows "c_objects c' = c_objects c"
    "x = Inr bytes \<Longrightarrow> is_hash h \<and> c_objects c h = Some bytes \<and> hash_of xxh bytes = h"
    "x = Inl e \<Longrightarrow> \<forall>n. fl n = None \<Longrightarrow> \<not> readable xxh (c_objects c) h"
  using assms by (auto simp: read_object_def tried_def readable_def split: if_splits option.splits)

definition checks_ok :: "(string \<Rightarrow> 64 word \<times> 64 word) \<Rightarrow> faults \<Rightarrow> restoring \<Rightarrow> (string \<Rightarrow> string option) \<Rightarrow> string list set \<Rightarrow> checks \<Rightarrow> bool" where
  "checks_ok xxh fl g objects S s \<longleftrightarrow> c_objects (h_cache s) = objects \<and>
     (\<forall>p. h_checked s p = Some Checking \<longleftrightarrow> p \<in> S) \<and>
     (\<forall>p. h_checked s p = Some Holds \<longrightarrow> holds xxh g objects p \<and>
        (\<exists>r bytes. current_record g p = Some r \<and> h_contents s p = Some bytes \<and> objects (e_hash r) = Some bytes \<and> hash_of xxh bytes = e_hash r)) \<and>
     ((\<forall>n. fl n = None) \<longrightarrow> (\<forall>p. h_checked s p = Some Stale \<longrightarrow> \<not> holds xxh g objects p))"

lemma check_start:
  "checks_ok xxh fl g objects S s \<Longrightarrow> h_checked s p = None \<Longrightarrow> checks_ok xxh fl g objects (insert p S) (set_check p Checking s)"
  by (auto simp: checks_ok_def set_check_def)

lemma check_stale:
  "checks_ok xxh fl g objects (insert p S) s \<Longrightarrow> p \<notin> S \<Longrightarrow> ((\<forall>n. fl n = None) \<Longrightarrow> \<not> holds xxh g objects p) \<Longrightarrow>
   checks_ok xxh fl g objects S (set_check p Stale s)"
  by (auto simp: checks_ok_def set_check_def)

lemma check_holds:
  "checks_ok xxh fl g objects (insert p S) s \<Longrightarrow> p \<notin> S \<Longrightarrow> holds xxh g objects p \<Longrightarrow> current_record g p = Some r \<Longrightarrow>
   objects (e_hash r) = Some bytes \<Longrightarrow> hash_of xxh bytes = e_hash r \<Longrightarrow> c_objects c = objects \<Longrightarrow>
   checks_ok xxh fl g objects S (set_check p Holds (s\<lparr>h_contents := (h_contents s)(p \<mapsto> bytes), h_cache := c\<rparr>))"
  by (auto simp: checks_ok_def set_check_def)

lemma check_cache: "checks_ok xxh fl g objects S s \<Longrightarrow> c_objects c = objects \<Longrightarrow> checks_ok xxh fl g objects S (s\<lparr>h_cache := c\<rparr>)"
  by (auto simp: checks_ok_def)

text \<open>The outputs being checked read, through others, the one that is to be checked.\<close>

lemma check_correct:
  "checks_ok xxh fl g objects S s \<Longrightarrow> \<forall>x \<in> S. (x, p) \<in> (reads_output g)\<^sup>+ \<Longrightarrow> record_holds xxh fl g n p s = Some (h, s') \<Longrightarrow>
     checks_ok xxh fl g objects S s' \<and> (h \<longrightarrow> holds xxh g objects p \<and> h_checked s' p = Some Holds) \<and>
     ((\<forall>n. fl n = None) \<longrightarrow> holds xxh g objects p \<longrightarrow> h)"
  "checks_ok xxh fl g objects S s \<Longrightarrow>
     \<forall>i \<in> set is. \<forall>q. output_named_by (path_of_text (i_path i)) = Some q \<longrightarrow> (\<forall>x \<in> S. (x, q) \<in> (reads_output g)\<^sup>+) \<Longrightarrow>
     check_inputs xxh fl g n is s = Some (h, s') \<Longrightarrow>
     checks_ok xxh fl g objects S s' \<and> (h \<longrightarrow> (\<forall>i \<in> set is. input_holds xxh g objects i)) \<and>
     ((\<forall>n. fl n = None) \<longrightarrow> (\<forall>i \<in> set is. input_holds xxh g objects i) \<longrightarrow> h)"
proof (induction xxh fl g n p s and xxh fl g n "is" s arbitrary: S h s' and S h s' rule: record_holds_check_inputs.induct)
  case (2 xxh fl g n p s)
  note ok = "2.prems"(1) and above = "2.prems"(2) and r = "2.prems"(3)
  show ?case
  proof (cases "h_checked s p")
    case (Some k)
    have "\<not> holds xxh g objects p" if "k = Checking"
      using that Some ok above holds_no_cycle unfolding checks_ok_def by blast
    moreover have "h = (k = Holds)" "s' = s" using r Some by auto
    moreover have "holds xxh g objects p" if "k = Holds" using that Some ok by (simp add: checks_ok_def)
    moreover have "\<not> holds xxh g objects p" if "k = Stale" "\<forall>n. fl n = None" using that Some ok by (simp add: checks_ok_def)
    ultimately show ?thesis using ok Some by (cases k) auto
  next
    case None
    let ?s = "set_check p Checking s"
    have pS: "p \<notin> S" using None ok unfolding checks_ok_def by (metis option.distinct(1))
    have ok1: "checks_ok xxh fl g objects (insert p S) ?s" by (rule check_start [OF ok None])
    show ?thesis
    proof (cases "current_record g p")
      case no: None
      then have "\<not> holds xxh g objects p" by (simp add: holds_iff)
      moreover have "h = False" "s' = set_check p Stale ?s" using r None no by (auto simp: Let_def)
      ultimately show ?thesis using check_stale [OF ok1 pS] by auto
    next
      case rec: (Some q)
      have edge: "(p, x) \<in> reads_output g" if "i \<in> set (e_inputs q)" "output_named_by (path_of_text (i_path i)) = Some x" for i x
        using that rec by (auto simp: reads_output_def)
      obtain h1 s1 where c: "check_inputs xxh fl g n (e_inputs q) ?s = Some (h1, s1)"
        using r None rec by (auto simp: Let_def split: option.splits)
      have "checks_ok xxh fl g objects (insert p S) s1 \<and> (h1 \<longrightarrow> (\<forall>i \<in> set (e_inputs q). input_holds xxh g objects i)) \<and>
          ((\<forall>n. fl n = None) \<longrightarrow> (\<forall>i \<in> set (e_inputs q). input_holds xxh g objects i) \<longrightarrow> h1)"
        by (rule "2.IH" [OF None refl rec ok1 _ c]) (use edge above in \<open>auto intro: trancl.r_into_trancl trancl.trancl_into_trancl\<close>)
      then have ok2: "checks_ok xxh fl g objects (insert p S) s1" and i1: "h1 \<Longrightarrow> \<forall>i \<in> set (e_inputs q). input_holds xxh g objects i"
        and i2: "\<forall>n. fl n = None \<Longrightarrow> \<forall>i \<in> set (e_inputs q). input_holds xxh g objects i \<Longrightarrow> h1" by blast+
      have objs: "c_objects (h_cache s1) = objects" using ok2 by (simp add: checks_ok_def)
      show ?thesis
      proof (cases h1)
        case False
        then have "\<forall>n. fl n = None \<Longrightarrow> \<not> holds xxh g objects p" using i2 rec by (auto simp: holds_iff)
        moreover have "h = False" "s' = set_check p Stale s1" using r None rec c False by (auto simp: Let_def)
        ultimately show ?thesis using check_stale [OF ok2 pS] by auto
      next
        case True
        obtain c' x where x: "read_object xxh fl (e_hash q) (h_cache s1) = (c', x)" by fastforce
        note ro = read_object_cases [OF x, unfolded objs]
        show ?thesis
        proof (cases x)
          case (Inl e)
          then have "\<forall>n. fl n = None \<Longrightarrow> \<not> holds xxh g objects p" using ro(3) rec by (auto simp: holds_iff)
          moreover have "h = False" "s' = set_check p Stale (s1\<lparr>h_cache := c'\<rparr>)" using r None rec c True x Inl by (auto simp: Let_def)
          ultimately show ?thesis using check_stale [OF check_cache [OF ok2 ro(1)] pS] by auto
        next
          case (Inr bytes)
          have hp: "holds xxh g objects p" using i1 [OF True] ro(2) [OF Inr] rec by (auto simp: holds_iff readable_def)
          have "checks_ok xxh fl g objects S (set_check p Holds (s1\<lparr>h_contents := (h_contents s1)(p \<mapsto> bytes), h_cache := c'\<rparr>))"
            by (rule check_holds [OF ok2 pS hp rec _ _ ro(1)]) (use ro(2) [OF Inr] in auto)
          moreover have "h = True" "s' = set_check p Holds (s1\<lparr>h_contents := (h_contents s1)(p \<mapsto> bytes), h_cache := c'\<rparr>)"
            using r None rec c True x Inr by (auto simp: Let_def)
          ultimately show ?thesis using hp by (simp add: set_check_def)
        qed
      qed
    qed
  qed
next
  case (4 xxh fl g n i "is" s)
  note ok = "4.prems"(1) and above = "4.prems"(2) and r = "4.prems"(3)
  show ?case
  proof (cases "output_named_by (path_of_text (i_path i))")
    case None
    show ?thesis
    proof (cases "stamp_source (g_source g) (path_of_text (i_path i)) = Some i")
      case True
      with r None have "check_inputs xxh fl g n is s = Some (h, s')" by simp
      from "4.IH"(1) [OF None _ ok _ this] True above None show ?thesis by (auto simp: input_holds_def)
    next
      case False
      with r None ok show ?thesis by (auto simp: input_holds_def)
    qed
  next
    case (Some q)
    obtain h1 s1 where c: "record_holds xxh fl g n q s = Some (h1, s1)" using r Some by (auto split: option.splits)
    have one: "checks_ok xxh fl g objects S s1 \<and> (h1 \<longrightarrow> holds xxh g objects q \<and> h_checked s1 q = Some Holds) \<and>
        ((\<forall>n. fl n = None) \<longrightarrow> holds xxh g objects q \<longrightarrow> h1)"
      by (rule "4.IH"(2) [OF Some ok _ c]) (use above Some in auto)
    show ?thesis
    proof (cases "\<not> h1 \<or> record_hash g q \<noteq> Some (i_hash i)")
      case True
      with r Some c one show ?thesis by (auto simp: input_holds_def)
    next
      case False
      with r Some c have d: "check_inputs xxh fl g n is s1 = Some (h, s')" by simp
      from "4.IH"(3) [OF Some c refl False _ _ d] one above Some False show ?thesis by (auto simp: input_holds_def)
    qed
  qed
qed simp_all

section \<open>The fuel\<close>

text \<open>A call that goes on to the inputs has marked one more record, so the records bound its depth.\<close>

definition to_check :: "restoring \<Rightarrow> checks \<Rightarrow> string list set" where
  "to_check g s = {p \<in> fst ` set (g_records g). h_checked s p = None}"

lemma to_check_finite [simp]: "finite (to_check g s)"
  by (simp add: to_check_def)

lemma to_check_set: "to_check g (set_check p k s) = to_check g s - {p}"
  by (auto simp: to_check_def set_check_def)

lemma to_check_update [simp]: "to_check g (s\<lparr>h_contents := x\<rparr>) = to_check g s" "to_check g (s\<lparr>h_cache := c\<rparr>) = to_check g s"
  by (simp_all add: to_check_def)

lemma check_ends:
  "card (to_check g s) < n \<Longrightarrow> \<exists>h s'. record_holds xxh fl g n p s = Some (h, s') \<and> to_check g s' \<subseteq> to_check g s"
  "card (to_check g s) < n \<Longrightarrow> \<exists>h s'. check_inputs xxh fl g n is s = Some (h, s') \<and> to_check g s' \<subseteq> to_check g s"
proof (induction xxh fl g n p s and xxh fl g n "is" s rule: record_holds_check_inputs.induct)
  case (2 xxh fl g n p s)
  show ?case
  proof (cases "h_checked s p")
    case None
    let ?s = "set_check p Checking s"
    show ?thesis
    proof (cases "current_record g p")
      case no: None
      with None show ?thesis by (auto simp: Let_def to_check_set)
    next
      case (Some r)
      then have "p \<in> to_check g s" using None map_of_SomeD [of "g_records g" p]
        by (force simp: to_check_def current_record_def split: option.splits if_splits)
      then have "card (to_check g ?s) < n"
        using "2.prems" card_Diff1_less [of "to_check g s" p] by (simp add: to_check_set)
      from "2.IH" [OF None refl Some this] obtain h1 s1 where
        c: "check_inputs xxh fl g n (e_inputs r) ?s = Some (h1, s1)" "to_check g s1 \<subseteq> to_check g ?s" by blast
      have sub: "to_check g s1 \<subseteq> to_check g s" using c(2) by (auto simp: to_check_set)
      obtain c' x where x: "read_object xxh fl (e_hash r) (h_cache s1) = (c', x)" by fastforce
      show ?thesis
        using None Some c(1) x sub by (cases h1; cases x) (auto simp: Let_def to_check_set)
    qed
  qed auto
next
  case (4 xxh fl g n i "is" s)
  show ?case
  proof (cases "output_named_by (path_of_text (i_path i))")
    case None
    show ?thesis
    proof (cases "stamp_source (g_source g) (path_of_text (i_path i)) = Some i")
      case True
      with "4.IH"(1) [OF None _ "4.prems"] None show ?thesis by simp
    next
      case False
      with None show ?thesis by auto
    qed
  next
    case (Some q)
    from "4.IH"(2) [OF Some "4.prems"] obtain h1 s1 where
      c: "record_holds xxh fl g n q s = Some (h1, s1)" "to_check g s1 \<subseteq> to_check g s" by blast
    show ?thesis
    proof (cases "\<not> h1 \<or> record_hash g q \<noteq> Some (i_hash i)")
      case True
      with Some c show ?thesis by auto
    next
      case False
      have "card (to_check g s1) < n" using card_mono [OF to_check_finite c(2)] "4.prems" by simp
      from "4.IH"(3) [OF Some c(1) refl False this] Some c False show ?thesis by auto
    qed
  qed
qed auto

section \<open>What is restored\<close>

definition key_of :: "cache_record \<Rightarrow> string list" where
  "key_of r = path_of_text (o_output (e_command r))"

definition restored :: "(string \<Rightarrow> 64 word \<times> 64 word) \<Rightarrow> restoring \<Rightarrow> (string \<Rightarrow> string option) \<Rightarrow> cache_record \<Rightarrow> btree \<Rightarrow> bool" where
  "restored xxh g objects r b \<longleftrightarrow> current_record g (key_of r) = Some r \<and> holds xxh g objects (key_of r) \<and> key_of r \<notin> b_stale b \<and>
     (\<exists>bytes. content_of (b_structure b) (key_of r) = Some bytes \<and> objects (e_hash r) = Some bytes \<and> hash_of xxh bytes = e_hash r) \<and>
     b_dependencies b (key_of r) = Some (map (path_of_text \<circ> i_path) (e_inputs r))"

definition untouched :: "btree \<Rightarrow> btree \<Rightarrow> string list \<Rightarrow> bool" where
  "untouched b b' p \<longleftrightarrow> (p \<in> b_stale b' \<longleftrightarrow> p \<in> b_stale b) \<and> content_of (b_structure b') p = content_of (b_structure b) p \<and>
     b_dependencies b' p = b_dependencies b p"

lemma restore_output_does:
  assumes l: "layout_ok (outputs_of b) (b_structure b)" and a: "antichain (outputs_of b)" and d: "key_of r \<in> outputs_of b"
    and ok: "inverse_ok b"
  shows "\<exists>b'. restore_output r bytes b = Some b' \<and> layout_ok (outputs_of b') (b_structure b') \<and> b_commands b' = b_commands b \<and>
    inverse_ok b' \<and> key_of r \<notin> b_stale b' \<and> content_of (b_structure b') (key_of r) = Some bytes \<and>
    b_dependencies b' (key_of r) = Some (map (path_of_text \<circ> i_path) (e_inputs r)) \<and> (\<forall>q. q \<noteq> key_of r \<longrightarrow> untouched b b' q)"
proof -
  obtain t df where t: "mem_write_file (b_structure b) (generic_string (key_of r)) bytes (e_mtime r) = Some (t, df)"
    "layout_ok (outputs_of b) t" "content_of t (key_of r) = Some bytes" "\<forall>q. q \<noteq> key_of r \<longrightarrow> entry t q = entry (b_structure b) q"
    using write_laid_out [OF l a d] by blast
  let ?b = "b\<lparr>b_structure := t, b_stale := b_stale b - {key_of r}, b_hashes := (b_hashes b)(key_of r \<mapsto> e_hash r)\<rparr>"
  let ?b' = "update_dependents (key_of r) (map (path_of_text \<circ> i_path) (e_inputs r)) ?b"
  have "restore_output r bytes b = Some ?b'"
    using t(1) by (simp add: restore_output_def write_output_def key_of_def [symmetric] Let_def)
  moreover have "inverse_ok ?b'" by (rule update_index) (use ok in simp)
  moreover have "b_dependencies ?b' = (b_dependencies b)(key_of r \<mapsto> map (path_of_text \<circ> i_path) (e_inputs r))"
    by (simp add: update_dependents_def Let_def)
  ultimately show ?thesis using t by (auto simp: untouched_def content_of_def)
qed

lemma restore_records_does:
  assumes "checks_ok xxh fl g objects {} s" and "card (to_check g s) < n" and "layout_ok (outputs_of b) (b_structure b)"
    and "antichain (outputs_of b)" and "inverse_ok b" and "b_commands b = g_commands g" and "distinct (map key_of rs)"
    and "\<forall>r \<in> set rs. map_of (g_records g) (key_of r) = Some r"
  shows "\<exists>b' s' gone. restore_records xxh fl g n rs s b = Some (b', s', gone) \<and> checks_ok xxh fl g objects {} s' \<and>
    layout_ok (outputs_of b') (b_structure b') \<and> inverse_ok b' \<and> b_commands b' = b_commands b \<and>
    (\<forall>p. p \<notin> key_of ` set rs \<longrightarrow> untouched b b' p) \<and>
    (\<forall>r \<in> set rs. restored xxh g objects r b' \<and> key_of r \<notin> set gone \<or>
       untouched b b' (key_of r) \<and> key_of r \<in> set gone \<and> ((\<forall>n. fl n = None) \<longrightarrow> \<not> holds xxh g objects (key_of r))) \<and>
    set gone \<subseteq> key_of ` set rs"
  using assms
proof (induction rs arbitrary: s b)
  case (Cons r rs)
  let ?p = "key_of r"
  obtain h s1 where c: "record_holds xxh fl g n ?p s = Some (h, s1)" "to_check g s1 \<subseteq> to_check g s"
    using check_ends(1) [OF Cons.prems(2)] by blast
  have cc: "checks_ok xxh fl g objects {} s1" "h \<Longrightarrow> holds xxh g objects ?p \<and> h_checked s1 ?p = Some Holds"
    "\<forall>n. fl n = None \<Longrightarrow> holds xxh g objects ?p \<Longrightarrow> h"
    using check_correct(1) [OF Cons.prems(1) _ c(1)] by blast+
  have u: "card (to_check g s1) < n" using card_mono [OF to_check_finite c(2)] Cons.prems(2) by simp
  have rs: "distinct (map key_of rs)" "\<forall>r \<in> set rs. map_of (g_records g) (key_of r) = Some r" "?p \<notin> key_of ` set rs"
    using Cons.prems(7,8) by auto
  show ?case
  proof (cases h)
    case False
    from Cons.IH [OF cc(1) u Cons.prems(3-6) rs(1,2)] obtain b' s' gone where IH:
      "restore_records xxh fl g n rs s1 b = Some (b', s', gone)" "checks_ok xxh fl g objects {} s'"
      "layout_ok (outputs_of b') (b_structure b')" "inverse_ok b'" "b_commands b' = b_commands b"
      "\<forall>p. p \<notin> key_of ` set rs \<longrightarrow> untouched b b' p"
      "\<forall>r \<in> set rs. restored xxh g objects r b' \<and> key_of r \<notin> set gone \<or>
         untouched b b' (key_of r) \<and> key_of r \<in> set gone \<and> ((\<forall>n. fl n = None) \<longrightarrow> \<not> holds xxh g objects (key_of r))"
      "set gone \<subseteq> key_of ` set rs" by blast
    have "restore_records xxh fl g n (r # rs) s b = Some (b', s', ?p # gone)"
      using c(1) IH(1) False by (simp add: key_of_def)
    moreover have "untouched b b' ?p" using IH(6) rs(3) by blast
    moreover have "(\<forall>n. fl n = None) \<longrightarrow> \<not> holds xxh g objects ?p" using cc(3) False by blast
    moreover have "\<forall>r \<in> set rs. key_of r \<noteq> ?p" using rs(3) by (metis imageI)
    ultimately show ?thesis using IH by (intro exI [of _ b'] exI [of _ s'] exI [of _ "?p # gone"]) auto
  next
    case True
    note hp = cc(2) [OF True]
    obtain r' bytes where r': "current_record g ?p = Some r'" "h_contents s1 ?p = Some bytes" "objects (e_hash r') = Some bytes" "hash_of xxh bytes = e_hash r'"
      using cc(1) hp unfolding checks_ok_def by blast
    have "map_of (g_records g) ?p = Some r" using Cons.prems(8) by simp
    with r'(1) have r: "r' = r" "?p \<in> outputs_of b"
      using Cons.prems(6) by (auto simp: current_record_def split: option.splits if_splits dest!: map_of_SomeD) (metis fst_conv image_eqI)
    obtain b1 where b1: "restore_output r bytes b = Some b1" "layout_ok (outputs_of b1) (b_structure b1)" "b_commands b1 = b_commands b"
      "inverse_ok b1" "?p \<notin> b_stale b1" "content_of (b_structure b1) ?p = Some bytes"
      "b_dependencies b1 ?p = Some (map (path_of_text \<circ> i_path) (e_inputs r))" "\<forall>q. q \<noteq> ?p \<longrightarrow> untouched b b1 q"
      using restore_output_does [OF Cons.prems(3,4) r(2) Cons.prems(5)] by blast
    have "antichain (outputs_of b1)" "b_commands b1 = g_commands g" using Cons.prems(4,6) b1(3) by simp_all
    from Cons.IH [OF cc(1) u b1(2) this(1) b1(4) this(2) rs(1,2)] obtain b' s' gone where IH:
      "restore_records xxh fl g n rs s1 b1 = Some (b', s', gone)" "checks_ok xxh fl g objects {} s'"
      "layout_ok (outputs_of b') (b_structure b')" "inverse_ok b'" "b_commands b' = b_commands b1"
      "\<forall>p. p \<notin> key_of ` set rs \<longrightarrow> untouched b1 b' p"
      "\<forall>r \<in> set rs. restored xxh g objects r b' \<and> key_of r \<notin> set gone \<or>
         untouched b1 b' (key_of r) \<and> key_of r \<in> set gone \<and> ((\<forall>n. fl n = None) \<longrightarrow> \<not> holds xxh g objects (key_of r))"
      "set gone \<subseteq> key_of ` set rs" by blast
    have "restore_records xxh fl g n (r # rs) s b = Some (b', s', gone)"
      using c(1) IH(1) True b1(1) r'(2) by (simp add: key_of_def)
    moreover have "restored xxh g objects r b'"
      using IH(6) rs(3) b1(5-7) hp r' r(1) unfolding restored_def untouched_def by metis
    moreover have "?p \<notin> set gone" using IH(8) rs(3) by blast
    moreover have tr: "untouched b b' q" if "q \<noteq> ?p" "untouched b1 b' q" for q using b1(8) that by (simp add: untouched_def)
    moreover have "\<forall>r \<in> set rs. key_of r \<noteq> ?p" using rs(3) by (metis imageI)
    ultimately show ?thesis using IH b1(3) by (intro exI [of _ b'] exI [of _ s'] exI [of _ gone]) auto
  qed
qed (auto simp: untouched_def)

end
