(* ===== verification/Restore_Properties.thy ===== *)
theory Restore_Properties
  imports Restore_Proofs Build_Properties
begin

text \<open>
  What a new run restores from the cache of the runs before it.
\<close>

section \<open>One record for each output\<close>






section \<open>The property\<close>











end
