(* ===== verification/Build_Interface.thy ===== *)
theory Build_Interface
  imports Build_Restore
begin

text \<open>
  The operations of \<^verbatim>\<open>BuildDirectoryTree\<close> (\<^verbatim>\<open>src/builddirectorytree.cpp\<close>) as their callers see
  them, composed of the sections of \<open>Build_Tree\<close>: the constructor, an open, a change of the
  rules and a change of the source; and the moves of the machine that each of them is.
\<close>

section \<open>Rules and changes\<close>

text \<open>
  New commands taken: the tree, what its subscribers are told, the outputs whose records the cache
  forgets (those removed, then all that went stale) and those to build at once.
\<close>

record applied =
  v_diffs :: "tree_diff list"
  v_removed :: "string list list"
  v_stale :: "string list list"
  v_eager :: "string list list"

definition stale_after :: "commands \<Rightarrow> btree \<Rightarrow> btree \<Rightarrow> string list list" where
  "stale_after new b b' = changed_outputs new b @ readers_of b' (removed_outputs new b) @ readers_of b' (added_outputs new b)"

definition apply_rules :: "int \<Rightarrow> commands \<Rightarrow> btree \<Rightarrow> (btree \<times> applied) option" where
  "apply_rules now new b =
     (case lay_out now (removed_outputs new b) (added_outputs new b) (apply_commands new b) of
        None \<Rightarrow> None
      | Some (b', diffs) \<Rightarrow>
          (case invalidate (stale_after new b b') b' of
             (b'', seen, eager) \<Rightarrow>
               Some (b'', \<lparr>v_diffs = diffs, v_removed = removed_outputs new b, v_stale = seen, v_eager = eager\<rparr>)))"

definition invalidate_affected :: "tree_diff \<Rightarrow> btree \<Rightarrow> btree \<times> string list list \<times> string list list" where
  "invalidate_affected diff b = invalidate (affected diff b) b"

text \<open>
  A change of the source: the tree, the error of a manifest that is rejected, what new rules did
  if there are any, and what the change itself made stale.
\<close>

definition on_source_change :: "(error_code \<Rightarrow> string) \<Rightarrow> nat \<Rightarrow> int \<Rightarrow> tree_diff \<Rightarrow> btree \<Rightarrow>
    (btree \<times> string option \<times> applied option \<times> string list list \<times> string list list) option" where
  "on_source_change message fuel now diff b =
     (case rules_after_change message fuel diff b of
        (b, None, why) \<Rightarrow> (case invalidate_affected diff b of (b, seen, eager) \<Rightarrow> Some (b, why, None, seen, eager))
      | (b, Some new, why) \<Rightarrow>
          (case apply_rules now new b of
             None \<Rightarrow> None
           | Some (b, v) \<Rightarrow> (case invalidate_affected diff b of (b, seen, eager) \<Rightarrow> Some (b, why, Some v, seen, eager))))"

section \<open>The constructor\<close>

definition no_manifest :: string where
  "no_manifest = ''no '' @ manifest_name @ '' in the source directory, so there is nothing to serve; create '' @ manifest_name @
     '' there, or run makebelieve from the directory that has one''"

definition construct :: "(error_code \<Rightarrow> string) \<Rightarrow> nat \<Rightarrow> int \<Rightarrow> directory_tree \<Rightarrow> (string + btree) option" where
  "construct message fuel now source =
     (if dt_status source [manifest_name] = Inl No_such_file_or_directory then Some (Inl no_manifest)
      else (case read_rules message fuel source of
              None \<Rightarrow> None
            | Some (Inl why) \<Rightarrow> Some (Inl why)
            | Some (Inr rules) \<Rightarrow>
                (case set_rules fuel rules (btree_new source) of
                   (b, None) \<Rightarrow> None
                 | (b, Some new) \<Rightarrow> map_option (\<lambda>(b, v). Inr b) (apply_rules now new b))))"

section \<open>Opening\<close>

text \<open>
  The build an open waits for: \<open>resolve\<close> is the build that the requesting process belongs to, if
  any; a request of no process (\<open>pid = 0\<close>) or for no output is not looked up.
\<close>

definition build_now :: "(nat \<Rightarrow> string list option) \<Rightarrow> string list \<Rightarrow> nat \<Rightarrow> btree \<Rightarrow> btree \<times> string list option \<times> nat option \<times> launch option" where
  "build_now resolve p pid b =
     (let requester = (if pid \<noteq> 0 \<and> declared b p then resolve pid else None);
          b = (case requester of None \<Rightarrow> b | Some r \<Rightarrow> record_read r p b)
      in case bring_up_to_date p b of (b, target, l) \<Rightarrow> (b, requester, target, l))"

text \<open>What an open comes to: stopped before it began, the error of the build, or the file itself.\<close>

definition open_result :: "bool \<Rightarrow> error_code \<Rightarrow> mem_tree \<Rightarrow> string list \<Rightarrow> file_info completion" where
  "open_result stop_requested waited t p =
     (if stop_requested then Value (Inl Operation_canceled)
      else if waited \<noteq> No_error then Value (Inl waited)
      else open_by_status (dt_status (mem_view t)) p)"

text \<open>A copy of an output, once what it waited for (if anything) is known.\<close>

definition copy_output :: "nat \<Rightarrow> error_code \<Rightarrow> mem_tree \<Rightarrow> string list \<Rightarrow> outcome option" where
  "copy_output fuel waited t p =
     (if waited \<noteq> No_error then Some (Broken waited [as_input p])
      else (case read_all fuel (mem_view t) p of
              None \<Rightarrow> None
            | Some (Inl e) \<Rightarrow> Some (Broken e [as_input p])
            | Some (Inr bytes) \<Rightarrow> Some (Built bytes [as_input p])))"

section \<open>As moves of the machine\<close>

lemma apply_rules_moves:
  assumes "apply_rules now new (m_tree m) = Some (b, v)" and "m_holder m = Free"
  shows "\<exists>m' ps. moves cache [Take_rules new, Lay now, Invalidate ps] m = Some m' \<and> m_tree m' = b \<and> m_holder m' = Free \<and>
    m_runs m' = m_runs m"
proof -
  let ?b = "apply_commands new (m_tree m)"
  obtain b' diffs where l: "lay_out now (removed_outputs new (m_tree m)) (added_outputs new (m_tree m)) ?b = Some (b', diffs)"
    and b: "b = fst (invalidate (stale_after new (m_tree m) b') b')"
    using assms(1) by (auto simp: apply_rules_def split: option.splits prod.splits)
  show ?thesis
    using assms(2) l b
    by (intro exI [of _ "m\<lparr>m_tree := b, m_holder := Free\<rparr>"] exI [of _ "stale_after new (m_tree m) b'"]) (auto simp: take_rules_def lay_move_def invalidate_move_def)
qed

lemma build_now_moves:
  assumes "build_now resolve p pid (m_tree m) = (b, requester, target, l)"
  shows "\<exists>m' mvs. moves cache mvs m = Some m' \<and> list_all proper_move mvs \<and> m_tree m' = b \<and> m_runs m' = m_runs m @ launched l"
proof (cases requester)
  case None
  then have "bring_up_to_date p (m_tree m) = (b, target, l)"
    using assms by (auto simp: build_now_def Let_def split: prod.splits option.splits)
  then show ?thesis by (intro exI [of _ "open_move p m"] exI [of _ "[Open p]"]) (simp add: open_move_def Let_def)
next
  case (Some r)
  then have "bring_up_to_date p (record_read r p (m_tree m)) = (b, target, l)"
    using assms by (auto simp: build_now_def Let_def split: prod.splits option.splits)
  then show ?thesis
    by (intro exI [of _ "open_move p (m\<lparr>m_tree := record_read r p (m_tree m)\<rparr>)"] exI [of _ "[Read r p, Open p]"])
      (simp add: open_move_def Let_def)
qed

text \<open>The tree that the constructor leaves is one that the machine reaches.\<close>

lemma construct_reached:
  assumes "construct message fuel now source = Some (Inr b)"
  obtains new rules where "read_rules message fuel source = Some (Inr rules)" "expand_rules fuel source rules = Some new"
    "b_commands b = new"
proof -
  obtain rules new b0 v where r: "read_rules message fuel source = Some (Inr rules)"
    and e: "set_rules fuel rules (btree_new source) = (b0, Some new)" and a: "apply_rules now new b0 = Some (b, v)"
    using assms by (auto simp: construct_def split: if_splits option.splits sum.splits prod.splits)
  have "expand_rules fuel source rules = Some new" using e by (simp add: set_rules_def btree_new_def)
  moreover have "b_commands b = new"
    using a by (auto simp: apply_rules_def lay_out_def invalidate_def Let_def apply_same split: option.splits)
  ultimately show thesis using that r by blast
qed

end
