(* ===== verification/Mount_Inodes.thy ===== *)
theory Mount_Inodes
  imports File_Snapshots
begin

text \<open>
  The inodes and handles of the mount (\<^verbatim>\<open>src/virtualfilesystem-linux.cpp\<close>).  A name's inode
  becomes one version of its file once an open has read it; when the file moves on, its name gets a
  new inode and the old one keeps serving its version until the kernel forgets it.  The operations
  are those of the class, each under its own mutex; the machine cuts a lookup and an open where they
  take a mutex, wait for the tree or reply, and lets any number of them interleave with forgets,
  releases and the death of snapshots that nothing holds.
\<close>

section \<open>State\<close>

text \<open>
  \<open>n_snapshot\<close> is a weak pointer: the identity of a snapshot, which is never that of another one
  (a control block outlives the weak pointers to it).
\<close>

record inode_node =
  n_path :: "string list"
  n_lookups :: nat
  n_opened :: "file_info option"
  n_generation :: nat
  n_snapshot :: "nat option"

record file_handle =
  h_path :: "string list"
  h_names :: "string list"
  h_snapshot :: "nat option"

record mount =
  m_last_handle :: nat
  m_handles :: "nat \<Rightarrow> file_handle option"
  m_ids :: "string list \<Rightarrow> nat option"
  m_paths :: "nat \<Rightarrow> inode_node option"
  m_next_inode :: nat

definition root_id :: nat where
  "root_id = 1"

definition new_node :: "string list \<Rightarrow> inode_node" where
  "new_node p = \<lparr>n_path = p, n_lookups = 1, n_opened = None, n_generation = 0, n_snapshot = None\<rparr>"

definition mount_new :: mount where
  "mount_new = \<lparr>m_last_handle = 0, m_handles = (\<lambda>_. None), m_ids = (\<lambda>_. None)([] \<mapsto> root_id),
     m_paths = (\<lambda>_. None)(root_id \<mapsto> new_node []), m_next_inode = root_id\<rparr>"

definition same_info :: "file_info \<Rightarrow> file_info \<Rightarrow> bool" where
  "same_info a b \<longleftrightarrow> f_size a = f_size b \<and> f_mtime a = f_mtime b"

lemma same_info_eq: "same_info a b \<longleftrightarrow> a = b"
  by (auto simp: same_info_def intro: file_info.equality)

section \<open>Operations\<close>

text \<open>Whether a name's inode so far still is what the name is now.\<close>

definition still_is :: "inode_node \<Rightarrow> file_info option \<Rightarrow> nat \<Rightarrow> bool" where
  "still_is n file gen =
     (case n_opened n of
        None \<Rightarrow> True
      | Some opened \<Rightarrow> (case file of None \<Rightarrow> False | Some f \<Rightarrow> n_generation n = gen \<and> same_info opened f))"

definition add_lookup :: "inode_node \<Rightarrow> inode_node" where
  "add_lookup n = n\<lparr>n_lookups := Suc (n_lookups n)\<rparr>"

definition fresh_inode :: "string list \<Rightarrow> mount \<Rightarrow> mount \<times> nat" where
  "fresh_inode p m =
     (let ino = Suc (m_next_inode m)
      in (m\<lparr>m_paths := (m_paths m)(ino \<mapsto> new_node p), m_ids := (m_ids m)(p \<mapsto> ino), m_next_inode := ino\<rparr>, ino))"

text \<open>
  \<open>gen\<close> is the generation of the file, read before the mutex is taken, and 0 for a directory.
  \<open>None\<close> is the exception of \<^verbatim>\<open>m_paths.at\<close>.
\<close>

definition inode_for :: "string list \<Rightarrow> file_info option \<Rightarrow> nat \<Rightarrow> mount \<Rightarrow> (mount \<times> nat) option" where
  "inode_for p file gen m =
     (case m_ids m p of
        None \<Rightarrow> Some (fresh_inode p m)
      | Some ino \<Rightarrow>
          (case m_paths m ino of
             None \<Rightarrow> None
           | Some n \<Rightarrow>
               if still_is n file gen then Some (m\<lparr>m_paths := (m_paths m)(ino \<mapsto> add_lookup n)\<rparr>, ino)
               else Some (fresh_inode p m)))"

definition fix_version :: "snapshot \<Rightarrow> nat \<Rightarrow> inode_node \<Rightarrow> inode_node" where
  "fix_version sn a n = n\<lparr>n_opened := Some (snapshot_info sn), n_generation := sn_generation sn, n_snapshot := Some a\<rparr>"

text \<open>
  \<open>current\<close> is the snapshot \<open>sn\<close> with identity \<open>a\<close>; \<open>alive\<close> says which snapshots are held by
  anyone, so that locking the weak pointer succeeds.
\<close>

definition version_for :: "(nat \<Rightarrow> bool) \<Rightarrow> nat \<Rightarrow> nat \<Rightarrow> snapshot \<Rightarrow> mount \<Rightarrow> mount \<times> nat option" where
  "version_for alive ino a sn m =
     (case m_paths m ino of
        None \<Rightarrow> (m, Some a)
      | Some n \<Rightarrow>
          (case n_opened n of
             None \<Rightarrow> (m\<lparr>m_paths := (m_paths m)(ino \<mapsto> fix_version sn a n)\<rparr>, Some a)
           | Some opened \<Rightarrow>
               (case n_snapshot n of
                  Some h \<Rightarrow>
                    if alive h then (m, Some h)
                    else if n_generation n = sn_generation sn \<and> same_info opened (snapshot_info sn)
                    then (m\<lparr>m_paths := (m_paths m)(ino \<mapsto> n\<lparr>n_snapshot := Some a\<rparr>)\<rparr>, Some a)
                    else (m, None)
                | None \<Rightarrow>
                    if n_generation n = sn_generation sn \<and> same_info opened (snapshot_info sn)
                    then (m\<lparr>m_paths := (m_paths m)(ino \<mapsto> n\<lparr>n_snapshot := Some a\<rparr>)\<rparr>, Some a)
                    else (m, None))))"

text \<open>\<open>path\<close> throws when the inode is not known.\<close>

definition path_of_inode :: "mount \<Rightarrow> nat \<Rightarrow> string list option" where
  "path_of_inode m ino = map_option n_path (m_paths m ino)"

definition forget_inode :: "nat \<Rightarrow> nat \<Rightarrow> mount \<Rightarrow> mount" where
  "forget_inode ino k m =
     (case m_paths m ino of
        None \<Rightarrow> m
      | Some n \<Rightarrow>
          if ino = root_id then m
          else (let l = n_lookups n - min k (n_lookups n)
                in if l = 0
                   then m\<lparr>m_ids := (if m_ids m (n_path n) = Some ino then (m_ids m)(n_path n := None) else m_ids m),
                          m_paths := (m_paths m)(ino := None)\<rparr>
                   else m\<lparr>m_paths := (m_paths m)(ino \<mapsto> n\<lparr>n_lookups := l\<rparr>)\<rparr>))"

definition retain :: "file_handle \<Rightarrow> mount \<Rightarrow> mount \<times> nat" where
  "retain h m =
     (let fh = Suc (m_last_handle m)
      in (m\<lparr>m_last_handle := fh, m_handles := (m_handles m)(fh \<mapsto> h)\<rparr>, fh))"

definition snapshot_of :: "mount \<Rightarrow> nat \<Rightarrow> nat option" where
  "snapshot_of m fh = (case m_handles m fh of None \<Rightarrow> None | Some h \<Rightarrow> h_snapshot h)"

definition drop_handle :: "nat \<Rightarrow> mount \<Rightarrow> mount" where
  "drop_handle fh m = m\<lparr>m_handles := (m_handles m)(fh := None)\<rparr>"

text \<open>The answer to a read of a handle that has a snapshot, and the part of one that a read is.\<close>

definition read_part :: "string \<Rightarrow> nat \<Rightarrow> nat \<Rightarrow> string" where
  "read_part content offset len =
     (let start = min (length content) offset in take (min len (length content - start)) (drop start content))"

definition read_handle :: "(nat \<Rightarrow> snapshot option) \<Rightarrow> mount \<Rightarrow> nat \<Rightarrow> nat \<Rightarrow> nat \<Rightarrow> string option" where
  "read_handle snaps m fh offset len =
     (case snapshot_of m fh of
        None \<Rightarrow> None
      | Some a \<Rightarrow> map_option (\<lambda>sn. read_part (sn_bytes sn) offset len) (snaps a))"

text \<open>What \<^verbatim>\<open>getattr\<close> is fixed to, by a handle's snapshot or else by the inode; 0 is no handle.\<close>

definition fixed_info :: "(nat \<Rightarrow> snapshot option) \<Rightarrow> mount \<Rightarrow> nat \<Rightarrow> nat \<Rightarrow> file_info option" where
  "fixed_info snaps m ino fh =
     (case (if fh = 0 then None else snapshot_of m fh) of
        Some a \<Rightarrow> map_option snapshot_info (snaps a)
      | None \<Rightarrow> (case m_paths m ino of None \<Rightarrow> None | Some n \<Rightarrow> n_opened n))"

section \<open>The machine\<close>

text \<open>
  Where a request of the kernel is: a lookup (or another request that replies with an entry)
  between its looks at the tree, at the table and its reply; an open between the tree's answer, the
  snapshot, the version and the handle.  \<open>q_kernel\<close> counts the references to each inode that the
  kernel was given and has not forgotten, \<open>q_files\<close> the handles it was given and has not released;
  \<open>q_via\<close> is the inode a handle was opened through.
\<close>

datatype mount_request =
    Unsent
  | Naming "string list" "file_info option" nat
  | Named nat
  | Opening nat "string list"
  | Taken nat "string list" nat
  | Versioned nat "string list" nat
  | Retained nat
  | Answered

record mount_sys =
  q_mount :: mount
  q_snaps :: "nat \<Rightarrow> snapshot option"
  q_alive :: "nat \<Rightarrow> bool"
  q_kernel :: "nat \<Rightarrow> nat"
  q_files :: "nat \<Rightarrow> bool"
  q_via :: "nat \<Rightarrow> nat option"
  q_requests :: "nat \<Rightarrow> mount_request"

definition at_request :: "nat \<Rightarrow> mount_request \<Rightarrow> mount_sys \<Rightarrow> mount_sys" where
  "at_request i r q = q\<lparr>q_requests := (q_requests q)(i := r)\<rparr>"

text \<open>The inodes that the kernel may name in a request.\<close>

definition kernel_has :: "mount_sys \<Rightarrow> nat \<Rightarrow> bool" where
  "kernel_has q ino \<longleftrightarrow> ino = root_id \<or> 0 < q_kernel q ino"

fun request_holds :: "mount_request \<Rightarrow> nat \<Rightarrow> bool" where
  "request_holds (Taken ino p a) b = (a = b)"
| "request_holds (Versioned ino p a) b = (a = b)"
| "request_holds _ b = False"

definition handle_holds :: "mount \<Rightarrow> nat \<Rightarrow> bool" where
  "handle_holds m a \<longleftrightarrow> (\<exists>fh. snapshot_of m fh = Some a)"

inductive mount_step :: "mount_sys \<Rightarrow> mount_sys \<Rightarrow> bool" where
  Entry_begins: "q_requests q i = Unsent \<Longrightarrow> kernel_has q parent \<Longrightarrow> path_of_inode (q_mount q) parent = Some p \<Longrightarrow>
    mount_step q (at_request i (Naming (p @ [n]) file gen) q)"
| Inode_given: "q_requests q i = Naming p file gen \<Longrightarrow> inode_for p file gen (q_mount q) = Some (m', ino) \<Longrightarrow>
    mount_step q (at_request i (Named ino) (q\<lparr>q_mount := m'\<rparr>))"
| Entry_replied: "q_requests q i = Named ino \<Longrightarrow>
    mount_step q (at_request i Answered (q\<lparr>q_kernel := (q_kernel q)(ino := Suc (q_kernel q ino))\<rparr>))"
| Entry_failed: "q_requests q i = Named ino \<Longrightarrow>
    mount_step q (at_request i Answered (q\<lparr>q_mount := forget_inode ino 1 (q_mount q)\<rparr>))"
| Forgotten: "k \<le> q_kernel q ino \<Longrightarrow>
    mount_step q (q\<lparr>q_mount := forget_inode ino k (q_mount q), q_kernel := (q_kernel q)(ino := q_kernel q ino - k)\<rparr>)"
| Open_begins: "q_requests q i = Unsent \<Longrightarrow> kernel_has q ino \<Longrightarrow> path_of_inode (q_mount q) ino = Some p \<Longrightarrow>
    mount_step q (at_request i (Opening ino p) q)"
| Open_refused: "q_requests q i = Opening ino p \<Longrightarrow> mount_step q (at_request i Answered q)"
| Snapshot_taken: "q_requests q i = Opening ino p \<Longrightarrow> q_snaps q a = None \<or> q_alive q a \<and> q_snaps q a = Some sn \<Longrightarrow>
    sn_path sn = p \<Longrightarrow>
    mount_step q (at_request i (Taken ino p a) (q\<lparr>q_snaps := (q_snaps q)(a \<mapsto> sn), q_alive := (q_alive q)(a := True)\<rparr>))"
| Version_given: "q_requests q i = Taken ino p a \<Longrightarrow> q_snaps q a = Some sn \<Longrightarrow>
    version_for (q_alive q) ino a sn (q_mount q) = (m', Some b) \<Longrightarrow>
    mount_step q (at_request i (Versioned ino p b) (q\<lparr>q_mount := m'\<rparr>))"
| Version_gone: "q_requests q i = Taken ino p a \<Longrightarrow> q_snaps q a = Some sn \<Longrightarrow>
    version_for (q_alive q) ino a sn (q_mount q) = (m', None) \<Longrightarrow>
    mount_step q (at_request i Answered (q\<lparr>q_mount := m'\<rparr>))"
| File_retained: "q_requests q i = Versioned ino p a \<Longrightarrow>
    retain \<lparr>h_path = p, h_names = [], h_snapshot = Some a\<rparr> (q_mount q) = (m', fh) \<Longrightarrow>
    mount_step q (at_request i (Retained fh) (q\<lparr>q_mount := m', q_via := (q_via q)(fh \<mapsto> ino)\<rparr>))"
| Directory_retained: "q_requests q i = Unsent \<Longrightarrow> kernel_has q ino \<Longrightarrow> path_of_inode (q_mount q) ino = Some p \<Longrightarrow>
    retain \<lparr>h_path = p, h_names = ns, h_snapshot = None\<rparr> (q_mount q) = (m', fh) \<Longrightarrow>
    mount_step q (at_request i (Retained fh) (q\<lparr>q_mount := m'\<rparr>))"
| Open_replied: "q_requests q i = Retained fh \<Longrightarrow>
    mount_step q (at_request i Answered (q\<lparr>q_files := (q_files q)(fh := True)\<rparr>))"
| Open_failed: "q_requests q i = Retained fh \<Longrightarrow>
    mount_step q (at_request i Answered (q\<lparr>q_mount := drop_handle fh (q_mount q)\<rparr>))"
| Released: "q_files q fh \<Longrightarrow>
    mount_step q (q\<lparr>q_mount := drop_handle fh (q_mount q), q_files := (q_files q)(fh := False)\<rparr>)"
| Snapshot_dies: "(\<And>i. \<not> request_holds (q_requests q i) a) \<Longrightarrow> \<not> handle_holds (q_mount q) a \<Longrightarrow>
    mount_step q (q\<lparr>q_alive := (q_alive q)(a := False)\<rparr>)"

definition mount_init :: "mount_sys \<Rightarrow> bool" where
  "mount_init q \<longleftrightarrow> q_mount q = mount_new \<and> q_snaps q = (\<lambda>_. None) \<and> q_alive q = (\<lambda>_. False) \<and> q_kernel q = (\<lambda>_. 0) \<and>
     q_files q = (\<lambda>_. False) \<and> q_via q = (\<lambda>_. None) \<and> q_requests q = (\<lambda>_. Unsent)"

section \<open>What the operations do, case by case\<close>

lemma inode_for_cases:
  assumes "inode_for p file gen m = Some (m', ino)"
  obtains (Same) n where "m_ids m p = Some ino" "m_paths m ino = Some n" "still_is n file gen"
      "m' = m\<lparr>m_paths := (m_paths m)(ino \<mapsto> add_lookup n)\<rparr>"
    | (New) "ino = Suc (m_next_inode m)"
      "m' = m\<lparr>m_paths := (m_paths m)(ino \<mapsto> new_node p), m_ids := (m_ids m)(p \<mapsto> ino), m_next_inode := ino\<rparr>"
  using assms by (auto simp: inode_for_def fresh_inode_def Let_def split: option.splits if_splits)

lemma version_for_cases:
  assumes "version_for alive ino a sn m = (m', r)"
  obtains (Absent) "m_paths m ino = None" "m' = m" "r = Some a"
    | (First) n where "m_paths m ino = Some n" "n_opened n = None"
      "m' = m\<lparr>m_paths := (m_paths m)(ino \<mapsto> fix_version sn a n)\<rparr>" "r = Some a"
    | (Held) n h where "m_paths m ino = Some n" "n_opened n \<noteq> None" "n_snapshot n = Some h" "alive h" "m' = m" "r = Some h"
    | (Again) n where "m_paths m ino = Some n" "n_opened n = Some (snapshot_info sn)" "n_generation n = sn_generation sn"
      "\<And>h. n_snapshot n = Some h \<Longrightarrow> \<not> alive h"
      "m' = m\<lparr>m_paths := (m_paths m)(ino \<mapsto> n\<lparr>n_snapshot := Some a\<rparr>)\<rparr>" "r = Some a"
    | (Gone) n where "m_paths m ino = Some n" "n_opened n \<noteq> None" "m' = m" "r = None"
proof (cases "m_paths m ino")
  case None
  with assms show ?thesis by (intro Absent) (auto simp: version_for_def)
next
  case (Some n)
  show ?thesis
  proof (cases "n_opened n")
    case None
    with assms Some show ?thesis by (intro First) (auto simp: version_for_def)
  next
    case opened: (Some info)
    show ?thesis
    proof (cases "\<exists>h. n_snapshot n = Some h \<and> alive h")
      case True
      then obtain h where "n_snapshot n = Some h" "alive h" by blast
      with assms Some opened show ?thesis by (intro Held) (auto simp: version_for_def)
    next
      case dead: False
      show ?thesis
      proof (cases "n_generation n = sn_generation sn \<and> info = snapshot_info sn")
        case True
        with assms Some opened dead show ?thesis
          by (intro Again) (auto simp: version_for_def same_info_eq split: option.splits)
      next
        case False
        with assms Some opened dead show ?thesis
          by (intro Gone) (auto simp: version_for_def same_info_eq split: option.splits if_splits)
      qed
    qed
  qed
qed

lemma forget_inode_cases:
  obtains (Kept) "forget_inode ino k m = m" "m_paths m ino = None \<or> ino = root_id"
    | (Fewer) n where "m_paths m ino = Some n" "ino \<noteq> root_id" "k < n_lookups n"
      "forget_inode ino k m = m\<lparr>m_paths := (m_paths m)(ino \<mapsto> n\<lparr>n_lookups := n_lookups n - k\<rparr>)\<rparr>"
    | (Erased) n where "m_paths m ino = Some n" "ino \<noteq> root_id" "n_lookups n \<le> k"
      "forget_inode ino k m = m\<lparr>m_ids := (if m_ids m (n_path n) = Some ino then (m_ids m)(n_path n := None) else m_ids m),
         m_paths := (m_paths m)(ino := None)\<rparr>"
proof (cases "m_paths m ino")
  case None
  then show ?thesis by (intro that(1)) (simp_all add: forget_inode_def)
next
  case (Some n)
  show ?thesis
  proof (cases "ino = root_id")
    case True
    with Some show ?thesis by (intro that(1)) (simp_all add: forget_inode_def)
  next
    case False
    show ?thesis
    proof (cases "n_lookups n \<le> k")
      case True
      with Some False show ?thesis by (intro that(3)) (simp_all add: forget_inode_def)
    next
      case less: False
      with Some False show ?thesis by (intro that(2)) (simp_all add: forget_inode_def)
    qed
  qed
qed

section \<open>The names\<close>

fun names_a_child :: "mount_request \<Rightarrow> bool" where
  "names_a_child (Naming p file gen) = (p \<noteq> [])"
| "names_a_child (Named ino) = (ino \<noteq> root_id)"
| "names_a_child _ = True"

definition inodes_ok :: "mount \<Rightarrow> bool" where
  "inodes_ok m \<longleftrightarrow> m_ids m [] = Some root_id \<and> m_paths m root_id \<noteq> None \<and> root_id \<le> m_next_inode m \<and>
     (\<forall>p ino. m_ids m p = Some ino \<longrightarrow> (\<exists>n. m_paths m ino = Some n \<and> n_path n = p)) \<and>
     (\<forall>ino. m_paths m ino \<noteq> None \<longrightarrow> ino \<le> m_next_inode m)"

definition mount_names_ok :: "mount_sys \<Rightarrow> bool" where
  "mount_names_ok q \<longleftrightarrow> inodes_ok (q_mount q) \<and> (\<forall>i. names_a_child (q_requests q i))"

lemma table_ok_D:
  assumes "inodes_ok m"
  shows "m_ids m [] = Some root_id" "\<exists>n. m_paths m root_id = Some n \<and> n_path n = []" "root_id \<le> m_next_inode m"
    "m_ids m p = Some ino \<Longrightarrow> \<exists>n. m_paths m ino = Some n \<and> n_path n = p"
    "m_paths m ino = Some n \<Longrightarrow> ino \<le> m_next_inode m"
    "m_next_inode m < ino \<Longrightarrow> m_paths m ino = None"
    "m_ids m p = Some root_id \<longleftrightarrow> p = []"
proof -
  note ok = assms [unfolded inodes_ok_def]
  show "m_ids m [] = Some root_id" "root_id \<le> m_next_inode m" using ok by simp_all
  show root: "\<exists>n. m_paths m root_id = Some n \<and> n_path n = []" using ok by blast
  show named: "m_ids m p = Some ino \<Longrightarrow> \<exists>n. m_paths m ino = Some n \<and> n_path n = p" for p ino using ok by blast
  show "m_paths m ino = Some n \<Longrightarrow> ino \<le> m_next_inode m" using ok by auto
  show "m_next_inode m < ino \<Longrightarrow> m_paths m ino = None" using ok by (meson linorder_not_le)
  show "m_ids m p = Some root_id \<longleftrightarrow> p = []"
    using root named [of p root_id] conjunct1 [OF ok] by auto
qed

lemma table_ok_update:
  assumes ok: "inodes_ok m" and n: "m_paths m ino = Some n" "n_path n' = n_path n"
  shows "inodes_ok (m\<lparr>m_paths := (m_paths m)(ino \<mapsto> n')\<rparr>)"
proof -
  have "n_path n = p" if "m_ids m p = Some ino" for p
    using table_ok_D(4) [OF ok that] n by simp
  with ok n show ?thesis unfolding inodes_ok_def by auto
qed

lemma inode_for_table:
  assumes "inodes_ok m" "inode_for p file gen m = Some (m', ino)" "p \<noteq> []"
  shows "inodes_ok m' \<and> ino \<noteq> root_id"
  using assms(2)
proof (cases rule: inode_for_cases)
  case (Same n)
  with assms table_ok_D(7) [of m p] table_ok_update [OF assms(1) Same(2), of "add_lookup n"] show ?thesis
    by (auto simp: add_lookup_def)
next
  case New
  have absent: "m_paths m ino = None" using table_ok_D(6) [OF assms(1)] New(1) by simp
  then have "m_ids m q \<noteq> Some (Suc (m_next_inode m))" for q
    using table_ok_D(4) [OF assms(1), of q ino] New(1) by auto
  with assms New absent table_ok_D(3) [OF assms(1)] show ?thesis
    unfolding inodes_ok_def by (auto simp: new_node_def le_SucI)
qed

lemma inode_for_some: "inodes_ok m \<Longrightarrow> inode_for p file gen m \<noteq> None"
  using table_ok_D(4) [of m p] by (fastforce simp: inode_for_def split: option.splits)

lemma forget_inode_table:
  assumes ok: "inodes_ok m"
  shows "inodes_ok (forget_inode ino k m)"
proof (cases rule: forget_inode_cases [of ino k m])
  case (Fewer n)
  show ?thesis unfolding Fewer(4) by (rule table_ok_update [OF ok Fewer(1)]) simp
next
  case (Erased n)
  let ?m = "forget_inode ino k m"
  have only: "q = n_path n" if "m_ids m q = Some ino" for q
    using table_ok_D(4) [OF ok that] Erased(1) by simp
  have ids: "m_ids ?m q = Some j \<longleftrightarrow> m_ids m q = Some j \<and> j \<noteq> ino" for q j
    using only [of q] by (cases "m_ids m q = Some ino") (auto simp: Erased(4))
  have paths: "m_paths ?m j = (if j = ino then None else m_paths m j)" for j
    by (simp add: Erased(4))
  have "m_next_inode ?m = m_next_inode m" by (simp add: Erased(4))
  then show ?thesis
    using ok Erased(2) unfolding inodes_ok_def ids paths by auto
qed (use ok in simp)

lemma version_for_table: "inodes_ok m \<Longrightarrow> version_for alive ino a sn m = (m', r) \<Longrightarrow> inodes_ok m'"
  by (erule version_for_cases) (auto simp: fix_version_def intro: table_ok_update)

lemma retain_table: "inodes_ok m \<Longrightarrow> retain h m = (m', fh) \<Longrightarrow> inodes_ok m'"
  by (auto simp: retain_def inodes_ok_def Let_def)

lemma drop_handle_table: "inodes_ok m \<Longrightarrow> inodes_ok (drop_handle fh m)"
  by (simp add: drop_handle_def inodes_ok_def)

lemma names_step:
  assumes "mount_step q q'" and ok: "mount_names_ok q"
  shows "mount_names_ok q'"
proof -
  have r: "names_a_child (q_requests q i)" for i using ok by (simp add: mount_names_ok_def)
  show ?thesis
    using assms(1)
  proof cases
    case (Inode_given i p info gen m' ino)
    with ok r [of i] inode_for_table [of "q_mount q" p info gen m' ino] show ?thesis
      by (auto simp: mount_names_ok_def at_request_def)
  qed (use ok in \<open>auto simp: mount_names_ok_def at_request_def forget_inode_table drop_handle_table
        intro: version_for_table retain_table\<close>)
qed

section \<open>The references of the kernel\<close>

text \<open>An inode is known for as long as the kernel has it, or a reply on its way to it does.\<close>

definition lookups :: "mount \<Rightarrow> nat \<Rightarrow> nat" where
  "lookups m ino = (case m_paths m ino of None \<Rightarrow> 0 | Some n \<Rightarrow> n_lookups n)"

definition replies_with :: "mount_sys \<Rightarrow> nat \<Rightarrow> nat" where
  "replies_with q ino = card {i. q_requests q i = Named ino}"

definition counts_ok :: "mount_sys \<Rightarrow> bool" where
  "counts_ok q \<longleftrightarrow> finite {i. q_requests q i \<noteq> Unsent} \<and>
     (\<forall>ino. ino \<noteq> root_id \<longrightarrow> lookups (q_mount q) ino = q_kernel q ino + replies_with q ino) \<and>
     (\<forall>ino n. m_paths (q_mount q) ino = Some n \<longrightarrow> 0 < n_lookups n)"

lemma replies_at_request:
  assumes "finite {i. q_requests q i \<noteq> Unsent}"
  shows "replies_with (at_request i r q) ino + of_bool (q_requests q i = Named ino) =
    replies_with q ino + of_bool (r = Named ino)"
proof -
  have "{j. q_requests q j = Named ino} \<subseteq> {j. q_requests q j \<noteq> Unsent}" by auto
  then have fin: "finite {j. q_requests q j = Named ino}" using assms by (rule finite_subset)
  have "{j. q_requests (at_request i r q) j = Named ino} =
      (if r = Named ino then insert i ({j. q_requests q j = Named ino} - {i}) else {j. q_requests q j = Named ino} - {i})"
    by (auto simp: at_request_def)
  then show ?thesis
    using fin card_Suc_Diff1 [OF fin, of i] by (simp add: replies_with_def card_insert_if)
qed

lemma replies_mount [simp]:
  "replies_with (q\<lparr>q_mount := m\<rparr>) = replies_with q" "replies_with (q\<lparr>q_kernel := k\<rparr>) = replies_with q"
  "replies_with (q\<lparr>q_files := f\<rparr>) = replies_with q" "replies_with (q\<lparr>q_via := v\<rparr>) = replies_with q"
  "replies_with (q\<lparr>q_snaps := s\<rparr>) = replies_with q" "replies_with (q\<lparr>q_alive := a\<rparr>) = replies_with q"
  by (simp_all add: replies_with_def fun_eq_iff)

text \<open>The one lemma for every step: the request, the table and the kernel's count move together.\<close>

lemma counts_ok_move:
  assumes ok: "counts_ok q"
    and count: "\<And>ino. ino \<noteq> root_id \<Longrightarrow> lookups m' ino + q_kernel q ino + of_bool (q_requests q i = Named ino) =
        lookups (q_mount q) ino + k' ino + of_bool (r = Named ino)"
    and pos: "\<And>ino n. m_paths m' ino = Some n \<Longrightarrow> 0 < n_lookups n"
    and q': "q_requests q' = (q_requests q)(i := r)" "q_mount q' = m'" "q_kernel q' = k'"
  shows "counts_ok q'"
proof -
  have fin: "finite {i. q_requests q i \<noteq> Unsent}" using ok by (simp add: counts_ok_def)
  have "{j. q_requests q' j \<noteq> Unsent} \<subseteq> insert i {j. q_requests q j \<noteq> Unsent}" using q' by auto
  then have "finite {j. q_requests q' j \<noteq> Unsent}" using fin by (meson finite_insert finite_subset)
  moreover have "lookups m' ino = k' ino + replies_with q' ino" if "ino \<noteq> root_id" for ino
  proof -
    have "replies_with q' ino = replies_with (at_request i r q) ino"
      by (simp add: replies_with_def at_request_def q')
    then show ?thesis
      using replies_at_request [OF fin, of i r ino] count [OF that] ok that by (simp add: counts_ok_def)
  qed
  ultimately show ?thesis using pos by (simp add: counts_ok_def q')
qed

lemma lookups_forget:
  assumes "ino \<noteq> root_id"
  shows "lookups (forget_inode ino k m) j = (if j = ino then lookups m ino - k else lookups m j)"
  by (cases rule: forget_inode_cases [of ino k m]) (use assms in \<open>auto simp: lookups_def\<close>)

lemma positive_forget:
  assumes "m_paths (forget_inode ino k m) j = Some n" "\<And>j n. m_paths m j = Some n \<Longrightarrow> 0 < n_lookups n"
  shows "0 < n_lookups n"
  using assms by (cases rule: forget_inode_cases [of ino k m]) (auto split: if_splits)

lemma lookups_inode_for:
  assumes "inode_for p info gen m = Some (m', ino)" "inodes_ok m"
  shows "lookups m' j = lookups m j + of_bool (j = ino)"
  using assms(1)
proof (cases rule: inode_for_cases)
  case (Same n)
  then show ?thesis by (simp add: lookups_def add_lookup_def)
next
  case New
  with table_ok_D(6) [OF assms(2), of ino] show ?thesis by (simp add: lookups_def new_node_def)
qed

lemma positive_inode_for:
  assumes "inode_for p info gen m = Some (m', ino)" "\<And>j n. m_paths m j = Some n \<Longrightarrow> 0 < n_lookups n"
    "m_paths m' j = Some n"
  shows "0 < n_lookups n"
  using assms by (cases rule: inode_for_cases) (auto simp: add_lookup_def new_node_def split: if_splits)

lemma lookups_version_for: "version_for alive ino a sn m = (m', r) \<Longrightarrow> lookups m' = lookups m"
  by (erule version_for_cases) (auto simp: lookups_def fix_version_def fun_eq_iff)

lemma positive_version_for:
  assumes "version_for alive ino a sn m = (m', r)" "\<And>j n. m_paths m j = Some n \<Longrightarrow> 0 < n_lookups n"
    "m_paths m' j = Some n"
  shows "0 < n_lookups n"
  using assms by (cases rule: version_for_cases) (auto simp: fix_version_def split: if_splits)

lemma lookups_handles [simp]:
  "lookups (drop_handle fh m) = lookups m" "m_paths (drop_handle fh m) = m_paths m"
  by (simp_all add: lookups_def drop_handle_def fun_eq_iff)

lemma retain_paths: "retain h m = (m', fh) \<Longrightarrow> m_paths m' = m_paths m \<and> lookups m' = lookups m"
  by (auto simp: retain_def Let_def lookups_def fun_eq_iff)

lemma counts_step:
  assumes "mount_step q q'" and ok: "counts_ok q" and names: "mount_names_ok q"
  shows "counts_ok q'"
proof -
  have pos: "\<And>ino n. m_paths (q_mount q) ino = Some n \<Longrightarrow> 0 < n_lookups n"
    and eq: "\<And>ino. ino \<noteq> root_id \<Longrightarrow> lookups (q_mount q) ino = q_kernel q ino + replies_with q ino"
    and tab: "inodes_ok (q_mount q)"
    using ok names by (simp_all add: counts_ok_def mount_names_ok_def)
  have one: "0 < replies_with q ino" if "q_requests q i = Named ino" for i ino
    using that ok replies_at_request [of q i Answered ino] by (simp add: counts_ok_def)
  have not_root: "ino \<noteq> root_id" if "q_requests q i = Named ino" for i ino
    using names that by (metis names_a_child.simps(2) mount_names_ok_def)
  show ?thesis
    using assms(1)
  proof cases
    case (Inode_given i p info gen m' ino)
    then show ?thesis
      using lookups_inode_for [OF Inode_given(3) tab] positive_inode_for [OF Inode_given(3) pos]
      by (intro counts_ok_move [OF ok, where i = i and r = "Named ino" and m' = m' and k' = "q_kernel q"])
        (auto simp: at_request_def)
  next
    case (Entry_replied i ino)
    then show ?thesis
      by (intro counts_ok_move [OF ok, where i = i and r = Answered and m' = "q_mount q"
            and k' = "(q_kernel q)(ino := Suc (q_kernel q ino))"]) (auto simp: at_request_def intro: pos)
  next
    case (Entry_failed i ino)
    have "0 < lookups (q_mount q) ino" using eq [OF not_root] one Entry_failed by simp
    then show ?thesis
      using Entry_failed lookups_forget [OF not_root, of i ino] positive_forget [of ino 1 "q_mount q", OF _ pos]
      by (intro counts_ok_move [OF ok, where i = i and r = Answered and m' = "forget_inode ino 1 (q_mount q)"
            and k' = "q_kernel q"]) (auto simp: at_request_def)
  next
    case (Forgotten k ino)
    have q': "q_requests q' = (q_requests q)(i := q_requests q i)" for i by (simp add: Forgotten)
    have "k \<le> lookups (q_mount q) ino" if "ino \<noteq> root_id" using eq [OF that] Forgotten(2) by simp
    moreover have "lookups (forget_inode root_id k (q_mount q)) j = lookups (q_mount q) j" for j
      by (cases rule: forget_inode_cases [of root_id k "q_mount q"]) auto
    ultimately show ?thesis
      using Forgotten lookups_forget [of ino k "q_mount q"] positive_forget [of ino k "q_mount q", OF _ pos]
      by (intro counts_ok_move [OF ok, where i = 0 and r = "q_requests q 0" and m' = "forget_inode ino k (q_mount q)"
            and k' = "(q_kernel q)(ino := q_kernel q ino - k)"]) (cases "ino = root_id"; auto)+
  next
    case (Version_given i ino p a sn m' b)
    then show ?thesis
      using lookups_version_for [OF Version_given(4)] positive_version_for [OF Version_given(4) pos]
      by (intro counts_ok_move [OF ok, where i = i and r = "Versioned ino p b" and m' = m' and k' = "q_kernel q"])
        (auto simp: at_request_def)
  next
    case (Version_gone i ino p a sn m')
    then show ?thesis
      using lookups_version_for [OF Version_gone(4)] positive_version_for [OF Version_gone(4) pos]
      by (intro counts_ok_move [OF ok, where i = i and r = Answered and m' = m' and k' = "q_kernel q"])
        (auto simp: at_request_def)
  next
    case (File_retained i ino p a m' fh)
    then show ?thesis
      using retain_paths [OF File_retained(3)] pos
      by (intro counts_ok_move [OF ok, where i = i and r = "Retained fh" and m' = m' and k' = "q_kernel q"])
        (auto simp: at_request_def)
  next
    case (Directory_retained i ino p ns m' fh)
    then show ?thesis
      using retain_paths [OF Directory_retained(5)] pos
      by (intro counts_ok_move [OF ok, where i = i and r = "Retained fh" and m' = m' and k' = "q_kernel q"])
        (auto simp: at_request_def)
  next
    case (Released fh)
    then show ?thesis
      by (intro counts_ok_move [OF ok, where i = 0 and r = "q_requests q 0" and m' = "drop_handle fh (q_mount q)"
            and k' = "q_kernel q"]) (auto intro: pos)
  next
    case (Snapshot_dies a)
    with ok show ?thesis by (simp add: counts_ok_def)
  next
    case (Open_failed i fh)
    then show ?thesis
      by (intro counts_ok_move [OF ok, where i = i and r = Answered and m' = "drop_handle fh (q_mount q)"
            and k' = "q_kernel q"]) (auto simp: at_request_def intro: pos)
  qed (rule counts_ok_move [OF ok, where m' = "q_mount q" and k' = "q_kernel q"];
       force simp: at_request_def intro: pos)+
qed

section \<open>The versions\<close>

text \<open>
  What is fixed to a version: an open that was given one for the inode and has yet to make its
  handle, or a handle opened through the inode.
\<close>

definition inode_serves :: "mount_sys \<Rightarrow> nat \<Rightarrow> nat \<Rightarrow> bool" where
  "inode_serves q ino a \<longleftrightarrow> (\<exists>i p. q_requests q i = Versioned ino p a) \<or>
     (\<exists>fh. q_via q fh = Some ino \<and> snapshot_of (q_mount q) fh = Some a)"

definition held_alive :: "mount_sys \<Rightarrow> bool" where
  "held_alive q \<longleftrightarrow> (\<forall>i a. request_holds (q_requests q i) a \<longrightarrow> q_alive q a) \<and>
     (\<forall>fh a. snapshot_of (q_mount q) fh = Some a \<longrightarrow> q_alive q a) \<and> (\<forall>a. q_alive q a \<longrightarrow> (\<exists>sn. q_snaps q a = Some sn))"

definition node_fixed :: "(nat \<Rightarrow> snapshot option) \<Rightarrow> inode_node \<Rightarrow> bool" where
  "node_fixed snaps n \<longleftrightarrow> n_opened n \<noteq> None \<longrightarrow>
     (\<exists>a sn. n_snapshot n = Some a \<and> snaps a = Some sn \<and> n_opened n = Some (snapshot_info sn) \<and>
       sn_generation sn = n_generation n \<and> sn_path sn = n_path n)"

definition nodes_fixed :: "mount_sys \<Rightarrow> bool" where
  "nodes_fixed q \<longleftrightarrow> (\<forall>ino n. m_paths (q_mount q) ino = Some n \<longrightarrow> node_fixed (q_snaps q) n)"

definition served :: "mount_sys \<Rightarrow> bool" where
  "served q \<longleftrightarrow> (\<forall>ino a. inode_serves q ino a \<longrightarrow> ino \<le> m_next_inode (q_mount q) \<and>
     (\<forall>n. m_paths (q_mount q) ino = Some n \<longrightarrow> n_opened n \<noteq> None \<and> n_snapshot n = Some a))"

fun of_inode :: "mount_request \<Rightarrow> nat \<Rightarrow> string list \<Rightarrow> bool" where
  "of_inode (Opening ino p) j p' = (ino = j \<and> p = p')"
| "of_inode (Taken ino p a) j p' = (ino = j \<and> p = p')"
| "of_inode _ j p' = False"

fun of_snapshot :: "mount_request \<Rightarrow> string list \<Rightarrow> nat \<Rightarrow> bool" where
  "of_snapshot (Taken ino p a) p' b = (p = p' \<and> a = b)"
| "of_snapshot (Versioned ino p a) p' b = (p = p' \<and> a = b)"
| "of_snapshot _ p' b = False"

definition opens_ok :: "mount_sys \<Rightarrow> bool" where
  "opens_ok q \<longleftrightarrow>
     (\<forall>i ino p. of_inode (q_requests q i) ino p \<longrightarrow> ino \<le> m_next_inode (q_mount q) \<and>
       (\<forall>n. m_paths (q_mount q) ino = Some n \<longrightarrow> n_path n = p)) \<and>
     (\<forall>i p a. of_snapshot (q_requests q i) p a \<longrightarrow> (\<exists>sn. q_snaps q a = Some sn \<and> sn_path sn = p))"

definition handles_ok :: "mount_sys \<Rightarrow> bool" where
  "handles_ok q \<longleftrightarrow>
     (\<forall>fh h a. m_handles (q_mount q) fh = Some h \<and> h_snapshot h = Some a \<longrightarrow>
       q_via q fh \<noteq> None \<and> (\<exists>sn. q_snaps q a = Some sn \<and> sn_path sn = h_path h)) \<and>
     (\<forall>fh. m_handles (q_mount q) fh \<noteq> None \<or> q_via q fh \<noteq> None \<longrightarrow> fh \<le> m_last_handle (q_mount q))"

text \<open>How the operations move the fields that these speak of.\<close>

lemma snapshot_of_paths [simp]:
  "snapshot_of (m\<lparr>m_paths := P\<rparr>) = snapshot_of m" "snapshot_of (m\<lparr>m_ids := I\<rparr>) = snapshot_of m"
  "snapshot_of (m\<lparr>m_next_inode := x\<rparr>) = snapshot_of m"
  by (simp_all add: snapshot_of_def fun_eq_iff)

lemma snapshot_of_drop: "snapshot_of (drop_handle fh m) g = (if g = fh then None else snapshot_of m g)"
  by (simp add: snapshot_of_def drop_handle_def)

lemma retain_fields:
  assumes "retain h m = (m', fh)"
  shows "fh = Suc (m_last_handle m)" "m_last_handle m' = fh" "m_handles m' = (m_handles m)(fh \<mapsto> h)"
    "snapshot_of m' g = (if g = fh then h_snapshot h else snapshot_of m g)"
    "m_paths m' = m_paths m" "m_next_inode m' = m_next_inode m"
  using assms by (auto simp: retain_def Let_def snapshot_of_def)

lemma drop_fields [simp]:
  "m_next_inode (drop_handle fh m) = m_next_inode m" "m_last_handle (drop_handle fh m) = m_last_handle m"
  "m_handles (drop_handle fh m) = (m_handles m)(fh := None)"
  by (simp_all add: drop_handle_def)

lemma inode_for_fields:
  assumes "inode_for p info gen m = Some (m', ino)"
  shows "m_handles m' = m_handles m" "m_last_handle m' = m_last_handle m" "snapshot_of m' = snapshot_of m"
    "m_next_inode m \<le> m_next_inode m'"
    "m_paths m' j = Some n' \<Longrightarrow> (m_next_inode m < j \<and> n' = new_node p) \<or>
      (\<exists>n. m_paths m j = Some n \<and> n_opened n' = n_opened n \<and> n_snapshot n' = n_snapshot n \<and>
         n_generation n' = n_generation n \<and> n_path n' = n_path n)"
  using assms by (cases rule: inode_for_cases; auto simp: add_lookup_def split: if_splits)+

lemma forget_inode_fields:
  "m_handles (forget_inode ino k m) = m_handles m" "m_last_handle (forget_inode ino k m) = m_last_handle m"
  "snapshot_of (forget_inode ino k m) = snapshot_of m" "m_next_inode (forget_inode ino k m) = m_next_inode m"
  "m_paths (forget_inode ino k m) j = Some n' \<Longrightarrow>
     \<exists>n. m_paths m j = Some n \<and> n_opened n' = n_opened n \<and> n_snapshot n' = n_snapshot n \<and>
         n_generation n' = n_generation n \<and> n_path n' = n_path n"
  by (cases rule: forget_inode_cases [of ino k m]; auto split: if_splits)+

lemma version_for_fields:
  assumes "version_for alive ino a sn m = (m', r)"
  shows "m_handles m' = m_handles m" "m_last_handle m' = m_last_handle m" "snapshot_of m' = snapshot_of m"
    "m_next_inode m' = m_next_inode m" "j \<noteq> ino \<Longrightarrow> m_paths m' j = m_paths m j"
  using assms by (cases rule: version_for_cases; auto simp: fix_version_def)+

definition versions_ok :: "mount_sys \<Rightarrow> bool" where
  "versions_ok q \<longleftrightarrow> held_alive q \<and> nodes_fixed q \<and> served q \<and> opens_ok q \<and> handles_ok q"

lemma versions_ok_D:
  assumes "versions_ok q"
  shows "request_holds (q_requests q i) a \<Longrightarrow> q_alive q a" "snapshot_of (q_mount q) fh = Some a \<Longrightarrow> q_alive q a"
    "q_alive q a \<Longrightarrow> \<exists>sn. q_snaps q a = Some sn"
    "m_paths (q_mount q) ino = Some n \<Longrightarrow> node_fixed (q_snaps q) n"
    "inode_serves q ino a \<Longrightarrow> ino \<le> m_next_inode (q_mount q)"
    "inode_serves q ino a \<Longrightarrow> m_paths (q_mount q) ino = Some n \<Longrightarrow> n_opened n \<noteq> None \<and> n_snapshot n = Some a"
    "of_inode (q_requests q i) ino p \<Longrightarrow> ino \<le> m_next_inode (q_mount q)"
    "of_inode (q_requests q i) ino p \<Longrightarrow> m_paths (q_mount q) ino = Some n \<Longrightarrow> n_path n = p"
    "of_snapshot (q_requests q i) p a \<Longrightarrow> \<exists>sn. q_snaps q a = Some sn \<and> sn_path sn = p"
    "m_handles (q_mount q) fh = Some h \<Longrightarrow> h_snapshot h = Some a \<Longrightarrow> q_via q fh \<noteq> None"
    "m_handles (q_mount q) fh = Some h \<Longrightarrow> h_snapshot h = Some a \<Longrightarrow> \<exists>sn. q_snaps q a = Some sn \<and> sn_path sn = h_path h"
    "m_handles (q_mount q) fh \<noteq> None \<or> q_via q fh \<noteq> None \<Longrightarrow> fh \<le> m_last_handle (q_mount q)"
proof -
  have parts: "held_alive q" "nodes_fixed q" "served q" "opens_ok q" "handles_ok q"
    using assms by (simp_all add: versions_ok_def)
  show "request_holds (q_requests q i) a \<Longrightarrow> q_alive q a" "snapshot_of (q_mount q) fh = Some a \<Longrightarrow> q_alive q a"
    "q_alive q a \<Longrightarrow> \<exists>sn. q_snaps q a = Some sn"
    using parts(1) by (auto simp: held_alive_def)
  show "m_paths (q_mount q) ino = Some n \<Longrightarrow> node_fixed (q_snaps q) n"
    "inode_serves q ino a \<Longrightarrow> ino \<le> m_next_inode (q_mount q)"
    "inode_serves q ino a \<Longrightarrow> m_paths (q_mount q) ino = Some n \<Longrightarrow> n_opened n \<noteq> None \<and> n_snapshot n = Some a"
    using parts(2,3) by (auto simp: nodes_fixed_def served_def)
  show "of_inode (q_requests q i) ino p \<Longrightarrow> ino \<le> m_next_inode (q_mount q)"
    "of_inode (q_requests q i) ino p \<Longrightarrow> m_paths (q_mount q) ino = Some n \<Longrightarrow> n_path n = p"
    "of_snapshot (q_requests q i) p a \<Longrightarrow> \<exists>sn. q_snaps q a = Some sn \<and> sn_path sn = p"
    using parts(4) by (auto simp: opens_ok_def)
  show "m_handles (q_mount q) fh = Some h \<Longrightarrow> h_snapshot h = Some a \<Longrightarrow> q_via q fh \<noteq> None"
    "m_handles (q_mount q) fh = Some h \<Longrightarrow> h_snapshot h = Some a \<Longrightarrow> \<exists>sn. q_snaps q a = Some sn \<and> sn_path sn = h_path h"
    "m_handles (q_mount q) fh \<noteq> None \<or> q_via q fh \<noteq> None \<Longrightarrow> fh \<le> m_last_handle (q_mount q)"
    using parts(5) by (auto simp: handles_ok_def)
qed

text \<open>
  The lemma for every step that leaves the snapshots and the handles: nodes may only be added
  beyond the last, dropped, or changed in their lookups.
\<close>

lemma versions_ok_table:
  assumes ok: "versions_ok q"
    and nodes: "\<And>j n'. m_paths m' j = Some n' \<Longrightarrow> (m_next_inode (q_mount q) < j \<and> n_opened n' = None) \<or>
        (\<exists>n. m_paths (q_mount q) j = Some n \<and> n_opened n' = n_opened n \<and> n_snapshot n' = n_snapshot n \<and>
           n_generation n' = n_generation n \<and> n_path n' = n_path n)"
    and nxt: "m_next_inode (q_mount q) \<le> m_next_inode m'"
    and hs: "m_handles m' = m_handles (q_mount q)" "m_last_handle m' = m_last_handle (q_mount q)"
    and r: "r = q_requests q i \<or> (\<forall>a p. \<not> request_holds r a \<and> \<not> of_snapshot r p a)"
       "\<And>ino p. of_inode r ino p \<Longrightarrow> ino \<le> m_next_inode (q_mount q) \<and>
          (\<forall>n. m_paths (q_mount q) ino = Some n \<longrightarrow> n_path n = p)"
    and q': "q_requests q' = (q_requests q)(i := r)" "q_mount q' = m'" "q_snaps q' = q_snaps q" "q_alive q' = q_alive q"
       "q_via q' = q_via q"
  shows "versions_ok q'"
proof -
  have so: "snapshot_of m' = snapshot_of (q_mount q)" by (simp add: snapshot_of_def hs fun_eq_iff)
  have sv: "inode_serves q ino a" if "inode_serves q' ino a" for ino a
  proof (cases "r = q_requests q i")
    case True
    with that show ?thesis unfolding inode_serves_def q' so by (auto split: if_splits)
  next
    case False
    with r(1) have "\<not> request_holds r a" by blast
    with that show ?thesis unfolding inode_serves_def q' so by (auto split: if_splits)
  qed
  have old: "n_opened n' = n_opened n \<and> n_snapshot n' = n_snapshot n \<and> n_path n' = n_path n"
    if "m_paths m' j = Some n'" "m_paths (q_mount q) j = Some n" "j \<le> m_next_inode (q_mount q)" for j n n'
    using nodes [OF that(1)] that by auto
  have was: "\<exists>n. m_paths (q_mount q) j = Some n" if "m_paths m' j = Some n'" "j \<le> m_next_inode (q_mount q)" for j n'
    using nodes [OF that(1)] that by auto
  have "held_alive q'"
    using versions_ok_D(1-3) [OF ok] r(1) unfolding held_alive_def q' so by (simp, metis)
  moreover have "nodes_fixed q'"
    unfolding nodes_fixed_def q'
  proof (intro allI impI)
    fix j n' assume "m_paths m' j = Some n'"
    from nodes [OF this] show "node_fixed (q_snaps q) n'"
      using versions_ok_D(4) [OF ok, of j] by (auto simp: node_fixed_def)
  qed
  moreover have "served q'"
    unfolding served_def
  proof (intro allI impI conjI)
    fix ino a assume "inode_serves q' ino a"
    note s = sv [OF this]
    from versions_ok_D(5) [OF ok s] nxt show "ino \<le> m_next_inode (q_mount q')" by (simp add: q')
    fix n' assume n': "m_paths (q_mount q') ino = Some n'"
    then obtain n where "m_paths (q_mount q) ino = Some n"
      using was versions_ok_D(5) [OF ok s] by (auto simp: q')
    with old [of ino n' n] n' versions_ok_D(5,6) [OF ok s] show "n_opened n' \<noteq> None" "n_snapshot n' = Some a"
      by (auto simp: q')
  qed
  moreover have "opens_ok q'"
  proof -
    have "ino \<le> m_next_inode m' \<and> (\<forall>n'. m_paths m' ino = Some n' \<longrightarrow> n_path n' = p)"
      if "of_inode (q_requests q' k) ino p" for k ino p
    proof -
      have here: "ino \<le> m_next_inode (q_mount q) \<and> (\<forall>n. m_paths (q_mount q) ino = Some n \<longrightarrow> n_path n = p)"
        using that r(2) versions_ok_D(7,8) [OF ok, of k ino p] by (auto simp: q' split: if_splits)
      then show ?thesis using nxt was old by (metis order_trans)
    qed
    moreover have "\<exists>sn. q_snaps q a = Some sn \<and> sn_path sn = p" if "of_snapshot (q_requests q' k) p a" for k p a
      using that r(1) versions_ok_D(9) [OF ok, of k p a] by (auto simp: q' split: if_splits)
    ultimately show ?thesis unfolding opens_ok_def q' by blast
  qed
  moreover have "handles_ok q'"
    using versions_ok_D(10-12) [OF ok] by (auto simp: handles_ok_def q' hs)
  ultimately show ?thesis by (simp add: versions_ok_def)
qed

lemma versions_ok_request:
  assumes ok: "versions_ok q" and r: "\<And>a p. \<not> request_holds r a \<and> \<not> of_snapshot r p a" "\<And>ino p. \<not> of_inode r ino p"
    and q': "q_requests q' = (q_requests q)(i := r)" "q_mount q' = q_mount q" "q_snaps q' = q_snaps q" "q_alive q' = q_alive q"
       "q_via q' = q_via q"
  shows "versions_ok q'"
  by (rule versions_ok_table [OF ok _ _ _ _ _ _ q']) (use r in auto)

text \<open>The steps that move a snapshot, a version or a handle.\<close>

lemma version_for_path:
  assumes "version_for alive ino a sn m = (m', r)" "m_paths m' j = Some n'"
  shows "\<exists>n. m_paths m j = Some n \<and> n_path n' = n_path n"
  using assms by (cases rule: version_for_cases) (auto simp: fix_version_def split: if_splits)

lemma versions_snapshot_taken:
  assumes ok: "versions_ok q" and r: "q_requests q i = Opening ino p"
    and a: "q_snaps q a = None \<or> q_alive q a \<and> q_snaps q a = Some sn" and p: "sn_path sn = p"
  shows "versions_ok (at_request i (Taken ino p a) (q\<lparr>q_snaps := (q_snaps q)(a \<mapsto> sn), q_alive := (q_alive q)(a := True)\<rparr>))"
    (is "versions_ok ?q")
proof -
  have keep: "((q_snaps q)(a \<mapsto> sn)) b = Some s" if "q_snaps q b = Some s" for b s
    using that a by auto
  have sv: "inode_serves q j b" if "inode_serves ?q j b" for j b
    using that by (auto simp: inode_serves_def at_request_def split: if_splits)
  have fixed: "node_fixed ((q_snaps q)(a \<mapsto> sn)) n" if "node_fixed (q_snaps q) n" for n
    using that keep unfolding node_fixed_def by metis
  have "held_alive ?q"
    using versions_ok_D(1-3) [OF ok] by (auto simp: held_alive_def at_request_def)
  moreover have "nodes_fixed ?q"
    using versions_ok_D(4) [OF ok] fixed by (simp add: nodes_fixed_def at_request_def)
  moreover have "served ?q"
    using versions_ok_D(5,6) [OF ok sv] unfolding served_def by (simp add: at_request_def)
  moreover have "opens_ok ?q"
  proof -
    have "of_inode (q_requests ?q k) j p' \<Longrightarrow> of_inode (q_requests q (if k = i then i else k)) j p'" for k j p'
      by (simp add: at_request_def r split: if_splits)
    then have "of_inode (q_requests ?q k) j p' \<Longrightarrow> \<exists>k'. of_inode (q_requests q k') j p'" for k j p' by blast
    then have one: "of_inode (q_requests ?q k) j p' \<Longrightarrow> j \<le> m_next_inode (q_mount q) \<and>
        (\<forall>n. m_paths (q_mount q) j = Some n \<longrightarrow> n_path n = p')" for k j p'
      using versions_ok_D(7,8) [OF ok] by blast
    have "\<exists>s. ((q_snaps q)(a \<mapsto> sn)) b = Some s \<and> sn_path s = p'" if snap: "of_snapshot (q_requests ?q k) p' b" for k p' b
    proof (cases "k = i")
      case True
      with snap p show ?thesis by (simp add: at_request_def)
    next
      case False
      then obtain s where "q_snaps q b = Some s" "sn_path s = p'"
        using snap versions_ok_D(9) [OF ok, of k p' b] False by (auto simp: at_request_def)
      with keep [of b s] show ?thesis by blast
    qed
    with one show ?thesis by (simp add: opens_ok_def at_request_def)
  qed
  moreover have "handles_ok ?q"
  proof -
    have "\<exists>s. ((q_snaps q)(a \<mapsto> sn)) b = Some s \<and> sn_path s = h_path h"
      if h: "m_handles (q_mount q) fh = Some h" "h_snapshot h = Some b" for fh h b
      using versions_ok_D(11) [OF ok h] keep [of b] by blast
    then show ?thesis
      using versions_ok_D(10,12) [OF ok] by (auto simp: handles_ok_def at_request_def simp del: fun_upd_apply)
  qed
  ultimately show ?thesis by (simp add: versions_ok_def)
qed

lemma versions_version_given:
  assumes ok: "versions_ok q" and r: "q_requests q i = Taken ino p a" and sn: "q_snaps q a = Some sn"
    and v: "version_for (q_alive q) ino a sn (q_mount q) = (m', res)"
    and r': "r' = (case res of Some b \<Rightarrow> Versioned ino p b | None \<Rightarrow> Answered)"
  shows "versions_ok (at_request i r' (q\<lparr>q_mount := m'\<rparr>))" (is "versions_ok ?q")
proof -
  let ?m = "q_mount q"
  note F = version_for_fields [OF v]
  have alive: "q_alive q a" using versions_ok_D(1) [OF ok, of i a] r by simp
  have path: "sn_path sn = p" using versions_ok_D(9) [OF ok, of i p a] r sn by simp
  have ino: "ino \<le> m_next_inode ?m" "m_paths ?m ino = Some n \<Longrightarrow> n_path n = p" for n
    using versions_ok_D(7,8) [OF ok, of i ino p] r by auto
  have fixed: "node_fixed (q_snaps q) n" if "m_paths ?m ino = Some n" for n
    using versions_ok_D(4) [OF ok that] .
  \<comment> \<open>Who served the inode before still does so with the snapshot of its node.\<close>
  have new: "(\<forall>n'. m_paths m' ino = Some n' \<longrightarrow> node_fixed (q_snaps q) n' \<and> n_path n' = p \<and>
        (\<forall>b. inode_serves q ino b \<longrightarrow> n_opened n' \<noteq> None \<and> n_snapshot n' = Some b) \<and>
        (\<forall>b. res = Some b \<longrightarrow> n_opened n' \<noteq> None \<and> n_snapshot n' = Some b)) \<and>
      (\<forall>b. res = Some b \<longrightarrow> q_alive q b \<and> (\<exists>s. q_snaps q b = Some s \<and> sn_path s = p))"
    using v
  proof (cases rule: version_for_cases)
    case Absent
    with alive sn path show ?thesis by simp
  next
    case (First n)
    have "\<not> inode_serves q ino b" for b using versions_ok_D(6) [OF ok _ First(1)] First(2) by blast
    with First alive sn path ino(2) [OF First(1)] show ?thesis by (simp add: fix_version_def node_fixed_def)
  next
    case (Held n h)
    then show ?thesis
      using fixed [OF Held(1)] ino(2) [OF Held(1)] versions_ok_D(6) [OF ok _ Held(1)] by (auto simp: node_fixed_def)
  next
    case (Again n)
    have "\<not> inode_serves q ino b" for b
    proof
      assume s: "inode_serves q ino b"
      then have "n_snapshot n = Some b" using versions_ok_D(6) [OF ok _ Again(1)] by blast
      moreover have "q_alive q b"
        using s versions_ok_D(1,2) [OF ok] unfolding inode_serves_def by (metis request_holds.simps(2))
      ultimately show False using Again(4) by blast
    qed
    with Again alive sn path ino(2) [OF Again(1)] show ?thesis by (simp add: node_fixed_def)
  next
    case (Gone n)
    with fixed [OF Gone(1)] ino(2) [OF Gone(1)] versions_ok_D(6) [OF ok _ Gone(1)] show ?thesis by simp
  qed
  have sv: "inode_serves q j b \<or> j = ino \<and> res = Some b" if "inode_serves ?q j b" for j b
    using that r F(3) by (auto simp: inode_serves_def at_request_def r' split: if_splits option.splits)
  have old: "n_path n' = p' \<and> node_fixed (q_snaps q) n'" if "m_paths m' j = Some n'" "j \<noteq> ino"
      "\<And>n. m_paths ?m j = Some n \<Longrightarrow> n_path n = p'" for j n' p'
    using F(5) [OF that(2)] that versions_ok_D(4) [OF ok, of j n'] by simp
  have "held_alive ?q"
    using versions_ok_D(1-3) [OF ok] new
    by (auto simp: held_alive_def at_request_def F(3) r' split: option.splits)
  moreover have "nodes_fixed ?q"
    unfolding nodes_fixed_def at_request_def using new F(5) versions_ok_D(4) [OF ok] by (simp, metis)
  moreover have "served ?q"
    unfolding served_def
  proof (intro allI impI conjI)
    fix j b assume s: "inode_serves ?q j b"
    show "j \<le> m_next_inode (q_mount ?q)"
      using sv [OF s] versions_ok_D(5) [OF ok] ino(1) by (auto simp: at_request_def F(4))
    fix n' assume n': "m_paths (q_mount ?q) j = Some n'"
    have "n_opened n' \<noteq> None \<and> n_snapshot n' = Some b"
    proof (cases "j = ino")
      case True
      with n' new sv [OF s] show ?thesis by (auto simp: at_request_def)
    next
      case False
      with n' sv [OF s] F(5) [OF False] versions_ok_D(6) [OF ok] show ?thesis by (simp add: at_request_def)
    qed
    then show "n_opened n' \<noteq> None" "n_snapshot n' = Some b" by simp_all
  qed
  moreover have "opens_ok ?q"
  proof -
    have "of_inode (q_requests q k) j p'" if "of_inode (q_requests ?q k) j p'" for k j p'
      using that by (simp add: at_request_def r' split: if_splits option.splits)
    then have one: "j \<le> m_next_inode m' \<and> (\<forall>n'. m_paths m' j = Some n' \<longrightarrow> n_path n' = p')"
      if "of_inode (q_requests ?q k) j p'" for k j p'
      using that versions_ok_D(7,8) [OF ok, of k j p'] version_for_path [OF v, of j] F(4) by fastforce
    have two: "\<exists>s. q_snaps q b = Some s \<and> sn_path s = p'" if "of_snapshot (q_requests ?q k) p' b" for k p' b
      using that new versions_ok_D(9) [OF ok, of k p' b]
      by (cases "k = i") (auto simp: at_request_def r' split: option.splits)
    show ?thesis using one two by (simp add: opens_ok_def at_request_def)
  qed
  moreover have "handles_ok ?q"
    using versions_ok_D(10-12) [OF ok] by (auto simp: handles_ok_def at_request_def F(1,2))
  ultimately show ?thesis by (simp add: versions_ok_def)
qed

lemma versions_retained:
  assumes ok: "versions_ok q" and m': "retain h (q_mount q) = (m', fh)"
    and r: "(\<exists>ino a. q_requests q i = Versioned ino (h_path h) a \<and> h_snapshot h = Some a \<and> via = (q_via q)(fh \<mapsto> ino)) \<or>
      h_snapshot h = None \<and> via = q_via q"
  shows "versions_ok (at_request i (Retained fh) (q\<lparr>q_mount := m', q_via := via\<rparr>))" (is "versions_ok ?q")
proof -
  note F = retain_fields [OF m']
  have fresh: "q_via q fh = None" using versions_ok_D(12) [OF ok, of fh] F(1) by (metis Suc_n_not_le_n)
  have snap: "q_alive q a \<and> (\<exists>sn. q_snaps q a = Some sn \<and> sn_path sn = h_path h)" if "h_snapshot h = Some a" for a
    using r that versions_ok_D(1,9) [OF ok, of i] by auto
  have sv: "inode_serves q j b" if "inode_serves ?q j b" for j b
    using that r fresh unfolding inode_serves_def at_request_def by (auto simp: F(4) split: if_splits)
  have "held_alive ?q"
    using versions_ok_D(1-3) [OF ok] snap by (auto simp: held_alive_def at_request_def F(4))
  moreover have "nodes_fixed ?q"
    using versions_ok_D(4) [OF ok] by (simp add: nodes_fixed_def at_request_def F(5))
  moreover have "served ?q"
    using versions_ok_D(5,6) [OF ok sv] unfolding served_def by (simp add: at_request_def F(5,6))
  moreover have "opens_ok ?q"
    using versions_ok_D(7-9) [OF ok] unfolding opens_ok_def by (simp add: at_request_def F(5,6))
  moreover have "handles_ok ?q"
  proof -
    have "q_via q g \<noteq> None \<longrightarrow> via g \<noteq> None" for g using r by auto
    moreover have "h_snapshot h = Some a \<longrightarrow> via fh \<noteq> None" for a using r by auto
    moreover have "via g \<noteq> None \<longrightarrow> g = fh \<or> q_via q g \<noteq> None" for g using r by (auto split: if_splits)
    ultimately show ?thesis
      using versions_ok_D(10-12) [OF ok] snap F(1) unfolding handles_ok_def at_request_def
      by (simp add: F(2,3)) (metis le_SucI)
  qed
  ultimately show ?thesis by (simp add: versions_ok_def)
qed

lemma versions_dropped:
  assumes ok: "versions_ok q"
    and q': "q_mount q' = drop_handle fh (q_mount q)" "q_snaps q' = q_snaps q" "q_alive q' = q_alive q" "q_via q' = q_via q"
    and r: "\<And>j. q_requests q' j = q_requests q j \<or> q_requests q' j = Answered"
  shows "versions_ok q'"
proof -
  have req: "request_holds (q_requests q' j) a \<Longrightarrow> request_holds (q_requests q j) a"
    "of_inode (q_requests q' j) ino p \<Longrightarrow> of_inode (q_requests q j) ino p"
    "of_snapshot (q_requests q' j) p a \<Longrightarrow> of_snapshot (q_requests q j) p a"
    "q_requests q' j = Versioned ino p a \<Longrightarrow> q_requests q j = Versioned ino p a" for j a ino p
    using r [of j] by auto
  have sv: "inode_serves q j b" if "inode_serves q' j b" for j b
    using that req(4) unfolding inode_serves_def q' snapshot_of_drop by (metis option.distinct(1))
  have "held_alive q'"
    using versions_ok_D(1-3) [OF ok] req(1) by (simp add: held_alive_def q' snapshot_of_drop) blast
  moreover have "nodes_fixed q'"
    using versions_ok_D(4) [OF ok] by (simp add: nodes_fixed_def q')
  moreover have "served q'"
    using versions_ok_D(5,6) [OF ok sv] unfolding served_def by (simp add: q')
  moreover have "opens_ok q'"
    using versions_ok_D(7-9) [OF ok] req(2,3) unfolding opens_ok_def by (simp add: q') blast
  moreover have "handles_ok q'"
    using versions_ok_D(10-12) [OF ok] by (auto simp: handles_ok_def q')
  ultimately show ?thesis by (simp add: versions_ok_def)
qed

lemma versions_died:
  assumes ok: "versions_ok q" and free: "\<And>i. \<not> request_holds (q_requests q i) a" "\<not> handle_holds (q_mount q) a"
  shows "versions_ok (q\<lparr>q_alive := (q_alive q)(a := False)\<rparr>)"
  using ok free
  by (auto simp: versions_ok_def held_alive_def nodes_fixed_def served_def inode_serves_def opens_ok_def handles_ok_def handle_holds_def)

lemma versions_step:
  assumes "mount_step q q'" and ok: "versions_ok q" and names: "mount_names_ok q"
  shows "versions_ok q'"
proof -
  have known: "ino \<le> m_next_inode (q_mount q) \<and> (\<forall>n. m_paths (q_mount q) ino = Some n \<longrightarrow> n_path n = p)"
    if "path_of_inode (q_mount q) ino = Some p" for ino p
    using that names table_ok_D(5) [of "q_mount q"] by (auto simp: path_of_inode_def mount_names_ok_def)
  show ?thesis
    using assms(1)
  proof cases
    case (Inode_given i p info gen m' ino)
    note F = inode_for_fields [OF Inode_given(3)]
    have "m_next_inode (q_mount q) < j \<and> n_opened n' = None \<or>
        (\<exists>n. m_paths (q_mount q) j = Some n \<and> n_opened n' = n_opened n \<and> n_snapshot n' = n_snapshot n \<and>
           n_generation n' = n_generation n \<and> n_path n' = n_path n)" if "m_paths m' j = Some n'" for j n'
      using F(5) [OF that] by (auto simp: new_node_def)
    then show ?thesis
      by (rule versions_ok_table [OF ok, where m' = m' and i = i and r = "Named ino"])
        (simp_all add: F(1-4) Inode_given(1) at_request_def)
  next
    case (Entry_failed i ino)
    show ?thesis
      by (rule versions_ok_table [OF ok, where m' = "forget_inode ino 1 (q_mount q)" and i = i and r = Answered])
        (use forget_inode_fields [of ino 1 "q_mount q"] in \<open>auto simp: Entry_failed(1) at_request_def\<close>)
  next
    case (Forgotten k ino)
    show ?thesis
      by (rule versions_ok_table [OF ok, where m' = "forget_inode ino k (q_mount q)" and i = 0 and r = "q_requests q 0"])
        (use forget_inode_fields [of ino k "q_mount q"] versions_ok_D(7,8) [OF ok, of 0] in \<open>auto simp: Forgotten(1)\<close>)
  next
    case (Snapshot_taken i ino p a sn)
    with versions_snapshot_taken [OF ok] show ?thesis by simp
  next
    case (Version_given i ino p a sn m' b)
    with versions_version_given [OF ok Version_given(2-4) refl] show ?thesis by simp
  next
    case (Version_gone i ino p a sn m')
    with versions_version_given [OF ok Version_gone(2-4) refl] show ?thesis by simp
  next
    case (File_retained i ino p a m' fh)
    show ?thesis unfolding File_retained(1)
      by (rule versions_retained [OF ok File_retained(3)]) (use File_retained(2) in simp)
  next
    case (Directory_retained i ino p ns m' fh)
    have same: "q\<lparr>q_mount := m', q_via := q_via q\<rparr> = q\<lparr>q_mount := m'\<rparr>" by simp
    have "versions_ok (at_request i (Retained fh) (q\<lparr>q_mount := m', q_via := q_via q\<rparr>))"
      by (rule versions_retained [OF ok Directory_retained(5)]) simp
    then show ?thesis unfolding Directory_retained(1) same .
  next
    case (Open_failed i fh)
    show ?thesis
      by (rule versions_dropped [OF ok, where fh = fh]) (simp_all add: Open_failed(1) at_request_def)
  next
    case (Released fh)
    show ?thesis
      by (rule versions_dropped [OF ok, where fh = fh]) (simp_all add: Released(1))
  next
    case (Snapshot_dies a)
    with versions_died [OF ok] show ?thesis by simp
  next
    case (Open_begins i ino p)
    show ?thesis
      by (rule versions_ok_table [OF ok, where m' = "q_mount q" and i = i and r = "Opening ino p"])
        (use known [OF Open_begins(4)] in \<open>simp_all add: Open_begins(1) at_request_def\<close>)
  next
    case (Entry_begins i parent p n info gen)
    show ?thesis
      by (rule versions_ok_request [OF ok, where i = i and r = "Naming (p @ [n]) info gen"])
        (simp_all add: Entry_begins(1) at_request_def)
  next
    case (Entry_replied i ino)
    show ?thesis
      by (rule versions_ok_request [OF ok, where i = i and r = Answered]) (simp_all add: Entry_replied(1) at_request_def)
  next
    case (Open_refused i ino p)
    show ?thesis
      by (rule versions_ok_request [OF ok, where i = i and r = Answered]) (simp_all add: Open_refused(1) at_request_def)
  next
    case (Open_replied i fh)
    show ?thesis
      by (rule versions_ok_request [OF ok, where i = i and r = Answered]) (simp_all add: Open_replied(1) at_request_def)
  qed
qed

end
