(* ===== verification/Mount_Notify.thy ===== *)
theory Mount_Notify
  imports File_Snapshots "HOL-Library.Multiset"
begin

text \<open>
  How the mount announces the changes of the tree (\<^verbatim>\<open>src/virtualfilesystem-linux.cpp\<close>).  A change
  moves the generation of its file on and is queued under one mutex; a single pass of the notifier
  takes what is queued, announces it path by path and lets the opens go that were held until their
  generation was announced.  A pass is cut wherever it takes or leaves the mutex, and changes, opens
  and lookups interleave with it.
\<close>

section \<open>State\<close>

datatype change_kind = Modified | Added

type_synonym changes = "string list \<Rightarrow> change_kind option"

record held_open =
  o_path :: "string list"
  o_generation :: nat
  o_reply :: nat

record notifier =
  nt_snapshots :: snapshots
  nt_pending :: changes
  nt_everything_dirty :: bool
  nt_stopping :: bool
  nt_notifying :: bool
  nt_announced :: "string list \<Rightarrow> nat option"
  nt_announced_everything :: nat
  nt_held :: "held_open list"
  nt_known :: "string list \<Rightarrow> bool option"

definition notifier_new :: notifier where
  "notifier_new = \<lparr>nt_snapshots = snapshots_new, nt_pending = (\<lambda>_. None), nt_everything_dirty = False,
     nt_stopping = False, nt_notifying = False, nt_announced = (\<lambda>_. None), nt_announced_everything = 0,
     nt_held = [], nt_known = (\<lambda>_. None)\<rparr>"

section \<open>Queueing\<close>

text \<open>Folding one change into those queued: an addition dominates.\<close>

definition merge_change :: "string list \<times> change_kind \<Rightarrow> changes \<Rightarrow> changes" where
  "merge_change c into =
     (case into (fst c) of
        None \<Rightarrow> into(fst c \<mapsto> snd c)
      | Some k \<Rightarrow> if snd c = Added then into(fst c \<mapsto> Added) else into)"

definition merge_changes :: "(string list \<times> change_kind) list \<Rightarrow> changes \<Rightarrow> changes" where
  "merge_changes cs into = fold merge_change cs into"

text \<open>An entry whose parent's children changed in the same diff was added or removed.\<close>

definition changes_of :: "tree_diff \<Rightarrow> (string list \<times> change_kind) list" where
  "changes_of d = map (\<lambda>p. (p, if butlast p \<in> set (child_lists_changed d) then Added else Modified)) (entries_changed d)"

text \<open>\<open>spawned\<close> says whether the pass could be started.\<close>

definition start_notifying :: "bool \<Rightarrow> notifier \<Rightarrow> notifier" where
  "start_notifying spawned n =
     (if nt_notifying n \<or> nt_stopping n then n else n\<lparr>nt_notifying := spawned\<rparr>)"

definition on_tree_changed :: "bool \<Rightarrow> tree_diff \<Rightarrow> notifier \<Rightarrow> notifier" where
  "on_tree_changed spawned d n =
     (let n' = n\<lparr>nt_snapshots := changed d (nt_snapshots n)\<rparr>
      in if nt_stopping n then n'
         else start_notifying spawned
           (if everything_dirty d then n'\<lparr>nt_everything_dirty := True\<rparr>
            else n'\<lparr>nt_pending := merge_changes (changes_of d) (nt_pending n)\<rparr>))"

definition remember :: "string list \<Rightarrow> bool \<Rightarrow> notifier \<Rightarrow> notifier" where
  "remember p dir n = n\<lparr>nt_known := (nt_known n)(p \<mapsto> dir)\<rparr>"

section \<open>Opens held back\<close>

definition announced :: "notifier \<Rightarrow> string list \<Rightarrow> nat" where
  "announced n p = max (nt_announced_everything n) (case nt_announced n p of None \<Rightarrow> 0 | Some g \<Rightarrow> g)"

text \<open>The result says whether the open is answered now.\<close>

definition reply_when_announced :: "bool \<Rightarrow> held_open \<Rightarrow> notifier \<Rightarrow> notifier \<times> bool" where
  "reply_when_announced spawned h n =
     (if \<not> nt_stopping n \<and> announced n (o_path h) < o_generation h
      then (start_notifying spawned (n\<lparr>nt_held := nt_held n @ [h]\<rparr>), False)
      else (n, True))"

definition is_announced :: "notifier \<Rightarrow> held_open \<Rightarrow> bool" where
  "is_announced n h \<longleftrightarrow> o_generation h \<le> announced n (o_path h)"

definition note_announced :: "string list option \<Rightarrow> nat \<Rightarrow> notifier \<Rightarrow> notifier" where
  "note_announced path g n =
     (case path of
        Some p \<Rightarrow> n\<lparr>nt_announced := (nt_announced n)(p \<mapsto> max (case nt_announced n p of None \<Rightarrow> 0 | Some a \<Rightarrow> a) g)\<rparr>
      | None \<Rightarrow> n\<lparr>nt_announced_everything := max (nt_announced_everything n) g\<rparr>)"

definition mark_announced :: "string list option \<Rightarrow> nat \<Rightarrow> notifier \<Rightarrow> notifier \<times> held_open list" where
  "mark_announced path g n =
     (let n' = note_announced path g n
      in (n'\<lparr>nt_held := filter (\<lambda>h. \<not> is_announced n' h) (nt_held n)\<rparr>, filter (is_announced n') (nt_held n)))"

section \<open>Announcing\<close>

text \<open>The operation through the mount that makes the kernel raise the event, if there is one.\<close>

datatype announcement =
    Quiet
  | Make_directory "string list"
  | Make_node "string list"
  | Remove_directory "string list"
  | Remove_file "string list"
  | Write_byte "string list"

definition announce_removal :: "(string list \<Rightarrow> entry_info expected) \<Rightarrow> string list \<Rightarrow> notifier \<Rightarrow> notifier \<times> announcement" where
  "announce_removal status p n =
     (n\<lparr>nt_known := (nt_known n)(p := None)\<rparr>,
      case nt_known n p of
        None \<Rightarrow> Quiet
      | Some dir \<Rightarrow>
          if \<not> has_value (status (butlast p)) then Quiet
          else if dir then Remove_directory p else Remove_file p)"

definition announce_creation :: "string list \<Rightarrow> bool \<Rightarrow> notifier \<Rightarrow> notifier \<times> announcement" where
  "announce_creation p dir n = (remember p dir n, if dir then Make_directory p else Make_node p)"

definition is_directory :: "entry_info \<Rightarrow> bool" where
  "is_directory i = (case i of Directory_entry d \<Rightarrow> True | File_entry f \<Rightarrow> False)"

definition announce :: "(string list \<Rightarrow> entry_info expected) \<Rightarrow> string list \<Rightarrow> change_kind \<Rightarrow> notifier \<Rightarrow> notifier \<times> announcement" where
  "announce status p k n =
     (case status p of
        Inl e \<Rightarrow> announce_removal status p n
      | Inr i \<Rightarrow>
          if k = Added then announce_creation p (is_directory i) n
          else if \<not> is_directory i then (n, Write_byte p)
          else (n, Quiet))"

section \<open>The machine\<close>

text \<open>
  Where the pass is: not running, about to look at the queue, with a batch taken - what is left of
  it, each path with its kind and the generation its announcement covers, what an announcement of
  everything covers, and the replies it owes before it goes on.  The pass that ends owes its last
  replies after it has let the next one start (\<open>w_loose\<close>), as does the destructor.
\<close>

datatype pass =
    Resting
  | Guard
  | Batch "(string list \<times> change_kind \<times> nat) list" "nat option" "held_open list"

record watch =
  w_notifier :: notifier
  w_pass :: pass
  w_loose :: "held_open list"
  w_opens :: "held_open list"
  w_replied :: "held_open list"
  w_sent :: "announcement list"
  w_lost :: bool

text \<open>
  \<open>w_opens\<close>, \<open>w_replied\<close> and \<open>w_sent\<close> record what happened; \<open>w_lost\<close>, that a pass was cut short or
  could not be started for want of memory.
\<close>

definition rouse :: "notifier \<Rightarrow> watch \<Rightarrow> watch" where
  "rouse n w = w\<lparr>w_notifier := n, w_pass := (if nt_notifying n \<and> w_pass w = Resting then Guard else w_pass w)\<rparr>"

definition batch_of :: "notifier \<Rightarrow> (string list \<times> change_kind) list \<Rightarrow> (string list \<times> change_kind \<times> nat) list" where
  "batch_of n cs = map (\<lambda>c. (fst c, snd c, generation (nt_snapshots n) (fst c))) cs"

text \<open>The batch that a look at the queue takes, whose paths come in any order \<open>cs\<close>.\<close>

definition batch_lists :: "notifier \<Rightarrow> (string list \<times> change_kind) list \<Rightarrow> bool" where
  "batch_lists n cs \<longleftrightarrow> distinct (map fst cs) \<and>
     (if nt_everything_dirty n then \<forall>p k. (p, k) \<in> set cs \<longleftrightarrow> nt_known n p \<noteq> None \<and> k = Modified
      else \<forall>p k. (p, k) \<in> set cs \<longleftrightarrow> nt_pending n p = Some k)"

definition take_batch :: "(string list \<times> change_kind) list \<Rightarrow> notifier \<Rightarrow> notifier \<times> pass" where
  "take_batch cs n =
     (n\<lparr>nt_everything_dirty := False, nt_pending := (\<lambda>_. None)\<rparr>,
      Batch (batch_of n cs) (if nt_everything_dirty n then Some (latest (nt_snapshots n)) else None) [])"

definition queued :: "notifier \<Rightarrow> bool" where
  "queued n \<longleftrightarrow> nt_everything_dirty n \<or> nt_pending n \<noteq> (\<lambda>_. None)"

text \<open>The end of a pass: the opens still held, whatever they wait for, are let go.\<close>

definition stand_down :: "watch \<Rightarrow> watch" where
  "stand_down w = w\<lparr>w_notifier := (w_notifier w)\<lparr>nt_held := [], nt_notifying := False\<rparr>, w_pass := Resting,
     w_loose := w_loose w @ nt_held (w_notifier w)\<rparr>"

text \<open>The moves of the pass itself, and of the replies it owes.\<close>

inductive pass_step :: "watch \<Rightarrow> watch \<Rightarrow> bool" where
  Take_batch: "w_pass w = Guard \<Longrightarrow> \<not> nt_stopping (w_notifier w) \<Longrightarrow> queued (w_notifier w) \<Longrightarrow>
    batch_lists (w_notifier w) cs \<Longrightarrow> take_batch cs (w_notifier w) = (n', b) \<Longrightarrow>
    pass_step w (w\<lparr>w_notifier := n', w_pass := b\<rparr>)"
| Stand_down: "w_pass w = Guard \<Longrightarrow> nt_stopping (w_notifier w) \<or> \<not> queued (w_notifier w) \<Longrightarrow>
    pass_step w (stand_down w)"
| Announce: "w_pass w = Batch ((p, k, g) # bs) ev [] \<Longrightarrow> announce status p k (w_notifier w) = (n', a) \<Longrightarrow>
    mark_announced (Some p) g n' = (n'', ready) \<Longrightarrow>
    pass_step w (w\<lparr>w_notifier := n'', w_pass := Batch bs ev ready, w_sent := a # w_sent w\<rparr>)"
| Announce_everything: "w_pass w = Batch [] (Some e) [] \<Longrightarrow> mark_announced None e (w_notifier w) = (n', ready) \<Longrightarrow>
    pass_step w (w\<lparr>w_notifier := n', w_pass := Batch [] None ready\<rparr>)"
| Batch_done: "w_pass w = Batch [] None [] \<Longrightarrow> pass_step w (w\<lparr>w_pass := Guard\<rparr>)"
| Reply: "w_pass w = Batch bs ev (h # ready) \<Longrightarrow>
    pass_step w (w\<lparr>w_pass := Batch bs ev ready, w_replied := h # w_replied w\<rparr>)"
| Reply_loose: "w_loose w = h # hs \<Longrightarrow> pass_step w (w\<lparr>w_loose := hs, w_replied := h # w_replied w\<rparr>)"

text \<open>
  An open comes with the generation of its snapshot, which is one that the file has had
  (\<open>generations_bound_snapshots\<close>); its mark is new.
\<close>

inductive watch_step :: "watch \<Rightarrow> watch \<Rightarrow> bool" where
  Pass: "pass_step w w' \<Longrightarrow> watch_step w w'"
| Change: "n' = on_tree_changed spawned d (w_notifier w) \<Longrightarrow> lost = (\<not> nt_stopping (w_notifier w) \<and> \<not> nt_notifying n') \<Longrightarrow>
    watch_step w (rouse n' (w\<lparr>w_lost := (w_lost w \<or> lost)\<rparr>))"
| Open: "o_generation h \<le> generation (nt_snapshots (w_notifier w)) (o_path h) \<Longrightarrow>
    reply_when_announced spawned h (w_notifier w) = (n', now) \<Longrightarrow> lost = (\<not> now \<and> \<not> nt_notifying n') \<Longrightarrow>
    watch_step w ((rouse n' (w\<lparr>w_lost := (w_lost w \<or> lost)\<rparr>))\<lparr>w_opens := h # w_opens w,
      w_replied := (if now then h # w_replied w else w_replied w)\<rparr>)"
| Remember: "watch_step w (w\<lparr>w_notifier := remember p dir (w_notifier w)\<rparr>)"
| Cut_short: "w_pass w = Batch bs ev [] \<Longrightarrow> watch_step w ((stand_down w)\<lparr>w_lost := True\<rparr>)"
| Stop: "watch_step w (w\<lparr>w_notifier := (w_notifier w)\<lparr>nt_stopping := True\<rparr>\<rparr>)"
| Destroy: "nt_stopping (w_notifier w) \<Longrightarrow> w_pass w = Resting \<Longrightarrow>
    watch_step w (w\<lparr>w_notifier := (w_notifier w)\<lparr>nt_held := []\<rparr>, w_loose := w_loose w @ nt_held (w_notifier w)\<rparr>)"

definition watch_init :: "watch \<Rightarrow> bool" where
  "watch_init w \<longleftrightarrow> w_notifier w = notifier_new \<and> w_pass w = Resting \<and> w_loose w = [] \<and> w_opens w = [] \<and>
     w_replied w = [] \<and> w_sent w = [] \<and> \<not> w_lost w"

section \<open>What the operations do\<close>

lemma announce_known:
  assumes "announce status p k n = (n', a)"
  shows "n' = n\<lparr>nt_known := nt_known n'\<rparr>" "finite (dom (nt_known n)) \<Longrightarrow> finite (dom (nt_known n'))"
  using assms
  by (auto simp: announce_def announce_removal_def announce_creation_def remember_def split: sum.splits if_splits)

lemma announced_simps [simp]:
  "announced (n\<lparr>nt_known := K\<rparr>) = announced n" "announced (n\<lparr>nt_held := H\<rparr>) = announced n"
  "announced (n\<lparr>nt_snapshots := S\<rparr>) = announced n" "announced (n\<lparr>nt_notifying := b\<rparr>) = announced n"
  "announced (n\<lparr>nt_pending := P\<rparr>) = announced n" "announced (n\<lparr>nt_everything_dirty := b\<rparr>) = announced n"
  "announced (n\<lparr>nt_stopping := b\<rparr>) = announced n"
  by (simp_all add: announced_def fun_eq_iff)

lemma announced_note:
  "announced (note_announced (Some q) g n) p = (if p = q then max (announced n q) g else announced n p)"
  "announced (note_announced None g n) p = max (announced n p) g"
  by (auto simp: announced_def note_announced_def split: option.splits)

lemma announced_note_grows: "announced n p \<le> announced (note_announced path g n) p"
  by (cases path) (simp_all add: announced_note)

lemma note_announced_fields [simp]:
  "nt_snapshots (note_announced path g n) = nt_snapshots n" "nt_pending (note_announced path g n) = nt_pending n"
  "nt_everything_dirty (note_announced path g n) = nt_everything_dirty n" "nt_stopping (note_announced path g n) = nt_stopping n"
  "nt_notifying (note_announced path g n) = nt_notifying n" "nt_held (note_announced path g n) = nt_held n"
  "nt_known (note_announced path g n) = nt_known n"
  by (simp_all add: note_announced_def split: option.splits)

lemma start_notifying_cases:
  "start_notifying spawned n = n\<lparr>nt_notifying := nt_notifying n \<or> \<not> nt_stopping n \<and> spawned\<rparr>"
  by (auto simp: start_notifying_def)

text \<open>Queueing a diff covers every path it names, and loses none queued before.\<close>

lemma merge_changes_dom: "dom (merge_changes cs into) = dom into \<union> fst ` set cs"
proof (induction cs arbitrary: into)
  case (Cons c cs)
  have "dom (merge_change c into) = insert (fst c) (dom into)"
    by (auto simp: merge_change_def split: option.splits)
  with Cons.IH [of "merge_change c into"] show ?case by (simp add: merge_changes_def insert_commute)
qed (simp add: merge_changes_def)

lemma changes_of_paths: "fst ` set (changes_of d) = set (entries_changed d)"
  by (simp add: changes_of_def image_image)

lemma changed_generation_other:
  assumes "\<not> everything_dirty d" "p \<notin> set (entries_changed d)"
  shows "generation (changed d s) p = generation s p"
proof -
  have "p \<notin> set ps \<Longrightarrow> generation (fold changed_path ps s) p = generation s p" for ps s
  proof (induction ps arbitrary: s)
    case (Cons q ps)
    then have "generation (changed_path q s) p = generation s p"
      by (simp add: generation_def changed_path_def)
    with Cons show ?case by simp
  qed simp
  with assms show ?thesis by (simp add: changed_def)
qed

lemma changed_generation_grows:
  assumes "clock_ok s"
  shows "generation s p \<le> generation (changed d s) p"
proof (cases "everything_dirty d \<or> p \<in> set (entries_changed d)")
  case True
  with changed_generation [OF assms True] generation_clock [OF assms, of p] show ?thesis by simp
next
  case False
  with changed_generation_other [of d p s] show ?thesis by simp
qed

section \<open>The invariant\<close>

fun covers :: "pass \<Rightarrow> string list \<Rightarrow> nat \<Rightarrow> bool" where
  "covers (Batch bs ev ready) p g \<longleftrightarrow> (\<exists>k g'. (p, k, g') \<in> set bs \<and> g \<le> g') \<or> (\<exists>e. ev = Some e \<and> g \<le> e)"
| "covers _ p g \<longleftrightarrow> False"

fun replies_owed :: "pass \<Rightarrow> held_open list" where
  "replies_owed (Batch bs ev ready) = ready"
| "replies_owed _ = []"

text \<open>Every generation that a file has reached is announced, queued, or covered by the batch.\<close>

definition covered_ok :: "watch \<Rightarrow> bool" where
  "covered_ok w \<longleftrightarrow> nt_stopping (w_notifier w) \<or> w_lost w \<or>
     (\<forall>p. generation (nt_snapshots (w_notifier w)) p \<le> announced (w_notifier w) p \<or>
        nt_everything_dirty (w_notifier w) \<or> nt_pending (w_notifier w) p \<noteq> None \<or>
        covers (w_pass w) p (generation (nt_snapshots (w_notifier w)) p))"

definition held_ok :: "watch \<Rightarrow> bool" where
  "held_ok w \<longleftrightarrow> (\<forall>h \<in> set (nt_held (w_notifier w)). \<not> is_announced (w_notifier w) h \<and>
     o_generation h \<le> generation (nt_snapshots (w_notifier w)) (o_path h))"

definition let_go :: "watch \<Rightarrow> held_open list" where
  "let_go w = w_replied w @ w_loose w @ replies_owed (w_pass w)"

definition replies_ok :: "watch \<Rightarrow> bool" where
  "replies_ok w \<longleftrightarrow> mset (w_opens w) = mset (let_go w) + mset (nt_held (w_notifier w)) \<and>
     (nt_stopping (w_notifier w) \<or> w_lost w \<or> (\<forall>h \<in> set (let_go w). is_announced (w_notifier w) h))"

definition roused_ok :: "watch \<Rightarrow> bool" where
  "roused_ok w \<longleftrightarrow> (nt_notifying (w_notifier w) \<longleftrightarrow> w_pass w \<noteq> Resting) \<and>
     (nt_stopping (w_notifier w) \<or> w_lost w \<or> nt_notifying (w_notifier w) \<or>
        \<not> queued (w_notifier w) \<and> nt_held (w_notifier w) = []) \<and>
     finite (dom (nt_pending (w_notifier w))) \<and> finite (dom (nt_known (w_notifier w)))"

definition watch_ok :: "watch \<Rightarrow> bool" where
  "watch_ok w \<longleftrightarrow> clock_ok (nt_snapshots (w_notifier w)) \<and> covered_ok w \<and> held_ok w \<and> replies_ok w \<and> roused_ok w"

lemmas watch_parts = covered_ok_def held_ok_def replies_ok_def roused_ok_def let_go_def queued_def

text \<open>At the end of a pass that was not stopped or cut short, nothing is held.\<close>

lemma guard_holds_nothing:
  assumes ok: "watch_ok w" and g: "w_pass w = Guard" and q: "\<not> queued (w_notifier w)"
    and live: "\<not> nt_stopping (w_notifier w)" "\<not> w_lost w"
  shows "nt_held (w_notifier w) = []"
    "generation (nt_snapshots (w_notifier w)) p \<le> announced (w_notifier w) p"
proof -
  have all: "generation (nt_snapshots (w_notifier w)) p \<le> announced (w_notifier w) p" for p
    using ok g q live by (auto simp: watch_ok_def covered_ok_def queued_def)
  then show "generation (nt_snapshots (w_notifier w)) p \<le> announced (w_notifier w) p" .
  have "False" if "h \<in> set (nt_held (w_notifier w))" for h
    using ok that order_trans [OF _ all [of "o_path h"]]
    by (auto simp: watch_ok_def held_ok_def is_announced_def)
  then show "nt_held (w_notifier w) = []" by (cases "nt_held (w_notifier w)") auto
qed

lemma take_batch_ok:
  assumes ok: "watch_ok w" and g: "w_pass w = Guard" and l: "batch_lists (w_notifier w) cs"
    and t: "take_batch cs (w_notifier w) = (n', b)"
  shows "watch_ok (w\<lparr>w_notifier := n', w_pass := b\<rparr>)"
proof -
  let ?n = "w_notifier w"
  have n': "n' = ?n\<lparr>nt_everything_dirty := False, nt_pending := (\<lambda>_. None)\<rparr>"
    and b: "b = Batch (batch_of ?n cs) (if nt_everything_dirty ?n then Some (latest (nt_snapshots ?n)) else None) []"
    using t by (auto simp: take_batch_def)
  have clock: "clock_ok (nt_snapshots ?n)" using ok by (simp add: watch_ok_def)
  have cov: "covers b p (generation (nt_snapshots ?n) p)"
    if "nt_everything_dirty ?n \<or> nt_pending ?n p \<noteq> None" for p
  proof (cases "nt_everything_dirty ?n")
    case True
    then show ?thesis using generation_clock [OF clock, of p] by (simp add: b latest_def)
  next
    case False
    with that obtain k where "nt_pending ?n p = Some k" by auto
    with False l have "(p, k) \<in> set cs" by (simp add: batch_lists_def)
    then show ?thesis by (force simp: b batch_of_def)
  qed
  have "covered_ok (w\<lparr>w_notifier := n', w_pass := b\<rparr>)"
    using ok g cov by (auto simp: watch_ok_def covered_ok_def n')
  then show ?thesis
    using ok g by (auto simp: watch_ok_def held_ok_def replies_ok_def let_go_def roused_ok_def is_announced_def n' b queued_def)
qed

lemma stand_down_ok:
  assumes ok: "watch_ok w" and o: "replies_owed (w_pass w) = []" and r: "w_pass w \<noteq> Resting"
    and all: "nt_stopping (w_notifier w) \<or> lost \<or>
      \<not> queued (w_notifier w) \<and> w_pass w = Guard" and l: "w_lost w \<Longrightarrow> lost"
  shows "watch_ok ((stand_down w)\<lparr>w_lost := lost\<rparr>)"
proof (cases "nt_stopping (w_notifier w) \<or> lost")
  case True
  with ok o show ?thesis
    by (auto simp: watch_ok_def covered_ok_def held_ok_def replies_ok_def let_go_def roused_ok_def stand_down_def)
next
  case False
  with all l have g: "w_pass w = Guard" "\<not> queued (w_notifier w)" "\<not> nt_stopping (w_notifier w)" "\<not> w_lost w" by auto
  note E = guard_holds_nothing [OF ok g]
  from ok o g E show ?thesis
    by (auto simp: watch_ok_def covered_ok_def held_ok_def replies_ok_def let_go_def roused_ok_def stand_down_def
        is_announced_def queued_def)
qed

lemma mark_ok:
  assumes ok: "watch_ok w" and m: "mark_announced path g (w_notifier w) = (n', ready)"
    and b: "w_pass w = Batch bs ev []"
    and cov: "\<And>p h. covers (w_pass w) p h \<Longrightarrow> h \<le> announced n' p \<or> covers (Batch bs' ev' ready) p h"
  shows "watch_ok (w\<lparr>w_notifier := n', w_pass := Batch bs' ev' ready\<rparr>)"
proof -
  let ?n = "w_notifier w"
  let ?m = "note_announced path g ?n"
  have n': "n' = ?m\<lparr>nt_held := filter (\<lambda>h. \<not> is_announced ?m h) (nt_held ?n)\<rparr>"
    and ready: "ready = filter (is_announced ?m) (nt_held ?n)"
    using m by (simp_all add: mark_announced_def Let_def)
  have a: "announced n' = announced ?m" and ann: "is_announced n' = is_announced ?m"
    by (simp_all add: n' is_announced_def fun_eq_iff)
  have grows: "announced ?n p \<le> announced n' p" for p by (simp add: a announced_note_grows)
  have isa: "is_announced ?n h \<Longrightarrow> is_announced n' h" for h
    using grows order_trans by (auto simp: is_announced_def)
  have split: "mset (nt_held ?n) = mset ready + mset (nt_held n')"
    by (simp add: n' ready)
  have "covered_ok (w\<lparr>w_notifier := n', w_pass := Batch bs' ev' ready\<rparr>)"
  proof (cases "nt_stopping ?n \<or> w_lost w")
    case True
    then show ?thesis by (auto simp: covered_ok_def n')
  next
    case False
    have "generation (nt_snapshots ?n) p \<le> announced n' p \<or> nt_everything_dirty ?n \<or> nt_pending ?n p \<noteq> None \<or>
        covers (Batch bs' ev' ready) p (generation (nt_snapshots ?n) p)" for p
    proof -
      have "generation (nt_snapshots ?n) p \<le> announced ?n p \<or> nt_everything_dirty ?n \<or> nt_pending ?n p \<noteq> None \<or>
          covers (w_pass w) p (generation (nt_snapshots ?n) p)"
        using ok False unfolding watch_ok_def covered_ok_def by blast
      moreover have "generation (nt_snapshots ?n) p \<le> announced ?n p \<Longrightarrow> generation (nt_snapshots ?n) p \<le> announced n' p"
        using grows [of p] by (rule order_trans [rotated])
      ultimately show ?thesis using cov [of p "generation (nt_snapshots ?n) p"] by argo
    qed
    moreover have "nt_snapshots n' = nt_snapshots ?n" "nt_everything_dirty n' = nt_everything_dirty ?n"
      "nt_pending n' = nt_pending ?n" by (simp_all add: n')
    ultimately show ?thesis unfolding covered_ok_def by simp
  qed
  moreover have "held_ok (w\<lparr>w_notifier := n', w_pass := Batch bs' ev' ready\<rparr>)"
    using ok by (auto simp: watch_ok_def held_ok_def n' is_announced_def)
  moreover have "replies_ok (w\<lparr>w_notifier := n', w_pass := Batch bs' ev' ready\<rparr>)"
  proof -
    have r: "replies_ok w" using ok by (simp add: watch_ok_def)
    have go: "let_go (w\<lparr>w_notifier := n', w_pass := Batch bs' ev' ready\<rparr>) = let_go w @ ready"
      by (simp add: let_go_def b)
    have stop: "nt_stopping n' = nt_stopping ?n" by (simp add: n')
    have "\<forall>h \<in> set ready. is_announced n' h" by (simp add: ready ann)
    then show ?thesis
      using r split isa unfolding replies_ok_def go by (simp add: stop) blast
  qed
  moreover have "roused_ok (w\<lparr>w_notifier := n', w_pass := Batch bs' ev' ready\<rparr>)"
    using ok b by (auto simp: watch_ok_def roused_ok_def n' queued_def)
  ultimately show ?thesis using ok by (simp add: watch_ok_def n')
qed

section \<open>Every step keeps it\<close>

lemma pass_step_ok:
  assumes "pass_step w w'" and ok: "watch_ok w"
  shows "watch_ok w'"
  using assms(1)
proof cases
  case (Take_batch cs n' b)
  then show ?thesis using take_batch_ok [OF ok] by simp
next
  case Stand_down
  have e: "stand_down w = (stand_down w)\<lparr>w_lost := w_lost w\<rparr>" by (simp add: stand_down_def)
  show ?thesis unfolding Stand_down(1)
    by (subst e, rule stand_down_ok [OF ok]) (use Stand_down in auto)
next
  case (Announce p k g bs ev status n' a n'' ready)
  note K = announce_known [OF Announce(3)]
  let ?w = "w\<lparr>w_notifier := n'\<rparr>"
  have st: "nt_snapshots n' = nt_snapshots (w_notifier w)" "nt_pending n' = nt_pending (w_notifier w)"
    "nt_everything_dirty n' = nt_everything_dirty (w_notifier w)" "nt_stopping n' = nt_stopping (w_notifier w)"
    "nt_notifying n' = nt_notifying (w_notifier w)" "nt_held n' = nt_held (w_notifier w)"
    "announced n' = announced (w_notifier w)"
    by (subst K(1), simp)+
  have okn: "watch_ok ?w"
    using ok K(2) Announce(2) by (simp add: watch_ok_def watch_parts st is_announced_def)
  have n'': "announced n'' = announced (note_announced (Some p) g n')"
    using Announce(4) by (auto simp: mark_announced_def Let_def)
  have "watch_ok (?w\<lparr>w_notifier := n'', w_pass := Batch bs ev ready\<rparr>)"
    by (rule mark_ok [OF okn, where path = "Some p" and g = g])
      (use Announce in \<open>auto simp: n'' announced_note\<close>)
  then show ?thesis by (simp add: Announce(1) watch_ok_def watch_parts)
next
  case (Announce_everything e n' ready)
  have n': "announced n' = announced (note_announced None e (w_notifier w))"
    using Announce_everything(3) by (auto simp: mark_announced_def Let_def)
  show ?thesis unfolding Announce_everything(1)
    by (rule mark_ok [OF ok, where path = None and g = e])
      (use Announce_everything in \<open>auto simp: n' announced_note\<close>)
next
  case Batch_done
  with ok show ?thesis by (auto simp: watch_ok_def watch_parts)
next
  case (Reply bs ev h ready)
  with ok show ?thesis by (auto simp: watch_ok_def watch_parts)
next
  case (Reply_loose h hs)
  with ok show ?thesis by (auto simp: watch_ok_def watch_parts)
qed

text \<open>A section that may start a pass.\<close>

lemma rouse_ok:
  assumes ok: "watch_ok w"
    and n': "nt_stopping n' = nt_stopping (w_notifier w)" "nt_known n' = nt_known (w_notifier w)"
       "finite (dom (nt_pending n'))" "clock_ok (nt_snapshots n')" "announced n' = announced (w_notifier w)"
    and noti: "nt_notifying (w_notifier w) \<Longrightarrow> nt_notifying n'"
       "nt_stopping n' \<Longrightarrow> nt_notifying n' = nt_notifying (w_notifier w)"
    and lost: "w_lost w \<Longrightarrow> lost" "\<not> nt_stopping (w_notifier w) \<Longrightarrow> \<not> nt_notifying n' \<Longrightarrow> queued n' \<or> nt_held n' \<noteq> [] \<Longrightarrow> lost"
    and cov: "\<And>p. nt_everything_dirty (w_notifier w) \<or> nt_pending (w_notifier w) p \<noteq> None \<Longrightarrow> \<not> nt_stopping (w_notifier w) \<Longrightarrow>
        nt_everything_dirty n' \<or> nt_pending n' p \<noteq> None"
       "\<And>p. \<not> nt_stopping (w_notifier w) \<Longrightarrow> generation (nt_snapshots n') p \<noteq> generation (nt_snapshots (w_notifier w)) p \<Longrightarrow>
        nt_everything_dirty n' \<or> nt_pending n' p \<noteq> None"
    and held: "\<And>h. h \<in> set (nt_held n') \<Longrightarrow> \<not> is_announced n' h \<and>
        o_generation h \<le> generation (nt_snapshots n') (o_path h)"
    and go: "mset opens = mset (let_go (w\<lparr>w_replied := replied\<rparr>)) + mset (nt_held n')"
       "nt_stopping n' \<or> lost \<or> (\<forall>h \<in> set replied. is_announced n' h)"
  shows "watch_ok ((rouse n' (w\<lparr>w_lost := lost\<rparr>))\<lparr>w_opens := opens, w_replied := replied\<rparr>)"
    (is "watch_ok ?w")
proof -
  let ?n = "w_notifier w"
  have f: "w_notifier ?w = n'" "w_lost ?w = lost" "replies_owed (w_pass ?w) = replies_owed (w_pass w)" "w_opens ?w = opens"
    "w_replied ?w = replied" "w_loose ?w = w_loose w" "covers (w_pass ?w) = covers (w_pass w)"
    by (auto simp: rouse_def fun_eq_iff)
  have pass: "w_pass ?w \<noteq> Resting \<longleftrightarrow> nt_notifying n'"
    using ok noti(1) by (auto simp: rouse_def watch_ok_def roused_ok_def)
  have isa: "is_announced n' = is_announced ?n" by (simp add: is_announced_def n'(5) fun_eq_iff)
  have "covered_ok ?w"
  proof (cases "nt_stopping ?n \<or> lost")
    case True
    then show ?thesis unfolding covered_ok_def f n' by blast
  next
    case False
    have "generation (nt_snapshots n') p \<le> announced n' p \<or> nt_everything_dirty n' \<or> nt_pending n' p \<noteq> None \<or>
        covers (w_pass w) p (generation (nt_snapshots n') p)" for p
    proof (cases "generation (nt_snapshots n') p = generation (nt_snapshots ?n) p")
      case True
      have "generation (nt_snapshots ?n) p \<le> announced ?n p \<or> nt_everything_dirty ?n \<or> nt_pending ?n p \<noteq> None \<or>
          covers (w_pass w) p (generation (nt_snapshots ?n) p)"
        using ok False lost unfolding watch_ok_def covered_ok_def by blast
      with cov(1) [of p] False show ?thesis unfolding True n'(5) by argo
    next
      case moved: False
      with cov(2) [of p] False show ?thesis by argo
    qed
    then show ?thesis unfolding covered_ok_def f by blast
  qed
  moreover have "held_ok ?w" unfolding held_ok_def f using held by blast
  moreover have "replies_ok ?w"
  proof -
    have "nt_stopping n' \<or> lost \<or> (\<forall>h \<in> set (w_loose w @ replies_owed (w_pass w)). is_announced n' h)"
      using ok lost unfolding watch_ok_def replies_ok_def let_go_def isa n' by auto
    then show ?thesis using go unfolding replies_ok_def let_go_def f by (auto simp: rouse_def)
  qed
  moreover have "roused_ok ?w"
    using ok pass lost n' unfolding roused_ok_def f by (auto simp: watch_ok_def roused_ok_def)
  ultimately show ?thesis using n'(4) by (simp add: watch_ok_def f)
qed

lemma change_ok:
  assumes ok: "watch_ok w" and n': "n' = on_tree_changed spawned d (w_notifier w)"
    and lost: "lost = (\<not> nt_stopping (w_notifier w) \<and> \<not> nt_notifying n')"
  shows "watch_ok (rouse n' (w\<lparr>w_lost := (w_lost w \<or> lost)\<rparr>))"
proof -
  let ?n = "w_notifier w"
  have clock: "clock_ok (nt_snapshots ?n)" and held: "held_ok w" and rep: "replies_ok w"
    and fin: "finite (dom (nt_pending ?n))" and quiet: "nt_stopping ?n \<or> w_lost w \<or> nt_notifying ?n \<or> \<not> queued ?n \<and> nt_held ?n = []"
    using ok by (auto simp: watch_ok_def roused_ok_def)
  have f: "nt_snapshots n' = changed d (nt_snapshots ?n)" "nt_stopping n' = nt_stopping ?n" "nt_known n' = nt_known ?n"
    "announced n' = announced ?n" "nt_held n' = nt_held ?n"
    "nt_notifying n' = (nt_notifying ?n \<or> \<not> nt_stopping ?n \<and> spawned)"
    "nt_everything_dirty n' = (nt_everything_dirty ?n \<or> \<not> nt_stopping ?n \<and> everything_dirty d)"
    "nt_pending n' = (if nt_stopping ?n \<or> everything_dirty d then nt_pending ?n else merge_changes (changes_of d) (nt_pending ?n))"
    by (simp_all add: n' on_tree_changed_def start_notifying_cases Let_def)
  have grows: "generation (nt_snapshots ?n) p \<le> generation (nt_snapshots n') p" for p
    unfolding f by (rule changed_generation_grows [OF clock])
  have dom: "dom (merge_changes (changes_of d) (nt_pending ?n)) = dom (nt_pending ?n) \<union> set (entries_changed d)"
    by (simp add: merge_changes_dom changes_of_paths)
  have pend: "nt_pending n' p \<noteq> None" if "nt_pending ?n p \<noteq> None" for p
    using dom that unfolding f by (cases "nt_stopping ?n \<or> everything_dirty d") (auto simp: dom_def)
  have isa: "is_announced n' = is_announced ?n" by (simp add: is_announced_def f fun_eq_iff)
  have "watch_ok ((rouse n' (w\<lparr>w_lost := w_lost w \<or> lost\<rparr>))\<lparr>w_opens := w_opens w, w_replied := w_replied w\<rparr>)"
  proof (rule rouse_ok [OF ok f(2,3) _ _ f(4)])
    show "finite (dom (nt_pending n'))" using fin dom unfolding f by simp
    show "clock_ok (nt_snapshots n')" unfolding f by (rule changed_clock_ok [OF clock])
    fix p assume "\<not> nt_stopping ?n" "generation (nt_snapshots n') p \<noteq> generation (nt_snapshots ?n) p"
    then show "nt_everything_dirty n' \<or> nt_pending n' p \<noteq> None"
      using changed_generation_other [of d p "nt_snapshots ?n"] dom unfolding f by (auto simp: dom_def)
  next
    fix h assume "h \<in> set (nt_held n')"
    then show "\<not> is_announced n' h \<and> o_generation h \<le> generation (nt_snapshots n') (o_path h)"
      using held order_trans [OF _ grows] unfolding held_ok_def f(5) isa by blast
  next
    have "w\<lparr>w_replied := w_replied w\<rparr> = w" by simp
    then show "mset (w_opens w) = mset (let_go (w\<lparr>w_replied := w_replied w\<rparr>)) + mset (nt_held n')"
      using rep unfolding replies_ok_def f(5) by simp
  qed (use pend f rep lost in \<open>auto simp: replies_ok_def let_go_def isa\<close>)
  then show ?thesis by (simp add: rouse_def)
qed

lemma open_ok:
  assumes ok: "watch_ok w" and g: "o_generation h \<le> generation (nt_snapshots (w_notifier w)) (o_path h)"
    and r: "reply_when_announced spawned h (w_notifier w) = (n', now)" and lost: "lost = (\<not> now \<and> \<not> nt_notifying n')"
  shows "watch_ok ((rouse n' (w\<lparr>w_lost := (w_lost w \<or> lost)\<rparr>))\<lparr>w_opens := h # w_opens w,
      w_replied := (if now then h # w_replied w else w_replied w)\<rparr>)"
proof -
  let ?n = "w_notifier w"
  have clock: "clock_ok (nt_snapshots ?n)" and held: "held_ok w" and rep: "replies_ok w"
    and fin: "finite (dom (nt_pending ?n))"
    and quiet: "nt_stopping ?n \<or> w_lost w \<or> nt_notifying ?n \<or> \<not> queued ?n \<and> nt_held ?n = []"
    using ok by (auto simp: watch_ok_def roused_ok_def)
  have f: "nt_snapshots n' = nt_snapshots ?n" "nt_stopping n' = nt_stopping ?n" "nt_known n' = nt_known ?n"
    "announced n' = announced ?n" "nt_pending n' = nt_pending ?n" "nt_everything_dirty n' = nt_everything_dirty ?n"
    "nt_held n' = (if now then nt_held ?n else nt_held ?n @ [h])"
    "nt_notifying n' = (nt_notifying ?n \<or> \<not> now \<and> \<not> nt_stopping ?n \<and> spawned)"
    "now \<longleftrightarrow> nt_stopping ?n \<or> is_announced ?n h"
    using r by (auto simp: reply_when_announced_def start_notifying_cases is_announced_def split: if_splits)
  have isa: "is_announced n' = is_announced ?n" by (simp add: is_announced_def f fun_eq_iff)
  have q: "queued n' = queued ?n" by (simp add: queued_def f)
  show ?thesis
  proof (rule rouse_ok [OF ok f(2,3) _ _ f(4)])
    show "finite (dom (nt_pending n'))" "clock_ok (nt_snapshots n')" using fin clock by (simp_all add: f)
  next
    fix k assume "k \<in> set (nt_held n')"
    then show "\<not> is_announced n' k \<and> o_generation k \<le> generation (nt_snapshots n') (o_path k)"
      using held g f(9) unfolding held_ok_def f(1,7) isa by (auto split: if_splits)
  next
    assume "\<not> nt_stopping ?n" "\<not> nt_notifying n'" "queued n' \<or> nt_held n' \<noteq> []"
    then show "w_lost w \<or> lost" using quiet lost by (auto simp: q f(7,8) split: if_splits)
  next
    show "mset (h # w_opens w) =
        mset (let_go (w\<lparr>w_replied := if now then h # w_replied w else w_replied w\<rparr>)) + mset (nt_held n')"
      using rep by (simp add: replies_ok_def let_go_def f(7))
  next
    show "nt_stopping n' \<or> (w_lost w \<or> lost) \<or>
        (\<forall>k \<in> set (if now then h # w_replied w else w_replied w). is_announced n' k)"
      using rep f(9) by (auto simp: replies_ok_def let_go_def isa f(2))
  qed (auto simp: f)
qed

lemma watch_step_ok:
  assumes "watch_step w w'" and ok: "watch_ok w"
  shows "watch_ok w'"
  using assms(1)
proof cases
  case Pass
  then show ?thesis using ok by (rule pass_step_ok)
next
  case (Change n' spawned d lost)
  with change_ok [OF ok] show ?thesis by simp
next
  case (Open h spawned n' now lost)
  with open_ok [OF ok] show ?thesis by simp
next
  case (Remember p dir)
  with ok show ?thesis by (auto simp: watch_ok_def watch_parts remember_def is_announced_def)
next
  case (Cut_short bs ev)
  show ?thesis unfolding Cut_short(1) by (rule stand_down_ok [OF ok]) (use Cut_short in auto)
next
  case Stop
  with ok show ?thesis by (auto simp: watch_ok_def watch_parts is_announced_def)
next
  case Destroy
  with ok show ?thesis by (auto simp: watch_ok_def watch_parts is_announced_def)
qed

lemma watch_init_ok: "watch_init w \<Longrightarrow> watch_ok w"
  by (simp add: watch_init_def watch_ok_def watch_parts notifier_new_def snapshots_new_def clock_ok_def generation_def)

interpretation nw: transition_system watch_init watch_step watch_ok
  by unfold_locales (blast intro: watch_init_ok watch_step_ok)+

section \<open>The pass ends\<close>

text \<open>
  What each move of a pass brings down, the first that changes deciding: whether there is a queue
  left to take, how far the pass is from its end, what is left of the batch, and the replies replies_owed.
\<close>

fun pass_stage :: "pass \<Rightarrow> nat" where
  "pass_stage Resting = 0"
| "pass_stage Guard = 1"
| "pass_stage (Batch bs ev ready) = 2"

fun batch_left :: "pass \<Rightarrow> nat" where
  "batch_left (Batch bs ev ready) = length bs + (case ev of None \<Rightarrow> 0 | Some e \<Rightarrow> 1)"
| "batch_left _ = 0"

definition watch_rank :: "watch \<Rightarrow> nat \<times> nat \<times> nat \<times> nat" where
  "watch_rank w = (of_bool (queued (w_notifier w)), pass_stage (w_pass w), batch_left (w_pass w),
     length (replies_owed (w_pass w)) + length (w_loose w))"

lemma pass_step_rank:
  assumes "pass_step w w'"
  shows "(watch_rank w', watch_rank w) \<in> less_than <*lex*> less_than <*lex*> less_than <*lex*> less_than"
  using assms
proof cases
  case (Take_batch cs n' b)
  then show ?thesis by (auto simp: watch_rank_def take_batch_def queued_def)
next
  case (Announce p k g bs ev status n' a n'' ready)
  have "queued n'' = queued n'" using Announce(4) by (auto simp: mark_announced_def Let_def queued_def)
  moreover have "queued n' = queued (w_notifier w)"
    by (subst announce_known(1) [OF Announce(3)]) (simp add: queued_def)
  ultimately show ?thesis using Announce(1,2) by (simp add: watch_rank_def)
next
  case (Announce_everything e n' ready)
  have "queued n' = queued (w_notifier w)"
    using Announce_everything(3) by (auto simp: mark_announced_def Let_def queued_def)
  then show ?thesis using Announce_everything(1,2) by (simp add: watch_rank_def)
qed (auto simp: watch_rank_def stand_down_def queued_def)

lemma passes_end: "\<not> (\<exists>f. f 0 = w \<and> (\<forall>i. pass_step (f i) (f (Suc i))))"
proof
  assume "\<exists>f. f 0 = w \<and> (\<forall>i. pass_step (f i) (f (Suc i)))"
  then obtain f where "\<And>i. pass_step (f i) (f (Suc i))" by blast
  then have "(watch_rank (f (Suc i)), watch_rank (f i)) \<in> less_than <*lex*> less_than <*lex*> less_than <*lex*> less_than" for i
    by (blast intro: pass_step_rank)
  then show False
    using wf_no_infinite_down_chainE [where f = "\<lambda>i. watch_rank (f i)" and r = "less_than <*lex*> less_than <*lex*> less_than <*lex*> less_than"]
    by (blast intro: wf_lex_prod wf_less_than)
qed

lemma batch_lists_exists:
  assumes "finite (dom (nt_pending n))" "finite (dom (nt_known n))"
  shows "\<exists>cs. batch_lists n cs"
proof (cases "nt_everything_dirty n")
  case True
  obtain ps where "set ps = dom (nt_known n)" "distinct ps" using finite_distinct_list [OF assms(2)] by blast
  with True have "batch_lists n (map (\<lambda>p. (p, Modified)) ps)"
    by (auto simp: batch_lists_def comp_def dom_def)
  then show ?thesis ..
next
  case False
  obtain ps where "set ps = dom (nt_pending n)" "distinct ps" using finite_distinct_list [OF assms(1)] by blast
  with False have "batch_lists n (map (\<lambda>p. (p, the (nt_pending n p))) ps)"
    by (auto simp: batch_lists_def comp_def dom_def)
  then show ?thesis ..
qed

text \<open>A pass that can make no move has ended, and owes nothing.\<close>

lemma pass_stuck:
  assumes ok: "watch_ok w" and stuck: "\<And>w'. \<not> pass_step w w'"
  shows "w_pass w = Resting \<and> w_loose w = []"
proof
  have fin: "finite (dom (nt_pending (w_notifier w)))" "finite (dom (nt_known (w_notifier w)))"
    using ok by (simp_all add: watch_ok_def roused_ok_def)
  show "w_loose w = []" using stuck Reply_loose by (cases "w_loose w") blast+
  show "w_pass w = Resting"
  proof (cases "w_pass w")
    case Guard
    then show ?thesis
      using stuck Stand_down [OF Guard] Take_batch [OF Guard] batch_lists_exists [OF fin] surj_pair by metis
  next
    case (Batch bs ev ready)
    show ?thesis
    proof (cases ready)
      case (Cons h hs)
      with Batch stuck Reply show ?thesis by blast
    next
      case Nil
      show ?thesis
      proof (cases bs)
        case (Cons c cs)
        obtain p k g where "c = (p, k, g)" by (cases c) auto
        with Batch Nil Cons have b: "w_pass w = Batch ((p, k, g) # cs) ev []" by simp
        obtain n' a where "announce (\<lambda>_. Inl Io_error) p k (w_notifier w) = (n', a)" by fastforce
        moreover obtain n'' r where "mark_announced (Some p) g n' = (n'', r)" by fastforce
        ultimately show ?thesis using stuck Announce [OF b] by blast
      next
        case bs: Nil
        obtain n'' r where "mark_announced None (the ev) (w_notifier w) = (n'', r)" by fastforce
        then show ?thesis
          using stuck Announce_everything [of w "the ev"] Batch_done [of w] Batch Nil bs by (cases ev) auto
      qed
    qed
  qed simp
qed

lemma rested:
  assumes ok: "watch_ok w" and stuck: "\<And>w'. \<not> pass_step w w'"
    and live: "\<not> nt_stopping (w_notifier w)" "\<not> w_lost w"
  shows "mset (w_replied w) = mset (w_opens w)"
    "generation (nt_snapshots (w_notifier w)) p \<le> announced (w_notifier w) p"
proof -
  have r: "w_pass w = Resting" "w_loose w = []" using pass_stuck [OF ok stuck] by simp_all
  have n: "\<not> queued (w_notifier w)" "nt_held (w_notifier w) = []"
    using ok r live by (auto simp: watch_ok_def roused_ok_def)
  show "mset (w_replied w) = mset (w_opens w)"
    using ok r n by (simp add: watch_ok_def replies_ok_def let_go_def)
  show "generation (nt_snapshots (w_notifier w)) p \<le> announced (w_notifier w) p"
    using ok r n live by (auto simp: watch_ok_def covered_ok_def queued_def)
qed

end
