(* ===== verification/Mount_Requests.thy ===== *)
theory Mount_Requests
  imports Mount_Inodes Mount_Notify
begin

text \<open>
  How the mount answers the kernel (\<^verbatim>\<open>src/virtualfilesystem-linux.cpp\<close>): attributes, listings, the
  requests that would change something - which only the notifier gets through, for the one path it
  pretends something about - and the reply that each request owes.
\<close>

section \<open>Errors\<close>

text \<open>The values of the codes in the categories of the system; the others have no errno.\<close>

fun errno_of :: "error_code \<Rightarrow> int" where
  "errno_of No_such_file_or_directory = 2"
| "errno_of No_such_process = 3"
| "errno_of Io_error = 5"
| "errno_of Not_enough_memory = 12"
| "errno_of Permission_denied = 13"
| "errno_of Device_or_resource_busy = 16"
| "errno_of File_exists = 17"
| "errno_of Not_a_directory = 20"
| "errno_of Is_a_directory = 21"
| "errno_of Invalid_argument = 22"
| "errno_of Resource_deadlock_would_occur = 35"
| "errno_of Protocol_error = 71"
| "errno_of Bad_message = 74"
| "errno_of Operation_canceled = 125"
| "errno_of (System_error n) = n"
| "errno_of _ = 0"

definition EIO :: int where "EIO = 5"
definition ENOENT :: int where "ENOENT = 2"
definition EINTR :: int where "EINTR = 4"
definition EACCES :: int where "EACCES = 13"
definition ECANCELED :: int where "ECANCELED = 125"
definition ESTALE :: int where "ESTALE = 116"

definition to_errno :: "error_code \<Rightarrow> int" where
  "to_errno e = (if 0 < errno_of e then errno_of e else EIO)"

lemma to_errno_pos: "0 < to_errno e"
  by (simp add: to_errno_def EIO_def)

section \<open>Attributes\<close>

record stat =
  st_ino :: nat
  st_mode :: nat
  st_nlink :: nat
  st_size :: nat
  st_time :: "int \<times> int"

definition no_stat :: stat where
  "no_stat = \<lparr>st_ino = 0, st_mode = 0, st_nlink = 0, st_size = 0, st_time = (0, 0)\<rparr>"

text \<open>\<^verbatim>\<open>S_IFREG | 0555\<close> and \<^verbatim>\<open>S_IFDIR | 0555\<close>.\<close>

definition file_mode :: nat where "file_mode = 0x8000 + 0x16D"
definition directory_mode :: nat where "directory_mode = 0x4000 + 0x16D"

text \<open>\<open>epoch\<close> is the difference between the epochs of the two clocks, in nanoseconds.\<close>

definition to_timespec :: "int \<Rightarrow> int \<Rightarrow> int \<times> int" where
  "to_timespec epoch t = (let s = (t + epoch) div 1000000000 in (s, t + epoch - s * 1000000000))"

definition file_attributes :: "int \<Rightarrow> file_info \<Rightarrow> stat" where
  "file_attributes epoch f =
     \<lparr>st_ino = 0, st_mode = file_mode, st_nlink = 1, st_size = f_size f, st_time = to_timespec epoch (f_mtime f)\<rparr>"

definition directory_attributes :: "int \<Rightarrow> directory_info \<Rightarrow> stat" where
  "directory_attributes epoch d =
     \<lparr>st_ino = 0, st_mode = directory_mode, st_nlink = 2, st_size = 0, st_time = to_timespec epoch (d_mtime d)\<rparr>"

datatype pretence = No_pretence | Absent | Present_file | Present_directory

type_synonym pretending = "string list \<times> pretence"

definition pretence_for :: "string list \<Rightarrow> pretending \<Rightarrow> pretence" where
  "pretence_for p pr = (if p = fst pr then snd pr else No_pretence)"

text \<open>
  \<open>own\<close>: the request is the notifier's.  The last part of the result is the entry, if the tree has
  one, which is then remembered.
\<close>

definition attributes :: "int \<Rightarrow> (string list \<Rightarrow> entry_info expected) \<Rightarrow> bool \<Rightarrow> pretending \<Rightarrow> string list \<Rightarrow>
    int + stat \<times> entry_info option" where
  "attributes epoch status own pr p =
     (let pretence = (if own then pretence_for p pr else No_pretence)
      in if pretence = Absent then Inl ENOENT
         else (case status p of
                 Inl e \<Rightarrow>
                   (case pretence of
                      Present_file \<Rightarrow> Inr (no_stat\<lparr>st_mode := file_mode, st_nlink := 1\<rparr>, None)
                    | Present_directory \<Rightarrow> Inr (no_stat\<lparr>st_mode := directory_mode, st_nlink := 2\<rparr>, None)
                    | _ \<Rightarrow> Inl (to_errno e))
               | Inr (File_entry f) \<Rightarrow> Inr (file_attributes epoch f, Some (File_entry f))
               | Inr (Directory_entry d) \<Rightarrow> Inr (directory_attributes epoch d, Some (Directory_entry d))))"

text \<open>The version an inode or a handle is fixed to, if it is, or otherwise the tree as it is now.\<close>

definition getattr :: "int \<Rightarrow> (string list \<Rightarrow> entry_info expected) \<Rightarrow> bool \<Rightarrow> pretending \<Rightarrow>
    (nat \<Rightarrow> snapshot option) \<Rightarrow> mount \<Rightarrow> nat \<Rightarrow> nat \<Rightarrow> (int + stat) option" where
  "getattr epoch status own pr snaps m ino fh =
     (case fixed_info snaps m ino fh of
        Some f \<Rightarrow> Some (Inr ((file_attributes epoch f)\<lparr>st_ino := ino\<rparr>))
      | None \<Rightarrow>
          map_option (\<lambda>p. map_sum (\<lambda>e. e) (\<lambda>r. (fst r)\<lparr>st_ino := ino\<rparr>) (attributes epoch status own pr p))
            (if fh = 0 then path_of_inode m ino else map_option h_path (m_handles m fh)))"

text \<open>
  The reply with an entry: the attributes, then the inode of the name, whose reference the kernel
  gets with the reply.  \<open>gen\<close> is the generation of the file when the inode is looked for.
\<close>

definition file_of :: "entry_info option \<Rightarrow> file_info option" where
  "file_of i = (case i of Some (File_entry f) \<Rightarrow> Some f | _ \<Rightarrow> None)"

definition remember_entry :: "string list \<Rightarrow> entry_info option \<Rightarrow> notifier \<Rightarrow> notifier" where
  "remember_entry p i n = (case i of None \<Rightarrow> n | Some e \<Rightarrow> remember p (is_directory e) n)"

definition entry_request :: "int \<Rightarrow> (string list \<Rightarrow> entry_info expected) \<Rightarrow> bool \<Rightarrow> pretending \<Rightarrow> nat \<Rightarrow> string list \<Rightarrow>
    mount \<times> notifier \<Rightarrow> ((mount \<times> notifier) \<times> (int + nat \<times> stat)) option" where
  "entry_request epoch status own pr gen p s =
     (case attributes epoch status own pr p of
        Inl e \<Rightarrow> Some (s, Inl e)
      | Inr (st, i) \<Rightarrow>
          map_option (\<lambda>(m', ino). ((m', remember_entry p i (snd s)), Inr (ino, st\<lparr>st_ino := ino\<rparr>)))
            (inode_for p (file_of i) (if file_of i = None then 0 else gen) (fst s)))"

text \<open>A reply that does not reach the kernel takes its reference back.\<close>

definition entry_replied :: "bool \<Rightarrow> nat \<Rightarrow> mount \<Rightarrow> mount" where
  "entry_replied sent ino m = (if sent then m else forget_inode ino 1 m)"

section \<open>The mountpoint\<close>

text \<open>
  What \<^verbatim>\<open>create_mountpoint\<close> throws, by the message it throws with.  \<open>found\<close> is what \<^verbatim>\<open>lstat\<close> says of
  the path - whether it is a directory, and its device - or the errno; \<open>parent_dev\<close>, the device of
  the directory holding it, if that can be read; \<open>made\<close>, the error of creating the directories.
\<close>

datatype mountpoint_refusal =
    Already_a_mount
  | Already_exists
  | Stale_mount
  | Cannot_use int
  | Cannot_create error_code

definition ENOTCONN :: int where "ENOTCONN = 107"

definition create_mountpoint :: "int + bool \<times> nat \<Rightarrow> nat option \<Rightarrow> error_code \<Rightarrow> mountpoint_refusal + unit" where
  "create_mountpoint found parent_dev made =
     (case found of
        Inr (dir, dev) \<Rightarrow>
          Inl (if dir \<and> (case parent_dev of None \<Rightarrow> False | Some d \<Rightarrow> d \<noteq> dev) then Already_a_mount else Already_exists)
      | Inl e \<Rightarrow>
          if e = ENOTCONN then Inl Stale_mount
          else if e \<noteq> ENOENT then Inl (Cannot_use e)
          else if made \<noteq> No_error then Inl (Cannot_create made)
          else Inr ())"

section \<open>Requests that would change something\<close>

definition end_pretence :: "bool \<Rightarrow> string list \<Rightarrow> pretence \<Rightarrow> pretending \<Rightarrow> pretending \<times> bool" where
  "end_pretence own p expected pr =
     (if \<not> own then (pr, False)
      else if snd pr \<noteq> expected \<or> fst pr \<noteq> p then (pr, False)
      else ((fst pr, No_pretence), True))"

datatype change_request =
    Create "string list"
  | Mknod "string list"
  | Mkdir "string list"
  | Unlink "string list"
  | Rmdir "string list"
  | Open_to_write "string list"
  | Write "string list" nat

datatype change_reply =
    Refused int
  | Entry_of "string list"
  | Removed
  | Opened_direct
  | Wrote nat

definition answer_change :: "bool \<Rightarrow> change_request \<Rightarrow> pretending \<Rightarrow> pretending \<times> change_reply" where
  "answer_change own r pr =
     (case r of
        Create p \<Rightarrow> (case end_pretence own p Absent pr of (pr', ok) \<Rightarrow> (pr', if ok then Entry_of p else Refused EACCES))
      | Mknod p \<Rightarrow> (case end_pretence own p Absent pr of (pr', ok) \<Rightarrow> (pr', if ok then Entry_of p else Refused EACCES))
      | Mkdir p \<Rightarrow> (case end_pretence own p Absent pr of (pr', ok) \<Rightarrow> (pr', if ok then Entry_of p else Refused EACCES))
      | Unlink p \<Rightarrow> (case end_pretence own p Present_file pr of (pr', ok) \<Rightarrow> (pr', if ok then Removed else Refused EACCES))
      | Rmdir p \<Rightarrow> (case end_pretence own p Present_directory pr of (pr', ok) \<Rightarrow> (pr', if ok then Removed else Refused EACCES))
      | Open_to_write p \<Rightarrow> (pr, if own then Opened_direct else Refused EACCES)
      | Write p n \<Rightarrow> (pr, if own then Wrote n else Refused EACCES))"

fun answer_changes :: "(bool \<times> change_request) list \<Rightarrow> pretending \<Rightarrow> change_reply list" where
  "answer_changes [] pr = []"
| "answer_changes ((own, r) # rs) pr = (case answer_change own r pr of (pr', a) \<Rightarrow> a # answer_changes rs pr')"

section \<open>Listings\<close>

definition opendir_names :: "string list \<Rightarrow> string list" where
  "opendir_names entries = ''.'' # ''..'' # entries"

text \<open>
  \<open>need n\<close> is what \<^verbatim>\<open>fuse_add_direntry\<close> needs for the name \<open>n\<close>; each entry carries the offset of
  the one after it.
\<close>

fun fill_entries :: "(string \<Rightarrow> nat) \<Rightarrow> nat \<Rightarrow> nat \<Rightarrow> string list \<Rightarrow> (string \<times> nat) list" where
  "fill_entries need room i [] = []"
| "fill_entries need room i (n # ns) =
     (if room < need n then [] else (n, Suc i) # fill_entries need (room - need n) (Suc i) ns)"

definition readdir :: "(string \<Rightarrow> nat) \<Rightarrow> nat \<Rightarrow> nat \<Rightarrow> string list \<Rightarrow> (string \<times> nat) list" where
  "readdir need len offset names = fill_entries need len offset (drop offset names)"

text \<open>What a caller lists that asks again from the last offset until there is nothing more.\<close>

fun list_from :: "nat \<Rightarrow> (string \<Rightarrow> nat) \<Rightarrow> nat \<Rightarrow> nat \<Rightarrow> string list \<Rightarrow> string list" where
  "list_from 0 need len offset names = []"
| "list_from (Suc fuel) need len offset names =
     (let es = readdir need len offset names
      in if es = [] then [] else map fst es @ list_from fuel need len (snd (last es)) names)"

lemma fill_entries_prefix:
  "fill_entries need room i ns = zip (take k ns) [Suc i..<Suc (i + k)]" if "k = length (fill_entries need room i ns)"
  using that
proof (induction need room i ns arbitrary: k rule: fill_entries.induct)
  case (2 need room i n ns)
  show ?case
  proof (cases "room < need n")
    case True
    with 2 show ?thesis by simp
  next
    case False
    let ?j = "length (fill_entries need (room - need n) (Suc i) ns)"
    have k: "k = Suc ?j" using 2(2) False by simp
    have "fill_entries need (room - need n) (Suc i) ns = zip (take ?j ns) [Suc (Suc i)..<Suc (Suc i + ?j)]"
      using 2(1) [OF False refl] .
    moreover have "[Suc i..<Suc (i + k)] = Suc i # [Suc (Suc i)..<Suc (Suc i + ?j)]"
      by (simp add: k upt_conv_Cons del: upt_Suc)
    ultimately show ?thesis using False by (simp add: k)
  qed
qed simp

lemma fill_entries_length: "length (fill_entries need room i ns) \<le> length ns"
  by (induction need room i ns rule: fill_entries.induct) auto

lemma fill_entries_some: "ns \<noteq> [] \<Longrightarrow> need (hd ns) \<le> room \<Longrightarrow> fill_entries need room i ns \<noteq> []"
  by (cases ns) auto

lemma readdir_some:
  assumes "offset < length names" "\<And>n. n \<in> set names \<Longrightarrow> need n \<le> len"
  obtains k where "0 < k" "offset + k \<le> length names" "map fst (readdir need len offset names) = take k (drop offset names)"
    "readdir need len offset names \<noteq> []" "snd (last (readdir need len offset names)) = offset + k"
proof -
  let ?es = "fill_entries need len offset (drop offset names)"
  define k where "k = length ?es"
  have ne: "?es \<noteq> []"
    using assms by (intro fill_entries_some) (auto simp: hd_drop_conv_nth)
  then have k0: "0 < k" by (simp add: k_def)
  have le: "k \<le> length (drop offset names)" unfolding k_def by (rule fill_entries_length)
  have es: "?es = zip (take k (drop offset names)) [Suc offset..<Suc (offset + k)]"
    by (rule fill_entries_prefix) (simp add: k_def)
  have "map fst ?es = take k (drop offset names)"
    using le by (subst es) (simp add: map_fst_zip_take min_def)
  moreover have "snd (last ?es) = last (map snd ?es)" using ne by (simp add: last_map)
  moreover have "map snd ?es = [Suc offset..<Suc (offset + k)]"
    using le by (subst es) (simp add: map_snd_zip_take min_def del: upt_Suc)
  ultimately show ?thesis
    using that [of k] k0 le ne assms(1) by (simp add: readdir_def)
qed

lemma list_from_all:
  assumes "\<And>n. n \<in> set names \<Longrightarrow> need n \<le> len"
  shows "length names - offset < fuel \<Longrightarrow> list_from fuel need len offset names = drop offset names"
proof (induction fuel arbitrary: offset)
  case (Suc fuel)
  show ?case
  proof (cases "offset < length names")
    case True
    obtain k where k: "0 < k" "offset + k \<le> length names"
      "map fst (readdir need len offset names) = take k (drop offset names)"
      "readdir need len offset names \<noteq> []" "snd (last (readdir need len offset names)) = offset + k"
      by (rule readdir_some [OF True, of need len]) (use assms in auto)
    have "list_from fuel need len (offset + k) names = drop (offset + k) names"
      using k(1) True Suc.prems by (intro Suc.IH) simp
    moreover have "take k (drop offset names) @ drop (offset + k) names = drop offset names"
      by (metis add.commute append_take_drop_id drop_drop)
    ultimately show ?thesis using k(3-5) by simp
  next
    case False
    then show ?thesis by (simp add: readdir_def)
  qed
qed simp

section \<open>The reply a request owes\<close>

text \<open>
  \<open>rq_live\<close>: the kernel's request has not been replied to; \<open>rq_cancellation\<close>: 0, or the first cause.
  \<open>rq_replies\<close> are the replies sent, 0 for one that is no error.
\<close>

record request =
  rq_live :: bool
  rq_cancellation :: int
  rq_stopped :: bool
  rq_replies :: "int list"

definition request_new :: request where
  "request_new = \<lparr>rq_live = True, rq_cancellation = 0, rq_stopped = False, rq_replies = []\<rparr>"

definition cancel_request :: "int \<Rightarrow> request \<Rightarrow> request" where
  "cancel_request e r = r\<lparr>rq_cancellation := (if rq_cancellation r = 0 then e else rq_cancellation r), rq_stopped := True\<rparr>"

definition take_request :: "int \<Rightarrow> request \<Rightarrow> request" where
  "take_request answer r = r\<lparr>rq_live := False, rq_replies := rq_replies r @ [answer]\<rparr>"

definition reply_error :: "int \<Rightarrow> request \<Rightarrow> request" where
  "reply_error e r =
     (if \<not> rq_live r then r
      else take_request (if e = ECANCELED \<and> rq_cancellation r = EINTR then EINTR else e) r)"

text \<open>
  What happens to a request until its last owner lets it go: an interrupt of the kernel, which is
  unregistered once the request is taken; the shutdown of the mount; an error; a reply, which is
  made at most once and only to a request not replied to; and last its destruction.
\<close>

datatype request_event = Interrupt | Shutdown | Fails int | Replies

fun happen :: "request_event \<Rightarrow> request \<Rightarrow> request" where
  "happen Interrupt r = (if rq_live r then cancel_request EINTR r else r)"
| "happen Shutdown r = cancel_request ECANCELED r"
| "happen (Fails e) r = reply_error e r"
| "happen Replies r = (if rq_live r then take_request 0 r else r)"

definition destroy_request :: "request \<Rightarrow> request" where
  "destroy_request r = reply_error ECANCELED r"

definition request_run :: "request_event list \<Rightarrow> request \<Rightarrow> request" where
  "request_run evs r = destroy_request (fold happen evs r)"

definition request_ok :: "request \<Rightarrow> bool" where
  "request_ok r \<longleftrightarrow> (if rq_live r then rq_replies r = [] else length (rq_replies r) = 1)"

lemma request_event_ok: "request_ok r \<Longrightarrow> request_ok (happen ev r)"
  by (cases ev) (auto simp: request_ok_def cancel_request_def reply_error_def take_request_def)

lemma request_events_ok: "request_ok r \<Longrightarrow> request_ok (fold happen evs r)"
  by (induction evs arbitrary: r) (auto simp: request_event_ok)

end
