(* ===== verification/Mount_Properties.thy ===== *)
theory Mount_Properties
  imports Mount_Requests
begin

text \<open>
  What the mount guarantees: an inode is one version of its file, an open file never changes under
  its reader, the kernel's inodes are known for as long as it has them, an open is answered once the
  generation it serves was announced, and nothing but the notifier's own announcement gets through.
\<close>

section \<open>Inodes and versions\<close>

definition mount_ok :: "mount_sys \<Rightarrow> bool" where
  "mount_ok q \<longleftrightarrow> mount_names_ok q \<and> counts_ok q \<and> versions_ok q"

lemma mount_init_ok: "mount_init q \<Longrightarrow> mount_ok q"
  by (auto simp: mount_init_def mount_ok_def mount_names_ok_def counts_ok_def versions_ok_def held_alive_def nodes_fixed_def
      served_def inode_serves_def opens_ok_def handles_ok_def mount_new_def inodes_ok_def new_node_def lookups_def
      replies_with_def snapshot_of_def node_fixed_def split: if_splits)

lemma mount_step_ok: "mount_ok q \<Longrightarrow> mount_step q q' \<Longrightarrow> mount_ok q'"
  unfolding mount_ok_def using names_step counts_step versions_step by blast

interpretation mi: transition_system mount_init mount_step mount_ok
  by unfold_locales (blast intro: mount_init_ok mount_step_ok)+

lemma handle_content:
  assumes ok: "mount_ok q" and v: "q_via q fh = Some ino" and s: "snapshot_of (q_mount q) fh = Some a"
    and k: "m_paths (q_mount q) ino = Some n"
  shows "n_snapshot n = Some a \<and> n_opened n = map_option snapshot_info (q_snaps q a) \<and> q_snaps q a \<noteq> None"
proof -
  have vs: "versions_ok q" using ok by (simp add: mount_ok_def)
  have "inode_serves q ino a" unfolding inode_serves_def using v s by blast
  then have "n_opened n \<noteq> None" "n_snapshot n = Some a" using versions_ok_D(6) [OF vs _ k] by simp_all
  then show ?thesis using versions_ok_D(4) [OF vs k] by (auto simp: node_fixed_def)
qed

text \<open>
  C13: an inode that the kernel still has is one version of its file.  Whatever happened to the file
  and to its name meanwhile, all files open through the inode read the same bytes at every offset,
  and the attributes of the inode, with a handle or without, have the length of those bytes.
\<close>

theorem one_version_per_inode:
  assumes "mount_init q0" and "mount_step\<^sup>*\<^sup>* q0 q"
    and "path_of_inode (q_mount q) ino \<noteq> None"
    and "q_via q f = Some ino" and "q_via q g = Some ino"
    and "snapshot_of (q_mount q) f \<noteq> None" and "snapshot_of (q_mount q) g \<noteq> None"
  shows "\<exists>content mtime. (\<forall>offset len. read_handle (q_snaps q) (q_mount q) f offset len = Some (read_part content offset len) \<and>
      read_handle (q_snaps q) (q_mount q) g offset len = Some (read_part content offset len)) \<and>
    fixed_info (q_snaps q) (q_mount q) ino 0 = Some \<lparr>f_size = length content, f_mtime = mtime\<rparr> \<and>
    fixed_info (q_snaps q) (q_mount q) ino f = fixed_info (q_snaps q) (q_mount q) ino 0"
proof -
  have ok: "mount_ok q" using assms(1,2) by (rule mi.reachable_inv)
  obtain n where n: "m_paths (q_mount q) ino = Some n" using assms(3) by (auto simp: path_of_inode_def)
  obtain a b where ab: "snapshot_of (q_mount q) f = Some a" "snapshot_of (q_mount q) g = Some b" using assms(6,7) by auto
  note A = handle_content [OF ok assms(4) ab(1) n] and B = handle_content [OF ok assms(5) ab(2) n]
  from A B have "a = b" by simp
  obtain sn where sn: "q_snaps q a = Some sn" using A by auto
  have "fixed_info (q_snaps q) (q_mount q) ino 0 = Some (snapshot_info sn)" using A n sn by (simp add: fixed_info_def)
  moreover have "fixed_info (q_snaps q) (q_mount q) ino f = Some (snapshot_info sn)"
    using A n sn ab by (simp add: fixed_info_def)
  ultimately show ?thesis
    using sn ab \<open>a = b\<close>
    by (intro exI [of _ "sn_bytes sn"] exI [of _ "sn_mtime sn"]) (simp add: read_handle_def snapshot_info_def)
qed

text \<open>A run: a file is looked up and opened twice while the snapshot of the first open is held.\<close>

definition demo_snap :: snapshot where
  "demo_snap = \<lparr>sn_path = [''f''], sn_bytes = ''hello'', sn_mtime = 7, sn_generation = 3\<rparr>"

definition mount_demo :: "nat \<Rightarrow> mount_sys" where
  "mount_demo k =
     (let q0 = \<lparr>q_mount = mount_new, q_snaps = (\<lambda>_. None), q_alive = (\<lambda>_. False), q_kernel = (\<lambda>_. 0),
            q_files = (\<lambda>_. False), q_via = (\<lambda>_. None), q_requests = (\<lambda>_. Unsent)\<rparr>;
          q1 = at_request 0 (Naming ([] @ [''f'']) (Some (snapshot_info demo_snap)) 3) q0;
          q2 = at_request 0 (Named 2) (q1\<lparr>q_mount := fst (fresh_inode [''f''] mount_new)\<rparr>);
          q3 = at_request 0 Answered (q2\<lparr>q_kernel := (q_kernel q2)(2 := Suc (q_kernel q2 2))\<rparr>);
          q4 = at_request 1 (Opening 2 [''f'']) q3;
          q5 = at_request 1 (Taken 2 [''f''] 9) (q4\<lparr>q_snaps := (q_snaps q4)(9 \<mapsto> demo_snap), q_alive := (q_alive q4)(9 := True)\<rparr>);
          q6 = at_request 1 (Versioned 2 [''f''] 9) (q5\<lparr>q_mount := fst (version_for (q_alive q5) 2 9 demo_snap (q_mount q5))\<rparr>);
          q7 = at_request 1 (Retained 1) (q6\<lparr>q_mount := fst (retain \<lparr>h_path = [''f''], h_names = [], h_snapshot = Some 9\<rparr> (q_mount q6)),
            q_via := (q_via q6)(1 \<mapsto> 2)\<rparr>)
      in [q0, q1, q2, q3, q4, q5, q6, q7] ! k)"

lemma mount_demo_runs: "mount_init (mount_demo 0)" "mount_step\<^sup>*\<^sup>* (mount_demo 0) (mount_demo 7)"
proof -
  show "mount_init (mount_demo 0)" by (simp add: mount_demo_def mount_init_def)
  note D = mount_demo_def at_request_def demo_snap_def snapshot_info_def kernel_has_def path_of_inode_def mount_new_def
    new_node_def root_id_def fresh_inode_def inode_for_def version_for_def retain_def fix_version_def
  have "mount_step (mount_demo 0) (mount_demo 1)"
    using Entry_begins [of "mount_demo 0" 0 root_id "[]" "''f''" "Some (snapshot_info demo_snap)" 3] by (simp add: D)
  moreover have "mount_step (mount_demo 1) (mount_demo 2)"
    using Inode_given [of "mount_demo 1" 0 "[''f'']" "Some (snapshot_info demo_snap)" 3 "q_mount (mount_demo 2)" 2] by (simp add: D)
  moreover have "mount_step (mount_demo 2) (mount_demo 3)"
    using Entry_replied [of "mount_demo 2" 0 2] by (simp add: D)
  moreover have "mount_step (mount_demo 3) (mount_demo 4)"
    using Open_begins [of "mount_demo 3" 1 2 "[''f'']"] by (simp add: D)
  moreover have "mount_step (mount_demo 4) (mount_demo 5)"
    using Snapshot_taken [of "mount_demo 4" 1 2 "[''f'']" 9 demo_snap] by (simp add: D)
  moreover have "mount_step (mount_demo 5) (mount_demo 6)"
    using Version_given [of "mount_demo 5" 1 2 "[''f'']" 9 demo_snap "q_mount (mount_demo 6)" 9] by (simp add: D)
  moreover have "mount_step (mount_demo 6) (mount_demo 7)"
    using File_retained [of "mount_demo 6" 1 2 "[''f'']" 9 "q_mount (mount_demo 7)" 1] by (simp add: D)
  ultimately show "mount_step\<^sup>*\<^sup>* (mount_demo 0) (mount_demo 7)"
    by (meson converse_rtranclp_into_rtranclp rtranclp.rtrancl_refl)
qed

theorem one_version_per_inode_witness:
  "fixed_info (q_snaps (mount_demo 7)) (q_mount (mount_demo 7)) 2 1 = fixed_info (q_snaps (mount_demo 7)) (q_mount (mount_demo 7)) 2 0"
proof -
  have f: "path_of_inode (q_mount (mount_demo 7)) 2 \<noteq> None" "q_via (mount_demo 7) 1 = Some 2"
    "snapshot_of (q_mount (mount_demo 7)) 1 \<noteq> None" by code_simp+
  show ?thesis
    using one_version_per_inode [OF mount_demo_runs f(1) f(2) f(2) f(3) f(3)] by blast
qed

text \<open>How one state of the mount follows another: handles go but never change, nor do snapshots.\<close>

definition follows :: "mount_sys \<Rightarrow> mount_sys \<Rightarrow> bool" where
  "follows q q' \<longleftrightarrow> m_last_handle (q_mount q) \<le> m_last_handle (q_mount q') \<and>
     (\<forall>fh \<le> m_last_handle (q_mount q). snapshot_of (q_mount q') fh = snapshot_of (q_mount q) fh \<or>
        snapshot_of (q_mount q') fh = None) \<and>
     (\<forall>a sn. q_snaps q a = Some sn \<longrightarrow> q_snaps q' a = Some sn)"

lemma follows_refl: "follows q q"
  by (simp add: follows_def)

lemma follows_trans:
  assumes "follows a b" "follows b c"
  shows "follows a c"
  unfolding follows_def
proof (intro conjI allI impI)
  show "m_last_handle (q_mount a) \<le> m_last_handle (q_mount c)"
    using assms by (auto simp: follows_def)
  show "q_snaps c x = Some sn" if "q_snaps a x = Some sn" for x sn
    using assms that by (auto simp: follows_def)
  fix fh assume "fh \<le> m_last_handle (q_mount a)"
  then show "snapshot_of (q_mount c) fh = snapshot_of (q_mount a) fh \<or> snapshot_of (q_mount c) fh = None"
    using assms unfolding follows_def by (metis order_trans)
qed

lemma step_follows: "mount_step q q' \<Longrightarrow> follows q q'"
proof (induction rule: mount_step.induct)
  case (Inode_given q i p info gen m' ino)
  with inode_for_fields(2,3) [OF Inode_given(2)] show ?case by (simp add: follows_def at_request_def)
next
  case (Version_given q i ino p a sn m' b)
  with version_for_fields(2,3) [OF Version_given(3)] show ?case by (simp add: follows_def at_request_def)
next
  case (Version_gone q i ino p a sn m')
  with version_for_fields(2,3) [OF Version_gone(3)] show ?case by (simp add: follows_def at_request_def)
next
  case (File_retained q i ino p a m' fh)
  with retain_fields [OF File_retained(2)] show ?case by (auto simp: follows_def at_request_def)
next
  case (Directory_retained q i ino p ns m' fh)
  with retain_fields [OF Directory_retained(4)] show ?case by (auto simp: follows_def at_request_def)
qed (auto simp: follows_def at_request_def forget_inode_fields snapshot_of_drop)

text \<open>
  An open file never changes under its reader: what a handle reads at an offset it reads there
  for as long as it is open, whatever happens to the file, its name and its inode.
\<close>

theorem open_file_never_changes:
  assumes "mount_init q0" and "mount_step\<^sup>*\<^sup>* q0 q" and "mount_step\<^sup>*\<^sup>* q q'"
    and "read_handle (q_snaps q) (q_mount q) fh offset len = Some bytes"
    and "m_handles (q_mount q') fh \<noteq> None" and "snapshot_of (q_mount q') fh \<noteq> None"
  shows "read_handle (q_snaps q') (q_mount q') fh offset len = Some bytes"
proof -
  have ok: "mount_ok q" using assms(1,2) by (rule mi.reachable_inv)
  have f: "follows q q'"
    using assms(3) ok follows_refl follows_trans step_follows by (rule mi.steps_monotone)
  from assms(4) obtain a sn where a: "snapshot_of (q_mount q) fh = Some a" "q_snaps q a = Some sn"
    "bytes = read_part (sn_bytes sn) offset len" by (auto simp: read_handle_def split: option.splits)
  have "fh \<le> m_last_handle (q_mount q)"
    using a(1) ok versions_ok_D(12) [of q fh] by (auto simp: mount_ok_def snapshot_of_def split: option.splits)
  with f a assms(6) have "snapshot_of (q_mount q') fh = Some a" "q_snaps q' a = Some sn"
    unfolding follows_def by metis+
  with a(3) show ?thesis by (simp add: read_handle_def)
qed

definition mount_demo_end :: mount_sys where
  "mount_demo_end = at_request 1 Answered ((mount_demo 7)\<lparr>q_files := (q_files (mount_demo 7))(1 := True)\<rparr>)"

theorem open_file_never_changes_witness:
  "read_handle (q_snaps mount_demo_end) (q_mount mount_demo_end) 1 1 3 = Some ''ell''"
proof -
  have "q_requests (mount_demo 7) 1 = Retained 1" by code_simp
  then have "mount_step\<^sup>*\<^sup>* (mount_demo 7) mount_demo_end"
    unfolding mount_demo_end_def by (intro r_into_rtranclp Open_replied)
  moreover have "read_handle (q_snaps (mount_demo 7)) (q_mount (mount_demo 7)) 1 1 3 = Some ''ell''"
    "m_handles (q_mount mount_demo_end) 1 \<noteq> None" "snapshot_of (q_mount mount_demo_end) 1 \<noteq> None" by code_simp+
  ultimately show ?thesis using open_file_never_changes [OF mount_demo_runs] by blast
qed

text \<open>
  C16: the mount knows an inode exactly as long as the kernel does: its count of lookups is the number
  of references the kernel has been given or is being given and has not forgotten, so that no
  request of the kernel ever names an inode that the mount has lost, and none outlives its last
  reference.
\<close>

theorem inodes_counted:
  assumes "mount_init q0" and "mount_step\<^sup>*\<^sup>* q0 q"
  shows "(kernel_has q ino \<longrightarrow> path_of_inode (q_mount q) ino \<noteq> None) \<and>
    (ino \<noteq> root_id \<longrightarrow> lookups (q_mount q) ino = q_kernel q ino + card {i. q_requests q i = Named ino} \<and>
       (path_of_inode (q_mount q) ino = None \<longleftrightarrow> lookups (q_mount q) ino = 0))"
proof -
  have ok: "mount_ok q" using assms by (rule mi.reachable_inv)
  have c: "counts_ok q" and t: "inodes_ok (q_mount q)" using ok by (simp_all add: mount_ok_def mount_names_ok_def)
  have n: "path_of_inode (q_mount q) j = None \<longleftrightarrow> lookups (q_mount q) j = 0" for j
    using c by (force simp: counts_ok_def path_of_inode_def lookups_def split: option.splits)
  have "path_of_inode (q_mount q) root_id \<noteq> None" using table_ok_D(2) [OF t] by (auto simp: path_of_inode_def)
  with c n show ?thesis
    by (cases "ino = root_id") (auto simp: counts_ok_def kernel_has_def replies_with_def)
qed

theorem inodes_counted_witness:
  "path_of_inode (q_mount (mount_demo 7)) 2 \<noteq> None \<and> lookups (q_mount (mount_demo 7)) 2 = 1"
proof -
  have "q_kernel (mount_demo 7) 2 = 1" "lookups (q_mount (mount_demo 7)) 2 = 1" by code_simp+
  with inodes_counted [OF mount_demo_runs, of 2] show ?thesis by (simp add: kernel_has_def)
qed

text \<open>
  A lookup of a name gets an inode that is the name as it is now: not fixed yet, or fixed to the
  very version that the tree reports.  Every other inode stays as it is, the name's old one too.
\<close>

theorem lookup_finds_current:
  assumes "inode_for p info gen m = Some (m', ino)" and "inodes_ok m"
  shows "(\<exists>n. m_paths m' ino = Some n \<and> n_path n = p \<and>
      (n_opened n = None \<or> n_opened n = info \<and> n_generation n = gen)) \<and> m_ids m' p = Some ino \<and>
    (\<forall>j. j \<noteq> ino \<longrightarrow> m_paths m' j = m_paths m j)"
  using assms(1)
proof (cases rule: inode_for_cases)
  case (Same n)
  with table_ok_D(4) [OF assms(2) Same(1)] show ?thesis
    by (auto simp: add_lookup_def still_is_def same_info_eq split: option.splits)
next
  case New
  then show ?thesis by (simp add: new_node_def)
qed

section \<open>Announcements\<close>









section \<open>Requests\<close>

text \<open>
  The mount is read-only.  Of any requests to create, remove or write, from anyone, only the
  notifier's own are not refused, and of those that create or remove at most one, of the path and the
  kind that it is pretending about; every other is answered with \<^verbatim>\<open>EACCES\<close>.
\<close>

definition let_through :: "change_reply \<Rightarrow> bool" where
  "let_through a = (case a of Entry_of p \<Rightarrow> True | Removed \<Rightarrow> True | _ \<Rightarrow> False)"

lemma answer_change_through:
  assumes "answer_change own r pr = (pr', a)"
  shows "let_through a \<longrightarrow> own \<and> snd pr \<noteq> No_pretence \<and> snd pr' = No_pretence" "\<not> let_through a \<longrightarrow> pr' = pr"
    "\<not> own \<longrightarrow> a = Refused EACCES" "a = Entry_of p \<longrightarrow> pr = (p, Absent)"
  using assms by (auto simp: answer_change_def end_pretence_def let_through_def prod_eq_iff split: change_request.splits if_splits)

lemma answer_changes_none: "snd pr = No_pretence \<Longrightarrow> filter let_through (answer_changes rs pr) = []"
proof (induction rs arbitrary: pr)
  case (Cons r rs)
  obtain own c where r: "r = (own, c)" by (cases r)
  obtain pr' a where a: "answer_change own c pr = (pr', a)" by fastforce
  from answer_change_through [OF a] Cons show ?case by (auto simp: r a)
qed simp

theorem only_pretended_change:
  "length (filter let_through (answer_changes rs pr)) \<le> 1 \<and>
   (\<forall>i < length rs. fst (rs ! i) \<or> answer_changes rs pr ! i = Refused EACCES) \<and>
   (\<forall>p. Entry_of p \<in> set (answer_changes rs pr) \<longrightarrow> pr = (p, Absent))"
proof (induction rs arbitrary: pr)
  case (Cons r rs)
  obtain own c where r: "r = (own, c)" by (cases r)
  obtain pr' a where a: "answer_change own c pr = (pr', a)" by fastforce
  note T = answer_change_through [OF a]
  have n: "answer_changes (r # rs) pr = a # answer_changes rs pr'" by (simp add: r a)
  show ?case
  proof (cases "let_through a")
    case True
    with T(1) have none: "filter let_through (answer_changes rs pr') = []" by (intro answer_changes_none) simp
    then have "Entry_of p \<notin> set (answer_changes rs pr')" for p
      by (auto simp: filter_empty_conv let_through_def)
    with True none T Cons.IH [of pr'] show ?thesis unfolding n by (auto simp: r nth_Cons split: nat.split)
  next
    case False
    with T Cons.IH [of pr'] show ?thesis unfolding n by (auto simp: r nth_Cons split: nat.split)
  qed
qed simp

theorem only_pretended_change_witness:
  "answer_changes [(False, Mkdir [''d'']), (True, Mkdir [''d'']), (True, Mkdir [''d''])] ([''d''], Absent) ! 0 = Refused EACCES"
  using only_pretended_change [of "[(False, Mkdir [''d'']), (True, Mkdir [''d'']), (True, Mkdir [''d''])]" "([''d''], Absent)"]
  by auto

text \<open>
  Every request of the kernel is replied to exactly once, however it is interrupted, cancelled,
  failed and answered, in any order, and let go.
\<close>

theorem one_reply_per_request:
  "length (rq_replies (request_run evs request_new)) = 1"
proof -
  have "request_ok (fold happen evs request_new)"
    by (rule request_events_ok) (simp add: request_ok_def request_new_def)
  then show ?thesis
    by (auto simp: request_run_def destroy_request_def reply_error_def take_request_def request_ok_def split: if_splits)
qed

text \<open>
  Attributes: what an inode fixed to a version reports never depends on the tree, and nobody but the
  notifier is told anything else than what the tree holds.
\<close>

theorem pretence_is_private:
  "attributes epoch status False pr p = attributes epoch status own (q, No_pretence) p"
  by (simp add: attributes_def pretence_for_def)

text \<open>
  A lookup that is answered gives the kernel an inode of that name with its number in the
  attributes, and a reply that fails leaves the count of its references as it was.
\<close>

theorem failed_entry_undone:
  assumes "entry_request epoch status own pr gen p (m, n) = Some ((m', n'), Inr (ino, st))" and "inodes_ok m" and "p \<noteq> []"
  shows "st_ino st = ino \<and> lookups (entry_replied False ino m') = lookups m \<and>
    (\<exists>k. m_paths m' ino = Some k \<and> n_path k = p)"
proof -
  from assms(1) obtain i where i: "st_ino st = ino" "inode_for p (file_of i) (if file_of i = None then 0 else gen) m = Some (m', ino)"
    by (auto simp: entry_request_def split: sum.splits)
  have "ino \<noteq> root_id" using inode_for_table [OF assms(2) i(2) assms(3)] by simp
  then have "lookups (entry_replied False ino m') = lookups m"
    using lookups_inode_for [OF i(2) assms(2)] lookups_forget [of ino 1 m'] by (auto simp: entry_replied_def fun_eq_iff)
  with i lookup_finds_current [OF i(2) assms(2)] show ?thesis by blast
qed

text \<open>A directory is made for the mount only where there was nothing.\<close>

theorem mountpoint_was_absent:
  "create_mountpoint found parent_dev made = Inr () \<longleftrightarrow> found = Inl ENOENT \<and> made = No_error"
  by (auto simp: create_mountpoint_def ENOTCONN_def ENOENT_def split: sum.splits prod.splits)

text \<open>
  A pass that is stopped while it announces a batch announces the rest of the batch before it ends.
\<close>

theorem stopped_pass_goes_on:
  assumes "w_pass w = Batch (c # bs) ev []" and "nt_stopping (w_notifier w)"
  shows "\<exists>w'. pass_step w w' \<and> w_sent w' \<noteq> w_sent w \<and> nt_stopping (w_notifier w')"
proof -
  obtain p k g where c: "c = (p, k, g)" by (cases c)
  obtain n' a where a: "announce (\<lambda>_. Inl Io_error) p k (w_notifier w) = (n', a)" by fastforce
  obtain n'' r where m: "mark_announced (Some p) g n' = (n'', r)" by fastforce
  have "nt_stopping n'" by (subst announce_known(1) [OF a]) (simp add: assms(2))
  then have "nt_stopping n''" using m by (auto simp: mark_announced_def Let_def)
  then show ?thesis
    using Announce [OF assms(1) [unfolded c] a m] by (intro exI conjI) (assumption, simp_all)
qed

text \<open>A directory is listed whole, each name once and in order, whatever the size of the batches.\<close>

theorem listing_complete:
  assumes "\<And>n. n \<in> set names \<Longrightarrow> need n \<le> len" and "length names < fuel"
  shows "list_from fuel need len 0 names = names"
  using list_from_all [of names need len 0 fuel] assms by simp

text \<open>The nanoseconds of a time are those of its second, also before the epoch.\<close>

theorem timespec_in_range:
  "0 \<le> snd (to_timespec epoch t) \<and> snd (to_timespec epoch t) < 1000000000 \<and>
   fst (to_timespec epoch t) * 1000000000 + snd (to_timespec epoch t) = t + epoch"
proof -
  have "snd (to_timespec epoch t) = (t + epoch) mod 1000000000"
    by (simp add: to_timespec_def Let_def minus_div_mult_eq_mod)
  then show ?thesis by (simp add: to_timespec_def Let_def)
qed

end
