(* ===== verification/Process_Tracker.thy ===== *)
theory Process_Tracker
  imports Paths "HOL-Library.Word"
begin

text \<open>
  Which build a process belongs to (\<^verbatim>\<open>src/osbuildprocesstracker-linux.cpp\<close>, and
  \<^verbatim>\<open>src/processinfo-linux.cpp\<close>): the records of the commands that run, and the climb_parents from the
  thread that asks up its parents to one of them, through the text of \<^verbatim>\<open>/proc\<close>.  That text is a
  parameter, of each moment, since processes come and go between two looks; what the kernel documents
  of its format is a hypothesis, \<open>shows\<close>.
\<close>

section \<open>Reading text as the standard library does\<close>

definition white :: "char \<Rightarrow> bool" where
  "white c \<longleftrightarrow> c \<in> set [CHR '' '', CHR 0x09, CHR 0x0A, CHR 0x0B, CHR 0x0C, CHR 0x0D]"

definition is_digit :: "char \<Rightarrow> bool" where
  "is_digit c \<longleftrightarrow> c \<in> set ''0123456789''"

definition digit_value :: "char \<Rightarrow> nat" where
  "digit_value c = of_char c - 48"

definition number :: "string \<Rightarrow> nat" where
  "number ds = foldl (\<lambda>n c. 10 * n + digit_value c) 0 ds"

text \<open>The sign, if there is one, and what follows it.\<close>

definition signed :: "string \<Rightarrow> bool \<times> string" where
  "signed s = (case s of [] \<Rightarrow> (False, []) | c # cs \<Rightarrow>
     if c = CHR ''-'' then (True, cs) else if c = CHR ''+'' then (False, cs) else (False, s))"

text \<open>A stream of which an extraction has failed is \<open>None\<close>: every later extraction fails, too.\<close>

type_synonym stream = "string option"

definition get_word :: "stream \<Rightarrow> stream" where
  "get_word st =
     (case st of
        None \<Rightarrow> None
      | Some s \<Rightarrow> (let u = dropWhile white s in if u = [] then None else Some (dropWhile (\<lambda>c. \<not> white c) u)))"

text \<open>The value is 0 if there is no number, and the largest one if the number does not fit.\<close>

definition get_unsigned :: "stream \<Rightarrow> 'a::len word \<times> stream" where
  "get_unsigned st =
     (case st of
        None \<Rightarrow> (0, None)
      | Some s \<Rightarrow>
          (case signed (dropWhile white s) of
             (neg, v) \<Rightarrow>
               (let ds = takeWhile is_digit v; n = number ds
                in if ds = [] then (0, None)
                   else if 2 ^ LENGTH('a) \<le> n then (- 1, None)
                   else (if neg then - of_nat n else of_nat n, Some (dropWhile is_digit v)))))"

definition strtoul :: "string \<Rightarrow> 64 word" where
  "strtoul s =
     (case signed (dropWhile white s) of
        (neg, v) \<Rightarrow>
          (let n = number (takeWhile is_digit v)
           in if 2 ^ 64 \<le> n then - 1 else if neg then - of_nat n else of_nat n))"

text \<open>What \<^verbatim>\<open>getline\<close> gives until it fails.\<close>

definition lines_of :: "string \<Rightarrow> string list" where
  "lines_of s = (let ls = split_on (CHR 0x0A) s in if last ls = [] then butlast ls else ls)"

definition after_last :: "char \<Rightarrow> string \<Rightarrow> string option" where
  "after_last c s = (if c \<in> set s then Some (rev (takeWhile (\<lambda>x. x \<noteq> c) (rev s))) else None)"

section \<open>\<^verbatim>\<open>/proc\<close>\<close>

record proc_stat =
  ps_parent :: "32 word"
  ps_start_time :: "64 word"

definition read_proc :: "(string \<Rightarrow> string expected) \<Rightarrow> string \<Rightarrow> string expected" where
  "read_proc proc path =
     (case proc path of
        Inl No_such_file_or_directory \<Rightarrow> Inl No_such_process
      | r \<Rightarrow> r)"

definition parse_stat :: "string \<Rightarrow> proc_stat expected" where
  "parse_stat line =
     (case after_last (CHR '')'') line of
        None \<Rightarrow> Inl Bad_message
      | Some rest \<Rightarrow>
          (case get_unsigned (get_word (Some rest)) of
             (parent, st) \<Rightarrow>
               (case get_unsigned ((get_word ^^ 17) st) of
                  (start_time, st') \<Rightarrow>
                    if st' = None then Inl Bad_message
                    else Inr \<lparr>ps_parent = parent, ps_start_time = start_time\<rparr>)))"

definition stat_of :: "(string \<Rightarrow> string expected) \<Rightarrow> 32 word \<Rightarrow> proc_stat expected" where
  "stat_of proc pid =
     (case read_proc proc (decimal (unat pid) @ ''/stat'') of
        Inl e \<Rightarrow> Inl e
      | Inr line \<Rightarrow> parse_stat line)"

fun tgid_in :: "string list \<Rightarrow> 32 word expected" where
  "tgid_in [] = Inl Bad_message"
| "tgid_in (l # ls) = (if starts_with l ''Tgid:'' then Inr (ucast (strtoul (drop 5 l))) else tgid_in ls)"

definition process_of :: "(string \<Rightarrow> string expected) \<Rightarrow> 32 word \<Rightarrow> 32 word expected" where
  "process_of proc thread =
     (case read_proc proc (decimal (unat thread) @ ''/status'') of
        Inl e \<Rightarrow> Inl e
      | Inr contents \<Rightarrow> tgid_in (lines_of contents))"

text \<open>The field of \<^verbatim>\<open>processinfo-linux.cpp\<close>, without the blanks before it; a field that is blank is passed over.\<close>

fun field_in :: "string \<Rightarrow> string list \<Rightarrow> string option" where
  "field_in field [] = None"
| "field_in field (l # ls) =
     (if \<not> starts_with l field then field_in field ls
      else (let v = dropWhile (\<lambda>c. c = CHR '' '' \<or> c = CHR 0x09) (drop (length field) l)
            in if v = [] then field_in field ls else Some v))"

definition read_proc_status :: "(string \<Rightarrow> string expected) \<Rightarrow> 32 word \<Rightarrow> string \<Rightarrow> string option" where
  "read_proc_status proc pid field =
     field_in field (lines_of (case proc (decimal (unat pid) @ ''/status'') of Inl e \<Rightarrow> [] | Inr c \<Rightarrow> c))"

definition name_of :: "(string \<Rightarrow> string expected) \<Rightarrow> 32 word \<Rightarrow> string" where
  "name_of proc pid = (case read_proc_status proc pid ''Name:'' of None \<Rightarrow> ''unknown'' | Some n \<Rightarrow> n)"

text \<open>The same of the mount (\<^verbatim>\<open>virtualfilesystem-linux.cpp\<close>), which passes over a blank field and remembers its answers.\<close>

definition process_of_thread :: "(string \<Rightarrow> string expected) \<Rightarrow> 32 word \<Rightarrow> 32 word expected" where
  "process_of_thread proc thread =
     (case proc (decimal (unat thread) @ ''/status'') of
        Inl e \<Rightarrow> Inl e
      | Inr contents \<Rightarrow>
          (case field_in ''Tgid:'' (lines_of contents) of
             None \<Rightarrow> Inl Bad_message
           | Some v \<Rightarrow> Inr (ucast (strtoul v))))"

definition process_of_caller :: "(string \<Rightarrow> string expected) \<Rightarrow> 32 word \<Rightarrow> (32 word \<Rightarrow> 32 word option) \<Rightarrow>
    (32 word \<Rightarrow> 32 word option) \<times> 32 word" where
  "process_of_caller proc thread processes =
     (case processes thread of
        Some p \<Rightarrow> (processes, p)
      | None \<Rightarrow>
          (case process_of_thread proc thread of
             Inr p \<Rightarrow> (processes(thread \<mapsto> p), p)
           | Inl e \<Rightarrow>
               if e \<noteq> No_such_file_or_directory \<and> e \<noteq> No_such_process then (processes, thread)
               else (processes(thread \<mapsto> thread), thread)))"

section \<open>The tracker\<close>

record tracked_process =
  tp_output :: "string list"
  tp_pid :: "32 word"
  tp_start_time :: "64 word"

record tracker =
  tk_last_token :: "64 word"
  tk_records :: "64 word \<Rightarrow> tracked_process option"

definition tracker_new :: tracker where
  "tracker_new = \<lparr>tk_last_token = 0, tk_records = (\<lambda>_. None)\<rparr>"

definition k_max_depth :: nat where
  "k_max_depth = 4096"

text \<open>\<open>signalled\<close> is the errno of the empty signal to the pidfd, 0 if it was sent.\<close>

definition track :: "(string \<Rightarrow> string expected) \<Rightarrow> int \<Rightarrow> string list \<Rightarrow> 32 word \<Rightarrow> int \<Rightarrow> tracker \<Rightarrow>
    tracker \<times> 64 word expected" where
  "track proc signalled output pid pidfd t =
     (case stat_of proc pid of
        Inl e \<Rightarrow> (t, Inl e)
      | Inr st \<Rightarrow>
          if 0 \<le> pidfd \<and> signalled \<noteq> 0 then (t, Inl (System_error signalled))
          else (let token = tk_last_token t + 1;
                    r = \<lparr>tp_output = output, tp_pid = pid, tp_start_time = ps_start_time st\<rparr>
                in (t\<lparr>tk_last_token := token,
                      tk_records := (if tk_records t token = None then (tk_records t)(token \<mapsto> r) else tk_records t)\<rparr>,
                    Inr token)))"

definition untrack :: "64 word \<Rightarrow> tracker \<Rightarrow> tracker" where
  "untrack token t = t\<lparr>tk_records := (tk_records t)(token := None)\<rparr>"

text \<open>The first record of the process in the order that the map is iterated in.\<close>

definition tracked_as :: "(64 word \<Rightarrow> tracked_process option) \<Rightarrow> 32 word \<Rightarrow> 64 word \<Rightarrow> 64 word \<Rightarrow> bool" where
  "tracked_as recs pid start token =
     (case recs token of None \<Rightarrow> False | Some r \<Rightarrow> tp_pid r = pid \<and> tp_start_time r = start)"

definition output_tracked :: "64 word list \<Rightarrow> (64 word \<Rightarrow> tracked_process option) \<Rightarrow> 32 word \<Rightarrow> 64 word \<Rightarrow> string list option" where
  "output_tracked tokens recs pid start =
     (case filter (tracked_as recs pid start) tokens of [] \<Rightarrow> None | k # ks \<Rightarrow> map_option tp_output (recs k))"

text \<open>
  A moment is what \<^verbatim>\<open>/proc\<close> and the tracker hold when \<open>find\<close> looks: first at the tracker, then at
  the thread, then in turn at a process and at the tracker.
\<close>

record moment =
  mo_proc :: "string \<Rightarrow> string expected"
  mo_tokens :: "64 word list"
  mo_records :: "64 word \<Rightarrow> tracked_process option"

fun climb_parents :: "32 word \<Rightarrow> (nat \<Rightarrow> moment) \<Rightarrow> nat \<Rightarrow> nat \<Rightarrow> 32 word \<Rightarrow> string list option" where
  "climb_parents self now 0 i pid = None"
| "climb_parents self now (Suc depth) i pid =
     (if pid \<le> 1 \<or> pid = self then None
      else (case stat_of (mo_proc (now i)) pid of
              Inl e \<Rightarrow> None
            | Inr st \<Rightarrow>
                (case output_tracked (mo_tokens (now (Suc i))) (mo_records (now (Suc i))) pid (ps_start_time st) of
                   Some out \<Rightarrow> Some out
                 | None \<Rightarrow> climb_parents self now depth (Suc (Suc i)) (ps_parent st))))"

definition find_output :: "32 word \<Rightarrow> (nat \<Rightarrow> moment) \<Rightarrow> 32 word \<Rightarrow> string list option" where
  "find_output self now requester =
     (if mo_tokens (now 0) = [] then None
      else (case process_of (mo_proc (now 1)) requester of
              Inl e \<Rightarrow> None
            | Inr pid \<Rightarrow> climb_parents self now k_max_depth 2 pid))"

text \<open>The tracker that is always empty (\<^verbatim>\<open>BuildProcessTracker::none\<close>).\<close>

definition none_add :: "string list \<Rightarrow> 32 word \<Rightarrow> 64 word expected" where
  "none_add output pid = Inr 0"

definition none_find :: "32 word \<Rightarrow> string list option" where
  "none_find requester = None"

section \<open>The documented format\<close>

record process =
  pr_name :: string
  pr_state :: string
  pr_parent :: "32 word"
  pr_fields :: "string list"
  pr_start :: "64 word"
  pr_rest :: string

definition stat_line :: "32 word \<Rightarrow> process \<Rightarrow> string" where
  "stat_line pid p = decimal (unat pid) @ '' ('' @ pr_name p @ '') '' @ pr_state p @ '' '' @ decimal (unat (pr_parent p)) @
     concat (map (\<lambda>f. '' '' @ f) (pr_fields p)) @ '' '' @ decimal (unat (pr_start p)) @ pr_rest p"

definition is_word :: "string \<Rightarrow> bool" where
  "is_word s \<longleftrightarrow> s \<noteq> [] \<and> (\<forall>c \<in> set s. \<not> white c \<and> c \<noteq> CHR '')'')"

text \<open>The name of the command may be anything, spaces and parentheses included.\<close>

definition process_ok :: "process \<Rightarrow> bool" where
  "process_ok p \<longleftrightarrow> is_word (pr_state p) \<and> length (pr_fields p) = 17 \<and> (\<forall>f \<in> set (pr_fields p). is_word f) \<and>
     CHR '')'' \<notin> set (pr_rest p) \<and> (pr_rest p = [] \<or> \<not> is_digit (hd (pr_rest p)))"

section \<open>Numbers are read back\<close>

lemma digit_cases: "d < 10 \<Longrightarrow> d \<in> {0, 1, 2, 3, 4, 5, 6, 7, 8, 9::nat}"
  by auto

lemma digit_facts:
  assumes "d < 10"
  shows "is_digit (digit d)" "digit_value (digit d) = d" "\<not> white (digit d)" "digit d \<noteq> CHR '')''"
    "digit d \<noteq> CHR ''-''" "digit d \<noteq> CHR ''+''"
  using digit_cases [OF assms] by (auto simp: digit_def is_digit_def digit_value_def white_def)

lemma number_snoc: "number (ds @ [c]) = 10 * number ds + digit_value c"
  by (simp add: number_def)

lemma decimal_step: "decimal n = (if 10 \<le> n then decimal (n div 10) @ [digit (n mod 10)] else [digit (n mod 10)])"
  by (subst decimal.simps) (simp add: Let_def)

lemma decimal_digits: "c \<in> set (decimal n) \<Longrightarrow> \<exists>d < 10. c = digit d"
proof (induction n rule: decimal.induct)
  case (1 n)
  have m: "n mod 10 < 10" by simp
  show ?case
  proof (cases "10 \<le> n \<and> c \<in> set (decimal (n div 10))")
    case True
    with 1(1) [OF refl] show ?thesis by blast
  next
    case False
    with 1(2) have "c = digit (n mod 10)" unfolding decimal_step [of n] by (auto split: if_splits)
    with m show ?thesis by blast
  qed
qed

lemma decimal_chars:
  assumes "c \<in> set (decimal n)"
  shows "is_digit c" "\<not> white c" "c \<noteq> CHR '')''" "c \<noteq> CHR ''-''" "c \<noteq> CHR ''+''"
proof -
  obtain d where "d < 10" "c = digit d" using decimal_digits [OF assms] by blast
  with digit_facts [of d] show "is_digit c" "\<not> white c" "c \<noteq> CHR '')''" "c \<noteq> CHR ''-''" "c \<noteq> CHR ''+''" by simp_all
qed

lemma decimal_nonempty: "decimal n \<noteq> []"
  by (subst decimal_step) simp

lemma number_decimal: "number (decimal n) = n"
proof (induction n rule: decimal.induct)
  case (1 n)
  have v: "digit_value (digit (n mod 10)) = n mod 10" by (rule digit_facts(2)) simp
  show ?case
  proof (cases "10 \<le> n")
    case True
    with 1 [OF refl True] v show ?thesis unfolding decimal_step [of n] by (simp add: number_snoc)
  next
    case False
    with v show ?thesis unfolding decimal_step [of n] by (simp add: number_def)
  qed
qed

lemma takeWhile_decimal:
  assumes "rest = [] \<or> \<not> is_digit (hd rest)"
  shows "takeWhile is_digit (decimal n @ rest) = decimal n" "dropWhile is_digit (decimal n @ rest) = rest"
proof -
  have d: "is_digit c" if "c \<in> set (decimal n)" for c using decimal_chars(1) [OF that] .
  show "takeWhile is_digit (decimal n @ rest) = decimal n"
    using d assms by (cases rest) (simp_all add: takeWhile_append2)
  show "dropWhile is_digit (decimal n @ rest) = rest"
    using d assms by (cases rest) (simp_all add: dropWhile_append2)
qed

lemma signed_decimal: "signed (decimal n @ rest) = (False, decimal n @ rest)"
proof -
  obtain c cs where c: "decimal n = c # cs" using decimal_nonempty by (cases "decimal n") auto
  then have "c \<in> set (decimal n)" by simp
  note decimal_chars(4,5) [OF this]
  with c show ?thesis by (simp add: signed_def)
qed

lemma dropWhile_white_decimal: "dropWhile white (decimal n @ rest) = decimal n @ rest"
proof -
  obtain c cs where c: "decimal n = c # cs" using decimal_nonempty by (cases "decimal n") auto
  then have "c \<in> set (decimal n)" by simp
  note decimal_chars(2) [OF this]
  with c show ?thesis by simp
qed

lemma white_space: "white (CHR '' '')"
  by (simp add: white_def)

lemma get_unsigned_decimal:
  assumes "rest = [] \<or> \<not> is_digit (hd rest)"
  shows "get_unsigned (Some ('' '' @ decimal (unat (w :: 'a::len word)) @ rest)) = (w, Some rest)"
proof -
  have "\<not> 2 ^ LENGTH('a) \<le> unat w" using unsigned_less [of w] by (simp add: not_le)
  then show ?thesis
    using takeWhile_decimal [OF assms] decimal_nonempty
    by (simp add: get_unsigned_def white_space dropWhile_white_decimal signed_decimal number_decimal Let_def)
qed

lemma strtoul_decimal:
  assumes "rest = [] \<or> \<not> is_digit (hd rest)" and "n < 2 ^ 64"
  shows "strtoul (CHR 0x09 # decimal n @ rest) = of_nat n"
proof -
  have "white (CHR 0x09)" by (simp add: white_def)
  then show ?thesis
    using takeWhile_decimal [OF assms(1)] assms(2)
    by (simp add: strtoul_def dropWhile_white_decimal signed_decimal number_decimal Let_def)
qed

lemma get_word_word:
  assumes "is_word w" and "rest = [] \<or> white (hd rest)"
  shows "get_word (Some ('' '' @ w @ rest)) = Some rest"
proof -
  have w: "\<not> white c" if "c \<in> set w" for c using assms(1) that by (simp add: is_word_def)
  have ne: "w \<noteq> []" using assms(1) by (simp add: is_word_def)
  then have "dropWhile white (w @ rest) = w @ rest" using w by (cases w) simp_all
  moreover have "dropWhile (\<lambda>c. \<not> white c) (w @ rest) = rest"
    using w assms(2) by (cases rest) (simp_all add: dropWhile_append2)
  ultimately show ?thesis using ne by (simp add: get_word_def white_space Let_def)
qed

lemma get_words:
  assumes "\<And>f. f \<in> set fs \<Longrightarrow> is_word f"
  shows "(get_word ^^ length fs) (Some (concat (map (\<lambda>f. '' '' @ f) fs) @ '' '' @ rest)) = Some ('' '' @ rest)"
  using assms
proof (induction fs)
  case (Cons f fs)
  let ?r = "concat (map (\<lambda>f. '' '' @ f) fs) @ '' '' @ rest"
  have hd: "white (hd ?r)" by (cases fs) (simp_all add: white_space)
  have "get_word (Some ('' '' @ f @ ?r)) = Some ?r" by (rule get_word_word) (use Cons.prems hd in auto)
  with Cons show ?case by (simp add: funpow_swap1)
qed simp

lemma after_last_append:
  assumes "c \<notin> set s"
  shows "after_last c (p @ c # s) = Some s"
proof -
  have t: "takeWhile (\<lambda>x. x \<noteq> c) (rev s) = rev s" using assms by (auto simp: takeWhile_eq_all_conv)
  show ?thesis by (simp add: after_last_def takeWhile_tail t)
qed

text \<open>The line of a process is read back, whatever its command is called.\<close>

lemma parse_stat_line:
  assumes "process_ok p"
  shows "parse_stat (stat_line pid p) = Inr \<lparr>ps_parent = pr_parent p, ps_start_time = pr_start p\<rparr>"
proof -
  let ?start = "'' '' @ decimal (unat (pr_start p)) @ pr_rest p"
  let ?fields = "concat (map (\<lambda>f. '' '' @ f) (pr_fields p))"
  let ?tail = "'' '' @ pr_state p @ '' '' @ decimal (unat (pr_parent p)) @ ?fields @ ?start"
  note ok = assms [unfolded process_ok_def]
  have num: "CHR '')'' \<notin> set (decimal n)" for n using decimal_chars(3) by blast
  have "CHR '')'' \<notin> set (pr_state p)" "\<And>f. f \<in> set (pr_fields p) \<Longrightarrow> CHR '')'' \<notin> set f"
    using ok by (auto simp: is_word_def)
  then have none: "CHR '')'' \<notin> set ?tail" using ok num by auto
  have line: "stat_line pid p = (decimal (unat pid) @ '' ('' @ pr_name p) @ CHR '')'' # ?tail"
    by (simp add: stat_line_def)
  have last: "after_last (CHR '')'') (stat_line pid p) = Some ?tail"
    unfolding line by (rule after_last_append [OF none])
  have s1: "get_word (Some ?tail) = Some ('' '' @ decimal (unat (pr_parent p)) @ ?fields @ ?start)"
    by (rule get_word_word) (use ok in \<open>simp_all add: white_space\<close>)
  have nd: "\<not> is_digit (hd (?fields @ ?start))"
    by (cases "pr_fields p") (simp_all add: is_digit_def)
  have s2: "get_unsigned (Some ('' '' @ decimal (unat (pr_parent p)) @ ?fields @ ?start)) = (pr_parent p, Some (?fields @ ?start))"
    by (rule get_unsigned_decimal) (use nd in blast)
  have "(get_word ^^ length (pr_fields p)) (Some (?fields @ '' '' @ decimal (unat (pr_start p)) @ pr_rest p)) = Some ?start"
    by (rule get_words) (use ok in blast)
  then have s3: "(get_word ^^ 17) (Some (?fields @ ?start)) = Some ?start" using ok by simp
  have s4: "get_unsigned (Some ?start) = (pr_start p, Some (pr_rest p))"
    by (rule get_unsigned_decimal) (use ok in blast)
  show ?thesis unfolding parse_stat_def last option.case s1 s2 prod.case s3 s4 by simp
qed

end
