(* ===== verification/Tracker_Properties.thy ===== *)
theory Tracker_Properties
  imports Process_Tracker
begin

text \<open>
  What the process tracker finds, over processes rather than over the text of \<^verbatim>\<open>/proc\<close>: the nearest
  ancestor that is tracked, told apart from a later process of the same id by its start time.
\<close>

section \<open>Processes at a moment\<close>

text \<open>
  The threads of a moment, each with the lines before that of its process and what comes after it.
\<close>

record processes =
  all_processes :: "32 word \<Rightarrow> process option"
  all_threads :: "32 word \<Rightarrow> (string list \<times> 32 word \<times> string) option"

definition status_text :: "string list \<times> 32 word \<times> string \<Rightarrow> string" where
  "status_text st = (case st of (before, tgid, after) \<Rightarrow>
     concat (map (\<lambda>l. l @ [CHR 0x0A]) before) @ ''Tgid:'' @ CHR 0x09 # decimal (unat tgid) @ CHR 0x0A # after)"

definition thread_ok :: "string list \<times> 32 word \<times> string \<Rightarrow> bool" where
  "thread_ok st \<longleftrightarrow> (\<forall>l \<in> set (fst st). CHR 0x0A \<notin> set l \<and> \<not> starts_with l ''Tgid:'')"

text \<open>What the kernel documents: the files of the processes and threads that there are, and no others.\<close>

definition shows_processes :: "(string \<Rightarrow> string expected) \<Rightarrow> processes \<Rightarrow> bool" where
  "shows_processes proc ps \<longleftrightarrow>
     (\<forall>pid. proc (decimal (unat pid) @ ''/stat'') =
        (case all_processes ps pid of None \<Rightarrow> Inl No_such_file_or_directory | Some p \<Rightarrow> Inr (stat_line pid p))) \<and>
     (\<forall>tid. proc (decimal (unat tid) @ ''/status'') =
        (case all_threads ps tid of None \<Rightarrow> Inl No_such_file_or_directory | Some st \<Rightarrow> Inr (status_text st))) \<and>
     (\<forall>pid p. all_processes ps pid = Some p \<longrightarrow> process_ok p) \<and>
     (\<forall>tid st. all_threads ps tid = Some st \<longrightarrow> thread_ok st)"

lemma stat_of_shown:
  assumes "shows_processes proc ps"
  shows "stat_of proc pid =
    (case all_processes ps pid of
       None \<Rightarrow> Inl No_such_process
     | Some p \<Rightarrow> Inr \<lparr>ps_parent = pr_parent p, ps_start_time = pr_start p\<rparr>)"
proof -
  have "proc (decimal (unat pid) @ ''/stat'') =
      (case all_processes ps pid of None \<Rightarrow> Inl No_such_file_or_directory | Some p \<Rightarrow> Inr (stat_line pid p))"
    using assms by (simp add: shows_processes_def)
  moreover have "process_ok p" if "all_processes ps pid = Some p" for p
    using assms that by (simp add: shows_processes_def)
  ultimately show ?thesis
    by (cases "all_processes ps pid") (simp_all add: stat_of_def read_proc_def parse_stat_line)
qed

lemma split_lines:
  assumes "\<And>l. l \<in> set ls \<Longrightarrow> CHR 0x0A \<notin> set l"
  shows "split_on (CHR 0x0A) (concat (map (\<lambda>l. l @ [CHR 0x0A]) ls) @ s) = ls @ split_on (CHR 0x0A) s"
  using assms by (induction ls) (simp_all add: split_on_append)

lemma tgid_in_found:
  assumes "\<And>l. l \<in> set before \<Longrightarrow> \<not> starts_with l ''Tgid:''"
  shows "tgid_in (before @ (''Tgid:'' @ v) # after) = Inr (ucast (strtoul v))"
  using assms by (induction before) (simp_all add: starts_with_def)

lemma process_of_shown:
  assumes "shows_processes proc ps"
  shows "process_of proc tid =
    (case all_threads ps tid of None \<Rightarrow> Inl No_such_process | Some st \<Rightarrow> Inr (fst (snd st)))"
proof (cases "all_threads ps tid")
  case None
  then have "proc (decimal (unat tid) @ ''/status'') = Inl No_such_file_or_directory"
    using assms by (simp add: shows_processes_def)
  with None show ?thesis by (simp add: process_of_def read_proc_def)
next
  case (Some st)
  obtain before tgid after where st: "st = (before, tgid, after)" by (cases st) auto
  have ok: "\<And>l. l \<in> set before \<Longrightarrow> CHR 0x0A \<notin> set l \<and> \<not> starts_with l ''Tgid:''"
    using assms Some by (force simp: shows_processes_def thread_ok_def st)
  have f: "proc (decimal (unat tid) @ ''/status'') = Inr (status_text st)"
    using assms Some by (simp add: shows_processes_def)
  let ?v = "CHR 0x09 # decimal (unat tgid)"
  have nl: "CHR 0x0A \<notin> set (''Tgid:'' @ ?v)"
    using decimal_chars(2) [of "CHR 0x0A" "unat tgid"] by (auto simp: white_def)
  have sp: "split_on (CHR 0x0A) (status_text st) = before @ (''Tgid:'' @ ?v) # split_on (CHR 0x0A) after"
    using split_lines [of before "(''Tgid:'' @ ?v) @ CHR 0x0A # after"] ok split_on_append [OF nl, of after]
    by (simp add: status_text_def st)
  obtain ls where "lines_of (status_text st) = before @ (''Tgid:'' @ ?v) # ls"
  proof (cases "last (split_on (CHR 0x0A) after) = []")
    case True
    with that [of "butlast (split_on (CHR 0x0A) after)"] show ?thesis
      by (simp add: lines_of_def sp Let_def butlast_append)
  next
    case False
    with that [of "split_on (CHR 0x0A) after"] show ?thesis by (simp add: lines_of_def sp Let_def)
  qed
  moreover have "strtoul ?v = of_nat (unat tgid)"
  proof -
    have "unat tgid < 2 ^ 64" using unsigned_less [of tgid, where ?'a = nat] by simp
    then show ?thesis using strtoul_decimal [of "[]" "unat tgid"] by simp
  qed
  moreover have "ucast (of_nat (unat tgid) :: 64 word) = tgid"
    by (rule bit_word_eqI) (simp add: of_nat_unat bit_simps)
  ultimately show ?thesis
    using f Some st tgid_in_found [of before ?v ls] ok by (simp add: process_of_def read_proc_def)
qed

section \<open>What is found\<close>

text \<open>The process that the climb is at after \<open>n\<close> parents, each looked up at its own moment.\<close>

fun ancestor :: "(nat \<Rightarrow> processes) \<Rightarrow> nat \<Rightarrow> 32 word \<Rightarrow> nat \<Rightarrow> 32 word option" where
  "ancestor ps i pid 0 = Some pid"
| "ancestor ps i pid (Suc n) =
     (case all_processes (ps i) pid of None \<Rightarrow> None | Some p \<Rightarrow> ancestor ps (Suc (Suc i)) (pr_parent p) n)"

text \<open>What the tracker says of the process that the climb is at after \<open>n\<close> parents, if the climb gets there.\<close>

definition seen_at :: "32 word \<Rightarrow> (nat \<Rightarrow> moment) \<Rightarrow> (nat \<Rightarrow> processes) \<Rightarrow> nat \<Rightarrow> 32 word \<Rightarrow> nat \<Rightarrow> string list option option" where
  "seen_at self now ps i pid n =
     (case ancestor ps i pid n of
        None \<Rightarrow> None
      | Some q \<Rightarrow>
          if q \<le> 1 \<or> q = self then None
          else map_option (\<lambda>p. output_tracked (mo_tokens (now (Suc (i + 2 * n)))) (mo_records (now (Suc (i + 2 * n)))) q (pr_start p))
            (all_processes (ps (i + 2 * n)) q))"

lemma seen_at_Suc:
  "seen_at self now ps i pid (Suc n) =
     (case all_processes (ps i) pid of None \<Rightarrow> None | Some p \<Rightarrow> seen_at self now ps (Suc (Suc i)) (pr_parent p) n)"
  by (simp add: seen_at_def split: option.split)

lemma climb_parents_exact:
  assumes "\<And>i. shows_processes (mo_proc (now i)) (ps i)"
  shows "climb_parents self now depth i pid = Some out \<longleftrightarrow>
    (\<exists>n < depth. seen_at self now ps i pid n = Some (Some out) \<and> (\<forall>m < n. seen_at self now ps i pid m = Some None))"
proof (induction depth arbitrary: i pid)
  case (Suc depth)
  note st = stat_of_shown [OF assms, of i pid]
  let ?seen = "seen_at self now ps i pid"
  show ?case
  proof (cases "?seen 0")
    case None
    then have "climb_parents self now (Suc depth) i pid = None"
      by (auto simp: seen_at_def st split: option.splits if_splits)
    moreover have "?seen n \<noteq> Some (Some out) \<or> (\<exists>m < n. ?seen m \<noteq> Some None)" for n
      using None by (cases n) auto
    ultimately show ?thesis by auto
  next
    case (Some r)
    then obtain p where p: "all_processes (ps i) pid = Some p" "\<not> (pid \<le> 1 \<or> pid = self)"
      "r = output_tracked (mo_tokens (now (Suc i))) (mo_records (now (Suc i))) pid (pr_start p)"
      by (auto simp: seen_at_def split: option.splits if_splits)
    show ?thesis
    proof (cases r)
      case found: (Some o')
      with p(3) have "output_tracked (mo_tokens (now (Suc i))) (mo_records (now (Suc i))) pid (pr_start p) = Some o'" by simp
      with p have "climb_parents self now (Suc depth) i pid = Some o'" by (simp add: st)
      moreover have "(\<exists>n < Suc depth. ?seen n = Some (Some out) \<and> (\<forall>m < n. ?seen m = Some None)) \<longleftrightarrow> o' = out"
      proof
        assume "\<exists>n < Suc depth. ?seen n = Some (Some out) \<and> (\<forall>m < n. ?seen m = Some None)"
        then obtain n where n: "?seen n = Some (Some out)" "\<forall>m < n. ?seen m = Some None" by blast
        with Some found show "o' = out" by (cases n) auto
      next
        assume "o' = out"
        with Some found show "\<exists>n < Suc depth. ?seen n = Some (Some out) \<and> (\<forall>m < n. ?seen m = Some None)" by auto
      qed
      ultimately show ?thesis by simp
    next
      case none: None
      have up: "?seen (Suc n) = seen_at self now ps (Suc (Suc i)) (pr_parent p) n" for n
        by (simp add: seen_at_Suc p(1))
      have "climb_parents self now (Suc depth) i pid = climb_parents self now depth (Suc (Suc i)) (pr_parent p)"
        using p none by (simp add: st)
      moreover have "(\<exists>n < Suc depth. ?seen n = Some (Some out) \<and> (\<forall>m < n. ?seen m = Some None)) \<longleftrightarrow>
          (\<exists>n < depth. ?seen (Suc n) = Some (Some out) \<and> (\<forall>m < n. ?seen (Suc m) = Some None))"
        using Some none by (auto simp: Ex_less_Suc2 All_less_Suc2)
      ultimately show ?thesis using Suc.IH up by simp
    qed
  qed
qed simp

text \<open>
  C22: a requester is found to belong to an output exactly if, climbing from its process through the
  parents that there are at each look, the first process that is tracked, by id and start time, is
  tracked under that output, fewer than 4096 parents up, with no process of the system or the
  program itself on the way - whatever the commands are called, spaces and parentheses included.
\<close>

theorem tracker_finds_nearest:
  assumes "\<And>i. shows_processes (mo_proc (now i)) (ps i)" and "mo_tokens (now 0) \<noteq> []"
  shows "find_output self now requester = Some out \<longleftrightarrow>
    (\<exists>st n. all_threads (ps 1) requester = Some st \<and> n < 4096 \<and>
       seen_at self now ps 2 (fst (snd st)) n = Some (Some out) \<and>
       (\<forall>m < n. seen_at self now ps 2 (fst (snd st)) m = Some None))"
proof (cases "all_threads (ps 1) requester")
  case None
  with assms(2) process_of_shown [OF assms(1), of 1 requester] show ?thesis by (simp add: find_output_def)
next
  case (Some st)
  have "find_output self now requester = climb_parents self now k_max_depth 2 (fst (snd st))"
    using assms(2) process_of_shown [OF assms(1), of 1 requester] Some by (simp add: find_output_def)
  then show ?thesis using climb_parents_exact [OF assms(1)] Some by (simp add: k_max_depth_def)
qed

text \<open>A machine: the thread 7 of the process 5, named \<open>a) (b\<close>, a child of the tracked command 3.\<close>

definition demo_process :: "string \<Rightarrow> 32 word \<Rightarrow> 64 word \<Rightarrow> process" where
  "demo_process name parent start = \<lparr>pr_name = name, pr_state = ''S'', pr_parent = parent, pr_fields = replicate 17 ''0'',
     pr_start = start, pr_rest = '' 0''\<rparr>"

definition demo_processes :: processes where
  "demo_processes = \<lparr>all_processes = (\<lambda>pid. if pid = 5 then Some (demo_process ''a) (b'' 3 90)
       else if pid = 3 then Some (demo_process ''sh'' 1 80) else None),
     all_threads = (\<lambda>tid. if tid = 7 then Some ([''Name: x''], 5, []) else None)\<rparr>"

definition demo_proc :: "string \<Rightarrow> string expected" where
  "demo_proc path =
     (if path = decimal 5 @ ''/stat'' then Inr (stat_line 5 (demo_process ''a) (b'' 3 90))
      else if path = decimal 3 @ ''/stat'' then Inr (stat_line 3 (demo_process ''sh'' 1 80))
      else if path = decimal 7 @ ''/status'' then Inr (status_text ([''Name: x''], 5, []))
      else Inl No_such_file_or_directory)"

definition demo_moment :: "nat \<Rightarrow> moment" where
  "demo_moment i = \<lparr>mo_proc = demo_proc, mo_tokens = [1],
     mo_records = (\<lambda>_. None)(1 \<mapsto> \<lparr>tp_output = [''out''], tp_pid = 3, tp_start_time = 80\<rparr>)\<rparr>"

lemma decimal_inject: "decimal m = decimal n \<longleftrightarrow> m = n"
  by (metis number_decimal)

lemma demo_shows: "shows_processes demo_proc demo_processes"
proof -
  have eq: "decimal (unat w) = decimal n \<longleftrightarrow> unat w = n" for w :: "32 word" and n by (rule decimal_inject)
  have ok: "process_ok (demo_process name parent start)" for name parent start
    by (simp add: process_ok_def demo_process_def is_word_def white_def is_digit_def)
  have un: "unat w = 5 \<longleftrightarrow> w = 5" "unat w = 3 \<longleftrightarrow> w = 3" "unat w = 7 \<longleftrightarrow> w = 7" for w :: "32 word"
    by (simp_all add: word_unat_eq_iff)
  have ne: "decimal m @ ''/status'' \<noteq> decimal n @ ''/stat''" for m n
  proof
    assume "decimal m @ ''/status'' = decimal n @ ''/stat''"
    then have "last (decimal m @ ''/status'') = last (decimal n @ ''/stat'')" by (rule arg_cong)
    then show False by simp
  qed
  show ?thesis
    unfolding shows_processes_def demo_proc_def demo_processes_def
    by (auto simp: eq un ne ne [symmetric] ok thread_ok_def starts_with_def)
qed

theorem tracker_finds_nearest_witness:
  "find_output 9 demo_moment 7 = Some [''out'']"
proof -
  let ?ps = "\<lambda>i::nat. demo_processes"
  have t: "all_threads demo_processes 7 = Some ([''Name: x''], 5, [])" by (simp add: demo_processes_def)
  have s0: "seen_at 9 demo_moment ?ps 2 5 0 = Some None" and s1: "seen_at 9 demo_moment ?ps 2 5 (Suc 0) = Some (Some [''out''])"
    by (simp_all add: word_le_nat_alt seen_at_def demo_processes_def demo_process_def demo_moment_def output_tracked_def tracked_as_def)
  have "\<forall>m < Suc 0. seen_at 9 demo_moment ?ps 2 5 m = Some None" using s0 by simp
  then have "\<exists>st n. all_threads demo_processes 7 = Some st \<and> n < 4096 \<and> seen_at 9 demo_moment ?ps 2 (fst (snd st)) n = Some (Some [''out'']) \<and>
      (\<forall>m < n. seen_at 9 demo_moment ?ps 2 (fst (snd st)) m = Some None)"
    using t s1 by (intro exI [of _ "([''Name: x''], 5, [])"] exI [of _ "Suc 0"]) simp
  moreover have "shows_processes (mo_proc (demo_moment i)) demo_processes" for i using demo_shows by (simp add: demo_moment_def)
  moreover have "mo_tokens (demo_moment 0) \<noteq> []" by (simp add: demo_moment_def)
  ultimately show ?thesis
    using tracker_finds_nearest [of demo_moment ?ps 9 7 "[''out'']"] by blast
qed

section \<open>The records\<close>

text \<open>
  A process whose id was used again is never taken for the one that was tracked: what is found at a
  process is the output of a record with both its id and its start time, which the record got from
  the process when it was tracked.
\<close>

theorem recycled_pid_not_found:
  assumes "output_tracked tokens recs pid start = Some out"
  shows "\<exists>token \<in> set tokens. \<exists>r. recs token = Some r \<and> tp_pid r = pid \<and> tp_start_time r = start \<and> tp_output r = out"
proof -
  obtain k ks where k: "filter (tracked_as recs pid start) tokens = k # ks" "map_option tp_output (recs k) = Some out"
    using assms by (auto simp: output_tracked_def split: list.splits)
  from k(1) have "k \<in> set (filter (tracked_as recs pid start) tokens)" by simp
  then have "k \<in> set tokens" "tracked_as recs pid start k" by simp_all
  with k(2) show ?thesis by (auto simp: tracked_as_def split: option.splits)
qed

text \<open>
  Tracking a process and untracking it by the token given leaves the records of all others as they
  were, and none of the process under that token, as long as the tokens have not been used up.
\<close>

theorem track_then_untrack:
  assumes "track proc signalled output pid pidfd t = (t', Inr token)"
    and "\<And>k. tk_last_token t < k \<Longrightarrow> tk_records t k = None" and "tk_last_token t < tk_last_token t + 1"
  shows "tk_records t' token = Some \<lparr>tp_output = output, tp_pid = pid, tp_start_time = ps_start_time (projr (stat_of proc pid))\<rparr> \<and>
    tk_records (untrack token t') = tk_records t \<and> (\<forall>k > tk_last_token t'. tk_records t' k = None)"
proof -
  have up: "tk_last_token t < tk_last_token t + 1" by (rule assms(3))
  then have none: "tk_records t (tk_last_token t + 1) = None" by (rule assms(2))
  have later: "tk_records t k = None" if "tk_last_token t + 1 < k" for k
    using assms(2) up that by (meson less_trans)
  from assms(1) none have t': "token = tk_last_token t + 1" "tk_last_token t' = token"
    "tk_records t' = (tk_records t)(token \<mapsto> \<lparr>tp_output = output, tp_pid = pid, tp_start_time = ps_start_time (projr (stat_of proc pid))\<rparr>)"
    by (auto simp: track_def Let_def split: sum.splits if_splits)
  then show ?thesis using none later by (auto simp: untrack_def fun_upd_idem_iff)
qed

text \<open>A process that cannot be read, or has gone, is not tracked, and nothing of the tracker changes.\<close>

theorem track_fails_clean:
  "track proc signalled output pid pidfd t = (t', Inl e) \<Longrightarrow> t' = t"
  by (auto simp: track_def Let_def split: sum.splits if_splits)

text \<open>
  The mount takes the process of a caller from \<^verbatim>\<open>/proc\<close> once; an answer it has given for a thread
  that it could read, or that had gone, it gives again.
\<close>

theorem caller_remembered:
  assumes "process_of_caller proc thread processes = (processes', p)" and "processes' thread \<noteq> None"
  shows "process_of_caller proc' thread processes' = (processes', p)"
  using assms by (auto simp: process_of_caller_def split: option.splits sum.splits if_splits)

end
