(* ===== verification/Process_Tracer.thy ===== *)
theory Process_Tracer
  imports Paths "HOL-Library.Word"
begin

text \<open>
  The view of a directory that a traced command has (\<^verbatim>\<open>Tracer\<close> of
  \<^verbatim>\<open>src/processutil-linux.cpp\<close>): its inodes, and each request of the kernel, answered from the
  real directory, with the files opened for reading recorded.  What the real directory answers at the
  moment of a request is a parameter, \<open>host\<close>.  Each operation gives the tracer after it, its reply,
  and the descriptors that it closed; a stream of a directory stands for its descriptor.
\<close>

unbundle bit_operations_syntax

section \<open>The directory behind it\<close>

record host_stat =
  hs_dev :: "64 word"
  hs_ino :: "64 word"
  hs_mode :: "32 word"
  hs_size :: "64 word"

record host_entry =
  he_name :: string
  he_ino :: "64 word"
  he_type :: "32 word"
  he_offset :: int

text \<open>
  \<open>ho_open\<close> is \<^verbatim>\<open>openat2\<close> beneath the root, following no link; \<open>ho_entries\<close> what is left of a
  directory from an offset, and the error at its end, 0 if there is none; errors are the values of
  \<^verbatim>\<open>errno\<close>.
\<close>

record host =
  ho_open :: "string list \<Rightarrow> 64 word \<Rightarrow> int + int"
  ho_fstat :: "int \<Rightarrow> int + host_stat"
  ho_pread :: "int \<Rightarrow> nat \<Rightarrow> int \<Rightarrow> int + string"
  ho_fdopendir :: "int \<Rightarrow> int"
  ho_entries :: "int \<Rightarrow> int \<Rightarrow> host_entry list \<times> int"
  ho_readlinkat :: "int \<Rightarrow> nat \<Rightarrow> int + string"
  ho_direntry_size :: "string \<Rightarrow> nat"

definition errno_EIO :: int where "errno_EIO = 5"
definition errno_EROFS :: int where "errno_EROFS = 30"
definition errno_ENAMETOOLONG :: int where "errno_ENAMETOOLONG = 36"
definition errno_ESTALE :: int where "errno_ESTALE = 116"

definition O_ACCMODE :: "64 word" where "O_ACCMODE = 3"
definition O_RDONLY :: "64 word" where "O_RDONLY = 0"
definition O_DIRECTORY :: "64 word" where "O_DIRECTORY = 0x10000"
definition O_NOFOLLOW :: "64 word" where "O_NOFOLLOW = 0x20000"
definition O_CLOEXEC :: "64 word" where "O_CLOEXEC = 0x80000"
definition O_PATH :: "64 word" where "O_PATH = 0x200000"

definition PATH_MAX :: nat where
  "PATH_MAX = 4096"

definition open_beneath :: "host \<Rightarrow> string list \<Rightarrow> 64 word \<Rightarrow> int + int" where
  "open_beneath h relative flags = ho_open h relative (flags OR O_NOFOLLOW OR O_CLOEXEC)"

section \<open>The tracer\<close>

record traced_inode =
  ti_relative :: "string list"
  ti_real_path :: "string list"
  ti_dev :: "64 word"
  ti_ino :: "64 word"

text \<open>Inodes are numbered as \<^verbatim>\<open>fuse_ino_t\<close>, of which a command's run does not use up the 64 bits.\<close>

record tracer =
  tr_read_files :: "string list list"
  tr_failed :: bool
  tr_inodes :: "nat \<Rightarrow> traced_inode option"
  tr_by_dev_ino :: "64 word \<times> 64 word \<Rightarrow> nat option"
  tr_next_ino :: nat
  tr_open_files :: "int set"
  tr_open_directories :: "int set"

definition trace_root :: nat where
  "trace_root = 1"

definition tracer_start :: "string list \<Rightarrow> host_stat \<Rightarrow> tracer" where
  "tracer_start root st = \<lparr>tr_read_files = [], tr_failed = False,
     tr_inodes = (\<lambda>_. None)(trace_root \<mapsto> \<lparr>ti_relative = [''.''], ti_real_path = root, ti_dev = hs_dev st, ti_ino = hs_ino st\<rparr>),
     tr_by_dev_ino = (\<lambda>_. None), tr_next_ino = trace_root + 1, tr_open_files = {}, tr_open_directories = {}\<rparr>"

text \<open>The file of an inode opened again, or the error and the descriptors closed on the way.\<close>

definition reopen :: "host \<Rightarrow> traced_inode \<Rightarrow> 64 word \<Rightarrow> (int \<times> int list) + (int \<times> host_stat)" where
  "reopen h n flags =
     (case open_beneath h (ti_relative n) flags of
        Inl e \<Rightarrow> Inl (e, [])
      | Inr fd \<Rightarrow>
          (case ho_fstat h fd of
             Inl e \<Rightarrow> Inl (e, [fd])
           | Inr st \<Rightarrow>
               if hs_dev st \<noteq> ti_dev n \<or> hs_ino st \<noteq> ti_ino n then Inl (errno_ESTALE, [fd]) else Inr (fd, st)))"

section \<open>Requests\<close>

datatype trace_reply =
    Reply_err int
  | Reply_entry nat host_stat
  | Reply_attr host_stat
  | Reply_link string
  | Reply_open int
  | Reply_buf string
  | Reply_entries "host_entry list"

type_synonym answer = "tracer \<times> trace_reply \<times> int list"

definition answer_err :: "tracer \<Rightarrow> int \<Rightarrow> answer" where
  "answer_err t e = (t, Reply_err e, [])"

definition child_path :: "nat \<Rightarrow> traced_inode \<Rightarrow> string \<Rightarrow> string list" where
  "child_path parent p name = (if parent = trace_root then [name] else ti_relative p @ [name])"

text \<open>The inode of a file: that of its device and inode numbers, or a new one.\<close>

definition enter_inode :: "string list \<Rightarrow> string list \<Rightarrow> host_stat \<Rightarrow> tracer \<Rightarrow> tracer \<times> nat" where
  "enter_inode child real st t =
     (case tr_by_dev_ino t (hs_dev st, hs_ino st) of
        Some n \<Rightarrow> (t, n)
      | None \<Rightarrow>
          (let n = tr_next_ino t in
           (t\<lparr>tr_by_dev_ino := (tr_by_dev_ino t)((hs_dev st, hs_ino st) \<mapsto> n), tr_next_ino := n + 1,
              tr_inodes := (if tr_inodes t n = None
                 then (tr_inodes t)(n \<mapsto> \<lparr>ti_relative = child, ti_real_path = real, ti_dev = hs_dev st, ti_ino = hs_ino st\<rparr>)
                 else tr_inodes t)\<rparr>, n)))"

definition trace_lookup :: "host \<Rightarrow> nat \<Rightarrow> string \<Rightarrow> tracer \<Rightarrow> answer" where
  "trace_lookup h parent name t =
     (case tr_inodes t parent of
        None \<Rightarrow> answer_err t errno_EIO
      | Some p \<Rightarrow>
          (case open_beneath h (child_path parent p name) O_PATH of
             Inl e \<Rightarrow> answer_err t e
           | Inr fd \<Rightarrow>
               (case ho_fstat h fd of
                  Inl e \<Rightarrow> (t, Reply_err e, [fd])
                | Inr st \<Rightarrow>
                    (case enter_inode (child_path parent p name) (ti_real_path p @ [name]) st t of
                       (t', n) \<Rightarrow> (t', Reply_entry n st, [fd])))))"

definition trace_getattr :: "host \<Rightarrow> nat \<Rightarrow> tracer \<Rightarrow> answer" where
  "trace_getattr h ino t =
     (case tr_inodes t ino of
        None \<Rightarrow> answer_err t errno_EIO
      | Some n \<Rightarrow>
          (case reopen h n O_PATH of
             Inl (e, closed) \<Rightarrow> (t, Reply_err e, closed)
           | Inr (fd, st) \<Rightarrow> (t, Reply_attr st, [fd])))"

definition trace_open :: "host \<Rightarrow> nat \<Rightarrow> 64 word \<Rightarrow> tracer \<Rightarrow> answer" where
  "trace_open h ino flags t =
     (case tr_inodes t ino of
        None \<Rightarrow> answer_err t errno_EIO
      | Some n \<Rightarrow>
          if flags AND O_ACCMODE \<noteq> O_RDONLY then answer_err t errno_EROFS
          else (case reopen h n O_RDONLY of
                  Inl (e, closed) \<Rightarrow> (t, Reply_err e, closed)
                | Inr (fd, st) \<Rightarrow>
                    (t\<lparr>tr_read_files := tr_read_files t @ [ti_real_path n], tr_open_files := insert fd (tr_open_files t)\<rparr>,
                     Reply_open fd, [])))"

definition trace_read :: "host \<Rightarrow> int \<Rightarrow> nat \<Rightarrow> int \<Rightarrow> tracer \<Rightarrow> answer" where
  "trace_read h fh len off t =
     (case ho_pread h fh len off of
        Inl e \<Rightarrow> answer_err t e
      | Inr bytes \<Rightarrow> (t, Reply_buf bytes, []))"

definition trace_release :: "int \<Rightarrow> tracer \<Rightarrow> answer" where
  "trace_release fh t = (t\<lparr>tr_open_files := tr_open_files t - {fh}\<rparr>, Reply_err 0, [fh])"

definition trace_opendir :: "host \<Rightarrow> nat \<Rightarrow> tracer \<Rightarrow> answer" where
  "trace_opendir h ino t =
     (case tr_inodes t ino of
        None \<Rightarrow> answer_err t errno_EIO
      | Some n \<Rightarrow>
          (case reopen h n (O_RDONLY OR O_DIRECTORY) of
             Inl (e, closed) \<Rightarrow> (t, Reply_err e, closed)
           | Inr (fd, st) \<Rightarrow>
               if ho_fdopendir h fd \<noteq> 0 then (t, Reply_err (ho_fdopendir h fd), [fd])
               else (t\<lparr>tr_open_directories := insert fd (tr_open_directories t)\<rparr>, Reply_open fd, [])))"

text \<open>The entries that fit, in order.\<close>

fun fill_direntries :: "(string \<Rightarrow> nat) \<Rightarrow> nat \<Rightarrow> nat \<Rightarrow> host_entry list \<Rightarrow> host_entry list" where
  "fill_direntries needed len used [] = []"
| "fill_direntries needed len used (e # es) =
     (if len - used < needed (he_name e) then []
      else e # fill_direntries needed len (used + needed (he_name e)) es)"

definition trace_readdir :: "host \<Rightarrow> int \<Rightarrow> nat \<Rightarrow> int \<Rightarrow> tracer \<Rightarrow> answer" where
  "trace_readdir h fh len off t =
     (case ho_entries h fh off of
        (es, err) \<Rightarrow>
          if es = [] \<and> err \<noteq> 0 then answer_err t err
          else (t, Reply_entries (fill_direntries (ho_direntry_size h) len 0 es), []))"

definition trace_releasedir :: "int \<Rightarrow> tracer \<Rightarrow> answer" where
  "trace_releasedir fh t = (t\<lparr>tr_open_directories := tr_open_directories t - {fh}\<rparr>, Reply_err 0, [fh])"

definition trace_readlink :: "host \<Rightarrow> nat \<Rightarrow> tracer \<Rightarrow> answer" where
  "trace_readlink h ino t =
     (case tr_inodes t ino of
        None \<Rightarrow> answer_err t errno_EIO
      | Some n \<Rightarrow>
          (case reopen h n O_PATH of
             Inl (e, closed) \<Rightarrow> (t, Reply_err e, closed)
           | Inr (fd, st) \<Rightarrow>
               (case ho_readlinkat h fd (PATH_MAX + 1) of
                  Inl e \<Rightarrow> (t, Reply_err e, [fd])
                | Inr target \<Rightarrow>
                    (t, if length target = PATH_MAX + 1 then Reply_err errno_ENAMETOOLONG else Reply_link target, [fd]))))"

datatype trace_request =
    Lookup nat string
  | Getattr nat
  | Readlink nat
  | Open nat "64 word"
  | Read int nat int
  | Release int
  | Opendir nat
  | Readdir int nat int
  | Releasedir int

fun answer_request :: "host \<Rightarrow> trace_request \<Rightarrow> tracer \<Rightarrow> answer" where
  "answer_request h (Lookup parent name) t = trace_lookup h parent name t"
| "answer_request h (Getattr ino) t = trace_getattr h ino t"
| "answer_request h (Readlink ino) t = trace_readlink h ino t"
| "answer_request h (Open ino flags) t = trace_open h ino flags t"
| "answer_request h (Read fh len off) t = trace_read h fh len off t"
| "answer_request h (Release fh) t = trace_release fh t"
| "answer_request h (Opendir ino) t = trace_opendir h ino t"
| "answer_request h (Readdir fh len off) t = trace_readdir h fh len off t"
| "answer_request h (Releasedir fh) t = trace_releasedir fh t"

text \<open>A request that ran out of memory, wherever it was.\<close>

definition trace_threw :: "tracer \<Rightarrow> answer" where
  "trace_threw t = (t\<lparr>tr_failed := True\<rparr>, Reply_err errno_EIO, [])"

section \<open>What was read\<close>

definition take_read_files :: "tracer \<Rightarrow> string list list expected" where
  "take_read_files t = (if tr_failed t then Inl Io_error else Inr (tr_read_files t))"

definition take_inputs :: "tracer \<Rightarrow> string list list expected" where
  "take_inputs t = (case take_read_files t of Inl e \<Rightarrow> Inl e | Inr ps \<Rightarrow> Inr (remdups_adj (sort ps)))"

section \<open>Its invariant\<close>

text \<open>
  Every inode has one path, beneath the root, and the device and inode numbers that it is found by;
  what was recorded are paths of inodes.
\<close>

definition beneath :: "string list \<Rightarrow> traced_inode \<Rightarrow> nat \<Rightarrow> bool" where
  "beneath root i n \<longleftrightarrow>
     (if n = trace_root then ti_relative i = [''.''] \<and> ti_real_path i = root else ti_real_path i = root @ ti_relative i)"

definition tracer_ok :: "string list \<Rightarrow> tracer \<Rightarrow> bool" where
  "tracer_ok root t \<longleftrightarrow>
     tr_inodes t trace_root \<noteq> None \<and> trace_root < tr_next_ino t \<and>
     (\<forall>n i. tr_inodes t n = Some i \<longrightarrow> n < tr_next_ino t \<and> beneath root i n \<and>
        (n \<noteq> trace_root \<longrightarrow> tr_by_dev_ino t (ti_dev i, ti_ino i) = Some n)) \<and>
     (\<forall>k n. tr_by_dev_ino t k = Some n \<longrightarrow> n \<noteq> trace_root \<and> (\<exists>i. tr_inodes t n = Some i \<and> (ti_dev i, ti_ino i) = k)) \<and>
     (\<forall>p \<in> set (tr_read_files t). \<exists>n i. tr_inodes t n = Some i \<and> p = ti_real_path i)"

lemma tracer_okD:
  assumes "tracer_ok root t"
  shows "tr_inodes t trace_root \<noteq> None" "trace_root < tr_next_ino t"
    "tr_inodes t n = Some i \<Longrightarrow> n < tr_next_ino t" "tr_inodes t n = Some i \<Longrightarrow> beneath root i n"
    "tr_inodes t n = Some i \<Longrightarrow> n \<noteq> trace_root \<Longrightarrow> tr_by_dev_ino t (ti_dev i, ti_ino i) = Some n"
    "tr_by_dev_ino t k = Some n \<Longrightarrow> n \<noteq> trace_root \<and> (\<exists>i. tr_inodes t n = Some i \<and> (ti_dev i, ti_ino i) = k)"
    "p \<in> set (tr_read_files t) \<Longrightarrow> \<exists>n i. tr_inodes t n = Some i \<and> p = ti_real_path i"
  using assms unfolding tracer_ok_def by blast+

lemma tracer_start_ok: "tracer_ok root (tracer_start root st)"
  by (auto simp: tracer_ok_def tracer_start_def beneath_def split: if_splits)

lemma reopen_Inr:
  assumes "reopen h n flags = Inr (fd, st)"
  shows "open_beneath h (ti_relative n) flags = Inr fd" "ho_fstat h fd = Inr st" "hs_dev st = ti_dev n" "hs_ino st = ti_ino n"
  using assms by (auto simp: reopen_def split: sum.splits if_splits)

lemma enter_inode_ok:
  assumes ok: "tracer_ok root t" and e: "enter_inode child real st t = (t', n)" and real: "real = root @ child"
  shows "tracer_ok root t'" "tr_inodes t \<subseteq>\<^sub>m tr_inodes t'" "tr_read_files t' = tr_read_files t"
    "tr_open_files t' = tr_open_files t" "tr_open_directories t' = tr_open_directories t"
    "\<exists>i. tr_inodes t' n = Some i \<and> ti_dev i = hs_dev st \<and> ti_ino i = hs_ino st"
proof -
  let ?i = "\<lparr>ti_relative = child, ti_real_path = real, ti_dev = hs_dev st, ti_ino = hs_ino st\<rparr>"
  have fresh: "tr_inodes t (tr_next_ino t) = None"
    using tracer_okD(3) [OF ok, of "tr_next_ino t"] by (cases "tr_inodes t (tr_next_ino t)") auto
  consider (known) "tr_by_dev_ino t (hs_dev st, hs_ino st) = Some n" "t' = t"
    | (new) "tr_by_dev_ino t (hs_dev st, hs_ino st) = None" "n = tr_next_ino t"
      "t' = t\<lparr>tr_by_dev_ino := (tr_by_dev_ino t)((hs_dev st, hs_ino st) \<mapsto> n), tr_next_ino := n + 1, tr_inodes := (tr_inodes t)(n \<mapsto> ?i)\<rparr>"
    using e fresh by (auto simp: enter_inode_def Let_def split: option.splits)
  then have "tracer_ok root t' \<and> tr_inodes t \<subseteq>\<^sub>m tr_inodes t' \<and> tr_read_files t' = tr_read_files t \<and>
    tr_open_files t' = tr_open_files t \<and> tr_open_directories t' = tr_open_directories t \<and>
    (\<exists>i. tr_inodes t' n = Some i \<and> ti_dev i = hs_dev st \<and> ti_ino i = hs_ino st)"
  proof cases
    case known
    with tracer_okD(6) [OF ok known(1)] ok show ?thesis by auto
  next
    case new
    have old: "x \<noteq> tr_next_ino t" if "tr_inodes t x = Some j" for x j using that fresh by auto
    have keys: "(ti_dev j, ti_ino j) \<noteq> (hs_dev st, hs_ino st) \<or> x = trace_root" if "tr_inodes t x = Some j" for x j
      using tracer_okD(5) [OF ok that] new(1) by (cases "x = trace_root") auto
    have above: "trace_root < tr_next_ino t" using tracer_okD(2) [OF ok] .
    have "tracer_ok root t'"
      unfolding tracer_ok_def
    proof (intro conjI allI impI ballI)
      show "tr_inodes t' trace_root \<noteq> None" "trace_root < tr_next_ino t'" using tracer_okD(1,2) [OF ok] new by auto
    next
      fix x j assume x: "tr_inodes t' x = Some j"
      show "x < tr_next_ino t'" using x new tracer_okD(3) [OF ok, of x j] by (auto split: if_splits)
      show "beneath root j x" using x new real above tracer_okD(4) [OF ok, of x j] by (auto simp: beneath_def split: if_splits)
      assume "x \<noteq> trace_root"
      then show "tr_by_dev_ino t' (ti_dev j, ti_ino j) = Some x"
        using x new tracer_okD(5) [OF ok, of x j] keys [of x j] by (auto split: if_splits)
    next
      fix k x assume k: "tr_by_dev_ino t' k = Some x"
      show "x \<noteq> trace_root" using k new above tracer_okD(6) [OF ok, of k x] by (auto split: if_splits)
      show "\<exists>i. tr_inodes t' x = Some i \<and> (ti_dev i, ti_ino i) = k"
        using k new fresh tracer_okD(6) [OF ok, of k x] by (auto split: if_splits)
    next
      fix p assume "p \<in> set (tr_read_files t')"
      then obtain x j where "tr_inodes t x = Some j" "p = ti_real_path j" using new tracer_okD(7) [OF ok, of p] by auto
      then show "\<exists>n i. tr_inodes t' n = Some i \<and> p = ti_real_path i" using new old by auto
    qed
    moreover have "tr_inodes t \<subseteq>\<^sub>m tr_inodes t'" using new fresh by (auto simp: map_le_def)
    ultimately show ?thesis using new by simp
  qed
  then show "tracer_ok root t'" "tr_inodes t \<subseteq>\<^sub>m tr_inodes t'" "tr_read_files t' = tr_read_files t"
    "tr_open_files t' = tr_open_files t" "tr_open_directories t' = tr_open_directories t"
    "\<exists>i. tr_inodes t' n = Some i \<and> ti_dev i = hs_dev st \<and> ti_ino i = hs_ino st" by simp_all
qed

section \<open>What a request does\<close>

text \<open>The path that a request puts on record: that of the inode of a file that was opened.\<close>

definition recorded :: "tracer \<Rightarrow> trace_request \<Rightarrow> trace_reply \<Rightarrow> string list list" where
  "recorded t r reply =
     (case r of
        Open ino flags \<Rightarrow>
          (case reply of Reply_open fd \<Rightarrow> (case tr_inodes t ino of Some n \<Rightarrow> [ti_real_path n] | None \<Rightarrow> []) | _ \<Rightarrow> [])
      | _ \<Rightarrow> [])"

lemmas trace_op_defs = trace_lookup_def trace_getattr_def trace_open_def trace_read_def trace_release_def
  trace_opendir_def trace_readdir_def trace_releasedir_def trace_readlink_def answer_err_def

text \<open>Requests that leave the table of inodes as it is.\<close>

lemma tracer_ok_cong:
  assumes "tracer_ok root t" "tr_inodes t' = tr_inodes t" "tr_by_dev_ino t' = tr_by_dev_ino t" "tr_next_ino t' = tr_next_ino t"
    "\<And>p. p \<in> set (tr_read_files t') \<Longrightarrow> p \<in> set (tr_read_files t) \<or> (\<exists>n i. tr_inodes t n = Some i \<and> p = ti_real_path i)"
  shows "tracer_ok root t'"
  using assms tracer_okD(7) [OF assms(1)] unfolding tracer_ok_def by simp meson

lemma same_table:
  assumes "answer_request h r t = (t', reply, closed)" "\<nexists>parent name. r = Lookup parent name"
  shows "tr_inodes t' = tr_inodes t" "tr_by_dev_ino t' = tr_by_dev_ino t" "tr_next_ino t' = tr_next_ino t"
    "tr_read_files t' = tr_read_files t @ recorded t r reply" "tr_failed t' = tr_failed t"
  using assms
  by (cases r; auto simp: trace_op_defs recorded_def split: option.splits sum.splits prod.splits if_splits)+

lemma answer_request_ok:
  assumes a: "answer_request h r t = (t', reply, closed)" and ok: "tracer_ok root t"
  shows "tracer_ok root t' \<and> tr_inodes t \<subseteq>\<^sub>m tr_inodes t' \<and>
    tr_read_files t' = tr_read_files t @ recorded t r reply \<and> tr_failed t' = tr_failed t"
proof (cases "\<exists>parent name. r = Lookup parent name")
  case True
  then obtain parent name where r: "r = Lookup parent name" by blast
  show ?thesis
  proof (cases "t' = t")
    case True
    with r ok show ?thesis by (simp add: recorded_def)
  next
    case False
    with a r obtain p fd st n where p: "tr_inodes t parent = Some p"
      and e: "enter_inode (child_path parent p name) (ti_real_path p @ [name]) st t = (t', n)"
      by (auto simp: trace_lookup_def answer_err_def split: option.splits sum.splits prod.splits)
    have "ti_real_path p @ [name] = root @ child_path parent p name"
      using tracer_okD(4) [OF ok p] by (auto simp: beneath_def child_path_def split: if_splits)
    note entered = enter_inode_ok [OF ok e this]
    have "tr_failed t' = tr_failed t" using e by (auto simp: enter_inode_def Let_def split: option.splits)
    with entered r show ?thesis by (simp add: recorded_def)
  qed
next
  case False
  note same = same_table [OF a False]
  have "p \<in> set (tr_read_files t') \<Longrightarrow> p \<in> set (tr_read_files t) \<or> (\<exists>n i. tr_inodes t n = Some i \<and> p = ti_real_path i)" for p
    using same(4) by (auto simp: recorded_def split: trace_request.splits trace_reply.splits option.splits)
  from tracer_ok_cong [OF ok same(1-3) this] same show ?thesis by simp
qed

lemma trace_threw_ok: "tracer_ok root t \<Longrightarrow> trace_threw t = (t', reply, closed) \<Longrightarrow> tracer_ok root t'"
  by (rule tracer_ok_cong [of root t]) (auto simp: trace_threw_def)

text \<open>An open that was answered: the file that is there now is that of the inode.\<close>

lemma open_answered:
  assumes "trace_open h ino flags t = (t', Reply_open fd, closed)"
  shows "\<exists>n st. tr_inodes t ino = Some n \<and> flags AND O_ACCMODE = O_RDONLY \<and>
    open_beneath h (ti_relative n) O_RDONLY = Inr fd \<and> ho_fstat h fd = Inr st \<and>
    hs_dev st = ti_dev n \<and> hs_ino st = ti_ino n"
  using assms reopen_Inr [of h _ O_RDONLY]
  by (auto simp: trace_open_def answer_err_def split: option.splits if_splits sum.splits prod.splits)

section \<open>Sorted and without repeats\<close>

lemma distinct_remdups_adj: "sorted xs \<Longrightarrow> distinct (remdups_adj xs)"
proof (induction xs rule: remdups_adj.induct)
  case (3 x y xs)
  then show ?case by (cases "x = y") fastforce+
qed simp_all

lemma take_inputs_set:
  assumes "take_inputs t = Inr ps"
  shows "ps = sorted_list_of_set (set (tr_read_files t))" "\<not> tr_failed t"
proof -
  have "ps = remdups_adj (sort (tr_read_files t))" "\<not> tr_failed t"
    using assms by (auto simp: take_inputs_def take_read_files_def split: if_splits)
  then show "ps = sorted_list_of_set (set (tr_read_files t))" "\<not> tr_failed t"
    by (auto intro!: sorted_distinct_set_unique distinct_remdups_adj)
qed

end
