(* ===== verification/Process_Run.thy ===== *)
theory Process_Run
  imports Process_Tracer
begin

text \<open>
  The run of one command (\<^verbatim>\<open>src/processutil-linux.cpp\<close>): what its child process does before the
  command, the reading of its output and of its mount's requests, and - as a machine - the run
  itself, in which the child, the request to stop, the supervision of the child, the serving of its
  mount and the task that started them interleave.  Each result of the system is part of a move.
\<close>

section \<open>The child process\<close>

datatype wait_status = Exited_with int | Ended_by_signal int | Other_status

definition shell_status :: "wait_status \<Rightarrow> int" where
  "shell_status w = (case w of Exited_with n \<Rightarrow> n | Ended_by_signal n \<Rightarrow> 128 + n | Other_status \<Rightarrow> 0)"

text \<open>What \<^verbatim>\<open>waitpid\<close> gives to the init of the command's namespace, and the status that it exits with.\<close>

datatype waited = Waited int wait_status | Waiting_failed int

definition errno_EINTR :: int where "errno_EINTR = 4"

fun init_exit :: "int \<Rightarrow> waited list \<Rightarrow> int option" where
  "init_exit shell [] = None"
| "init_exit shell (Waited pid w # ws) = (if pid = shell then Some (shell_status w) else init_exit shell ws)"
| "init_exit shell (Waiting_failed e # ws) = (if e \<noteq> errno_EINTR then Some 125 else init_exit shell ws)"

definition run_as_init :: "int \<Rightarrow> waited list \<Rightarrow> int option" where
  "run_as_init shell ws = (if shell < 0 then Some 125 else init_exit shell ws)"

text \<open>
  The setting up of tracing.  \<open>steps\<close> are the errors of the steps in their order, 0 for one that
  succeeded: the standard streams, the three files of ids, and the two mounts; then come the opening
  of the FUSE device and its mount.
\<close>

record handoff =
  hd_ok :: bool
  hd_error :: int
  hd_descriptor :: "int option"

definition send_result :: "int \<Rightarrow> int \<Rightarrow> handoff" where
  "send_result fd e = \<lparr>hd_ok = (0 \<le> fd), hd_error = e, hd_descriptor = (if 0 \<le> fd then Some fd else None)\<rparr>"

definition child_setup :: "int \<Rightarrow> int list \<Rightarrow> int + int \<Rightarrow> int \<Rightarrow> handoff" where
  "child_setup forced_error steps device mounted =
     (case List.find (\<lambda>e. e \<noteq> 0) (forced_error # steps) of
        Some e \<Rightarrow> send_result (- 1) e
      | None \<Rightarrow>
          (case device of
             Inl e \<Rightarrow> send_result (- 1) e
           | Inr fd \<Rightarrow> if mounted \<noteq> 0 then send_result (- 1) mounted else send_result fd 0))"

text \<open>\<open>None\<close> is a message that did not arrive whole.\<close>

definition recv_result :: "handoff option \<Rightarrow> int expected" where
  "recv_result m =
     (case m of
        None \<Rightarrow> Inl Protocol_error
      | Some p \<Rightarrow>
          if \<not> hd_ok p then Inl (System_error (hd_error p))
          else (case hd_descriptor p of None \<Rightarrow> Inl Protocol_error | Some fd \<Rightarrow> Inr fd))"

lemma setup_reported:
  assumes "\<And>e. device = Inl e \<Longrightarrow> e \<noteq> 0" "\<And>fd. device = Inr fd \<Longrightarrow> 0 \<le> fd"
  shows "recv_result (Some (child_setup forced steps device mounted)) =
    (case filter (\<lambda>e. e \<noteq> 0) (forced # steps @ [case device of Inl e \<Rightarrow> e | Inr fd \<Rightarrow> mounted]) of
       [] \<Rightarrow> Inr (projr device) | e # es \<Rightarrow> Inl (System_error e))"
proof -
  have find: "List.find P xs = (case filter P xs of [] \<Rightarrow> None | x # xs \<Rightarrow> Some x)" for P and xs :: "int list"
    by (induction xs) auto
  show ?thesis
    using assms
    by (cases device; cases "filter (\<lambda>e. e \<noteq> 0) (forced # steps)")
      (auto simp: child_setup_def recv_result_def send_result_def find split: if_splits list.splits)
qed

section \<open>Reading what there is\<close>

datatype read_result = Read_bytes string | Read_eof | Read_interrupted | Read_would_block | Read_failed

text \<open>What was read, and whether the pipe is still open; \<open>None\<close> if the results run out.\<close>

fun drain_results :: "read_result list \<Rightarrow> (string \<times> bool) option" where
  "drain_results [] = None"
| "drain_results (Read_bytes bs # rs) = (case drain_results rs of None \<Rightarrow> None | Some (out, going) \<Rightarrow> Some (bs @ out, going))"
| "drain_results (Read_eof # rs) = Some ([], False)"
| "drain_results (Read_interrupted # rs) = drain_results rs"
| "drain_results (Read_would_block # rs) = Some ([], True)"
| "drain_results (Read_failed # rs) = Some ([], False)"

text \<open>The results that a pipe with these bytes in it may give, and what they leave in it.\<close>

fun pipe_gives :: "bool \<Rightarrow> string \<Rightarrow> read_result list \<Rightarrow> string option" where
  "pipe_gives closed p [] = None"
| "pipe_gives closed p (Read_bytes bs # rs) =
     (if bs \<noteq> [] \<and> starts_with p bs then pipe_gives closed (drop (length bs) p) rs else None)"
| "pipe_gives closed p (Read_interrupted # rs) = pipe_gives closed p rs"
| "pipe_gives closed p (Read_eof # rs) = (if closed \<and> p = [] \<and> rs = [] then Some [] else None)"
| "pipe_gives closed p (Read_would_block # rs) = (if \<not> closed \<and> p = [] \<and> rs = [] then Some [] else None)"
| "pipe_gives closed p (Read_failed # rs) = (if rs = [] then Some p else None)"

lemma pipe_drained:
  assumes "pipe_gives closed p rs = Some p'"
  shows "\<exists>out going. drain_results rs = Some (out, going) \<and> p = out @ p' \<and> (closed \<longrightarrow> \<not> going) \<and>
    (Read_failed \<notin> set rs \<longrightarrow> p' = [] \<and> going = (\<not> closed))"
  using assms
proof (induction closed p rs rule: pipe_gives.induct)
  case (2 closed p bs rs)
  then have "take (length bs) p = bs" "pipe_gives closed (drop (length bs) p) rs = Some p'"
    by (auto simp: starts_with_def split: if_splits)
  then obtain q where p: "p = bs @ q" "pipe_gives closed q rs = Some p'"
    by (metis append_take_drop_id)
  then have "bs \<noteq> [] \<and> starts_with p bs" using 2(2) by (auto split: if_splits)
  from 2(1) [OF this] p show ?case by auto
qed (auto split: if_splits)

datatype receipt =
    Receive_again
  | Receive_interrupted
  | Receive_failed int
  | Receive_nothing
  | Received host trace_request bool

datatype serving_result = More | Ended

text \<open>One turn of the loop that answers what is waiting, and how serving goes on if the loop ends.\<close>

definition process_step :: "bool \<Rightarrow> receipt \<Rightarrow> tracer \<Rightarrow> tracer \<times> serving_result expected option" where
  "process_step exited rc t =
     (if exited then (t, Some (Inr Ended))
      else (case rc of
              Receive_again \<Rightarrow> (t, Some (Inr More))
            | Receive_interrupted \<Rightarrow> (t, None)
            | Receive_failed e \<Rightarrow> (t, Some (Inl (System_error e)))
            | Receive_nothing \<Rightarrow> (t, Some (Inr Ended))
            | Received h r threw \<Rightarrow> (fst (if threw then trace_threw t else answer_request h r t), None)))"

section \<open>The run\<close>

record process_output =
  po_standard_output :: string
  po_inputs :: "string list list"
  po_exit_status :: int

record supervision =
  su_output :: string
  su_error :: error_code
  su_canceled :: bool
  su_exit_status :: int

definition to_result :: "supervision \<Rightarrow> string list list \<Rightarrow> process_output expected" where
  "to_result su inputs =
     (if su_error su \<noteq> No_error then Inl (su_error su)
      else if su_canceled su then Inl Operation_canceled
      else Inr \<lparr>po_standard_output = su_output su, po_inputs = inputs, po_exit_status = su_exit_status su\<rparr>)"

text \<open>\<open>Gone\<close>: it has exited, and with it all that it started; its id is its own until it is reaped.\<close>

datatype child = No_child | Parked | Running | Gone wait_status | Reaped wait_status

datatype run_phase =
    Begin
  | Prepared
  | Attaching
  | Adding
  | Terminating error_code
  | Supervising
  | Leaving "process_output expected"
  | Destroying "process_output expected"
  | Returned "process_output expected"

datatype supervising = Not_supervised | Sup_start | Watching | Reaping | Draining | Supervised supervision

datatype serving = Not_served | Serving_wait | Serving_batch | Served

text \<open>
  \<open>x_pipe\<close> is what was written to the pipe and not read yet.  Ghosts: \<open>x_written\<close>, all that was
  written to it; \<open>x_lost\<close>, that a read of it failed; \<open>x_misdirected\<close>, that a process was killed or
  waited for that is not, or no longer, the run's own.
\<close>

record traced_run =
  x_phase :: run_phase
  x_child :: child
  x_killed :: bool
  x_misdirected :: bool
  x_released :: bool
  x_added_as :: "64 word option"
  x_pipe :: string
  x_closed :: bool
  x_written :: string
  x_lost :: bool
  x_stop :: bool
  x_abort :: bool
  x_stop_serving :: bool
  x_session_exited :: bool
  x_supervising :: supervising
  x_output :: string
  x_open :: bool
  x_wait_error :: error_code
  x_serving :: serving
  x_failure :: error_code
  x_forced :: "error_code option"
  x_tracer :: tracer

definition run_start :: "string list \<Rightarrow> host_stat \<Rightarrow> bool \<Rightarrow> traced_run" where
  "run_start root st stop =
     \<lparr>x_phase = Begin, x_child = No_child, x_killed = False, x_misdirected = False, x_released = False, x_added_as = None,
      x_pipe = [], x_closed = False, x_written = [], x_lost = False, x_stop = stop, x_abort = False,
      x_stop_serving = False, x_session_exited = False, x_supervising = Not_supervised, x_output = [], x_open = True,
      x_wait_error = No_error, x_serving = Not_served, x_failure = No_error, x_forced = None,
      x_tracer = tracer_start root st\<rparr>"

fun child_gone :: "child \<Rightarrow> bool" where
  "child_gone (Gone w) = True"
| "child_gone (Reaped w) = True"
| "child_gone _ = False"

fun own_child :: "child \<Rightarrow> bool" where
  "own_child No_child = False"
| "own_child (Reaped w) = False"
| "own_child _ = True"

definition signal_child :: "traced_run \<Rightarrow> traced_run" where
  "signal_child s = s\<lparr>x_killed := True, x_misdirected := (x_misdirected s \<or> \<not> own_child (x_child s))\<rparr>"

text \<open>\<^verbatim>\<open>waitpid\<close> returns once the child has gone.\<close>

definition reap_child :: "traced_run \<Rightarrow> traced_run option" where
  "reap_child s = (case x_child s of Gone w \<Rightarrow> Some (s\<lparr>x_child := Reaped w\<rparr>) | _ \<Rightarrow> None)"

text \<open>The callbacks that kill the child are registered only while it is watched.\<close>

definition on_stop_or_abort :: "traced_run \<Rightarrow> traced_run" where
  "on_stop_or_abort s = (if x_supervising s = Watching then signal_child s else s)"

definition serving_failed :: "error_code \<Rightarrow> traced_run \<Rightarrow> traced_run" where
  "serving_failed e s =
     (if e = No_error then s\<lparr>x_serving := Served\<rparr>
      else on_stop_or_abort (s\<lparr>x_serving := Served, x_failure := e, x_abort := True\<rparr>))"

definition end_supervising :: "supervision \<Rightarrow> traced_run \<Rightarrow> traced_run" where
  "end_supervising su s = s\<lparr>x_supervising := Supervised su, x_session_exited := True, x_stop_serving := True\<rparr>"

definition threw_supervision :: supervision where
  "threw_supervision = \<lparr>su_output = [], su_error = Not_enough_memory, su_canceled = False, su_exit_status = 0\<rparr>"

definition supervision_of :: "traced_run \<Rightarrow> supervision" where
  "supervision_of s = \<lparr>su_output = x_output s, su_error = x_wait_error s,
     su_canceled = (x_wait_error s = No_error \<and> x_stop s),
     su_exit_status = (case x_child s of Reaped w \<Rightarrow> shell_status w | _ \<Rightarrow> 0)\<rparr>"

definition drain_pipe :: "read_result list \<Rightarrow> traced_run \<Rightarrow> traced_run option" where
  "drain_pipe rs s =
     (case pipe_gives (x_closed s) (x_pipe s) rs of
        None \<Rightarrow> None
      | Some p \<Rightarrow>
          (case drain_results rs of
             None \<Rightarrow> None
           | Some (out, going) \<Rightarrow>
               Some (s\<lparr>x_output := x_output s @ out, x_open := going, x_pipe := p,
                  x_lost := (x_lost s \<or> Read_failed \<in> set rs)\<rparr>)))"

definition joined_result :: "supervision \<Rightarrow> traced_run \<Rightarrow> process_output expected" where
  "joined_result su s =
     (if x_failure s \<noteq> No_error then Inl (x_failure s)
      else if su_error su \<noteq> No_error \<or> su_canceled su then to_result su []
      else (case take_inputs (x_tracer s) of Inl e \<Rightarrow> Inl e | Inr ps \<Rightarrow> to_result su ps))"

section \<open>Its moves\<close>

datatype traced_move =
    Stop_requested
  | Command_starts
  | Command_writes string
  | Command_closes
  | Command_exits wait_status
  | Run_begins int int
  | Run_clones int
  | Run_attaches "unit expected" "error_code option"
  | Run_adds "64 word expected"
  | Run_terminated
  | Run_joins
  | Run_leaves
  | Run_destroyed
  | Supervise_starts
  | Supervise_reads "read_result list"
  | Supervise_sees_exit
  | Supervise_cannot_wait error_code
  | Supervise_reaps
  | Supervise_finishes "read_result list"
  | Supervise_throws
  | Serve_wakes
  | Serve_stops
  | Serve_cannot_wait error_code
  | Serve_receives receipt
  | Serve_throws

text \<open>
  What the kernel may give: requests of the command that runs, or the releases of what it had open;
  nothing more only once the mount has gone with the command.  A receive that was interrupted is only
  begun again.
\<close>

definition receipt_possible :: "receipt \<Rightarrow> traced_run \<Rightarrow> bool" where
  "receipt_possible rc s =
     (case rc of
        Receive_again \<Rightarrow> \<not> child_gone (x_child s)
      | Receive_interrupted \<Rightarrow> False
      | Receive_failed e \<Rightarrow> True
      | Receive_nothing \<Rightarrow> child_gone (x_child s)
      | Received h r threw \<Rightarrow>
          (case r of
             Release fh \<Rightarrow> fh \<in> tr_open_files (x_tracer s) \<and> \<not> threw
           | Releasedir fh \<Rightarrow> fh \<in> tr_open_directories (x_tracer s) \<and> \<not> threw
           | _ \<Rightarrow> x_child s = Running))"

definition serve_receipt :: "receipt \<Rightarrow> traced_run \<Rightarrow> traced_run" where
  "serve_receipt rc s =
     (case process_step (x_session_exited s) rc (x_tracer s) of
        (t, r) \<Rightarrow>
          (let s = s\<lparr>x_tracer := t\<rparr> in
           case r of
             None \<Rightarrow> s
           | Some (Inl e) \<Rightarrow> serving_failed e s
           | Some (Inr More) \<Rightarrow> s\<lparr>x_serving := Serving_wait\<rparr>
           | Some (Inr Ended) \<Rightarrow> s\<lparr>x_serving := Served\<rparr>))"

definition guarded :: "bool \<Rightarrow> 'a \<Rightarrow> 'a option" where
  "guarded b x = (if b then Some x else None)"

lemma guarded_Some [simp]: "guarded b x = Some y \<longleftrightarrow> b \<and> x = y"
  by (simp add: guarded_def)

fun run_move :: "traced_move \<Rightarrow> traced_run \<Rightarrow> traced_run option" where
  "run_move Stop_requested s = guarded (\<not> x_stop s) (on_stop_or_abort (s\<lparr>x_stop := True\<rparr>))"
| "run_move Command_starts s = guarded (x_child s = Parked \<and> x_released s) (s\<lparr>x_child := Running\<rparr>)"
| "run_move (Command_writes bs) s =
     guarded (x_child s = Running \<and> \<not> x_closed s) (s\<lparr>x_pipe := x_pipe s @ bs, x_written := x_written s @ bs\<rparr>)"
| "run_move Command_closes s = guarded (x_child s = Running) (s\<lparr>x_closed := True\<rparr>)"
| "run_move (Command_exits w) s = guarded (x_child s = Parked \<or> x_child s = Running) (s\<lparr>x_child := Gone w, x_closed := True\<rparr>)"
| "run_move (Run_begins piped paired) s =
     guarded (x_phase s = Begin)
       (s\<lparr>x_phase := (if x_stop s then Returned (Inl Operation_canceled)
          else if piped \<noteq> 0 then Returned (Inl (System_error piped))
          else if paired \<noteq> 0 then Returned (Inl (System_error paired))
          else Prepared)\<rparr>)"
| "run_move (Run_clones e) s =
     guarded (x_phase s = Prepared)
       (if e \<noteq> 0 then s\<lparr>x_phase := Returned (Inl (System_error e))\<rparr> else s\<lparr>x_phase := Attaching, x_child := Parked\<rparr>)"
| "run_move (Run_attaches r forced) s =
     guarded (x_phase s = Attaching \<and> forced \<noteq> Some No_error)
       (case r of
          Inl e \<Rightarrow> signal_child (s\<lparr>x_phase := Terminating e\<rparr>)
        | Inr u \<Rightarrow> s\<lparr>x_phase := Adding, x_forced := forced\<rparr>)"
| "run_move (Run_adds r) s =
     guarded (x_phase s = Adding)
       (case r of
          Inl e \<Rightarrow> signal_child (s\<lparr>x_phase := Terminating e\<rparr>)
        | Inr token \<Rightarrow> s\<lparr>x_phase := Supervising, x_added_as := Some token, x_released := True,
            x_supervising := Sup_start, x_serving := Serving_wait\<rparr>)"
| "run_move Run_terminated s =
     (case x_phase s of
        Terminating e \<Rightarrow> map_option (\<lambda>s. s\<lparr>x_phase := Leaving (Inl e)\<rparr>) (reap_child s)
      | _ \<Rightarrow> None)"
| "run_move Run_joins s =
     (case x_supervising s of
        Supervised su \<Rightarrow>
          guarded (x_phase s = Supervising \<and> x_serving s = Served) (s\<lparr>x_phase := Leaving (joined_result su s)\<rparr>)
      | _ \<Rightarrow> None)"
| "run_move Run_leaves s =
     (case x_phase s of
        Leaving r \<Rightarrow>
          (case x_child s of
             Reaped w \<Rightarrow> Some (s\<lparr>x_phase := Returned r, x_added_as := None\<rparr>)
           | _ \<Rightarrow> Some (signal_child (s\<lparr>x_phase := Destroying r\<rparr>)))
      | _ \<Rightarrow> None)"
| "run_move Run_destroyed s =
     (case x_phase s of
        Destroying r \<Rightarrow> map_option (\<lambda>s. s\<lparr>x_phase := Returned r, x_added_as := None\<rparr>) (reap_child s)
      | _ \<Rightarrow> None)"
| "run_move Supervise_starts s =
     guarded (x_supervising s = Sup_start)
       (let s = s\<lparr>x_supervising := Watching\<rparr> in if x_stop s \<or> x_abort s then signal_child s else s)"
| "run_move (Supervise_reads rs) s =
     (if x_supervising s = Watching \<and> x_open s then drain_pipe rs s else None)"
| "run_move Supervise_sees_exit s =
     guarded (x_supervising s = Watching \<and> child_gone (x_child s)) (s\<lparr>x_supervising := Reaping\<rparr>)"
| "run_move (Supervise_cannot_wait e) s =
     guarded (x_supervising s = Watching \<and> e \<noteq> No_error) (signal_child (s\<lparr>x_wait_error := e, x_supervising := Reaping\<rparr>))"
| "run_move Supervise_reaps s =
     (if x_supervising s = Reaping then map_option (\<lambda>s. s\<lparr>x_supervising := Draining\<rparr>) (reap_child s) else None)"
| "run_move (Supervise_finishes rs) s =
     (if x_supervising s = Draining
      then map_option (\<lambda>s. end_supervising (supervision_of s) s) (if x_open s then drain_pipe rs s else Some s)
      else None)"
| "run_move Supervise_throws s =
     guarded (x_supervising s = Sup_start \<or> x_supervising s = Watching \<or> x_supervising s = Draining)
       (end_supervising threw_supervision s)"
| "run_move Serve_wakes s =
     guarded (x_serving s = Serving_wait)
       (case x_forced s of
          Some e \<Rightarrow> serving_failed e (s\<lparr>x_forced := None\<rparr>)
        | None \<Rightarrow> s\<lparr>x_serving := Serving_batch\<rparr>)"
| "run_move Serve_stops s = guarded (x_serving s = Serving_wait \<and> x_stop_serving s) (s\<lparr>x_serving := Served\<rparr>)"
| "run_move (Serve_cannot_wait e) s = guarded (x_serving s = Serving_wait \<and> e \<noteq> No_error) (serving_failed e s)"
| "run_move (Serve_receives rc) s =
     guarded (x_serving s = Serving_batch \<and> receipt_possible rc s) (serve_receipt rc s)"
| "run_move Serve_throws s = guarded (x_serving s = Serving_wait) (serving_failed Not_enough_memory s)"

definition traced_step :: "traced_run \<Rightarrow> traced_run \<Rightarrow> bool" where
  "traced_step s s' \<longleftrightarrow> (\<exists>m. run_move m s = Some s')"

section \<open>What a result promises\<close>

definition complete_output :: "traced_run \<Rightarrow> process_output \<Rightarrow> bool" where
  "complete_output s out \<longleftrightarrow>
     (\<exists>w. x_child s = Reaped w \<and> po_exit_status out = shell_status w) \<and>
     (x_lost s \<or> po_standard_output out = x_written s) \<and>
     take_inputs (x_tracer s) = Inr (po_inputs out) \<and> x_serving s = Served \<and> x_failure s = No_error"

section \<open>Its invariant\<close>

definition idle_tasks :: "traced_run \<Rightarrow> bool" where
  "idle_tasks s \<longleftrightarrow> x_supervising s = Not_supervised \<and> x_serving s = Not_served"

fun is_supervised :: "supervising \<Rightarrow> bool" where
  "is_supervised (Supervised su) = True"
| "is_supervised _ = False"

definition tasks_over :: "traced_run \<Rightarrow> bool" where
  "tasks_over s \<longleftrightarrow> idle_tasks s \<or> is_supervised (x_supervising s) \<and> x_serving s = Served"

fun unborn :: "run_phase \<Rightarrow> bool" where
  "unborn Begin = True"
| "unborn Prepared = True"
| "unborn _ = False"

fun setting_up :: "run_phase \<Rightarrow> bool" where
  "setting_up Attaching = True"
| "setting_up Adding = True"
| "setting_up (Terminating e) = True"
| "setting_up _ = False"

fun killing :: "run_phase \<Rightarrow> bool" where
  "killing (Terminating e) = True"
| "killing (Destroying r) = True"
| "killing _ = False"

fun result_of :: "run_phase \<Rightarrow> process_output expected option" where
  "result_of (Leaving r) = Some r"
| "result_of (Destroying r) = Some r"
| "result_of (Returned r) = Some r"
| "result_of _ = None"

fun returned :: "run_phase \<Rightarrow> bool" where
  "returned (Returned r) = True"
| "returned _ = False"

definition phase_ok :: "traced_run \<Rightarrow> bool" where
  "phase_ok s \<longleftrightarrow>
     (unborn (x_phase s) \<longrightarrow> x_child s = No_child) \<and>
     (unborn (x_phase s) \<or> setting_up (x_phase s) \<longrightarrow> \<not> x_released s \<and> x_added_as s = None \<and> idle_tasks s) \<and>
     (setting_up (x_phase s) \<or> killing (x_phase s) \<longrightarrow> own_child (x_child s)) \<and>
     (killing (x_phase s) \<longrightarrow> x_killed s) \<and>
     (x_phase s = Supervising \<longrightarrow> x_child s \<noteq> No_child \<and> x_released s \<and> x_supervising s \<noteq> Not_supervised \<and> x_serving s \<noteq> Not_served) \<and>
     (result_of (x_phase s) \<noteq> None \<longrightarrow> tasks_over s) \<and>
     (\<forall>r. x_phase s = Leaving r \<longrightarrow> x_child s \<noteq> No_child) \<and>
     (x_released s \<and> \<not> returned (x_phase s) \<longrightarrow> x_added_as s \<noteq> None) \<and>
     (returned (x_phase s) \<longrightarrow> \<not> own_child (x_child s) \<and> x_added_as s = None)"

definition results_ok :: "traced_run \<Rightarrow> bool" where
  "results_ok s \<longleftrightarrow> (\<forall>out. result_of (x_phase s) = Some (Inr out) \<longrightarrow> complete_output s out)"

definition child_ok :: "traced_run \<Rightarrow> bool" where
  "child_ok s \<longleftrightarrow> \<not> x_misdirected s \<and> (x_child s = Running \<longrightarrow> x_released s) \<and> (child_gone (x_child s) \<longrightarrow> x_closed s)"

definition supervise_ok :: "traced_run \<Rightarrow> bool" where
  "supervise_ok s \<longleftrightarrow>
     (x_supervising s = Sup_start \<or> x_supervising s = Watching \<or> x_supervising s = Reaping \<longrightarrow> own_child (x_child s)) \<and>
     (x_supervising s = Watching \<longrightarrow> x_stop s \<or> x_abort s \<longrightarrow> x_killed s) \<and>
     (x_supervising s = Reaping \<longrightarrow> x_killed s \<or> child_gone (x_child s)) \<and>
     (x_supervising s = Draining \<longrightarrow> (\<exists>w. x_child s = Reaped w))"

definition output_ok :: "traced_run \<Rightarrow> bool" where
  "output_ok s \<longleftrightarrow>
     (\<not> is_supervised (x_supervising s) \<and> \<not> x_lost s \<longrightarrow> x_output s @ x_pipe s = x_written s \<and> (x_open s \<or> x_closed s \<and> x_pipe s = [])) \<and>
     (\<forall>su. x_supervising s = Supervised su \<and> su_error su = No_error \<longrightarrow>
        (\<exists>w. x_child s = Reaped w \<and> su_exit_status su = shell_status w) \<and> (x_lost s \<or> su_output su = x_written s))"

definition served_ok :: "traced_run \<Rightarrow> bool" where
  "served_ok s \<longleftrightarrow> x_session_exited s = is_supervised (x_supervising s) \<and> x_stop_serving s = is_supervised (x_supervising s) \<and>
     x_forced s \<noteq> Some No_error \<and> (x_failure s \<noteq> No_error \<longrightarrow> x_serving s = Served \<and> x_abort s) \<and>
     (x_serving s = Served \<and> x_failure s = No_error \<longrightarrow> is_supervised (x_supervising s) \<or> child_gone (x_child s))"

definition traces_ok :: "string list \<Rightarrow> traced_run \<Rightarrow> bool" where
  "traces_ok root s \<longleftrightarrow> tracer_ok root (x_tracer s) \<and> finite (tr_open_files (x_tracer s)) \<and> finite (tr_open_directories (x_tracer s))"

definition traced_run_ok :: "string list \<Rightarrow> traced_run \<Rightarrow> bool" where
  "traced_run_ok root s \<longleftrightarrow> phase_ok s \<and> child_ok s \<and> supervise_ok s \<and> output_ok s \<and> served_ok s \<and> results_ok s \<and> traces_ok root s"

lemma run_start_ok: "traced_run_ok root (run_start root st stop)"
  using tracer_start_ok [of root st]
  by (auto simp: traced_run_ok_def run_start_def phase_ok_def idle_tasks_def child_ok_def supervise_ok_def
      output_ok_def served_ok_def results_ok_def traces_ok_def) (simp_all add: tracer_start_def)

text \<open>What a move amounts to.\<close>

lemma drain_pipe_cases:
  assumes "drain_pipe rs s = Some s'"
  shows "\<exists>out going p. x_pipe s = out @ p \<and> (x_closed s \<longrightarrow> \<not> going) \<and>
    (Read_failed \<notin> set rs \<longrightarrow> p = [] \<and> going = (\<not> x_closed s)) \<and>
    s' = s\<lparr>x_output := x_output s @ out, x_open := going, x_pipe := p, x_lost := (x_lost s \<or> Read_failed \<in> set rs)\<rparr>"
proof -
  obtain p where p: "pipe_gives (x_closed s) (x_pipe s) rs = Some p"
    using assms by (auto simp: drain_pipe_def split: option.splits)
  from pipe_drained [OF this] obtain out going where d: "drain_results rs = Some (out, going)" "x_pipe s = out @ p"
    "x_closed s \<longrightarrow> \<not> going" "Read_failed \<notin> set rs \<longrightarrow> p = [] \<and> going = (\<not> x_closed s)" by blast
  have "s' = s\<lparr>x_output := x_output s @ out, x_open := going, x_pipe := p, x_lost := (x_lost s \<or> Read_failed \<in> set rs)\<rparr>"
    using assms p d(1) by (simp add: drain_pipe_def)
  then show ?thesis using d(2-4) by (intro exI [of _ out] exI [of _ going] exI [of _ p] conjI)
qed

lemma reap_child_Some: "reap_child s = Some s' \<longleftrightarrow> (\<exists>w. x_child s = Gone w \<and> s' = s\<lparr>x_child := Reaped w\<rparr>)"
  by (auto simp: reap_child_def split: child.splits)

lemma own_tracer [simp]: "s\<lparr>x_tracer := x_tracer s\<rparr> = s"
  by (cases s) simp

lemma serve_receipt_simps:
  "x_session_exited s \<Longrightarrow> serve_receipt rc s = s\<lparr>x_serving := Served\<rparr>"
  "\<not> x_session_exited s \<Longrightarrow> serve_receipt Receive_again s = s\<lparr>x_serving := Serving_wait\<rparr>"
  "\<not> x_session_exited s \<Longrightarrow> serve_receipt Receive_interrupted s = s"
  "\<not> x_session_exited s \<Longrightarrow> serve_receipt (Receive_failed e) s = serving_failed (System_error e) s"
  "\<not> x_session_exited s \<Longrightarrow> serve_receipt Receive_nothing s = s\<lparr>x_serving := Served\<rparr>"
  "\<not> x_session_exited s \<Longrightarrow> serve_receipt (Received h r threw) s =
     s\<lparr>x_tracer := fst (if threw then trace_threw (x_tracer s) else answer_request h r (x_tracer s))\<rparr>"
  by (simp_all add: serve_receipt_def process_step_def Let_def)

lemma serve_receipt_kinds:
  obtains (traced) t where "serve_receipt rc s = s\<lparr>x_tracer := t\<rparr>" "\<not> x_session_exited s"
      "\<exists>h r threw. rc = Received h r threw \<and> t = fst (if threw then trace_threw (x_tracer s) else answer_request h r (x_tracer s))"
    | (failed) e where "serve_receipt rc s = serving_failed (System_error e) s" "\<not> x_session_exited s"
    | (again) "serve_receipt rc s = s\<lparr>x_serving := Serving_wait\<rparr>" "\<not> x_session_exited s" "rc = Receive_again"
    | (ended) "serve_receipt rc s = s\<lparr>x_serving := Served\<rparr>" "x_session_exited s \<or> rc = Receive_nothing"
    | (interrupted) "rc = Receive_interrupted"
proof (cases "x_session_exited s")
  case True
  show ?thesis by (rule ended) (simp_all add: True serve_receipt_simps)
next
  case False
  note simps = serve_receipt_simps(2-6) [OF False]
  show ?thesis
  proof (cases rc)
    case Receive_again
    show ?thesis by (rule again) (simp_all add: Receive_again simps False)
  next
    case Receive_interrupted
    then show ?thesis by (rule interrupted)
  next
    case (Receive_failed e)
    show ?thesis by (rule failed) (simp_all add: Receive_failed simps False)
  next
    case Receive_nothing
    show ?thesis by (rule ended) (simp_all add: Receive_nothing simps False)
  next
    case (Received h r threw)
    show ?thesis
    proof (rule traced)
      show "serve_receipt rc s =
          s\<lparr>x_tracer := fst (if threw then trace_threw (x_tracer s) else answer_request h r (x_tracer s))\<rparr>"
        unfolding Received by (rule simps)
    qed (use Received False in blast)+
  qed
qed

lemmas task_defs = on_stop_or_abort_def signal_child_def serving_failed_def end_supervising_def threw_supervision_def
  supervision_of_def reap_child_Some Let_def

end
