(* ===== verification/Run_Proofs.thy ===== *)
theory Run_Proofs
  imports Process_Run
begin

text \<open>
  Every move of a command's run keeps its invariant, and once the command has gone every move brings
  the run nearer to its end.
\<close>

section \<open>What the composite moves amount to\<close>

lemmas move_splits = if_splits child.splits run_phase.splits supervising.splits sum.splits option.splits

lemma serve_move:
  assumes "run_move (Serve_receives rc) s = Some s'"
  obtains (traced) t where "s' = s\<lparr>x_tracer := t\<rparr>" "\<not> x_session_exited s" "x_serving s = Serving_batch"
      "\<exists>h r threw. rc = Received h r threw \<and> receipt_possible rc s \<and>
         t = fst (if threw then trace_threw (x_tracer s) else answer_request h r (x_tracer s))"
    | (failed) e where "s' = serving_failed (System_error e) s" "x_serving s = Serving_batch"
    | (again) "s' = s\<lparr>x_serving := Serving_wait\<rparr>" "\<not> child_gone (x_child s)" "x_serving s = Serving_batch"
    | (ended) "s' = s\<lparr>x_serving := Served\<rparr>" "x_session_exited s \<or> child_gone (x_child s)" "x_serving s = Serving_batch"
proof -
  from assms have s': "s' = serve_receipt rc s" and b: "x_serving s = Serving_batch" and r: "receipt_possible rc s" by auto
  show thesis
  proof (cases rule: serve_receipt_kinds [of rc s])
    case (traced t)
    with s' b r show thesis by (intro that(1)) auto
  next
    case (failed e)
    with s' b show thesis by (intro that(2)) auto
  next
    case again
    with s' b r show thesis by (intro that(3)) (auto simp: receipt_possible_def)
  next
    case ended
    with s' b r show thesis by (intro that(4)) (auto simp: receipt_possible_def)
  next
    case interrupted
    with r show thesis by (simp add: receipt_possible_def)
  qed
qed

lemma finish_move:
  assumes "run_move (Supervise_finishes rs) s = Some s'"
  obtains (finished) out going p lost su where
    "s' = s\<lparr>x_output := x_output s @ out, x_open := going, x_pipe := p, x_lost := lost,
       x_supervising := Supervised su, x_session_exited := True, x_stop_serving := True\<rparr>"
    "x_supervising s = Draining" "x_pipe s = out @ p" "x_lost s \<longrightarrow> lost" "\<not> x_open s \<longrightarrow> out = []"
    "x_open s \<and> \<not> lost \<longrightarrow> x_closed s \<longrightarrow> p = []"
    "su_output su = x_output s @ out" "su_error su = x_wait_error s"
    "\<And>w. x_child s = Reaped w \<Longrightarrow> su_exit_status su = shell_status w"
proof -
  from assms have d: "x_supervising s = Draining" by (auto split: if_splits)
  show thesis
  proof (cases "x_open s")
    case True
    with assms d obtain u where u: "drain_pipe rs s = Some u" "s' = end_supervising (supervision_of u) u" by auto
    from drain_pipe_cases [OF u(1)] obtain out going p where o: "x_pipe s = out @ p"
      "Read_failed \<notin> set rs \<longrightarrow> p = [] \<and> going = (\<not> x_closed s)"
      "u = s\<lparr>x_output := x_output s @ out, x_open := going, x_pipe := p, x_lost := (x_lost s \<or> Read_failed \<in> set rs)\<rparr>" by blast
    show thesis
    proof (rule finished [where out = out and going = going and p = p and lost = "x_lost s \<or> Read_failed \<in> set rs" and su = "supervision_of u"])
      show "s' = s\<lparr>x_output := x_output s @ out, x_open := going, x_pipe := p, x_lost := (x_lost s \<or> Read_failed \<in> set rs),
          x_supervising := Supervised (supervision_of u), x_session_exited := True, x_stop_serving := True\<rparr>"
        unfolding u(2) by (simp add: end_supervising_def o(3))
    qed (use d o True in \<open>auto simp: supervision_of_def\<close>)
  next
    case False
    with assms d have s': "s' = end_supervising (supervision_of s) s" by simp
    show thesis
    proof (rule finished [where out = "[]" and going = "x_open s" and p = "x_pipe s" and lost = "x_lost s" and su = "supervision_of s"])
      show "s' = s\<lparr>x_output := x_output s @ [], x_open := x_open s, x_pipe := x_pipe s, x_lost := x_lost s,
          x_supervising := Supervised (supervision_of s), x_session_exited := True, x_stop_serving := True\<rparr>"
        unfolding s' by (cases s) (simp add: end_supervising_def)
    qed (use d False in \<open>auto simp: supervision_of_def\<close>)
  qed
qed

section \<open>The invariant is kept\<close>

lemma child_step:
  assumes "run_move m s = Some s'" "child_ok s" "phase_ok s" "supervise_ok s"
  shows "child_ok s'"
proof (cases m)
  case (Serve_receives rc)
  with assms(1) have "run_move (Serve_receives rc) s = Some s'" by simp
  then show ?thesis using assms(2-4)
    by (cases rule: serve_move) (simp_all add: task_defs child_ok_def supervise_ok_def)
next
  case (Supervise_finishes rs)
  with assms(1) have "run_move (Supervise_finishes rs) s = Some s'" by simp
  then show ?thesis using assms(2) by (cases rule: finish_move) (simp add: child_ok_def)
qed (use assms in \<open>auto simp: task_defs dest!: drain_pipe_cases split: move_splits;
      simp add: child_ok_def phase_ok_def supervise_ok_def\<close>)+


lemma own_child_exists: "own_child c \<Longrightarrow> c \<noteq> No_child"
  by auto

lemma killing_kinds: "\<not> setting_up ph \<Longrightarrow> result_of ph = None \<Longrightarrow> \<not> killing ph"
  by (cases ph) auto

datatype mover = Environment | Starter | Supervisor | Server | Composite

fun moved_by :: "traced_move \<Rightarrow> mover" where
  "moved_by (Run_begins a b) = Starter" | "moved_by (Run_clones e) = Starter" | "moved_by (Run_attaches r f) = Starter"
| "moved_by (Run_adds r) = Starter" | "moved_by Run_terminated = Starter" | "moved_by Run_joins = Starter"
| "moved_by Run_leaves = Starter" | "moved_by Run_destroyed = Starter"
| "moved_by (Supervise_finishes rs) = Composite" | "moved_by (Serve_receives rc) = Composite"
| "moved_by Supervise_starts = Supervisor" | "moved_by (Supervise_reads rs) = Supervisor" | "moved_by Supervise_sees_exit = Supervisor"
| "moved_by (Supervise_cannot_wait e) = Supervisor" | "moved_by Supervise_reaps = Supervisor" | "moved_by Supervise_throws = Supervisor"
| "moved_by Serve_wakes = Server" | "moved_by Serve_stops = Server" | "moved_by (Serve_cannot_wait e) = Server" | "moved_by Serve_throws = Server"
| "moved_by _ = Environment"

lemma phase_environment:
  "moved_by m = Environment \<Longrightarrow> run_move m s = Some s' \<Longrightarrow> phase_ok s \<Longrightarrow> child_ok s \<Longrightarrow> supervise_ok s \<Longrightarrow> served_ok s \<Longrightarrow> phase_ok s'"
  by (cases m; auto simp: task_defs dest!: drain_pipe_cases split: move_splits; simp add: phase_ok_def child_ok_def supervise_ok_def served_ok_def tasks_over_def idle_tasks_def own_child_exists killing_kinds)

lemma phase_starter:
  "moved_by m = Starter \<Longrightarrow> run_move m s = Some s' \<Longrightarrow> phase_ok s \<Longrightarrow> child_ok s \<Longrightarrow> supervise_ok s \<Longrightarrow> served_ok s \<Longrightarrow> phase_ok s'"
  by (cases m; auto simp: task_defs dest!: drain_pipe_cases split: move_splits; simp add: phase_ok_def child_ok_def supervise_ok_def served_ok_def tasks_over_def idle_tasks_def own_child_exists killing_kinds)

lemma phase_supervisor:
  "moved_by m = Supervisor \<Longrightarrow> run_move m s = Some s' \<Longrightarrow> phase_ok s \<Longrightarrow> child_ok s \<Longrightarrow> supervise_ok s \<Longrightarrow> served_ok s \<Longrightarrow> phase_ok s'"
  by (cases m; auto simp: task_defs dest!: drain_pipe_cases split: move_splits; simp add: phase_ok_def child_ok_def supervise_ok_def served_ok_def tasks_over_def idle_tasks_def own_child_exists killing_kinds)

lemma phase_server:
  "moved_by m = Server \<Longrightarrow> run_move m s = Some s' \<Longrightarrow> phase_ok s \<Longrightarrow> child_ok s \<Longrightarrow> supervise_ok s \<Longrightarrow> served_ok s \<Longrightarrow> phase_ok s'"
  by (cases m; auto simp: task_defs dest!: drain_pipe_cases split: move_splits; simp add: phase_ok_def child_ok_def supervise_ok_def served_ok_def tasks_over_def idle_tasks_def own_child_exists killing_kinds)

lemma phase_step:
  assumes "run_move m s = Some s'" "phase_ok s" "child_ok s" "supervise_ok s" "served_ok s"
  shows "phase_ok s'"
proof (cases m)
  case (Serve_receives rc)
  with assms(1) have "run_move (Serve_receives rc) s = Some s'" by simp
  then show ?thesis using assms(2-)
    by (cases rule: serve_move) (simp_all add: task_defs phase_ok_def child_ok_def supervise_ok_def served_ok_def tasks_over_def idle_tasks_def own_child_exists killing_kinds)
next
  case (Supervise_finishes rs)
  with assms(1) have "run_move (Supervise_finishes rs) s = Some s'" by simp
  then show ?thesis using assms(2-) by (cases rule: finish_move) (simp add: phase_ok_def child_ok_def supervise_ok_def served_ok_def tasks_over_def idle_tasks_def own_child_exists killing_kinds)
qed (use assms phase_environment phase_starter phase_supervisor phase_server in \<open>simp del: run_move.simps; metis moved_by.simps\<close>)+

lemma supervise_step:
  assumes "run_move m s = Some s'" "supervise_ok s" "phase_ok s"
  shows "supervise_ok s'"
proof (cases m)
  case (Serve_receives rc)
  with assms(1) have "run_move (Serve_receives rc) s = Some s'" by simp
  then show ?thesis using assms(2-)
    by (cases rule: serve_move) (simp_all add: task_defs supervise_ok_def phase_ok_def idle_tasks_def tasks_over_def)
next
  case (Supervise_finishes rs)
  with assms(1) have "run_move (Supervise_finishes rs) s = Some s'" by simp
  then show ?thesis using assms(2-) by (cases rule: finish_move) (simp add: supervise_ok_def phase_ok_def idle_tasks_def tasks_over_def)
qed (use assms in \<open>auto simp: task_defs dest!: drain_pipe_cases split: move_splits;
      simp add: supervise_ok_def phase_ok_def idle_tasks_def tasks_over_def\<close>)+

lemma output_step:
  assumes "run_move m s = Some s'" "output_ok s" "child_ok s" "phase_ok s" "supervise_ok s"
  shows "output_ok s'"
proof (cases m)
  case (Serve_receives rc)
  with assms(1) have "run_move (Serve_receives rc) s = Some s'" by simp
  then show ?thesis using assms(2-)
    by (cases rule: serve_move) (simp_all add: task_defs output_ok_def child_ok_def supervise_ok_def phase_ok_def idle_tasks_def)
next
  case (Supervise_finishes rs)
  with assms(1) have "run_move (Supervise_finishes rs) s = Some s'" by simp
  then show ?thesis using assms(2-) 
  proof (cases rule: finish_move)
    case (finished out going p lost su)
    from finished(2) assms(5) obtain w where w: "x_child s = Reaped w" by (auto simp: supervise_ok_def)
    with assms(3) have "x_closed s" by (simp add: child_ok_def)
    moreover from finished(2) assms(2) have "\<not> x_lost s \<longrightarrow> x_output s @ x_pipe s = x_written s \<and> (x_open s \<or> x_closed s \<and> x_pipe s = [])"
      by (simp add: output_ok_def)
    ultimately have "lost \<or> x_output s @ out = x_written s" using finished(3-6) by auto
    with w finished(9) show ?thesis unfolding finished(1) by (simp add: output_ok_def finished(7))
  qed
qed (use assms in \<open>auto simp: task_defs dest!: drain_pipe_cases split: move_splits;
      simp add: output_ok_def child_ok_def supervise_ok_def phase_ok_def idle_tasks_def\<close>)+

lemma served_step:
  assumes "run_move m s = Some s'" "served_ok s" "phase_ok s" "supervise_ok s"
  shows "served_ok s'"
proof (cases m)
  case (Serve_receives rc)
  with assms(1) have "run_move (Serve_receives rc) s = Some s'" by simp
  then show ?thesis using assms(2-)
    by (cases rule: serve_move) (simp_all add: task_defs served_ok_def phase_ok_def idle_tasks_def supervise_ok_def)
next
  case (Supervise_finishes rs)
  with assms(1) have "run_move (Supervise_finishes rs) s = Some s'" by simp
  then show ?thesis using assms(2-) by (cases rule: finish_move) (simp add: served_ok_def phase_ok_def idle_tasks_def supervise_ok_def)
qed (use assms in \<open>auto simp: task_defs dest!: drain_pipe_cases split: move_splits;
      simp add: served_ok_def phase_ok_def idle_tasks_def supervise_ok_def\<close>)+

lemma joined_complete:
  assumes "joined_result su s = Inr out" "x_supervising s = Supervised su" "x_serving s = Served" "output_ok s"
  shows "complete_output s out"
proof -
  from assms(1) have f: "x_failure s = No_error" "su_error su = No_error" "take_inputs (x_tracer s) = Inr (po_inputs out)"
    "po_standard_output out = su_output su" "po_exit_status out = su_exit_status su"
    by (auto simp: joined_result_def to_result_def split: if_splits sum.splits)
  from assms(2,4) f(2) have "(\<exists>w. x_child s = Reaped w \<and> su_exit_status su = shell_status w) \<and> (x_lost s \<or> su_output su = x_written s)"
    by (simp add: output_ok_def)
  with f assms(3) show ?thesis by (auto simp: complete_output_def)
qed

lemma results_other:
  assumes "run_move m s = Some s'" "results_ok s" "result_of (x_phase s) \<noteq> None \<longrightarrow> tasks_over s" "m \<noteq> Run_joins"
  shows "results_ok s'"
proof (cases m)
  case (Serve_receives rc)
  with assms(1) have "run_move (Serve_receives rc) s = Some s'" by simp
  then show ?thesis using assms(2,3)
    by (cases rule: serve_move) (auto simp: task_defs results_ok_def tasks_over_def idle_tasks_def complete_output_def)
next
  case (Supervise_finishes rs)
  with assms(1) have "run_move (Supervise_finishes rs) s = Some s'" by simp
  then show ?thesis using assms(2,3)
    by (cases rule: finish_move) (auto simp: results_ok_def tasks_over_def idle_tasks_def)
qed (use assms in \<open>auto simp: task_defs dest!: drain_pipe_cases split: move_splits;
      auto simp: results_ok_def tasks_over_def idle_tasks_def complete_output_def\<close>)+

lemma results_step:
  assumes "run_move m s = Some s'" "results_ok s" "phase_ok s" "output_ok s"
  shows "results_ok s'"
proof (cases "m = Run_joins")
  case True
  with assms(1) obtain su where su: "x_supervising s = Supervised su" "x_serving s = Served"
    "s' = s\<lparr>x_phase := Leaving (joined_result su s)\<rparr>" by (auto split: supervising.splits)
  have "complete_output s out" if "joined_result su s = Inr out" for out
    using joined_complete [OF that su(1,2) assms(4)] .
  then show ?thesis by (simp add: su(3) results_ok_def complete_output_def)
next
  case False
  have "result_of (x_phase s) \<noteq> None \<longrightarrow> tasks_over s" using assms(3) by (simp add: phase_ok_def)
  from results_other [OF assms(1,2) this False] show ?thesis .
qed

lemma answer_finite:
  assumes "finite (tr_open_files t)" "finite (tr_open_directories t)"
  shows "finite (tr_open_files (fst (answer_request h r t)))" "finite (tr_open_directories (fst (answer_request h r t)))"
  using assms
  by (cases r; auto simp: trace_op_defs enter_inode_def Let_def split: option.splits sum.splits prod.splits if_splits)+

lemma traces_step:
  assumes "run_move m s = Some s'" "traces_ok root s"
  shows "traces_ok root s'"
proof (cases m)
  case (Serve_receives rc)
  with assms(1) have "run_move (Serve_receives rc) s = Some s'" by simp
  then show ?thesis
  proof (cases rule: serve_move)
    case (traced t)
    then obtain h r threw where t: "t = fst (if threw then trace_threw (x_tracer s) else answer_request h r (x_tracer s))" by blast
    show ?thesis
    proof (cases threw)
      case True
      then have "t = fst (trace_threw (x_tracer s))" using t by simp
      moreover have "tracer_ok root (fst (trace_threw (x_tracer s)))"
        by (rule trace_threw_ok [of root "x_tracer s" _ "fst (snd (trace_threw (x_tracer s)))" "snd (snd (trace_threw (x_tracer s)))"])
          (use assms(2) in \<open>simp_all add: traces_ok_def\<close>)
      ultimately show ?thesis using assms(2) by (simp add: traced(1) traces_ok_def) (simp add: trace_threw_def)
    next
      case False
      obtain t' reply closed where a: "answer_request h r (x_tracer s) = (t', reply, closed)" by (cases "answer_request h r (x_tracer s)")
      from answer_request_ok [OF a] answer_finite [of "x_tracer s" h r] False t a assms(2) show ?thesis
        by (simp add: traced(1) traces_ok_def)
    qed
  qed (use assms(2) in \<open>simp_all add: task_defs traces_ok_def\<close>)
next
  case (Supervise_finishes rs)
  with assms(1) have "run_move (Supervise_finishes rs) s = Some s'" by simp
  then show ?thesis using assms(2) by (cases rule: finish_move) (simp add: traces_ok_def)
qed (use assms in \<open>auto simp: task_defs dest!: drain_pipe_cases split: move_splits;
      simp add: traces_ok_def\<close>)+

lemma traced_run_step:
  assumes "traced_step s s'" "traced_run_ok root s"
  shows "traced_run_ok root s'"
proof -
  from assms(1) obtain m where m: "run_move m s = Some s'" by (auto simp: traced_step_def)
  from assms(2) have ok: "phase_ok s" "child_ok s" "supervise_ok s" "output_ok s" "served_ok s" "results_ok s" "traces_ok root s"
    by (simp_all add: traced_run_ok_def)
  show ?thesis
    unfolding traced_run_ok_def
    using phase_step [OF m ok(1,2,3,5)] child_step [OF m ok(2,1,3)] supervise_step [OF m ok(3,1)] output_step [OF m ok(4,2,1,3)]
      served_step [OF m ok(5,1,3)] results_step [OF m ok(6,1,4)] traces_step [OF m ok(7)] by simp
qed

definition run_init :: "string list \<Rightarrow> traced_run \<Rightarrow> bool" where
  "run_init root s \<longleftrightarrow> (\<exists>st stop. s = run_start root st stop)"

interpretation traced: transition_system "run_init root" traced_step "traced_run_ok root" for root
  by unfold_locales (auto simp: run_init_def intro: run_start_ok traced_run_step)

section \<open>The run ends\<close>

fun phase_rank :: "run_phase \<Rightarrow> nat" where
  "phase_rank Begin = 8"
| "phase_rank Prepared = 7"
| "phase_rank Attaching = 6"
| "phase_rank Adding = 5"
| "phase_rank Supervising = 4"
| "phase_rank (Terminating e) = 3"
| "phase_rank (Leaving r) = 2"
| "phase_rank (Destroying r) = 1"
| "phase_rank (Returned r) = 0"

fun supervising_rank :: "supervising \<Rightarrow> bool \<Rightarrow> nat" where
  "supervising_rank Sup_start b = 6"
| "supervising_rank Watching b = (if b then 5 else 4)"
| "supervising_rank Reaping b = 3"
| "supervising_rank Draining b = 2"
| "supervising_rank _ b = 0"

fun serving_rank :: "serving \<Rightarrow> nat" where
  "serving_rank Serving_wait = 2"
| "serving_rank Serving_batch = 1"
| "serving_rank _ = 0"

definition kept_open :: "tracer \<Rightarrow> nat" where
  "kept_open t = card (tr_open_files t) + card (tr_open_directories t)"

definition run_rank :: "traced_run \<Rightarrow> nat \<times> nat \<times> nat \<times> nat \<times> nat" where
  "run_rank s = (phase_rank (x_phase s), supervising_rank (x_supervising s) (x_open s), serving_rank (x_serving s),
     kept_open (x_tracer s), of_bool (\<not> x_stop s))"

definition rank_order :: "((nat \<times> nat \<times> nat \<times> nat \<times> nat) \<times> (nat \<times> nat \<times> nat \<times> nat \<times> nat)) set" where
  "rank_order = less_than <*lex*> less_than <*lex*> less_than <*lex*> less_than <*lex*> less_than"

lemma wf_rank_order: "wf rank_order"
  by (simp add: rank_order_def wf_lex_prod)

lemma release_kept:
  assumes "receipt_possible (Received h r threw) s" "child_gone (x_child s)" "traces_ok root s"
  shows "\<not> threw" "kept_open (fst (answer_request h r (x_tracer s))) < kept_open (x_tracer s)"
proof -
  consider fh where "r = Release fh" "fh \<in> tr_open_files (x_tracer s)" "\<not> threw"
    | fh where "r = Releasedir fh" "fh \<in> tr_open_directories (x_tracer s)" "\<not> threw"
    using assms(1,2) by (cases r) (auto simp: receipt_possible_def)
  moreover have fin: "finite (tr_open_files (x_tracer s))" "finite (tr_open_directories (x_tracer s))"
    using assms(3) by (simp_all add: traces_ok_def)
  ultimately have "\<not> threw \<and> kept_open (fst (answer_request h r (x_tracer s))) < kept_open (x_tracer s)"
  proof cases
    case 1
    with card_Diff1_less [OF fin(1) 1(2)] show ?thesis by (simp add: kept_open_def trace_release_def)
  next
    case 2
    with card_Diff1_less [OF fin(2) 2(2)] show ?thesis by (simp add: kept_open_def trace_releasedir_def)
  qed
  then show "\<not> threw" "kept_open (fst (answer_request h r (x_tracer s))) < kept_open (x_tracer s)" by simp_all
qed

lemma rank_step:
  assumes "run_move m s = Some s'" "child_gone (x_child s)" "child_ok s" "traces_ok root s" "phase_ok s"
  shows "(run_rank s', run_rank s) \<in> rank_order \<and> child_gone (x_child s')"
proof (cases m)
  case (Serve_receives rc)
  with assms(1) have "run_move (Serve_receives rc) s = Some s'" by simp
  then show ?thesis
  proof (cases rule: serve_move)
    case (traced t)
    then obtain h r threw where "receipt_possible (Received h r threw) s"
      "t = fst (if threw then trace_threw (x_tracer s) else answer_request h r (x_tracer s))" by blast
    with release_kept [OF _ assms(2,4)] have "kept_open t < kept_open (x_tracer s)" by (metis (full_types))
    with traced(1) assms(2) show ?thesis by (simp add: run_rank_def rank_order_def)
  qed (use assms(2) in \<open>simp_all add: task_defs run_rank_def rank_order_def\<close>)
next
  case (Supervise_finishes rs)
  with assms(1) have "run_move (Supervise_finishes rs) s = Some s'" by simp
  then show ?thesis using assms(2) by (cases rule: finish_move) (simp add: run_rank_def rank_order_def)
next
  case (Supervise_reads rs)
  with assms(1) have d: "x_supervising s = Watching" "x_open s" "drain_pipe rs s = Some s'" by (auto split: if_splits)
  from assms(2,3) have "x_closed s" by (simp add: child_ok_def)
  moreover obtain out going p where "x_closed s \<longrightarrow> \<not> going"
    "s' = s\<lparr>x_output := x_output s @ out, x_open := going, x_pipe := p, x_lost := (x_lost s \<or> Read_failed \<in> set rs)\<rparr>"
    using drain_pipe_cases [OF d(3)] by (elim exE conjE) (rule that)
  ultimately have "s' = s\<lparr>x_output := x_output s @ out, x_open := False, x_pipe := p, x_lost := (x_lost s \<or> Read_failed \<in> set rs)\<rparr>"
    by simp
  with d assms(2) show ?thesis by (simp add: run_rank_def rank_order_def)
next
  case (Run_clones e)
  with assms(1) have "x_phase s = Prepared" by simp
  with assms(2,5) show ?thesis by (simp add: phase_ok_def)
qed (use assms in \<open>auto simp: task_defs split: move_splits; simp add: run_rank_def rank_order_def\<close>)+

text \<open>There is always a move that brings the run on.\<close>

lemma drain_possible:
  assumes "x_closed s"
  shows "\<exists>rs s'. drain_pipe rs s = Some s'"
proof -
  let ?rs = "(if x_pipe s = [] then [] else [Read_bytes (x_pipe s)]) @ [Read_eof]"
  have "pipe_gives (x_closed s) (x_pipe s) ?rs = Some []" using assms by (simp add: starts_with_def)
  moreover from pipe_drained [OF this] obtain out going where "drain_results ?rs = Some (out, going)" by blast
  ultimately show ?thesis by (auto simp: drain_pipe_def intro!: exI [of _ ?rs])
qed

lemma task_possible:
  assumes ok: "traced_run_ok root s" and gone: "child_gone (x_child s)" and ph: "x_phase s = Supervising"
  shows "\<exists>m s'. run_move m s = Some s'"
proof -
  from ok have oks: "phase_ok s" "child_ok s" "supervise_ok s" "served_ok s" by (simp_all add: traced_run_ok_def)
  from oks(2) gone have closed: "x_closed s" by (simp add: child_ok_def)
  show ?thesis
  proof (cases "x_supervising s")
    case Not_supervised
    with oks(1) ph show ?thesis by (simp add: phase_ok_def)
  next
    case Sup_start
    then have "run_move Supervise_starts s \<noteq> None" by (simp add: guarded_def)
    then show ?thesis by blast
  next
    case Watching
    with gone have "run_move Supervise_sees_exit s \<noteq> None" by (simp add: guarded_def)
    then show ?thesis by blast
  next
    case Reaping
    with oks(3) gone obtain w where "x_child s = Gone w" by (cases "x_child s") (auto simp: supervise_ok_def)
    with Reaping have "run_move Supervise_reaps s \<noteq> None" by (simp add: reap_child_def)
    then show ?thesis by blast
  next
    case Draining
    from drain_possible [OF closed] obtain rs u where "drain_pipe rs s = Some u" by blast
    with Draining have "run_move (Supervise_finishes rs) s \<noteq> None" by simp
    then show ?thesis by blast
  next
    case (Supervised su)
    with oks(4) have is_supervised: "x_session_exited s" "x_stop_serving s" by (simp_all add: served_ok_def)
    show ?thesis
    proof (cases "x_serving s")
      case Not_served
      with oks(1) ph show ?thesis by (simp add: phase_ok_def)
    next
      case Serving_wait
      with is_supervised have "run_move Serve_stops s \<noteq> None" by (simp add: guarded_def)
      then show ?thesis by blast
    next
      case Serving_batch
      with gone have "run_move (Serve_receives Receive_nothing) s \<noteq> None" by (simp add: guarded_def receipt_possible_def)
      then show ?thesis by blast
    next
      case Served
      with Supervised ph have "run_move Run_joins s \<noteq> None" by (simp add: guarded_def)
      then show ?thesis by blast
    qed
  qed
qed

lemma move_possible:
  assumes ok: "traced_run_ok root s" and gone: "child_gone (x_child s)" and ph: "\<not> returned (x_phase s)"
  shows "\<exists>m s'. run_move m s = Some s'"
proof -
  from ok have p: "phase_ok s" by (simp add: traced_run_ok_def)
  show ?thesis
  proof (cases "x_phase s")
    case (Terminating e)
    with p gone obtain w where "x_child s = Gone w" by (cases "x_child s") (auto simp: phase_ok_def)
    with Terminating have "run_move Run_terminated s \<noteq> None" by (simp add: reap_child_def)
    then show ?thesis by blast
  next
    case Supervising
    with task_possible [OF ok gone] show ?thesis by blast
  next
    case (Leaving r)
    then have "run_move Run_leaves s \<noteq> None" by (cases "x_child s") simp_all
    then show ?thesis by blast
  next
    case (Destroying r)
    with p gone obtain w where "x_child s = Gone w" by (cases "x_child s") (auto simp: phase_ok_def)
    with Destroying have "run_move Run_destroyed s \<noteq> None" by (simp add: reap_child_def)
    then show ?thesis by blast
  next
    case Attaching
    then have "run_move (Run_attaches (Inr ()) None) s \<noteq> None" by (simp add: guarded_def)
    then show ?thesis by blast
  next
    case Adding
    then have "run_move (Run_adds (Inr 0)) s \<noteq> None" by (simp add: guarded_def)
    then show ?thesis by blast
  qed (use p gone ph in \<open>simp_all add: phase_ok_def\<close>)
qed

end
