(* ===== verification/Process_Properties.thy ===== *)
theory Process_Properties
  imports Run_Proofs
begin

text \<open>
  What the run of a command guarantees: that the command is known to the tracker for as long as it
  runs and has gone, with all it started, when its result is there; what the result tells; and that a
  run ends.
\<close>

section \<open>Runs\<close>

fun run_moves :: "traced_move list \<Rightarrow> traced_run \<Rightarrow> traced_run option" where
  "run_moves [] s = Some s"
| "run_moves (m # ms) s = (case run_move m s of None \<Rightarrow> None | Some s' \<Rightarrow> run_moves ms s')"

lemma run_moves_steps: "run_moves ms s = Some s' \<Longrightarrow> traced_step\<^sup>*\<^sup>* s s'"
proof (induction ms arbitrary: s)
  case (Cons m ms)
  then obtain u where "run_move m s = Some u" "run_moves ms u = Some s'" by (auto split: option.splits)
  then have "traced_step s u" "traced_step\<^sup>*\<^sup>* u s'" by (blast intro: Cons.IH traced_step_def [THEN iffD2])+
  then show ?case by (rule converse_rtranclp_into_rtranclp)
qed simp

text \<open>A command that reads the file \<open>a\<close> of its directory, writes, and exits.\<close>

definition demo_stat :: "64 word \<Rightarrow> host_stat" where
  "demo_stat n = \<lparr>hs_dev = 1, hs_ino = n, hs_mode = 0, hs_size = 0\<rparr>"

definition demo_host :: host where
  "demo_host = \<lparr>ho_open = (\<lambda>p flags. if p = [''a''] then Inr 7 else Inl 2), ho_fstat = (\<lambda>fd. Inr (demo_stat 5)),
     ho_pread = (\<lambda>_ _ _. Inr []), ho_fdopendir = (\<lambda>_. 0), ho_entries = (\<lambda>_ _. ([], 0)), ho_readlinkat = (\<lambda>_ _. Inl 22),
     ho_direntry_size = length\<rparr>"

definition demo_run_start :: traced_run where
  "demo_run_start = run_start [''w''] (demo_stat 2) False"

definition demo_command_runs :: "traced_move list" where
  "demo_command_runs = [Run_begins 0 0, Run_clones 0, Run_attaches (Inr ()) None, Run_adds (Inr 1), Supervise_starts, Command_starts,
     Serve_wakes, Serve_receives (Received demo_host (Lookup 1 ''a'') False), Serve_receives (Received demo_host (Open 2 0) False),
     Command_writes ''hi'']"

definition demo_command_ends :: "traced_move list" where
  "demo_command_ends = [Command_exits (Exited_with 0), Supervise_sees_exit, Supervise_reaps,
     Supervise_finishes [Read_bytes ''hi'', Read_eof], Serve_receives Receive_nothing, Run_joins, Run_leaves]"

lemma demo_init: "run_init [''w''] demo_run_start"
  by (auto simp: run_init_def demo_run_start_def)

lemmas demo_eval = demo_run_start_def run_start_def demo_command_runs_def demo_command_ends_def guarded_def task_defs
  tracer_start_def trace_root_def serve_receipt_def process_step_def receipt_possible_def demo_host_def demo_stat_def
  trace_lookup_def trace_open_def open_beneath_def child_path_def enter_inode_def reopen_def O_ACCMODE_def O_RDONLY_def
  reap_child_def drain_pipe_def starts_with_def joined_result_def to_result_def take_inputs_def take_read_files_def shell_status_def

definition demo_running :: traced_run where
  "demo_running = the (run_moves demo_command_runs demo_run_start)"

definition demo_done :: traced_run where
  "demo_done = the (run_moves demo_command_ends demo_running)"

lemma demo_runs: "run_moves demo_command_runs demo_run_start = Some demo_running"
  "x_child demo_running = Running" "x_supervising demo_running = Watching" "x_serving demo_running = Serving_batch"
  by (simp_all add: demo_running_def demo_eval)

lemma demo_ends: "run_moves demo_command_ends demo_running = Some demo_done"
  "x_phase demo_done = Returned (Inr \<lparr>po_standard_output = ''hi'', po_inputs = [[''w'', ''a'']], po_exit_status = 0\<rparr>)"
  by (simp_all add: demo_done_def demo_running_def demo_eval)

lemma demo_steps: "traced_step\<^sup>*\<^sup>* demo_run_start demo_running" "traced_step\<^sup>*\<^sup>* demo_run_start demo_done"
proof -
  show r: "traced_step\<^sup>*\<^sup>* demo_run_start demo_running" using demo_runs(1) by (rule run_moves_steps)
  have "traced_step\<^sup>*\<^sup>* demo_running demo_done" using demo_ends(1) by (rule run_moves_steps)
  with r show "traced_step\<^sup>*\<^sup>* demo_run_start demo_done" by simp
qed

section \<open>The command and its run\<close>

text \<open>
  C17: while the command runs it is in the tracker, and when the run's result is there, whatever
  failed on the way, the command and all it started have gone and were reaped, or never were, and
  nothing of it is left in the tracker; and no process but the run's own, not yet reaped, is ever
  killed.
\<close>

theorem command_contained:
  assumes "run_init root s" "traced_step\<^sup>*\<^sup>* s t"
  shows "(x_child t = Running \<longrightarrow> x_released t \<and> x_added_as t \<noteq> None) \<and>
    (\<forall>r. x_phase t = Returned r \<longrightarrow> \<not> own_child (x_child t) \<and> x_added_as t = None) \<and> \<not> x_misdirected t"
proof -
  from traced.reachable_inv [OF assms] have "phase_ok t" "child_ok t" by (simp_all add: traced_run_ok_def)
  then show ?thesis unfolding phase_ok_def child_ok_def by (metis own_child.simps(4) returned.simps(1) returned.elims(2))
qed

theorem command_contained_witness:
  "x_added_as demo_running \<noteq> None \<and> \<not> own_child (x_child demo_done)"
  using command_contained [OF demo_init demo_steps(1)] command_contained [OF demo_init demo_steps(2)] demo_runs(2) demo_ends(2)
  by simp



text \<open>
  C19: a command whose mount is no longer served, while its run still watches it, has been killed, as
  has one that was to stop: none is left waiting for an answer that does not come.
\<close>

theorem no_unserved_command:
  assumes "run_init root s" "traced_step\<^sup>*\<^sup>* s t" and "x_supervising t = Watching" and "x_serving t = Served \<or> x_stop t"
  shows "x_killed t \<or> child_gone (x_child t)"
proof -
  from traced.reachable_inv [OF assms(1,2)] have "supervise_ok t" "served_ok t" by (simp_all add: traced_run_ok_def)
  then show ?thesis using assms(3,4) by (auto simp: supervise_ok_def served_ok_def)
qed

lemma demo_failure: "run_moves (demo_command_runs @ [Serve_receives (Receive_failed 5)]) demo_run_start =
    Some (serving_failed (System_error 5) demo_running)"
  by (simp add: demo_running_def demo_eval)

theorem no_unserved_command_witness:
  "x_killed (serving_failed (System_error 5) demo_running)"
proof -
  have "x_killed (serving_failed (System_error 5) demo_running) \<or> child_gone (x_child (serving_failed (System_error 5) demo_running))"
    by (rule no_unserved_command [OF demo_init run_moves_steps [OF demo_failure]])
      (simp_all add: task_defs demo_runs)
  then show ?thesis by (simp add: task_defs demo_runs)
qed

section \<open>The end of a run\<close>

lemma gone_step:
  assumes "traced_run_ok root u \<and> child_gone (x_child u)" "traced_step u v"
  shows "(run_rank v, run_rank u) \<in> rank_order" "traced_run_ok root v \<and> child_gone (x_child v)"
proof -
  from assms(1) have ok: "traced_run_ok root u" "child_gone (x_child u)" "child_ok u" "traces_ok root u" "phase_ok u"
    by (simp_all add: traced_run_ok_def)
  from assms(2) obtain m where "run_move m u = Some v" by (auto simp: traced_step_def)
  from rank_step [OF this ok(2-5)] traced_run_step [OF assms(2) ok(1)]
  show "(run_rank v, run_rank u) \<in> rank_order" "traced_run_ok root v \<and> child_gone (x_child v)" by simp_all
qed

text \<open>
  C20: once the command has gone the run ends: no run goes on for ever, and none stops but with its
  result.
\<close>

theorem run_ends:
  assumes "run_init root s" "traced_step\<^sup>*\<^sup>* s t" and gone: "child_gone (x_child t)"
  shows "\<not> (\<exists>f. f 0 = t \<and> (\<forall>i. traced_step (f i) (f (Suc i)))) \<and>
    (\<forall>u. traced_step\<^sup>*\<^sup>* t u \<and> (\<nexists>v. traced_step u v) \<longrightarrow> (\<exists>r. x_phase u = Returned r))"
proof (intro conjI allI impI)
  show "\<not> (\<exists>f. f 0 = t \<and> (\<forall>i. traced_step (f i) (f (Suc i))))"
  proof
    assume "\<exists>f. f 0 = t \<and> (\<forall>i. traced_step (f i) (f (Suc i)))"
    then obtain f where f: "f 0 = t" "\<And>i. traced_step (f i) (f (Suc i))" by blast
    have "traced_run_ok root (f i) \<and> child_gone (x_child (f i))" for i
    proof (induction i)
      case 0
      show ?case using traced.reachable_inv [OF assms(1,2)] gone f(1) by simp
    next
      case (Suc i)
      from gone_step(2) [OF this f(2)] show ?case .
    qed
    from gone_step(1) [OF this f(2)] have "(run_rank (f (Suc i)), run_rank (f i)) \<in> rank_order" for i .
    then have "\<exists>g. \<forall>i. (g (Suc i), g i) \<in> rank_order" by (intro exI [of _ "\<lambda>i. run_rank (f i)"]) simp
    with wf_rank_order show False by (simp add: wf_iff_no_infinite_down_chain)
  qed
next
  fix u assume u: "traced_step\<^sup>*\<^sup>* t u \<and> (\<nexists>v. traced_step u v)"
  have "traced_run_ok root u \<and> child_gone (x_child u)"
    using conjunct1 [OF u]
  proof (induction rule: rtranclp_induct)
    case base
    show ?case using traced.reachable_inv [OF assms(1,2)] gone by simp
  next
    case (step v w)
    from gone_step(2) [OF step(3,2)] show ?case .
  qed
  with move_possible [of root u] u have "returned (x_phase u)" by (auto simp: traced_step_def)
  then show "\<exists>r. x_phase u = Returned r" by (cases "x_phase u") simp_all
qed

theorem run_ends_witness:
  "\<not> (\<exists>f. f 0 = demo_done \<and> (\<forall>i. traced_step (f i) (f (Suc i))))"
proof -
  have "child_gone (x_child demo_done)" by (simp add: demo_done_def demo_running_def demo_eval)
  from run_ends [OF demo_init demo_steps(2) this] show ?thesis by blast
qed

section \<open>What is recorded\<close>

fun answer_all :: "(host \<times> trace_request) list \<Rightarrow> tracer \<Rightarrow> tracer \<times> trace_reply list" where
  "answer_all [] t = (t, [])"
| "answer_all ((h, r) # rs) t =
     (case answer_request h r t of
        (u, reply, closed) \<Rightarrow> (case answer_all rs u of (v, replies) \<Rightarrow> (v, reply # replies)))"

definition file_opened :: "tracer \<Rightarrow> host \<Rightarrow> nat \<Rightarrow> int \<Rightarrow> bool" where
  "file_opened t h ino fd \<longleftrightarrow>
     (\<exists>n st. tr_inodes t ino = Some n \<and> open_beneath h (ti_relative n) O_RDONLY = Inr fd \<and> ho_fstat h fd = Inr st \<and>
        hs_dev st = ti_dev n \<and> hs_ino st = ti_ino n)"

lemma recorded_stable:
  assumes "tr_inodes t \<subseteq>\<^sub>m tr_inodes u" "answer_request h r t = (t', reply, closed)"
  shows "recorded u r reply = recorded t r reply"
proof (cases r)
  case (Open ino flags)
  with assms show ?thesis
    by (cases "tr_inodes t ino")
      (auto simp: recorded_def trace_open_def answer_err_def map_le_def dom_def split: trace_reply.splits option.splits)
qed (simp_all add: recorded_def)

lemma answer_all_recorded:
  assumes "answer_all rs t = (u, replies)" "tracer_ok root t"
  shows "tracer_ok root u \<and> tr_inodes t \<subseteq>\<^sub>m tr_inodes u \<and> length replies = length rs \<and>
    tr_read_files u = tr_read_files t @ concat (map (\<lambda>((h, r), reply). recorded u r reply) (zip rs replies)) \<and>
    (\<forall>h ino flags fd. ((h, Open ino flags), Reply_open fd) \<in> set (zip rs replies) \<longrightarrow> file_opened u h ino fd)"
  using assms
proof (induction rs arbitrary: t replies)
  case Nil
  then show ?case by simp
next
  case (Cons q rs)
  obtain h r where q: "q = (h, r)" by (cases q)
  obtain t' reply closed where a: "answer_request h r t = (t', reply, closed)" by (cases "answer_request h r t")
  from Cons.prems(1) q a obtain rest where rest: "answer_all rs t' = (u, rest)" "replies = reply # rest"
    by (auto split: prod.splits)
  note one = answer_request_ok [OF a Cons.prems(2)]
  from one have "tracer_ok root t'" by blast
  note all = Cons.IH [OF rest(1) this]
  from one all have le: "tr_inodes t \<subseteq>\<^sub>m tr_inodes u" by (blast intro: map_le_trans)
  have opened: "file_opened u h ino fd" if "r = Open ino flags" "reply = Reply_open fd" for ino flags fd
  proof -
    from a that have "trace_open h ino flags t = (t', Reply_open fd, closed)" by simp
    from open_answered [OF this] le show ?thesis unfolding file_opened_def by (auto simp: map_le_def dom_def)
  qed
  show ?case using one all le opened recorded_stable [OF le a] q rest by auto
qed

text \<open>
  C21: the files on record are those of the opens that were answered, in their order, each by a path
  in the directory at which that file - of the device and number that the command's inode stands for
  - was when it was opened; no answered open is left out.
\<close>

theorem opens_recorded:
  assumes "answer_all rs (tracer_start root st) = (t, replies)"
  shows "tr_read_files t = concat (map (\<lambda>((h, r), reply). recorded t r reply) (zip rs replies)) \<and>
    (\<forall>h ino flags fd. ((h, Open ino flags), Reply_open fd) \<in> set (zip rs replies) \<longrightarrow> file_opened t h ino fd) \<and>
    (\<forall>ino n. tr_inodes t ino = Some n \<longrightarrow> beneath root n ino)"
  using answer_all_recorded [OF assms tracer_start_ok] tracer_okD(4) [of root t] by (simp add: tracer_start_def)

theorem opens_recorded_witness:
  "tr_read_files (fst (answer_all [(demo_host, Lookup 1 ''a''), (demo_host, Open 2 0)] (tracer_start [''w''] (demo_stat 2)))) = [[''w'', ''a'']]"
proof -
  obtain t replies where a: "answer_all [(demo_host, Lookup 1 ''a''), (demo_host, Open 2 0)] (tracer_start [''w''] (demo_stat 2)) = (t, replies)"
    by (cases "answer_all [(demo_host, Lookup 1 ''a''), (demo_host, Open 2 0)] (tracer_start [''w''] (demo_stat 2))")
  have "replies = [Reply_entry 2 (demo_stat 5), Reply_open 7]"
    "tr_inodes t 2 = Some \<lparr>ti_relative = [''a''], ti_real_path = [''w'', ''a''], ti_dev = 1, ti_ino = 5\<rparr>"
    using a by (auto simp: demo_eval)
  then show ?thesis using opens_recorded [OF a] a by (simp add: recorded_def)
qed

text \<open>
  A second name of a file is given the inode of its first, so that opening it puts the first name on
  record; and once the first name is gone, opening the file by the other fails as the first would.
\<close>

theorem second_name_not_recorded:
  assumes "tracer_ok root t" and "tr_inodes t n = Some i" "n \<noteq> trace_root" and "tr_inodes t parent = Some p"
    and "open_beneath h (child_path parent p name) O_PATH = Inr fd" "ho_fstat h fd = Inr st"
    and "hs_dev st = ti_dev i" "hs_ino st = ti_ino i"
  shows "trace_lookup h parent name t = (t, Reply_entry n st, [fd])"
    and "trace_open h n O_RDONLY t = (t', Reply_open fd', closed) \<Longrightarrow> tr_read_files t' = tr_read_files t @ [ti_real_path i]"
    and "open_beneath h (ti_relative i) O_RDONLY = Inl e \<Longrightarrow> trace_open h n O_RDONLY t = (t, Reply_err e, [])"
proof -
  from tracer_okD(5) [OF assms(1-3)] assms(4-8) show "trace_lookup h parent name t = (t, Reply_entry n st, [fd])"
    by (simp add: trace_lookup_def enter_inode_def)
  show "trace_open h n O_RDONLY t = (t', Reply_open fd', closed) \<Longrightarrow> tr_read_files t' = tr_read_files t @ [ti_real_path i]"
    using assms(2) by (auto simp: trace_open_def O_RDONLY_def split: sum.splits prod.splits if_splits)
  show "open_beneath h (ti_relative i) O_RDONLY = Inl e \<Longrightarrow> trace_open h n O_RDONLY t = (t, Reply_err e, [])"
    using assms(2) by (simp add: trace_open_def reopen_def O_RDONLY_def)
qed

end
