(* ===== verification/Shell_Runner.thy ===== *)
theory Shell_Runner
  imports Build_Restore Process_Run
begin

text \<open>
  The runner of commands (\<^verbatim>\<open>src/shellrunner.cpp\<close>): the text of a command with its placeholders
  replaced, the files it read made relative to the directory it works in, its scratch directory, and
  what comes of a build, action by action.  What the system answers - files, directories, the
  command itself - is a parameter.
\<close>

section \<open>Replacing placeholders\<close>

definition out_placeholder :: string where
  "out_placeholder = ''%out''"

definition generated_prefix :: string where
  "generated_prefix = ''@/''"

definition word_enders :: string where
  "word_enders = [CHR 0x22, CHR 0x27] @ ''<>|;&()''"

definition is_blank :: "char \<Rightarrow> bool" where
  "is_blank c \<longleftrightarrow> c = CHR '' '' \<or> c = CHR 0x09 \<or> c = CHR 0x0D \<or> c = CHR 0x0A"

definition in_quotes :: "string \<Rightarrow> string" where
  "in_quotes s = CHR 0x22 # s @ [CHR 0x22]"

text \<open>\<^verbatim>\<open>string_view::find\<close>: where the pattern is first.\<close>

fun find_text :: "string \<Rightarrow> string \<Rightarrow> nat option" where
  "find_text pat [] = (if pat = [] then Some 0 else None)"
| "find_text pat (c # s) = (if starts_with (c # s) pat then Some 0 else map_option Suc (find_text pat s))"

lemma find_text_bound: "find_text pat s = Some k \<Longrightarrow> k + length pat \<le> length s"
proof (induction s arbitrary: k)
  case (Cons c s)
  show ?case
  proof (cases "starts_with (c # s) pat")
    case True
    with Cons.prems show ?thesis by (auto simp: starts_with_prefix dest: prefix_length_le)
  next
    case False
    with Cons show ?thesis by auto
  qed
qed (simp split: if_splits)

text \<open>The loop of \<^verbatim>\<open>substitute_out\<close>, on what is left of the command.\<close>

function substitute_loop :: "string \<Rightarrow> string \<Rightarrow> string" where
  "substitute_loop replacement rest =
     (case find_text out_placeholder rest of
        None \<Rightarrow> rest
      | Some k \<Rightarrow> take k rest @ replacement @ substitute_loop replacement (drop (k + length out_placeholder) rest))"
  by pat_completeness auto
termination
proof (relation "measure (length \<circ> snd)")
  fix replacement rest :: string and k
  assume "find_text out_placeholder rest = Some k"
  from find_text_bound [OF this]
  show "((replacement, drop (k + length out_placeholder) rest), replacement, rest) \<in> measure (length \<circ> snd)"
    by (simp add: out_placeholder_def)
qed simp

declare substitute_loop.simps [simp del]

definition substitute_out :: "string \<Rightarrow> string \<Rightarrow> string" where
  "substitute_out command out_path = substitute_loop (in_quotes out_path) command"

text \<open>The mountpoint without a separator at its end.\<close>

definition without_separator :: "string \<Rightarrow> string" where
  "without_separator mountpoint =
     (let s = rev (dropWhile (\<lambda>c. c = CHR ''/'') (rev mountpoint)) in if s = [] then mountpoint else s)"

text \<open>Whether a path after the prefix goes on, and the quotes that are open after a character.\<close>

definition goes_on :: "char option \<Rightarrow> char \<Rightarrow> bool" where
  "goes_on quote c = (case quote of Some q \<Rightarrow> c \<noteq> q | None \<Rightarrow> \<not> is_blank c \<and> c \<notin> set word_enders)"

definition quote_after :: "char option \<Rightarrow> char \<Rightarrow> char option" where
  "quote_after quote c =
     (if quote = Some c then None
      else if quote = None \<and> (c = CHR 0x22 \<or> c = CHR 0x27) then Some c
      else quote)"

definition generated_path :: "string \<Rightarrow> string \<Rightarrow> string" where
  "generated_path root part = (if part = [] then root else root @ CHR ''/'' # part)"

definition quoted_path :: "char option \<Rightarrow> string \<Rightarrow> string" where
  "quoted_path quote path = (if quote = None then in_quotes path else path)"

function expand_loop_text :: "string \<Rightarrow> char option \<Rightarrow> string \<Rightarrow> string" where
  "expand_loop_text root quote [] = []"
| "expand_loop_text root quote (c # s) =
     (if starts_with (c # s) generated_prefix
      then quoted_path quote (generated_path root (takeWhile (goes_on quote) (drop 2 (c # s)))) @
        expand_loop_text root quote (dropWhile (goes_on quote) (drop 2 (c # s)))
      else c # expand_loop_text root (quote_after quote c) s)"
  by pat_completeness auto
termination
  by (relation "measure (\<lambda>(root, quote, s). length s)")
    (auto intro: le_less_trans [OF length_dropWhile_le])

definition expand_generated :: "string \<Rightarrow> string \<Rightarrow> string" where
  "expand_generated command mountpoint = expand_loop_text (without_separator mountpoint) None command"

section \<open>Files read and written\<close>

text \<open>What \<^verbatim>\<open>std::filesystem::status\<close> says of a path.\<close>

datatype file_kind = Missing | Is_directory | Other_file

definition runner_read :: "(string list \<Rightarrow> string expected) \<Rightarrow> (string list \<Rightarrow> file_kind expected) \<Rightarrow> string list \<Rightarrow> string expected" where
  "runner_read read status p =
     (case read p of
        Inr bytes \<Rightarrow> Inr bytes
      | Inl e \<Rightarrow>
          (case status p of
             Inl e' \<Rightarrow> Inl e'
           | Inr Missing \<Rightarrow> Inl No_such_file_or_directory
           | Inr Is_directory \<Rightarrow> Inl Is_a_directory
           | Inr Other_file \<Rightarrow> Inl e))"

text \<open>
  \<^verbatim>\<open>path::lexically_relative\<close> of absolute, canonical paths, and \<^verbatim>\<open>std::filesystem::relative\<close>, which
  makes both canonical first.
\<close>

fun relative_to :: "string list \<Rightarrow> string list \<Rightarrow> string list" where
  "relative_to [] [] = [''.'']"
| "relative_to (p # ps) [] = p # ps"
| "relative_to [] (b # bs) = replicate (length (b # bs)) ''..''"
| "relative_to (p # ps) (b # bs) = (if p = b then relative_to ps bs else replicate (length (b # bs)) ''..'' @ p # ps)"

definition relative_path :: "(string list \<Rightarrow> string list expected) \<Rightarrow> string list \<Rightarrow> string list \<Rightarrow> string list expected" where
  "relative_path canonical p base =
     and_then (canonical p) (\<lambda>p'. and_then (canonical base) (\<lambda>base'. Inr (relative_to p' base')))"

definition relativize :: "(string list \<Rightarrow> string list expected) \<Rightarrow> string list list \<Rightarrow> string list \<Rightarrow> string list list" where
  "relativize canonical inputs root =
     (let base = (case canonical root of Inl e \<Rightarrow> root | Inr r \<Rightarrow> r)
      in concat (map (\<lambda>p. case relative_path canonical p base of
             Inl e \<Rightarrow> []
           | Inr r \<Rightarrow> if hd r = ''..'' then [] else [r]) inputs))"

text \<open>
  \<open>draws\<close> are the numbers drawn, \<open>create\<close> what creating a directory reports: whether it was made, and
  an error, \<open>No_error\<close> if none.
\<close>

definition temp_name :: "nat \<Rightarrow> string" where
  "temp_name n = ''makebelieve-build-'' @ decimal n"

fun temp_loop :: "string list \<Rightarrow> (string list \<Rightarrow> bool \<times> error_code) \<Rightarrow> nat list \<Rightarrow> string list expected" where
  "temp_loop base create [] = Inl File_exists"
| "temp_loop base create (n # ns) =
     (case create (base @ [temp_name n]) of
        (made, e) \<Rightarrow>
          if made then Inr (base @ [temp_name n])
          else if e \<noteq> No_error \<and> e \<noteq> File_exists then Inl e
          else temp_loop base create ns)"

definition temp_attempts :: nat where
  "temp_attempts = 100"

definition make_temp_directory :: "string list expected \<Rightarrow> (string list \<Rightarrow> bool \<times> error_code) \<Rightarrow> (nat \<Rightarrow> nat) \<Rightarrow> string list expected" where
  "make_temp_directory base create draws = and_then base (\<lambda>b. temp_loop b create (map draws [0..<temp_attempts]))"

section \<open>A build\<close>

text \<open>
  What the system answers to one build.  \<open>sy_run\<close> is \<^verbatim>\<open>ProcessUtil::run\<close>: what comes of the text of a
  command; \<open>sy_read\<close> and \<open>sy_status\<close> are asked for the source of a copy and, after the command, for
  the file it was to write; \<open>sy_path\<close> is a path as text.
\<close>

record system =
  sy_read :: "string list \<Rightarrow> string expected"
  sy_status :: "string list \<Rightarrow> file_kind expected"
  sy_temp :: "string list expected"
  sy_create :: "string list \<Rightarrow> bool \<times> error_code"
  sy_draws :: "nat \<Rightarrow> nat"
  sy_run :: "string \<Rightarrow> process_output expected"
  sy_canonical :: "string list \<Rightarrow> string list expected"
  sy_path :: "string list \<Rightarrow> string"

text \<open>What a build says on standard error of why it failed, and what it does besides its result.\<close>

datatype complaint = Cannot_copy string error_code | Wrote_nothing | Output_unreadable error_code

datatype runner_event =
    Made_directory "string list"
  | Ran string
  | Said_on_stderr string
  | Reported string complaint
  | Removed_directory "string list"

text \<open>What is left to do once a directory is there is followed by removing it, whichever way it ends.\<close>

definition with_scratch :: "string list \<Rightarrow> outcome \<times> runner_event list \<Rightarrow> outcome \<times> runner_event list" where
  "with_scratch dir r = (fst r, Made_directory dir # snd r @ [Removed_directory dir])"

definition run_copy :: "system \<Rightarrow> string list \<Rightarrow> command \<Rightarrow> outcome \<times> runner_event list" where
  "run_copy sy working_directory c =
     (let source = path_of_text (o_text c) in
      case runner_read (sy_read sy) (sy_status sy) (working_directory @ source) of
        Inl e \<Rightarrow> (Broken Copy_source_unreadable [source], [Reported (o_output c) (Cannot_copy (o_text c) e)])
      | Inr bytes \<Rightarrow> (Built bytes [source], []))"

text \<open>After the command has exited: its exit status, then its output.\<close>

definition finish_run :: "system \<Rightarrow> string list \<Rightarrow> command \<Rightarrow> string list option \<Rightarrow> process_output \<Rightarrow> outcome \<times> runner_event list" where
  "finish_run sy working_directory c out_path r =
     (let inputs = relativize (sy_canonical sy) (po_inputs r) working_directory in
      if po_exit_status r \<noteq> 0 then (Broken (Exit_status (po_exit_status r)) inputs, [])
      else (case out_path of
              None \<Rightarrow> (Built (po_standard_output r) inputs, [])
            | Some p \<Rightarrow>
                (case runner_read (sy_read sy) (sy_status sy) p of
                   Inl e \<Rightarrow>
                     (Broken Out_not_written inputs,
                      [Reported (o_output c) (if e = No_such_file_or_directory then Wrote_nothing else Output_unreadable e)])
                 | Inr bytes \<Rightarrow> (Built bytes inputs, []))))"

definition run_text :: "system \<Rightarrow> string list \<Rightarrow> string \<Rightarrow> command \<Rightarrow> string list option \<Rightarrow> outcome \<times> runner_event list" where
  "run_text sy working_directory mountpoint c out_path =
     (let expanded = expand_generated (o_text c) mountpoint;
          line = (case out_path of None \<Rightarrow> expanded | Some p \<Rightarrow> substitute_out expanded (sy_path sy p))
      in case sy_run sy line of
           Inl e \<Rightarrow> (Broken e [], [Ran line])
         | Inr r \<Rightarrow>
             (case finish_run sy working_directory c out_path r of
                (res, es) \<Rightarrow>
                  (res, Ran line #
                    (if out_path \<noteq> None \<and> po_standard_output r \<noteq> [] then [Said_on_stderr (po_standard_output r)] else []) @ es)))"

definition run_shell_command :: "system \<Rightarrow> string list \<Rightarrow> string \<Rightarrow> command \<Rightarrow> outcome \<times> runner_event list" where
  "run_shell_command sy working_directory mountpoint c =
     (if o_action c = Copy then run_copy sy working_directory c
      else if o_action c = Capture then run_text sy working_directory mountpoint c None
      else (case make_temp_directory (sy_temp sy) (sy_create sy) (sy_draws sy) of
              Inl e \<Rightarrow> (Broken e [], [])
            | Inr dir \<Rightarrow>
                with_scratch dir (run_text sy working_directory mountpoint c
                  (Some (dir @ [last (path_of_text (o_output c))])))))"

end
