(* ===== verification/Runner_Properties.thy ===== *)
theory Runner_Properties
  imports Shell_Runner
begin

text \<open>
  What the runner of commands guarantees: which text the shell is given, which files a build is
  said to have read, and what is left of its scratch directory.
\<close>

section \<open>References in a command\<close>

text \<open>
  A command as its author means it: bare text, references to outputs, and quoted text, of which a
  reference is the last part if it has one.
\<close>

datatype segment = Bare string | Output_ref string | Quoted char string "string option"

definition ref_text :: "string option \<Rightarrow> string" where
  "ref_text r = (case r of None \<Rightarrow> [] | Some p \<Rightarrow> generated_prefix @ p)"

definition ref_path :: "string \<Rightarrow> string option \<Rightarrow> string" where
  "ref_path root r = (case r of None \<Rightarrow> [] | Some p \<Rightarrow> generated_path root p)"

fun render :: "segment list \<Rightarrow> string" where
  "render [] = []"
| "render (Bare s # ss) = s @ render ss"
| "render (Output_ref p # ss) = generated_prefix @ p @ render ss"
| "render (Quoted q s r # ss) = q # s @ ref_text r @ q # render ss"

fun rendered_paths :: "string \<Rightarrow> segment list \<Rightarrow> string" where
  "rendered_paths root [] = []"
| "rendered_paths root (Bare s # ss) = s @ rendered_paths root ss"
| "rendered_paths root (Output_ref p # ss) = in_quotes (generated_path root p) @ rendered_paths root ss"
| "rendered_paths root (Quoted q s r # ss) = q # s @ ref_path root r @ q # rendered_paths root ss"

definition is_quote :: "char \<Rightarrow> bool" where
  "is_quote c \<longleftrightarrow> c = CHR 0x22 \<or> c = CHR 0x27"

definition ends_word :: "string \<Rightarrow> bool" where
  "ends_word s = (case s of [] \<Rightarrow> True | c # cs \<Rightarrow> \<not> goes_on None c)"

fun segments_ok :: "segment list \<Rightarrow> bool" where
  "segments_ok [] = True"
| "segments_ok (Bare s # ss) =
     (list_all (\<lambda>c. \<not> is_quote c) s \<and> \<not> sublist generated_prefix (s @ take 1 (render ss)) \<and> segments_ok ss)"
| "segments_ok (Output_ref p # ss) = (list_all (goes_on None) p \<and> ends_word (render ss) \<and> segments_ok ss)"
| "segments_ok (Quoted q s r # ss) =
     (is_quote q \<and> q \<notin> set s \<and> \<not> sublist generated_prefix s \<and> (case r of None \<Rightarrow> True | Some p \<Rightarrow> q \<notin> set p) \<and> segments_ok ss)"

lemma not_at_start:
  assumes "\<not> sublist generated_prefix (c # s @ take 1 rest)"
  shows "\<not> starts_with (c # s @ rest) generated_prefix" and "\<not> sublist generated_prefix (s @ take 1 rest)"
proof -
  show "\<not> starts_with (c # s @ rest) generated_prefix"
  proof
    assume "starts_with (c # s @ rest) generated_prefix"
    then have "prefix generated_prefix (c # s @ take 1 rest)"
      by (cases s; cases rest) (auto simp: starts_with_prefix generated_prefix_def)
    with assms show False by (meson prefix_imp_sublist)
  qed
  show "\<not> sublist generated_prefix (s @ take 1 rest)"
    using assms by (meson sublist_Cons_right)
qed

lemma expand_plain:
  assumes "list_all (\<lambda>c. quote_after q c = q) s" "\<not> sublist generated_prefix (s @ take 1 rest)"
  shows "expand_loop_text root q (s @ rest) = s @ expand_loop_text root q rest"
  using assms
proof (induction s)
  case (Cons c s)
  with not_at_start [of c s rest] show ?case by simp
qed simp

lemma expand_reference:
  assumes "list_all (goes_on q) p" "rest = [] \<or> \<not> goes_on q (hd rest)"
  shows "expand_loop_text root q (generated_prefix @ p @ rest) =
    quoted_path q (generated_path root p) @ expand_loop_text root q rest"
proof -
  have "takeWhile (goes_on q) (p @ rest) = p" "dropWhile (goes_on q) (p @ rest) = rest"
    using assms by (auto simp: list_all_iff takeWhile_append dropWhile_append3 dropWhile_append2 takeWhile_eq_Nil_iff dropWhile_eq_self_iff)
  then show ?thesis by (simp add: generated_prefix_def starts_with_def)
qed

lemma prefix_absent:
  assumes "\<not> sublist generated_prefix s" "c \<noteq> CHR ''/''"
  shows "\<not> sublist generated_prefix (s @ [c])"
proof
  assume "sublist generated_prefix (s @ [c])"
  then obtain u v where "s @ [c] = u @ generated_prefix @ v" by (auto simp: sublist_def)
  with assms show False
    by (cases v rule: rev_cases) (auto simp: generated_prefix_def sublist_def)
qed

lemma expand_segments:
  "segments_ok ss \<Longrightarrow> expand_loop_text root None (render ss) = rendered_paths root ss"
proof (induction ss rule: segments_ok.induct)
  case (2 s ss)
  then have "list_all (\<lambda>c. quote_after None c = None) s" by (auto simp: list_all_iff quote_after_def is_quote_def)
  with 2 show ?case by (simp add: expand_plain)
next
  case (3 p ss)
  then have "render ss = [] \<or> \<not> goes_on None (hd (render ss))" by (auto simp: ends_word_def split: list.splits)
  with 3 show ?case by (simp add: expand_reference quoted_path_def)
next
  case (4 q s r ss)
  let ?rest = "ref_text r @ q # render ss"
  from 4 have q: "q = CHR 0x22 \<or> q = CHR 0x27" "\<not> starts_with (q # x) generated_prefix" for x
    by (auto simp: is_quote_def starts_with_def generated_prefix_def)
  have opens: "quote_after None q = Some q" and closes: "quote_after (Some q) q = None"
    using q by (auto simp: quote_after_def)
  have stays: "list_all (\<lambda>c. quote_after (Some q) c = Some q) s"
    using 4 by (auto simp: list_all_iff quote_after_def)
  have "\<exists>c. take 1 ?rest = [c] \<and> c \<noteq> CHR ''/''"
    using q by (auto simp: ref_text_def generated_prefix_def split: option.splits)
  moreover have "\<not> sublist generated_prefix s" using 4(2) by simp
  ultimately have absent: "\<not> sublist generated_prefix (s @ take 1 ?rest)" using prefix_absent by metis
  have last: "expand_loop_text root (Some q) (q # render ss) = q # rendered_paths root ss"
    using 4 q closes by simp
  have ref: "expand_loop_text root (Some q) ?rest = ref_path root r @ q # rendered_paths root ss"
  proof (cases r)
    case None
    with last show ?thesis by (simp add: ref_text_def ref_path_def)
  next
    case (Some p)
    with 4 have "list_all (goes_on (Some q)) p" "\<not> goes_on (Some q) q" by (auto simp: list_all_iff goes_on_def)
    with Some last show ?thesis by (simp add: ref_text_def ref_path_def expand_reference quoted_path_def)
  qed
  show ?case using expand_plain [OF stays absent, of root] ref opens q by simp
qed simp

text \<open>
  C23: in the text of a command every reference to an output becomes that output's path under the
  mountpoint - as one quoted word if it stands bare, up to the closing quote if it stands in quotes -
  and nothing else of the text changes.
\<close>

theorem references_expand:
  assumes "segments_ok ss"
  shows "expand_generated (render ss) mountpoint = rendered_paths (without_separator mountpoint) ss"
  using expand_segments [OF assms] by (simp add: expand_generated_def)

theorem references_expand_witness:
  "expand_generated ''cat @/a.txt \"b @/c d\" | x@y'' ''/mnt/'' = ''cat \"/mnt/a.txt\" \"b /mnt/c d\" | x@y''"
proof -
  let ?ss = "[Bare ''cat '', Output_ref ''a.txt'', Bare '' '', Quoted CHR 0x22 ''b '' (Some ''c d''), Bare '' | x@y'']"
  have "segments_ok ?ss"
    by (simp add: is_quote_def generated_prefix_def goes_on_def is_blank_def word_enders_def ends_word_def sublist_Cons_right ref_text_def)
  from references_expand [OF this, of "''/mnt/''"] show ?thesis
    by (simp add: generated_prefix_def ref_text_def ref_path_def in_quotes_def generated_path_def without_separator_def)
qed

section \<open>The placeholder of the output\<close>

fun with_between :: "string \<Rightarrow> string list \<Rightarrow> string" where
  "with_between t [] = []"
| "with_between t [x] = x"
| "with_between t (x # y # ys) = x @ t @ with_between t (y # ys)"

lemma find_text_none: "\<not> sublist pat s \<Longrightarrow> find_text pat s = None"
  by (induction s) (auto simp: starts_with_prefix sublist_Cons_right)

lemma find_out:
  assumes "\<not> sublist out_placeholder s"
  shows "find_text out_placeholder (s @ out_placeholder @ rest) = Some (length s)"
  using assms
proof (induction s)
  case Nil
  then show ?case by (simp add: out_placeholder_def starts_with_def)
next
  case (Cons c s)
  have no: "\<not> starts_with (c # s @ out_placeholder @ rest) out_placeholder"
  proof
    assume *: "starts_with (c # s @ out_placeholder @ rest) out_placeholder"
    show False
    proof (cases "3 \<le> length s")
      case True
      with * have "prefix out_placeholder (c # s)"
        by (auto simp: starts_with_prefix out_placeholder_def prefix_def Suc_le_length_iff numeral_3_eq_3)
      with Cons.prems show False by (meson prefix_imp_sublist)
    next
      case False
      then consider "s = []" | a where "s = [a]" | a b where "s = [a, b]"
        by (cases s; cases "tl s"; cases "tl (tl s)") auto
      then show False using * by cases (simp_all add: starts_with_def out_placeholder_def)
    qed
  qed
  from Cons have "\<not> sublist out_placeholder s" by (simp add: sublist_Cons_right)
  with no Cons.IH show ?case by simp
qed

text \<open>
  Every place of the output's file in a command, and nothing else, becomes the path of that file in
  quotes.
\<close>

theorem out_replaced:
  assumes "\<And>x. x \<in> set parts \<Longrightarrow> \<not> sublist out_placeholder x"
  shows "substitute_out (with_between out_placeholder parts) p = with_between (in_quotes p) parts"
proof -
  have "substitute_loop (in_quotes p) (with_between out_placeholder parts) = with_between (in_quotes p) parts"
    using assms
  proof (induction parts rule: induct_list012)
    case 1
    show ?case by (subst substitute_loop.simps) (simp add: out_placeholder_def)
  next
    case (2 x)
    then show ?case by (subst substitute_loop.simps) (simp add: find_text_none)
  next
    case (3 x y ys)
    then have "find_text out_placeholder (x @ out_placeholder @ with_between out_placeholder (y # ys)) = Some (length x)"
      by (intro find_out) simp
    with 3 show ?case by (subst substitute_loop.simps) simp
  qed
  then show ?thesis by (simp add: substitute_out_def)
qed

text \<open>
  A reference is expanded before the placeholder is replaced, so that one whose path holds the
  placeholder's text does not name its output.
\<close>

theorem placeholder_in_a_reference:
  "substitute_out (expand_generated ''cat @/a%out.txt'' ''/mnt'') ''/tmp/b'' = ''cat \"/mnt/a\"/tmp/b\".txt\"''"
proof -
  have "expand_generated ''cat @/a%out.txt'' ''/mnt'' = ''cat \"/mnt/a%out.txt\"''"
    using references_expand [of "[Bare ''cat '', Output_ref ''a%out.txt'']" "''/mnt''"]
    by (simp add: is_quote_def generated_prefix_def goes_on_def is_blank_def word_enders_def ends_word_def
        sublist_Cons_right in_quotes_def generated_path_def without_separator_def)
  moreover have "substitute_out (with_between out_placeholder [''cat \"/mnt/a'', ''.txt\"'']) ''/tmp/b'' =
      with_between (in_quotes ''/tmp/b'') [''cat \"/mnt/a'', ''.txt\"'']"
    by (rule out_replaced) (auto simp: out_placeholder_def sublist_Cons_right)
  ultimately show ?thesis by (simp add: out_placeholder_def in_quotes_def)
qed

section \<open>What a build has read\<close>

definition below_root :: "string list \<Rightarrow> string list \<Rightarrow> string list" where
  "below_root base p = (if p = base then [''.''] else drop (length base) p)"

definition outcome_inputs :: "outcome \<Rightarrow> string list list" where
  "outcome_inputs r = (case r of Built bytes is \<Rightarrow> is | Broken e is \<Rightarrow> is)"

lemma relative_to_prefix: "relative_to (base @ r) base = (if r = [] then [''.''] else r)"
proof (induction base)
  case Nil
  then show ?case by (cases r) simp_all
qed simp

lemma relative_to_other: "\<not> prefix base p \<Longrightarrow> hd (relative_to p base) = ''..''"
  by (induction p base rule: relative_to.induct) auto

lemma relativize_inside:
  assumes root: "canonical root = Inr base" "canonical base = Inr base"
    and inputs: "\<And>p. p \<in> set inputs \<Longrightarrow> canonical p = Inr p \<and> ''..'' \<notin> set p"
  shows "relativize canonical inputs root = map (below_root base) (filter (prefix base) inputs)"
proof -
  have one: "(case relative_path canonical p base of Inl e \<Rightarrow> [] | Inr r \<Rightarrow> if hd r = ''..'' then [] else [r]) =
      (if prefix base p then [below_root base p] else [])" if p: "p \<in> set inputs" for p
  proof (cases "prefix base p")
    case True
    then obtain r where r: "p = base @ r" by (auto simp: prefix_def)
    have "r = [] \<or> hd r \<noteq> ''..''" using inputs [OF p] r by (cases r) auto
    with r inputs [OF p] root True show ?thesis
      by (auto simp: relative_path_def and_then_def relative_to_prefix below_root_def)
  next
    case False
    with inputs [OF p] root relative_to_other [OF False] show ?thesis
      by (simp add: relative_path_def and_then_def)
  qed
  have "concat (map (\<lambda>p. case relative_path canonical p base of Inl e \<Rightarrow> [] | Inr r \<Rightarrow> if hd r = ''..'' then [] else [r]) inputs) =
      concat (map (\<lambda>p. if prefix base p then [below_root base p] else []) inputs)"
    by (intro arg_cong [of _ _ concat] map_cong refl one)
  also have "\<dots> = map (below_root base) (filter (prefix base) inputs)"
    by (induction inputs) auto
  finally show ?thesis using root by (simp add: relativize_def)
qed

text \<open>
  Once its command has run, a build - whether it made its output or failed by the command's
  status or by leaving nothing to read - is said to have read exactly the files that the command
  opened in the working directory, each by its path from there.
\<close>

theorem inputs_inside:
  assumes ran: "Ran line \<in> set (snd (run_shell_command sy root mountpoint c))" and result: "sy_run sy line = Inr r"
    and canon: "sy_canonical sy root = Inr base" "sy_canonical sy base = Inr base"
    and inputs: "\<And>p. p \<in> set (po_inputs r) \<Longrightarrow> sy_canonical sy p = Inr p \<and> ''..'' \<notin> set p"
  shows "outcome_inputs (fst (run_shell_command sy root mountpoint c)) = map (below_root base) (filter (prefix base) (po_inputs r))"
proof -
  note rel = relativize_inside [OF canon inputs]
  have fin: "outcome_inputs (fst (finish_run sy root c q r)) = map (below_root base) (filter (prefix base) (po_inputs r))" for q
    using rel by (auto simp: finish_run_def outcome_inputs_def Let_def split: option.splits sum.splits)
  have quiet: "Ran l \<notin> set (snd (finish_run sy root c q r'))" for l q r'
    by (auto simp: finish_run_def Let_def split: option.splits sum.splits)
  have whole: "outcome_inputs (fst (run_text sy root mountpoint c q)) = map (below_root base) (filter (prefix base) (po_inputs r))"
    if "Ran line \<in> set (snd (run_text sy root mountpoint c q))" for q
    using that fin [of q] quiet [of line q] result
    by (auto simp: run_text_def Let_def split: sum.splits prod.splits if_splits) (metis snd_conv)+
  show ?thesis using ran whole
    by (auto simp: run_shell_command_def run_copy_def with_scratch_def Let_def split: if_splits sum.splits)
qed

definition demo_system :: system where
  "demo_system = \<lparr>sy_read = (\<lambda>_. Inl No_such_file_or_directory), sy_status = (\<lambda>_. Inr Missing), sy_temp = Inl No_such_file_or_directory,
     sy_create = (\<lambda>_. (False, File_exists)), sy_draws = (\<lambda>_. 0),
     sy_run = (\<lambda>_. Inr \<lparr>po_standard_output = ''x'', po_inputs = [[''w'', ''a''], [''v'', ''b'']], po_exit_status = 2\<rparr>),
     sy_canonical = Inr, sy_path = join_with (CHR ''/'')\<rparr>"

definition demo_command :: command where
  "demo_command = \<lparr>o_output = ''o'', o_action = Capture, o_text = ''sort a''\<rparr>"

theorem inputs_inside_witness:
  "outcome_inputs (fst (run_shell_command demo_system [''w''] ''/m'' demo_command)) = [[''a'']]"
proof -
  let ?r = "\<lparr>po_standard_output = ''x'', po_inputs = [[''w'', ''a''], [''v'', ''b'']], po_exit_status = 2\<rparr>"
  have "\<exists>line. Ran line \<in> set (snd (run_shell_command demo_system [''w''] ''/m'' demo_command))"
    by (rule exI [of _ "expand_generated ''sort a'' ''/m''"])
      (simp add: run_shell_command_def run_text_def demo_system_def demo_command_def Let_def split: prod.splits)
  then obtain line where "Ran line \<in> set (snd (run_shell_command demo_system [''w''] ''/m'' demo_command))" by blast
  from inputs_inside [OF this, of ?r "[''w'']"]
  have "outcome_inputs (fst (run_shell_command demo_system [''w''] ''/m'' demo_command)) =
      map (below_root [''w'']) (filter (prefix [''w'']) [[''w'', ''a''], [''v'', ''b'']])"
    by (force simp: demo_system_def)
  then show ?thesis by (simp add: below_root_def)
qed

text \<open>
  A directory that was made for the output is the first thing a build has and the last it does
  away with, whichever way the build ends; a build that made none removes none.
\<close>

definition about_directory :: "runner_event \<Rightarrow> bool" where
  "about_directory e = (case e of Made_directory d \<Rightarrow> True | Removed_directory d \<Rightarrow> True | _ \<Rightarrow> False)"

lemma run_text_no_directory: "e \<in> set (snd (run_text sy root mountpoint c q)) \<Longrightarrow> \<not> about_directory e"
  by (auto simp: run_text_def finish_run_def about_directory_def Let_def split: sum.splits prod.splits if_splits option.splits)

theorem scratch_removed_last:
  assumes "e \<in> set (snd (run_shell_command sy root mountpoint c))" "about_directory e"
  shows "\<exists>d es. make_temp_directory (sy_temp sy) (sy_create sy) (sy_draws sy) = Inr d \<and>
    snd (run_shell_command sy root mountpoint c) = Made_directory d # es @ [Removed_directory d] \<and> (\<forall>e \<in> set es. \<not> about_directory e)"
  using assms run_text_no_directory
  by (fastforce simp: run_shell_command_def run_copy_def with_scratch_def about_directory_def Let_def split: if_splits sum.splits)

end
