(* ===== verification/Real_Directory_Tree.thy ===== *)
theory Real_Directory_Tree
  imports Tree_Util "HOL-Library.Word"
begin

text \<open>
  The source directory on disk (\<^verbatim>\<open>src/realdirectorytree-linux.cpp\<close>): its queries, over the answers
  of the system calls they make, and the watch of it, which makes one diff of the records of inotify
  that it reads.  Error values are those of \<^verbatim>\<open>errno\<close>.
\<close>

unbundle bit_operations_syntax

section \<open>Paths\<close>

text \<open>The path on disk, the root first; \<open>None\<close> if it leads out of the root.\<close>

definition resolve :: "string list \<Rightarrow> string \<Rightarrow> string list option" where
  "resolve root path =
     (if path = [] then Some root
      else if is_rooted path then None
      else (case lexically_normal path of
              (names, slash) \<Rightarrow>
                if names \<noteq> [] \<and> hd names = ''..'' then None
                else Some (root @ (if names = [] then [''.''] else names))))"

section \<open>Queries\<close>

record disk_stat =
  ds_directory :: bool
  ds_size :: nat
  ds_sec :: int
  ds_nsec :: int

text \<open>\<open>epoch\<close> is the time of the file clock's zero, in nanoseconds.\<close>

definition to_file_time :: "int \<Rightarrow> disk_stat \<Rightarrow> int" where
  "to_file_time epoch st = ds_sec st * 1000000000 + ds_nsec st - epoch"

definition make_info :: "int \<Rightarrow> disk_stat \<Rightarrow> entry_info" where
  "make_info epoch st =
     (if ds_directory st then Directory_entry \<lparr>d_mtime = to_file_time epoch st\<rparr>
      else File_entry \<lparr>f_size = ds_size st, f_mtime = to_file_time epoch st\<rparr>)"

definition real_status :: "int \<Rightarrow> string list \<Rightarrow> (string list \<Rightarrow> int + disk_stat) \<Rightarrow> string \<Rightarrow> entry_info expected" where
  "real_status epoch root stat path =
     (case resolve root path of
        None \<Rightarrow> Inl No_such_file_or_directory
      | Some p \<Rightarrow> (case stat p of Inl e \<Rightarrow> Inl (System_error e) | Inr st \<Rightarrow> Inr (make_info epoch st)))"

text \<open>
  What \<^verbatim>\<open>readdir\<close> gives, one name after another with what \<^verbatim>\<open>fstatat\<close> says of it, and the error at
  the end, 0 at the end of the directory.
\<close>

fun list_entries :: "int \<Rightarrow> (string \<times> (int + disk_stat)) list \<Rightarrow> int \<Rightarrow> tree_entry list \<Rightarrow> tree_entry list expected" where
  "list_entries epoch [] err acc = (if err \<noteq> 0 then Inl (System_error err) else Inr acc)"
| "list_entries epoch ((name, st) # es) err acc =
     (if name = ''.'' \<or> name = ''..'' then list_entries epoch es err acc
      else (case st of
              Inl e \<Rightarrow> list_entries epoch es err acc
            | Inr st \<Rightarrow> list_entries epoch es err (acc @ [\<lparr>t_name = name, t_info = make_info epoch st\<rparr>])))"

definition real_ls :: "int \<Rightarrow> string list \<Rightarrow> (string list \<Rightarrow> int + ((string \<times> (int + disk_stat)) list \<times> int)) \<Rightarrow> string \<Rightarrow>
    tree_entry list expected" where
  "real_ls epoch root opendir path =
     (case resolve root path of
        None \<Rightarrow> Inl No_such_file_or_directory
      | Some p \<Rightarrow> (case opendir p of Inl e \<Rightarrow> Inl (System_error e) | Inr (es, err) \<Rightarrow> list_entries epoch es err []))"

definition interrupted :: int where "interrupted = 4"

text \<open>The loop over \<^verbatim>\<open>pread\<close>: the results in their order, each an error or the bytes read; \<open>None\<close> if they run out.\<close>

fun pread_loop :: "nat \<Rightarrow> string \<Rightarrow> (int + string) list \<Rightarrow> string expected option" where
  "pread_loop capacity acc rs =
     (if capacity \<le> length acc then Some (Inr acc)
      else (case rs of
              [] \<Rightarrow> None
            | Inl e # rs' \<Rightarrow> if e = interrupted then pread_loop capacity acc rs' else Some (Inl (System_error e))
            | Inr bs # rs' \<Rightarrow> if bs = [] then Some (Inr acc) else pread_loop capacity (acc @ bs) rs'))"

declare pread_loop.simps [simp del]

definition real_read :: "string list \<Rightarrow> (string list \<Rightarrow> int option) \<Rightarrow> string \<Rightarrow> int \<Rightarrow> nat \<Rightarrow> (int + string) list \<Rightarrow> string expected option" where
  "real_read root fails path offset len rs =
     (case resolve root path of
        None \<Rightarrow> Some (Inl No_such_file_or_directory)
      | Some p \<Rightarrow>
          if offset < 0 then Some (Inl Invalid_argument)
          else if len = 0 then Some (Inr [])
          else (case fails p of Some e \<Rightarrow> Some (Inl (System_error e)) | None \<Rightarrow> pread_loop len [] rs))"

definition same_version :: "disk_stat \<Rightarrow> disk_stat \<Rightarrow> bool" where
  "same_version a b \<longleftrightarrow> ds_size a = ds_size b \<and> ds_sec a = ds_sec b \<and> ds_nsec a = ds_nsec b"

text \<open>
  One reading of the whole file, into a buffer that doubles when it is full; the bytes read are those
  of the results up to an empty one.
\<close>

fun whole_loop :: "nat \<Rightarrow> string \<Rightarrow> (int + string) list \<Rightarrow> string expected option" where
  "whole_loop capacity acc [] = None"
| "whole_loop capacity acc (Inl e # rs) =
     (if e = interrupted then whole_loop capacity acc rs else Some (Inl (System_error e)))"
| "whole_loop capacity acc (Inr bs # rs) =
     (if bs = [] then Some (Inr acc)
      else whole_loop (if length acc = capacity then 2 * capacity else capacity) (acc @ bs) rs)"

record whole_attempt =
  at_before :: "int + disk_stat"
  at_reads :: "(int + string) list"
  at_after :: "int + disk_stat"

definition k_read_whole_attempts :: nat where
  "k_read_whole_attempts = 8"

definition read_attempt :: "int \<Rightarrow> whole_attempt \<Rightarrow> (file_content \<times> bool) expected option" where
  "read_attempt epoch a =
     (case at_before a of
        Inl e \<Rightarrow> Some (Inl (System_error e))
      | Inr before \<Rightarrow>
          if ds_directory before then Some (Inl Is_a_directory)
          else (case whole_loop (ds_size before + 1) [] (at_reads a) of
                  None \<Rightarrow> None
                | Some (Inl e) \<Rightarrow> Some (Inl e)
                | Some (Inr contents) \<Rightarrow>
                    (case at_after a of
                       Inl e \<Rightarrow> Some (Inl (System_error e))
                     | Inr after \<Rightarrow>
                         Some (Inr (\<lparr>fc_bytes = contents, fc_info = \<lparr>f_size = length contents, f_mtime = to_file_time epoch before\<rparr>\<rparr>,
                           same_version before after \<and> length contents = ds_size before)))))"

fun read_attempts :: "int \<Rightarrow> nat \<Rightarrow> file_content \<Rightarrow> whole_attempt list \<Rightarrow> file_content expected option" where
  "read_attempts epoch 0 latest as = Some (Inr latest)"
| "read_attempts epoch (Suc n) latest [] = None"
| "read_attempts epoch (Suc n) latest (a # as) =
     (case read_attempt epoch a of
        None \<Rightarrow> None
      | Some (Inl e) \<Rightarrow> Some (Inl e)
      | Some (Inr (content, settled)) \<Rightarrow> if settled then Some (Inr content) else read_attempts epoch n content as)"

definition real_read_whole :: "int \<Rightarrow> string list \<Rightarrow> (string list \<Rightarrow> int option) \<Rightarrow> string \<Rightarrow> whole_attempt list \<Rightarrow> file_content expected option" where
  "real_read_whole epoch root fails path as =
     (case resolve root path of
        None \<Rightarrow> Some (Inl No_such_file_or_directory)
      | Some p \<Rightarrow>
          (case fails p of
             Some e \<Rightarrow> Some (Inl (System_error e))
           | None \<Rightarrow> read_attempts epoch k_read_whole_attempts \<lparr>fc_bytes = [], fc_info = \<lparr>f_size = 0, f_mtime = 0\<rparr>\<rparr> as))"

section \<open>The watch\<close>

definition IN_MODIFY :: "32 word" where "IN_MODIFY = 0x2"
definition IN_ATTRIB :: "32 word" where "IN_ATTRIB = 0x4"
definition IN_CLOSE_WRITE :: "32 word" where "IN_CLOSE_WRITE = 0x8"
definition IN_MOVED_FROM :: "32 word" where "IN_MOVED_FROM = 0x40"
definition IN_MOVED_TO :: "32 word" where "IN_MOVED_TO = 0x80"
definition IN_CREATE :: "32 word" where "IN_CREATE = 0x100"
definition IN_DELETE :: "32 word" where "IN_DELETE = 0x200"
definition IN_Q_OVERFLOW :: "32 word" where "IN_Q_OVERFLOW = 0x4000"
definition IN_IGNORED :: "32 word" where "IN_IGNORED = 0x8000"
definition IN_ISDIR :: "32 word" where "IN_ISDIR = 0x40000000"

definition k_watch_mask :: "32 word" where
  "k_watch_mask = IN_CREATE OR IN_DELETE OR IN_MOVED_FROM OR IN_MOVED_TO OR IN_MODIFY OR IN_ATTRIB OR IN_CLOSE_WRITE"

text \<open>
  A directory as \<open>add_watch\<close> meets it: the watch descriptor that it is given, negative if none, and
  the real directories in it that its iteration comes upon.
\<close>

datatype met_directory = Met int "(string \<times> met_directory) list"

type_synonym watches = "int \<Rightarrow> string list option"

fun add_watch :: "string list \<Rightarrow> met_directory \<Rightarrow> watches \<Rightarrow> watches"
and add_watches :: "string list \<Rightarrow> (string \<times> met_directory) list \<Rightarrow> watches \<Rightarrow> watches" where
  "add_watch relative (Met wd subs) w = add_watches relative subs (if 0 \<le> wd then w(wd \<mapsto> relative) else w)"
| "add_watches relative [] w = w"
| "add_watches relative ((name, d) # ds) w = add_watches relative ds (add_watch (relative @ [name]) d w)"

text \<open>A record of inotify; \<open>ie_met\<close> is what \<open>add_watch\<close> meets if the record has it look.\<close>

record inotify_event =
  ie_wd :: int
  ie_mask :: "32 word"
  ie_name :: string
  ie_met :: met_directory

record drained =
  dr_files :: "string list set"
  dr_directories :: "string list set"
  dr_overflowed :: bool
  dr_watches :: watches

definition has_any :: "32 word \<Rightarrow> 32 word \<Rightarrow> bool" where
  "has_any flags bits \<longleftrightarrow> flags AND bits \<noteq> 0"

definition handle_event :: "inotify_event \<Rightarrow> drained \<Rightarrow> drained" where
  "handle_event e d =
     (if has_any (ie_mask e) IN_Q_OVERFLOW then d\<lparr>dr_overflowed := True\<rparr>
      else (case dr_watches d (ie_wd e) of
              None \<Rightarrow> d
            | Some directory \<Rightarrow>
                if has_any (ie_mask e) IN_IGNORED then d\<lparr>dr_watches := (dr_watches d)(ie_wd e := None)\<rparr>
                else if ie_name e = [] then d
                else (let relative = directory @ [ie_name e] in
                      d\<lparr>dr_files := insert relative (dr_files d),
                        dr_directories :=
                          (if has_any (ie_mask e) (IN_CREATE OR IN_DELETE OR IN_MOVED_FROM OR IN_MOVED_TO)
                           then insert directory (dr_directories d) else dr_directories d),
                        dr_watches :=
                          (if has_any (ie_mask e) IN_ISDIR \<and> has_any (ie_mask e) (IN_CREATE OR IN_MOVED_TO)
                           then add_watch relative (ie_met e) (dr_watches d) else dr_watches d)\<rparr>)))"

text \<open>What one \<^verbatim>\<open>read\<close> of inotify gives: its records, an interruption, or nothing more.\<close>

datatype inotify_read = Events "inotify_event list" | Read_cut_short | Drained

fun drain_reads :: "inotify_read list \<Rightarrow> drained \<Rightarrow> drained option" where
  "drain_reads [] d = None"
| "drain_reads (Events es # rs) d = drain_reads rs (fold handle_event es d)"
| "drain_reads (Read_cut_short # rs) d = drain_reads rs d"
| "drain_reads (Drained # rs) d = Some d"

definition says_something :: "tree_diff \<Rightarrow> bool" where
  "says_something d \<longleftrightarrow> everything_dirty d \<or> entries_changed d \<noteq> [] \<or> child_lists_changed d \<noteq> []"

definition diff_of :: "drained \<Rightarrow> tree_diff" where
  "diff_of d = \<lparr>everything_dirty = dr_overflowed d, entries_changed = sorted_list_of_set (dr_files d),
     child_lists_changed = sorted_list_of_set (dr_directories d)\<rparr>"

definition drain_events :: "inotify_read list \<Rightarrow> watches \<Rightarrow> (watches \<times> tree_diff option) option" where
  "drain_events rs w =
     (case drain_reads rs \<lparr>dr_files = {}, dr_directories = {}, dr_overflowed = False, dr_watches = w\<rparr> of
        None \<Rightarrow> None
      | Some d \<Rightarrow> Some (dr_watches d, if says_something (diff_of d) then Some (diff_of d) else None))"

definition start_watcher :: "met_directory \<Rightarrow> watches" where
  "start_watcher met = add_watch [] met (\<lambda>_. None)"

section \<open>Subscribers\<close>

text \<open>The callbacks, in the order that they were added, each under its own key.\<close>

definition real_subscribe :: "nat \<Rightarrow> (nat \<times> 'f) list \<Rightarrow> 'f \<Rightarrow> (nat \<times> 'f) list \<times> nat" where
  "real_subscribe next subs f = (subs @ [(next, f)], next + 1)"

definition real_unsubscribe :: "nat \<Rightarrow> (nat \<times> 'f) list \<Rightarrow> (nat \<times> 'f) list" where
  "real_unsubscribe k subs = filter (\<lambda>s. fst s \<noteq> k) subs"

definition real_notify :: "(nat \<times> 'f) list \<Rightarrow> tree_diff \<Rightarrow> ('f \<times> tree_diff) list" where
  "real_notify subs d = map (\<lambda>s. (snd s, d)) subs"

end
