(* ===== verification/Real_Watch.thy ===== *)
theory Real_Watch
  imports Real_Directory_Tree
begin

text \<open>
  The watch of the source directory beside a directory that changes: directories are made and
  removed while records of inotify wait to be read and while \<open>add_watch\<close> goes down a directory that
  appeared, which it watches first and lists then.  A directory is named by its path, and known to
  the kernel by the number it got when it was made; that number stands for its watch descriptor, too.
  That a watch can be added to a directory that is there, and that no record was lost, is assumed.
\<close>

datatype disk_event = Appeared nat string | Vanished nat string | Forgotten nat

datatype scan = Watch_it "string list" | List_it "string list"

record disk_watch =
  dw_dirs :: "string list \<Rightarrow> nat option"
  dw_next :: nat
  dw_watched :: "nat set"
  dw_queue :: "disk_event list"
  dw_todo :: "scan list"
  dw_watches :: watches

fun inotify_record :: "disk_event \<Rightarrow> inotify_event" where
  "inotify_record (Appeared j n) = \<lparr>ie_wd = int j, ie_mask = IN_CREATE OR IN_ISDIR, ie_name = n, ie_met = Met (- 1) []\<rparr>"
| "inotify_record (Vanished j n) = \<lparr>ie_wd = int j, ie_mask = IN_DELETE OR IN_ISDIR, ie_name = n, ie_met = Met (- 1) []\<rparr>"
| "inotify_record (Forgotten j) = \<lparr>ie_wd = int j, ie_mask = IN_IGNORED, ie_name = [], ie_met = Met (- 1) []\<rparr>"

text \<open>What \<open>add_watch\<close> is to go down after a record.\<close>

fun scan_after :: "watches \<Rightarrow> disk_event \<Rightarrow> scan list" where
  "scan_after w (Appeared j n) = (case w (int j) of None \<Rightarrow> [] | Some d \<Rightarrow> [Watch_it (d @ [n])])"
| "scan_after w _ = []"

definition watches_after :: "watches \<Rightarrow> disk_event \<Rightarrow> watches" where
  "watches_after w e = dr_watches (handle_event (inotify_record e)
     \<lparr>dr_files = {}, dr_directories = {}, dr_overflowed = False, dr_watches = w\<rparr>)"

text \<open>\<open>add_watch\<close>, a step at a time: the watch of a directory, then the directories found in it.\<close>

definition watch_it :: "string list \<Rightarrow> disk_watch \<Rightarrow> disk_watch" where
  "watch_it r s =
     (case dw_dirs s r of
        None \<Rightarrow> s
      | Some i \<Rightarrow> s\<lparr>dw_watched := insert i (dw_watched s), dw_watches := (dw_watches s)(int i \<mapsto> r)\<rparr>)"

inductive disk_step :: "disk_watch \<Rightarrow> disk_watch \<Rightarrow> bool" where
  Make: "dw_dirs s p = Some j \<Longrightarrow> dw_dirs s (p @ [n]) = None \<Longrightarrow> n \<noteq> [] \<Longrightarrow>
    disk_step s (s\<lparr>dw_dirs := (dw_dirs s)(p @ [n] \<mapsto> dw_next s), dw_next := dw_next s + 1,
      dw_queue := dw_queue s @ (if j \<in> dw_watched s then [Appeared j n] else [])\<rparr>)"
| Remove: "dw_dirs s (p @ [n]) = Some i \<Longrightarrow> dw_dirs s p = Some j \<Longrightarrow> (\<And>m. dw_dirs s (p @ [n, m]) = None) \<Longrightarrow>
    disk_step s (s\<lparr>dw_dirs := (dw_dirs s)(p @ [n] := None), dw_watched := dw_watched s - {i},
      dw_queue := dw_queue s @ (if i \<in> dw_watched s then [Forgotten i] else []) @
        (if j \<in> dw_watched s then [Vanished j n] else [])\<rparr>)"
| Take: "dw_todo s = [] \<Longrightarrow> dw_queue s = e # es \<Longrightarrow>
    disk_step s (s\<lparr>dw_queue := es, dw_watches := watches_after (dw_watches s) e, dw_todo := scan_after (dw_watches s) e\<rparr>)"
| Watch: "dw_todo s = Watch_it r # ts \<Longrightarrow> disk_step s ((watch_it r s)\<lparr>dw_todo := List_it r # ts\<rparr>)"
| List: "dw_todo s = List_it r # ts \<Longrightarrow> set ns = {n. dw_dirs s (r @ [n]) \<noteq> None} \<Longrightarrow>
    disk_step s (s\<lparr>dw_todo := map (\<lambda>n. Watch_it (r @ [n])) ns @ ts\<rparr>)"

definition dirs_ok :: "disk_watch \<Rightarrow> bool" where
  "dirs_ok s \<longleftrightarrow>
     (\<forall>p n. dw_dirs s (p @ [n]) \<noteq> None \<longrightarrow> dw_dirs s p \<noteq> None) \<and>
     (\<forall>p q i. dw_dirs s p = Some i \<longrightarrow> dw_dirs s q = Some i \<longrightarrow> p = q) \<and>
     (\<forall>p i. dw_dirs s p = Some i \<longrightarrow> i < dw_next s)"

definition disk_init :: "disk_watch \<Rightarrow> bool" where
  "disk_init s \<longleftrightarrow> dirs_ok s \<and> dw_watched s = {} \<and> dw_queue s = [] \<and> dw_todo s = [Watch_it []] \<and> dw_watches s = (\<lambda>_. None)"

section \<open>Nothing is missed\<close>

text \<open>A directory that is not watched lies under something that is still to be looked at.\<close>

fun to_scan :: "scan list \<Rightarrow> string list \<Rightarrow> bool" where
  "to_scan [] q = False"
| "to_scan (Watch_it r # ts) q = (prefix r q \<or> to_scan ts q)"
| "to_scan (List_it r # ts) q = (strict_prefix r q \<or> to_scan ts q)"

definition to_come :: "disk_watch \<Rightarrow> string list \<Rightarrow> bool" where
  "to_come s q \<longleftrightarrow>
     (\<exists>j n d. Appeared j n \<in> set (dw_queue s) \<and> j \<in> dw_watched s \<and> dw_dirs s d = Some j \<and> prefix (d @ [n]) q)"

definition awaited :: "disk_watch \<Rightarrow> string list \<Rightarrow> bool" where
  "awaited s q \<longleftrightarrow> to_scan (dw_todo s) q \<or> to_come s q"

lemma to_scan_append: "to_scan (xs @ ys) q \<longleftrightarrow> to_scan xs q \<or> to_scan ys q"
  by (induction xs q rule: to_scan.induct) auto

lemma to_scan_watches: "to_scan (map (\<lambda>n. Watch_it (r @ [n])) ns) q \<longleftrightarrow> (\<exists>n \<in> set ns. prefix (r @ [n]) q)"
  by (induction ns) auto

lemma to_scan_below: "to_scan ts q \<Longrightarrow> to_scan ts (q @ [n])"
  by (induction ts q rule: to_scan.induct) (auto simp: strict_prefix_def)

lemma to_come_below: "to_come s q \<Longrightarrow> to_come s (q @ [n])"
  unfolding to_come_def by (meson prefix_order.trans prefixI)

lemma to_comeI: "Appeared j n \<in> set (dw_queue s) \<Longrightarrow> j \<in> dw_watched s \<Longrightarrow> dw_dirs s d = Some j \<Longrightarrow> prefix (d @ [n]) q \<Longrightarrow> to_come s q"
  unfolding to_come_def by blast

lemma to_come_mono:
  assumes "to_come s q"
    and "\<And>j n d. Appeared j n \<in> set (dw_queue s) \<Longrightarrow> j \<in> dw_watched s \<Longrightarrow> dw_dirs s d = Some j \<Longrightarrow> prefix (d @ [n]) q \<Longrightarrow>
      Appeared j n \<in> set (dw_queue t) \<and> j \<in> dw_watched t \<and> dw_dirs t d = Some j"
  shows "to_come t q"
  using assms unfolding to_come_def by meson

definition kernel_ok :: "disk_watch \<Rightarrow> bool" where
  "kernel_ok s \<longleftrightarrow>
     (\<forall>i \<in> dw_watched s. \<exists>p. dw_dirs s p = Some i \<and> dw_watches s (int i) = Some p) \<and>
     (\<forall>i p. Forgotten i \<in> set (dw_queue s) \<longrightarrow> i < dw_next s \<and> dw_dirs s p \<noteq> Some i) \<and>
     (\<forall>j n. Appeared j n \<in> set (dw_queue s) \<longrightarrow> n \<noteq> [])"

definition disk_ok :: "disk_watch \<Rightarrow> bool" where
  "disk_ok s \<longleftrightarrow> dirs_ok s \<and> kernel_ok s \<and> (\<forall>q i. dw_dirs s q = Some i \<longrightarrow> i \<in> dw_watched s \<or> awaited s q)"

lemma dirs_okD:
  assumes "dirs_ok s"
  shows "dw_dirs s (p @ [n]) \<noteq> None \<Longrightarrow> dw_dirs s p \<noteq> None"
    and "dw_dirs s p = Some i \<Longrightarrow> dw_dirs s q = Some i \<Longrightarrow> p = q"
    and "dw_dirs s p = Some i \<Longrightarrow> i < dw_next s"
  using assms unfolding dirs_ok_def by blast+

lemma dirs_prefix:
  assumes "dirs_ok s" "dw_dirs s q \<noteq> None" "prefix p q"
  shows "dw_dirs s p \<noteq> None"
  using assms(2,3)
proof (induction q rule: rev_induct)
  case (snoc n q)
  then show ?case using dirs_okD(1) [OF assms(1), of q n] by auto
qed simp

lemma kernel_okD:
  assumes "kernel_ok s"
  shows "i \<in> dw_watched s \<Longrightarrow> \<exists>p. dw_dirs s p = Some i \<and> dw_watches s (int i) = Some p"
    and "Forgotten i \<in> set (dw_queue s) \<Longrightarrow> i < dw_next s \<and> dw_dirs s p \<noteq> Some i"
    and "Appeared j n \<in> set (dw_queue s) \<Longrightarrow> n \<noteq> []"
  using assms unfolding kernel_ok_def by blast+

lemma disk_okD:
  assumes "disk_ok s"
  shows "dirs_ok s" "kernel_ok s" "dw_dirs s q = Some i \<Longrightarrow> i \<in> dw_watched s \<or> awaited s q"
  using assms unfolding disk_ok_def by blast+

lemma event_masks:
  "\<not> has_any (IN_CREATE OR IN_ISDIR) IN_Q_OVERFLOW" "\<not> has_any (IN_CREATE OR IN_ISDIR) IN_IGNORED"
  "\<not> has_any (IN_DELETE OR IN_ISDIR) IN_Q_OVERFLOW" "\<not> has_any (IN_DELETE OR IN_ISDIR) IN_IGNORED"
  "\<not> has_any IN_IGNORED IN_Q_OVERFLOW" "has_any IN_IGNORED IN_IGNORED"
  "\<not> has_any (IN_DELETE OR IN_ISDIR) (IN_CREATE OR IN_MOVED_TO)"
  by (simp_all add: has_any_def IN_CREATE_def IN_DELETE_def IN_ISDIR_def IN_Q_OVERFLOW_def IN_IGNORED_def IN_MOVED_TO_def)

lemma watches_after_simps [simp]:
  "watches_after w (Appeared j n) = w" "watches_after w (Vanished j n) = w" "watches_after w (Forgotten i) = w(int i := None)"
  by (auto simp: watches_after_def handle_event_def event_masks Let_def split: option.splits)

lemma make_ok:
  assumes ok: "disk_ok s" and p: "dw_dirs s p = Some j" "dw_dirs s (p @ [n]) = None" "n \<noteq> []"
    and t: "t = s\<lparr>dw_dirs := (dw_dirs s)(p @ [n] \<mapsto> dw_next s), dw_next := dw_next s + 1,
      dw_queue := dw_queue s @ (if j \<in> dw_watched s then [Appeared j n] else [])\<rparr>"
  shows "disk_ok t"
proof -
  note d = dirs_okD [OF disk_okD(1) [OF ok]] and k = kernel_okD [OF disk_okD(2) [OF ok]]
  have new: "q = p @ [n] \<and> i = dw_next s \<or> q \<noteq> p @ [n] \<and> dw_dirs s q = Some i" if "dw_dirs t q = Some i" for q i
    using that by (auto simp: t split: if_splits)
  have old: "dw_dirs t q = Some i" if "dw_dirs s q = Some i" for q i using that p(2) by (auto simp: t)
  have "dirs_ok t"
    unfolding dirs_ok_def
  proof (intro conjI allI impI)
    fix q m assume "dw_dirs t (q @ [m]) \<noteq> None"
    then have "q = p \<or> dw_dirs s (q @ [m]) \<noteq> None" by (auto simp: t split: if_splits)
    then have "dw_dirs s q \<noteq> None" using d(1) p(1) by auto
    then show "dw_dirs t q \<noteq> None" using old by auto
  next
    fix q r i assume "dw_dirs t q = Some i" "dw_dirs t r = Some i"
    then show "q = r" using new [of q i] new [of r i] d(2) d(3) by blast
  next
    fix q i assume "dw_dirs t q = Some i"
    then show "i < dw_next t" using new [of q i] d(3) by (auto simp: t less_Suc_eq)
  qed
  moreover have "kernel_ok t"
    unfolding kernel_ok_def
  proof (intro conjI allI ballI impI)
    fix i assume "i \<in> dw_watched t"
    then obtain q where "dw_dirs s q = Some i" "dw_watches s (int i) = Some q" using k(1) by (auto simp: t)
    then show "\<exists>q. dw_dirs t q = Some i \<and> dw_watches t (int i) = Some q" using old by (auto simp: t)
  next
    fix i q assume f: "Forgotten i \<in> set (dw_queue t)"
    then have f: "Forgotten i \<in> set (dw_queue s)" by (auto simp: t split: if_splits)
    from k(2) [OF f, of q] show "i < dw_next t" by (simp add: t)
    show "dw_dirs t q \<noteq> Some i" using new [of q i] k(2) [OF f, of q] by auto
  next
    fix j' m assume "Appeared j' m \<in> set (dw_queue t)"
    then show "m \<noteq> []" using k(3) p(3) by (auto simp: t split: if_splits)
  qed
  moreover have "i \<in> dw_watched t \<or> awaited t q" if q: "dw_dirs t q = Some i" for q i
  proof -
    have keep: "awaited t r" if "awaited s r" for r
    proof (cases "to_come s r")
      case True
      have "to_come t r" by (rule to_come_mono [OF True]) (use old in \<open>auto simp: t\<close>)
      then show ?thesis by (simp add: awaited_def)
    qed (use that in \<open>simp add: awaited_def t\<close>)
    from new [OF q] show ?thesis
    proof
      assume "q \<noteq> p @ [n] \<and> dw_dirs s q = Some i"
      then show ?thesis using disk_okD(3) [OF ok, of q i] keep by (auto simp: t)
    next
      assume q: "q = p @ [n] \<and> i = dw_next s"
      show ?thesis
      proof (cases "j \<in> dw_watched s")
        case True
        then have "to_come t q" by (intro to_comeI [of j n _ p]) (use old [OF p(1)] q in \<open>simp_all add: t\<close>)
        then show ?thesis by (simp add: awaited_def)
      next
        case False
        with disk_okD(3) [OF ok p(1)] have "awaited s p" by blast
        then have "awaited s q" using q to_scan_below to_come_below unfolding awaited_def by auto
        with keep show ?thesis by blast
      qed
    qed
  qed
  ultimately show ?thesis by (simp add: disk_ok_def)
qed

lemma remove_ok:
  assumes ok: "disk_ok s" and p: "dw_dirs s (p @ [n]) = Some i" "dw_dirs s p = Some j" "\<And>m. dw_dirs s (p @ [n, m]) = None"
    and t: "t = s\<lparr>dw_dirs := (dw_dirs s)(p @ [n] := None), dw_watched := dw_watched s - {i},
      dw_queue := dw_queue s @ (if i \<in> dw_watched s then [Forgotten i] else []) @ (if j \<in> dw_watched s then [Vanished j n] else [])\<rparr>"
  shows "disk_ok t"
proof -
  note d = dirs_okD [OF disk_okD(1) [OF ok]] and k = kernel_okD [OF disk_okD(2) [OF ok]]
  have old: "dw_dirs t q = Some x \<longleftrightarrow> q \<noteq> p @ [n] \<and> dw_dirs s q = Some x" for q x by (auto simp: t)
  have other: "x \<noteq> i" if "dw_dirs s q = Some x" "q \<noteq> p @ [n]" for q x using that d(2) p(1) by blast
  have "dirs_ok t"
    unfolding dirs_ok_def
  proof (intro conjI allI impI)
    fix q m assume a: "dw_dirs t (q @ [m]) \<noteq> None"
    then have q: "dw_dirs s (q @ [m]) \<noteq> None" by (auto simp: t split: if_splits)
    with p(3) have "q \<noteq> p @ [n]" by auto
    then show "dw_dirs t q \<noteq> None" using d(1) [OF q] by (auto simp: t)
  next
    fix q r x assume "dw_dirs t q = Some x" "dw_dirs t r = Some x"
    then show "q = r" using d(2) by (auto simp: old)
  next
    fix q x assume "dw_dirs t q = Some x"
    then show "x < dw_next t" using d(3) [of q x] by (auto simp: old) (simp add: t)
  qed
  moreover have "kernel_ok t"
    unfolding kernel_ok_def
  proof (intro conjI allI ballI impI)
    fix x assume "x \<in> dw_watched t"
    then have x: "x \<in> dw_watched s" "x \<noteq> i" by (auto simp: t)
    with k(1) obtain q where q: "dw_dirs s q = Some x" "dw_watches s (int x) = Some q" by blast
    then have "q \<noteq> p @ [n]" using p(1) x(2) by auto
    with q show "\<exists>q. dw_dirs t q = Some x \<and> dw_watches t (int x) = Some q" by (auto simp: t)
  next
    fix x q assume "Forgotten x \<in> set (dw_queue t)"
    then have f: "Forgotten x \<in> set (dw_queue s) \<or> x = i" by (auto simp: t split: if_splits)
    show "x < dw_next t" using f k(2) d(3) [OF p(1)] by (auto simp: t)
    show "dw_dirs t q \<noteq> Some x" using f k(2) other by (auto simp: old)
  next
    fix j' m assume "Appeared j' m \<in> set (dw_queue t)"
    then show "m \<noteq> []" using k(3) by (auto simp: t split: if_splits)
  qed
  moreover have "x \<in> dw_watched t \<or> awaited t q" if q: "dw_dirs t q = Some x" for q x
  proof -
    from q have q: "q \<noteq> p @ [n]" "dw_dirs s q = Some x" by (simp_all add: old)
    have keep: "awaited t q" if come: "awaited s q"
    proof (cases "to_come s q")
      case True
      have live: "j' \<in> dw_watched t \<and> dw_dirs t e = Some j'"
        if e: "j' \<in> dw_watched s" "dw_dirs s e = Some j'" "prefix (e @ [m]) q" for j' e m
      proof -
        have "e \<noteq> p @ [n]"
        proof
          assume "e = p @ [n]"
          then have "dw_dirs s (p @ [n, m]) \<noteq> None"
            using dirs_prefix [OF disk_okD(1) [OF ok], of q "p @ [n, m]"] q(2) e(3) by simp
          with p(3) [of m] show False by simp
        qed
        with e other show ?thesis by (auto simp: t)
      qed
      have "to_come t q" by (rule to_come_mono [OF True]) (use live in \<open>auto simp: t\<close>)
      then show ?thesis by (simp add: awaited_def)
    qed (use come in \<open>simp add: awaited_def t\<close>)
    show ?thesis using disk_okD(3) [OF ok q(2)] keep other [OF q(2,1)] by (auto simp: t)
  qed
  ultimately show ?thesis by (simp add: disk_ok_def)
qed

lemma take_ok:
  assumes ok: "disk_ok s" and q: "dw_todo s = []" "dw_queue s = e # es"
    and t: "t = s\<lparr>dw_queue := es, dw_watches := watches_after (dw_watches s) e, dw_todo := scan_after (dw_watches s) e\<rparr>"
  shows "disk_ok t"
proof -
  note k = kernel_okD [OF disk_okD(2) [OF ok]]
  have same: "dw_dirs t = dw_dirs s" "dw_watched t = dw_watched s" "dw_next t = dw_next s" "dw_queue t = es" by (simp_all add: t)
  have "dirs_ok t" using disk_okD(1) [OF ok] by (simp add: dirs_ok_def same)
  moreover have w: "dw_watches t (int i) = dw_watches s (int i)" if i: "i \<in> dw_watched s" for i
  proof -
    from k(1) [OF i] obtain p where "dw_dirs s p = Some i" by blast
    then have "e \<noteq> Forgotten i" using k(2) [of i p] q(2) by auto
    then show ?thesis by (cases e) (auto simp: t)
  qed
  then have "kernel_ok t"
    using disk_okD(2) [OF ok] q(2) unfolding kernel_ok_def same by auto
  moreover have "i \<in> dw_watched t \<or> awaited t p" if p: "dw_dirs t p = Some i" for p i
  proof (cases "i \<in> dw_watched s")
    case False
    then have "awaited s p" using disk_okD(3) [OF ok, of p i] p same by simp
    then obtain j n d where a: "Appeared j n \<in> set (dw_queue s)" "j \<in> dw_watched s" "dw_dirs s d = Some j" "prefix (d @ [n]) p"
      using q(1) by (auto simp: awaited_def to_come_def)
    show ?thesis
    proof (cases "e = Appeared j n")
      case True
      from k(1) [OF a(2)] a(3) have "dw_watches s (int j) = Some d" using dirs_okD(2) [OF disk_okD(1) [OF ok]] by metis
      with True a(4) have "awaited t p" by (auto simp: awaited_def t)
      then show ?thesis ..
    next
      case False
      with a q(2) have "to_come t p" by (intro to_comeI [of j n _ d]) (auto simp: same)
      then show ?thesis by (simp add: awaited_def)
    qed
  qed (simp add: same)
  ultimately show ?thesis by (simp add: disk_ok_def)
qed

lemma watch_it_ok:
  assumes ok: "disk_ok s" and todo: "dw_todo s = Watch_it r # ts" and t: "t = (watch_it r s)\<lparr>dw_todo := List_it r # ts\<rparr>"
  shows "disk_ok t"
proof -
  note d = dirs_okD [OF disk_okD(1) [OF ok]] and k = kernel_okD [OF disk_okD(2) [OF ok]]
  have same: "dw_dirs t = dw_dirs s" "dw_next t = dw_next s" "dw_queue t = dw_queue s" "dw_todo t = List_it r # ts"
    by (simp_all add: t watch_it_def split: option.splits)
  have watched: "dw_watched t = dw_watched s \<union> set_option (dw_dirs s r)" by (auto simp: t watch_it_def split: option.splits)
  have watches: "dw_watches t (int i) = (if dw_dirs s r = Some i then Some r else dw_watches s (int i))" for i
    by (auto simp: t watch_it_def split: option.splits)
  have "dirs_ok t" using disk_okD(1) [OF ok] by (simp add: dirs_ok_def same)
  moreover have "\<exists>p. dw_dirs t p = Some i \<and> dw_watches t (int i) = Some p" if "i \<in> dw_watched t" for i
    using that k(1) [of i] d(2) by (cases "dw_dirs s r = Some i") (auto simp: same watched watches)
  then have "kernel_ok t" using disk_okD(2) [OF ok] unfolding kernel_ok_def same by blast
  moreover have "i \<in> dw_watched t \<or> awaited t q" if q: "dw_dirs t q = Some i" for q i
  proof (cases "i \<in> dw_watched s")
    case False
    then have "awaited s q" using disk_okD(3) [OF ok, of q i] q same by simp
    then consider "prefix r q" | "to_scan ts q" | "to_come s q" by (auto simp: awaited_def todo)
    then show ?thesis
    proof cases
      case 1
      then show ?thesis
        using q by (cases "q = r") (auto simp: watched same awaited_def strict_prefix_def)
    next
      case 2
      then show ?thesis by (simp add: awaited_def same)
    next
      case 3
      have "to_come t q" by (rule to_come_mono [OF 3]) (auto simp: same watched)
      then show ?thesis by (simp add: awaited_def)
    qed
  qed (simp add: watched)
  ultimately show ?thesis by (simp add: disk_ok_def)
qed

lemma list_step_ok:
  assumes ok: "disk_ok s" and todo: "dw_todo s = List_it r # ts" and ns: "set ns = {n. dw_dirs s (r @ [n]) \<noteq> None}"
    and t: "t = s\<lparr>dw_todo := map (\<lambda>n. Watch_it (r @ [n])) ns @ ts\<rparr>"
  shows "disk_ok t"
proof -
  have "dirs_ok t" "kernel_ok t" using disk_okD(1,2) [OF ok] by (simp_all add: t dirs_ok_def kernel_ok_def)
  moreover have "i \<in> dw_watched t \<or> awaited t q" if q: "dw_dirs t q = Some i" for q i
  proof (cases "i \<in> dw_watched s")
    case False
    then have "awaited s q" using disk_okD(3) [OF ok, of q i] q by (simp add: t)
    then consider "strict_prefix r q" | "to_scan ts q" | "to_come s q" by (auto simp: awaited_def todo)
    then show ?thesis
    proof cases
      case 1
      then obtain z where z: "q = r @ z" "z \<noteq> []" by (auto simp: strict_prefix_def prefix_def)
      then obtain n x where qx: "q = (r @ [n]) @ x" by (cases z) auto
      then have "dw_dirs s (r @ [n]) \<noteq> None"
        using dirs_prefix [OF disk_okD(1) [OF ok], of q "r @ [n]"] q by (simp add: t)
      then have "n \<in> set ns" using ns by simp
      then have "\<exists>n \<in> set ns. prefix (r @ [n]) q" using qx by auto
      then show ?thesis by (simp add: awaited_def t to_scan_append to_scan_watches)
    next
      case 2
      then show ?thesis by (simp add: awaited_def t to_scan_append)
    next
      case 3
      have "to_come t q" by (rule to_come_mono [OF 3]) (auto simp: t)
      then show ?thesis by (simp add: awaited_def)
    qed
  qed (simp add: t)
  ultimately show ?thesis by (simp add: disk_ok_def)
qed

lemma disk_step_ok: "disk_ok s \<Longrightarrow> disk_step s t \<Longrightarrow> disk_ok t"
  by (erule disk_step.cases) (blast intro: make_ok remove_ok take_ok watch_it_ok list_step_ok)+

lemma disk_init_ok: "disk_init s \<Longrightarrow> disk_ok s"
  by (auto simp: disk_init_def disk_ok_def kernel_ok_def awaited_def)

interpretation disk: transition_system disk_init disk_step disk_ok
  by unfold_locales (blast intro: disk_init_ok disk_step_ok)+

end
