(* ===== verification/Real_Properties.thy ===== *)
theory Real_Properties
  imports Real_Watch Mount_Requests Build_Tree
begin

text \<open>
  What the source directory guarantees of its queries and of its watch, and where a change of it goes
  unnoticed.
\<close>

section \<open>Paths stay inside\<close>

text \<open>Whatever the path that is asked for, the path on disk does not climb out of the root.\<close>

theorem resolve_confined:
  assumes "resolve root path = Some p"
  shows "\<exists>ns. p = root @ ns \<and> ''..'' \<notin> set ns"
proof (cases "path = []")
  case True
  with assms show ?thesis by (simp add: resolve_def)
next
  case False
  let ?r = "normal_loop (is_rooted path) (split_on (CHR ''/'') path) [] False"
  obtain names slash where n: "lexically_normal path = (names, slash)" by (cases "lexically_normal path")
  then have r: "fst ?r = names" by (simp add: lexically_normal_def)
  have "normal_stack []" by (simp add: normal_stack_def)
  then have "normal_stack (rev (fst ?r))" by (rule normal_loop_stack) (rule split_on_pieces)
  then obtain us vs where s: "rev names = us @ vs" "\<forall>n \<in> set us. name_ok n" "\<forall>n \<in> set vs. n = ''..''"
    unfolding r normal_stack_def by blast
  then have rn: "names = rev vs @ rev us" by (metis rev_append rev_rev_ident)
  from assms False n have p: "names = [] \<or> hd names \<noteq> ''..''" "p = root @ (if names = [] then [''.''] else names)"
    by (auto simp: resolve_def split: if_splits)
  have "vs = []"
  proof (cases vs rule: rev_cases)
    case (snoc xs x)
    with s(3) rn have "names \<noteq> []" "hd names = ''..''" by simp_all
    with p(1) show ?thesis by simp
  qed
  with rn s(2) have "''..'' \<notin> set names" by (auto simp: name_ok_def)
  with p(2) show ?thesis by auto
qed

section \<open>Reading\<close>

text \<open>The results that \<^verbatim>\<open>pread\<close> may give of what is left of a file that does not change, into what is left of a buffer.\<close>

fun preads :: "string \<Rightarrow> nat \<Rightarrow> (int + string) list \<Rightarrow> bool" where
  "preads rest room [] = True"
| "preads rest room (Inl e # rs) = preads rest room rs"
| "preads rest room (Inr bs # rs) =
     (prefix bs rest \<and> length bs \<le> room \<and> (bs = [] \<longrightarrow> rest = [] \<or> room = 0) \<and> preads (drop (length bs) rest) (room - length bs) rs)"

lemma pread_loop_exact:
  assumes "pread_loop capacity acc rs = Some (Inr out)" "preads rest (capacity - length acc) rs" "length acc \<le> capacity"
  shows "out = acc @ take (capacity - length acc) rest"
  using assms
proof (induction rs arbitrary: acc rest)
  case Nil
  then show ?case by (subst (asm) pread_loop.simps) (auto split: if_splits)
next
  case (Cons r rs)
  show ?case
  proof (cases "capacity \<le> length acc")
    case True
    with Cons.prems show ?thesis by (subst (asm) pread_loop.simps) auto
  next
    case False
    show ?thesis
    proof (cases r)
      case (Inl e)
      with Cons.prems False show ?thesis
        by (intro Cons.IH) (auto simp: pread_loop.simps [of _ _ "_ # _"] split: if_splits)
    next
      case (Inr bs)
      from Cons.prems(2) Inr obtain rest' where rest: "rest = bs @ rest'" and b: "length bs \<le> capacity - length acc"
        "bs = [] \<longrightarrow> rest = []" "preads rest' (capacity - length acc - length bs) rs"
        using False by (auto simp: prefix_def)
      show ?thesis
      proof (cases "bs = []")
        case True
        with Cons.prems(1) Inr False b rest show ?thesis by (auto simp: pread_loop.simps [of _ _ "_ # _"])
      next
        case ne: False
        with Cons.prems(1) Inr False have "pread_loop capacity (acc @ bs) rs = Some (Inr out)"
          by (auto simp: pread_loop.simps [of _ _ "_ # _"])
        from Cons.IH [OF this, of rest'] b Cons.prems(3) False rest show ?thesis by (auto simp: take_append)
      qed
    qed
  qed
qed

text \<open>
  A read of a file that does not change gives the bytes that are there, however the system cuts
  them into pieces: shorter than asked for only at the end of the file.
\<close>

theorem read_exact:
  assumes "real_read root fails path offset len rs = Some (Inr out)" "preads (drop (nat offset) content) len rs"
  shows "out = take len (drop (nat offset) content)"
  using assms pread_loop_exact [of len "[]" rs out "drop (nat offset) content"]
  by (auto simp: real_read_def split: option.splits if_splits)

lemma whole_loop_exact:
  assumes "whole_loop capacity acc rs = Some (Inr out)" "\<exists>room. preads rest room rs \<and> length rest < room"
  shows "out = acc @ rest"
  using assms
proof (induction capacity acc rs arbitrary: rest rule: whole_loop.induct)
  case (2 capacity acc e rs)
  then show ?case by (auto split: if_splits)
next
  case (3 capacity acc bs rs)
  then obtain room rest' where r: "rest = bs @ rest'" "bs = [] \<longrightarrow> rest = []" "preads rest' (room - length bs) rs" "length rest < room"
    by (auto simp: prefix_def)
  show ?case
  proof (cases "bs = []")
    case True
    with 3(2) r show ?thesis by simp
  next
    case False
    have "\<exists>room. preads rest' room rs \<and> length rest' < room" using r by (intro exI [of _ "room - length bs"]) auto
    with 3 False r show ?thesis by auto
  qed
qed simp

text \<open>
  A file that does not change while it is first read is given whole, with its size and its time,
  and is read no second time.
\<close>

theorem whole_read_settles:
  assumes "resolve root path = Some p" "fails p = None" and "at_before a = Inr st" "\<not> ds_directory st" "at_after a = Inr st'"
    and "ds_size st = length content" "same_version st st'"
    and "whole_loop (ds_size st + 1) [] (at_reads a) = Some (Inr out)" "preads content (Suc (length content)) (at_reads a)"
  shows "real_read_whole epoch root fails path (a # as) =
    Some (Inr \<lparr>fc_bytes = content, fc_info = \<lparr>f_size = length content, f_mtime = to_file_time epoch st\<rparr>\<rparr>)"
proof -
  have "out = content"
    using whole_loop_exact [OF assms(8), of content] assms(9) by (auto intro: exI [of _ "Suc (length content)"])
  then show ?thesis
    using assms by (simp add: real_read_whole_def k_read_whole_attempts_def eval_nat_numeral read_attempt_def)
qed

text \<open>The time of a file on disk is the one that the mount shows of it.\<close>

theorem mtime_round_trip:
  assumes "0 \<le> ds_nsec st" "ds_nsec st < 1000000000"
  shows "to_timespec epoch (to_file_time epoch st) = (ds_sec st, ds_nsec st)"
  using assms by (simp add: to_timespec_def to_file_time_def Let_def)

section \<open>The diff of a batch of records\<close>











definition demo_record :: inotify_event where
  "demo_record = \<lparr>ie_wd = 1, ie_mask = IN_CREATE, ie_name = ''a'', ie_met = Met (- 1) []\<rparr>"

definition demo_lost :: inotify_event where
  "demo_lost = \<lparr>ie_wd = - 1, ie_mask = IN_Q_OVERFLOW, ie_name = [], ie_met = Met (- 1) []\<rparr>"

lemma demo_drain:
  "drain_events [Events [demo_record, demo_lost], Drained] [1 \<mapsto> [''d'']] =
    Some ([1 \<mapsto> [''d'']], Some \<lparr>everything_dirty = True, entries_changed = [[''d'', ''a'']], child_lists_changed = [[''d'']]\<rparr>)"
  by (simp add: drain_events_def demo_record_def demo_lost_def handle_event_def has_any_def IN_CREATE_def IN_Q_OVERFLOW_def
      IN_IGNORED_def IN_DELETE_def IN_MOVED_FROM_def IN_MOVED_TO_def IN_ISDIR_def says_something_def diff_of_def Let_def)


text \<open>
  A diff that is dirty throughout may name entries all the same, where the interface says that it
  names none.
\<close>

theorem overflow_keeps_entries:
  "\<exists>rs w w' d. drain_events rs w = Some (w', Some d) \<and> everything_dirty d \<and> entries_changed d \<noteq> []"
  using demo_drain by (metis (no_types, lifting) list.distinct(1) tree_diff.select_convs(1,2))

section \<open>Which changes are seen\<close>





text \<open>
  A directory that is moved is reported by its own name and as a change of its parent, whatever is in
  it; so an output that read a file beneath it, but nothing by the directory's name, is not among
  those affected.
\<close>

theorem moved_directory_not_noticed:
  assumes e: "ie_mask e = IN_MOVED_FROM OR IN_ISDIR \<or> ie_mask e = IN_MOVED_TO OR IN_ISDIR" "ie_name e \<noteq> []"
    and w: "w (ie_wd e) = Some dir"
  shows "\<exists>w'. drain_events [Events [e], Drained] w =
      Some (w', Some \<lparr>everything_dirty = False, entries_changed = [dir @ [ie_name e]], child_lists_changed = [dir]\<rparr>)"
    and "b_dependents b (dir @ [ie_name e]) = [] \<Longrightarrow>
      affected \<lparr>everything_dirty = False, entries_changed = [dir @ [ie_name e]], child_lists_changed = [dir]\<rparr> b = []"
proof -
  have m: "\<not> has_any (ie_mask e) IN_Q_OVERFLOW" "\<not> has_any (ie_mask e) IN_IGNORED"
    "has_any (ie_mask e) (IN_CREATE OR IN_DELETE OR IN_MOVED_FROM OR IN_MOVED_TO)"
    using e(1) by (auto simp: has_any_def IN_CREATE_def IN_DELETE_def IN_ISDIR_def IN_Q_OVERFLOW_def IN_IGNORED_def
        IN_MOVED_TO_def IN_MOVED_FROM_def)
  show "\<exists>w'. drain_events [Events [e], Drained] w =
      Some (w', Some \<lparr>everything_dirty = False, entries_changed = [dir @ [ie_name e]], child_lists_changed = [dir]\<rparr>)"
    using e(2) w m by (simp add: drain_events_def handle_event_def says_something_def diff_of_def Let_def)
  show "b_dependents b (dir @ [ie_name e]) = [] \<Longrightarrow>
      affected \<lparr>everything_dirty = False, entries_changed = [dir @ [ie_name e]], child_lists_changed = [dir]\<rparr> b = []"
    by (simp add: affected_def)
qed

end
