(* ===== verification/File_Util.thy ===== *)
theory File_Util
  imports Paths
begin

text \<open>
  \<^verbatim>\<open>FileSystemUtil\<close> (\<^verbatim>\<open>src/filesystemutil.cpp\<close>, the branches of POSIX): the loops that read and write
  a whole file over the results of the system calls, whether two directories overlap, and hiding.
\<close>

section \<open>The functions\<close>

text \<open>\<^verbatim>\<open>mismatch\<close> of two paths made canonical, and whether both have a component left there.\<close>

fun both_left :: "string list \<Rightarrow> string list \<Rightarrow> bool" where
  "both_left (a # as) (b # bs) = (a \<noteq> b \<or> both_left as bs)"
| "both_left _ _ = False"

definition are_disjoint :: "(string list \<Rightarrow> string list) \<Rightarrow> string list \<Rightarrow> string list \<Rightarrow> bool" where
  "are_disjoint canonical a b = both_left (canonical a) (canonical b)"

definition cut_short :: int where
  "cut_short = 4"

fun read_loop :: "string \<Rightarrow> (int + string) list \<Rightarrow> string expected option" where
  "read_loop contents [] = None"
| "read_loop contents (Inl e # rs) = (if e = cut_short then read_loop contents rs else Some (Inl (System_error e)))"
| "read_loop contents (Inr bs # rs) = (if bs = [] then Some (Inr contents) else read_loop (contents @ bs) rs)"

definition read_file :: "int option \<Rightarrow> (int + string) list \<Rightarrow> string expected option" where
  "read_file failed rs = (case failed of Some e \<Rightarrow> Some (Inl (System_error e)) | None \<Rightarrow> read_loop [] rs)"

text \<open>What reached the file, beside the result: each write takes some of what is left.\<close>

fun write_loop :: "string \<Rightarrow> (int + nat) list \<Rightarrow> (string \<times> error_code) option" where
  "write_loop [] rs = Some ([], No_error)"
| "write_loop (c # cs) [] = None"
| "write_loop (c # cs) (Inl e # rs) = (if e = cut_short then write_loop (c # cs) rs else Some ([], System_error e))"
| "write_loop (c # cs) (Inr n # rs) =
     (case write_loop (drop n (c # cs)) rs of
        None \<Rightarrow> None
      | Some (written, e) \<Rightarrow> Some (take n (c # cs) @ written, e))"

definition write_file :: "int option \<Rightarrow> string \<Rightarrow> (int + nat) list \<Rightarrow> (string \<times> error_code) option" where
  "write_file failed contents rs = (case failed of Some e \<Rightarrow> Some ([], System_error e) | None \<Rightarrow> write_loop contents rs)"

definition hide_file :: "bool expected \<Rightarrow> error_code" where
  "hide_file there = (case there of Inl e \<Rightarrow> e | Inr b \<Rightarrow> if b then No_error else No_such_file_or_directory)"

section \<open>What they do\<close>

text \<open>Two directories are disjoint exactly if neither is, or lies in, the other.\<close>

theorem are_disjoint_exact:
  "are_disjoint canonical a b \<longleftrightarrow> \<not> prefix (canonical a) (canonical b) \<and> \<not> prefix (canonical b) (canonical a)"
proof -
  have "both_left x y \<longleftrightarrow> \<not> prefix x y \<and> \<not> prefix y x" for x y
    by (induction x y rule: both_left.induct) auto
  then show ?thesis by (simp add: are_disjoint_def)
qed

text \<open>What was written is a beginning of the contents, and all of them if there was no error.\<close>

lemma write_loop_prefix:
  "write_loop contents rs = Some (written, e) \<Longrightarrow> prefix written contents \<and> (e = No_error \<longrightarrow> written = contents)"
proof (induction contents rs arbitrary: written rule: write_loop.induct)
  case (4 c cs n rs)
  then obtain w where w: "write_loop (drop n (c # cs)) rs = Some (w, e)" "written = take n (c # cs) @ w"
    by (auto split: option.splits)
  with 4(1) [OF w(1)] show ?case by (metis append_take_drop_id same_prefix_prefix)
qed (auto split: if_splits)

text \<open>The bytes that a file gives: some of what is left, until there is none.\<close>

fun gives :: "string \<Rightarrow> (int + string) list \<Rightarrow> bool" where
  "gives rest [] = True"
| "gives rest (Inl e # rs) = gives rest rs"
| "gives rest (Inr bs # rs) = (prefix bs rest \<and> (bs = [] \<longrightarrow> rest = []) \<and> gives (drop (length bs) rest) rs)"

text \<open>A file that was written without an error is read back as it was, in whatever pieces both go.\<close>

theorem written_is_read:
  assumes "write_file None contents ws = Some (written, No_error)" "read_file None rs = Some (Inr out)" "gives written rs"
  shows "out = contents"
proof -
  have "read_loop acc rs = Some (Inr out) \<Longrightarrow> gives rest rs \<Longrightarrow> out = acc @ rest" for acc rest
  proof (induction acc rs arbitrary: rest rule: read_loop.induct)
    case (3 acc bs rs)
    then show ?case by (auto simp: prefix_def split: if_splits)
  qed (auto split: if_splits)
  from this [of "[]" written] assms write_loop_prefix [of contents ws written No_error] show ?thesis
    by (simp add: read_file_def write_file_def)
qed

end
