(* ===== verification/Linked_Node.thy ===== *)
theory Linked_Node
  imports Prelude
begin

text \<open>
  The intrusive circular list of \<^verbatim>\<open>src/linkednode.hpp\<close>: the two links of every node in a
  store, and the four assignments by which a node joins or leaves a list.  \<open>circle\<close> relates a list
  in the store to the sequence of its nodes.  The locale \<open>wait_lists\<close> states what an event loop
  needs of several lists over the same nodes, and is interpreted on the store at the end.
\<close>

section \<open>The store of links\<close>

record 'n links =
  ln_prev :: "'n \<Rightarrow> 'n"
  ln_next :: "'n \<Rightarrow> 'n"

definition link_alone :: "'n links \<Rightarrow> 'n \<Rightarrow> bool" where
  "link_alone L n \<longleftrightarrow> ln_next L n = n"

definition set_prev :: "'n \<Rightarrow> 'n \<Rightarrow> 'n links \<Rightarrow> 'n links" where
  "set_prev n m L = L\<lparr>ln_prev := (ln_prev L)(n := m)\<rparr>"

definition set_next :: "'n \<Rightarrow> 'n \<Rightarrow> 'n links \<Rightarrow> 'n links" where
  "set_next n m L = L\<lparr>ln_next := (ln_next L)(n := m)\<rparr>"

text \<open>A node that is linked already fails the assertion.\<close>

definition insert_before :: "'n \<Rightarrow> 'n \<Rightarrow> 'n links \<Rightarrow> 'n links option" where
  "insert_before position node L =
     (if link_alone L node
      then Some (let L = set_prev node (ln_prev L position) L;
                     L = set_next node position L;
                     L = set_next (ln_prev L position) node L
                 in set_prev position node L)
      else None)"

definition remove_link :: "'n \<Rightarrow> 'n links \<Rightarrow> 'n links" where
  "remove_link node L =
     (let L = set_next (ln_prev L node) (ln_next L node) L;
          L = set_prev (ln_next L node) (ln_prev L node) L;
          L = set_prev node node L
      in set_next node node L)"

lemmas link_defs = link_alone_def set_prev_def set_next_def insert_before_def remove_link_def Let_def

section \<open>Lists in the store\<close>

text \<open>From node \<open>a\<close> through \<open>xs\<close> to \<open>b\<close>, each linked to the next both ways.\<close>

fun chain :: "'n links \<Rightarrow> 'n \<Rightarrow> 'n list \<Rightarrow> 'n \<Rightarrow> bool" where
  "chain L a [] b \<longleftrightarrow> ln_next L a = b \<and> ln_prev L b = a"
| "chain L a (x # xs) b \<longleftrightarrow> ln_next L a = x \<and> ln_prev L x = a \<and> chain L x xs b"

definition circle :: "'n links \<Rightarrow> 'n \<Rightarrow> 'n list \<Rightarrow> bool" where
  "circle L h xs \<longleftrightarrow> chain L h xs h \<and> distinct (h # xs)"

lemma chain_append: "chain L a (xs @ x # ys) b \<longleftrightarrow> chain L a xs x \<and> chain L x ys b"
  by (induction xs arbitrary: a) auto

lemma chain_ends: "chain L a xs b \<Longrightarrow> ln_prev L b = last (a # xs) \<and> ln_next L a = hd (xs @ [b])"
  by (induction xs arbitrary: a) auto

lemma chain_cong:
  assumes "\<And>n. n \<in> insert a (set xs) \<Longrightarrow> ln_next L' n = ln_next L n"
    and "\<And>n. n \<in> insert b (set xs) \<Longrightarrow> ln_prev L' n = ln_prev L n"
  shows "chain L' a xs b = chain L a xs b"
  using assms by (induction xs arbitrary: a) auto

lemma circle_alone: "circle L h xs \<Longrightarrow> link_alone L h \<longleftrightarrow> xs = []"
  by (cases xs) (auto simp: circle_def link_alone_def)

lemma circle_first: "circle L h xs \<Longrightarrow> xs \<noteq> [] \<Longrightarrow> ln_next L h = hd xs"
  by (cases xs) (auto simp: circle_def)

lemma insert_chain:
  assumes c: "chain L a xs b" and d: "distinct xs" "b \<notin> set xs" "n \<notin> {a, b}" "n \<notin> set xs" "a \<notin> set xs"
    and i: "insert_before b n L = Some L'"
  shows "chain L' a (xs @ [n]) b"
proof (cases xs rule: rev_cases)
  case Nil
  with c d i show ?thesis by (auto simp: link_defs split: if_splits)
next
  case (snoc ys y)
  then have y: "ln_prev L b = y" and ch: "chain L a ys y" using c by (auto simp: chain_append)
  have L': "ln_next L' = (ln_next L)(n := b, y := n)" "ln_prev L' = (ln_prev L)(n := y, b := n)"
    using i d y by (auto simp: link_defs split: if_splits)
  have "chain L' a ys y = chain L a ys y"
    by (rule chain_cong) (use d snoc in \<open>auto simp: L'\<close>)
  with ch d snoc show ?thesis by (auto simp: L' chain_append)
qed

lemma insert_circle:
  assumes "circle L h xs" "n \<notin> set (h # xs)" "insert_before h n L = Some L'"
  shows "circle L' h (xs @ [n])"
  using insert_chain [of L h xs h n L'] assms by (auto simp: circle_def)

text \<open>Inserting touches the links of the node and of the two that are beside it only.\<close>

lemma insert_frame:
  assumes "circle L h xs" "n \<notin> set (h # xs)" "insert_before h n L = Some L'" "m \<notin> set (n # h # xs)"
  shows "ln_next L' m = ln_next L m" "ln_prev L' m = ln_prev L m"
proof -
  from assms(1) have p: "ln_prev L h = last (h # xs)" using chain_ends [of L h xs h] by (simp add: circle_def)
  then have "ln_prev L h \<in> set (h # xs)" by (metis last_in_set list.distinct(1))
  with assms(3,4) show "ln_next L' m = ln_next L m" "ln_prev L' m = ln_prev L m"
    by (auto simp: link_defs split: if_splits)
qed

lemma remove_circle:
  assumes "circle L h (ys @ n # zs)"
  shows "circle (remove_link n L) h (ys @ zs)"
proof -
  let ?L = "remove_link n L"
  from assms have c: "chain L h ys n" "chain L n zs h" and d: "distinct (h # ys @ n # zs)"
    by (auto simp: circle_def chain_append)
  define p where "p = last (h # ys)"
  define q where "q = hd (zs @ [h])"
  from chain_ends [OF c(1)] chain_ends [OF c(2)] have pq: "ln_prev L n = p" "ln_next L n = q"
    by (simp_all add: p_def q_def)
  have "p \<in> set (h # ys)" unfolding p_def by (rule last_in_set) simp
  moreover have "q \<in> set (zs @ [h])" unfolding q_def by (rule hd_in_set) simp
  ultimately have ne: "p \<noteq> n" "q \<noteq> n" using d by auto
  have L': "ln_next ?L = (ln_next L)(p := q, n := n)" "ln_prev ?L = (ln_prev L)(q := p, n := n)"
    using pq ne by (auto simp: link_defs)
  have "chain ?L h (ys @ zs) h"
  proof (cases ys rule: rev_cases)
    case Nil
    then have p: "p = h" by (simp add: p_def)
    show ?thesis
    proof (cases zs)
      case Nil
      with \<open>ys = []\<close> ne p show ?thesis by (simp add: L' q_def)
    next
      case (Cons z zs')
      have "chain ?L z zs' h = chain L z zs' h" by (rule chain_cong) (use d Cons p in \<open>auto simp: L' q_def\<close>)
      with c(2) Cons \<open>ys = []\<close> p ne show ?thesis by (auto simp: L' q_def)
    qed
  next
    case (snoc ys' y)
    then have p: "p = y" by (simp add: p_def)
    have f: "chain ?L h ys' y = chain L h ys' y"
      by (rule chain_cong) (use d snoc p in \<open>cases zs; auto simp: L' q_def\<close>)+
    have y: "chain ?L y zs h"
    proof (cases zs)
      case Nil
      with p ne show ?thesis by (auto simp: L' q_def)
    next
      case (Cons z zs')
      have "chain ?L z zs' h = chain L z zs' h" by (rule chain_cong) (use d snoc Cons p in \<open>auto simp: L' q_def\<close>)
      with c(2) Cons p ne show ?thesis by (auto simp: L' q_def)
    qed
    from c(1) snoc f y show ?thesis by (simp add: chain_append)
  qed
  with d show ?thesis by (auto simp: circle_def)
qed

lemma remove_frame:
  assumes "circle L h xs" "n \<in> set xs" "m \<notin> set (h # xs)"
  shows "ln_next (remove_link n L) m = ln_next L m" "ln_prev (remove_link n L) m = ln_prev L m"
proof -
  from assms(2) obtain ys zs where xs: "xs = ys @ n # zs" by (auto dest: split_list)
  with assms(1) have c: "chain L h ys n" "chain L n zs h" and d: "distinct (h # xs)" by (auto simp: circle_def chain_append)
  from chain_ends [OF c(1)] chain_ends [OF c(2)]
  have "ln_prev L n \<in> set (h # ys)" "ln_next L n \<in> set (zs @ [h])" by (metis last_in_set hd_in_set list.distinct(1) append_is_Nil_conv)+
  with assms(3) d xs have "m \<noteq> n" "ln_prev L n \<noteq> m" "ln_next L n \<noteq> m" "ln_next L n \<noteq> n" "ln_prev L n \<noteq> n" by auto
  then show "ln_next (remove_link n L) m = ln_next L m" "ln_prev (remove_link n L) m = ln_prev L m"
    by (auto simp: link_defs)
qed

lemma remove_alone: "ln_next (remove_link n L) n = n" "ln_prev (remove_link n L) n = n"
  by (simp_all add: link_defs)

lemma remove_noop:
  assumes "ln_next L n = n" "ln_prev L n = n"
  shows "remove_link n L = L"
proof -
  have "(ln_next L)(n := n) = ln_next L" "(ln_prev L)(n := n) = ln_prev L" using assms by auto
  then show ?thesis using assms by (simp add: link_defs)
qed

lemma circle_cong:
  assumes "\<And>m. m \<in> set (h # xs) \<Longrightarrow> ln_next L' m = ln_next L m \<and> ln_prev L' m = ln_prev L m"
  shows "circle L' h xs = circle L h xs"
proof -
  have "chain L' h xs h = chain L h xs h" by (rule chain_cong) (use assms in auto)
  then show ?thesis by (simp add: circle_def)
qed

section \<open>Several lists over the same nodes\<close>

text \<open>The heads of the lists and the nodes that join them are nodes alike.\<close>

datatype list_link = Head_link nat | Wait_link nat

definition holds_lists :: "list_link links \<Rightarrow> (nat \<Rightarrow> nat list) \<Rightarrow> bool" where
  "holds_lists L f \<longleftrightarrow> (\<forall>h. circle L (Head_link h) (map Wait_link (f h))) \<and>
     (\<forall>h k. h \<noteq> k \<longrightarrow> set (f h) \<inter> set (f k) = {}) \<and>
     (\<forall>n. (\<forall>h. n \<notin> set (f h)) \<longrightarrow> ln_next L (Wait_link n) = Wait_link n \<and> ln_prev L (Wait_link n) = Wait_link n)"

definition no_links :: "list_link links" where
  "no_links = \<lparr>ln_prev = (\<lambda>n. n), ln_next = (\<lambda>n. n)\<rparr>"

definition append_wait :: "nat \<Rightarrow> nat \<Rightarrow> list_link links \<Rightarrow> list_link links option" where
  "append_wait h n = insert_before (Head_link h) (Wait_link n)"

definition remove_wait :: "nat \<Rightarrow> list_link links \<Rightarrow> list_link links" where
  "remove_wait n = remove_link (Wait_link n)"

definition first_wait :: "nat \<Rightarrow> list_link links \<Rightarrow> nat option" where
  "first_wait h L =
     (if link_alone L (Head_link h) then None
      else case ln_next L (Head_link h) of Wait_link n \<Rightarrow> Some n | Head_link k \<Rightarrow> None)"

text \<open>The loop of \<^verbatim>\<open>IoContext::take_cancels\<close>, over the waits that were taken.\<close>

fun move_each :: "nat \<Rightarrow> nat list \<Rightarrow> list_link links \<Rightarrow> list_link links option" where
  "move_each h [] L = Some L"
| "move_each h (n # ns) L =
     (case append_wait h n (remove_wait n L) of None \<Rightarrow> None | Some L' \<Rightarrow> move_each h ns L')"

locale wait_lists =
  fixes holds :: "'s \<Rightarrow> (nat \<Rightarrow> nat list) \<Rightarrow> bool"
    and append_to :: "nat \<Rightarrow> nat \<Rightarrow> 's \<Rightarrow> 's option"
    and take_out :: "nat \<Rightarrow> 's \<Rightarrow> 's"
    and first_of :: "nat \<Rightarrow> 's \<Rightarrow> nat option"
  assumes append_holds: "holds s f \<Longrightarrow> (\<And>k. n \<notin> set (f k)) \<Longrightarrow>
      \<exists>s'. append_to h n s = Some s' \<and> holds s' (f(h := f h @ [n]))"
    and take_out_holds: "holds s f \<Longrightarrow> holds (take_out n s) (\<lambda>k. remove1 n (f k))"
    and first_holds: "holds s f \<Longrightarrow> first_of h s = (case f h of [] \<Rightarrow> None | n # ns \<Rightarrow> Some n)"
    and lists_distinct: "holds s f \<Longrightarrow> distinct (f k)"
begin

lemma move_holds:
  assumes "holds s f"
  shows "\<exists>s'. append_to h n (take_out n s) = Some s' \<and> holds s' ((\<lambda>k. remove1 n (f k))(h := remove1 n (f h) @ [n]))"
proof -
  have "n \<notin> set (remove1 n (f k))" for k using lists_distinct [OF assms, of k] by simp
  with append_holds [OF take_out_holds [OF assms], of n n h] show ?thesis by simp
qed

lemma take_out_first: "holds s f \<Longrightarrow> first_of h s = Some n \<Longrightarrow> holds (take_out n s) (\<lambda>k. remove1 n (f k)) \<and> hd (f h) = n"
  using take_out_holds [of s f n] first_holds [of s f h] by (auto split: list.splits)

end

lemma holds_circle: "holds_lists L f \<Longrightarrow> circle L (Head_link h) (map Wait_link (f h))"
  by (simp add: holds_lists_def)

lemma holds_apart: "holds_lists L f \<Longrightarrow> j \<noteq> k \<Longrightarrow> x \<in> set (f j) \<Longrightarrow> x \<notin> set (f k)"
  by (auto simp: holds_lists_def)

lemma append_holds_lists:
  assumes L: "holds_lists L f" and n: "\<And>k. n \<notin> set (f k)"
  shows "\<exists>L'. append_wait h n L = Some L' \<and> holds_lists L' (f(h := f h @ [n]))"
proof -
  have "ln_next L (Wait_link n) = Wait_link n" using L n by (simp add: holds_lists_def)
  then obtain L' where i: "insert_before (Head_link h) (Wait_link n) L = Some L'"
    by (auto simp: insert_before_def link_alone_def)
  have nn: "Wait_link n \<notin> set (Head_link h # map Wait_link (f h))" using n by auto
  note frame = insert_frame [OF holds_circle [OF L, of h] nn i]
  have "circle L' (Head_link k) (map Wait_link ((f(h := f h @ [n])) k))" for k
  proof (cases "k = h")
    case True
    with insert_circle [OF holds_circle [OF L, of h] nn i] show ?thesis by simp
  next
    case False
    have "circle L' (Head_link k) (map Wait_link (f k)) = circle L (Head_link k) (map Wait_link (f k))"
    proof (rule circle_cong, intro conjI frame)
      fix m assume m: "m \<in> set (Head_link k # map Wait_link (f k))"
      with n False show "m \<notin> set (Wait_link n # Head_link h # map Wait_link (f h))"
        by (auto dest: holds_apart [OF L])
      then show "m \<notin> set (Wait_link n # Head_link h # map Wait_link (f h))" .
    qed
    with holds_circle [OF L, of k] False show ?thesis by simp
  qed
  moreover have "ln_next L' (Wait_link m) = Wait_link m \<and> ln_prev L' (Wait_link m) = Wait_link m"
    if "\<And>k. m \<notin> set ((f(h := f h @ [n])) k)" for m
  proof -
    from that [of h] have m: "Wait_link m \<notin> set (Wait_link n # Head_link h # map Wait_link (f h))" by auto
    have "m \<notin> set (f k)" for k using that [of k] by (auto split: if_splits)
    with L show ?thesis using frame [OF m] by (simp add: holds_lists_def)
  qed
  moreover have "set ((f(h := f h @ [n])) j) \<inter> set ((f(h := f h @ [n])) k) = {}" if "j \<noteq> k" for j k
    using n that by (auto dest: holds_apart [OF L])
  ultimately have "holds_lists L' (f(h := f h @ [n]))" unfolding holds_lists_def by blast
  with i show ?thesis by (auto simp: append_wait_def)
qed

lemma remove_holds_lists:
  assumes L: "holds_lists L f"
  shows "holds_lists (remove_wait n L) (\<lambda>k. remove1 n (f k))"
proof (cases "\<exists>h. n \<in> set (f h)")
  case False
  then have "remove_wait n L = L" using L by (auto simp: remove_wait_def holds_lists_def intro!: remove_noop)
  moreover from False have "(\<lambda>k. remove1 n (f k)) = f" by (auto simp: remove1_idem)
  ultimately show ?thesis using L by simp
next
  case True
  then obtain h where h: "n \<in> set (f h)" by blast
  have only: "n \<notin> set (f k)" if "k \<noteq> h" for k using holds_apart [OF L _ h] that by metis
  let ?L = "remove_link (Wait_link n) L"
  have d: "distinct (f k)" for k using holds_circle [OF L, of k] by (simp add: circle_def distinct_map)
  have nn: "Wait_link n \<in> set (map Wait_link (f h))" using h by simp
  note frame = remove_frame [OF holds_circle [OF L, of h] nn]
  have "circle ?L (Head_link k) (map Wait_link (remove1 n (f k)))" for k
  proof (cases "k = h")
    case True
    from h obtain ys zs where f: "f h = ys @ n # zs" "n \<notin> set ys" by (auto dest: split_list_first)
    with remove_circle [of L "Head_link h" "map Wait_link ys" "Wait_link n" "map Wait_link zs"] holds_circle [OF L, of h] True
    show ?thesis by (simp add: remove1_append)
  next
    case False
    have "circle ?L (Head_link k) (map Wait_link (f k)) = circle L (Head_link k) (map Wait_link (f k))"
    proof (rule circle_cong, intro conjI frame)
      fix m assume m: "m \<in> set (Head_link k # map Wait_link (f k))"
      with False show "m \<notin> set (Head_link h # map Wait_link (f h))" by (auto dest: holds_apart [OF L])
      then show "m \<notin> set (Head_link h # map Wait_link (f h))" .
    qed
    with holds_circle [OF L, of k] only [OF False] show ?thesis by (simp add: remove1_idem)
  qed
  moreover have "ln_next ?L (Wait_link m) = Wait_link m \<and> ln_prev ?L (Wait_link m) = Wait_link m"
    if "\<And>k. m \<notin> set (remove1 n (f k))" for m
  proof (cases "m = n")
    case True
    then show ?thesis by (simp add: remove_alone)
  next
    case False
    with that have m: "m \<notin> set (f k)" for k using in_set_remove1 [of m n "f k"] by blast
    then have "Wait_link m \<notin> set (Head_link h # map Wait_link (f h))" by auto
    from frame [OF this] m L show ?thesis by (simp add: holds_lists_def)
  qed
  moreover have "set (remove1 n (f j)) \<inter> set (remove1 n (f k)) = {}" if "j \<noteq> k" for j k
    using d that by (auto dest: holds_apart [OF L])
  ultimately have "holds_lists ?L (\<lambda>k. remove1 n (f k))" unfolding holds_lists_def by blast
  then show ?thesis by (simp add: remove_wait_def)
qed

lemma first_holds_lists:
  assumes "holds_lists L f"
  shows "first_wait h L = (case f h of [] \<Rightarrow> None | n # ns \<Rightarrow> Some n)"
  using circle_alone [OF holds_circle [OF assms, of h]] circle_first [OF holds_circle [OF assms, of h]]
  by (cases "f h") (auto simp: first_wait_def)

lemma holds_none: "holds_lists no_links (\<lambda>h. [])"
  by (simp add: holds_lists_def no_links_def circle_def)

interpretation linked: wait_lists holds_lists append_wait remove_wait first_wait
proof
  show "distinct (f k)" if "holds_lists L f" for L f k
    using holds_circle [OF that, of k] by (simp add: circle_def distinct_map)
qed (auto intro: append_holds_lists remove_holds_lists simp: first_holds_lists)

end
