(* ===== verification/Io_Context.thy ===== *)
theory Io_Context
  imports Linked_Node "HOL-Library.Word"
begin

text \<open>
  The event loop (\<^verbatim>\<open>src/iocontext.cpp\<close>, \<^verbatim>\<open>src/iocontext.hpp\<close>) over the poller of
  \<^verbatim>\<open>src/nativehandlepoller-linux.cpp\<close>, as a machine: its own thread, the threads that start
  operations, those that request stops and run the callbacks of waits, and the one that destroys it
  interleave, a step at a time.  The atomic operations are in one order that all threads see.  What
  a receiver, or \<open>on_ready\<close>, goes on to do is done by those other threads.
\<close>

section \<open>The poller\<close>

text \<open>
  \<open>pl_watched\<close> is the interest list of \<^verbatim>\<open>epoll\<close>, with the context of each descriptor, and
  \<open>pl_counter\<close> what the \<^verbatim>\<open>eventfd\<close> counts, which is at most two less than \<open>2 ^ 64\<close>.
\<close>

record poller =
  pl_watched :: "nat \<Rightarrow> nat option"
  pl_counter :: "64 word"

definition poller_new :: poller where
  "poller_new = \<lparr>pl_watched = (\<lambda>h. None), pl_counter = 0\<rparr>"

definition errno_EEXIST :: int where "errno_EEXIST = 17"

text \<open>\<open>e\<close> is the \<^verbatim>\<open>errno\<close> with which the call fails, 0 if it need not.\<close>

definition poller_add :: "int \<Rightarrow> nat \<Rightarrow> nat \<Rightarrow> poller \<Rightarrow> (nat \<times> poller) expected" where
  "poller_add e h ctx p =
     (if e \<noteq> 0 then Inl (System_error e)
      else if pl_watched p h \<noteq> None then Inl (System_error errno_EEXIST)
      else Inr (h, p\<lparr>pl_watched := (pl_watched p)(h := Some ctx)\<rparr>))"

definition poller_remove :: "nat \<Rightarrow> poller \<Rightarrow> poller" where
  "poller_remove token p = p\<lparr>pl_watched := (pl_watched p)(token := None)\<rparr>"

definition poller_wake :: "poller \<Rightarrow> poller" where
  "poller_wake p = (if pl_counter p = - 2 then p else p\<lparr>pl_counter := pl_counter p + 1\<rparr>)"

definition max_ready :: nat where "max_ready = 64"

text \<open>
  What \<^verbatim>\<open>epoll_wait\<close> may give: the \<^verbatim>\<open>eventfd\<close> (\<open>None\<close>) only if it counts something, and descriptors
  of the interest list, each once; nothing if it was interrupted.  Then the loop over the events.
\<close>

definition events_possible :: "nat option list \<Rightarrow> poller \<Rightarrow> bool" where
  "events_possible evs p \<longleftrightarrow> distinct evs \<and> length evs \<le> max_ready \<and>
     list_all (\<lambda>e. case e of None \<Rightarrow> pl_counter p \<noteq> 0 | Some h \<Rightarrow> pl_watched p h \<noteq> None) evs"

fun poller_wait :: "nat option list \<Rightarrow> poller \<Rightarrow> nat list \<times> poller" where
  "poller_wait [] p = ([], p)"
| "poller_wait (None # evs) p = poller_wait evs (p\<lparr>pl_counter := 0\<rparr>)"
| "poller_wait (Some h # evs) p =
     (case poller_wait evs p of
        (ready, p') \<Rightarrow> (case pl_watched p h of None \<Rightarrow> ready | Some ctx \<Rightarrow> ctx # ready, p'))"

section \<open>Operations\<close>

datatype io_kind = Schedule_op | Wait_op nat | Watch_op nat bool

text \<open>A watch that \<^verbatim>\<open>spawn_watch\<close> started has \<open>True\<close>.\<close>

fun handle_of :: "io_kind \<Rightarrow> nat option" where
  "handle_of Schedule_op = None"
| "handle_of (Wait_op h) = Some h"
| "handle_of (Watch_op h spawned) = Some h"

datatype io_completion = Set_value | Set_error error_code | Set_stopped

fun complete_op :: "io_kind \<Rightarrow> error_code \<Rightarrow> bool \<Rightarrow> io_completion" where
  "complete_op (Watch_op h spawned) e stopped = (if stopped then Set_stopped else Set_error e)"
| "complete_op k e stopped = (if stopped then Set_stopped else if e \<noteq> No_error then Set_error e else Set_value)"

text \<open>Whether a wait whose handle is ready is done.\<close>

fun handle_ready :: "io_kind \<Rightarrow> bool" where
  "handle_ready (Watch_op h spawned) = False"
| "handle_ready k = True"

text \<open>
  The stop callback of a wait: not installed; installed; taken off its token to run, and about to
  push; having pushed onto an empty stack, and about to wake the poller; having returned; removed.
\<close>

datatype io_callback = Not_armed | Armed | Called | Waking | Called_back | Disarmed

text \<open>
  Where the context's thread is.  The flag is whether it is to stop, read at the start of the pass;
  \<open>Disarming\<close> and \<open>Completing\<close> are inside \<^verbatim>\<open>finish\<close>, which then goes on at the place that is
  its last argument.
\<close>

datatype io_place =
    Pass_begins
  | Taking_tasks bool
  | Running_tasks bool "nat list"
  | Arming_wait nat bool "nat list"
  | Waking_itself nat bool "nat list"
  | Adding_wait nat bool "nat list"
  | Taking_cancels bool
  | Stopping_waits bool
  | Polling
  | Handling_ready "nat list"
  | Disarming nat error_code bool io_place
  | Completing nat error_code bool io_place
  | Thread_ended

datatype destroying = Not_destroyed | Stop_stored | Stop_woken

text \<open>
  \<open>io_submitting\<close>: who pushed an operation onto an empty queue and has not woken the poller yet.
  \<open>io_done\<close> is what has completed and how, in order, \<open>io_executed\<close> what has been executed, and
  \<open>io_ready\<close> how often the poller has reported a wait.
\<close>

record io_state =
  io_poller :: poller
  io_started :: "nat list"
  io_kinds :: "nat \<Rightarrow> io_kind"
  io_stop :: "nat \<Rightarrow> bool"
  io_callbacks :: "nat \<Rightarrow> io_callback"
  io_tasks :: "nat list"
  io_cancels :: "nat list"
  io_registered :: "nat list"
  io_cancelled :: "nat list"
  io_submitting :: "nat list"
  io_stopping :: bool
  io_destroying :: destroying
  io_place :: io_place
  io_done :: "(nat \<times> io_completion) list"
  io_executed :: "nat list"
  io_ready :: "nat \<Rightarrow> nat"
  io_watch_failed :: bool

definition io_start :: "(nat \<Rightarrow> io_kind) \<Rightarrow> (nat \<Rightarrow> bool) \<Rightarrow> io_state" where
  "io_start kinds stop =
     \<lparr>io_poller = poller_new, io_started = [], io_kinds = kinds, io_stop = stop, io_callbacks = (\<lambda>i. Not_armed),
      io_tasks = [], io_cancels = [], io_registered = [], io_cancelled = [], io_submitting = [], io_stopping = False,
      io_destroying = Not_destroyed, io_place = Pass_begins, io_done = [], io_executed = [], io_ready = (\<lambda>i. 0),
      io_watch_failed = False\<rparr>"

definition completed :: "io_state \<Rightarrow> nat \<Rightarrow> bool" where
  "completed s i \<longleftrightarrow> i \<in> set (map fst (io_done s))"

definition set_callback :: "nat \<Rightarrow> io_callback \<Rightarrow> io_state \<Rightarrow> io_state" where
  "set_callback i c s = s\<lparr>io_callbacks := (io_callbacks s)(i := c)\<rparr>"

definition wake_poller :: "io_state \<Rightarrow> io_state" where
  "wake_poller s = s\<lparr>io_poller := poller_wake (io_poller s)\<rparr>"

text \<open>The receiver's completion, with what \<^verbatim>\<open>spawn_watch\<close> adds to that of an error.\<close>

definition complete_with :: "nat \<Rightarrow> io_completion \<Rightarrow> io_state \<Rightarrow> io_state" where
  "complete_with i c s = s\<lparr>io_done := io_done s @ [(i, c)],
     io_watch_failed := (io_watch_failed s \<or>
       (case (io_kinds s i, c) of (Watch_op h True, Set_error e) \<Rightarrow> True | _ \<Rightarrow> False))\<rparr>"

section \<open>The functions of the context\<close>

text \<open>\<^verbatim>\<open>submit\<close> up to its wake, and \<^verbatim>\<open>cancel\<close> up to its own.\<close>

definition submit :: "nat \<Rightarrow> io_state \<Rightarrow> io_state" where
  "submit i s = s\<lparr>io_tasks := i # io_tasks s,
     io_submitting := (if io_tasks s = [] then i # io_submitting s else io_submitting s)\<rparr>"

definition cancel_wait :: "nat \<Rightarrow> io_state \<Rightarrow> io_state" where
  "cancel_wait i s = set_callback i (if io_cancels s = [] then Waking else Called_back) (s\<lparr>io_cancels := i # io_cancels s\<rparr>)"

fun take_each :: "nat list \<Rightarrow> nat list \<times> nat list \<Rightarrow> nat list \<times> nat list" where
  "take_each [] rc = rc"
| "take_each (i # is) (r, c) = take_each is (remove1 i r, remove1 i c @ [i])"

definition take_cancels :: "io_state \<Rightarrow> io_state" where
  "take_cancels s =
     (case take_each (io_cancels s) (io_registered s, io_cancelled s) of
        (r, c) \<Rightarrow> s\<lparr>io_cancels := [], io_registered := r, io_cancelled := c\<rparr>)"

text \<open>The token of a wait is the descriptor that was added.\<close>

definition unregister :: "nat \<Rightarrow> io_state \<Rightarrow> io_state" where
  "unregister i s = (case handle_of (io_kinds s i) of
     None \<Rightarrow> s | Some h \<Rightarrow> s\<lparr>io_poller := poller_remove h (io_poller s)\<rparr>)"

definition finish_wait :: "nat \<Rightarrow> error_code \<Rightarrow> bool \<Rightarrow> io_place \<Rightarrow> io_state \<Rightarrow> io_state" where
  "finish_wait i e stopped k s = s\<lparr>io_place := Disarming i e stopped k\<rparr>"

text \<open>Removing the callback waits for one that is running on another thread.\<close>

definition disarm :: "nat \<Rightarrow> io_state \<Rightarrow> io_state option" where
  "disarm i s = (if io_callbacks s i = Called \<or> io_callbacks s i = Waking then None
     else Some (set_callback i Disarmed s))"

definition complete_finished :: "nat \<Rightarrow> error_code \<Rightarrow> bool \<Rightarrow> io_state \<Rightarrow> io_state" where
  "complete_finished i e stopped s =
     (let s = take_cancels s in
      complete_with i (complete_op (io_kinds s i) e stopped)
        (s\<lparr>io_registered := remove1 i (io_registered s), io_cancelled := remove1 i (io_cancelled s)\<rparr>))"

text \<open>The loop that reverses the queue.\<close>

fun reverse_onto :: "nat list \<Rightarrow> nat list \<Rightarrow> nat list" where
  "reverse_onto [] tasks = tasks"
| "reverse_onto (t # pushed) tasks = reverse_onto pushed (t # tasks)"

definition execute_op :: "nat \<Rightarrow> bool \<Rightarrow> nat list \<Rightarrow> io_state \<Rightarrow> io_state" where
  "execute_op i b ts s =
     (let s = s\<lparr>io_executed := io_executed s @ [i], io_place := Running_tasks b ts\<rparr> in
      if io_stop s i then complete_with i Set_stopped s
      else if io_kinds s i = Schedule_op then complete_with i Set_value s
      else s\<lparr>io_place := Arming_wait i b ts\<rparr>)"

text \<open>Installing the callback runs it at once if a stop was requested meanwhile.\<close>

definition arm :: "nat \<Rightarrow> bool \<Rightarrow> nat list \<Rightarrow> io_state \<Rightarrow> io_state" where
  "arm i b ts s =
     (if io_stop s i
      then set_callback i Called_back
             (s\<lparr>io_cancels := i # io_cancels s,
               io_place := (if io_cancels s = [] then Waking_itself i b ts else Adding_wait i b ts)\<rparr>)
      else set_callback i Armed (s\<lparr>io_place := Adding_wait i b ts\<rparr>))"

definition begin_wait :: "int option \<Rightarrow> nat \<Rightarrow> bool \<Rightarrow> nat list \<Rightarrow> io_state \<Rightarrow> io_state" where
  "begin_wait r i b ts s =
     (case (r, handle_of (io_kinds s i)) of
        (Some e, Some h) \<Rightarrow>
          (case poller_add e h i (io_poller s) of
             Inl err \<Rightarrow> finish_wait i err False (Running_tasks b ts) s
           | Inr (token, p) \<Rightarrow> s\<lparr>io_poller := p, io_registered := io_registered s @ [i], io_place := Running_tasks b ts\<rparr>)
      | _ \<Rightarrow> finish_wait i Not_enough_memory False (Running_tasks b ts) s)"

definition stop_next :: "bool \<Rightarrow> io_state \<Rightarrow> io_state" where
  "stop_next b s =
     (case io_cancelled s of
        [] \<Rightarrow> s\<lparr>io_place := (if b then Thread_ended else Polling)\<rparr>
      | i # is \<Rightarrow> finish_wait i No_error True (Stopping_waits b) (unregister i s))"

text \<open>\<open>e\<close> is what \<^verbatim>\<open>rearm\<close> fails with, which on Linux it does not.\<close>

definition handle_next :: "error_code \<Rightarrow> nat \<Rightarrow> nat list \<Rightarrow> io_state \<Rightarrow> io_state" where
  "handle_next e i is s =
     (let s = s\<lparr>io_ready := (io_ready s)(i := Suc (io_ready s i)), io_place := Handling_ready is\<rparr> in
      if handle_ready (io_kinds s i) then finish_wait i No_error False (Handling_ready is) (unregister i s)
      else if e \<noteq> No_error then finish_wait i e False (Handling_ready is) (unregister i s)
      else s)"

lemmas io_function_defs = set_callback_def wake_poller_def complete_with_def submit_def cancel_wait_def unregister_def
  finish_wait_def disarm_def execute_op_def arm_def begin_wait_def stop_next_def handle_next_def Let_def

section \<open>The machine\<close>

datatype loop_move =
    Start_op nat
  | Start_wakes nat
  | Request_stop nat
  | Callback_runs nat
  | Callback_pushes nat
  | Callback_wakes nat
  | Destroy_stores
  | Destroy_wakes
  | Thread_moves
  | Thread_adds "int option"
  | Thread_polls "nat option list"
  | Thread_handles error_code

definition only_if :: "bool \<Rightarrow> 'a \<Rightarrow> 'a option" where
  "only_if b x = (if b then Some x else None)"

lemma only_if_Some [simp]: "only_if b x = Some y \<longleftrightarrow> b \<and> x = y"
  by (simp add: only_if_def)

text \<open>
  The preconditions: an operation is started once, and while another of its handle has not
  completed it is not; nothing is started any more, and everything has completed, when the context is
  destroyed.
\<close>

definition handle_free :: "nat \<Rightarrow> io_state \<Rightarrow> bool" where
  "handle_free i s \<longleftrightarrow> handle_of (io_kinds s i) = None \<or>
     list_all (\<lambda>j. completed s j \<or> handle_of (io_kinds s j) \<noteq> handle_of (io_kinds s i)) (io_started s)"

fun thread_moves :: "io_place \<Rightarrow> io_state \<Rightarrow> io_state option" where
  "thread_moves Pass_begins s = Some (s\<lparr>io_place := Taking_tasks (io_stopping s)\<rparr>)"
| "thread_moves (Taking_tasks b) s = Some (s\<lparr>io_tasks := [], io_place := Running_tasks b (reverse_onto (io_tasks s) [])\<rparr>)"
| "thread_moves (Running_tasks b []) s = Some (s\<lparr>io_place := Taking_cancels b\<rparr>)"
| "thread_moves (Running_tasks b (i # ts)) s = Some (execute_op i b ts s)"
| "thread_moves (Arming_wait i b ts) s = Some (arm i b ts s)"
| "thread_moves (Waking_itself i b ts) s = Some (wake_poller (s\<lparr>io_place := Adding_wait i b ts\<rparr>))"
| "thread_moves (Taking_cancels b) s = Some (take_cancels (s\<lparr>io_place := Stopping_waits b\<rparr>))"
| "thread_moves (Stopping_waits b) s = Some (stop_next b s)"
| "thread_moves (Handling_ready []) s = Some (s\<lparr>io_place := Pass_begins\<rparr>)"
| "thread_moves (Disarming i e stopped k) s = map_option (\<lambda>s. s\<lparr>io_place := Completing i e stopped k\<rparr>) (disarm i s)"
| "thread_moves (Completing i e stopped k) s = Some (complete_finished i e stopped (s\<lparr>io_place := k\<rparr>))"
| "thread_moves _ s = None"

fun io_move :: "loop_move \<Rightarrow> io_state \<Rightarrow> io_state option" where
  "io_move (Start_op i) s =
     only_if (i \<notin> set (io_started s) \<and> io_destroying s = Not_destroyed \<and> handle_free i s)
       (submit i (s\<lparr>io_started := io_started s @ [i]\<rparr>))"
| "io_move (Start_wakes i) s =
     only_if (i \<in> set (io_submitting s)) (wake_poller (s\<lparr>io_submitting := remove1 i (io_submitting s)\<rparr>))"
| "io_move (Request_stop i) s = only_if (\<not> io_stop s i) (s\<lparr>io_stop := (io_stop s)(i := True)\<rparr>)"
| "io_move (Callback_runs i) s = only_if (io_stop s i \<and> io_callbacks s i = Armed) (set_callback i Called s)"
| "io_move (Callback_pushes i) s = only_if (io_callbacks s i = Called) (cancel_wait i s)"
| "io_move (Callback_wakes i) s = only_if (io_callbacks s i = Waking) (wake_poller (set_callback i Called_back s))"
| "io_move Destroy_stores s =
     only_if (io_destroying s = Not_destroyed \<and> list_all (completed s) (io_started s))
       (s\<lparr>io_stopping := True, io_destroying := Stop_stored\<rparr>)"
| "io_move Destroy_wakes s = only_if (io_destroying s = Stop_stored) (wake_poller (s\<lparr>io_destroying := Stop_woken\<rparr>))"
| "io_move Thread_moves s = thread_moves (io_place s) s"
| "io_move (Thread_adds r) s =
     (case io_place s of Adding_wait i b ts \<Rightarrow> Some (begin_wait r i b ts s) | _ \<Rightarrow> None)"
| "io_move (Thread_polls evs) s =
     (case poller_wait evs (io_poller s) of
        (ready, p) \<Rightarrow> only_if (io_place s = Polling \<and> events_possible evs (io_poller s))
          (s\<lparr>io_poller := p, io_place := Handling_ready ready\<rparr>))"
| "io_move (Thread_handles e) s =
     (case io_place s of Handling_ready (i # is) \<Rightarrow> Some (handle_next e i is s) | _ \<Rightarrow> None)"

definition io_step :: "io_state \<Rightarrow> io_state \<Rightarrow> bool" where
  "io_step s t \<longleftrightarrow> (\<exists>m. io_move m s = Some t)"

definition io_init :: "io_state \<Rightarrow> bool" where
  "io_init s \<longleftrightarrow> (\<exists>kinds stop. s = io_start kinds stop)"

end
