(* ===== verification/Io_Proofs.thy ===== *)
theory Io_Proofs
  imports Io_Context "HOL-Library.Multiset"
begin

text \<open>
  The invariant of the event loop's machine, in parts - where each operation is, the callbacks of
  the waits, the poller, what a wake is due for, what has completed - and that every move keeps it.
\<close>

section \<open>What a place holds\<close>

fun place_tasks :: "io_place \<Rightarrow> nat list" where
  "place_tasks (Running_tasks b ts) = ts"
| "place_tasks (Arming_wait i b ts) = ts"
| "place_tasks (Waking_itself i b ts) = ts"
| "place_tasks (Adding_wait i b ts) = ts"
| "place_tasks (Disarming i e stopped k) = place_tasks k"
| "place_tasks (Completing i e stopped k) = place_tasks k"
| "place_tasks _ = []"

fun in_run :: "io_place \<Rightarrow> bool" where
  "in_run (Running_tasks b ts) = True"
| "in_run _ = False"

text \<open>The wait that is begun or could not be registered, and is in neither list; and one in a list
  that is with the poller no more.\<close>

fun place_current :: "io_place \<Rightarrow> nat list" where
  "place_current (Arming_wait i b ts) = [i]"
| "place_current (Waking_itself i b ts) = [i]"
| "place_current (Adding_wait i b ts) = [i]"
| "place_current (Disarming i e stopped k) = (if in_run k then [i] else [])"
| "place_current (Completing i e stopped k) = (if in_run k then [i] else [])"
| "place_current _ = []"

fun place_gone :: "io_place \<Rightarrow> nat list" where
  "place_gone (Disarming i e stopped k) = (if in_run k then [] else [i])"
| "place_gone (Completing i e stopped k) = (if in_run k then [] else [i])"
| "place_gone _ = []"

fun place_ready :: "io_place \<Rightarrow> nat list" where
  "place_ready (Handling_ready is) = is"
| "place_ready (Disarming i e stopped k) = place_ready k"
| "place_ready (Completing i e stopped k) = place_ready k"
| "place_ready _ = []"

text \<open>What the thread finishes, and for what.\<close>

fun finishing_ok :: "io_state \<Rightarrow> nat \<Rightarrow> error_code \<Rightarrow> bool \<Rightarrow> io_place \<Rightarrow> bool" where
  "finishing_ok s i e stopped (Running_tasks b ts) \<longleftrightarrow> e \<noteq> No_error \<and> \<not> stopped"
| "finishing_ok s i e stopped (Stopping_waits b) \<longleftrightarrow> e = No_error \<and> stopped \<and> i \<in> set (io_cancelled s)"
| "finishing_ok s i e stopped (Handling_ready is) \<longleftrightarrow> \<not> stopped \<and> i \<in> set (io_registered s) \<union> set (io_cancelled s) \<and>
     (if handle_ready (io_kinds s i) then e = No_error \<and> 0 < io_ready s i else e \<noteq> No_error)"
| "finishing_ok s i e stopped _ \<longleftrightarrow> False"

fun place_ok :: "io_state \<Rightarrow> io_place \<Rightarrow> bool" where
  "place_ok s (Disarming i e stopped k) \<longleftrightarrow> finishing_ok s i e stopped k"
| "place_ok s (Completing i e stopped k) \<longleftrightarrow> finishing_ok s i e stopped k"
| "place_ok s _ \<longleftrightarrow> True"

definition held :: "io_state \<Rightarrow> nat list" where
  "held s = io_tasks s @ place_tasks (io_place s) @ place_current (io_place s) @ io_registered s @ io_cancelled s"

section \<open>The invariant\<close>

text \<open>Every operation that was started is in one place, once, until it has completed.\<close>

definition held_ok :: "io_state \<Rightarrow> bool" where
  "held_ok s \<longleftrightarrow> distinct (io_started s) \<and> mset (held s) + mset (map fst (io_done s)) = mset (io_started s)"

fun place_armed :: "io_place \<Rightarrow> bool" where
  "place_armed (Arming_wait i b ts) = False"
| "place_armed _ = True"

definition waits :: "io_state \<Rightarrow> nat set" where
  "waits s = set (io_registered s) \<union> set (io_cancelled s) \<union> (if place_armed (io_place s) then set (place_current (io_place s)) else {})"

fun completing :: "io_place \<Rightarrow> nat list" where
  "completing (Completing i e stopped k) = [i]"
| "completing _ = []"

definition stacks_ok :: "io_state \<Rightarrow> bool" where
  "stacks_ok s \<longleftrightarrow> distinct (io_cancels s) \<and> set (io_cancels s) \<subseteq> waits s - set (io_cancelled s)"

definition callback_ok :: "io_state \<Rightarrow> nat \<Rightarrow> bool" where
  "callback_ok s i \<longleftrightarrow>
     (case io_callbacks s i of
        Not_armed \<Rightarrow> i \<notin> waits s
      | Armed \<Rightarrow> i \<in> waits s \<and> i \<notin> set (io_cancels s @ io_cancelled s) \<and> i \<notin> set (completing (io_place s))
      | Called \<Rightarrow> i \<in> waits s \<and> i \<notin> set (io_cancels s @ io_cancelled s) \<and> i \<notin> set (completing (io_place s)) \<and> io_stop s i
      | Waking \<Rightarrow> i \<in> waits s \<and> i \<in> set (io_cancels s @ io_cancelled s) \<and> i \<notin> set (completing (io_place s)) \<and> io_stop s i
      | Called_back \<Rightarrow> i \<in> waits s \<and> i \<in> set (io_cancels s @ io_cancelled s) \<and> i \<notin> set (completing (io_place s)) \<and> io_stop s i
      | Disarmed \<Rightarrow> (completed s i \<or> i \<in> set (completing (io_place s))) \<and> (i \<in> set (io_cancels s @ io_cancelled s) \<longrightarrow> io_stop s i))"

definition callbacks_ok :: "io_state \<Rightarrow> bool" where
  "callbacks_ok s \<longleftrightarrow> (\<forall>i. callback_ok s i)"

definition listed :: "io_state \<Rightarrow> nat set" where
  "listed s = set (place_current (io_place s)) \<union> set (io_registered s) \<union> set (io_cancelled s)"

definition handles_ok :: "io_state \<Rightarrow> bool" where
  "handles_ok s \<longleftrightarrow> (\<forall>i. i \<in> listed s \<longrightarrow> handle_of (io_kinds s i) \<noteq> None) \<and>
     (\<forall>i j h. i \<in> set (held s) \<longrightarrow> j \<in> set (held s) \<longrightarrow> handle_of (io_kinds s i) = Some h \<longrightarrow> handle_of (io_kinds s j) = Some h \<longrightarrow> i = j)"

definition with_poller :: "io_state \<Rightarrow> nat set" where
  "with_poller s = set (io_registered s) \<union> set (io_cancelled s) - set (place_gone (io_place s))"

definition poller_ok :: "io_state \<Rightarrow> bool" where
  "poller_ok s \<longleftrightarrow> pl_counter (io_poller s) \<noteq> - 1 \<and>
     (\<forall>h i. pl_watched (io_poller s) h = Some i \<longleftrightarrow> i \<in> with_poller s \<and> handle_of (io_kinds s i) = Some h)"

definition ready_ok :: "io_state \<Rightarrow> bool" where
  "ready_ok s \<longleftrightarrow> distinct (place_ready (io_place s)) \<and> set (place_ready (io_place s)) \<subseteq> with_poller s"

text \<open>What is still to come in this pass: the taking of the tasks, that of the cancellations.\<close>

fun before_tasks :: "io_place \<Rightarrow> bool" where
  "before_tasks Pass_begins = True"
| "before_tasks (Taking_tasks b) = True"
| "before_tasks (Handling_ready is) = True"
| "before_tasks (Disarming i e stopped k) = before_tasks k"
| "before_tasks (Completing i e stopped k) = before_tasks k"
| "before_tasks _ = False"

fun before_cancels :: "io_place \<Rightarrow> bool" where
  "before_cancels (Stopping_waits b) = False"
| "before_cancels Polling = False"
| "before_cancels Thread_ended = False"
| "before_cancels (Disarming i e stopped k) = True"
| "before_cancels (Completing i e stopped k) = True"
| "before_cancels _ = True"

fun before_flag :: "io_place \<Rightarrow> bool" where
  "before_flag Pass_begins = True"
| "before_flag (Handling_ready is) = True"
| "before_flag (Disarming i e stopped k) = before_flag k"
| "before_flag (Completing i e stopped k) = before_flag k"
| "before_flag _ = False"

fun place_flag :: "io_place \<Rightarrow> bool" where
  "place_flag (Taking_tasks b) = b"
| "place_flag (Running_tasks b ts) = b"
| "place_flag (Arming_wait i b ts) = b"
| "place_flag (Waking_itself i b ts) = b"
| "place_flag (Adding_wait i b ts) = b"
| "place_flag (Taking_cancels b) = b"
| "place_flag (Stopping_waits b) = b"
| "place_flag (Disarming i e stopped k) = place_flag k"
| "place_flag (Completing i e stopped k) = place_flag k"
| "place_flag Thread_ended = True"
| "place_flag _ = False"

fun waking_itself :: "io_place \<Rightarrow> bool" where
  "waking_itself (Waking_itself i b ts) = True"
| "waking_itself _ = False"

definition woken :: "io_state \<Rightarrow> bool" where
  "woken s \<longleftrightarrow> pl_counter (io_poller s) \<noteq> 0"

definition wake_ok :: "io_state \<Rightarrow> bool" where
  "wake_ok s \<longleftrightarrow>
     (io_tasks s \<noteq> [] \<longrightarrow> before_tasks (io_place s) \<or> woken s \<or> io_submitting s \<noteq> []) \<and>
     (io_cancels s \<noteq> [] \<longrightarrow> before_cancels (io_place s) \<or> woken s \<or> (\<exists>i. io_callbacks s i = Waking)) \<and>
     (io_stopping s \<longrightarrow> before_flag (io_place s) \<or> place_flag (io_place s) \<or> woken s \<or> io_destroying s = Stop_stored)"

definition destroy_ok :: "io_state \<Rightarrow> bool" where
  "destroy_ok s \<longleftrightarrow> (io_stopping s \<longleftrightarrow> io_destroying s \<noteq> Not_destroyed) \<and> (place_flag (io_place s) \<longrightarrow> io_stopping s) \<and>
     (io_stopping s \<longrightarrow> held s = []) \<and> (io_place s = Polling \<or> io_place s = Thread_ended \<longrightarrow> io_cancelled s = [])"

definition proper_completion :: "io_state \<Rightarrow> nat \<Rightarrow> io_completion \<Rightarrow> bool" where
  "proper_completion s i c \<longleftrightarrow>
     (case c of
        Set_stopped \<Rightarrow> io_stop s i
      | Set_error e \<Rightarrow> e \<noteq> No_error \<and> handle_of (io_kinds s i) \<noteq> None
      | Set_value \<Rightarrow> io_kinds s i = Schedule_op \<or> handle_ready (io_kinds s i) \<and> 0 < io_ready s i)"

definition failed_watch :: "io_state \<Rightarrow> nat \<times> io_completion \<Rightarrow> bool" where
  "failed_watch s ic \<longleftrightarrow> (case (io_kinds s (fst ic), snd ic) of (Watch_op h True, Set_error e) \<Rightarrow> True | _ \<Rightarrow> False)"

definition done_ok :: "io_state \<Rightarrow> bool" where
  "done_ok s \<longleftrightarrow> (\<forall>(i, c) \<in> set (io_done s). proper_completion s i c) \<and> (io_watch_failed s \<longleftrightarrow> (\<exists>ic \<in> set (io_done s). failed_watch s ic))"

definition order_ok :: "io_state \<Rightarrow> bool" where
  "order_ok s \<longleftrightarrow> io_started s = io_executed s @ place_tasks (io_place s) @ rev (io_tasks s)"

definition io_ok :: "io_state \<Rightarrow> bool" where
  "io_ok s \<longleftrightarrow> held_ok s \<and> place_ok s (io_place s) \<and> stacks_ok s \<and> callbacks_ok s \<and> handles_ok s \<and> poller_ok s \<and> ready_ok s \<and>
     wake_ok s \<and> destroy_ok s \<and> done_ok s \<and> order_ok s"

section \<open>Taking the cancellations\<close>

lemma take_each_eq:
  assumes "distinct (r @ c)" "distinct is" "set is \<inter> set c = {}"
  shows "take_each is (r, c) = (filter (\<lambda>x. x \<notin> set is) r, c @ is)"
  using assms
proof (induction "is" arbitrary: r c)
  case (Cons i "is")
  have r: "remove1 i r = filter (\<lambda>x. x \<noteq> i) r" using Cons.prems by (simp add: distinct_remove1_removeAll removeAll_filter_not_eq eq_commute)
  have c: "remove1 i c = c" using Cons.prems by (auto simp: remove1_idem)
  have "take_each is (remove1 i r, remove1 i c @ [i]) = (filter (\<lambda>x. x \<notin> set is) (remove1 i r), (remove1 i c @ [i]) @ is)"
    by (rule Cons.IH) (use Cons.prems in \<open>auto simp: r c\<close>)
  then show ?case by (simp add: r c conj_commute)
qed (simp add: filter_id_conv [THEN iffD2])

lemma held_distinct: "held_ok s \<Longrightarrow> distinct (held s @ map fst (io_done s))"
  unfolding held_ok_def by (metis mset_append mset_eq_imp_distinct_iff)

lemma held_set: "held_ok s \<Longrightarrow> i \<in> set (held s) \<longleftrightarrow> i \<in> set (io_started s) \<and> \<not> completed s i"
proof -
  assume h: "held_ok s"
  then have "set (held s @ map fst (io_done s)) = set (io_started s)" unfolding held_ok_def by (metis mset_append mset_eq_setD)
  moreover from held_distinct [OF h] have "set (held s) \<inter> set (map fst (io_done s)) = {}" by simp
  ultimately show ?thesis unfolding completed_def by (metis IntI Un_iff empty_iff set_append)
qed

lemma lists_distinct_held: "held_ok s \<Longrightarrow> distinct (place_current (io_place s) @ io_registered s @ io_cancelled s)"
  using held_distinct [of s] by (auto simp: held_def)

lemma take_cancels_eq:
  assumes "held_ok s" "stacks_ok s"
  shows "take_cancels s = s\<lparr>io_cancels := [], io_registered := filter (\<lambda>x. x \<notin> set (io_cancels s)) (io_registered s),
      io_cancelled := io_cancelled s @ io_cancels s\<rparr>"
proof -
  have "take_each (io_cancels s) (io_registered s, io_cancelled s) =
      (filter (\<lambda>x. x \<notin> set (io_cancels s)) (io_registered s), io_cancelled s @ io_cancels s)"
    by (rule take_each_eq) (use lists_distinct_held [OF assms(1)] assms(2) in \<open>auto simp: stacks_ok_def\<close>)
  then show ?thesis by (simp add: take_cancels_def)
qed

lemma filter_split_mset: "distinct r \<Longrightarrow> distinct xs \<Longrightarrow> set xs \<subseteq> set r \<Longrightarrow> mset (filter (\<lambda>x. x \<notin> set xs) r) + mset xs = mset r"
proof -
  assume a: "distinct r" "distinct xs" "set xs \<subseteq> set r"
  then have "mset xs = mset (filter (\<lambda>x. x \<in> set xs) r)" by (subst set_eq_iff_mset_eq_distinct [symmetric]) auto
  then show ?thesis using multiset_partition [of "mset r" "\<lambda>x. x \<in> set xs"] by (simp add: mset_filter add.commute)
qed

lemma handle_listed: "handles_ok s \<Longrightarrow> i \<in> listed s \<Longrightarrow> \<exists>h. handle_of (io_kinds s i) = Some h"
  by (simp add: handles_ok_def)

lemma handle_once:
  "handles_ok s \<Longrightarrow> i \<in> set (held s) \<Longrightarrow> j \<in> set (held s) \<Longrightarrow> handle_of (io_kinds s i) = Some h \<Longrightarrow> handle_of (io_kinds s j) = Some h \<Longrightarrow> i = j"
  unfolding handles_ok_def by blast

lemma with_poller_held: "i \<in> with_poller s \<Longrightarrow> i \<in> set (held s) \<and> i \<in> listed s"
  by (auto simp: with_poller_def held_def listed_def)

lemma watched_iff: "poller_ok s \<Longrightarrow> pl_watched (io_poller s) h = Some i \<longleftrightarrow> i \<in> with_poller s \<and> handle_of (io_kinds s i) = Some h"
  by (simp add: poller_ok_def)

end
