(* ===== verification/Io_Steps.thy ===== *)
theory Io_Steps
  imports Io_Proofs
begin

text \<open>
  Every move of the event loop's machine keeps its invariant.
\<close>

section \<open>The moves as updates\<close>

lemma reverse_onto_rev: "reverse_onto xs ys = rev xs @ ys"
  by (induction xs arbitrary: ys) auto

lemma complete_finished_eq:
  assumes "held_ok s" "stacks_ok s" "io_place s = Completing i e stopped k"
  shows "complete_finished i e stopped (s\<lparr>io_place := k\<rparr>) =
    complete_with i (complete_op (io_kinds s i) e stopped)
      (s\<lparr>io_cancels := [], io_place := k, io_registered := filter (\<lambda>x. x \<notin> set (i # io_cancels s)) (io_registered s),
         io_cancelled := filter (\<lambda>x. x \<noteq> i) (io_cancelled s @ io_cancels s)\<rparr>)"
proof -
  have t: "take_cancels (s\<lparr>io_place := k\<rparr>) = (take_cancels s)\<lparr>io_place := k\<rparr>"
    by (simp add: take_cancels_def split: prod.splits)
  have r: "remove1 i xs = filter (\<lambda>x. x \<noteq> i) xs" if "distinct xs" for xs
    using that by (simp add: distinct_remove1_removeAll removeAll_filter_not_eq eq_commute)
  from lists_distinct_held [OF assms(1)] assms(2) have d: "distinct (io_registered s)" "distinct (io_cancelled s @ io_cancels s)"
    by (auto simp: stacks_ok_def)
  show ?thesis
    unfolding complete_finished_def Let_def t take_cancels_eq [OF assms(1,2)]
    using d by (simp add: r conj_commute)
qed

lemma callback_okD:
  "callbacks_ok s \<Longrightarrow> callback_ok s i"
  by (simp add: callbacks_ok_def)

lemma cancels_stopped:
  assumes "callbacks_ok s" "stacks_ok s" "i \<in> set (io_cancels s @ io_cancelled s)"
  shows "io_stop s i"
proof -
  from assms(2,3) have "i \<in> waits s" by (auto simp: stacks_ok_def waits_def)
  then show ?thesis using callback_okD [OF assms(1), of i] assms(3)
    by (cases "io_callbacks s i") (auto simp: callback_ok_def)
qed

lemma place_current_finishing: "place_ok s (Disarming i e stopped k) \<Longrightarrow> in_run k \<longleftrightarrow> (\<exists>b ts. k = Running_tasks b ts)"
  by (cases k) auto

section \<open>Operations are in one place\<close>

lemmas held_simps = held_ok_def held_def io_function_defs

lemma held_wake [simp]: "held_ok (wake_poller s) = held_ok s" "held_ok (set_callback i c s) = held_ok s"
  by (simp_all add: held_simps)

lemma held_begin:
  assumes "held_ok s" "io_place s = Adding_wait i b ts"
  shows "held_ok (begin_wait r i b ts s)"
  using assms by (auto simp: held_simps split: option.splits sum.splits)

lemma held_stop:
  assumes "held_ok s" "io_place s = Stopping_waits b"
  shows "held_ok (stop_next b s)"
  using assms by (auto simp: held_simps split: list.splits option.splits)

lemma held_handle:
  assumes "held_ok s" "io_place s = Handling_ready (i # is)"
  shows "held_ok (handle_next e i is s)"
  using assms by (auto simp: held_simps split: option.splits)

lemma held_execute:
  assumes "held_ok s" "io_place s = Running_tasks b (i # ts)"
  shows "held_ok (execute_op i b ts s)"
  using assms by (auto simp: held_simps split: option.splits)

lemma held_take:
  assumes "held_ok s" "stacks_ok s" "io_place s = Taking_cancels b"
  shows "held_ok (take_cancels (s\<lparr>io_place := Stopping_waits b\<rparr>))"
proof -
  have h: "held_ok (s\<lparr>io_place := Stopping_waits b\<rparr>)" "stacks_ok (s\<lparr>io_place := Stopping_waits b\<rparr>)"
    using assms by (simp_all add: held_ok_def held_def stacks_ok_def waits_def)
  have "mset (filter (\<lambda>x. x \<notin> set (io_cancels s)) (io_registered s)) + mset (io_cancels s) = mset (io_registered s)"
    by (rule filter_split_mset) (use lists_distinct_held [OF assms(1)] assms(2,3) in \<open>auto simp: stacks_ok_def waits_def\<close>)
  then show ?thesis unfolding take_cancels_eq [OF h] using assms(1,3)
    by (auto simp: held_ok_def held_def ac_simps)
qed

lemma held_complete:
  assumes h: "held_ok s" and "stacks_ok s" "place_ok s (io_place s)" and p: "io_place s = Completing i e stopped k"
  shows "held_ok (complete_finished i e stopped (s\<lparr>io_place := k\<rparr>))"
proof -
  let ?t = "complete_finished i e stopped (s\<lparr>io_place := k\<rparr>)"
  note eq = complete_finished_eq [OF h assms(2) p]
  have k: "place_current k = []" using assms(3) p by (cases k) auto
  have i: "i \<in> set (held s)" and dt: "distinct (held s)"
    using assms(3) p held_distinct [OF h] by (cases k; auto simp: held_def)+
  have d: "distinct (place_current (io_place s) @ io_registered s @ io_cancelled s)" by (rule lists_distinct_held [OF h])
  have c: "set (io_cancels s) \<subseteq> set (place_current (io_place s)) \<union> set (io_registered s)" "distinct (io_cancels s)"
    "set (io_cancels s) \<inter> set (io_cancelled s) = {}"
    using assms(2) by (auto simp: stacks_ok_def waits_def split: if_splits)
  have "distinct (held ?t)"
    using dt d c unfolding eq by (auto simp: held_def complete_with_def k p)
  moreover have "set (held ?t) = set (held s) - {i}"
    using dt d c k p assms(3) unfolding eq by (cases k) (auto simp: held_def complete_with_def)
  ultimately have "mset (held ?t) = mset (remove1 i (held s))"
    using dt i by (subst set_eq_iff_mset_eq_distinct [symmetric]) auto
  with i have "mset (held s) = add_mset i (mset (held ?t))" by simp
  moreover have "io_started ?t = io_started s" "map fst (io_done ?t) = map fst (io_done s) @ [i]"
    by (simp_all add: eq complete_with_def)
  ultimately show ?thesis using h by (simp add: held_ok_def)
qed

lemma held_thread:
  assumes "thread_moves (io_place s) s = Some t" "held_ok s" "stacks_ok s" "place_ok s (io_place s)"
  shows "held_ok t"
  using assms
proof (cases "(io_place s, s)" rule: thread_moves.cases)
  case 4
  with assms show ?thesis using held_execute by auto
next
  case 7
  with assms show ?thesis using held_take by auto
next
  case 8
  with assms show ?thesis using held_stop by auto
next
  case 11
  with assms show ?thesis using held_complete by auto
qed (auto simp: held_simps reverse_onto_rev ac_simps split: if_splits)

lemma held_step:
  assumes "io_move m s = Some t" "held_ok s" "stacks_ok s" "place_ok s (io_place s)"
  shows "held_ok t"
proof (cases m)
  case (Start_op i)
  with assms show ?thesis by (auto simp: held_simps)
next
  case (Thread_adds r)
  with assms show ?thesis using held_begin by (auto split: io_place.splits)
next
  case (Thread_handles e)
  with assms show ?thesis using held_handle by (auto split: io_place.splits list.splits)
next
  case Thread_moves
  with assms show ?thesis using held_thread by auto
next
  case (Thread_polls evs)
  with assms show ?thesis by (auto simp: held_simps split: prod.splits)
qed (use assms in \<open>auto simp: held_simps\<close>)


section \<open>Places and stacks\<close>

lemma in_held: "i \<in> set (held s) \<longleftrightarrow> i \<in> set (io_tasks s) \<or> i \<in> set (place_tasks (io_place s)) \<or> i \<in> set (place_current (io_place s)) \<or>
    i \<in> set (io_registered s) \<or> i \<in> set (io_cancelled s)"
  by (auto simp: held_def)

lemma finishing_ok_cong:
  "finishing_ok s i e stopped k \<Longrightarrow> io_kinds t = io_kinds s \<Longrightarrow> io_ready t i = io_ready s i \<Longrightarrow>
   set (io_registered s) \<subseteq> set (io_registered t) \<Longrightarrow> set (io_cancelled s) \<subseteq> set (io_cancelled t) \<Longrightarrow> finishing_ok t i e stopped k"
  by (cases k) (auto split: if_splits)

lemma place_ok_cong:
  "place_ok s k \<Longrightarrow> io_kinds t = io_kinds s \<Longrightarrow> io_ready t = io_ready s \<Longrightarrow>
   set (io_registered s) \<subseteq> set (io_registered t) \<Longrightarrow> set (io_cancelled s) \<subseteq> set (io_cancelled t) \<Longrightarrow> place_ok t k"
  by (cases k) (auto intro: finishing_ok_cong)

lemma place_thread:
  assumes "thread_moves (io_place s) s = Some t" "place_ok s (io_place s)"
  shows "place_ok t (io_place t)"
  using assms
proof (cases "(io_place s, s)" rule: thread_moves.cases)
  case (10 i e stopped k u)
  with assms have "finishing_ok s i e stopped k" "t = (set_callback i Disarmed s)\<lparr>io_place := Completing i e stopped k\<rparr>"
    by (auto simp: disarm_def split: if_splits)
  then show ?thesis by (auto simp: set_callback_def intro: finishing_ok_cong)
next
  case (11 i e stopped k u)
  then have "io_place t = k" using assms by (auto simp: complete_finished_def take_cancels_def complete_with_def split: prod.splits)
  with 11 assms(2) show ?thesis by (cases k) auto
qed (auto simp: io_function_defs take_cancels_def split: if_splits list.splits option.splits prod.splits)

lemma place_step:
  assumes "io_move m s = Some t" "place_ok s (io_place s)" "ready_ok s"
  shows "place_ok t (io_place t)"
proof (cases m)
  case Thread_moves
  with assms place_thread show ?thesis by auto
next
  case (Thread_adds r)
  with assms show ?thesis
    by (auto simp: io_function_defs poller_add_def errno_EEXIST_def split: io_place.splits option.splits sum.splits if_splits)
next
  case (Thread_handles e)
  with assms show ?thesis
    by (auto simp: io_function_defs ready_ok_def with_poller_def split: io_place.splits list.splits option.splits if_splits)
next
  case (Thread_polls evs)
  with assms show ?thesis by (auto split: prod.splits)
qed (use assms in \<open>auto simp: io_function_defs intro: place_ok_cong\<close>)

lemma waits_place: "io_registered t = io_registered s \<Longrightarrow> io_cancelled t = io_cancelled s \<Longrightarrow>
   place_current (io_place t) = place_current (io_place s) \<Longrightarrow> place_armed (io_place t) = place_armed (io_place s) \<Longrightarrow> waits t = waits s"
  by (simp add: waits_def)

lemmas thread_function_defs = io_function_defs take_cancels_def complete_finished_def

lemma stacks_thread:
  assumes "thread_moves (io_place s) s = Some t" "stacks_ok s" "held_ok s" "place_ok s (io_place s)" "callbacks_ok s"
  shows "stacks_ok t"
  using assms
proof (cases "(io_place s, s)" rule: thread_moves.cases)
  case (5 i b ts u)
  have "i \<notin> waits s" using lists_distinct_held [OF assms(3)] 5 by (auto simp: waits_def)
  with 5 assms(1,2) lists_distinct_held [OF assms(3)] show ?thesis
    by (auto simp: arm_def set_callback_def stacks_ok_def waits_def split: if_splits)
next
  case (7 b u)
  then have "io_cancels t = []" using assms(1) by (auto simp: take_cancels_def split: prod.splits)
  then show ?thesis by (simp add: stacks_ok_def)
next
  case (11 i e stopped k u)
  then have "io_cancels t = []" using assms(1)
    by (auto simp: complete_finished_def take_cancels_def complete_with_def Let_def split: prod.splits)
  then show ?thesis by (simp add: stacks_ok_def)
qed (auto simp: io_function_defs stacks_ok_def waits_def split: if_splits list.splits option.splits)

lemma stacks_step:
  assumes "io_move m s = Some t" "stacks_ok s" "held_ok s" "place_ok s (io_place s)" "callbacks_ok s"  "ready_ok s"
  shows "stacks_ok t"
proof (cases m)
  case Thread_moves
  with assms stacks_thread show ?thesis by auto
next
  case (Callback_pushes i)
  with assms have c: "io_callbacks s i = Called" "t = cancel_wait i s" by auto
  with callback_okD [OF assms(5), of i] have "i \<in> waits s" "i \<notin> set (io_cancels s @ io_cancelled s)" by (auto simp: callback_ok_def)
  with assms(2) c show ?thesis by (auto simp: stacks_ok_def waits_def cancel_wait_def set_callback_def)
next
  case (Thread_adds r)
  with assms show ?thesis
    by (auto simp: io_function_defs poller_add_def stacks_ok_def waits_def split: io_place.splits option.splits sum.splits if_splits)
next
  case (Thread_handles e)
  with assms show ?thesis
    by (auto simp: io_function_defs stacks_ok_def waits_def split: io_place.splits list.splits option.splits if_splits)
next
  case (Thread_polls evs)
  with assms show ?thesis by (auto simp: stacks_ok_def waits_def split: prod.splits)
qed (use assms in \<open>auto simp: io_function_defs stacks_ok_def waits_def\<close>)


section \<open>Callbacks\<close>

text \<open>The callbacks of the others, when nothing moves but one wait.\<close>

lemma callback_ok_cong:
  assumes "callback_ok s i" "io_callbacks t i = io_callbacks s i" "i \<in> waits t \<longleftrightarrow> i \<in> waits s"
    "i \<in> set (io_cancels t @ io_cancelled t) \<longleftrightarrow> i \<in> set (io_cancels s @ io_cancelled s)"
    "i \<in> set (completing (io_place t)) \<longleftrightarrow> i \<in> set (completing (io_place s))"
    "io_stop s i \<Longrightarrow> io_stop t i" "completed s i \<Longrightarrow> completed t i"
  shows "callback_ok t i"
  using assms by (cases "io_callbacks s i") (auto simp: callback_ok_def)

lemma callbacks_same:
  assumes "callbacks_ok s" "io_callbacks t = io_callbacks s" "waits t = waits s"
    "set (io_cancels t @ io_cancelled t) = set (io_cancels s @ io_cancelled s)"
    "completing (io_place t) = completing (io_place s)"
    "\<And>i. io_stop s i \<Longrightarrow> io_stop t i" "\<And>i. completed s i \<Longrightarrow> completed t i"
  shows "callbacks_ok t"
  unfolding callbacks_ok_def
  by (intro allI, rule callback_ok_cong [of s]) (use assms in \<open>auto simp: callbacks_ok_def\<close>)

text \<open>The callback of one wait moves.\<close>

lemma callbacks_one:
  assumes "callbacks_ok s" "io_callbacks t = (io_callbacks s)(i := c)" "callback_ok t i"
    "\<And>j. j \<noteq> i \<Longrightarrow> j \<in> waits t \<longleftrightarrow> j \<in> waits s"
    "\<And>j. j \<noteq> i \<Longrightarrow> j \<in> set (io_cancels t @ io_cancelled t) \<longleftrightarrow> j \<in> set (io_cancels s @ io_cancelled s)"
    "\<And>j. j \<noteq> i \<Longrightarrow> j \<in> set (completing (io_place t)) \<longleftrightarrow> j \<in> set (completing (io_place s))"
    "io_stop t = io_stop s" "\<And>i. completed s i \<Longrightarrow> completed t i"
  shows "callbacks_ok t"
  unfolding callbacks_ok_def
proof
  fix j
  show "callback_ok t j"
  proof (cases "j = i")
    case False
    show ?thesis by (rule callback_ok_cong [of s]) (use assms False in \<open>auto simp: callbacks_ok_def\<close>)
  qed (use assms in auto)
qed

lemma waits_held: "i \<in> waits s \<Longrightarrow> i \<in> set (held s)"
  by (auto simp: waits_def held_def split: if_splits)

lemma callbacks_arm:
  assumes ok: "callbacks_ok s" "held_ok s" "stacks_ok s" and p: "io_place s = Arming_wait i b ts"
  shows "callbacks_ok (arm i b ts s)"
proof -
  have i: "i \<notin> waits s" using lists_distinct_held [OF ok(2)] p by (auto simp: waits_def)
  then have nc: "i \<notin> set (io_cancels s @ io_cancelled s)" using ok(3) by (auto simp: stacks_ok_def waits_def)
  show ?thesis
  proof (cases "io_stop s i")
    case True
    show ?thesis by (rule callbacks_one [OF ok(1), of _ i Called_back])
      (use True p in \<open>auto simp: arm_def set_callback_def waits_def callback_ok_def completed_def\<close>)
  next
    case False
    show ?thesis by (rule callbacks_one [OF ok(1), of _ i Armed])
      (use False p nc in \<open>auto simp: arm_def set_callback_def waits_def callback_ok_def completed_def\<close>)
  qed
qed

lemma callbacks_disarm:
  assumes ok: "callbacks_ok s" "stacks_ok s" and p: "io_place s = Disarming i e stopped k" and d: "disarm i s = Some u"
  shows "callbacks_ok (u\<lparr>io_place := Completing i e stopped k\<rparr>)"
proof (rule callbacks_one [OF ok(1), of _ i Disarmed])
  from d have u: "u = set_callback i Disarmed s" by (auto simp: disarm_def split: if_splits)
  show "callback_ok (u\<lparr>io_place := Completing i e stopped k\<rparr>) i"
    using cancels_stopped [OF ok, of i] by (auto simp: u callback_ok_def set_callback_def)
qed (use d p in \<open>auto simp: disarm_def set_callback_def waits_def completed_def split: if_splits\<close>)

lemma callbacks_complete:
  assumes ok: "callbacks_ok s" "held_ok s" "stacks_ok s" "place_ok s (io_place s)" and p: "io_place s = Completing i e stopped k"
  shows "callbacks_ok (complete_finished i e stopped (s\<lparr>io_place := k\<rparr>))"
  unfolding callbacks_ok_def
proof
  fix j
  let ?t = "complete_finished i e stopped (s\<lparr>io_place := k\<rparr>)"
  note eq = complete_finished_eq [OF ok(2,3) p]
  have k: "place_current k = []" "completing k = []" using ok(4) p by (cases k; auto)+
  have c: "set (io_cancels s) \<subseteq> set (place_current (io_place s)) \<union> set (io_registered s)"
    using ok(3) by (auto simp: stacks_ok_def waits_def split: if_splits)
  have w: "waits ?t = waits s - {i}"
    using lists_distinct_held [OF ok(2)] c k p unfolding eq by (auto simp: waits_def complete_with_def split: if_splits)
  show "callback_ok ?t j"
  proof (cases "j = i")
    case True
    have "i \<in> waits s" using ok(4) p by (cases k) (auto simp: waits_def)
    with callback_okD [OF ok(1), of i] p have "io_callbacks s i = Disarmed" by (cases "io_callbacks s i") (auto simp: callback_ok_def)
    then show ?thesis by (simp add: True callback_ok_def eq complete_with_def completed_def)
  next
    case False
    show ?thesis
      by (rule callback_ok_cong [OF callback_okD [OF ok(1), of j]]) (use False p k w in \<open>auto simp: eq complete_with_def completed_def\<close>)
  qed
qed

lemma callbacks_thread:
  assumes "thread_moves (io_place s) s = Some t" "callbacks_ok s" "stacks_ok s" "held_ok s" "place_ok s (io_place s)"
  shows "callbacks_ok t"
  using assms
proof (cases "(io_place s, s)" rule: thread_moves.cases)
  case 5
  with assms show ?thesis using callbacks_arm by auto
next
  case (7 b u)
  then have p: "io_place s = Taking_cancels b" by blast
  have h: "held_ok (s\<lparr>io_place := Stopping_waits b\<rparr>)" "stacks_ok (s\<lparr>io_place := Stopping_waits b\<rparr>)"
    using assms(3,4) p by (simp_all add: held_ok_def held_def stacks_ok_def waits_def)
  have "set (io_cancels s) \<subseteq> set (io_registered s)" using assms(3) p by (auto simp: stacks_ok_def waits_def)
  moreover from p assms(1) have "t = take_cancels (s\<lparr>io_place := Stopping_waits b\<rparr>)" by simp
  then have t: "t = s\<lparr>io_place := Stopping_waits b, io_cancels := [],
      io_registered := filter (\<lambda>x. x \<notin> set (io_cancels s)) (io_registered s), io_cancelled := io_cancelled s @ io_cancels s\<rparr>"
    by (simp add: take_cancels_eq [OF h])
  ultimately have "waits t = waits s" using p by (auto simp: waits_def t)
  then show ?thesis by (rule callbacks_same [OF assms(2), rotated]) (use p in \<open>auto simp: t completed_def\<close>)
next
  case 10
  with assms show ?thesis using callbacks_disarm by auto
next
  case 11
  with assms show ?thesis using callbacks_complete by auto
qed (use assms(1,2) in \<open>auto simp: io_function_defs waits_def completed_def split: if_splits list.splits option.splits intro!: callbacks_same [of s]\<close>)

lemma callbacks_step:
  assumes "io_move m s = Some t" "callbacks_ok s" "stacks_ok s" "held_ok s" "place_ok s (io_place s)" "ready_ok s"
  shows "callbacks_ok t"
proof (cases m)
  case Thread_moves
  with assms callbacks_thread show ?thesis by auto
next
  case (Callback_runs i)
  with assms have c: "io_stop s i" "io_callbacks s i = Armed" "t = set_callback i Called s" by auto
  with callback_okD [OF assms(2), of i] show ?thesis
    by (intro callbacks_one [OF assms(2), of _ i Called]) (auto simp: set_callback_def waits_def callback_ok_def completed_def)
next
  case (Callback_pushes i)
  with assms have c: "io_callbacks s i = Called" "t = cancel_wait i s" by auto
  with callback_okD [OF assms(2), of i] show ?thesis
    by (intro callbacks_one [OF assms(2), of _ i "if io_cancels s = [] then Waking else Called_back"])
      (auto simp: cancel_wait_def set_callback_def waits_def callback_ok_def completed_def)
next
  case (Callback_wakes i)
  with assms have c: "io_callbacks s i = Waking" "t = wake_poller (set_callback i Called_back s)" by auto
  with callback_okD [OF assms(2), of i] show ?thesis
    by (intro callbacks_one [OF assms(2), of _ i Called_back]) (auto simp: wake_poller_def set_callback_def waits_def callback_ok_def completed_def)
next
  case (Thread_adds r)
  with assms show ?thesis
    by (auto simp: io_function_defs poller_add_def waits_def completed_def split: io_place.splits option.splits sum.splits if_splits intro!: callbacks_same [of s])
next
  case (Thread_handles e)
  with assms show ?thesis
    by (auto simp: io_function_defs waits_def completed_def split: io_place.splits list.splits option.splits if_splits intro!: callbacks_same [of s])
next
  case (Thread_polls evs)
  with assms show ?thesis by (auto simp: waits_def completed_def split: prod.splits intro!: callbacks_same [of s])
qed (use assms in \<open>auto simp: io_function_defs waits_def completed_def intro!: callbacks_same [of s]\<close>)


section \<open>Handles and the poller\<close>

lemma cancels_listed: "stacks_ok s \<Longrightarrow> set (io_cancels s) \<subseteq> listed s"
  by (auto simp: stacks_ok_def waits_def listed_def split: if_splits)

lemma listed_take:
  assumes "io_place s = Taking_cancels b" "held_ok s" "stacks_ok s"
  shows "listed (take_cancels (s\<lparr>io_place := Stopping_waits b\<rparr>)) = listed s"
    "set (io_registered (take_cancels (s\<lparr>io_place := Stopping_waits b\<rparr>))) \<union> set (io_cancelled (take_cancels (s\<lparr>io_place := Stopping_waits b\<rparr>)))
      = set (io_registered s) \<union> set (io_cancelled s)"
proof -
  have h: "held_ok (s\<lparr>io_place := Stopping_waits b\<rparr>)" "stacks_ok (s\<lparr>io_place := Stopping_waits b\<rparr>)"
    using assms by (simp_all add: held_ok_def held_def stacks_ok_def waits_def)
  show "listed (take_cancels (s\<lparr>io_place := Stopping_waits b\<rparr>)) = listed s"
    "set (io_registered (take_cancels (s\<lparr>io_place := Stopping_waits b\<rparr>))) \<union> set (io_cancelled (take_cancels (s\<lparr>io_place := Stopping_waits b\<rparr>)))
      = set (io_registered s) \<union> set (io_cancelled s)"
    using cancels_listed [OF assms(3)] assms(1) unfolding take_cancels_eq [OF h] by (auto simp: listed_def)
qed

lemma listed_complete:
  assumes "io_place s = Completing i e stopped k" "held_ok s" "stacks_ok s" "place_ok s (io_place s)"
  shows "listed (complete_finished i e stopped (s\<lparr>io_place := k\<rparr>)) = listed s - {i}"
    "set (io_registered (complete_finished i e stopped (s\<lparr>io_place := k\<rparr>))) \<union> set (io_cancelled (complete_finished i e stopped (s\<lparr>io_place := k\<rparr>)))
      = listed s - {i}"
proof -
  have k: "place_current k = []" using assms(1,4) by (cases k; auto)
  have c: "set (place_current (io_place s)) \<subseteq> {i}" using assms(1) by auto
  show "set (io_registered (complete_finished i e stopped (s\<lparr>io_place := k\<rparr>))) \<union> set (io_cancelled (complete_finished i e stopped (s\<lparr>io_place := k\<rparr>)))
      = listed s - {i}"
    using cancels_listed [OF assms(3)] c unfolding complete_finished_eq [OF assms(2,3,1)] by (auto simp: listed_def complete_with_def)
  then show "listed (complete_finished i e stopped (s\<lparr>io_place := k\<rparr>)) = listed s - {i}"
    unfolding complete_finished_eq [OF assms(2,3,1)] by (auto simp: listed_def complete_with_def k)
qed

lemma kinds_step [simp]: "io_move m s = Some t \<Longrightarrow> io_kinds t = io_kinds s"
proof (cases m)
  case Thread_moves
  then show "io_move m s = Some t \<Longrightarrow> ?thesis"
    by (cases "(io_place s, s)" rule: thread_moves.cases)
      (auto simp: io_function_defs complete_finished_def take_cancels_def split: if_splits list.splits option.splits prod.splits)
qed (auto simp: io_function_defs split: io_place.splits list.splits option.splits sum.splits prod.splits if_splits)

lemma started_step: "io_move m s = Some t \<Longrightarrow> (\<And>i. m \<noteq> Start_op i) \<Longrightarrow> io_started t = io_started s"
proof (cases m)
  case Thread_moves
  then show "io_move m s = Some t \<Longrightarrow> ?thesis"
    by (cases "(io_place s, s)" rule: thread_moves.cases)
      (auto simp: io_function_defs complete_finished_def take_cancels_def split: if_splits list.splits option.splits prod.splits)
qed (auto simp: io_function_defs split: io_place.splits list.splits option.splits sum.splits prod.splits if_splits)

lemma done_step: "io_move m s = Some t \<Longrightarrow> \<exists>xs. io_done t = io_done s @ xs"
proof (cases m)
  case Thread_moves
  then show "io_move m s = Some t \<Longrightarrow> ?thesis"
    by (cases "(io_place s, s)" rule: thread_moves.cases)
      (auto simp: io_function_defs complete_finished_def take_cancels_def split: if_splits list.splits option.splits prod.splits)
qed (auto simp: io_function_defs split: io_place.splits list.splits option.splits sum.splits prod.splits if_splits)

lemma completed_step: "io_move m s = Some t \<Longrightarrow> completed s i \<Longrightarrow> completed t i"
  by (drule done_step) (auto simp: completed_def)

lemma held_shrinks:
  assumes "io_move m s = Some t" "held_ok s" "held_ok t" "\<And>i. m \<noteq> Start_op i"
  shows "set (held t) \<subseteq> set (held s)"
  using assms held_set [OF assms(2)] held_set [OF assms(3)] started_step [OF assms(1,4)] completed_step [OF assms(1)] by auto

lemma held_start:
  assumes "io_move (Start_op i) s = Some t" "held_ok s" "held_ok t"
  shows "set (held t) = insert i (set (held s))"
  using assms by (auto simp: submit_def held_def)

lemma listed_thread:
  assumes "thread_moves (io_place s) s = Some t" "held_ok s" "stacks_ok s" "place_ok s (io_place s)" "i \<in> listed t"
  shows "i \<in> listed s \<or> handle_of (io_kinds s i) \<noteq> None"
  using assms
proof (cases "(io_place s, s)" rule: thread_moves.cases)
  case (4 b j ts u)
  then show ?thesis using assms(1,5) by (cases "io_kinds s j") (auto simp: io_function_defs listed_def split: if_splits)
next
  case (7 b u)
  then show ?thesis using assms listed_take(1) by auto
next
  case (11 j e stopped k u)
  then show ?thesis using assms listed_complete(1) by auto
qed (auto simp: io_function_defs listed_def split: if_splits list.splits option.splits)

lemma listed_step:
  assumes "io_move m s = Some t" "held_ok s" "stacks_ok s" "place_ok s (io_place s)" "ready_ok s" "i \<in> listed t"
  shows "i \<in> listed s \<or> handle_of (io_kinds s i) \<noteq> None"
proof (cases m)
  case Thread_moves
  with assms listed_thread show ?thesis by auto
next
  case (Thread_adds r)
  with assms show ?thesis
    by (auto simp: io_function_defs poller_add_def listed_def split: io_place.splits option.splits sum.splits if_splits)
next
  case (Thread_handles e)
  with assms show ?thesis
    by (auto simp: io_function_defs listed_def split: io_place.splits list.splits option.splits if_splits)
next
  case (Thread_polls evs)
  with assms show ?thesis by (auto simp: listed_def split: prod.splits)
qed (use assms in \<open>auto simp: io_function_defs listed_def\<close>)

lemma handles_step:
  assumes "io_move m s = Some t" "handles_ok s" "held_ok s" "held_ok t" "stacks_ok s" "place_ok s (io_place s)" "ready_ok s"
  shows "handles_ok t"
proof -
  have first: "handle_of (io_kinds s i) \<noteq> None" if "i \<in> listed t" for i
    using listed_step [OF assms(1,3,5,6,7) that] handle_listed [OF assms(2), of i] by auto
  have second: "i = j" if "i \<in> set (held t)" "j \<in> set (held t)" "handle_of (io_kinds s i) = Some h" "handle_of (io_kinds s j) = Some h" for i j h
  proof (cases "\<exists>k. m = Start_op k")
    case True
    then obtain k where m: "m = Start_op k" by blast
    with assms(1) have f: "handle_free k s" by auto
    have new: "x = k" if "x \<in> set (held s)" "handle_of (io_kinds s x) = Some h" "handle_of (io_kinds s k) = Some h" for x
      using f that held_set [OF assms(3), of x] by (auto simp: handle_free_def list_all_iff)
    from held_start [of k s t] assms(1,3,4) m have "set (held t) = insert k (set (held s))" by simp
    with that new handle_once [OF assms(2)] show ?thesis by (metis insert_iff)
  next
    case False
    with held_shrinks [OF assms(1,3,4)] have "set (held t) \<subseteq> set (held s)" by blast
    with that handle_once [OF assms(2)] show ?thesis by blast
  qed
  have k: "io_kinds t = io_kinds s" by (rule kinds_step [OF assms(1)])
  show ?thesis unfolding handles_ok_def k using first second by blast
qed

lemma poller_wait_fields:
  assumes "poller_wait evs p = (ready, p')" "\<And>h. Some h \<in> set evs \<Longrightarrow> pl_watched p h \<noteq> None"
  shows "pl_watched p' = pl_watched p \<and> pl_counter p' = (if None \<in> set evs then 0 else pl_counter p) \<and>
    ready = map (\<lambda>h. the (pl_watched p h)) (map the (filter (\<lambda>e. e \<noteq> None) evs))"
  using assms
proof (induction evs p arbitrary: ready p' rule: poller_wait.induct)
  case (2 evs p)
  have "poller_wait evs (p\<lparr>pl_counter := 0\<rparr>) = (ready, p')" "\<And>h. Some h \<in> set evs \<Longrightarrow> pl_watched (p\<lparr>pl_counter := 0\<rparr>) h \<noteq> None"
    using 2(2,3) by simp_all
  from 2(1) [OF this] show ?case by (simp split: if_splits)
next
  case (3 h evs p)
  obtain r q where q: "poller_wait evs p = (r, q)" by (cases "poller_wait evs p")
  from 3(3) [of h] obtain c where c: "pl_watched p h = Some c" by auto
  from 3(1) [OF q] 3(3) have "pl_watched q = pl_watched p \<and> pl_counter q = (if None \<in> set evs then 0 else pl_counter p) \<and>
    r = map (\<lambda>h. the (pl_watched p h)) (map the (filter (\<lambda>e. e \<noteq> None) evs))" by simp
  with 3(2) q c show ?case by auto
qed simp

lemma wake_counter: "pl_counter p \<noteq> - 1 \<Longrightarrow> pl_counter (poller_wake p) \<noteq> - 1 \<and> pl_counter (poller_wake p) \<noteq> 0 \<and> pl_watched (poller_wake p) = pl_watched p"
proof -
  assume a: "pl_counter p \<noteq> - 1"
  have "x + 1 \<noteq> - 1" if "x \<noteq> - 2" for x :: "64 word"
  proof
    assume "x + 1 = - 1"
    then have "x = - 1 - 1" by (metis add_diff_cancel_right')
    with that show False by simp
  qed
  moreover have "x + 1 \<noteq> 0" if "x \<noteq> - 1" for x :: "64 word"
    using that by (metis add_eq_0_iff2)
  moreover have "(- 2 :: 64 word) \<noteq> - 1" "(- 2 :: 64 word) \<noteq> 0" by simp_all
  ultimately show ?thesis using a by (auto simp: poller_wake_def)
qed

lemma poller_ok_same:
  assumes "poller_ok s" "io_kinds t = io_kinds s" "pl_watched (io_poller t) = pl_watched (io_poller s)" "with_poller t = with_poller s"
    "pl_counter (io_poller t) = pl_counter (io_poller s) \<or> pl_counter (io_poller t) = 0"
  shows "poller_ok t"
proof -
  from assms(1) have "pl_counter (io_poller s) \<noteq> - 1" by (simp add: poller_ok_def)
  with assms(5) have "pl_counter (io_poller t) \<noteq> - 1" by auto
  with assms(1) show ?thesis by (simp add: poller_ok_def assms(2-4))
qed

lemma poller_woken:
  assumes "poller_ok s" "io_kinds t = io_kinds s" "io_poller t = poller_wake (io_poller s)" "with_poller t = with_poller s"
  shows "poller_ok t"
proof -
  from assms(1) have "pl_counter (io_poller s) \<noteq> - 1" by (simp add: poller_ok_def)
  from wake_counter [OF this] assms(1) show ?thesis by (simp add: poller_ok_def assms(2-4))
qed

lemma poller_unregister:
  assumes ok: "poller_ok s" "handles_ok s" and i: "i \<in> with_poller s"
    and t: "io_poller t = io_poller (unregister i s)" "io_kinds t = io_kinds s" "with_poller t = with_poller s - {i}"
  shows "poller_ok t"
proof -
  from handle_listed [OF ok(2)] with_poller_held [OF i] obtain h where h: "handle_of (io_kinds s i) = Some h" by blast
  have only: "j = i" if "j \<in> with_poller s" "handle_of (io_kinds s j) = Some h" for j
    using handle_once [OF ok(2)] with_poller_held [OF that(1)] with_poller_held [OF i] that(2) h by blast
  have p: "io_poller t = poller_remove h (io_poller s)" by (simp add: t unregister_def h)
  have "pl_watched (io_poller t) x = Some j \<longleftrightarrow> j \<in> with_poller t \<and> handle_of (io_kinds t j) = Some x" for x j
    using only [of j] watched_iff [OF ok(1), of x j] h by (auto simp: p t(2,3) poller_remove_def)
  moreover have "pl_counter (io_poller t) \<noteq> - 1" using ok(1) by (simp add: p poller_remove_def poller_ok_def)
  ultimately show ?thesis by (simp add: poller_ok_def)
qed

lemma poller_add_ok:
  assumes ok: "poller_ok s" "handles_ok s" "held_ok s" and p: "io_place s = Adding_wait i b ts"
  shows "poller_ok (begin_wait r i b ts s)"
proof -
  have "i \<in> listed s" using p by (simp add: listed_def)
  with handle_listed [OF ok(2)] obtain h where h: "handle_of (io_kinds s i) = Some h" by blast
  have out: "i \<notin> set (io_registered s) \<union> set (io_cancelled s)" using lists_distinct_held [OF ok(3)] p by auto
  show ?thesis
  proof (cases "r = Some 0 \<and> pl_watched (io_poller s) h = None")
    case False
    then show ?thesis using p h out
      by (intro poller_ok_same [OF ok(1)]) (auto simp: io_function_defs poller_add_def with_poller_def split: option.splits)
  next
    case True
    let ?t = "begin_wait r i b ts s"
    from True h p have t: "io_poller ?t = (io_poller s)\<lparr>pl_watched := (pl_watched (io_poller s))(h := Some i)\<rparr>"
      "with_poller ?t = insert i (with_poller s)" "io_kinds ?t = io_kinds s"
      by (auto simp: begin_wait_def poller_add_def with_poller_def)
    have other: "\<not> (j \<in> with_poller s \<and> handle_of (io_kinds s j) = Some h)" for j
      using watched_iff [OF ok(1), of h j] True by simp
    have "pl_watched (io_poller ?t) x = Some j \<longleftrightarrow> j \<in> with_poller ?t \<and> handle_of (io_kinds ?t j) = Some x" for x j
      using other [of j] watched_iff [OF ok(1), of x j] h by (auto simp: t)
    moreover have "pl_counter (io_poller ?t) \<noteq> - 1" using ok(1) by (simp add: t poller_ok_def)
    ultimately show ?thesis by (simp add: poller_ok_def)
  qed
qed

lemma with_poller_finish:
  "io_place s = Handling_ready is \<Longrightarrow> with_poller (unregister i s\<lparr>io_place := Disarming i e stopped (Handling_ready js)\<rparr>) = with_poller s - {i}"
  "io_place s = Stopping_waits b \<Longrightarrow> with_poller (unregister i s\<lparr>io_place := Disarming i e stopped (Stopping_waits b)\<rparr>) = with_poller s - {i}"
  by (auto simp: with_poller_def unregister_def split: option.splits)

lemma poller_stop:
  assumes ok: "poller_ok s" "handles_ok s" and p: "io_place s = Stopping_waits b"
  shows "poller_ok (stop_next b s)"
proof (cases "io_cancelled s")
  case Nil
  with p show ?thesis by (intro poller_ok_same [OF ok(1)]) (auto simp: stop_next_def with_poller_def)
next
  case (Cons i "is")
  show ?thesis
    by (rule poller_unregister [OF ok, of i]) (use Cons p in \<open>auto simp: stop_next_def with_poller_def unregister_def finish_wait_def split: option.splits\<close>)
qed

lemma poller_handle:
  assumes ok: "poller_ok s" "handles_ok s" "ready_ok s" and p: "io_place s = Handling_ready (i # is)"
  shows "poller_ok (handle_next e i is s)"
proof (cases "handle_ready (io_kinds s i) \<or> e \<noteq> No_error")
  case False
  with p show ?thesis by (intro poller_ok_same [OF ok(1)]) (auto simp: handle_next_def with_poller_def)
next
  case True
  have i: "i \<in> with_poller s" using ok(3) p by (simp add: ready_ok_def)
  show ?thesis
    by (rule poller_unregister [OF ok(1,2) i])
      (use True p in \<open>auto simp: handle_next_def with_poller_def unregister_def finish_wait_def Let_def split: option.splits\<close>)
qed

lemma with_poller_take:
  assumes "io_place s = Taking_cancels b" "held_ok s" "stacks_ok s"
  shows "with_poller (take_cancels (s\<lparr>io_place := Stopping_waits b\<rparr>)) = with_poller s"
  using listed_take(2) [OF assms] assms(1) by (simp add: with_poller_def) (simp add: take_cancels_def split: prod.splits)

lemma place_take: "io_place (take_cancels s) = io_place s" "io_poller (take_cancels s) = io_poller s" "io_kinds (take_cancels s) = io_kinds s"
  by (simp_all add: take_cancels_def split: prod.splits)

lemma complete_finished_fields:
  "io_place (complete_finished i e stopped s) = io_place s" "io_poller (complete_finished i e stopped s) = io_poller s"
  "io_kinds (complete_finished i e stopped s) = io_kinds s" "io_tasks (complete_finished i e stopped s) = io_tasks s"
  "io_cancels (complete_finished i e stopped s) = []" "io_submitting (complete_finished i e stopped s) = io_submitting s"
  "io_stopping (complete_finished i e stopped s) = io_stopping s" "io_destroying (complete_finished i e stopped s) = io_destroying s"
  "io_executed (complete_finished i e stopped s) = io_executed s" "io_started (complete_finished i e stopped s) = io_started s"
  "io_stop (complete_finished i e stopped s) = io_stop s" "io_ready (complete_finished i e stopped s) = io_ready s"
  "io_done (complete_finished i e stopped s) = io_done s @ [(i, complete_op (io_kinds s i) e stopped)]"
  by (simp_all add: complete_finished_def complete_with_def take_cancels_def Let_def split: prod.splits)

lemma with_poller_complete:
  assumes "io_place s = Completing i e stopped k" "held_ok s" "stacks_ok s" "place_ok s (io_place s)"
  shows "with_poller (complete_finished i e stopped (s\<lparr>io_place := k\<rparr>)) = with_poller s"
proof -
  have k: "place_gone k = []" using assms(1,4) by (cases k) auto
  have "with_poller (complete_finished i e stopped (s\<lparr>io_place := k\<rparr>)) = listed s - {i}"
    using listed_complete(2) [OF assms] by (simp add: with_poller_def complete_finished_fields k)
  also have "\<dots> = with_poller s" using lists_distinct_held [OF assms(2)] assms(1) by (auto simp: listed_def with_poller_def)
  finally show ?thesis .
qed

lemma poller_thread:
  assumes "thread_moves (io_place s) s = Some t" "poller_ok s" "handles_ok s" "held_ok s" "stacks_ok s" "place_ok s (io_place s)"
  shows "poller_ok t"
  using assms(1)
proof (cases "(io_place s, s)" rule: thread_moves.cases)
  case 6
  with assms(1) show ?thesis by (intro poller_woken [OF assms(2)]) (auto simp: wake_poller_def with_poller_def)
next
  case (7 b u)
  then have p: "io_place s = Taking_cancels b" by blast
  with assms(1) have t: "t = take_cancels (s\<lparr>io_place := Stopping_waits b\<rparr>)" by simp
  show ?thesis by (rule poller_ok_same [OF assms(2)])
    (use with_poller_take [OF p assms(4,5)] in \<open>simp_all add: t place_take\<close>)
next
  case 8
  with assms show ?thesis using poller_stop by auto
next
  case (11 i e stopped k u)
  then have p: "io_place s = Completing i e stopped k" by blast
  with assms(1) have t: "t = complete_finished i e stopped (s\<lparr>io_place := k\<rparr>)" by simp
  show ?thesis by (rule poller_ok_same [OF assms(2)])
    (use with_poller_complete [OF p assms(4,5,6)] in \<open>simp_all add: t complete_finished_fields\<close>)
qed (use assms(1) in \<open>(intro poller_ok_same [OF assms(2)]; auto simp: io_function_defs with_poller_def split: if_splits)\<close>)+

lemma poller_step:
  assumes "io_move m s = Some t" "poller_ok s" "handles_ok s" "ready_ok s" "held_ok s" "stacks_ok s" "place_ok s (io_place s)"
  shows "poller_ok t"
proof (cases m)
  case Thread_moves
  with assms poller_thread show ?thesis by auto
next
  case (Thread_adds r)
  with assms poller_add_ok show ?thesis by (auto split: io_place.splits)
next
  case (Thread_handles e)
  with assms poller_handle show ?thesis by (auto split: io_place.splits list.splits)
next
  case (Thread_polls evs)
  obtain ready p where w: "poller_wait evs (io_poller s) = (ready, p)" by (cases "poller_wait evs (io_poller s)")
  with assms(1) Thread_polls have t: "io_place s = Polling" "events_possible evs (io_poller s)" "t = s\<lparr>io_poller := p, io_place := Handling_ready ready\<rparr>" by auto
  have "pl_watched (io_poller s) h \<noteq> None" if "Some h \<in> set evs" for h using t(2) that by (auto simp: events_possible_def list_all_iff)
  from poller_wait_fields [OF w this] show ?thesis
    by (intro poller_ok_same [OF assms(2)]) (auto simp: t with_poller_def)
next
  case (Start_wakes i)
  with assms(1) show ?thesis by (intro poller_woken [OF assms(2)]) (auto simp: wake_poller_def with_poller_def)
next
  case (Callback_wakes i)
  with assms(1) show ?thesis by (intro poller_woken [OF assms(2)]) (auto simp: wake_poller_def set_callback_def with_poller_def)
next
  case Destroy_wakes
  with assms(1) show ?thesis by (intro poller_woken [OF assms(2)]) (auto simp: wake_poller_def with_poller_def)
qed (use assms(1) in \<open>(intro poller_ok_same [OF assms(2)]; auto simp: io_function_defs with_poller_def)\<close>)+

end
