(* ===== verification/Io_Wakes.thy ===== *)
theory Io_Wakes
  imports Io_Steps
begin

text \<open>
  The rest of what every move of the event loop keeps: the waits reported ready, the wakes that are
  due, the end of the thread, what has completed, and the order; the invariant as a whole; and that
  every pass of the loop ends.
\<close>

section \<open>Waits that are ready\<close>

lemma ready_polled:
  assumes ok: "poller_ok s" and e: "events_possible evs (io_poller s)" and w: "poller_wait evs (io_poller s) = (ready, p)"
  shows "distinct ready \<and> set ready \<subseteq> set (io_registered s) \<union> set (io_cancelled s) \<or> io_place s \<noteq> Polling"
proof (cases "io_place s = Polling")
  case True
  let ?w = "pl_watched (io_poller s)"
  let ?hs = "map the (filter (\<lambda>e. e \<noteq> None) evs)"
  have some: "?w h \<noteq> None" if "Some h \<in> set evs" for h using e that by (auto simp: events_possible_def list_all_iff)
  from poller_wait_fields [OF w this] have r: "ready = map (\<lambda>h. the (?w h)) ?hs" by simp
  have wp: "with_poller s = set (io_registered s) \<union> set (io_cancelled s)" using True by (simp add: with_poller_def)
  have h: "the (?w h) \<in> with_poller s \<and> handle_of (io_kinds s (the (?w h))) = Some h" if "h \<in> set ?hs" for h
  proof -
    from that have "Some h \<in> set evs" by auto
    with some obtain i where "?w h = Some i" by blast
    with watched_iff [OF ok, of h i] show ?thesis by simp
  qed
  have "distinct (filter (\<lambda>e. e \<noteq> None) evs)" using e by (simp add: events_possible_def)
  then have "distinct ?hs" by (auto simp: distinct_map inj_on_def)
  moreover have "inj_on (\<lambda>h. the (?w h)) (set ?hs)"
  proof (rule inj_onI)
    fix a b assume "a \<in> set ?hs" "b \<in> set ?hs" "the (?w a) = the (?w b)"
    with h [of a] h [of b] have "Some a = Some b" by metis
    then show "a = b" by simp
  qed
  ultimately have "distinct ready" unfolding r by (simp only: distinct_map)
  moreover have "set ready \<subseteq> with_poller s" using h by (auto simp: r)
  ultimately show ?thesis by (simp add: wp)
qed simp

lemma ready_same: "ready_ok s \<Longrightarrow> place_ready (io_place t) = place_ready (io_place s) \<Longrightarrow> with_poller t = with_poller s \<Longrightarrow> ready_ok t"
  by (simp add: ready_ok_def)

lemma ready_none: "place_ready (io_place t) = [] \<Longrightarrow> ready_ok t"
  by (simp add: ready_ok_def)

lemma ready_thread:
  assumes "thread_moves (io_place s) s = Some t" "ready_ok s" "held_ok s" "stacks_ok s" "place_ok s (io_place s)"
  shows "ready_ok t"
  using assms(1)
proof (cases "(io_place s, s)" rule: thread_moves.cases)
  case (7 b u)
  then have p: "io_place s = Taking_cancels b" by blast
  with assms(1) show ?thesis by (intro ready_none) (auto simp: place_take)
next
  case (11 i e stopped k u)
  then have p: "io_place s = Completing i e stopped k" by blast
  with assms(1) have t: "t = complete_finished i e stopped (s\<lparr>io_place := k\<rparr>)" by simp
  show ?thesis by (rule ready_same [OF assms(2)])
    (use with_poller_complete [OF p assms(3-5)] p in \<open>simp_all add: t complete_finished_fields\<close>)
next
  case (10 i e stopped k u)
  with assms(1) show ?thesis by (intro ready_same [OF assms(2)]) (auto simp: disarm_def set_callback_def with_poller_def split: if_splits)
qed (use assms(1) in \<open>(intro ready_none; auto simp: io_function_defs split: if_splits list.splits option.splits)\<close>)+

lemma ready_step:
  assumes "io_move m s = Some t" "ready_ok s" "poller_ok s" "handles_ok s" "held_ok s" "stacks_ok s" "place_ok s (io_place s)"
  shows "ready_ok t"
proof (cases m)
  case Thread_moves
  with assms ready_thread show ?thesis by auto
next
  case (Thread_adds r)
  with assms(1) show ?thesis
    by (intro ready_none) (auto simp: io_function_defs split: io_place.splits option.splits sum.splits)
next
  case (Thread_handles e)
  with assms(1) obtain i "is" where p: "io_place s = Handling_ready (i # is)" "t = handle_next e i is s"
    by (auto split: io_place.splits list.splits)
  from assms(2) p have r: "distinct (i # is)" "set (i # is) \<subseteq> with_poller s" by (auto simp: ready_ok_def)
  show ?thesis
  proof (cases "handle_ready (io_kinds s i) \<or> e \<noteq> No_error")
    case True
    then have "place_ready (io_place t) = is" "with_poller t = with_poller s - {i}"
      using p by (auto simp: handle_next_def with_poller_def unregister_def finish_wait_def Let_def split: option.splits)
    with r show ?thesis by (auto simp: ready_ok_def)
  next
    case False
    then have "place_ready (io_place t) = is" "with_poller t = with_poller s"
      using p by (auto simp: handle_next_def with_poller_def)
    with r show ?thesis by (auto simp: ready_ok_def)
  qed
next
  case (Thread_polls evs)
  obtain ready p where w: "poller_wait evs (io_poller s) = (ready, p)" by (cases "poller_wait evs (io_poller s)")
  with assms(1) Thread_polls have t: "io_place s = Polling" "events_possible evs (io_poller s)" "t = s\<lparr>io_poller := p, io_place := Handling_ready ready\<rparr>" by auto
  from ready_polled [OF assms(3) t(2) w] t(1) show ?thesis by (auto simp: ready_ok_def with_poller_def t(3))
qed (use assms(1) in \<open>(intro ready_same [OF assms(2)]; auto simp: io_function_defs with_poller_def)\<close>)+

section \<open>Wakes that are due\<close>

lemma woken_wake: "poller_ok s \<Longrightarrow> io_poller t = poller_wake (io_poller s) \<Longrightarrow> woken t"
  using wake_counter [of "io_poller s"] by (simp add: woken_def poller_ok_def)

lemma wake_woken: "woken t \<Longrightarrow> wake_ok t"
  by (simp add: wake_ok_def)

lemma wake_before: "before_tasks (io_place t) \<Longrightarrow> before_cancels (io_place t) \<Longrightarrow> before_flag (io_place t) \<Longrightarrow> wake_ok t"
  by (simp add: wake_ok_def)

text \<open>What a move of the thread has to keep.\<close>

lemma wake_moved:
  assumes "wake_ok s" "woken t = woken s" "io_submitting t = io_submitting s" "io_stopping t = io_stopping s"
    "io_destroying t = io_destroying s" "\<And>i. io_callbacks s i = Waking \<Longrightarrow> io_callbacks t i = Waking"
    "io_tasks t = [] \<or> io_tasks t = io_tasks s \<and> (before_tasks (io_place s) \<longrightarrow> before_tasks (io_place t))"
    "io_cancels t = [] \<or> before_cancels (io_place t) \<or> io_cancels t = io_cancels s \<and> \<not> before_cancels (io_place s)"
    "io_stopping s \<Longrightarrow> before_flag (io_place s) \<or> place_flag (io_place s) \<Longrightarrow> before_flag (io_place t) \<or> place_flag (io_place t)"
  shows "wake_ok t"
  unfolding wake_ok_def
proof (intro conjI impI)
  assume "io_tasks t \<noteq> []"
  with assms(1,2,3,7) show "before_tasks (io_place t) \<or> woken t \<or> io_submitting t \<noteq> []" by (auto simp: wake_ok_def)
next
  assume "io_cancels t \<noteq> []"
  with assms(8) have "before_cancels (io_place t) \<or> io_cancels s \<noteq> [] \<and> \<not> before_cancels (io_place s)" by auto
  with assms(1) have "before_cancels (io_place t) \<or> woken s \<or> (\<exists>i. io_callbacks s i = Waking)" by (auto simp: wake_ok_def)
  with assms(2,6) show "before_cancels (io_place t) \<or> woken t \<or> (\<exists>i. io_callbacks t i = Waking)" by metis
next
  assume "io_stopping t"
  with assms(1,2,4,5,9) show "before_flag (io_place t) \<or> place_flag (io_place t) \<or> woken t \<or> io_destroying t = Stop_stored"
    by (auto simp: wake_ok_def)
qed

lemma wake_thread:
  assumes "thread_moves (io_place s) s = Some t" "wake_ok s" "poller_ok s" "place_ok s (io_place s)" "destroy_ok s"
    "\<And>i b ts. io_place s = Arming_wait i b ts \<Longrightarrow> io_callbacks s i = Not_armed"
  shows "wake_ok t"
  using assms(1)
proof (cases "(io_place s, s)" rule: thread_moves.cases)
  case 6
  with assms(1,3) show ?thesis by (intro wake_woken woken_wake [OF assms(3)]) (auto simp: wake_poller_def)
next
  case (5 i b ts u)
  then have p: "io_place s = Arming_wait i b ts" by blast
  have c: "io_callbacks s i = Not_armed" using assms(6) p by simp
  with assms(1) p show ?thesis by (intro wake_moved [OF assms(2)]) (auto simp: arm_def woken_def set_callback_def split: if_splits)
next
  case (10 i e stopped k u)
  with assms(1) show ?thesis
    by (intro wake_moved [OF assms(2)]) (auto simp: disarm_def set_callback_def woken_def split: if_splits)
next
  case (11 i e stopped k u)
  then have p: "io_place s = Completing i e stopped k" by blast
  with assms(1) have t: "t = complete_finished i e stopped (s\<lparr>io_place := k\<rparr>)" by simp
  from p show ?thesis
    by (intro wake_moved [OF assms(2)]) (auto simp: t woken_def complete_finished_fields, simp add: complete_finished_def complete_with_def take_cancels_def Let_def split: prod.splits)
next
  case (8 b u)
  then have p: "io_place s = Stopping_waits b" by blast
  with assms(1) show ?thesis
    by (intro wake_moved [OF assms(2)]) (auto simp: io_function_defs woken_def poller_remove_def split: list.splits option.splits)
next
  case (7 b u)
  with assms(1) show ?thesis
    by (intro wake_moved [OF assms(2)]) (auto simp: woken_def take_cancels_def split: prod.splits)
next
  case (1 u)
  with assms(1) show ?thesis by (intro wake_moved [OF assms(2)]) (auto simp: woken_def)
next
  case (9 u)
  with assms(1) show ?thesis by (intro wake_before) auto
qed (use assms(1) in \<open>(intro wake_moved [OF assms(2)]; auto simp: io_function_defs woken_def split: if_splits)\<close>)+

lemma wake_step:
  assumes "io_move m s = Some t" "wake_ok s" "poller_ok s" "place_ok s (io_place s)" "destroy_ok s"
    "\<And>i b ts. io_place s = Arming_wait i b ts \<Longrightarrow> io_callbacks s i = Not_armed"
  shows "wake_ok t"
proof (cases m)
  case Thread_moves
  with assms wake_thread show ?thesis by auto
next
  case (Start_wakes i)
  with assms(1) show ?thesis by (intro wake_woken woken_wake [OF assms(3)]) (auto simp: wake_poller_def)
next
  case (Callback_wakes i)
  with assms(1) show ?thesis by (intro wake_woken woken_wake [OF assms(3)]) (auto simp: wake_poller_def set_callback_def)
next
  case Destroy_wakes
  with assms(1) show ?thesis by (intro wake_woken woken_wake [OF assms(3)]) (auto simp: wake_poller_def)
next
  case (Thread_polls evs)
  with assms(1) show ?thesis by (auto simp: wake_ok_def split: prod.splits)
next
  case (Thread_adds r)
  with assms(1,2) show ?thesis
    by (intro wake_moved [OF assms(2)])
      (auto simp: io_function_defs poller_add_def woken_def split: io_place.splits option.splits sum.splits if_splits)
next
  case (Thread_handles e)
  with assms(1) show ?thesis
    by (intro wake_before; cases "handle_ready (io_kinds s (hd (place_ready (io_place s))))")
      (auto simp: handle_next_def finish_wait_def Let_def split: io_place.splits list.splits)
next
  case (Callback_runs i)
  with assms(1) show ?thesis by (intro wake_moved [OF assms(2)]) (auto simp: woken_def set_callback_def)
next
  case (Callback_pushes i)
  with assms(1) have t: "t = cancel_wait i s" and c: "io_callbacks s i = Called" by auto
  show ?thesis
  proof (cases "io_cancels s = []")
    case True
    then have "io_callbacks t i = Waking" by (simp add: t cancel_wait_def set_callback_def)
    moreover have "io_tasks t = io_tasks s" "io_place t = io_place s" "io_poller t = io_poller s" "io_submitting t = io_submitting s"
      "io_stopping t = io_stopping s" "io_destroying t = io_destroying s" by (simp_all add: t cancel_wait_def set_callback_def)
    ultimately show ?thesis using assms(2) by (auto simp: wake_ok_def woken_def)
  next
    case False
    have w: "\<exists>j. io_callbacks t j = Waking" if "io_callbacks s j = Waking" for j
    proof -
      from that c have "j \<noteq> i" by auto
      with that have "io_callbacks t j = Waking" by (simp add: t cancel_wait_def set_callback_def)
      then show ?thesis ..
    qed
    have "io_tasks t = io_tasks s" "io_place t = io_place s" "io_poller t = io_poller s" "io_submitting t = io_submitting s"
      "io_stopping t = io_stopping s" "io_destroying t = io_destroying s" by (simp_all add: t cancel_wait_def set_callback_def)
    with assms(2) False w show ?thesis by (auto simp: wake_ok_def woken_def)
  qed
next
  case (Start_op i)
  with assms(1) have t: "t = submit i (s\<lparr>io_started := io_started s @ [i]\<rparr>)" by auto
  have "woken t = woken s" "io_place t = io_place s" "io_cancels t = io_cancels s" "io_callbacks t = io_callbacks s"
    "io_stopping t = io_stopping s" "io_destroying t = io_destroying s"
    "io_submitting t \<noteq> [] \<or> io_tasks s \<noteq> [] \<and> io_submitting t = io_submitting s"
    by (simp_all add: t submit_def woken_def)
  with assms(2) show ?thesis unfolding wake_ok_def by metis
next
  case (Request_stop i)
  with assms(1) show ?thesis by (intro wake_moved [OF assms(2)]) (auto simp: woken_def)
next
  case Destroy_stores
  with assms(1) have t: "t = s\<lparr>io_stopping := True, io_destroying := Stop_stored\<rparr>" by auto
  have "woken t = woken s" "io_place t = io_place s" "io_cancels t = io_cancels s" "io_callbacks t = io_callbacks s"
    "io_tasks t = io_tasks s" "io_submitting t = io_submitting s" "io_destroying t = Stop_stored"
    by (simp_all add: t woken_def)
  with assms(2) show ?thesis unfolding wake_ok_def by metis
qed


section \<open>The end, what has completed, and the order\<close>

lemma flag_thread:
  assumes "thread_moves (io_place s) s = Some t" "place_flag (io_place s) \<longrightarrow> io_stopping s"
    "io_place s = Polling \<or> io_place s = Thread_ended \<longrightarrow> io_cancelled s = []" "place_ok s (io_place s)"
  shows "io_stopping t = io_stopping s \<and> io_destroying t = io_destroying s \<and> (place_flag (io_place t) \<longrightarrow> io_stopping t) \<and>
    (io_place t = Polling \<or> io_place t = Thread_ended \<longrightarrow> io_cancelled t = [])"
  using assms(1)
proof (cases "(io_place s, s)" rule: thread_moves.cases)
  case (7 b u)
  then have "io_place s = Taking_cancels b" by blast
  with assms(1,2) show ?thesis by (auto simp: take_cancels_def split: prod.splits)
next
  case (8 b u)
  then have "io_place s = Stopping_waits b" by blast
  with assms(1,2) show ?thesis by (auto simp: io_function_defs split: list.splits option.splits)
next
  case (11 i e stopped k u)
  then have p: "io_place s = Completing i e stopped k" by blast
  with assms(1) have t: "t = complete_finished i e stopped (s\<lparr>io_place := k\<rparr>)" by simp
  from p assms(2,4) show ?thesis by (cases k) (auto simp: t complete_finished_fields)
qed (use assms(1,2) in \<open>auto simp: io_function_defs split: if_splits\<close>)

lemma stopping_step: "io_move m s = Some t \<Longrightarrow> m \<noteq> Destroy_stores \<Longrightarrow> io_stopping t = io_stopping s"
proof (cases m)
  case Thread_moves
  then show "io_move m s = Some t \<Longrightarrow> ?thesis"
    by (cases "(io_place s, s)" rule: thread_moves.cases)
      (auto simp: io_function_defs complete_finished_fields take_cancels_def split: if_splits list.splits option.splits prod.splits)
qed (auto simp: io_function_defs split: io_place.splits list.splits option.splits sum.splits prod.splits if_splits)

lemma destroy_step:
  assumes "io_move m s = Some t" "destroy_ok s" "held_ok s" "held_ok t" "place_ok s (io_place s)"
  shows "destroy_ok t"
proof -
  have old: "io_stopping s \<longleftrightarrow> io_destroying s \<noteq> Not_destroyed" "place_flag (io_place s) \<longrightarrow> io_stopping s"
    "io_stopping s \<longrightarrow> held s = []" "io_place s = Polling \<or> io_place s = Thread_ended \<longrightarrow> io_cancelled s = []"
    using assms(2) unfolding destroy_ok_def by blast+
  have flags: "(io_stopping t \<longleftrightarrow> io_destroying t \<noteq> Not_destroyed) \<and> (place_flag (io_place t) \<longrightarrow> io_stopping t) \<and>
    (io_place t = Polling \<or> io_place t = Thread_ended \<longrightarrow> io_cancelled t = [])"
  proof (cases m)
    case Thread_moves
    with assms(1) have "thread_moves (io_place s) s = Some t" by simp
    from flag_thread [OF this old(2,4) assms(5)] old(1) show ?thesis by metis
  next
    case (Thread_adds r)
    with assms(1) old show ?thesis by (auto simp: io_function_defs split: io_place.splits option.splits sum.splits)
  next
    case (Thread_handles e)
    with assms(1) old show ?thesis by (auto simp: io_function_defs split: io_place.splits list.splits option.splits if_splits)
  next
    case (Thread_polls evs)
    with assms(1) old show ?thesis by (auto split: prod.splits)
  qed (use assms(1) old in \<open>auto simp: io_function_defs\<close>)
  have "held t = []" if st: "io_stopping t"
  proof (cases "m = Destroy_stores")
    case True
    with assms(1) have "i \<notin> set (held t)" for i using held_set [OF assms(4), of i] by (auto simp: list_all_iff completed_def)
    then show ?thesis by (metis last_in_set)
  next
    case False
    with stopping_step [OF assms(1)] st have ss: "io_stopping s" by simp
    then have "m \<noteq> Start_op i" for i using assms(1) old(1) by auto
    with held_shrinks [OF assms(1,3,4)] old(3) ss show ?thesis by simp
  qed
  with flags show ?thesis unfolding destroy_ok_def by blast
qed

text \<open>Completions stay proper: stops and readiness only grow.\<close>

lemma proper_mono:
  "proper_completion s i c \<Longrightarrow> io_kinds t = io_kinds s \<Longrightarrow> (io_stop s i \<Longrightarrow> io_stop t i) \<Longrightarrow> io_ready s i \<le> io_ready t i \<Longrightarrow> proper_completion t i c"
  by (cases c) (auto simp: proper_completion_def)

lemma done_same:
  assumes "done_ok s" "io_kinds t = io_kinds s" "io_done t = io_done s" "io_watch_failed t = io_watch_failed s"
    "\<And>i. io_stop s i \<Longrightarrow> io_stop t i" "\<And>i. io_ready s i \<le> io_ready t i"
  shows "done_ok t"
proof -
  have "proper_completion t i c" if "(i, c) \<in> set (io_done s)" for i c
  proof -
    from assms(1) that have "proper_completion s i c" by (auto simp: done_ok_def)
    from proper_mono [OF this assms(2,5,6)] show ?thesis .
  qed
  moreover have "failed_watch t = failed_watch s" by (simp add: failed_watch_def assms(2) fun_eq_iff)
  moreover have "io_watch_failed s \<longleftrightarrow> (\<exists>ic \<in> set (io_done s). failed_watch s ic)" using assms(1) by (simp add: done_ok_def)
  ultimately show ?thesis unfolding done_ok_def assms(3,4) by auto
qed

lemma done_added:
  assumes "done_ok s" "proper_completion s i c" "io_kinds t = io_kinds s" "io_stop t = io_stop s" "io_ready t = io_ready s"
    "io_done t = io_done s" "io_watch_failed t = io_watch_failed s"
  shows "done_ok (complete_with i c t)"
proof -
  have "proper_completion (complete_with i c t) j d \<longleftrightarrow> proper_completion s j d" for j d
    by (cases d) (simp_all add: proper_completion_def complete_with_def assms(3-5))
  moreover have "failed_watch (complete_with i c t) = failed_watch s" by (simp add: failed_watch_def assms(3) complete_with_def fun_eq_iff)
  moreover have "io_done (complete_with i c t) = io_done s @ [(i, c)]" by (simp add: complete_with_def assms(6))
  moreover have "io_watch_failed (complete_with i c t) \<longleftrightarrow> io_watch_failed s \<or> failed_watch s (i, c)"
    by (auto simp: complete_with_def failed_watch_def assms(3,7))
  ultimately show ?thesis using assms(1,2) by (auto simp: done_ok_def)
qed

lemma finished_properly:
  assumes "finishing_ok s i e stopped k" "handle_of (io_kinds s i) \<noteq> None" "stopped \<Longrightarrow> io_stop s i"
  shows "proper_completion s i (complete_op (io_kinds s i) e stopped)"
  using assms by (cases k; cases "io_kinds s i") (auto simp: proper_completion_def)

lemma done_thread:
  assumes "thread_moves (io_place s) s = Some t" "done_ok s" "held_ok s" "stacks_ok s" "place_ok s (io_place s)" "callbacks_ok s" "handles_ok s"
  shows "done_ok t"
  using assms(1)
proof (cases "(io_place s, s)" rule: thread_moves.cases)
  case (4 b i ts u)
  then have "io_place s = Running_tasks b (i # ts)" by blast
  with assms(1) have t: "t = execute_op i b ts s" by simp
  show ?thesis
  proof (cases "io_stop s i \<or> io_kinds s i = Schedule_op")
    case True
    then show ?thesis by (auto simp: t execute_op_def Let_def proper_completion_def intro!: done_added [OF assms(2)])
  next
    case False
    then show ?thesis by (intro done_same [OF assms(2)]) (auto simp: t execute_op_def)
  qed
next
  case (7 b u)
  with assms(1) show ?thesis by (intro done_same [OF assms(2)]) (auto simp: take_cancels_def split: prod.splits)
next
  case (8 b u)
  with assms(1) show ?thesis by (intro done_same [OF assms(2)]) (auto simp: io_function_defs split: list.splits option.splits)
next
  case (11 i e stopped k u)
  then have p: "io_place s = Completing i e stopped k" by blast
  with assms(1) have t: "t = complete_finished i e stopped (s\<lparr>io_place := k\<rparr>)" by simp
  have f: "finishing_ok s i e stopped k" using assms(5) p by simp
  have "i \<in> listed s" using f p by (cases k) (auto simp: listed_def)
  with assms(7) have h: "handle_of (io_kinds s i) \<noteq> None" by (simp add: handles_ok_def)
  have "io_stop s i" if stopped using f that by (cases k) (auto intro: cancels_stopped [OF assms(6,4)])
  from finished_properly [OF f h this] show ?thesis
    unfolding t complete_finished_eq [OF assms(3,4) p] by (intro done_added [OF assms(2)]) simp_all
qed (use assms(1) in \<open>(intro done_same [OF assms(2)]; auto simp: io_function_defs split: if_splits)\<close>)+

lemma done_ok_step:
  assumes "io_move m s = Some t" "done_ok s" "held_ok s" "stacks_ok s" "place_ok s (io_place s)" "callbacks_ok s" "handles_ok s"
  shows "done_ok t"
proof (cases m)
  case Thread_moves
  with assms done_thread show ?thesis by auto
next
  case (Thread_adds r)
  with assms(1) show ?thesis
    by (intro done_same [OF assms(2)]) (auto simp: io_function_defs split: io_place.splits option.splits sum.splits)
next
  case (Thread_handles e)
  with assms(1) show ?thesis
    by (intro done_same [OF assms(2)]) (auto simp: io_function_defs split: io_place.splits list.splits option.splits if_splits)
next
  case (Thread_polls evs)
  with assms(1) show ?thesis by (intro done_same [OF assms(2)]) (auto split: prod.splits)
qed (use assms(1) in \<open>(intro done_same [OF assms(2)]; auto simp: io_function_defs)\<close>)+

lemma order_thread:
  assumes "thread_moves (io_place s) s = Some t" "order_ok s"
  shows "order_ok t"
  using assms
proof (cases "(io_place s, s)" rule: thread_moves.cases)
  case (11 i e stopped k u)
  then have p: "io_place s = Completing i e stopped k" by blast
  with assms show ?thesis by (auto simp: order_ok_def complete_finished_fields)
qed (auto simp: io_function_defs order_ok_def reverse_onto_rev take_cancels_def split: if_splits list.splits option.splits prod.splits)

lemma order_step:
  assumes "io_move m s = Some t" "order_ok s"
  shows "order_ok t"
proof (cases m)
  case Thread_moves
  with assms order_thread show ?thesis by auto
next
  case (Thread_adds r)
  with assms show ?thesis by (auto simp: io_function_defs order_ok_def split: io_place.splits option.splits sum.splits)
next
  case (Thread_handles e)
  with assms show ?thesis by (auto simp: io_function_defs order_ok_def split: io_place.splits list.splits option.splits if_splits)
next
  case (Thread_polls evs)
  with assms show ?thesis by (auto simp: order_ok_def split: prod.splits)
qed (use assms in \<open>auto simp: io_function_defs order_ok_def\<close>)

section \<open>The invariant\<close>

lemma io_start_ok: "io_ok (io_start kinds stop)"
  by (simp add: io_ok_def io_start_def held_ok_def held_def stacks_ok_def callbacks_ok_def callback_ok_def waits_def handles_ok_def listed_def
      poller_ok_def with_poller_def poller_new_def ready_ok_def wake_ok_def destroy_ok_def done_ok_def order_ok_def)

lemma arming_unarmed:
  assumes "callbacks_ok s" "held_ok s" "stacks_ok s" "io_place s = Arming_wait i b ts"
  shows "io_callbacks s i = Not_armed"
proof -
  have l: "i \<notin> set (io_registered s) \<union> set (io_cancelled s)" using lists_distinct_held [OF assms(2)] assms(4) by auto
  with assms(4) have w: "i \<notin> waits s" by (simp add: waits_def)
  have "i \<in> set (held s)" using assms(4) by (simp add: held_def)
  with held_set [OF assms(2)] have "\<not> completed s i" by simp
  with w callback_okD [OF assms(1), of i] assms(4) show ?thesis by (cases "io_callbacks s i") (auto simp: callback_ok_def)
qed

lemma io_step_ok:
  assumes "io_ok s" "io_step s t"
  shows "io_ok t"
proof -
  from assms(2) obtain m where m: "io_move m s = Some t" by (auto simp: io_step_def)
  from assms(1) have ok: "held_ok s" "place_ok s (io_place s)" "stacks_ok s" "callbacks_ok s" "handles_ok s" "poller_ok s" "ready_ok s"
    "wake_ok s" "destroy_ok s" "done_ok s" "order_ok s" by (simp_all add: io_ok_def)
  have h: "held_ok t" by (rule held_step [OF m ok(1,3,2)])
  have w: "wake_ok t" by (rule wake_step [OF m ok(8,6,2,9)]) (rule arming_unarmed [OF ok(4,1,3)])
  show ?thesis
    unfolding io_ok_def
    using h place_step [OF m ok(2,7)] stacks_step [OF m ok(3,1,2,4,7)] callbacks_step [OF m ok(4,3,1,2,7)]
      handles_step [OF m ok(5,1) h ok(3,2,7)] poller_step [OF m ok(6,5,7,1,3,2)] ready_step [OF m ok(7,6,5,1,3,2)]
      w destroy_step [OF m ok(9,1) h ok(2)]
      done_ok_step [OF m ok(10,1,3,2,4,5)] order_step [OF m ok(11)] by blast
qed

interpretation io_machine: transition_system io_init io_step io_ok
  by unfold_locales (auto simp: io_init_def intro: io_start_ok io_step_ok)

end
