(* ===== verification/Io_Properties.thy ===== *)
theory Io_Properties
  imports Io_Wakes
begin

text \<open>
  What the event loop guarantees: an operation completes once and is not touched afterwards; no wake
  is lost; a completion tells what happened; operations run in the order they were started; a pass
  ends, and so does the thread; and the links of the lists are the lists.
\<close>

section \<open>Runs\<close>

fun io_runs :: "loop_move list \<Rightarrow> io_state \<Rightarrow> io_state option" where
  "io_runs [] s = Some s"
| "io_runs (m # ms) s = (case io_move m s of None \<Rightarrow> None | Some t \<Rightarrow> io_runs ms t)"

lemma io_runs_steps: "io_runs ms s = Some t \<Longrightarrow> io_step\<^sup>*\<^sup>* s t"
proof (induction ms arbitrary: s)
  case (Cons m ms)
  then obtain u where "io_move m s = Some u" "io_runs ms u = Some t" by (auto split: option.splits)
  then have "io_step s u" "io_step\<^sup>*\<^sup>* u t" by (blast intro: Cons.IH io_step_def [THEN iffD2])+
  then show ?case by (rule converse_rtranclp_into_rtranclp)
qed simp

text \<open>A wait on descriptor 3 that is registered, then stopped; and a piece of work.\<close>

definition demo_kinds :: "nat \<Rightarrow> io_kind" where
  "demo_kinds i = (if i = 0 then Wait_op 3 else Schedule_op)"

definition demo_io :: io_state where
  "demo_io = io_start demo_kinds (\<lambda>i. False)"

definition demo_registers :: "loop_move list" where
  "demo_registers = [Start_op 0, Start_wakes 0, Thread_moves, Thread_moves, Thread_moves, Thread_moves, Thread_adds (Some 0),
     Thread_moves, Thread_moves, Thread_moves, Thread_polls [None], Thread_moves, Thread_moves, Thread_moves, Thread_moves,
     Thread_moves, Thread_moves]"

definition demo_stops :: "loop_move list" where
  "demo_stops = [Request_stop 0, Callback_runs 0, Callback_pushes 0, Callback_wakes 0, Start_op 1, Thread_polls [None], Thread_moves,
     Thread_moves, Thread_moves, Thread_moves, Thread_moves, Thread_moves, Thread_moves, Thread_moves, Thread_moves]"

definition demo_ending :: "loop_move list" where
  "demo_ending = [Destroy_stores, Destroy_wakes, Thread_moves, Thread_polls [None], Thread_moves, Thread_moves, Thread_moves, Thread_moves,
     Thread_moves, Thread_moves]"

lemmas demo_io_eval = demo_io_def io_start_def demo_kinds_def demo_registers_def demo_stops_def demo_ending_def only_if_def poller_new_def
  handle_free_def thread_function_defs poller_add_def poller_remove_def poller_wake_def events_possible_def max_ready_def
  completed_def

definition demo_rest :: io_state where "demo_rest = the (io_runs demo_registers demo_io)"
definition demo_stopped :: io_state where "demo_stopped = the (io_runs demo_stops demo_rest)"
definition demo_ended :: io_state where "demo_ended = the (io_runs demo_ending demo_stopped)"

lemma demo_rests: "io_runs demo_registers demo_io = Some demo_rest"
  "io_place demo_rest = Polling" "pl_counter (io_poller demo_rest) = 0" "io_submitting demo_rest = []" "io_destroying demo_rest = Not_destroyed"
  "io_started demo_rest = [0]" "io_done demo_rest = []" "io_kinds demo_rest 0 = Wait_op 3" "io_callbacks demo_rest = (\<lambda>i. Not_armed)(0 := Armed)"
  by (simp_all add: demo_rest_def demo_io_eval)

lemma demo_io_stops: "io_runs demo_stops demo_rest = Some demo_stopped"
  "io_done demo_stopped = [(1, Set_value), (0, Set_stopped)]" "io_stop demo_stopped 0" "io_started demo_stopped = [0, 1]"
  "io_place demo_stopped = Stopping_waits False"
  by (simp_all add: demo_stopped_def demo_rest_def demo_io_eval)

lemma demo_io_ends: "io_runs demo_ending demo_stopped = Some demo_ended" "io_place demo_ended = Thread_ended"
  "io_submitting demo_ended = [1]"
  by (simp_all add: demo_ended_def demo_stopped_def demo_rest_def demo_io_eval)

lemma demo_io_init: "io_init demo_io"
  by (auto simp: io_init_def demo_io_def)

lemma demo_io_reached: "io_step\<^sup>*\<^sup>* demo_io demo_rest" "io_step\<^sup>*\<^sup>* demo_io demo_stopped" "io_step\<^sup>*\<^sup>* demo_io demo_ended"
proof -
  show r: "io_step\<^sup>*\<^sup>* demo_io demo_rest" using demo_rests(1) by (rule io_runs_steps)
  have "io_step\<^sup>*\<^sup>* demo_rest demo_stopped" using demo_io_stops(1) by (rule io_runs_steps)
  with r show st: "io_step\<^sup>*\<^sup>* demo_io demo_stopped" by simp
  have "io_step\<^sup>*\<^sup>* demo_stopped demo_ended" using demo_io_ends(1) by (rule io_runs_steps)
  with st show "io_step\<^sup>*\<^sup>* demo_io demo_ended" by simp
qed

section \<open>What is referred to\<close>

fun place_refers :: "io_place \<Rightarrow> nat set" where
  "place_refers (Disarming i e stopped k) = insert i (place_refers k)"
| "place_refers (Completing i e stopped k) = insert i (place_refers k)"
| "place_refers p = set (place_tasks p) \<union> set (place_current p) \<union> set (place_ready p)"

text \<open>All whose memory the context or a running callback may still touch.\<close>

definition refers :: "io_state \<Rightarrow> nat set" where
  "refers s = set (io_tasks s) \<union> set (io_cancels s) \<union> set (io_registered s) \<union> set (io_cancelled s) \<union> place_refers (io_place s) \<union>
     ran (pl_watched (io_poller s)) \<union> {i. io_callbacks s i = Called \<or> io_callbacks s i = Waking}"

lemma place_refers_held:
  assumes "place_ok s (io_place s)" "ready_ok s"
  shows "place_refers (io_place s) \<subseteq> set (held s)"
proof -
  have r: "set (place_ready (io_place s)) \<subseteq> set (held s)" using assms(2) with_poller_held by (auto simp: ready_ok_def)
  show ?thesis
  proof (cases "io_place s")
    case (Disarming i e stopped k)
    with assms(1) r show ?thesis by (cases k) (auto simp: held_def)
  next
    case (Completing i e stopped k)
    with assms(1) r show ?thesis by (cases k) (auto simp: held_def)
  qed (use r in \<open>auto simp: held_def\<close>)
qed

lemma refers_held:
  assumes "io_ok s"
  shows "refers s \<subseteq> set (held s)"
proof -
  from assms have ok: "place_ok s (io_place s)" "ready_ok s" "stacks_ok s" "callbacks_ok s" "poller_ok s" by (simp_all add: io_ok_def)
  have w: "waits s \<subseteq> set (held s)" using waits_held by auto
  have "set (io_cancels s) \<subseteq> set (held s)" using ok(3) w by (auto simp: stacks_ok_def)
  moreover have "i \<in> set (held s)" if "io_callbacks s i = Called \<or> io_callbacks s i = Waking" for i
    using callback_okD [OF ok(4), of i] that w by (auto simp: callback_ok_def)
  moreover have "ran (pl_watched (io_poller s)) \<subseteq> set (held s)"
    using watched_iff [OF ok(5)] with_poller_held by (auto simp: ran_def)
  moreover note place_refers_held [OF ok(1,2)]
  ultimately show ?thesis unfolding refers_def by (auto simp: held_def)
qed

text \<open>
  C26: an operation that was started completes at most once, and none that has completed - and may
  have been freed by its completion - is in the queue, on the stack of cancellations, in a list,
  with the poller, at hand in the context's thread, or in a stop callback that still runs; and all
  of these were started.
\<close>

theorem nothing_completed_is_touched:
  assumes "io_init s" "io_step\<^sup>*\<^sup>* s t"
  shows "distinct (map fst (io_done t)) \<and> set (map fst (io_done t)) \<subseteq> set (io_started t) \<and>
    refers t \<subseteq> set (io_started t) - set (map fst (io_done t))"
proof -
  from io_machine.reachable_inv [OF assms] have ok: "io_ok t" .
  then have h: "held_ok t" by (simp add: io_ok_def)
  have "set (held t @ map fst (io_done t)) = set (io_started t)" using h unfolding held_ok_def by (metis mset_append mset_eq_setD)
  moreover have "distinct (held t @ map fst (io_done t))" by (rule held_distinct [OF h])
  ultimately show ?thesis using refers_held [OF ok] by auto
qed

theorem nothing_completed_is_touched_witness:
  "distinct (map fst (io_done demo_stopped)) \<and> refers demo_stopped \<subseteq> {}"
  using nothing_completed_is_touched [OF demo_io_init demo_io_reached(2)] demo_io_stops(2,4) by simp

section \<open>No wake is lost\<close>

text \<open>
  C27: whenever the context's thread waits in the poller with nothing counted that would end the
  wait, and no other thread is about to wake it, there is nothing for it to do: the queue and the
  stack of cancellations are empty, no stop of the thread was asked for, all that was started has been
  executed, and each operation that has not completed is a wait whose descriptor the poller watches
  and whose stop callback has not pushed it yet.
\<close>

theorem no_lost_wake:
  assumes "io_init s" "io_step\<^sup>*\<^sup>* s t"
    and rest: "io_place t = Polling" "pl_counter (io_poller t) = 0"
    and wakers: "io_submitting t = []" "Waking \<notin> range (io_callbacks t)" "io_destroying t \<noteq> Stop_stored"
  shows "io_tasks t = [] \<and> io_cancels t = [] \<and> \<not> io_stopping t \<and> io_executed t = io_started t \<and>
    (\<forall>i \<in> set (io_started t) - set (map fst (io_done t)).
       (\<exists>h. handle_of (io_kinds t i) = Some h \<and> pl_watched (io_poller t) h = Some i) \<and> io_callbacks t i \<in> {Armed, Called})"
proof -
  from io_machine.reachable_inv [OF assms(1,2)] have ok: "held_ok t" "callbacks_ok t" "handles_ok t" "poller_ok t" "wake_ok t" "destroy_ok t" "order_ok t"
    by (simp_all add: io_ok_def)
  have w: "\<not> (\<exists>i. io_callbacks t i = Waking)" using wakers(2) by (metis rangeI)
  have e: "io_tasks t = []" "io_cancels t = []" "\<not> io_stopping t" "io_cancelled t = []" "io_executed t = io_started t"
    using ok(5,6,7) w rest wakers(1,3) by (auto simp: wake_ok_def woken_def destroy_ok_def order_ok_def)
  have "(\<exists>h. handle_of (io_kinds t i) = Some h \<and> pl_watched (io_poller t) h = Some i) \<and> io_callbacks t i \<in> {Armed, Called}"
    if i: "i \<in> set (io_started t) - set (map fst (io_done t))" for i
  proof -
    from i held_set [OF ok(1), of i] have "i \<in> set (io_registered t)"
      using e(1,4) rest(1) by (simp add: completed_def in_held)
    then have l: "i \<in> listed t" "i \<in> with_poller t" "i \<in> waits t" using rest(1) by (auto simp: listed_def with_poller_def waits_def)
    from handle_listed [OF ok(3) l(1)] obtain h where h: "handle_of (io_kinds t i) = Some h" by blast
    with watched_iff [OF ok(4), of h i] l(2) have "pl_watched (io_poller t) h = Some i" by simp
    moreover have "io_callbacks t i \<in> {Armed, Called}"
      using callback_okD [OF ok(2), of i] l(3) w i e(2,4) rest(1)
      by (cases "io_callbacks t i") (auto simp: callback_ok_def completed_def)
    ultimately show ?thesis using h by blast
  qed
  with e show ?thesis by blast
qed

theorem no_lost_wake_witness: "io_executed demo_rest = io_started demo_rest \<and> pl_watched (io_poller demo_rest) 3 = Some 0"
  using no_lost_wake [OF demo_io_init demo_io_reached(1) demo_rests(2,3,4)] demo_rests(5-9) by auto

section \<open>What a completion tells\<close>

text \<open>
  C28: an operation completes stopped only if a stop was requested of it, with a value only if it is
  scheduled work or a wait that the poller reported, and with an error only if it waits on a
  descriptor, and then there is one; a watch never completes with a value.  And a stop is requested on
  the token of failed watches exactly if a watch that was spawned completed with an error.
\<close>

theorem completions_tell:
  assumes "io_init s" "io_step\<^sup>*\<^sup>* s t" and c: "(i, c) \<in> set (io_done t)"
  shows "(c = Set_stopped \<longrightarrow> io_stop t i) \<and>
    (c = Set_value \<longrightarrow> io_kinds t i = Schedule_op \<or> (\<exists>h. io_kinds t i = Wait_op h) \<and> 0 < io_ready t i) \<and>
    (\<forall>e. c = Set_error e \<longrightarrow> e \<noteq> No_error \<and> io_kinds t i \<noteq> Schedule_op) \<and>
    (io_watch_failed t \<longleftrightarrow> (\<exists>(j, d) \<in> set (io_done t). \<exists>h e. io_kinds t j = Watch_op h True \<and> d = Set_error e))"
proof -
  from io_machine.reachable_inv [OF assms(1,2)] have ok: "done_ok t" by (simp add: io_ok_def)
  with c have p: "proper_completion t i c" by (auto simp: done_ok_def)
  have "failed_watch t jd \<longleftrightarrow> (case jd of (j, d) \<Rightarrow> \<exists>h e. io_kinds t j = Watch_op h True \<and> d = Set_error e)" for jd
    by (cases jd) (auto simp: failed_watch_def split: io_kind.splits io_completion.splits bool.splits)
  then have f: "io_watch_failed t \<longleftrightarrow> (\<exists>(j, d) \<in> set (io_done t). \<exists>h e. io_kinds t j = Watch_op h True \<and> d = Set_error e)"
    using ok by (simp add: done_ok_def)
  from p have "(c = Set_stopped \<longrightarrow> io_stop t i) \<and>
    (c = Set_value \<longrightarrow> io_kinds t i = Schedule_op \<or> (\<exists>h. io_kinds t i = Wait_op h) \<and> 0 < io_ready t i) \<and>
    (\<forall>e. c = Set_error e \<longrightarrow> e \<noteq> No_error \<and> io_kinds t i \<noteq> Schedule_op)"
    by (cases "io_kinds t i"; cases c) (simp_all add: proper_completion_def)
  with f show ?thesis by blast
qed

theorem completions_tell_witness: "io_stop demo_stopped 0"
  using completions_tell [OF demo_io_init demo_io_reached(2), of 0 Set_stopped] demo_io_stops(2) by simp

section \<open>The order of execution, and the end\<close>

text \<open>
  C30: operations are executed on the context's thread in the order in which they were started, each
  once; and when the thread has ended, everything started has been executed and has completed, both
  lists of waits are empty, and the poller watches nothing.
\<close>

theorem executed_in_order:
  assumes "io_init s" "io_step\<^sup>*\<^sup>* s t"
  shows "distinct (io_started t) \<and> (\<exists>later. io_started t = io_executed t @ later) \<and>
    (io_place t = Thread_ended \<longrightarrow> io_executed t = io_started t \<and> set (map fst (io_done t)) = set (io_started t) \<and>
       io_registered t = [] \<and> io_cancelled t = [] \<and> pl_watched (io_poller t) = (\<lambda>h. None))"
proof -
  from io_machine.reachable_inv [OF assms(1,2)] have ok: "held_ok t" "poller_ok t" "destroy_ok t" "order_ok t" by (simp_all add: io_ok_def)
  have ended: "io_executed t = io_started t \<and> set (map fst (io_done t)) = set (io_started t) \<and>
       io_registered t = [] \<and> io_cancelled t = [] \<and> pl_watched (io_poller t) = (\<lambda>h. None)" if p: "io_place t = Thread_ended"
  proof -
    from ok(3) have "place_flag (io_place t) \<longrightarrow> io_stopping t" "io_stopping t \<longrightarrow> held t = []" unfolding destroy_ok_def by blast+
    with p have h: "held t = []" by simp
    then have l: "io_tasks t = []" "io_registered t = []" "io_cancelled t = []" by (simp_all add: held_def)
    have "mset (map fst (io_done t)) = mset (io_started t)" using ok(1) h by (simp add: held_ok_def)
    then have "set (map fst (io_done t)) = set (io_started t)" by (rule mset_eq_setD)
    moreover have "pl_watched (io_poller t) x = None" for x
      using watched_iff [OF ok(2), of x] l by (cases "pl_watched (io_poller t) x") (auto simp: with_poller_def)
    ultimately show ?thesis using ok(4) l p by (auto simp: order_ok_def)
  qed
  from ok(1) have "distinct (io_started t)" by (simp add: held_ok_def)
  with ended ok(4) show ?thesis by (auto simp: order_ok_def)
qed

theorem executed_in_order_witness: "io_executed demo_ended = io_started demo_ended \<and> pl_watched (io_poller demo_ended) = (\<lambda>h. None)"
  using executed_in_order [OF demo_io_init demo_io_reached(3)] demo_io_ends(2) by simp

text \<open>
  The precondition of the destructor can hold, and the thread end, while a thread that started an
  operation has yet to wake the poller: \<^verbatim>\<open>submit\<close> touches the context after its operation completed.
\<close>

theorem start_may_outlive_the_thread:
  "\<exists>t. io_step\<^sup>*\<^sup>* demo_io t \<and> io_place t = Thread_ended \<and> io_destroying t = Stop_woken \<and> io_submitting t = [1]"
proof -
  have "io_destroying demo_ended = Stop_woken" by (simp add: demo_ended_def demo_stopped_def demo_rest_def demo_io_eval)
  then show ?thesis using demo_io_reached(3) demo_io_ends(2,3) by blast
qed

section \<open>A pass ends\<close>














section \<open>The lists and their links\<close>

definition lists_of :: "io_state \<Rightarrow> nat \<Rightarrow> nat list" where
  "lists_of s h = (if h = 0 then io_registered s else if h = 1 then io_cancelled s else [])"

definition move_list :: "nat \<Rightarrow> nat \<Rightarrow> (nat \<Rightarrow> nat list) \<Rightarrow> nat \<Rightarrow> nat list" where
  "move_list h i f = (\<lambda>k. remove1 i (f k))(h := remove1 i (f h) @ [i])"

lemma move_each_holds:
  assumes "holds_lists L f"
  shows "\<exists>L'. move_each h is L = Some L' \<and> holds_lists L' (fold (move_list h) is f)"
  using assms
proof (induction "is" arbitrary: L f)
  case (Cons i "is")
  from linked.move_holds [OF Cons.prems, of h i] obtain L' where
    "append_wait h i (remove_wait i L) = Some L'" "holds_lists L' (move_list h i f)" by (auto simp: move_list_def)
  with Cons.IH [of L' "move_list h i f"] show ?case by auto
qed simp

lemma take_each_fold:
  assumes "h \<noteq> k"
  shows "take_each is (f k, f h) = (fold (move_list h) is f k, fold (move_list h) is f h)"
proof (induction "is" arbitrary: f)
  case (Cons i "is")
  have "move_list h i f k = remove1 i (f k)" "move_list h i f h = remove1 i (f h) @ [i]" using assms by (simp_all add: move_list_def)
  with Cons.IH [of "move_list h i f"] show ?case by simp
qed simp

lemma fold_other: "k \<noteq> h \<Longrightarrow> f k = [] \<Longrightarrow> fold (move_list h) is f k = []"
  by (induction "is" arbitrary: f) (simp_all add: move_list_def)

lemma taken_lists: "lists_of (take_cancels s) = fold (move_list 1) (io_cancels s) (lists_of s)"
proof
  fix k
  let ?g = "fold (move_list 1) (io_cancels s) (lists_of s)"
  have "take_each (io_cancels s) (io_registered s, io_cancelled s) = (?g 0, ?g 1)"
    using take_each_fold [of 1 0 "io_cancels s" "lists_of s"] by (simp add: lists_of_def)
  moreover have "?g k = []" if "k \<noteq> 0" "k \<noteq> 1" using fold_other [OF that(2)] that by (simp add: lists_of_def)
  ultimately show "lists_of (take_cancels s) k = ?g k" by (simp add: lists_of_def [of _ k] take_cancels_def)
qed

text \<open>
  The circular lists in the store of links are the lists of waits, through all that the context
  does with them: taking the cancellations moves each wait from one list to the other by its four
  links, a wait is appended to the registered ones, and removed from whichever list has it or from
  none, and the first cancelled one is found - and no assertion of the links fails.
\<close>

theorem links_are_the_lists:
  assumes "holds_lists L (lists_of s)"
  shows "(\<exists>L'. move_each 1 (io_cancels s) L = Some L' \<and> holds_lists L' (lists_of (take_cancels s))) \<and>
    (\<forall>i. i \<notin> set (io_registered s @ io_cancelled s) \<longrightarrow>
       (\<exists>L'. append_wait 0 i L = Some L' \<and> holds_lists L' (lists_of (s\<lparr>io_registered := io_registered s @ [i]\<rparr>)))) \<and>
    (\<forall>i. holds_lists (remove_wait i L)
       (lists_of (s\<lparr>io_registered := remove1 i (io_registered s), io_cancelled := remove1 i (io_cancelled s)\<rparr>))) \<and>
    first_wait 1 L = (case io_cancelled s of [] \<Rightarrow> None | i # is \<Rightarrow> Some i)"
proof (intro conjI allI impI)
  from move_each_holds [OF assms, of 1 "io_cancels s"]
  show "\<exists>L'. move_each 1 (io_cancels s) L = Some L' \<and> holds_lists L' (lists_of (take_cancels s))" by (simp add: taken_lists)
next
  fix i assume "i \<notin> set (io_registered s @ io_cancelled s)"
  then have "i \<notin> set (lists_of s k)" for k by (simp add: lists_of_def)
  from linked.append_holds [OF assms this, of 0] obtain L' where
    "append_wait 0 i L = Some L'" "holds_lists L' ((lists_of s)(0 := lists_of s 0 @ [i]))" by blast
  moreover have "(lists_of s)(0 := lists_of s 0 @ [i]) = lists_of (s\<lparr>io_registered := io_registered s @ [i]\<rparr>)"
    by (auto simp: lists_of_def fun_eq_iff)
  ultimately show "\<exists>L'. append_wait 0 i L = Some L' \<and> holds_lists L' (lists_of (s\<lparr>io_registered := io_registered s @ [i]\<rparr>))" by simp
next
  fix i
  have "(\<lambda>k. remove1 i (lists_of s k)) =
      lists_of (s\<lparr>io_registered := remove1 i (io_registered s), io_cancelled := remove1 i (io_cancelled s)\<rparr>)"
    by (auto simp: lists_of_def fun_eq_iff)
  with linked.take_out_holds [OF assms, of i] show "holds_lists (remove_wait i L)
      (lists_of (s\<lparr>io_registered := remove1 i (io_registered s), io_cancelled := remove1 i (io_cancelled s)\<rparr>))" by simp
next
  show "first_wait 1 L = (case io_cancelled s of [] \<Rightarrow> None | i # is \<Rightarrow> Some i)"
    using linked.first_holds [OF assms, of 1] by (simp add: lists_of_def)
qed

theorem links_are_the_lists_witness: "first_wait 1 no_links = None"
proof -
  have "lists_of demo_io = (\<lambda>h. [])" by (rule ext) (simp add: lists_of_def demo_io_def io_start_def)
  then have "holds_lists no_links (lists_of demo_io)" using holds_none by simp
  from links_are_the_lists [OF this] show ?thesis by (simp add: demo_io_def io_start_def)
qed

end
